(* ===== verification/Osty_Prelude.thy ===== *)
theory Osty_Prelude
  imports Main "HOL-Library.Word"
begin

text \<open>
  Shared vocabulary of the development: the Go notions the components are written in
  (byte strings, panics, sub-slices, forward scans) and the list lemmas their proofs use.

  Conventions. A Go byte slice or string is a \<^typ>\<open>string\<close> (a list of bytes). Byte offsets,
  lengths and arena ids are \<^typ>\<open>nat\<close>: the code only ever produces them from lengths and
  earlier ids; its sentinel \<open>-1\<close> is \<^const>\<open>None\<close>. Sixty-four bit hashes are words.
  A Go panic is a value of the left summand of \<open>'a res\<close>.
\<close>

section \<open>Results\<close>

type_synonym bytes = string

datatype go_error = Panic string | OutOfFuel

type_synonym 'a res = "go_error + 'a"

type_synonym 's action = "'s \<Rightarrow> 's res"

definition bindR :: "'a res \<Rightarrow> ('a \<Rightarrow> 'b res) \<Rightarrow> 'b res" where
  "bindR r f = (case r of Inl e \<Rightarrow> Inl e | Inr x \<Rightarrow> f x)"

lemma bindR_simps [simp]:
  "bindR (Inl e) f = Inl e"
  "bindR (Inr x) f = f x"
  by (simp_all add: bindR_def)

lemma bindR_eq_Inr: "bindR r f = Inr y \<longleftrightarrow> (\<exists>x. r = Inr x \<and> f x = Inr y)"
  by (cases r) auto

lemma bindR_cong [fundef_cong]:
  "r = r' \<Longrightarrow> (\<And>x. r' = Inr x \<Longrightarrow> f x = g x) \<Longrightarrow> bindR r f = bindR r' g"
  by (cases r') auto

text \<open>A block of Go statements: run in order, stopping at the first panic.\<close>

primrec seqs :: "'s action list \<Rightarrow> 's action" where
  "seqs [] s = Inr s"
| "seqs (a # as) s = bindR (a s) (seqs as)"

text \<open>\<open>if cond { then } else { els }\<close> and \<open>if cond { then }\<close> over the current state.\<close>

definition ifA :: "('s \<Rightarrow> bool) \<Rightarrow> 's action list \<Rightarrow> 's action list \<Rightarrow> 's action" where
  "ifA c as bs s = (if c s then seqs as s else seqs bs s)"

definition whenA :: "('s \<Rightarrow> bool) \<Rightarrow> 's action list \<Rightarrow> 's action" where
  "whenA c as s = (if c s then seqs as s else Inr s)"

text \<open>A counted loop whose body may panic.\<close>

primrec foldR :: "('x \<Rightarrow> 's \<Rightarrow> 's res) \<Rightarrow> 'x list \<Rightarrow> 's \<Rightarrow> 's res" where
  "foldR f [] s = Inr s"
| "foldR f (x # xs) s = bindR (f x s) (foldR f xs)"

text \<open>A search loop: the first \<open>Some\<close> the body returns, with the state threaded through.\<close>

primrec firstR :: "('x \<Rightarrow> 's \<Rightarrow> ('y option \<times> 's) res) \<Rightarrow> 'x list \<Rightarrow> 's \<Rightarrow> ('y option \<times> 's) res" where
  "firstR f [] s = Inr (None, s)"
| "firstR f (x # xs) s =
     bindR (f x s) (\<lambda>r. case fst r of None \<Rightarrow> firstR f xs (snd r) | Some y \<Rightarrow> Inr (Some y, snd r))"

lemma foldR_append: "foldR f (xs @ ys) s = bindR (foldR f xs s) (foldR f ys)"
  by (induction xs arbitrary: s) (simp_all add: bindR_def split: sum.split)

lemma seqs_append: "seqs (as @ bs) s = bindR (seqs as s) (seqs bs)"
  by (induction as arbitrary: s) (simp_all add: bindR_def split: sum.split)

section \<open>Decimal numerals\<close>

text \<open>\<open>%d\<close> and \<open>strconv\<close> on non-negative integers.\<close>

definition digit_char :: "nat \<Rightarrow> char" where
  "digit_char d = char_of (48 + d)"

fun itoa :: "nat \<Rightarrow> string" where
  "itoa n = (if n < 10 then [digit_char n] else itoa (n div 10) @ [digit_char (n mod 10)])"

declare itoa.simps [simp del]

section \<open>Slices and scans\<close>

definition slice :: "'a list \<Rightarrow> nat \<Rightarrow> nat \<Rightarrow> 'a list" where
  "slice xs lo hi = take (hi - lo) (drop lo xs)"

lemma slice_empty [simp]: "slice xs lo lo = []"
  by (simp add: slice_def)

lemma slice_all [simp]: "slice xs 0 (length xs) = xs"
  by (simp add: slice_def)

lemma length_slice [simp]: "length (slice xs lo hi) = min (hi - lo) (length xs - lo)"
  by (simp add: slice_def)

lemma slice_append:
  assumes "lo \<le> mid" "mid \<le> hi"
  shows "slice xs lo mid @ slice xs mid hi = slice xs lo hi"
proof -
  have "take (hi - lo) (drop lo xs)
      = take ((mid - lo) + (hi - mid)) (drop lo xs)"
    using assms by simp
  also have "\<dots> = take (mid - lo) (drop lo xs) @ take (hi - mid) (drop (mid - lo) (drop lo xs))"
    by (rule take_add)
  finally show ?thesis using assms by (simp add: slice_def)
qed

text \<open>\<open>for i < len(xs) && p(xs[i]) { i++ }\<close>: the index where the scan stops.\<close>

function scan_while :: "('a \<Rightarrow> bool) \<Rightarrow> 'a list \<Rightarrow> nat \<Rightarrow> nat" where
  "scan_while p xs i = (if i < length xs \<and> p (xs ! i) then scan_while p xs (Suc i) else i)"
  by pat_completeness auto
termination
  by (relation "measure (\<lambda>(p, xs, i). length xs - i)") auto

declare scan_while.simps [simp del]

lemma scan_while_ge: "i \<le> scan_while p xs i"
proof (induction p xs i rule: scan_while.induct)
  case (1 p xs i)
  then show ?case by (cases "i < length xs \<and> p (xs ! i)") (auto simp: scan_while.simps [of p xs i])
qed

lemma scan_while_le: "i \<le> length xs \<Longrightarrow> scan_while p xs i \<le> length xs"
proof (induction p xs i rule: scan_while.induct)
  case (1 p xs i)
  then show ?case by (cases "i < length xs \<and> p (xs ! i)") (auto simp: scan_while.simps [of p xs i])
qed

lemma scan_while_all:
  "i \<le> j \<Longrightarrow> j < scan_while p xs i \<Longrightarrow> p (xs ! j)"
proof (induction p xs i rule: scan_while.induct)
  case (1 p xs i)
  show ?case
  proof (cases "i < length xs \<and> p (xs ! i)")
    case True
    then have eq: "scan_while p xs i = scan_while p xs (Suc i)"
      by (simp add: scan_while.simps [of p xs i])
    show ?thesis
    proof (cases "i = j")
      case True
      with \<open>i < length xs \<and> p (xs ! i)\<close> show ?thesis by simp
    next
      case False
      with "1.prems" have "Suc i \<le> j" by simp
      with True "1.IH" "1.prems" eq show ?thesis by simp
    qed
  next
    case False
    with "1.prems" show ?thesis by (simp add: scan_while.simps [of p xs i])
  qed
qed

lemma scan_while_stop:
  "scan_while p xs i < length xs \<Longrightarrow> \<not> p (xs ! scan_while p xs i)"
proof (induction p xs i rule: scan_while.induct)
  case (1 p xs i)
  then show ?case
    by (cases "i < length xs \<and> p (xs ! i)") (auto simp: scan_while.simps [of p xs i])
qed

lemma scan_while_Suc:
  "i < length xs \<Longrightarrow> p (xs ! i) \<Longrightarrow> Suc i \<le> scan_while p xs i"
  using scan_while_ge [of "Suc i" p xs] by (simp add: scan_while.simps [of p xs i])

section \<open>Consecutive intervals\<close>

text \<open>\<open>tiles lo ivs hi\<close>: the half-open intervals \<open>ivs\<close> follow one another without gap or
  overlap from \<open>lo\<close> to \<open>hi\<close>.\<close>

fun tiles :: "nat \<Rightarrow> (nat \<times> nat) list \<Rightarrow> nat \<Rightarrow> bool" where
  "tiles lo [] hi \<longleftrightarrow> lo = hi"
| "tiles lo ((a, b) # ivs) hi \<longleftrightarrow> a = lo \<and> lo \<le> b \<and> tiles b ivs hi"

definition covering :: "(nat \<times> nat) list \<Rightarrow> nat \<Rightarrow> nat" where
  "covering ivs i = length (filter (\<lambda>(a, b). a \<le> i \<and> i < b) ivs)"

lemma covering_simps [simp]:
  "covering [] i = 0"
  "covering ((a, b) # ivs) i = (if a \<le> i \<and> i < b then 1 else 0) + covering ivs i"
  by (simp_all add: covering_def)

lemma covering_append [simp]: "covering (xs @ ys) i = covering xs i + covering ys i"
  by (simp add: covering_def)

lemma tiles_le: "tiles lo ivs hi \<Longrightarrow> lo \<le> hi"
proof (induction ivs arbitrary: lo)
  case (Cons iv ivs)
  then show ?case by (cases iv) fastforce
qed simp

lemma tiles_append [simp]:
  "tiles lo (xs @ ys) hi \<longleftrightarrow> (\<exists>mid. tiles lo xs mid \<and> tiles mid ys hi)"
  by (induction xs arbitrary: lo) auto

lemma tiles_covering:
  "tiles lo ivs hi \<Longrightarrow> covering ivs i = (if lo \<le> i \<and> i < hi then 1 else 0)"
proof (induction ivs arbitrary: lo)
  case (Cons iv ivs)
  obtain a b where iv: "iv = (a, b)" by (cases iv)
  with Cons.prems have h: "a = lo" "lo \<le> b" "tiles b ivs hi" by auto
  from h(3) have "b \<le> hi" by (rule tiles_le)
  with Cons.IH [OF h(3)] iv h show ?case by auto
qed simp

lemma tiles_concat_slice:
  "tiles lo ivs hi \<Longrightarrow> concat (map (\<lambda>(a, b). slice xs a b) ivs) = slice xs lo hi"
proof (induction ivs arbitrary: lo)
  case (Cons iv ivs)
  obtain a b where iv: "iv = (a, b)" by (cases iv)
  with Cons.prems have h: "a = lo" "lo \<le> b" "tiles b ivs hi" by auto
  from h(3) have "b \<le> hi" by (rule tiles_le)
  with Cons.IH [OF h(3)] iv h show ?case by (simp add: slice_append)
qed simp

end
