(* ===== verification/Osty_Token.thy ===== *)
theory Osty_Token
  imports Osty_Prelude
begin

text \<open>
  \<^verbatim>\<open>src/internal/token/token.go\<close>: the token kinds, source positions and tokens that the
  concrete syntax tree is built from, with the keyword table.
  \<open>Kind_int\<close> is the \<open>iota\<close> value of a kind, which the tree stores and hashes.
\<close>

section \<open>Kinds\<close>

text \<open>A kind is a Go integer with named values; nothing but the constants is ever compared with one.\<close>

datatype Kind = Kind (Kind_val: int)

abbreviation T_EOF :: Kind where "T_EOF \<equiv> Kind 0"
abbreviation T_ILLEGAL :: Kind where "T_ILLEGAL \<equiv> Kind 1"
abbreviation T_NEWLINE :: Kind where "T_NEWLINE \<equiv> Kind 2"
abbreviation T_IDENT :: Kind where "T_IDENT \<equiv> Kind 3"
abbreviation T_LABEL :: Kind where "T_LABEL \<equiv> Kind 4"
abbreviation T_INT :: Kind where "T_INT \<equiv> Kind 5"
abbreviation T_FLOAT :: Kind where "T_FLOAT \<equiv> Kind 6"
abbreviation T_CHAR :: Kind where "T_CHAR \<equiv> Kind 7"
abbreviation T_BYTE :: Kind where "T_BYTE \<equiv> Kind 8"
abbreviation T_STRING :: Kind where "T_STRING \<equiv> Kind 9"
abbreviation T_RAWSTRING :: Kind where "T_RAWSTRING \<equiv> Kind 10"
abbreviation T_BYTESTRING :: Kind where "T_BYTESTRING \<equiv> Kind 11"
abbreviation T_FN :: Kind where "T_FN \<equiv> Kind 12"
abbreviation T_STRUCT :: Kind where "T_STRUCT \<equiv> Kind 13"
abbreviation T_ENUM :: Kind where "T_ENUM \<equiv> Kind 14"
abbreviation T_INTERFACE :: Kind where "T_INTERFACE \<equiv> Kind 15"
abbreviation T_TYPE :: Kind where "T_TYPE \<equiv> Kind 16"
abbreviation T_LET :: Kind where "T_LET \<equiv> Kind 17"
abbreviation T_MUT :: Kind where "T_MUT \<equiv> Kind 18"
abbreviation T_PUB :: Kind where "T_PUB \<equiv> Kind 19"
abbreviation T_IF :: Kind where "T_IF \<equiv> Kind 20"
abbreviation T_ELSE :: Kind where "T_ELSE \<equiv> Kind 21"
abbreviation T_MATCH :: Kind where "T_MATCH \<equiv> Kind 22"
abbreviation T_FOR :: Kind where "T_FOR \<equiv> Kind 23"
abbreviation T_BREAK :: Kind where "T_BREAK \<equiv> Kind 24"
abbreviation T_CONTINUE :: Kind where "T_CONTINUE \<equiv> Kind 25"
abbreviation T_RETURN :: Kind where "T_RETURN \<equiv> Kind 26"
abbreviation T_USE :: Kind where "T_USE \<equiv> Kind 27"
abbreviation T_DEFER :: Kind where "T_DEFER \<equiv> Kind 28"
abbreviation T_LPAREN :: Kind where "T_LPAREN \<equiv> Kind 29"
abbreviation T_RPAREN :: Kind where "T_RPAREN \<equiv> Kind 30"
abbreviation T_LBRACE :: Kind where "T_LBRACE \<equiv> Kind 31"
abbreviation T_RBRACE :: Kind where "T_RBRACE \<equiv> Kind 32"
abbreviation T_LBRACKET :: Kind where "T_LBRACKET \<equiv> Kind 33"
abbreviation T_RBRACKET :: Kind where "T_RBRACKET \<equiv> Kind 34"
abbreviation T_COMMA :: Kind where "T_COMMA \<equiv> Kind 35"
abbreviation T_COLON :: Kind where "T_COLON \<equiv> Kind 36"
abbreviation T_SEMICOLON :: Kind where "T_SEMICOLON \<equiv> Kind 37"
abbreviation T_DOT :: Kind where "T_DOT \<equiv> Kind 38"
abbreviation T_PLUS :: Kind where "T_PLUS \<equiv> Kind 39"
abbreviation T_MINUS :: Kind where "T_MINUS \<equiv> Kind 40"
abbreviation T_STAR :: Kind where "T_STAR \<equiv> Kind 41"
abbreviation T_SLASH :: Kind where "T_SLASH \<equiv> Kind 42"
abbreviation T_PERCENT :: Kind where "T_PERCENT \<equiv> Kind 43"
abbreviation T_EQ :: Kind where "T_EQ \<equiv> Kind 44"
abbreviation T_NEQ :: Kind where "T_NEQ \<equiv> Kind 45"
abbreviation T_LT :: Kind where "T_LT \<equiv> Kind 46"
abbreviation T_GT :: Kind where "T_GT \<equiv> Kind 47"
abbreviation T_LEQ :: Kind where "T_LEQ \<equiv> Kind 48"
abbreviation T_GEQ :: Kind where "T_GEQ \<equiv> Kind 49"
abbreviation T_AND :: Kind where "T_AND \<equiv> Kind 50"
abbreviation T_OR :: Kind where "T_OR \<equiv> Kind 51"
abbreviation T_NOT :: Kind where "T_NOT \<equiv> Kind 52"
abbreviation T_BITAND :: Kind where "T_BITAND \<equiv> Kind 53"
abbreviation T_BITOR :: Kind where "T_BITOR \<equiv> Kind 54"
abbreviation T_BITXOR :: Kind where "T_BITXOR \<equiv> Kind 55"
abbreviation T_BITNOT :: Kind where "T_BITNOT \<equiv> Kind 56"
abbreviation T_SHL :: Kind where "T_SHL \<equiv> Kind 57"
abbreviation T_SHR :: Kind where "T_SHR \<equiv> Kind 58"
abbreviation T_ASSIGN :: Kind where "T_ASSIGN \<equiv> Kind 59"
abbreviation T_PLUSEQ :: Kind where "T_PLUSEQ \<equiv> Kind 60"
abbreviation T_MINUSEQ :: Kind where "T_MINUSEQ \<equiv> Kind 61"
abbreviation T_STAREQ :: Kind where "T_STAREQ \<equiv> Kind 62"
abbreviation T_SLASHEQ :: Kind where "T_SLASHEQ \<equiv> Kind 63"
abbreviation T_PERCENTEQ :: Kind where "T_PERCENTEQ \<equiv> Kind 64"
abbreviation T_BITANDEQ :: Kind where "T_BITANDEQ \<equiv> Kind 65"
abbreviation T_BITOREQ :: Kind where "T_BITOREQ \<equiv> Kind 66"
abbreviation T_BITXOREQ :: Kind where "T_BITXOREQ \<equiv> Kind 67"
abbreviation T_SHLEQ :: Kind where "T_SHLEQ \<equiv> Kind 68"
abbreviation T_SHREQ :: Kind where "T_SHREQ \<equiv> Kind 69"
abbreviation T_QUESTION :: Kind where "T_QUESTION \<equiv> Kind 70"
abbreviation T_ASQUESTION :: Kind where "T_ASQUESTION \<equiv> Kind 71"
abbreviation T_QDOT :: Kind where "T_QDOT \<equiv> Kind 72"
abbreviation T_QQ :: Kind where "T_QQ \<equiv> Kind 73"
abbreviation T_DOTDOT :: Kind where "T_DOTDOT \<equiv> Kind 74"
abbreviation T_DOTDOTEQ :: Kind where "T_DOTDOTEQ \<equiv> Kind 75"
abbreviation T_ARROW :: Kind where "T_ARROW \<equiv> Kind 76"
abbreviation T_CHANARROW :: Kind where "T_CHANARROW \<equiv> Kind 77"
abbreviation T_COLONCOLON :: Kind where "T_COLONCOLON \<equiv> Kind 78"
abbreviation T_UNDERSCORE :: Kind where "T_UNDERSCORE \<equiv> Kind 79"
abbreviation T_AT :: Kind where "T_AT \<equiv> Kind 80"
abbreviation T_HASH :: Kind where "T_HASH \<equiv> Kind 81"

definition Kind_int :: "Kind \<Rightarrow> nat" where
  "Kind_int k = nat (Kind_val k)"

definition kindNames :: "string list" where
  "kindNames =
     [''EOF'', ''ILLEGAL'', ''NEWLINE'', ''IDENT'', ''LABEL'', ''INT'',
      ''FLOAT'', ''CHAR'', ''BYTE'', ''STRING'', ''RAWSTRING'', ''BYTESTRING'',
      ''fn'', ''struct'', ''enum'', ''interface'', ''type'', ''let'',
      ''mut'', ''pub'', ''if'', ''else'', ''match'', ''for'',
      ''break'', ''continue'', ''return'', ''use'', ''defer'', ''('',
      '')'', ''{'', ''}'', ''['', '']'', '','',
      '':'', '';'', ''.'', ''+'', ''-'', ''*'',
      ''/'', ''%'', ''=='', ''!='', ''<'', ''>'',
      ''<='', ''>='', ''&&'', ''||'', ''!'', ''&'',
      ''|'', ''^'', ''~'', ''<<'', ''>>'', ''='',
      ''+='', ''-='', ''*='', ''/='', ''%='', ''&='',
      ''|='', ''^='', ''<<='', ''>>='', ''?'', ''as?'',
      ''?.'', ''??'', ''..'', ''..='', ''->'', ''<-'',
      ''::'', ''_'', ''@'', ''#'']"

definition Kind_String :: "Kind \<Rightarrow> string" where
  "Kind_String k =
     (if 0 \<le> Kind_val k \<and> Kind_int k < length kindNames then kindNames ! Kind_int k
      else ''Kind('' @ (if Kind_val k < 0 then ''-'' else []) @ itoa (nat \<bar>Kind_val k\<bar>) @ '')'')"

section \<open>Positions and tokens\<close>

record Pos =
  Offset :: nat
  Line :: nat
  Column :: nat

definition Pos_String :: "Pos \<Rightarrow> string" where
  "Pos_String p = itoa (Line p) @ '':'' @ itoa (Column p)"

datatype StringPartKind = PartText | PartExpr

datatype StringPart =
    StringPart (sp_Kind: StringPartKind) (sp_Text: string) (sp_Expr: "Token list")
and Token =
    Token (tok_Kind: Kind) (tok_Pos: Pos) (tok_End: Pos) (tok_Value: string)
      (tok_Parts: "StringPart list") (tok_Triple: bool) (tok_LeadingDoc: string)

abbreviation tok_start :: "Token \<Rightarrow> nat" where
  "tok_start t \<equiv> Offset (tok_Pos t)"

abbreviation tok_stop :: "Token \<Rightarrow> nat" where
  "tok_stop t \<equiv> Offset (tok_End t)"

text \<open>A token with a lexeme and offsets only, for concrete inputs.\<close>

definition tokAt :: "Kind \<Rightarrow> nat \<Rightarrow> nat \<Rightarrow> string \<Rightarrow> Token" where
  "tokAt k a b v = Token k \<lparr>Offset = a, Line = 1, Column = a + 1\<rparr> \<lparr>Offset = b, Line = 1, Column = b + 1\<rparr>
     v [] False []"

definition isEOF :: "Token \<Rightarrow> bool" where
  "isEOF t \<longleftrightarrow> tok_Kind t = T_EOF"

section \<open>Comments\<close>

datatype CommentKind = CommentLine | CommentBlock | CommentDoc

record Comment =
  cm_Kind :: CommentKind
  cm_Pos :: Pos
  cm_Text :: string
  cm_EndLine :: nat

section \<open>Keywords\<close>

definition Keywords :: "(string \<times> Kind) list" where
  "Keywords =
     [(''fn'', T_FN), (''struct'', T_STRUCT), (''enum'', T_ENUM), (''interface'', T_INTERFACE),
      (''type'', T_TYPE), (''let'', T_LET), (''mut'', T_MUT), (''pub'', T_PUB), (''if'', T_IF),
      (''else'', T_ELSE), (''match'', T_MATCH), (''for'', T_FOR), (''break'', T_BREAK),
      (''continue'', T_CONTINUE), (''return'', T_RETURN), (''use'', T_USE), (''defer'', T_DEFER)]"

definition LookupKeyword :: "string \<Rightarrow> Kind" where
  "LookupKeyword s = (case map_of Keywords s of Some k \<Rightarrow> k | None \<Rightarrow> T_IDENT)"

lemma LookupKeyword_spelling:
  "LookupKeyword s \<noteq> T_IDENT \<Longrightarrow> Kind_String (LookupKeyword s) = s"
  by (auto simp: LookupKeyword_def Keywords_def Kind_String_def Kind_int_def kindNames_def split: if_splits)

lemma LookupKeyword_complete:
  assumes "(s, k) \<in> set Keywords"
  shows "LookupKeyword s = k"
proof -
  have "distinct (map fst Keywords)" by code_simp
  with assms have "map_of Keywords s = Some k" by (simp add: map_of_eq_Some_iff)
  then show ?thesis by (simp add: LookupKeyword_def)
qed

text \<open>Keyword lookup is the inverse of the spelling table: an identifier is classified as a
  keyword kind exactly when that kind is one of the 17 keywords and the identifier is its
  spelling, and as IDENT otherwise.\<close>

theorem LookupKeyword_correct:
  "(if s \<in> fst ` set Keywords
    then LookupKeyword s \<in> snd ` set Keywords \<and> Kind_String (LookupKeyword s) = s
    else LookupKeyword s = T_IDENT) \<and> length Keywords = 17"
proof -
  have dom: "map_of Keywords s = None \<longleftrightarrow> s \<notin> fst ` set Keywords" by (rule map_of_eq_None_iff)
  have ran: "map_of Keywords s = Some k \<Longrightarrow> k \<in> snd ` set Keywords" for k
    by (drule map_of_SomeD) force
  have "map_of Keywords s = Some k \<Longrightarrow> k \<noteq> T_IDENT" for k
    by (drule map_of_SomeD) (auto simp: Keywords_def)
  then have "Kind_String (LookupKeyword s) = s" if "map_of Keywords s = Some k" for k
    using that LookupKeyword_spelling [of s] by (simp add: LookupKeyword_def)
  then show ?thesis using dom ran
    by (cases "map_of Keywords s") (auto simp: LookupKeyword_def Keywords_def [THEN arg_cong [where f = length]])
qed

end
