(* ===== verification/CST_Trivia.thy ===== *)
theory CST_Trivia
  imports Osty_Token
begin

text \<open>
  \<^verbatim>\<open>src/internal/cst/trivia.go\<close>: line-ending normalisation, the line index and the trivia
  extractor. Shown here: \<open>Normalize\<close> removes every carriage return and is idempotent;
  \<open>locate\<close> finds the line and column of an offset; \<open>Extract\<close> returns ordered,
  non-empty, in-bounds spans for any token stream, and together with a token stream whose
  tokens do not cut a trivia run covers every byte exactly once.
\<close>

section \<open>Trivia records\<close>

datatype TriviaKind =
    TriviaNone | TriviaWhitespace | TriviaNewline | TriviaLineComment | TriviaBlockComment
  | TriviaDocComment | TriviaShebang | TriviaBom | TriviaUnterminatedBlockComment

fun TriviaKind_String :: "TriviaKind \<Rightarrow> string" where
  "TriviaKind_String TriviaWhitespace = ''whitespace''"
| "TriviaKind_String TriviaNewline = ''newline''"
| "TriviaKind_String TriviaLineComment = ''line-comment''"
| "TriviaKind_String TriviaBlockComment = ''block-comment''"
| "TriviaKind_String TriviaDocComment = ''doc-comment''"
| "TriviaKind_String TriviaShebang = ''shebang''"
| "TriviaKind_String TriviaBom = ''bom''"
| "TriviaKind_String TriviaUnterminatedBlockComment = ''unterminated-block-comment''"
| "TriviaKind_String TriviaNone = ''unknown-trivia''"

record Trivia =
  tr_Kind :: TriviaKind
  tr_Offset :: nat
  tr_Length :: nat
  tr_Pos :: Pos
  tr_End :: Pos

abbreviation tr_stop :: "Trivia \<Rightarrow> nat" where
  "tr_stop t \<equiv> tr_Offset t + tr_Length t"

abbreviation LF :: char where "LF \<equiv> CHR 0x0A"
abbreviation CR :: char where "CR \<equiv> CHR 0x0D"
abbreviation TAB :: char where "TAB \<equiv> CHR 0x09"

section \<open>Normalisation\<close>

text \<open>The copying loop: a carriage return becomes a line feed and swallows a line feed
  that follows it.\<close>

fun normalize_loop :: "bytes \<Rightarrow> bytes" where
  "normalize_loop [] = []"
| "normalize_loop [b] = (if b = CR then [LF] else [b])"
| "normalize_loop (b # c # bs) =
     (if b = CR then (if c = LF then LF # normalize_loop bs else LF # normalize_loop (c # bs))
      else b # normalize_loop (c # bs))"

definition Normalize :: "bytes \<Rightarrow> bytes" where
  "Normalize src = (if CR \<in> set src then normalize_loop src else src)"

section \<open>The line index\<close>

record lineIndex =
  starts :: "nat list"
  total :: nat

text \<open>\<open>line_starts_from i src\<close>: one past the position of every line feed, counting from \<open>i\<close>.\<close>

fun line_starts_from :: "nat \<Rightarrow> bytes \<Rightarrow> nat list" where
  "line_starts_from i [] = []"
| "line_starts_from i (b # bs) =
     (if b = LF then Suc i # line_starts_from (Suc i) bs else line_starts_from (Suc i) bs)"

definition newLineIndex :: "bytes \<Rightarrow> lineIndex" where
  "newLineIndex src = \<lparr>starts = 0 # line_starts_from 0 src, total = length src\<rparr>"

text \<open>The binary search of \<open>locate\<close>: the least index whose start is past \<open>offset\<close>.\<close>

function locate_search :: "nat list \<Rightarrow> nat \<Rightarrow> nat \<Rightarrow> nat \<Rightarrow> nat" where
  "locate_search ss offset lo hi =
     (if lo < hi then
        (let mid = (lo + hi) div 2
         in if ss ! mid \<le> offset then locate_search ss offset (mid + 1) hi
            else locate_search ss offset lo mid)
      else lo)"
  by pat_completeness auto
termination
  by (relation "measure (\<lambda>(ss, offset, lo, hi). hi - lo)") (auto simp: less_Suc_eq_le)

declare locate_search.simps [simp del]

definition locate :: "lineIndex \<Rightarrow> nat \<Rightarrow> Pos" where
  "locate li offset =
     (if offset = 0 then \<lparr>Offset = 0, Line = 1, Column = 1\<rparr>
      else
        (let off = (if offset \<ge> total li then total li else offset);
             line = locate_search (starts li) off 0 (length (starts li));
             start = starts li ! (line - 1)
         in \<lparr>Offset = off, Line = line, Column = off - start + 1\<rparr>))"

section \<open>Classification\<close>

text \<open>\<open>utf8.DecodeRune\<close> returns U+FEFF exactly on its three-byte encoding.\<close>

definition bom_at :: "bytes \<Rightarrow> nat \<Rightarrow> bool" where
  "bom_at src i \<longleftrightarrow> take 3 (drop i src) = [CHR 0xEF, CHR 0xBB, CHR 0xBF]"

text \<open>The search for the closing \<open>*/\<close>: \<open>Some e\<close> when it stands at \<open>e\<close>.\<close>

function block_end :: "bytes \<Rightarrow> nat \<Rightarrow> nat option" where
  "block_end src e =
     (if e + 1 < length src then
        (if src ! e = CHR ''*'' \<and> src ! (e + 1) = CHR ''/'' then Some e
         else block_end src (e + 1))
      else None)"
  by pat_completeness auto
termination
  by (relation "measure (\<lambda>(src, e). length src - e)") auto

declare block_end.simps [simp del]

definition isDoc :: "bytes \<Rightarrow> nat \<Rightarrow> bool" where
  "isDoc src start \<longleftrightarrow>
     start + 2 < length src \<and> src ! (start + 2) = CHR ''/'' \<and>
     (start + 3 \<ge> length src \<or> src ! (start + 3) \<noteq> CHR ''/'')"

definition classifyTrivia :: "bytes \<Rightarrow> nat \<Rightarrow> bool \<Rightarrow> TriviaKind \<times> nat" where
  "classifyTrivia src start atFileStart =
     (if start \<ge> length src then (TriviaNone, 0)
      else if atFileStart \<and> bom_at src start then (TriviaBom, 3)
      else
        (let b = src ! start in
         if atFileStart \<and> b = CHR ''#'' \<and> start + 1 < length src \<and> src ! (start + 1) = CHR ''!''
         then (TriviaShebang, scan_while (\<lambda>c. c \<noteq> LF) src (start + 2) - start)
         else if b = LF then (TriviaNewline, scan_while (\<lambda>c. c = LF) src start - start)
         else if b = CHR '' '' \<or> b = TAB
         then (TriviaWhitespace, scan_while (\<lambda>c. c = CHR '' '' \<or> c = TAB) src start - start)
         else if b = CHR ''/'' \<and> start + 1 < length src
         then
           (if src ! (start + 1) = CHR ''/''
            then
              (if isDoc src start
               then (TriviaDocComment, scan_while (\<lambda>c. c \<noteq> LF) src (start + 2) - start)
               else (TriviaLineComment, scan_while (\<lambda>c. c \<noteq> LF) src (start + 2) - start))
            else if src ! (start + 1) = CHR ''*''
            then
              (case block_end src (start + 2) of
                 Some e \<Rightarrow> (TriviaBlockComment, e + 2 - start)
               | None \<Rightarrow> (TriviaUnterminatedBlockComment, length src - start))
            else (TriviaNone, 0))
         else (TriviaNone, 0)))"

section \<open>Extraction\<close>

definition emit_trivia :: "bytes \<Rightarrow> lineIndex \<Rightarrow> TriviaKind \<Rightarrow> nat \<Rightarrow> nat \<Rightarrow> Trivia list" where
  "emit_trivia src li kind start len =
     (if len = 0 then []
      else
        (let end0 = (if start + len > length src then length src else start + len)
         in [\<lparr>tr_Kind = kind, tr_Offset = start, tr_Length = end0 - start,
              tr_Pos = locate li start, tr_End = locate li end0\<rparr>]))"

text \<open>The inner loop \<open>for idx < stopAt\<close>: the trivia found, the index reached, and the
  file-start flag.\<close>

function extract_gap ::
  "bytes \<Rightarrow> lineIndex \<Rightarrow> nat \<Rightarrow> nat \<Rightarrow> bool \<Rightarrow> Trivia list \<times> nat \<times> bool" where
  "extract_gap src li stopAt idx atFileStart =
     (if idx < stopAt then
        (let kc = classifyTrivia src idx atFileStart in
         if snd kc = 0
         then (let r = extract_gap src li stopAt (idx + 1) False
               in (emit_trivia src li TriviaWhitespace idx 1 @ fst r, snd r))
         else (let r = extract_gap src li stopAt (idx + snd kc) False
               in (emit_trivia src li (fst kc) idx (snd kc) @ fst r, snd r)))
      else ([], idx, atFileStart))"
  by pat_completeness auto
termination
  by (relation "measure (\<lambda>(src, li, stopAt, idx, atFileStart). stopAt - idx)") auto

declare extract_gap.simps [simp del]

text \<open>The loop over the tokens; an EOF token runs its gap to the end of the source and
  leaves the loop.\<close>

fun extract_toks ::
  "bytes \<Rightarrow> lineIndex \<Rightarrow> nat \<Rightarrow> bool \<Rightarrow> Token list \<Rightarrow> Trivia list \<times> nat \<times> bool" where
  "extract_toks src li idx atFileStart [] = ([], idx, atFileStart)"
| "extract_toks src li idx atFileStart (tok # toks) =
     (let s0 = (if tok_Kind tok = T_EOF then length src else tok_start tok);
          stopAt = (if s0 > length src then length src else s0);
          r = extract_gap src li stopAt idx atFileStart
      in if tok_Kind tok = T_EOF then r
         else
           (let idx1 = fst (snd r);
                idx2 = (if tok_stop tok > idx1 then tok_stop tok else idx1);
                r2 = extract_toks src li idx2 False toks
            in (fst r @ fst r2, snd r2)))"

definition Extract :: "bytes \<Rightarrow> Token list \<Rightarrow> Trivia list" where
  "Extract src toks =
     (let li = newLineIndex src;
          r = extract_toks src li 0 True toks;
          r2 = extract_gap src li (length src) (fst (snd r)) (snd (snd r))
      in fst r @ fst r2)"

section \<open>Normalisation: no carriage return left, idempotent\<close>

lemma normalize_loop_no_CR: "CR \<notin> set (normalize_loop src)"
  by (induction src rule: normalize_loop.induct) auto

lemma normalize_loop_id: "CR \<notin> set src \<Longrightarrow> normalize_loop src = src"
  by (induction src rule: normalize_loop.induct) auto

lemma normalize_loop_content:
  "filter (\<lambda>c. c \<noteq> CR \<and> c \<noteq> LF) (normalize_loop src) = filter (\<lambda>c. c \<noteq> CR \<and> c \<noteq> LF) src"
  by (induction src rule: normalize_loop.induct) auto

lemma Normalize_eq_loop: "Normalize src = normalize_loop src"
  by (simp add: Normalize_def normalize_loop_id)

section \<open>The line index: the reference position\<close>

definition ref_pos :: "bytes \<Rightarrow> nat \<Rightarrow> Pos" where
  "ref_pos src off =
     \<lparr>Offset = off,
      Line = Suc (length (filter (\<lambda>c. c = LF) (take off src))),
      Column = Suc (length (takeWhile (\<lambda>c. c \<noteq> LF) (rev (take off src))))\<rparr>"

lemma line_starts_from_snoc:
  "line_starts_from i (xs @ [b]) =
     line_starts_from i xs @ (if b = LF then [Suc (i + length xs)] else [])"
  by (induction xs arbitrary: i) auto

lemma line_starts_from_append:
  "line_starts_from i (xs @ ys) = line_starts_from i xs @ line_starts_from (i + length xs) ys"
  by (induction xs arbitrary: i) auto

lemma line_starts_from_gt: "s \<in> set (line_starts_from i xs) \<Longrightarrow> i < s \<and> s \<le> i + length xs"
  by (induction xs arbitrary: i) (fastforce split: if_splits)+

lemma sorted_line_starts_from: "sorted (line_starts_from i xs)"
  by (induction xs arbitrary: i) (auto dest: line_starts_from_gt)

lemma length_line_starts_from:
  "length (line_starts_from i xs) = length (filter (\<lambda>c. c = LF) xs)"
  by (induction xs arbitrary: i) auto

lemma last_line_start:
  "last (0 # line_starts_from 0 xs) + length (takeWhile (\<lambda>c. c \<noteq> LF) (rev xs)) = length xs"
  by (induction xs rule: rev_induct) (auto simp: line_starts_from_snoc)

text \<open>The starts that do not exceed an offset are those of the text before it.\<close>

lemma filter_line_starts:
  assumes "off \<le> length src"
  shows "filter (\<lambda>s. s \<le> off) (line_starts_from 0 src) = line_starts_from 0 (take off src)"
proof -
  have split: "line_starts_from 0 src
      = line_starts_from 0 (take off src) @ line_starts_from off (drop off src)"
    using line_starts_from_append [of 0 "take off src" "drop off src"] assms by simp
  have lo: "s \<le> off" if "s \<in> set (line_starts_from 0 (take off src))" for s
    using line_starts_from_gt [OF that] assms by simp
  have hi: "off < s" if "s \<in> set (line_starts_from off (drop off src))" for s
    using line_starts_from_gt [OF that] by simp
  have "filter (\<lambda>s. s \<le> off) (line_starts_from off (drop off src)) = []"
    using hi by (fastforce simp: filter_empty_conv)
  moreover have "filter (\<lambda>s. s \<le> off) (line_starts_from 0 (take off src))
      = line_starts_from 0 (take off src)"
    using lo by (simp add: filter_id_conv)
  ultimately show ?thesis by (simp add: split)
qed

text \<open>The binary search counts the starts that do not exceed the offset.\<close>

lemma locate_search_count:
  assumes "sorted ss" and "lo \<le> hi" "hi \<le> length ss"
    and "\<forall>s \<in> set (take lo ss). s \<le> off" and "\<forall>s \<in> set (drop hi ss). off < s"
  shows "locate_search ss off lo hi = length (filter (\<lambda>s. s \<le> off) ss)"
  using assms
proof (induction ss off lo hi rule: locate_search.induct)
  case (1 ss off lo hi)
  show ?case
  proof (cases "lo < hi")
    case True
    define mid where "mid = (lo + hi) div 2"
    have mid: "lo \<le> mid" "mid < hi" using True by (auto simp: mid_def)
    then have ml: "mid < length ss" using "1.prems" by simp
    show ?thesis
    proof (cases "ss ! mid \<le> off")
      case le: True
      have "\<forall>s \<in> set (take (mid + 1) ss). s \<le> off"
      proof
        fix s assume "s \<in> set (take (mid + 1) ss)"
        then obtain j where j: "j < mid + 1" "j < length ss" "s = ss ! j"
          by (auto simp: in_set_conv_nth)
        then have "ss ! j \<le> ss ! mid" using "1.prems"(1) ml by (simp add: sorted_nth_mono)
        with j le show "s \<le> off" by simp
      qed
      moreover have "locate_search ss off lo hi = locate_search ss off (mid + 1) hi"
        using True le by (simp add: locate_search.simps [of ss off lo hi] mid_def Let_def)
      moreover have "mid + 1 \<le> hi" using mid by simp
      ultimately show ?thesis
        using "1.IH"(1) [OF True mid_def le] "1.prems" by simp
    next
      case gt: False
      have "\<forall>s \<in> set (drop mid ss). off < s"
      proof
        fix s assume "s \<in> set (drop mid ss)"
        then obtain j where "j < length (drop mid ss)" "s = drop mid ss ! j"
          by (auto simp: in_set_conv_nth)
        then have j: "mid + j < length ss" "s = ss ! (mid + j)" by auto
        then have "ss ! mid \<le> ss ! (mid + j)" using "1.prems"(1) by (simp add: sorted_nth_mono)
        with j gt show "off < s" by simp
      qed
      moreover have "locate_search ss off lo hi = locate_search ss off lo mid"
        using True gt by (simp add: locate_search.simps [of ss off lo hi] mid_def Let_def)
      ultimately show ?thesis
        using "1.IH"(2) [OF True mid_def gt] "1.prems" mid ml by simp
    qed
  next
    case False
    then have eq: "hi = lo" using "1.prems" by simp
    have "filter (\<lambda>s. s \<le> off) ss
        = filter (\<lambda>s. s \<le> off) (take lo ss) @ filter (\<lambda>s. s \<le> off) (drop lo ss)"
      by (metis append_take_drop_id filter_append)
    moreover have "filter (\<lambda>s. s \<le> off) (take lo ss) = take lo ss"
      using "1.prems" by (simp add: filter_id_conv)
    moreover have "filter (\<lambda>s. s \<le> off) (drop lo ss) = []"
      using "1.prems" eq by (fastforce simp: filter_empty_conv)
    ultimately have "length (filter (\<lambda>s. s \<le> off) ss) = lo" using "1.prems" eq by simp
    with False show ?thesis by (simp add: locate_search.simps [of ss off lo hi])
  qed
qed

lemma locate_in_range:
  assumes "off \<le> length src"
  shows "locate (newLineIndex src) off = ref_pos src off"
proof -
  let ?ss = "0 # line_starts_from 0 src"
  let ?pre = "line_starts_from 0 (take off src)"
  have sorted: "sorted ?ss" by (simp add: sorted_line_starts_from)
  have filt: "filter (\<lambda>s. s \<le> off) ?ss = 0 # ?pre" by (simp add: filter_line_starts [OF assms])
  have search: "locate_search ?ss off 0 (length ?ss) = length (0 # ?pre)"
    using locate_search_count [OF sorted, of 0 "length ?ss" off] filt by simp
  have prefix: "?ss ! length ?pre = last (0 # ?pre)"
  proof -
    have "line_starts_from 0 src = ?pre @ line_starts_from off (drop off src)"
      using line_starts_from_append [of 0 "take off src" "drop off src"] assms by simp
    then have "?ss = (0 # ?pre) @ line_starts_from off (drop off src)" by simp
    then have "?ss ! length ?pre = (0 # ?pre) ! length ?pre"
      by (simp only: nth_append) simp
    also have "\<dots> = last (0 # ?pre)"
      by (cases ?pre rule: rev_cases) (auto simp: nth_append)
    finally show ?thesis .
  qed
  have col: "off - last (0 # ?pre) = length (takeWhile (\<lambda>c. c \<noteq> LF) (rev (take off src)))"
    using last_line_start [of "take off src"] assms by simp
  show ?thesis
  proof (cases "off = 0")
    case True
    then show ?thesis by (simp add: locate_def ref_pos_def)
  next
    case False
    have "(if off \<ge> total (newLineIndex src) then total (newLineIndex src) else off) = off"
      using assms by (simp add: newLineIndex_def)
    then have "locate (newLineIndex src) off =
        \<lparr>Offset = off, Line = length (0 # ?pre), Column = off - last (0 # ?pre) + 1\<rparr>"
      unfolding locate_def Let_def using False search prefix
      by (simp add: newLineIndex_def del: last.simps)
    then show ?thesis by (simp add: ref_pos_def length_line_starts_from col del: last.simps)
  qed
qed

lemma locate_clamps:
  assumes "length src \<le> off"
  shows "locate (newLineIndex src) off = locate (newLineIndex src) (length src)"
proof (cases "length src = 0")
  case True
  then show ?thesis
    by (simp add: locate_def newLineIndex_def locate_search.simps [of "[0]"]
        locate_search.simps [of "[0]" 0 1 1] Let_def)
next
  case False
  moreover from this assms have "0 < off" by linarith
  ultimately show ?thesis using assms by (auto simp: locate_def newLineIndex_def Let_def)
qed

section \<open>Classification stays inside the source\<close>

lemma block_end_bounds: "block_end src e = Some k \<Longrightarrow> e \<le> k \<and> k + 1 < length src"
proof (induction src e rule: block_end.induct)
  case (1 src e)
  show ?case
  proof (cases "e + 1 < length src \<and> \<not> (src ! e = CHR ''*'' \<and> src ! (e + 1) = CHR ''/'')")
    case True
    then have "block_end src (e + 1) = Some k"
      using "1.prems" by (simp add: block_end.simps [of src e] split: if_splits)
    with True "1.IH" show ?thesis by auto
  next
    case False
    with "1.prems" show ?thesis by (auto simp: block_end.simps [of src e] split: if_splits)
  qed
qed

lemma bom_at_length: "bom_at src i \<Longrightarrow> i + 3 \<le> length src"
proof -
  assume "bom_at src i"
  then have "length (take 3 (drop i src)) = 3" by (simp add: bom_at_def)
  then show ?thesis by simp
qed

lemma scan_while_consumed:
  "i + k \<le> length src \<Longrightarrow> i + (scan_while p src (i + k) - i) \<le> length src"
  using scan_while_le [of "i + k" src p] scan_while_ge [of "i + k" p src] by simp

lemma classifyTrivia_bound:
  assumes "i < length src"
  shows "i + snd (classifyTrivia src i b) \<le> length src"
proof -
  have "i + (scan_while p src i - i) \<le> length src" for p
    using scan_while_consumed [of i 0 src p] assms by simp
  moreover have "i + (scan_while p src (i + 2) - i) \<le> length src" if "i + 1 < length src" for p
    using scan_while_consumed [of i 2 src p] that by simp
  moreover have "i + (e + 2 - i) \<le> length src" if "block_end src (i + 2) = Some e" for e
    using block_end_bounds [OF that] by simp
  ultimately show ?thesis
    using assms
    by (auto simp: classifyTrivia_def Let_def bom_at_length split: option.split)
qed

section \<open>Extraction: contiguous runs\<close>

definition tr_iv :: "Trivia \<Rightarrow> nat \<times> nat" where
  "tr_iv t = (tr_Offset t, tr_stop t)"

definition tok_iv :: "Token \<Rightarrow> nat \<times> nat" where
  "tok_iv t = (tok_start t, tok_stop t)"

lemma emit_trivia_in_range:
  assumes "0 < len" "i + len \<le> length src"
  shows "emit_trivia src li k i len =
    [\<lparr>tr_Kind = k, tr_Offset = i, tr_Length = len, tr_Pos = locate li i, tr_End = locate li (i + len)\<rparr>]"
  using assms by (simp add: emit_trivia_def)

text \<open>How far one turn of the gap loop moves.\<close>

definition trivia_step :: "bytes \<Rightarrow> nat \<Rightarrow> bool \<Rightarrow> nat" where
  "trivia_step src i b = (if snd (classifyTrivia src i b) = 0 then 1 else snd (classifyTrivia src i b))"

lemma trivia_step_bounds:
  "i < length src \<Longrightarrow> 0 < trivia_step src i b \<and> i + trivia_step src i b \<le> length src"
  using classifyTrivia_bound [of i src b] by (simp add: trivia_step_def)

lemma extract_gap_unfold:
  assumes "idx < stopAt" "stopAt \<le> length src"
  obtains t where "extract_gap src li stopAt idx b =
      (t # fst (extract_gap src li stopAt (idx + trivia_step src idx b) False),
       snd (extract_gap src li stopAt (idx + trivia_step src idx b) False))"
    and "tr_iv t = (idx, idx + trivia_step src idx b)"
    and "tr_Pos t = locate li idx" and "tr_End t = locate li (idx + trivia_step src idx b)"
proof -
  have "idx < length src" using assms by simp
  note b = trivia_step_bounds [OF this, of b]
  show thesis
    using b assms that
    by (cases "snd (classifyTrivia src idx b) = 0")
      (auto simp: extract_gap.simps [of src li stopAt idx b] Let_def trivia_step_def tr_iv_def
        emit_trivia_in_range)
qed

lemma extract_gap_done: "\<not> idx < stopAt \<Longrightarrow> extract_gap src li stopAt idx b = ([], idx, b)"
  by (simp add: extract_gap.simps [of src li stopAt idx b])

lemma extract_gap_tiles:
  assumes "stopAt \<le> length src" "idx \<le> length src"
  shows "tiles idx (map tr_iv (fst (extract_gap src li stopAt idx b)))
           (fst (snd (extract_gap src li stopAt idx b)))
       \<and> fst (snd (extract_gap src li stopAt idx b)) \<le> length src
       \<and> stopAt \<le> max idx (fst (snd (extract_gap src li stopAt idx b)))
       \<and> list_all (\<lambda>t. 0 < tr_Length t) (fst (extract_gap src li stopAt idx b))"
  using assms
proof (induction "length src - idx" arbitrary: idx b rule: less_induct)
  case less
  show ?case
  proof (cases "idx < stopAt")
    case True
    then have il: "idx < length src" using less.prems by simp
    note st = trivia_step_bounds [OF il, of b]
    let ?n = "idx + trivia_step src idx b"
    obtain t where eq: "extract_gap src li stopAt idx b =
        (t # fst (extract_gap src li stopAt ?n False), snd (extract_gap src li stopAt ?n False))"
      and iv: "tr_iv t = (idx, ?n)"
      using extract_gap_unfold [OF True less.prems(1)] .
    have "length src - ?n < length src - idx" using st il by arith
    from less.hyps [OF this less.prems(1), of False] st
    have IH: "tiles ?n (map tr_iv (fst (extract_gap src li stopAt ?n False)))
           (fst (snd (extract_gap src li stopAt ?n False)))"
         "fst (snd (extract_gap src li stopAt ?n False)) \<le> length src"
         "stopAt \<le> max ?n (fst (snd (extract_gap src li stopAt ?n False)))"
         "list_all (\<lambda>t. 0 < tr_Length t) (fst (extract_gap src li stopAt ?n False))"
      by auto
    from iv have "tr_Length t = trivia_step src idx b" by (auto simp: tr_iv_def)
    with IH iv st tiles_le [OF IH(1)] show ?thesis by (auto simp: eq)
  next
    case False
    with less.prems show ?thesis by (simp add: extract_gap_done)
  qed
qed

lemma extract_gap_positive:
  assumes "stopAt \<le> length src"
  shows "list_all (\<lambda>t. 0 < tr_Length t) (fst (extract_gap src li stopAt idx b))"
proof (cases "idx < stopAt")
  case True
  then have "idx \<le> length src" using assms by simp
  then show ?thesis using extract_gap_tiles [OF assms] by blast
qed (simp add: extract_gap_done)

lemma extract_toks_positive:
  "list_all (\<lambda>t. 0 < tr_Length t) (fst (extract_toks src li idx b toks))"
  by (induction toks arbitrary: idx b) (simp_all add: Let_def extract_gap_positive)

lemma Extract_positive: "\<forall>t \<in> set (Extract src toks). 0 < tr_Length t"
  using extract_toks_positive extract_gap_positive [of "length src" src]
  by (simp add: Extract_def Let_def list_all_iff ball_Un)

section \<open>Extraction: ordered spans for any token stream\<close>

fun spans_ordered :: "nat \<Rightarrow> Trivia list \<Rightarrow> nat \<Rightarrow> bool" where
  "spans_ordered lo [] hi \<longleftrightarrow> lo \<le> hi"
| "spans_ordered lo (t # ts) hi \<longleftrightarrow>
     lo \<le> tr_Offset t \<and> 0 < tr_Length t \<and> spans_ordered (tr_stop t) ts hi"

lemma spans_ordered_append:
  "spans_ordered lo ts mid \<Longrightarrow> spans_ordered mid us hi \<Longrightarrow> spans_ordered lo (ts @ us) hi"
proof (induction ts arbitrary: lo)
  case Nil
  then show ?case by (cases us) auto
qed simp

lemma spans_ordered_weaken: "spans_ordered lo ts hi \<Longrightarrow> hi \<le> hi' \<Longrightarrow> spans_ordered lo ts hi'"
  by (induction ts arbitrary: lo) auto

lemma tiles_spans_ordered:
  "tiles lo (map tr_iv ts) hi \<Longrightarrow> list_all (\<lambda>t. 0 < tr_Length t) ts \<Longrightarrow> spans_ordered lo ts hi"
  by (induction ts arbitrary: lo) (auto simp: tr_iv_def)

lemma extract_gap_ordered:
  assumes "stopAt \<le> length src" "idx \<le> length src"
  shows "spans_ordered idx (fst (extract_gap src li stopAt idx b))
      (fst (snd (extract_gap src li stopAt idx b)))"
  using extract_gap_tiles [OF assms, of li b] by (blast intro: tiles_spans_ordered)

lemma extract_toks_ordered:
  assumes "idx \<le> length src" "list_all (\<lambda>t. tok_stop t \<le> length src) toks"
  shows "spans_ordered idx (fst (extract_toks src li idx b toks))
           (fst (snd (extract_toks src li idx b toks)))
       \<and> fst (snd (extract_toks src li idx b toks)) \<le> length src"
  using assms
proof (induction toks arbitrary: idx b)
  case (Cons tok toks)
  define stopAt where "stopAt = (let s0 = (if tok_Kind tok = T_EOF then length src else tok_start tok)
      in if s0 > length src then length src else s0)"
  have st: "stopAt \<le> length src" by (simp add: stopAt_def Let_def)
  let ?r = "extract_gap src li stopAt idx b"
  have gap: "spans_ordered idx (fst ?r) (fst (snd ?r))" "fst (snd ?r) \<le> length src"
    using extract_gap_ordered [OF st Cons.prems(1)] extract_gap_tiles [OF st Cons.prems(1), of li b]
    by auto
  show ?case
  proof (cases "tok_Kind tok = T_EOF")
    case True
    with gap show ?thesis by (simp add: stopAt_def Let_def)
  next
    case False
    let ?i2 = "max (fst (snd ?r)) (tok_stop tok)"
    have i2: "?i2 \<le> length src" using gap Cons.prems by simp
    have eq: "extract_toks src li idx b (tok # toks) =
        (fst ?r @ fst (extract_toks src li ?i2 False toks), snd (extract_toks src li ?i2 False toks))"
      using False by (simp add: stopAt_def Let_def max_def)
    note IH = Cons.IH [OF i2, of False]
    have "spans_ordered idx (fst ?r) ?i2"
      using gap(1) by (rule spans_ordered_weaken) simp
    with IH Cons.prems show ?thesis unfolding eq by (auto intro: spans_ordered_append)
  qed
qed simp

text \<open>Whatever token stream it is given (as long as no token ends past the source),
  \<open>Extract\<close> returns non-empty spans, in source order, that do not overlap and stay
  inside the source.\<close>

theorem Extract_ordered:
  assumes "list_all (\<lambda>t. tok_stop t \<le> length src) toks"
  shows "spans_ordered 0 (Extract src toks) (length src)"
proof -
  let ?li = "newLineIndex src"
  let ?r = "extract_toks src ?li 0 True toks"
  have r: "spans_ordered 0 (fst ?r) (fst (snd ?r))" "fst (snd ?r) \<le> length src"
    using extract_toks_ordered [of 0 src toks ?li True] assms by auto
  have "spans_ordered (fst (snd ?r))
      (fst (extract_gap src ?li (length src) (fst (snd ?r)) (snd (snd ?r)))) (length src)"
    using extract_gap_ordered [OF order.refl r(2)] extract_gap_tiles [OF order.refl r(2)]
    by (blast intro: spans_ordered_weaken)
  with r(1) show ?thesis by (simp add: Extract_def Let_def spans_ordered_append)
qed

theorem Extract_ordered_witness:
  "spans_ordered 0 (Extract ''a /*'' [tokAt T_IDENT 0 1 ''a'']) 4"
  using Extract_ordered [of "''a /*''" "[tokAt T_IDENT 0 1 ''a'']"]
  by (simp add: tokAt_def numeral_eq_Suc)

section \<open>Extraction: exact coverage\<close>

text \<open>What the extractor relies on from the lexer, for one gap: a trivia run that starts
  inside the gap ends inside it.\<close>

function gap_fits :: "bytes \<Rightarrow> nat \<Rightarrow> nat \<Rightarrow> bool \<Rightarrow> bool" where
  "gap_fits src stopAt idx b =
     (if idx < stopAt \<and> idx < length src
      then idx + trivia_step src idx b \<le> stopAt \<and>
           gap_fits src stopAt (idx + trivia_step src idx b) False
      else True)"
  by pat_completeness auto
termination
proof (relation "measure (\<lambda>(src, stopAt, idx, b). length src - idx)", goal_cases)
  case (2 src stopAt idx b)
  then show ?case using trivia_step_bounds [of idx src b] by (simp; linarith)
qed simp

declare gap_fits.simps [simp del]

text \<open>The token stream the lexer promises: tokens in source order and inside the source,
  EOF only at the end, and no token cuts a trivia run in two.\<close>

fun toks_fit :: "bytes \<Rightarrow> nat \<Rightarrow> bool \<Rightarrow> Token list \<Rightarrow> bool" where
  "toks_fit src idx b [] \<longleftrightarrow> idx \<le> length src"
| "toks_fit src idx b (tok # toks) \<longleftrightarrow>
     (if isEOF tok then toks = [] \<and> idx \<le> length src
      else idx \<le> tok_start tok \<and> tok_start tok \<le> tok_stop tok \<and> tok_stop tok \<le> length src \<and>
           gap_fits src (tok_start tok) idx b \<and> toks_fit src (tok_stop tok) False toks)"

text \<open>The trivia, grouped by the token each group precedes: every group fills its gap.\<close>

fun interleaved :: "nat \<Rightarrow> Token list \<Rightarrow> Trivia list list \<Rightarrow> Trivia list \<Rightarrow> nat \<Rightarrow> bool" where
  "interleaved lo [] [] tail hi \<longleftrightarrow> tiles lo (map tr_iv tail) hi"
| "interleaved lo (t # ts) (g # gs) tail hi \<longleftrightarrow>
     tiles lo (map tr_iv g) (tok_start t) \<and> tok_start t \<le> tok_stop t \<and>
     interleaved (tok_stop t) ts gs tail hi"
| "interleaved lo _ _ tail hi \<longleftrightarrow> False"

lemma extract_gap_fits:
  assumes "gap_fits src stopAt idx b" "idx \<le> stopAt" "stopAt \<le> length src"
  shows "fst (snd (extract_gap src li stopAt idx b)) = stopAt"
  using assms
proof (induction src stopAt idx b rule: gap_fits.induct)
  case (1 src stopAt idx b)
  show ?case
  proof (cases "idx < stopAt")
    case True
    then have il: "idx < length src" using "1.prems" by simp
    obtain t where eq: "extract_gap src li stopAt idx b =
        (t # fst (extract_gap src li stopAt (idx + trivia_step src idx b) False),
         snd (extract_gap src li stopAt (idx + trivia_step src idx b) False))"
      using extract_gap_unfold [OF True "1.prems"(3)] .
    have "idx + trivia_step src idx b \<le> stopAt"
        "gap_fits src stopAt (idx + trivia_step src idx b) False"
      using "1.prems"(1) True il by (auto simp: gap_fits.simps [of src stopAt idx b])
    then show ?thesis using "1.IH" True il "1.prems"(3) by (simp add: eq)
  next
    case False
    with "1.prems" show ?thesis by (simp add: extract_gap_done)
  qed
qed

lemma gap_interleaved:
  assumes "gap_fits src stopAt idx b" "idx \<le> stopAt" "stopAt \<le> length src"
  shows "tiles idx (map tr_iv (fst (extract_gap src li stopAt idx b))) stopAt"
  using extract_gap_tiles [of stopAt src idx li b] extract_gap_fits [OF assms, of li] assms by simp

lemma final_gap_tiles:
  assumes "idx \<le> length src"
  shows "tiles idx (map tr_iv (fst (extract_gap src li (length src) idx b))) (length src)
    \<and> fst (snd (extract_gap src li (length src) idx b)) = length src"
proof -
  let ?r = "extract_gap src li (length src) idx b"
  have t: "tiles idx (map tr_iv (fst ?r)) (fst (snd ?r))" "fst (snd ?r) \<le> length src"
      "length src \<le> max idx (fst (snd ?r))"
    using extract_gap_tiles [OF order.refl assms, of li b] by auto
  have "idx \<le> fst (snd ?r)" using t(1) by (rule tiles_le)
  with t assms have "fst (snd ?r) = length src" by simp
  with t(1) show ?thesis by simp
qed

lemma extract_toks_interleaved:
  assumes "toks_fit src idx b toks" "idx \<le> length src"
  shows "\<exists>gs tail. fst (extract_toks src li idx b toks)
        @ fst (extract_gap src li (length src) (fst (snd (extract_toks src li idx b toks)))
            (snd (snd (extract_toks src li idx b toks)))) = concat gs @ tail
      \<and> interleaved idx (filter (\<lambda>t. \<not> isEOF t) toks) gs tail (length src)"
  using assms
proof (induction toks arbitrary: idx b)
  case Nil
  have "interleaved idx [] [] (fst (extract_gap src li (length src) idx b)) (length src)"
    using final_gap_tiles [OF Nil.prems(2)] by simp
  then show ?case by (intro exI [of _ "[]"] exI) auto
next
  case (Cons tok toks)
  show ?case
  proof (cases "isEOF tok")
    case True
    then have k: "tok_Kind tok = T_EOF" "toks = []" using Cons.prems by (auto simp: isEOF_def)
    let ?r = "extract_gap src li (length src) idx b"
    have f: "tiles idx (map tr_iv (fst ?r)) (length src)" "fst (snd ?r) = length src"
      using final_gap_tiles [OF Cons.prems(2)] by auto
    have "interleaved idx [] [] (fst ?r) (length src)" using f by simp
    then show ?thesis
      using True k f by (intro exI [of _ "[]"] exI [of _ "fst ?r"]) (simp add: extract_gap_done)
  next
    case False
    then have k: "tok_Kind tok \<noteq> T_EOF" by (simp add: isEOF_def)
    have p: "idx \<le> tok_start tok" "tok_start tok \<le> tok_stop tok" "tok_stop tok \<le> length src"
        "gap_fits src (tok_start tok) idx b" "toks_fit src (tok_stop tok) False toks"
      using Cons.prems(1) False by auto
    then have sl: "tok_start tok \<le> length src" by simp
    let ?r = "extract_gap src li (tok_start tok) idx b"
    note g = gap_interleaved [OF p(4,1) sl, of li]
    note e = extract_gap_fits [OF p(4,1) sl, of li]
    have eq: "extract_toks src li idx b (tok # toks) =
        (fst ?r @ fst (extract_toks src li (tok_stop tok) False toks),
         snd (extract_toks src li (tok_stop tok) False toks))"
      using k sl e p(2) by (cases "tok_start tok = tok_stop tok") (simp_all add: Let_def)
    obtain gs tail where IH: "fst (extract_toks src li (tok_stop tok) False toks)
        @ fst (extract_gap src li (length src)
            (fst (snd (extract_toks src li (tok_stop tok) False toks)))
            (snd (snd (extract_toks src li (tok_stop tok) False toks)))) = concat gs @ tail"
        "interleaved (tok_stop tok) (filter (\<lambda>t. \<not> isEOF t) toks) gs tail (length src)"
      using Cons.IH [OF p(5,3)] by blast
    have "interleaved idx (filter (\<lambda>t. \<not> isEOF t) (tok # toks)) (fst ?r # gs) tail (length src)"
      using g IH(2) p(2) False by simp
    moreover have "fst ?r @ concat gs @ tail = concat (fst ?r # gs) @ tail" by simp
    ultimately show ?thesis unfolding eq using IH(1) by (metis append.assoc fst_conv snd_conv)
  qed
qed

lemma Extract_interleaved:
  assumes "toks_fit src 0 True toks"
  obtains gs tail where "Extract src toks = concat gs @ tail"
    and "interleaved 0 (filter (\<lambda>t. \<not> isEOF t) toks) gs tail (length src)"
  using extract_toks_interleaved [OF assms, of "newLineIndex src"]
  by (auto simp: Extract_def Let_def)

lemma interleaved_covering:
  "interleaved lo toks gs tail hi \<Longrightarrow>
     covering (map tok_iv toks) i + covering (map tr_iv (concat gs @ tail)) i
       = (if lo \<le> i \<and> i < hi then 1 else 0) \<and> lo \<le> hi"
proof (induction lo toks gs tail hi rule: interleaved.induct)
  case (1 lo tail hi)
  then show ?case by (auto simp: tiles_covering dest: tiles_le)
next
  case (2 lo t ts g gs tail hi)
  then have g: "tiles lo (map tr_iv g) (tok_start t)" and t: "tok_start t \<le> tok_stop t" by auto
  from tiles_le [OF g] tiles_covering [OF g, of i] t 2 show ?case
    by (auto simp: tok_iv_def split: if_splits)
qed auto

text \<open>C19. Byte coverage, the contract of the package: for a token stream in source order
  whose tokens do not cut a trivia run, every byte of the source belongs to exactly one token
  or exactly one extracted trivia span, never to both and never to two.\<close>

theorem Extract_covers_exactly_once:
  assumes "toks_fit src 0 True toks" and "i < length src"
  shows "covering (map tok_iv (filter (\<lambda>t. \<not> isEOF t) toks)) i
       + covering (map tr_iv (Extract src toks)) i = 1"
  using Extract_interleaved [OF assms(1)] interleaved_covering [of 0 _ _ _ "length src" i] assms(2)
  by (metis (no_types, lifting) zero_le)

theorem Extract_covers_exactly_once_witness:
  "covering (map tok_iv (filter (\<lambda>t. \<not> isEOF t)
      [tokAt T_IDENT 0 1 ''a'', tokAt T_NEWLINE 6 7 [LF], tokAt T_EOF 9 9 []])) 3
   + covering (map tr_iv (Extract (''a //x'' @ [CHR '' '', LF, LF, LF])
      [tokAt T_IDENT 0 1 ''a'', tokAt T_NEWLINE 6 7 [LF], tokAt T_EOF 9 9 []])) 3 = 1"
proof -
  have "toks_fit (''a //x'' @ [CHR '' '', LF, LF, LF]) 0 True
      [tokAt T_IDENT 0 1 ''a'', tokAt T_NEWLINE 6 7 [LF], tokAt T_EOF 9 9 []]"
    by code_simp
  then show ?thesis by (rule Extract_covers_exactly_once) simp
qed

section \<open>Normalisation and positions\<close>

text \<open>\<open>Normalize\<close> leaves no carriage return, changes nothing but line endings, and is
  idempotent.\<close>

theorem Normalize_correct:
  "CR \<notin> set (Normalize src) \<and> Normalize (Normalize src) = Normalize src \<and>
   filter (\<lambda>c. c \<noteq> CR \<and> c \<noteq> LF) (Normalize src) = filter (\<lambda>c. c \<noteq> CR \<and> c \<noteq> LF) src"
  by (simp add: Normalize_eq_loop normalize_loop_no_CR normalize_loop_id normalize_loop_content)

text \<open>C31. The binary search of \<open>locate\<close> gives the position a scan of the source from its start
  would give: line one plus the line feeds before the offset, column one plus the bytes since
  the last of them; an offset past the end is clamped to it.\<close>

theorem locate_correct:
  "locate (newLineIndex src) off = ref_pos src (min off (length src))"
  using locate_in_range [of off src] locate_in_range [of "length src" src] locate_clamps [of src off]
  by (cases "off \<le> length src") (simp_all add: min_def)

end
