(* ===== verification/CST_Kinds.thy ===== *)
theory CST_Kinds
  imports Osty_Prelude
begin

text \<open>
  The node kinds of \<^verbatim>\<open>src/internal/cst/green.go\<close>, with their \<open>iota\<close> values
  (\<open>GreenKind_int\<close>, what the arena hashes) and labels.
\<close>

section \<open>Kinds\<close>

text \<open>A kind is a Go integer with named values; nothing but the constants is ever compared with one.\<close>

datatype GreenKind = GreenKind (GreenKind_val: int)

abbreviation GkNone :: GreenKind where "GkNone \<equiv> GreenKind 0"
abbreviation GkToken :: GreenKind where "GkToken \<equiv> GreenKind 1"
abbreviation GkTrivia :: GreenKind where "GkTrivia \<equiv> GreenKind 2"
abbreviation GkFile :: GreenKind where "GkFile \<equiv> GreenKind 3"
abbreviation GkModule :: GreenKind where "GkModule \<equiv> GreenKind 4"
abbreviation GkFnDecl :: GreenKind where "GkFnDecl \<equiv> GreenKind 5"
abbreviation GkStructDecl :: GreenKind where "GkStructDecl \<equiv> GreenKind 6"
abbreviation GkEnumDecl :: GreenKind where "GkEnumDecl \<equiv> GreenKind 7"
abbreviation GkInterfaceDecl :: GreenKind where "GkInterfaceDecl \<equiv> GreenKind 8"
abbreviation GkTypeAlias :: GreenKind where "GkTypeAlias \<equiv> GreenKind 9"
abbreviation GkUseDecl :: GreenKind where "GkUseDecl \<equiv> GreenKind 10"
abbreviation GkLetDecl :: GreenKind where "GkLetDecl \<equiv> GreenKind 11"
abbreviation GkPub :: GreenKind where "GkPub \<equiv> GreenKind 12"
abbreviation GkParam :: GreenKind where "GkParam \<equiv> GreenKind 13"
abbreviation GkParamList :: GreenKind where "GkParamList \<equiv> GreenKind 14"
abbreviation GkField :: GreenKind where "GkField \<equiv> GreenKind 15"
abbreviation GkFieldList :: GreenKind where "GkFieldList \<equiv> GreenKind 16"
abbreviation GkVariant :: GreenKind where "GkVariant \<equiv> GreenKind 17"
abbreviation GkVariantList :: GreenKind where "GkVariantList \<equiv> GreenKind 18"
abbreviation GkMatchArm :: GreenKind where "GkMatchArm \<equiv> GreenKind 19"
abbreviation GkMatchArmList :: GreenKind where "GkMatchArmList \<equiv> GreenKind 20"
abbreviation GkAnnotation :: GreenKind where "GkAnnotation \<equiv> GreenKind 21"
abbreviation GkAnnotationArg :: GreenKind where "GkAnnotationArg \<equiv> GreenKind 22"
abbreviation GkGenericParam :: GreenKind where "GkGenericParam \<equiv> GreenKind 23"
abbreviation GkGenericParamList :: GreenKind where "GkGenericParamList \<equiv> GreenKind 24"
abbreviation GkGenericBound :: GreenKind where "GkGenericBound \<equiv> GreenKind 25"
abbreviation GkUsePath :: GreenKind where "GkUsePath \<equiv> GreenKind 26"
abbreviation GkUseAlias :: GreenKind where "GkUseAlias \<equiv> GreenKind 27"
abbreviation GkUseFFIBody :: GreenKind where "GkUseFFIBody \<equiv> GreenKind 28"
abbreviation GkLetStmt :: GreenKind where "GkLetStmt \<equiv> GreenKind 29"
abbreviation GkReturnStmt :: GreenKind where "GkReturnStmt \<equiv> GreenKind 30"
abbreviation GkBreakStmt :: GreenKind where "GkBreakStmt \<equiv> GreenKind 31"
abbreviation GkContinueStmt :: GreenKind where "GkContinueStmt \<equiv> GreenKind 32"
abbreviation GkDeferStmt :: GreenKind where "GkDeferStmt \<equiv> GreenKind 33"
abbreviation GkForStmt :: GreenKind where "GkForStmt \<equiv> GreenKind 34"
abbreviation GkAssignStmt :: GreenKind where "GkAssignStmt \<equiv> GreenKind 35"
abbreviation GkChanSendStmt :: GreenKind where "GkChanSendStmt \<equiv> GreenKind 36"
abbreviation GkExprStmt :: GreenKind where "GkExprStmt \<equiv> GreenKind 37"
abbreviation GkFreeStmt :: GreenKind where "GkFreeStmt \<equiv> GreenKind 38"
abbreviation GkBlock :: GreenKind where "GkBlock \<equiv> GreenKind 39"
abbreviation GkIdent :: GreenKind where "GkIdent \<equiv> GreenKind 40"
abbreviation GkIntLit :: GreenKind where "GkIntLit \<equiv> GreenKind 41"
abbreviation GkFloatLit :: GreenKind where "GkFloatLit \<equiv> GreenKind 42"
abbreviation GkStringLit :: GreenKind where "GkStringLit \<equiv> GreenKind 43"
abbreviation GkRawStringLit :: GreenKind where "GkRawStringLit \<equiv> GreenKind 44"
abbreviation GkBoolLit :: GreenKind where "GkBoolLit \<equiv> GreenKind 45"
abbreviation GkCharLit :: GreenKind where "GkCharLit \<equiv> GreenKind 46"
abbreviation GkByteLit :: GreenKind where "GkByteLit \<equiv> GreenKind 47"
abbreviation GkStringPart :: GreenKind where "GkStringPart \<equiv> GreenKind 48"
abbreviation GkStringInterp :: GreenKind where "GkStringInterp \<equiv> GreenKind 49"
abbreviation GkBinary :: GreenKind where "GkBinary \<equiv> GreenKind 50"
abbreviation GkUnary :: GreenKind where "GkUnary \<equiv> GreenKind 51"
abbreviation GkCall :: GreenKind where "GkCall \<equiv> GreenKind 52"
abbreviation GkFieldAccess :: GreenKind where "GkFieldAccess \<equiv> GreenKind 53"
abbreviation GkIndex :: GreenKind where "GkIndex \<equiv> GreenKind 54"
abbreviation GkRangeExcl :: GreenKind where "GkRangeExcl \<equiv> GreenKind 55"
abbreviation GkRangeIncl :: GreenKind where "GkRangeIncl \<equiv> GreenKind 56"
abbreviation GkQuestion :: GreenKind where "GkQuestion \<equiv> GreenKind 57"
abbreviation GkTurbofish :: GreenKind where "GkTurbofish \<equiv> GreenKind 58"
abbreviation GkIf :: GreenKind where "GkIf \<equiv> GreenKind 59"
abbreviation GkIfLet :: GreenKind where "GkIfLet \<equiv> GreenKind 60"
abbreviation GkElse :: GreenKind where "GkElse \<equiv> GreenKind 61"
abbreviation GkMatch :: GreenKind where "GkMatch \<equiv> GreenKind 62"
abbreviation GkClosure :: GreenKind where "GkClosure \<equiv> GreenKind 63"
abbreviation GkList :: GreenKind where "GkList \<equiv> GreenKind 64"
abbreviation GkTuple :: GreenKind where "GkTuple \<equiv> GreenKind 65"
abbreviation GkMap :: GreenKind where "GkMap \<equiv> GreenKind 66"
abbreviation GkMapEntry :: GreenKind where "GkMapEntry \<equiv> GreenKind 67"
abbreviation GkStructLit :: GreenKind where "GkStructLit \<equiv> GreenKind 68"
abbreviation GkStructLitField :: GreenKind where "GkStructLitField \<equiv> GreenKind 69"
abbreviation GkParen :: GreenKind where "GkParen \<equiv> GreenKind 70"
abbreviation GkNamedType :: GreenKind where "GkNamedType \<equiv> GreenKind 71"
abbreviation GkTupleType :: GreenKind where "GkTupleType \<equiv> GreenKind 72"
abbreviation GkFunctionType :: GreenKind where "GkFunctionType \<equiv> GreenKind 73"
abbreviation GkOptionalType :: GreenKind where "GkOptionalType \<equiv> GreenKind 74"
abbreviation GkListType :: GreenKind where "GkListType \<equiv> GreenKind 75"
abbreviation GkMapType :: GreenKind where "GkMapType \<equiv> GreenKind 76"
abbreviation GkUnitType :: GreenKind where "GkUnitType \<equiv> GreenKind 77"
abbreviation GkSelfType :: GreenKind where "GkSelfType \<equiv> GreenKind 78"
abbreviation GkWildcardPat :: GreenKind where "GkWildcardPat \<equiv> GreenKind 79"
abbreviation GkLiteralPat :: GreenKind where "GkLiteralPat \<equiv> GreenKind 80"
abbreviation GkIdentPat :: GreenKind where "GkIdentPat \<equiv> GreenKind 81"
abbreviation GkTuplePat :: GreenKind where "GkTuplePat \<equiv> GreenKind 82"
abbreviation GkStructPat :: GreenKind where "GkStructPat \<equiv> GreenKind 83"
abbreviation GkStructPatField :: GreenKind where "GkStructPatField \<equiv> GreenKind 84"
abbreviation GkVariantPat :: GreenKind where "GkVariantPat \<equiv> GreenKind 85"
abbreviation GkRangePat :: GreenKind where "GkRangePat \<equiv> GreenKind 86"
abbreviation GkOrPat :: GreenKind where "GkOrPat \<equiv> GreenKind 87"
abbreviation GkBindingPat :: GreenKind where "GkBindingPat \<equiv> GreenKind 88"
abbreviation GkError :: GreenKind where "GkError \<equiv> GreenKind 89"
abbreviation GkErrorMissing :: GreenKind where "GkErrorMissing \<equiv> GreenKind 90"
abbreviation GkErrorExtra :: GreenKind where "GkErrorExtra \<equiv> GreenKind 91"
abbreviation GkLoop :: GreenKind where "GkLoop \<equiv> GreenKind 92"

definition GreenKind_int :: "GreenKind \<Rightarrow> nat" where
  "GreenKind_int k = nat (GreenKind_val k)"

definition greenKindNames :: "string list" where
  "greenKindNames =
     [''None'', ''Token'', ''Trivia'', ''File'', ''Module'', ''FnDecl'',
      ''StructDecl'', ''EnumDecl'', ''InterfaceDecl'', ''TypeAlias'', ''UseDecl'', ''LetDecl'',
      ''Pub'', ''Param'', ''ParamList'', ''Field'', ''FieldList'', ''Variant'',
      ''VariantList'', ''MatchArm'', ''MatchArmList'', ''Annotation'', ''AnnotationArg'', ''GenericParam'',
      ''GenericParamList'', ''GenericBound'', ''UsePath'', ''UseAlias'', ''UseFFIBody'', ''LetStmt'',
      ''ReturnStmt'', ''BreakStmt'', ''ContinueStmt'', ''DeferStmt'', ''ForStmt'', ''AssignStmt'',
      ''ChanSendStmt'', ''ExprStmt'', ''FreeStmt'', ''Block'', ''Ident'', ''IntLit'',
      ''FloatLit'', ''StringLit'', ''RawStringLit'', ''BoolLit'', ''CharLit'', ''ByteLit'',
      ''StringPart'', ''StringInterp'', ''Binary'', ''Unary'', ''Call'', ''FieldAccess'',
      ''Index'', ''RangeExcl'', ''RangeIncl'', ''Question'', ''Turbofish'', ''If'',
      ''IfLet'', ''Else'', ''Match'', ''Closure'', ''List'', ''Tuple'',
      ''Map'', ''MapEntry'', ''StructLit'', ''StructLitField'', ''Paren'', ''NamedType'',
      ''TupleType'', ''FunctionType'', ''OptionalType'', ''ListType'', ''MapType'', ''UnitType'',
      ''SelfType'', ''WildcardPat'', ''LiteralPat'', ''IdentPat'', ''TuplePat'', ''StructPat'',
      ''StructPatField'', ''VariantPat'', ''RangePat'', ''OrPat'', ''BindingPat'', ''Error'',
      ''ErrorMissing'', ''ErrorExtra'', ''Loop'']"

definition GreenKind_String :: "GreenKind \<Rightarrow> string" where
  "GreenKind_String k =
     (if 0 \<le> GreenKind_val k \<and> GreenKind_int k < length greenKindNames then greenKindNames ! GreenKind_int k
      else ''GreenKind('' @ (if GreenKind_val k < 0 then ''-'' else []) @ itoa (nat \<bar>GreenKind_val k\<bar>) @ '')'')"

definition IsError :: "GreenKind \<Rightarrow> bool" where
  "IsError k \<longleftrightarrow> k = GkError \<or> k = GkErrorMissing \<or> k = GkErrorExtra"

definition IsLeaf :: "GreenKind \<Rightarrow> bool" where
  "IsLeaf k \<longleftrightarrow> k = GkToken \<or> k = GkTrivia \<or> k = GkErrorMissing"

lemma IsError_kinds [simp]:
  "IsError GkError" "IsError GkErrorMissing" "IsError GkErrorExtra" "\<not> IsError GkFile"
  by (simp_all add: IsError_def)

end
