(* ===== verification/CST_Green.thy ===== *)
theory CST_Green
  imports CST_Trivia CST_Kinds
begin

text \<open>
  \<^verbatim>\<open>src/internal/cst/green.go\<close>, \<^verbatim>\<open>green_dedup.go\<close> and the arena of
  \<^verbatim>\<open>green_arena.go\<close>: green tokens and nodes, and the arena that interns them.
  The interning contract is stated once, as the locale \<open>intern_table\<close>, and interpreted for
  the token table and for the node table.
\<close>

unbundle bit_operations_syntax

section \<open>Tokens and nodes\<close>

record GreenToken =
  gt_Kind :: GreenKind
  gt_TokenKind :: nat
  gt_Text :: string
  gt_Width :: nat
  gt_LeadingWidth :: nat
  gt_TrailingWidth :: nat
  gt_LeadingTrivia :: "nat list"
  gt_TrailingTrivia :: "nat list"

definition TotalWidth :: "GreenToken \<Rightarrow> nat" where
  "TotalWidth t = gt_LeadingWidth t + gt_Width t + gt_TrailingWidth t"

text \<open>A child is a tagged arena id.\<close>

datatype GreenChild = GctNode nat | GctToken nat

fun GreenChild_Tag :: "GreenChild \<Rightarrow> nat" where
  "GreenChild_Tag (GctNode _) = 0"
| "GreenChild_Tag (GctToken _) = 1"

fun GreenChild_ID :: "GreenChild \<Rightarrow> nat" where
  "GreenChild_ID (GctNode i) = i"
| "GreenChild_ID (GctToken i) = i"

record GreenNode =
  gn_Kind :: GreenKind
  gn_Width :: nat
  gn_Children :: "GreenChild list"

section \<open>Fingerprints\<close>

type_synonym u64 = "64 word"

definition fnvOffset :: u64 where "fnvOffset = 14695981039346656037"
definition fnvPrime :: u64 where "fnvPrime = 1099511628211"
definition sepLeadingTrailing :: u64 where "sepLeadingTrailing = 0x5EAD10C5EAD10CA"
definition sepChildren :: u64 where "sepChildren = 0xC417D11DC417D11D"

definition mixU64 :: "u64 \<Rightarrow> u64 \<Rightarrow> u64" where
  "mixU64 h v = (h XOR v) * fnvPrime"

definition mixInt :: "u64 \<Rightarrow> nat \<Rightarrow> u64" where
  "mixInt h v = mixU64 h (of_nat v)"

definition mixStr :: "u64 \<Rightarrow> string \<Rightarrow> u64" where
  "mixStr h s = foldl (\<lambda>h c. (h XOR of_char c) * fnvPrime) h s"

definition hashToken :: "GreenToken \<Rightarrow> u64" where
  "hashToken t =
     (let h = mixInt fnvOffset (GreenKind_int (gt_Kind t));
          h = mixInt h (gt_TokenKind t);
          h = mixInt h (gt_Width t);
          h = mixStr h (gt_Text t);
          h = foldl mixInt h (gt_LeadingTrivia t);
          h = mixU64 h sepLeadingTrailing
      in foldl mixInt h (gt_TrailingTrivia t))"

definition hashNode :: "GreenNode \<Rightarrow> u64" where
  "hashNode n =
     (let h = mixInt fnvOffset (GreenKind_int (gn_Kind n));
          h = mixInt h (gn_Width n);
          h = mixU64 h sepChildren
      in foldl (\<lambda>h c. mixInt (mixInt h (GreenChild_Tag c)) (GreenChild_ID c)) h (gn_Children n))"

definition tokensEqual :: "GreenToken \<Rightarrow> GreenToken \<Rightarrow> bool" where
  "tokensEqual a b \<longleftrightarrow>
     \<not> (gt_Kind a \<noteq> gt_Kind b \<or> gt_TokenKind a \<noteq> gt_TokenKind b \<or> gt_Width a \<noteq> gt_Width b \<or>
        gt_Text a \<noteq> gt_Text b) \<and>
     gt_LeadingTrivia a = gt_LeadingTrivia b \<and> gt_TrailingTrivia a = gt_TrailingTrivia b"

definition nodesEqual :: "GreenNode \<Rightarrow> GreenNode \<Rightarrow> bool" where
  "nodesEqual a b \<longleftrightarrow>
     \<not> (gn_Kind a \<noteq> gn_Kind b \<or> gn_Width a \<noteq> gn_Width b) \<and> gn_Children a = gn_Children b"

section \<open>The arena\<close>

record greenDedup =
  nodeByHash :: "u64 \<Rightarrow> nat list"
  tokenByHash :: "u64 \<Rightarrow> nat list"
  hits :: nat
  misses :: nat

record GreenArena =
  Nodes :: "GreenNode list"
  Tokens :: "GreenToken list"
  Trivias :: "Trivia list"
  dedup :: greenDedup

definition newGreenDedup :: greenDedup where
  "newGreenDedup = \<lparr>nodeByHash = (\<lambda>_. []), tokenByHash = (\<lambda>_. []), hits = 0, misses = 0\<rparr>"

definition NewArena :: GreenArena where
  "NewArena = \<lparr>Nodes = [], Tokens = [], Trivias = [], dedup = newGreenDedup\<rparr>"

definition lookupNode :: "GreenArena \<Rightarrow> GreenNode \<Rightarrow> nat option" where
  "lookupNode a n = find (\<lambda>i. nodesEqual (Nodes a ! i) n) (nodeByHash (dedup a) (hashNode n))"

definition lookupToken :: "GreenArena \<Rightarrow> GreenToken \<Rightarrow> nat option" where
  "lookupToken a t = find (\<lambda>i. tokensEqual (Tokens a ! i) t) (tokenByHash (dedup a) (hashToken t))"

definition recordNode :: "GreenNode \<Rightarrow> nat \<Rightarrow> greenDedup \<Rightarrow> greenDedup" where
  "recordNode n i d =
     d\<lparr>nodeByHash := (nodeByHash d)(hashNode n := nodeByHash d (hashNode n) @ [i]),
       misses := misses d + 1\<rparr>"

definition recordToken :: "GreenToken \<Rightarrow> nat \<Rightarrow> greenDedup \<Rightarrow> greenDedup" where
  "recordToken t i d =
     d\<lparr>tokenByHash := (tokenByHash d)(hashToken t := tokenByHash d (hashToken t) @ [i]),
       misses := misses d + 1\<rparr>"

definition AddTrivia :: "GreenArena \<Rightarrow> Trivia \<Rightarrow> nat \<times> GreenArena" where
  "AddTrivia a t = (length (Trivias a), a\<lparr>Trivias := Trivias a @ [t]\<rparr>)"

definition AddToken :: "GreenArena \<Rightarrow> GreenToken \<Rightarrow> nat \<times> GreenArena" where
  "AddToken a t =
     (case lookupToken a t of
        Some i \<Rightarrow> (i, a\<lparr>dedup := (dedup a)\<lparr>hits := hits (dedup a) + 1\<rparr>\<rparr>)
      | None \<Rightarrow>
          (let i = length (Tokens a)
           in (i, a\<lparr>Tokens := Tokens a @ [t], dedup := recordToken t i (dedup a)\<rparr>)))"

definition AddNode :: "GreenArena \<Rightarrow> GreenNode \<Rightarrow> nat \<times> GreenArena" where
  "AddNode a n =
     (case lookupNode a n of
        Some i \<Rightarrow> (i, a\<lparr>dedup := (dedup a)\<lparr>hits := hits (dedup a) + 1\<rparr>\<rparr>)
      | None \<Rightarrow>
          (let i = length (Nodes a)
           in (i, a\<lparr>Nodes := Nodes a @ [n], dedup := recordNode n i (dedup a)\<rparr>)))"

definition TokenAt :: "GreenArena \<Rightarrow> nat \<Rightarrow> GreenToken res" where
  "TokenAt a i = (if i < length (Tokens a) then Inr (Tokens a ! i)
     else Inl (Panic ''index out of range''))"

definition NodeAt :: "GreenArena \<Rightarrow> nat \<Rightarrow> GreenNode res" where
  "NodeAt a i = (if i < length (Nodes a) then Inr (Nodes a ! i)
     else Inl (Panic ''index out of range''))"

definition TriviaAt :: "GreenArena \<Rightarrow> nat \<Rightarrow> Trivia res" where
  "TriviaAt a i = (if i < length (Trivias a) then Inr (Trivias a ! i)
     else Inl (Panic ''index out of range''))"

definition DedupMisses :: "GreenArena \<Rightarrow> nat" where
  "DedupMisses a = misses (dedup a)"

definition DedupHits :: "GreenArena \<Rightarrow> nat" where
  "DedupHits a = hits (dedup a)"

definition sumTriviaWidths :: "GreenArena \<Rightarrow> nat list \<Rightarrow> nat" where
  "sumTriviaWidths a indices =
     foldl (\<lambda>total idx. if idx < length (Trivias a) then total + tr_Length (Trivias a ! idx) else total)
       0 indices"

section \<open>Interning as a contract\<close>

locale intern_table =
  fixes items :: "'a \<Rightarrow> 'i list"
    and add :: "'a \<Rightarrow> 'i \<Rightarrow> nat \<times> 'a"
    and eqv :: "'i \<Rightarrow> 'i \<Rightarrow> bool"
    and invar :: "'a \<Rightarrow> bool"
  assumes eqv_refl: "eqv x x"
    and eqv_sym: "eqv x y \<Longrightarrow> eqv y x"
    and eqv_trans: "eqv x y \<Longrightarrow> eqv y z \<Longrightarrow> eqv x z"
    and add_invar: "invar a \<Longrightarrow> invar (snd (add a x))"
    and add_id: "invar a \<Longrightarrow> fst (add a x) < length (items (snd (add a x)))"
    and add_item: "invar a \<Longrightarrow> eqv (items (snd (add a x)) ! fst (add a x)) x"
    and add_hit: "invar a \<Longrightarrow> i < length (items a) \<Longrightarrow> eqv (items a ! i) x
        \<Longrightarrow> items (snd (add a x)) = items a"
    and add_miss: "invar a \<Longrightarrow> (\<And>i. i < length (items a) \<Longrightarrow> \<not> eqv (items a ! i) x)
        \<Longrightarrow> items (snd (add a x)) = items a @ [x]"
    and no_dup: "invar a \<Longrightarrow> i < length (items a) \<Longrightarrow> j < length (items a)
        \<Longrightarrow> eqv (items a ! i) (items a ! j) \<Longrightarrow> i = j"
begin

lemma add_grows:
  assumes "invar a"
  shows "\<exists>ys. items (snd (add a x)) = items a @ ys"
proof (cases "\<exists>i < length (items a). eqv (items a ! i) x")
  case True
  then show ?thesis using add_hit [OF assms] by auto
next
  case False
  then show ?thesis using add_miss [OF assms, of x] by blast
qed

lemma add_keeps:
  assumes "invar a" "i < length (items a)"
  shows "items (snd (add a x)) ! i = items a ! i" and "i < length (items (snd (add a x)))"
  using add_grows [OF assms(1), of x] assms(2) by (auto simp: nth_append)

lemma add_existing:
  assumes "invar a" "i < length (items a)" "eqv (items a ! i) x"
  shows "fst (add a x) = i"
proof -
  have "items (snd (add a x)) = items a" using assms by (rule add_hit)
  with add_id [OF assms(1), of x] add_item [OF assms(1), of x]
  have "fst (add a x) < length (items a)" "eqv (items a ! fst (add a x)) x" by simp_all
  then show ?thesis using assms no_dup eqv_sym eqv_trans by meson
qed

text \<open>Structural sharing: equivalent items get one i, and the second insertion leaves the
  stored items alone.\<close>

lemma add_twice:
  assumes "invar a" "eqv x y"
  shows "fst (add (snd (add a x)) y) = fst (add a x)"
    and "items (snd (add (snd (add a x)) y)) = items (snd (add a x))"
proof -
  let ?b = "snd (add a x)"
  have b: "invar ?b" "fst (add a x) < length (items ?b)" "eqv (items ?b ! fst (add a x)) y"
    using add_invar [OF assms(1)] add_id [OF assms(1)] eqv_trans [OF add_item [OF assms(1)] assms(2)]
    by blast+
  show "fst (add ?b y) = fst (add a x)" by (rule add_existing [OF b])
  show "items (snd (add ?b y)) = items ?b" by (rule add_hit [OF b])
qed

end

text \<open>The dedup tables: every registered i is in range and filed under its own hash, every
  entry is registered, and no two entries are equal.\<close>

definition table_ok :: "('i \<Rightarrow> u64) \<Rightarrow> ('i \<Rightarrow> 'i \<Rightarrow> bool) \<Rightarrow> (u64 \<Rightarrow> nat list) \<Rightarrow> 'i list \<Rightarrow> bool" where
  "table_ok hash eqv tab xs \<longleftrightarrow>
     (\<forall>h. \<forall>i \<in> set (tab h). i < length xs \<and> hash (xs ! i) = h) \<and>
     (\<forall>i < length xs. i \<in> set (tab (hash (xs ! i)))) \<and>
     (\<forall>i < length xs. \<forall>j < length xs. eqv (xs ! i) (xs ! j) \<longrightarrow> i = j)"

definition tokens_ok :: "GreenArena \<Rightarrow> bool" where
  "tokens_ok a \<longleftrightarrow> table_ok hashToken tokensEqual (tokenByHash (dedup a)) (Tokens a)"

definition nodes_ok :: "GreenArena \<Rightarrow> bool" where
  "nodes_ok a \<longleftrightarrow> table_ok hashNode nodesEqual (nodeByHash (dedup a)) (Nodes a)"

lemma tokensEqual_iff:
  "tokensEqual a b \<longleftrightarrow> gt_Kind a = gt_Kind b \<and> gt_TokenKind a = gt_TokenKind b \<and>
     gt_Width a = gt_Width b \<and> gt_Text a = gt_Text b \<and>
     gt_LeadingTrivia a = gt_LeadingTrivia b \<and> gt_TrailingTrivia a = gt_TrailingTrivia b"
  by (auto simp: tokensEqual_def)

lemma nodesEqual_iff: "nodesEqual a b \<longleftrightarrow> a = (b :: GreenNode)"
  by (auto simp: nodesEqual_def)

lemma tokensEqual_hash: "tokensEqual a b \<Longrightarrow> hashToken a = hashToken b"
  by (simp add: tokensEqual_iff hashToken_def Let_def)

lemma nodesEqual_hash: "nodesEqual a b \<Longrightarrow> hashNode a = hashNode b"
  by (simp add: nodesEqual_iff)

lemma table_okI:
  assumes "\<And>h i. i \<in> set (tab h) \<Longrightarrow> i < length xs \<and> hash (xs ! i) = h"
    and "\<And>i. i < length xs \<Longrightarrow> i \<in> set (tab (hash (xs ! i)))"
    and "\<And>i j. i < length xs \<Longrightarrow> j < length xs \<Longrightarrow> eqv (xs ! i) (xs ! j) \<Longrightarrow> i = j"
  shows "table_ok hash eqv tab xs"
  unfolding table_ok_def using assms by blast

lemma table_okD:
  assumes "table_ok hash eqv tab xs"
  shows "i \<in> set (tab h) \<Longrightarrow> i < length xs \<and> hash (xs ! i) = h"
    and "i < length xs \<Longrightarrow> i \<in> set (tab (hash (xs ! i)))"
    and "i < length xs \<Longrightarrow> j < length xs \<Longrightarrow> eqv (xs ! i) (xs ! j) \<Longrightarrow> i = j"
  using assms unfolding table_ok_def by blast+

lemma table_find_Some:
  assumes "table_ok hash eqv tab xs" "find (\<lambda>i. eqv (xs ! i) x) (tab (hash x)) = Some k"
  shows "k < length xs \<and> eqv (xs ! k) x"
proof -
  from assms(2) have "k \<in> set (tab (hash x))" "eqv (xs ! k) x"
    by (auto simp: find_Some_iff)
  with table_okD(1) [OF assms(1)] show ?thesis by blast
qed

lemma table_find_None:
  assumes "table_ok hash eqv tab xs" "find (\<lambda>i. eqv (xs ! i) x) (tab (hash x)) = None"
    and "\<And>y. eqv y x \<Longrightarrow> hash y = hash x" and "i < length xs"
  shows "\<not> eqv (xs ! i) x"
proof
  assume e: "eqv (xs ! i) x"
  then have "hash (xs ! i) = hash x" by (rule assms(3))
  with table_okD(2) [OF assms(1,4)] have "i \<in> set (tab (hash x))" by simp
  with assms(2) e show False by (auto simp: find_None_iff)
qed

lemma table_ok_append:
  assumes ok: "table_ok hash eqv tab xs"
    and new: "\<And>i. i < length xs \<Longrightarrow> \<not> eqv (xs ! i) x"
    and sym: "\<And>a b. eqv a b \<Longrightarrow> eqv b a"
  shows "table_ok hash eqv (tab(hash x := tab (hash x) @ [length xs])) (xs @ [x])"
proof (rule table_okI, goal_cases)
  case (1 h i)
  then consider "i \<in> set (tab h)" | "h = hash x" "i = length xs" by (auto split: if_splits)
  then show ?case
  proof cases
    case 1
    then show ?thesis using table_okD(1) [OF ok] by (simp add: nth_append less_SucI)
  qed simp
next
  case (2 i)
  then consider "i < length xs" | "i = length xs" by fastforce
  then show ?case
  proof cases
    case 1
    then show ?thesis using table_okD(2) [OF ok 1] by (auto simp: nth_append)
  qed simp
next
  case (3 i j)
  then show ?case
    using table_okD(3) [OF ok, of i j] new [of i] new [of j] sym
    by (cases "i < length xs"; cases "j < length xs") (auto simp: nth_append less_Suc_eq)
qed

lemma AddToken_hit:
  "lookupToken a t = Some i \<Longrightarrow>
     AddToken a t = (i, a\<lparr>dedup := (dedup a)\<lparr>hits := hits (dedup a) + 1\<rparr>\<rparr>)"
  by (simp add: AddToken_def)

lemma AddToken_miss:
  "lookupToken a t = None \<Longrightarrow>
     AddToken a t = (length (Tokens a),
       a\<lparr>Tokens := Tokens a @ [t], dedup := recordToken t (length (Tokens a)) (dedup a)\<rparr>)"
  by (simp add: AddToken_def Let_def)

lemma AddNode_hit:
  "lookupNode a n = Some i \<Longrightarrow>
     AddNode a n = (i, a\<lparr>dedup := (dedup a)\<lparr>hits := hits (dedup a) + 1\<rparr>\<rparr>)"
  by (simp add: AddNode_def)

lemma AddNode_miss:
  "lookupNode a n = None \<Longrightarrow>
     AddNode a n = (length (Nodes a),
       a\<lparr>Nodes := Nodes a @ [n], dedup := recordNode n (length (Nodes a)) (dedup a)\<rparr>)"
  by (simp add: AddNode_def Let_def)

lemma lookupToken_Some:
  "tokens_ok a \<Longrightarrow> lookupToken a t = Some i \<Longrightarrow> i < length (Tokens a) \<and> tokensEqual (Tokens a ! i) t"
  unfolding tokens_ok_def lookupToken_def by (rule table_find_Some)

lemma lookupToken_None:
  "tokens_ok a \<Longrightarrow> lookupToken a t = None \<Longrightarrow> i < length (Tokens a) \<Longrightarrow> \<not> tokensEqual (Tokens a ! i) t"
  unfolding tokens_ok_def lookupToken_def
  by (rule table_find_None [where eqv = tokensEqual and hash = hashToken]) (auto intro: tokensEqual_hash)

lemma lookupNode_Some:
  "nodes_ok a \<Longrightarrow> lookupNode a n = Some i \<Longrightarrow> i < length (Nodes a) \<and> nodesEqual (Nodes a ! i) n"
  unfolding nodes_ok_def lookupNode_def by (rule table_find_Some)

lemma lookupNode_None:
  "nodes_ok a \<Longrightarrow> lookupNode a n = None \<Longrightarrow> i < length (Nodes a) \<Longrightarrow> \<not> nodesEqual (Nodes a ! i) n"
  unfolding nodes_ok_def lookupNode_def
  by (rule table_find_None [where eqv = nodesEqual and hash = hashNode]) (auto intro: nodesEqual_hash)

lemma AddToken_tokens_ok: "tokens_ok a \<Longrightarrow> tokens_ok (snd (AddToken a t))"
proof (cases "lookupToken a t")
  case None
  assume ok: "tokens_ok a"
  have "table_ok hashToken tokensEqual
      ((tokenByHash (dedup a))(hashToken t := tokenByHash (dedup a) (hashToken t) @ [length (Tokens a)]))
      (Tokens a @ [t])"
    using ok lookupToken_None [OF ok None]
    by (intro table_ok_append) (auto simp: tokens_ok_def tokensEqual_iff)
  then show ?thesis by (simp add: AddToken_miss [OF None] tokens_ok_def recordToken_def)
qed (simp add: AddToken_hit tokens_ok_def)

lemma AddNode_nodes_ok: "nodes_ok a \<Longrightarrow> nodes_ok (snd (AddNode a n))"
proof (cases "lookupNode a n")
  case None
  assume ok: "nodes_ok a"
  have "table_ok hashNode nodesEqual
      ((nodeByHash (dedup a))(hashNode n := nodeByHash (dedup a) (hashNode n) @ [length (Nodes a)]))
      (Nodes a @ [n])"
    using ok lookupNode_None [OF ok None]
    by (intro table_ok_append) (auto simp: nodes_ok_def nodesEqual_iff)
  then show ?thesis by (simp add: AddNode_miss [OF None] nodes_ok_def recordNode_def)
qed (simp add: AddNode_hit nodes_ok_def)

interpretation token_table: intern_table Tokens AddToken tokensEqual tokens_ok
proof
  fix a t assume ok: "tokens_ok a"
  show "fst (AddToken a t) < length (Tokens (snd (AddToken a t)))"
    using lookupToken_Some [OF ok]
    by (cases "lookupToken a t") (auto simp: AddToken_hit AddToken_miss)
  show "tokensEqual (Tokens (snd (AddToken a t)) ! fst (AddToken a t)) t"
    using lookupToken_Some [OF ok]
    by (cases "lookupToken a t") (auto simp: AddToken_hit AddToken_miss tokensEqual_iff)
next
  fix a t i assume ok: "tokens_ok a" "i < length (Tokens a)" "tokensEqual (Tokens a ! i) t"
  then show "Tokens (snd (AddToken a t)) = Tokens a"
    using lookupToken_None [OF ok(1) _ ok(2)] by (cases "lookupToken a t") (auto simp: AddToken_hit)
next
  fix a t assume ok: "tokens_ok a" "\<And>i. i < length (Tokens a) \<Longrightarrow> \<not> tokensEqual (Tokens a ! i) t"
  then show "Tokens (snd (AddToken a t)) = Tokens a @ [t]"
    using lookupToken_Some [OF ok(1)] by (cases "lookupToken a t") (auto simp: AddToken_miss)
qed (auto simp: tokensEqual_iff AddToken_tokens_ok, auto simp: tokens_ok_def table_ok_def tokensEqual_iff)

interpretation node_table: intern_table Nodes AddNode nodesEqual nodes_ok
proof
  fix a n assume ok: "nodes_ok a"
  show "fst (AddNode a n) < length (Nodes (snd (AddNode a n)))"
    using lookupNode_Some [OF ok]
    by (cases "lookupNode a n") (auto simp: AddNode_hit AddNode_miss)
  show "nodesEqual (Nodes (snd (AddNode a n)) ! fst (AddNode a n)) n"
    using lookupNode_Some [OF ok]
    by (cases "lookupNode a n") (auto simp: AddNode_hit AddNode_miss nodesEqual_iff)
next
  fix a n i assume ok: "nodes_ok a" "i < length (Nodes a)" "nodesEqual (Nodes a ! i) n"
  then show "Nodes (snd (AddNode a n)) = Nodes a"
    using lookupNode_None [OF ok(1) _ ok(2)] by (cases "lookupNode a n") (auto simp: AddNode_hit)
next
  fix a n assume ok: "nodes_ok a" "\<And>i. i < length (Nodes a) \<Longrightarrow> \<not> nodesEqual (Nodes a ! i) n"
  then show "Nodes (snd (AddNode a n)) = Nodes a @ [n]"
    using lookupNode_Some [OF ok(1)] by (cases "lookupNode a n") (auto simp: AddNode_miss)
qed (auto simp: nodesEqual_iff AddNode_nodes_ok, auto simp: nodes_ok_def table_ok_def nodesEqual_iff)

text \<open>Frame facts: what each insertion leaves alone.\<close>

lemma AddToken_frame [simp]:
  "Nodes (snd (AddToken a t)) = Nodes a" "Trivias (snd (AddToken a t)) = Trivias a"
  "nodes_ok (snd (AddToken a t)) = nodes_ok a"
  by (auto simp: AddToken_def recordToken_def nodes_ok_def Let_def split: option.split)

lemma AddNode_frame [simp]:
  "Tokens (snd (AddNode a n)) = Tokens a" "Trivias (snd (AddNode a n)) = Trivias a"
  "tokens_ok (snd (AddNode a n)) = tokens_ok a"
  by (auto simp: AddNode_def recordNode_def tokens_ok_def Let_def split: option.split)

lemma NewArena_ok: "tokens_ok NewArena" "nodes_ok NewArena"
  by (simp_all add: NewArena_def newGreenDedup_def tokens_ok_def nodes_ok_def table_ok_def)

text \<open>Structural sharing: in an arena whose dedup tables are consistent, interning two
  tokens with the same content yields one i, the second insertion stores nothing new, the
  tables stay consistent and the ids given out before keep their tokens. Hash collisions do
  not matter.\<close>

theorem AddToken_shares:
  assumes "tokens_ok a" and "tokensEqual t u"
  shows "fst (AddToken (snd (AddToken a t)) u) = fst (AddToken a t)
       \<and> Tokens (snd (AddToken (snd (AddToken a t)) u)) = Tokens (snd (AddToken a t))
       \<and> tokens_ok (snd (AddToken a t))
       \<and> tokensEqual (Tokens (snd (AddToken a t)) ! fst (AddToken a t)) t
       \<and> take (length (Tokens a)) (Tokens (snd (AddToken a t))) = Tokens a"
  using token_table.add_twice [OF assms] token_table.add_invar [OF assms(1)]
    token_table.add_item [OF assms(1)] token_table.add_grows [OF assms(1), of t]
  by auto

theorem AddToken_shares_witness:
  "fst (AddToken (snd (AddToken NewArena
      \<lparr>gt_Kind = GkToken, gt_TokenKind = 0, gt_Text = ''x'', gt_Width = 1, gt_LeadingWidth = 0,
       gt_TrailingWidth = 0, gt_LeadingTrivia = [], gt_TrailingTrivia = []\<rparr>))
      \<lparr>gt_Kind = GkToken, gt_TokenKind = 0, gt_Text = ''x'', gt_Width = 1, gt_LeadingWidth = 0,
       gt_TrailingWidth = 0, gt_LeadingTrivia = [], gt_TrailingTrivia = []\<rparr>) = 0"
  using AddToken_shares [OF NewArena_ok(1) token_table.eqv_refl,
      of "\<lparr>gt_Kind = GkToken, gt_TokenKind = 0, gt_Text = ''x'', gt_Width = 1, gt_LeadingWidth = 0,
       gt_TrailingWidth = 0, gt_LeadingTrivia = [], gt_TrailingTrivia = []\<rparr>"]
  by (simp add: AddToken_def lookupToken_def NewArena_def newGreenDedup_def)

end
