(* ===== verification/CST_Builder.thy ===== *)
theory CST_Builder
  imports CST_Green
begin

text \<open>
  \<^verbatim>\<open>src/internal/cst/green_arena.go\<close>: the event-driven \<open>GreenBuilder\<close>. The open frames
  are a list with the innermost first; every \<open>panic\<close> of the code is a \<open>Panic\<close> value.
  The sequence of tokens a builder has received so far is \<open>emitted\<close>: opening, wrapping
  and closing nodes never changes it, a token event appends to it. The locale
  \<open>event_builder\<close> states that contract for the two parsers that drive a builder.
\<close>

section \<open>State\<close>

record builderFrame =
  fr_kind :: GreenKind
  fr_children :: "GreenChild list"
  fr_width :: nat

record GreenBuilder =
  arena :: GreenArena
  stack :: "builderFrame list"
  root :: "nat option"

record GreenCheckpoint =
  cp_frame :: nat
  cp_children :: nat
  cp_width :: nat

section \<open>Operations\<close>

definition NewBuilder :: "GreenArena option \<Rightarrow> GreenBuilder" where
  "NewBuilder ao = \<lparr>arena = (case ao of None \<Rightarrow> NewArena | Some a \<Rightarrow> a), stack = [], root = None\<rparr>"

definition Checkpoint :: "GreenBuilder \<Rightarrow> GreenCheckpoint res" where
  "Checkpoint b =
     (case stack b of
        [] \<Rightarrow> Inl (Panic ''cst: GreenBuilder.Checkpoint called outside any StartNode frame'')
      | fr # _ \<Rightarrow> Inr \<lparr>cp_frame = length (stack b) - 1, cp_children = length (fr_children fr),
                         cp_width = fr_width fr\<rparr>)"

definition StartNode :: "GreenKind \<Rightarrow> GreenBuilder \<Rightarrow> GreenBuilder" where
  "StartNode kind b = b\<lparr>stack := \<lparr>fr_kind = kind, fr_children = [], fr_width = 0\<rparr> # stack b\<rparr>"

definition StartNodeAt :: "GreenKind \<Rightarrow> GreenCheckpoint \<Rightarrow> GreenBuilder action" where
  "StartNodeAt kind cp b =
     (case stack b of
        [] \<Rightarrow> Inl (Panic ''cst: GreenBuilder.StartNodeAt called outside any StartNode frame'')
      | fr # rest \<Rightarrow>
          (if cp_frame cp \<noteq> length (stack b) - 1
           then Inl (Panic ''cst: GreenBuilder.StartNodeAt checkpoint belongs to a different frame'')
           else if cp_children cp > length (fr_children fr) \<or> cp_width cp > fr_width fr
           then Inl (Panic ''cst: GreenBuilder.StartNodeAt checkpoint is out of range'')
           else
             (let wrappedChildren = drop (cp_children cp) (fr_children fr);
                  wrappedWidth = fr_width fr - cp_width cp;
                  fr' = fr\<lparr>fr_children := take (cp_children cp) (fr_children fr),
                             fr_width := cp_width cp\<rparr>
              in Inr (b\<lparr>stack := \<lparr>fr_kind = kind, fr_children = wrappedChildren,
                                  fr_width = wrappedWidth\<rparr> # fr' # rest\<rparr>))))"

definition mkGreenToken ::
  "GreenArena \<Rightarrow> GreenKind \<Rightarrow> nat \<Rightarrow> string \<Rightarrow> nat \<Rightarrow> nat list \<Rightarrow> nat list \<Rightarrow> GreenToken" where
  "mkGreenToken a kind tokenKind txt width leading trailing =
     \<lparr>gt_Kind = kind, gt_TokenKind = tokenKind, gt_Text = txt, gt_Width = width,
      gt_LeadingWidth = sumTriviaWidths a leading, gt_TrailingWidth = sumTriviaWidths a trailing,
      gt_LeadingTrivia = leading, gt_TrailingTrivia = trailing\<rparr>"

definition TokenEvent ::
  "GreenKind \<Rightarrow> nat \<Rightarrow> string \<Rightarrow> nat \<Rightarrow> nat list \<Rightarrow> nat list \<Rightarrow> GreenBuilder action" where
  "TokenEvent kind tokenKind txt width leading trailing b =
     (let tok = mkGreenToken (arena b) kind tokenKind txt width leading trailing;
          r = AddToken (arena b) tok
      in case stack b of
           [] \<Rightarrow> Inl (Panic ''cst: GreenBuilder.Token called outside any StartNode frame'')
         | fr # rest \<Rightarrow>
             Inr (b\<lparr>arena := snd r,
                    stack := fr\<lparr>fr_children := fr_children fr @ [GctToken (fst r)],
                                 fr_width := fr_width fr + TotalWidth tok\<rparr> # rest\<rparr>))"

definition FinishNode :: "GreenBuilder action" where
  "FinishNode b =
     (case stack b of
        [] \<Rightarrow> Inl (Panic ''cst: GreenBuilder.FinishNode called with empty stack'')
      | fr # rest \<Rightarrow>
          (let node = \<lparr>gn_Kind = fr_kind fr, gn_Width = fr_width fr, gn_Children = fr_children fr\<rparr>;
               r = AddNode (arena b) node
           in case rest of
                [] \<Rightarrow> Inr (b\<lparr>arena := snd r, stack := [], root := Some (fst r)\<rparr>)
              | parent # rest' \<Rightarrow>
                  Inr (b\<lparr>arena := snd r,
                         stack := parent\<lparr>fr_children := fr_children parent @ [GctNode (fst r)],
                                         fr_width := fr_width parent + gn_Width node\<rparr> # rest'\<rparr>)))"

definition Finish :: "GreenBuilder \<Rightarrow> (GreenArena \<times> nat option) res" where
  "Finish b =
     (if stack b \<noteq> []
      then Inl (Panic ''cst: GreenBuilder.Finish called with unterminated StartNode frames'')
      else Inr (arena b, root b))"

section \<open>Well-formed arenas and the leaves below a child\<close>

fun child_ok :: "nat \<Rightarrow> nat \<Rightarrow> GreenChild \<Rightarrow> bool" where
  "child_ok nn nt (GctNode i) \<longleftrightarrow> i < nn"
| "child_ok nn nt (GctToken i) \<longleftrightarrow> i < nt"

fun child_width :: "GreenArena \<Rightarrow> GreenChild \<Rightarrow> nat" where
  "child_width a (GctNode i) = gn_Width (Nodes a ! i)"
| "child_width a (GctToken i) = TotalWidth (Tokens a ! i)"

definition children_width :: "GreenArena \<Rightarrow> GreenChild list \<Rightarrow> nat" where
  "children_width a cs = sum_list (map (child_width a) cs)"

definition trivia_ids_ok :: "GreenArena \<Rightarrow> nat list \<Rightarrow> bool" where
  "trivia_ids_ok a xs \<longleftrightarrow> list_all (\<lambda>i. i < length (Trivias a)) xs"

definition token_ok :: "GreenArena \<Rightarrow> GreenToken \<Rightarrow> bool" where
  "token_ok a t \<longleftrightarrow>
     trivia_ids_ok a (gt_LeadingTrivia t) \<and> trivia_ids_ok a (gt_TrailingTrivia t) \<and>
     gt_LeadingWidth t = sumTriviaWidths a (gt_LeadingTrivia t) \<and>
     gt_TrailingWidth t = sumTriviaWidths a (gt_TrailingTrivia t)"

definition wf_arena :: "GreenArena \<Rightarrow> bool" where
  "wf_arena a \<longleftrightarrow> tokens_ok a \<and> nodes_ok a \<and>
     (\<forall>i < length (Nodes a). list_all (child_ok i (length (Tokens a))) (gn_Children (Nodes a ! i))) \<and>
     (\<forall>i < length (Nodes a). gn_Width (Nodes a ! i) = children_width a (gn_Children (Nodes a ! i))) \<and>
     (\<forall>t \<in> set (Tokens a). token_ok a t)"

definition arena_le :: "GreenArena \<Rightarrow> GreenArena \<Rightarrow> bool" where
  "arena_le a a' \<longleftrightarrow> Trivias a' = Trivias a \<and>
     (\<exists>ns. Nodes a' = Nodes a @ ns) \<and> (\<exists>ts. Tokens a' = Tokens a @ ts)"

text \<open>The tokens below a child, left to right. In a well-formed arena every child of a node
  was stored before it, so the guard of the second equation is always true.\<close>

function leaves :: "GreenArena \<Rightarrow> GreenChild \<Rightarrow> GreenToken list" where
  "leaves a (GctToken i) = [Tokens a ! i]"
| "leaves a (GctNode i) =
     concat (map (\<lambda>c. if child_ok i (length (Tokens a)) c then leaves a c else [])
       (gn_Children (Nodes a ! i)))"
  by pat_completeness auto
termination
proof (relation "measure (\<lambda>(a, c). case c of GctToken _ \<Rightarrow> 0 | GctNode i \<Rightarrow> Suc i)", goal_cases)
  case (2 a i c)
  then show ?case by (cases c rule: GreenChild.exhaust) simp_all
qed simp

declare leaves.simps(2) [simp del]

lemma leaves_node:
  assumes "wf_arena a" "i < length (Nodes a)"
  shows "leaves a (GctNode i) = concat (map (leaves a) (gn_Children (Nodes a ! i)))"
proof -
  have "list_all (child_ok i (length (Tokens a))) (gn_Children (Nodes a ! i))"
    using assms by (auto simp: wf_arena_def)
  then show ?thesis by (simp add: leaves.simps(2) list_all_iff cong: map_cong)
qed

lemma arena_le_refl [simp]: "arena_le a a"
  by (simp add: arena_le_def)

lemma arena_le_trans: "arena_le a b \<Longrightarrow> arena_le b c \<Longrightarrow> arena_le a c"
  by (auto simp: arena_le_def)

lemma arena_le_nth:
  assumes "arena_le a a'"
  shows "i < length (Nodes a) \<Longrightarrow> Nodes a' ! i = Nodes a ! i"
    and "i < length (Tokens a) \<Longrightarrow> Tokens a' ! i = Tokens a ! i"
    and "length (Nodes a) \<le> length (Nodes a')" and "length (Tokens a) \<le> length (Tokens a')"
  using assms by (auto simp: arena_le_def nth_append)

lemma child_ok_mono: "child_ok n t c \<Longrightarrow> n \<le> n' \<Longrightarrow> t \<le> t' \<Longrightarrow> child_ok n' t' c"
  by (cases c) auto

lemma child_width_le:
  "arena_le a a' \<Longrightarrow> child_ok (length (Nodes a)) (length (Tokens a)) c \<Longrightarrow>
     child_width a' c = child_width a c"
  by (cases c) (auto simp: arena_le_nth)

lemma sumTriviaWidths_le: "arena_le a a' \<Longrightarrow> sumTriviaWidths a' xs = sumTriviaWidths a xs"
  unfolding arena_le_def sumTriviaWidths_def by (elim conjE) (simp only:)

lemma children_width_le:
  "arena_le a a' \<Longrightarrow> list_all (child_ok (length (Nodes a)) (length (Tokens a))) cs \<Longrightarrow>
     children_width a' cs = children_width a cs"
  unfolding children_width_def
  by (rule arg_cong [where f = sum_list]) (auto simp: list_all_iff intro: child_width_le)

lemma wf_arenaI:
  assumes "tokens_ok a" "nodes_ok a"
    and "\<And>i. i < length (Nodes a) \<Longrightarrow> list_all (child_ok i (length (Tokens a))) (gn_Children (Nodes a ! i))"
    and "\<And>i. i < length (Nodes a) \<Longrightarrow> gn_Width (Nodes a ! i) = children_width a (gn_Children (Nodes a ! i))"
    and "\<And>t. t \<in> set (Tokens a) \<Longrightarrow> token_ok a t"
  shows "wf_arena a"
  using assms by (simp add: wf_arena_def)

lemma wf_arenaD:
  assumes "wf_arena a"
  shows "tokens_ok a" "nodes_ok a"
    and "i < length (Nodes a) \<Longrightarrow> list_all (child_ok i (length (Tokens a))) (gn_Children (Nodes a ! i))"
    and "i < length (Nodes a) \<Longrightarrow>
      list_all (child_ok (length (Nodes a)) (length (Tokens a))) (gn_Children (Nodes a ! i))"
    and "i < length (Nodes a) \<Longrightarrow> gn_Width (Nodes a ! i) = children_width a (gn_Children (Nodes a ! i))"
    and "t \<in> set (Tokens a) \<Longrightarrow> token_ok a t"
  using assms by (auto simp: wf_arena_def list_all_iff intro: child_ok_mono less_imp_le)

lemma token_ok_le: "arena_le a a' \<Longrightarrow> token_ok a' t = token_ok a t"
  by (simp add: token_ok_def trivia_ids_ok_def sumTriviaWidths_le) (simp add: arena_le_def)

lemma wf_arena_child:
  assumes "wf_arena a" "i < length (Nodes a)" "c \<in> set (gn_Children (Nodes a ! i))"
  shows "child_ok i (length (Tokens a)) c" "child_ok (length (Nodes a)) (length (Tokens a)) c"
proof -
  show "child_ok i (length (Tokens a)) c" using assms by (auto simp: wf_arena_def list_all_iff)
  with assms(2) show "child_ok (length (Nodes a)) (length (Tokens a)) c"
    by (auto intro: child_ok_mono)
qed

lemma leaves_le:
  assumes "arena_le a a'" "wf_arena a" "wf_arena a'"
    and "child_ok (length (Nodes a)) (length (Tokens a)) c"
  shows "leaves a' c = leaves a c"
  using assms
proof (induction a c rule: leaves.induct)
  case (1 a i)
  then show ?case by (simp add: arena_le_nth)
next
  case (2 a i)
  then have i: "i < length (Nodes a)" by simp
  then have "i < length (Nodes a')" using "2.prems" by (auto simp: arena_le_def)
  with "2.prems" have "leaves a' (GctNode i) = concat (map (leaves a') (gn_Children (Nodes a' ! i)))"
    by (simp add: leaves_node)
  also have "\<dots> = concat (map (leaves a') (gn_Children (Nodes a ! i)))"
    using "2.prems" i by (simp add: arena_le_nth)
  also have "\<dots> = concat (map (leaves a) (gn_Children (Nodes a ! i)))"
    using "2.IH" "2.prems" wf_arena_child [OF "2.prems"(2) i]
    by (intro arg_cong [where f = concat] map_cong) auto
  finally show ?case using "2.prems" i by (simp add: leaves_node)
qed

section \<open>Insertions keep arenas well-formed\<close>

lemma AddToken_le: "tokens_ok a \<Longrightarrow> arena_le a (snd (AddToken a t))"
  using token_table.add_grows [of a t] by (auto simp: arena_le_def)

lemma AddNode_le: "nodes_ok a \<Longrightarrow> arena_le a (snd (AddNode a n))"
  using node_table.add_grows [of a n] by (auto simp: arena_le_def)

lemma AddToken_exact:
  assumes "wf_arena a" "token_ok a t"
  shows "Tokens (snd (AddToken a t)) ! fst (AddToken a t) = t"
    and "fst (AddToken a t) < length (Tokens (snd (AddToken a t)))"
    and "set (Tokens (snd (AddToken a t))) \<subseteq> insert t (set (Tokens a))"
proof -
  have ok: "tokens_ok a" using assms by (simp add: wf_arena_def)
  let ?r = "AddToken a t"
  show lt: "fst ?r < length (Tokens (snd ?r))" by (rule token_table.add_id [OF ok])
  show sub: "set (Tokens (snd ?r)) \<subseteq> insert t (set (Tokens a))"
    by (auto simp: AddToken_def Let_def split: option.splits)
  have "Tokens (snd ?r) ! fst ?r \<in> insert t (set (Tokens a))" using lt sub nth_mem by blast
  then have "token_ok a (Tokens (snd ?r) ! fst ?r)" using assms by (auto simp: wf_arena_def)
  with token_table.add_item [OF ok, of t] assms(2)
  show "Tokens (snd ?r) ! fst ?r = t" by (auto simp: tokensEqual_iff token_ok_def)
qed

lemma wf_AddToken:
  assumes "wf_arena a" "token_ok a t"
  shows "wf_arena (snd (AddToken a t))"
proof -
  let ?a = "snd (AddToken a t)"
  note wf = wf_arenaD [OF assms(1)]
  note le = AddToken_le [OF wf(1), of t]
  have "list_all (child_ok i (length (Tokens ?a))) (gn_Children (Nodes a ! i))"
    if "i < length (Nodes a)" for i
    using wf(3) [OF that] arena_le_nth(4) [OF le] by (auto simp: list_all_iff intro: child_ok_mono)
  moreover have "gn_Width (Nodes a ! i) = children_width ?a (gn_Children (Nodes a ! i))"
    if "i < length (Nodes a)" for i
    using wf(4,5) [OF that] by (simp add: children_width_le [OF le])
  moreover have "token_ok ?a u" if "u \<in> set (Tokens ?a)" for u
    using that AddToken_exact(3) [OF assms] assms(2) wf(6) by (auto simp: token_ok_le [OF le])
  ultimately show ?thesis
    using wf(1,2) token_table.add_invar by (intro wf_arenaI) simp_all
qed

lemma AddNode_exact:
  assumes "nodes_ok a"
  shows "Nodes (snd (AddNode a n)) ! fst (AddNode a n) = n"
    and "fst (AddNode a n) < length (Nodes (snd (AddNode a n)))"
  using node_table.add_item [OF assms, of n] node_table.add_id [OF assms, of n]
  by (auto simp: nodesEqual_iff)

lemma AddNode_cases:
  assumes "nodes_ok a"
  obtains "Nodes (snd (AddNode a n)) = Nodes a" | "Nodes (snd (AddNode a n)) = Nodes a @ [n]"
  using node_table.add_hit [OF assms] node_table.add_miss [OF assms] by blast

lemma wf_AddNode:
  assumes "wf_arena a"
    and "list_all (child_ok (length (Nodes a)) (length (Tokens a))) (gn_Children n)"
    and "gn_Width n = children_width a (gn_Children n)"
  shows "wf_arena (snd (AddNode a n))"
proof -
  let ?a = "snd (AddNode a n)"
  note wf = wf_arenaD [OF assms(1)]
  note le = AddNode_le [OF wf(2), of n]
  have entry: "list_all (child_ok i (length (Tokens a))) (gn_Children (Nodes ?a ! i)) \<and>
      gn_Width (Nodes ?a ! i) = children_width ?a (gn_Children (Nodes ?a ! i))"
    if i: "i < length (Nodes ?a)" for i
  proof (cases "i < length (Nodes a)")
    case True
    then show ?thesis using wf(3-5) [of i] by (simp add: arena_le_nth [OF le] children_width_le [OF le])
  next
    case False
    with i have "Nodes ?a = Nodes a @ [n]" by (cases rule: AddNode_cases [OF wf(2), of n]) auto
    moreover from this i False have "i = length (Nodes a)" by simp
    ultimately have "i = length (Nodes a)" "Nodes ?a ! i = n" by simp_all
    then show ?thesis using assms(2,3) by (simp add: children_width_le [OF le])
  qed
  show ?thesis
    using entry wf node_table.add_invar [OF wf(2), of n]
    by (intro wf_arenaI) (simp_all add: token_ok_le [OF le])
qed

section \<open>The builder invariant and the emitted tokens\<close>

definition frame_ok :: "GreenArena \<Rightarrow> builderFrame \<Rightarrow> bool" where
  "frame_ok a fr \<longleftrightarrow>
     list_all (child_ok (length (Nodes a)) (length (Tokens a))) (fr_children fr) \<and>
     fr_width fr = children_width a (fr_children fr)"

definition builder_ok :: "GreenBuilder \<Rightarrow> bool" where
  "builder_ok b \<longleftrightarrow> wf_arena (arena b) \<and> list_all (frame_ok (arena b)) (stack b)"

definition children_leaves :: "GreenArena \<Rightarrow> GreenChild list \<Rightarrow> GreenToken list" where
  "children_leaves a cs = concat (map (leaves a) cs)"

primrec frames_leaves :: "GreenArena \<Rightarrow> builderFrame list \<Rightarrow> GreenToken list" where
  "frames_leaves a [] = []"
| "frames_leaves a (fr # frs) = frames_leaves a frs @ children_leaves a (fr_children fr)"

definition emitted :: "GreenBuilder \<Rightarrow> GreenToken list" where
  "emitted b = frames_leaves (arena b) (stack b)"

text \<open>\<open>grows b b'\<close>: the innermost frame of \<open>b\<close> has received more children in \<open>b'\<close>, and
  the frames around it are as they were.\<close>

definition grows :: "GreenBuilder \<Rightarrow> GreenBuilder \<Rightarrow> bool" where
  "grows b b' \<longleftrightarrow> arena_le (arena b) (arena b') \<and> root b' = root b \<and>
     (\<exists>fr rest cs w. stack b = fr # rest \<and>
        stack b' = fr\<lparr>fr_children := fr_children fr @ cs, fr_width := fr_width fr + w\<rparr> # rest)"

lemma children_leaves_simps [simp]:
  "children_leaves a [] = []"
  "children_leaves a (cs @ ds) = children_leaves a cs @ children_leaves a ds"
  "children_leaves a (c # cs) = leaves a c @ children_leaves a cs"
  by (simp_all add: children_leaves_def)

lemma children_width_simps [simp]:
  "children_width a [] = 0"
  "children_width a (cs @ ds) = children_width a cs + children_width a ds"
  "children_width a (c # cs) = child_width a c + children_width a cs"
  by (simp_all add: children_width_def)

lemma children_leaves_le:
  "arena_le a a' \<Longrightarrow> wf_arena a \<Longrightarrow> wf_arena a' \<Longrightarrow>
     list_all (child_ok (length (Nodes a)) (length (Tokens a))) cs \<Longrightarrow>
     children_leaves a' cs = children_leaves a cs"
  unfolding children_leaves_def
  by (rule arg_cong [where f = concat]) (auto simp: list_all_iff intro: leaves_le)

lemma frame_ok_le: "arena_le a a' \<Longrightarrow> frame_ok a fr \<Longrightarrow> frame_ok a' fr"
  by (auto simp: frame_ok_def children_width_le list_all_iff
      intro: child_ok_mono arena_le_nth(3,4))

lemma frames_ok_le: "arena_le a a' \<Longrightarrow> list_all (frame_ok a) frs \<Longrightarrow> list_all (frame_ok a') frs"
  by (auto simp: list_all_iff intro: frame_ok_le)

lemma frames_leaves_le:
  assumes "arena_le a a'" "wf_arena a" "wf_arena a'" "list_all (frame_ok a) frs"
  shows "frames_leaves a' frs = frames_leaves a frs"
  using assms(4) by (induction frs) (auto simp: frame_ok_def children_leaves_le [OF assms(1-3)])

lemma grows_refl: "stack b \<noteq> [] \<Longrightarrow> grows b b"
proof -
  assume "stack b \<noteq> []"
  then obtain fr rest where "stack b = fr # rest" by (cases "stack b") auto
  then show ?thesis unfolding grows_def by (intro conjI exI [of _ fr] exI [of _ rest]
    exI [of _ "[]"] exI [of _ 0]) simp_all
qed

lemma grows_trans:
  assumes "grows b1 b2" "grows b2 b3"
  shows "grows b1 b3"
proof -
  obtain fr rest cs w where 1: "arena_le (arena b1) (arena b2)" "root b2 = root b1"
      "stack b1 = fr # rest"
      "stack b2 = fr\<lparr>fr_children := fr_children fr @ cs, fr_width := fr_width fr + w\<rparr> # rest"
    using assms(1) unfolding grows_def by blast
  obtain cs' w' where 2: "arena_le (arena b2) (arena b3)" "root b3 = root b2"
      "stack b3 = fr\<lparr>fr_children := (fr_children fr @ cs) @ cs', fr_width := fr_width fr + w + w'\<rparr> # rest"
    using assms(2) 1(4) unfolding grows_def by auto
  have "stack b3 = fr\<lparr>fr_children := fr_children fr @ (cs @ cs'), fr_width := fr_width fr + (w + w')\<rparr> # rest"
    using 2(3) by (simp add: add.assoc)
  then show ?thesis
    unfolding grows_def using 1(2,3) 2(2) arena_le_trans [OF 1(1) 2(1)]
    by (intro conjI exI [of _ fr] exI [of _ rest] exI [of _ "cs @ cs'"] exI [of _ "w + w'"]) simp_all
qed

lemma grows_stack: "grows b b' \<Longrightarrow> stack b \<noteq> [] \<and> stack b' \<noteq> [] \<and> length (stack b') = length (stack b)"
  by (auto simp: grows_def)

section \<open>Each event against the contract\<close>

lemma token_ok_mkGreenToken:
  "trivia_ids_ok a ls \<Longrightarrow> trivia_ids_ok a ts \<Longrightarrow> token_ok a (mkGreenToken a k tk txt w ls ts)"
  by (simp add: token_ok_def mkGreenToken_def)

lemma TokenEvent_ok:
  assumes ok: "builder_ok b" "stack b \<noteq> []"
    and ids: "trivia_ids_ok (arena b) ls" "trivia_ids_ok (arena b) ts"
  obtains b' where "TokenEvent k tk txt w ls ts b = Inr b'" "builder_ok b'" "grows b b'"
    "emitted b' = emitted b @ [mkGreenToken (arena b) k tk txt w ls ts]"
proof -
  let ?t = "mkGreenToken (arena b) k tk txt w ls ts"
  let ?r = "AddToken (arena b) ?t"
  obtain fr rest where st: "stack b = fr # rest" using ok(2) by (cases "stack b") auto
  let ?fr = "fr\<lparr>fr_children := fr_children fr @ [GctToken (fst ?r)], fr_width := fr_width fr + TotalWidth ?t\<rparr>"
  let ?b = "b\<lparr>arena := snd ?r, stack := ?fr # rest\<rparr>"
  have wf: "wf_arena (arena b)" "token_ok (arena b) ?t"
    using ok ids by (auto simp: builder_ok_def intro: token_ok_mkGreenToken)
  note wf' = wf_AddToken [OF wf] and ex = AddToken_exact [OF wf]
  note le = AddToken_le [OF wf_arenaD(1) [OF wf(1)], of ?t]
  have fr: "frame_ok (arena b) fr" "list_all (frame_ok (arena b)) rest"
    using ok st by (auto simp: builder_ok_def)
  have fr': "frame_ok (snd ?r) fr" "list_all (frame_ok (snd ?r)) rest"
    using frame_ok_le [OF le fr(1)] frames_ok_le [OF le fr(2)] by auto
  have "frame_ok (snd ?r) ?fr" using fr'(1) ex by (simp add: frame_ok_def)
  then have 1: "builder_ok ?b" using wf' fr'(2) by (simp add: builder_ok_def)
  have 2: "grows b ?b" using le st unfolding grows_def by auto
  have "children_leaves (snd ?r) (fr_children fr) = children_leaves (arena b) (fr_children fr)"
    using children_leaves_le [OF le wf(1) wf'] fr(1) by (simp add: frame_ok_def)
  moreover note frames_leaves_le [OF le wf(1) wf' fr(2)]
  ultimately have 3: "emitted ?b = emitted b @ [?t]"
    using ex by (simp add: emitted_def st)
  have 4: "TokenEvent k tk txt w ls ts b = Inr ?b"
    by (simp add: TokenEvent_def st Let_def)
  show thesis by (rule that [OF 4 1 2 3])
qed

lemma StartNode_ok:
  assumes "builder_ok b"
  shows "builder_ok (StartNode k b)" "emitted (StartNode k b) = emitted b"
    "stack (StartNode k b) = \<lparr>fr_kind = k, fr_children = [], fr_width = 0\<rparr> # stack b"
  using assms by (simp_all add: StartNode_def builder_ok_def emitted_def frame_ok_def)

text \<open>Closing a frame whose parent is open: the node's leaves move to the parent.\<close>

lemma FinishNode_inner:
  assumes ok: "builder_ok b" and st: "stack b = fr # parent # rest"
  obtains b' c w where "FinishNode b = Inr b'" "builder_ok b'" "emitted b' = emitted b"
    "arena_le (arena b) (arena b')" "root b' = root b"
    "stack b' = parent\<lparr>fr_children := fr_children parent @ [c], fr_width := fr_width parent + w\<rparr> # rest"
proof -
  let ?n = "\<lparr>gn_Kind = fr_kind fr, gn_Width = fr_width fr, gn_Children = fr_children fr\<rparr>"
  let ?r = "AddNode (arena b) ?n"
  let ?p = "parent\<lparr>fr_children := fr_children parent @ [GctNode (fst ?r)],
      fr_width := fr_width parent + fr_width fr\<rparr>"
  let ?b = "b\<lparr>arena := snd ?r, stack := ?p # rest\<rparr>"
  have wf: "wf_arena (arena b)" and fr: "frame_ok (arena b) fr" "frame_ok (arena b) parent"
      "list_all (frame_ok (arena b)) rest"
    using ok st by (auto simp: builder_ok_def)
  have wf': "wf_arena (snd ?r)"
    using fr(1) by (intro wf_AddNode [OF wf]) (simp_all add: frame_ok_def)
  note nok = wf_arenaD(2) [OF wf]
  note le = AddNode_le [OF nok, of ?n] and ex = AddNode_exact [OF nok, of ?n]
  have fr': "frame_ok (snd ?r) parent" "list_all (frame_ok (snd ?r)) rest"
    using frame_ok_le [OF le fr(2)] frames_ok_le [OF le fr(3)] by auto
  have "frame_ok (snd ?r) ?p" using fr'(1) ex by (simp add: frame_ok_def)
  then have 1: "builder_ok ?b" using wf' fr'(2) by (simp add: builder_ok_def)
  have lv: "children_leaves (snd ?r) (fr_children f) = children_leaves (arena b) (fr_children f)"
    if "frame_ok (arena b) f" for f
    using children_leaves_le [OF le wf wf'] that by (simp add: frame_ok_def)
  have "leaves (snd ?r) (GctNode (fst ?r)) = children_leaves (snd ?r) (fr_children fr)"
    using leaves_node [OF wf' ex(2)] ex(1) by (simp add: children_leaves_def)
  moreover note frames_leaves_le [OF le wf wf' fr(3)]
  ultimately have 2: "emitted ?b = emitted b"
    by (simp add: emitted_def st lv [OF fr(1)] lv [OF fr(2)])
  have 3: "FinishNode b = Inr ?b" by (simp add: FinishNode_def st Let_def)
  show thesis by (rule that [OF 3 1 2]) (use le in auto)
qed

text \<open>A checkpoint taken in \<open>b\<close> is still valid after the frame has grown, and
  wrapping what was added since keeps the emitted tokens.\<close>

lemma StartNodeAt_ok:
  assumes ok: "builder_ok b" "builder_ok b1" and g: "grows b b1" and cp: "Checkpoint b = Inr cp"
  obtains b2 fr w cs rest where "StartNodeAt k cp b1 = Inr b2" "builder_ok b2" "emitted b2 = emitted b1"
    "arena b2 = arena b1" "root b2 = root b1" "stack b = fr # rest"
    "stack b2 = \<lparr>fr_kind = k, fr_children = cs, fr_width = w\<rparr> # fr # rest"
proof -
  obtain fr rest cs w where le: "arena_le (arena b) (arena b1)" and st: "stack b = fr # rest"
      "stack b1 = fr\<lparr>fr_children := fr_children fr @ cs, fr_width := fr_width fr + w\<rparr> # rest"
    using g unfolding grows_def by blast
  have cp': "cp = \<lparr>cp_frame = length rest, cp_children = length (fr_children fr), cp_width = fr_width fr\<rparr>"
    using cp st by (simp add: Checkpoint_def)
  let ?b = "b1\<lparr>stack := \<lparr>fr_kind = k, fr_children = cs, fr_width = w\<rparr> # fr # rest\<rparr>"
  have 1: "StartNodeAt k cp b1 = Inr ?b"
    by (simp add: StartNodeAt_def st cp' Let_def)
  have fr: "frame_ok (arena b1) fr" "list_all (frame_ok (arena b1)) rest"
    using ok(1) st(1) frame_ok_le [OF le] frames_ok_le [OF le] by (auto simp: builder_ok_def)
  have "frame_ok (arena b1) (fr\<lparr>fr_children := fr_children fr @ cs, fr_width := fr_width fr + w\<rparr>)"
    using ok(2) st(2) by (simp add: builder_ok_def)
  with fr(1) have "frame_ok (arena b1) \<lparr>fr_kind = k, fr_children = cs, fr_width = w\<rparr>"
    by (simp add: frame_ok_def)
  with fr ok(2) have 2: "builder_ok ?b" by (simp add: builder_ok_def)
  have 3: "emitted ?b = emitted b1" by (simp add: emitted_def st)
  show thesis by (rule that [OF 1 2 3 _ _ st(1)]) simp_all
qed

lemma FinishNode_after:
  assumes ok: "builder_ok b2" "builder_ok b3" and g: "grows b2 b3"
    and st: "stack b2 = fr0 # fr # rest" "stack b = fr # rest"
    and le: "arena_le (arena b) (arena b2)" and root: "root b2 = root b"
  obtains b4 where "FinishNode b3 = Inr b4" "builder_ok b4" "grows b b4" "emitted b4 = emitted b3"
proof -
  obtain fr1 where g3: "arena_le (arena b2) (arena b3)" "root b3 = root b2" "stack b3 = fr1 # fr # rest"
    using g st unfolding grows_def by auto
  obtain b4 c w where f: "FinishNode b3 = Inr b4" "builder_ok b4" "emitted b4 = emitted b3"
      "arena_le (arena b3) (arena b4)" "root b4 = root b3"
      "stack b4 = fr\<lparr>fr_children := fr_children fr @ [c], fr_width := fr_width fr + w\<rparr> # rest"
    using FinishNode_inner [OF ok(2) g3(3)] .
  have "arena_le (arena b) (arena b4)"
    using arena_le_trans [OF arena_le_trans [OF le g3(1)] f(4)] .
  then have "grows b b4" using f(5,6) g3(2) root st(2) unfolding grows_def by auto
  with f that show thesis by blast
qed

section \<open>The builder contract\<close>

locale event_builder =
  fixes ok :: "'s \<Rightarrow> bool"
    and ext :: "'s \<Rightarrow> 's \<Rightarrow> bool"
    and received :: "'s \<Rightarrow> 't list"
    and start :: "'k \<Rightarrow> 's \<Rightarrow> 's"
    and checkpoint :: "'s \<Rightarrow> 'c res"
    and startAt :: "'k \<Rightarrow> 'c \<Rightarrow> 's action"
    and finish :: "'s action"
  assumes ext_refl: "ok s \<Longrightarrow> ext s s"
    and ext_trans: "ext s s1 \<Longrightarrow> ext s1 s2 \<Longrightarrow> ext s s2"
    and start_ok: "ok s \<Longrightarrow> ok (start k s)"
    and start_received: "ok s \<Longrightarrow> received (start k s) = received s"
    and checkpoint_total: "ok s \<Longrightarrow> \<exists>c. checkpoint s = Inr c"
    and finish_start: "ok s \<Longrightarrow> ok s2 \<Longrightarrow> ext (start k s) s2 \<Longrightarrow>
        \<exists>s3. finish s2 = Inr s3 \<and> ok s3 \<and> ext s s3 \<and> received s3 = received s2"
    and startAt_total: "ok s \<Longrightarrow> checkpoint s = Inr c \<Longrightarrow> ok s1 \<Longrightarrow> ext s s1 \<Longrightarrow>
        \<exists>s2. startAt k c s1 = Inr s2 \<and> ok s2 \<and> received s2 = received s1"
    and finish_startAt: "ok s \<Longrightarrow> checkpoint s = Inr c \<Longrightarrow> ok s1 \<Longrightarrow> ext s s1 \<Longrightarrow>
        startAt k c s1 = Inr s2 \<Longrightarrow> ok s3 \<Longrightarrow> ext s2 s3 \<Longrightarrow>
        \<exists>s4. finish s3 = Inr s4 \<and> ok s4 \<and> ext s s4 \<and> received s4 = received s3"
begin

text \<open>A node opened, filled by a well-behaved body and closed again only adds what the body
  added.\<close>

lemma bracket:
  assumes "ok s" "body (start k s) = Inr s2" "ok s2" "ext (start k s) s2"
  shows "\<exists>s3. bindR (body (start k s)) finish = Inr s3 \<and> ok s3 \<and> ext s s3 \<and> received s3 = received s2"
  using finish_start [OF assms(1,3,4)] assms(2) by simp

lemma bracketAt:
  assumes "ok s" "checkpoint s = Inr c" "ok s1" "ext s s1"
    and body: "\<And>s2. startAt k c s1 = Inr s2 \<Longrightarrow> ok s2 \<Longrightarrow> received s2 = received s1 \<Longrightarrow>
      \<exists>s3. body s2 = Inr s3 \<and> ok s3 \<and> ext s2 s3 \<and> P (received s3)"
  shows "\<exists>s4. bindR (bindR (startAt k c s1) body) finish = Inr s4 \<and> ok s4 \<and> ext s s4 \<and> P (received s4)"
proof -
  obtain s2 where s2: "startAt k c s1 = Inr s2" "ok s2" "received s2 = received s1"
    using startAt_total [OF assms(1-4)] by blast
  obtain s3 where s3: "body s2 = Inr s3" "ok s3" "ext s2 s3" "P (received s3)"
    using body [OF s2] by blast
  from finish_startAt [OF assms(1-4) s2(1) s3(2,3)] s2(1) s3 show ?thesis by auto
qed

end

definition open_builder :: "GreenBuilder \<Rightarrow> bool" where
  "open_builder b \<longleftrightarrow> builder_ok b \<and> stack b \<noteq> []"

lemma open_StartNode: "open_builder b \<Longrightarrow> open_builder (StartNode k b)"
  by (simp add: open_builder_def StartNode_ok)

interpretation green: event_builder open_builder grows emitted StartNode Checkpoint StartNodeAt FinishNode
proof (unfold_locales, goal_cases)
  case (1 s) then show ?case by (simp add: open_builder_def grows_refl)
next
  case (2 s s1 s2) then show ?case by (rule grows_trans)
next
  case (3 s k) then show ?case by (rule open_StartNode)
next
  case (4 s k) then show ?case by (simp add: open_builder_def StartNode_ok)
next
  case (5 s) then show ?case by (cases "stack s") (auto simp: open_builder_def Checkpoint_def)
next
  case (6 s s2 k)
  then obtain fr rest where st: "stack s = fr # rest" by (cases "stack s") (auto simp: open_builder_def)
  have b: "builder_ok s" "builder_ok s2" "builder_ok (StartNode k s)"
    using 6 open_StartNode [of s k] by (auto simp: open_builder_def)
  from FinishNode_after [OF b(3,2) 6(3), of _ fr rest s] st StartNode_ok(3) [OF b(1), of k]
  obtain s3 where "FinishNode s2 = Inr s3" "builder_ok s3" "grows s s3" "emitted s3 = emitted s2"
    by (auto simp: StartNode_def)
  then show ?case using grows_stack by (auto simp: open_builder_def)
next
  case (7 s c s1 k)
  then have "builder_ok s" "builder_ok s1" by (auto simp: open_builder_def)
  from StartNodeAt_ok [OF this 7(4) 7(2), of k] show ?case by (fastforce simp: open_builder_def)
next
  case (8 s c s1 k s2 s3)
  then have b: "builder_ok s" "builder_ok s1" "builder_ok s3" by (auto simp: open_builder_def)
  obtain fr w cs rest where a: "builder_ok s2" "arena s2 = arena s1" "root s2 = root s1"
      "stack s = fr # rest" "stack s2 = \<lparr>fr_kind = k, fr_children = cs, fr_width = w\<rparr> # fr # rest"
    using StartNodeAt_ok [OF b(1,2) 8(4) 8(2), of k] 8(5) by (metis sum.inject(2))
  have "arena_le (arena s) (arena s2)" "root s2 = root s" using 8(4) a(2,3) by (auto simp: grows_def)
  from FinishNode_after [OF a(1) b(3) 8(7) a(5,4) this]
  obtain s4 where "FinishNode s3 = Inr s4" "builder_ok s4" "grows s s4" "emitted s4 = emitted s3" .
  then show ?case using grows_stack by (auto simp: open_builder_def)
qed

text \<open>Closing the outermost frame makes it the root, and its leaves are the emitted tokens.\<close>

lemma FinishNode_root:
  assumes ok: "builder_ok b" and st: "stack b = [fr]"
  obtains b' i where "FinishNode b = Inr b'" "wf_arena (arena b')" "stack b' = []" "root b' = Some i"
    "i < length (Nodes (arena b'))" "leaves (arena b') (GctNode i) = emitted b"
    "gn_Kind (Nodes (arena b') ! i) = fr_kind fr" "arena_le (arena b) (arena b')"
    "gn_Width (Nodes (arena b') ! i) = fr_width fr"
proof -
  let ?n = "\<lparr>gn_Kind = fr_kind fr, gn_Width = fr_width fr, gn_Children = fr_children fr\<rparr>"
  let ?r = "AddNode (arena b) ?n"
  have wf: "wf_arena (arena b)" and fr: "frame_ok (arena b) fr"
    using ok st by (auto simp: builder_ok_def)
  have wf': "wf_arena (snd ?r)"
    using fr by (intro wf_AddNode [OF wf]) (simp_all add: frame_ok_def)
  note nok = wf_arenaD(2) [OF wf]
  note le = AddNode_le [OF nok, of ?n] and ex = AddNode_exact [OF nok, of ?n]
  have "leaves (snd ?r) (GctNode (fst ?r)) = children_leaves (snd ?r) (fr_children fr)"
    using leaves_node [OF wf' ex(2)] ex(1) by (simp add: children_leaves_def)
  also have "\<dots> = emitted b"
    using children_leaves_le [OF le wf wf'] fr by (simp add: emitted_def st frame_ok_def)
  finally have lv: "leaves (snd ?r) (GctNode (fst ?r)) = emitted b" .
  have "FinishNode b = Inr (b\<lparr>arena := snd ?r, stack := [], root := Some (fst ?r)\<rparr>)"
    by (simp add: FinishNode_def st Let_def)
  from that [OF this] show thesis using wf' lv ex le by simp
qed

text \<open>Pratt-style wrapping never loses or reorders tokens: a checkpoint taken in an open
  frame stays usable while that frame grows, the retroactive \<open>StartNodeAt\<close> and its \<open>FinishNode\<close>
  succeed, and the tokens received are the same ones in the same order.\<close>

theorem wrap_keeps_tokens:
  assumes "open_builder b" "Checkpoint b = Inr cp" "open_builder b1" "grows b b1"
  shows "\<exists>b2 b3. StartNodeAt k cp b1 = Inr b2 \<and> FinishNode b2 = Inr b3 \<and>
    open_builder b3 \<and> grows b b3 \<and> emitted b3 = emitted b1"
proof -
  obtain b2 where b2: "StartNodeAt k cp b1 = Inr b2" "open_builder b2" "emitted b2 = emitted b1"
    using green.startAt_total [OF assms] by blast
  from green.finish_startAt [OF assms b2(1) b2(2) green.ext_refl [OF b2(2)]] b2 show ?thesis by auto
qed

theorem wrap_keeps_tokens_witness:
  "\<exists>b2 b3. StartNodeAt GkBinary \<lparr>cp_frame = 0, cp_children = 0, cp_width = 0\<rparr> (StartNode GkFile (NewBuilder None)) = Inr b2 \<and>
    FinishNode b2 = Inr b3 \<and> open_builder b3 \<and> grows (StartNode GkFile (NewBuilder None)) b3 \<and>
    emitted b3 = emitted (StartNode GkFile (NewBuilder None))"
proof (rule wrap_keeps_tokens)
  have "wf_arena NewArena" using NewArena_ok by (simp add: wf_arena_def NewArena_def)
  then have "builder_ok (NewBuilder None)" by (simp add: builder_ok_def NewBuilder_def)
  then show o: "open_builder (StartNode GkFile (NewBuilder None))"
    by (simp add: open_builder_def StartNode_ok)
  then show "open_builder (StartNode GkFile (NewBuilder None))" .
  show "grows (StartNode GkFile (NewBuilder None)) (StartNode GkFile (NewBuilder None))"
    using o by (rule green.ext_refl)
  show "Checkpoint (StartNode GkFile (NewBuilder None)) = Inr \<lparr>cp_frame = 0, cp_children = 0, cp_width = 0\<rparr>"
    by code_simp
qed

end
