(* ===== verification/CST_Red.thy ===== *)
theory CST_Red
  imports CST_Builder
begin

text \<open>
  \<^verbatim>\<open>src/internal/cst/red.go\<close>: the lazy red view of a green tree. A handle carries its
  absolute offset and the index of its parent in the tree's side table; child handles are
  created on demand and cached. The cache is state, so every operation that can create a
  handle returns the tree it leaves behind. A handle's arena id is its \<^typ>\<open>GreenChild\<close>;
  the sentinel \<open>-1\<close> for a missing parent or root is \<^const>\<open>None\<close>. Recursion over the
  tree takes fuel; the height of the tree below the handle is enough, and in a well-formed
  arena the number of nodes bounds it.
\<close>

section \<open>Handles and trees\<close>

record Red =
  red_parent :: "nat option"
  red_indexInParent :: "nat option"
  red_absoluteOffset :: nat
  red_child :: GreenChild

record Tree =
  tr_Arena :: GreenArena
  tr_Root :: "nat option"
  tr_Source :: "bytes option"
  reds :: "Red list"
  childCache :: "nat \<times> nat \<Rightarrow> nat option"

definition NewTreeFromSource :: "GreenArena \<Rightarrow> nat option \<Rightarrow> bytes option \<Rightarrow> Tree" where
  "NewTreeFromSource a rootNodeID source =
     \<lparr>tr_Arena = a, tr_Root = rootNodeID, tr_Source = source, reds = [], childCache = (\<lambda>_. None)\<rparr>"

definition NewTree :: "GreenArena \<Rightarrow> nat option \<Rightarrow> Tree" where
  "NewTree a rootNodeID = NewTreeFromSource a rootNodeID None"

definition root_red :: "nat \<Rightarrow> Red" where
  "root_red i = \<lparr>red_parent = None, red_indexInParent = None, red_absoluteOffset = 0, red_child = GctNode i\<rparr>"

text \<open>The code returns a handle with id \<open>-1\<close> for a tree without a root, and every use of that
  handle is an index panic; the model reports the panic here.\<close>

definition Root :: "Tree \<Rightarrow> (Red \<times> Tree) res" where
  "Root t =
     (case tr_Root t of
        None \<Rightarrow> Inl (Panic ''index out of range'')
      | Some i \<Rightarrow>
          (let t' = (if reds t = [] then t\<lparr>reds := [root_red i]\<rparr> else t)
           in Inr (reds t' ! 0, t')))"

definition redIndex :: "Tree \<Rightarrow> Red \<Rightarrow> nat \<times> Tree" where
  "redIndex t r =
     (case (red_parent r, red_indexInParent r) of
        (Some p, Some c) \<Rightarrow>
          (case childCache t (p, c) of
             Some idx \<Rightarrow> (idx, t)
           | None \<Rightarrow> (length (reds t), t\<lparr>reds := reds t @ [r],
                        childCache := (childCache t)((p, c) \<mapsto> length (reds t))\<rparr>))
      | _ \<Rightarrow> (0, t))"

section \<open>Accessors\<close>

fun is_tok :: "GreenChild \<Rightarrow> bool" where
  "is_tok (GctToken _) = True"
| "is_tok (GctNode _) = False"

definition red_Kind :: "Tree \<Rightarrow> Red \<Rightarrow> GreenKind" where
  "red_Kind t r = (case red_child r of
       GctNode i \<Rightarrow> gn_Kind (Nodes (tr_Arena t) ! i)
     | GctToken i \<Rightarrow> gt_Kind (Tokens (tr_Arena t) ! i))"

definition IsToken :: "Red \<Rightarrow> bool" where "IsToken r = is_tok (red_child r)"
definition IsNode :: "Red \<Rightarrow> bool" where "IsNode r = (\<not> is_tok (red_child r))"
definition GreenID :: "Red \<Rightarrow> nat" where "GreenID r = GreenChild_ID (red_child r)"

definition red_Token :: "Tree \<Rightarrow> Red \<Rightarrow> GreenToken res" where
  "red_Token t r = (case red_child r of
       GctToken i \<Rightarrow> Inr (Tokens (tr_Arena t) ! i)
     | GctNode _ \<Rightarrow> Inl (Panic ''cst.Red.Token: handle is not a token leaf''))"

definition red_Node :: "Tree \<Rightarrow> Red \<Rightarrow> GreenNode res" where
  "red_Node t r = (case red_child r of
       GctNode i \<Rightarrow> Inr (Nodes (tr_Arena t) ! i)
     | GctToken _ \<Rightarrow> Inl (Panic ''cst.Red.Node: handle is not an interior node''))"

definition red_Width :: "Tree \<Rightarrow> Red \<Rightarrow> nat" where
  "red_Width t r = child_width (tr_Arena t) (red_child r)"

definition TextWidth :: "Tree \<Rightarrow> Red \<Rightarrow> nat" where
  "TextWidth t r = (case red_child r of
       GctToken i \<Rightarrow> gt_Width (Tokens (tr_Arena t) ! i)
     | GctNode _ \<Rightarrow> red_Width t r)"

definition red_End :: "Tree \<Rightarrow> Red \<Rightarrow> nat" where
  "red_End t r = red_absoluteOffset r + red_Width t r"

definition TextRange :: "Tree \<Rightarrow> Red \<Rightarrow> nat \<times> nat" where
  "TextRange t r = (red_absoluteOffset r, red_End t r)"

text \<open>A nil source has length 0.\<close>

definition source_bytes :: "Tree \<Rightarrow> bytes" where
  "source_bytes t = (case tr_Source t of None \<Rightarrow> [] | Some s \<Rightarrow> s)"

definition red_Text :: "Tree \<Rightarrow> Red \<Rightarrow> bytes option" where
  "red_Text t r =
     (if red_End t r < red_absoluteOffset r \<or> red_End t r > length (source_bytes t) then None
      else Some (slice (source_bytes t) (red_absoluteOffset r) (red_End t r)))"

definition TokenTextRange :: "Tree \<Rightarrow> Red \<Rightarrow> (nat \<times> nat) option" where
  "TokenTextRange t r = (case red_child r of
       GctToken i \<Rightarrow>
         (let tok = Tokens (tr_Arena t) ! i; start = red_absoluteOffset r + gt_LeadingWidth tok
          in Some (start, start + gt_Width tok))
     | GctNode _ \<Rightarrow> None)"

definition TokenText :: "Tree \<Rightarrow> Red \<Rightarrow> bytes option" where
  "TokenText t r = (case TokenTextRange t r of
       None \<Rightarrow> None
     | Some (start, stop) \<Rightarrow>
         (if stop < start \<or> stop > length (source_bytes t) then None
          else Some (slice (source_bytes t) start stop)))"

definition red_children :: "Tree \<Rightarrow> Red \<Rightarrow> GreenChild list" where
  "red_children t r = (case red_child r of
       GctNode i \<Rightarrow> gn_Children (Nodes (tr_Arena t) ! i)
     | GctToken _ \<Rightarrow> [])"

definition ChildCount :: "Tree \<Rightarrow> Red \<Rightarrow> nat" where
  "ChildCount t r = length (red_children t r)"

section \<open>Navigation\<close>

definition ChildAt :: "Tree \<Rightarrow> Red \<Rightarrow> nat \<Rightarrow> (Red \<times> Tree) res" where
  "ChildAt t r i =
     (case red_child r of
        GctToken _ \<Rightarrow> Inl (Panic ''cst.Red.ChildAt: leaf has no children'')
      | GctNode n \<Rightarrow>
          (let children = gn_Children (Nodes (tr_Arena t) ! n) in
           if i \<ge> length children then Inl (Panic ''cst.Red.ChildAt: index out of range'')
           else
             (let (parentIdx, t1) = redIndex t r in
              case childCache t1 (parentIdx, i) of
                Some idx \<Rightarrow> Inr (reds t1 ! idx, t1)
              | None \<Rightarrow>
                  (let childOffset = foldl (\<lambda>off c. off + child_width (tr_Arena t1) c)
                                       (red_absoluteOffset r) (take i children);
                       child = \<lparr>red_parent = Some parentIdx, red_indexInParent = Some i,
                                red_absoluteOffset = childOffset, red_child = children ! i\<rparr>;
                       idx = length (reds t1)
                   in Inr (child, t1\<lparr>reds := reds t1 @ [child],
                                     childCache := (childCache t1)((parentIdx, i) \<mapsto> idx)\<rparr>)))))"

definition Children :: "Tree \<Rightarrow> Red \<Rightarrow> (Red list \<times> Tree) res" where
  "Children t r =
     foldR (\<lambda>i acc. bindR (ChildAt (snd acc) r i) (\<lambda>x. Inr (fst acc @ [fst x], snd x)))
       [0..<ChildCount t r] ([], t)"

definition Parent :: "Tree \<Rightarrow> Red \<Rightarrow> Red option" where
  "Parent t r = (case red_parent r of None \<Rightarrow> None | Some p \<Rightarrow> Some (reds t ! p))"

text \<open>The parent chain, nearest first; the chain is no longer than the side table.\<close>

fun ancestors_fuel :: "nat \<Rightarrow> Tree \<Rightarrow> Red \<Rightarrow> Red list res" where
  "ancestors_fuel 0 t r = Inl OutOfFuel"
| "ancestors_fuel (Suc n) t r =
     (case Parent t r of
        None \<Rightarrow> Inr []
      | Some p \<Rightarrow> bindR (ancestors_fuel n t p) (\<lambda>ps. Inr (p # ps)))"

definition Ancestors :: "Tree \<Rightarrow> Red \<Rightarrow> Red list res" where
  "Ancestors t r = ancestors_fuel (Suc (length (reds t))) t r"

fun ancestor_of_kind_fuel :: "nat \<Rightarrow> Tree \<Rightarrow> Red \<Rightarrow> GreenKind \<Rightarrow> Red option res" where
  "ancestor_of_kind_fuel 0 t r kind = Inl OutOfFuel"
| "ancestor_of_kind_fuel (Suc n) t r kind =
     (case Parent t r of
        None \<Rightarrow> Inr None
      | Some p \<Rightarrow> if red_Kind t p = kind then Inr (Some p) else ancestor_of_kind_fuel n t p kind)"

definition AncestorOfKind :: "Tree \<Rightarrow> Red \<Rightarrow> GreenKind \<Rightarrow> Red option res" where
  "AncestorOfKind t r kind = ancestor_of_kind_fuel (Suc (length (reds t))) t r kind"

primrec FirstToken :: "nat \<Rightarrow> Red \<Rightarrow> Tree \<Rightarrow> (Red option \<times> Tree) res" where
  "FirstToken 0 r t = Inl OutOfFuel"
| "FirstToken (Suc n) r t =
     (if IsToken r then Inr (Some r, t)
      else firstR (\<lambda>i t. bindR (ChildAt t r i) (\<lambda>x. FirstToken n (fst x) (snd x)))
             [0..<ChildCount t r] t)"

primrec LastToken :: "nat \<Rightarrow> Red \<Rightarrow> Tree \<Rightarrow> (Red option \<times> Tree) res" where
  "LastToken 0 r t = Inl OutOfFuel"
| "LastToken (Suc n) r t =
     (if IsToken r then Inr (Some r, t)
      else firstR (\<lambda>i t. bindR (ChildAt t r i) (\<lambda>x. LastToken n (fst x) (snd x)))
             (rev [0..<ChildCount t r]) t)"

primrec FindCoveringNode :: "nat \<Rightarrow> nat \<Rightarrow> Red \<Rightarrow> Tree \<Rightarrow> (Red \<times> Tree) res" where
  "FindCoveringNode 0 offset r t = Inl OutOfFuel"
| "FindCoveringNode (Suc n) offset r t =
     (if offset < red_absoluteOffset r \<or> offset \<ge> red_End t r then Inr (r, t)
      else
        bindR (firstR (\<lambda>i t. bindR (ChildAt t r i)
                 (\<lambda>x. if offset \<ge> red_absoluteOffset (fst x) \<and> offset < red_End (snd x) (fst x)
                      then bindR (FindCoveringNode n offset (fst x) (snd x))
                             (\<lambda>y. Inr (Some (fst y), snd y))
                      else Inr (None, snd x)))
               [0..<ChildCount t r] t)
          (\<lambda>y. case fst y of Some f \<Rightarrow> Inr (f, snd y) | None \<Rightarrow> Inr (r, snd y)))"

definition FindTokenAt :: "nat \<Rightarrow> nat \<Rightarrow> Red \<Rightarrow> Tree \<Rightarrow> (Red option \<times> Tree) res" where
  "FindTokenAt n offset r t =
     bindR (FindCoveringNode n offset r t)
       (\<lambda>x. Inr (if IsToken (fst x) then Some (fst x) else None, snd x))"

primrec FindFirst :: "nat \<Rightarrow> GreenKind \<Rightarrow> Red \<Rightarrow> Tree \<Rightarrow> (Red option \<times> Tree) res" where
  "FindFirst 0 kind r t = Inl OutOfFuel"
| "FindFirst (Suc n) kind r t =
     (if red_Kind t r = kind then Inr (Some r, t)
      else firstR (\<lambda>i t. bindR (ChildAt t r i) (\<lambda>x. FindFirst n kind (fst x) (snd x)))
             [0..<ChildCount t r] t)"

text \<open>The visitor may touch the tree (it may ask for children itself) and carries a result of
  its own.\<close>

type_synonym 'acc visitor = "Red \<Rightarrow> Tree \<times> 'acc \<Rightarrow> (bool \<times> Tree \<times> 'acc) res"

primrec Walk :: "nat \<Rightarrow> 'acc visitor \<Rightarrow> Red \<Rightarrow> Tree \<times> 'acc \<Rightarrow> (Tree \<times> 'acc) res" where
  "Walk 0 visit r st = Inl OutOfFuel"
| "Walk (Suc n) visit r st =
     bindR (visit r st)
       (\<lambda>v. if \<not> fst v then Inr (snd v)
            else foldR (\<lambda>i st. bindR (ChildAt (fst st) r i)
                          (\<lambda>x. Walk n visit (fst x) (snd x, snd st)))
                   [0..<ChildCount (fst (snd v)) r] (snd v))"

definition red_Pos :: "lineIndex \<Rightarrow> Red \<Rightarrow> Pos" where
  "red_Pos li r = locate li (red_absoluteOffset r)"

definition red_EndPos :: "lineIndex \<Rightarrow> Tree \<Rightarrow> Red \<Rightarrow> Pos" where
  "red_EndPos li t r = locate li (red_End t r)"

section \<open>The side table invariant\<close>

definition red_valid :: "Tree \<Rightarrow> Red \<Rightarrow> bool" where
  "red_valid t r \<longleftrightarrow>
     child_ok (length (Nodes (tr_Arena t))) (length (Tokens (tr_Arena t))) (red_child r)"

text \<open>\<open>c\<close> is the handle of the \<open>i\<close>-th child of \<open>r\<close>: the child's id, and the offset where
  the widths of the earlier siblings end.\<close>

definition nth_child :: "Tree \<Rightarrow> Red \<Rightarrow> nat \<Rightarrow> Red \<Rightarrow> bool" where
  "nth_child t r i c \<longleftrightarrow>
     i < length (red_children t r) \<and> red_child c = red_children t r ! i \<and>
     red_absoluteOffset c = red_absoluteOffset r + children_width (tr_Arena t) (take i (red_children t r))"

definition cache_entry_ok :: "Tree \<Rightarrow> nat \<Rightarrow> nat \<Rightarrow> nat \<Rightarrow> bool" where
  "cache_entry_ok t p i k \<longleftrightarrow>
     p < k \<and> k < length (reds t) \<and> nth_child t (reds t ! p) i (reds t ! k) \<and>
     red_parent (reds t ! k) = Some p \<and> red_indexInParent (reds t ! k) = Some i"

text \<open>Entry \<open>k\<close> of the side table is the root's, or the one the cache has for its parent
  and position.\<close>

definition indexed :: "Tree \<Rightarrow> nat \<Rightarrow> bool" where
  "indexed t k \<longleftrightarrow> red_parent (reds t ! k) = None \<and> k = 0 \<or>
     (\<exists>p i. red_parent (reds t ! k) = Some p \<and> red_indexInParent (reds t ! k) = Some i \<and>
        childCache t (p, i) = Some k)"

definition tree_ok :: "Tree \<Rightarrow> bool" where
  "tree_ok t \<longleftrightarrow> wf_arena (tr_Arena t) \<and>
     (\<exists>i. tr_Root t = Some i \<and> i < length (Nodes (tr_Arena t)) \<and> (reds t = [] \<or> reds t ! 0 = root_red i)) \<and>
     (\<forall>p i k. childCache t (p, i) = Some k \<longrightarrow> cache_entry_ok t p i k) \<and>
     (\<forall>r \<in> set (reds t). red_valid t r) \<and> (\<forall>k < length (reds t). indexed t k)"

text \<open>The handles a client can hold are those of the side table.\<close>

definition handle :: "Tree \<Rightarrow> Red \<Rightarrow> bool" where
  "handle t r \<longleftrightarrow> r \<in> set (reds t)"

definition tree_le :: "Tree \<Rightarrow> Tree \<Rightarrow> bool" where
  "tree_le t t' \<longleftrightarrow> tr_Arena t' = tr_Arena t \<and> tr_Root t' = tr_Root t \<and> tr_Source t' = tr_Source t \<and>
     (\<exists>rs. reds t' = reds t @ rs) \<and> (\<forall>x k. childCache t x = Some k \<longrightarrow> childCache t' x = Some k)"

lemma tree_le_refl [simp]: "tree_le t t"
  by (simp add: tree_le_def)

lemma tree_le_trans: "tree_le t t1 \<Longrightarrow> tree_le t1 t2 \<Longrightarrow> tree_le t t2"
  unfolding tree_le_def by (metis append.assoc)

lemma tree_le_same:
  assumes "tree_le t t'"
  shows "red_children t' = red_children t" "red_valid t' = red_valid t" "nth_child t' = nth_child t"
    "red_Width t' = red_Width t" "red_End t' = red_End t" "ChildCount t' = ChildCount t"
    "tr_Arena t' = tr_Arena t" "source_bytes t' = source_bytes t" "red_Kind t' = red_Kind t"
proof -
  have a: "tr_Arena t' = tr_Arena t" and src: "tr_Source t' = tr_Source t"
    using assms by (simp_all add: tree_le_def)
  show ch: "red_children t' = red_children t" and w: "red_Width t' = red_Width t"
    by (simp_all add: fun_eq_iff red_children_def red_Width_def a split: GreenChild.split)
  show "red_valid t' = red_valid t" "red_Kind t' = red_Kind t" "red_End t' = red_End t"
    by (simp_all add: fun_eq_iff red_valid_def red_Kind_def red_End_def a w split: GreenChild.split)
  show "nth_child t' = nth_child t" "ChildCount t' = ChildCount t" "tr_Arena t' = tr_Arena t"
    by (simp_all add: fun_eq_iff nth_child_def ChildCount_def a ch)
  show "source_bytes t' = source_bytes t" by (simp add: source_bytes_def src)
qed

lemma indexed_mono: "k < length (reds t) \<Longrightarrow> tree_le t t' \<Longrightarrow> indexed t k \<Longrightarrow> indexed t' k"
  unfolding indexed_def tree_le_def by (elim conjE exE) (auto simp: nth_append)

lemma handle_mono: "tree_le t t' \<Longrightarrow> handle t r \<Longrightarrow> handle t' r"
  by (auto simp: handle_def tree_le_def)

lemma handle_valid: "tree_ok t \<Longrightarrow> handle t r \<Longrightarrow> red_valid t r"
  by (simp add: tree_ok_def handle_def)

lemma Root_spec:
  assumes "tree_ok t"
  obtains i t' where "Root t = Inr (root_red i, t')" "tr_Root t = Some i" "tree_ok t'" "tree_le t t'"
    "handle t' (root_red i)" "i < length (Nodes (tr_Arena t))"
proof -
  obtain i where i: "tr_Root t = Some i" "i < length (Nodes (tr_Arena t))"
      "reds t = [] \<or> reds t ! 0 = root_red i"
    using assms by (auto simp: tree_ok_def)
  show thesis
  proof (cases "reds t = []")
    case True
    let ?t = "t\<lparr>reds := [root_red i]\<rparr>"
    have noc: "childCache t (p, j) = None" for p j
      using assms True by (cases "childCache t (p, j)") (auto simp: tree_ok_def cache_entry_ok_def)
    have "tree_ok ?t" using assms i noc
      by (auto simp: tree_ok_def red_valid_def root_red_def indexed_def)
    moreover have "tree_le t ?t" using True by (simp add: tree_le_def)
    moreover have "handle ?t (root_red i)" by (simp add: handle_def root_red_def)
    moreover have "Root t = Inr (root_red i, ?t)" using i True by (simp add: Root_def)
    ultimately show thesis using that i by blast
  next
    case False
    then have "handle t (root_red i)" using i(3) by (metis handle_def length_greater_0_conv nth_mem)
    moreover have "Root t = Inr (root_red i, t)" using i False by (auto simp: Root_def)
    ultimately show thesis using that assms i by simp
  qed
qed

lemma redIndex_handle:
  assumes "tree_ok t" "handle t r"
  obtains k where "redIndex t r = (k, t)" "k < length (reds t)" "reds t ! k = r"
proof -
  obtain k where k: "k < length (reds t)" "reds t ! k = r"
    using assms(2) by (auto simp: handle_def in_set_conv_nth)
  then have "indexed t k" using assms(1) by (simp add: tree_ok_def)
  with k have "redIndex t r = (k, t)" by (auto simp: redIndex_def indexed_def)
  with that k show thesis by blast
qed

lemma child_offset_sum:
  "foldl (\<lambda>off c. off + child_width a c) base cs = base + children_width a cs"
  by (induction cs arbitrary: base) simp_all

lemma red_children_valid:
  assumes "tree_ok t" "red_valid t r" "c \<in> set (red_children t r)"
  shows "child_ok (length (Nodes (tr_Arena t))) (length (Tokens (tr_Arena t))) c"
proof -
  obtain n where n: "red_child r = GctNode n" "c \<in> set (gn_Children (Nodes (tr_Arena t) ! n))"
    using assms(3) by (cases "red_child r") (auto simp: red_children_def)
  then have "n < length (Nodes (tr_Arena t))" using assms(2) by (simp add: red_valid_def)
  with n assms(1) show ?thesis by (auto simp: tree_ok_def dest: wf_arena_child)
qed

lemma tree_ok_add_child:
  assumes ok: "tree_ok t" and p: "p < length (reds t)" "reds t ! p = r"
    and fresh: "childCache t (p, i) = None" and c: "nth_child t r i c"
    and cp: "red_parent c = Some p" "red_indexInParent c = Some i"
  shows "tree_ok (t\<lparr>reds := reds t @ [c], childCache := (childCache t)((p, i) \<mapsto> length (reds t))\<rparr>)"
    (is "tree_ok ?t")
proof -
  have le: "tree_le t ?t" using fresh by (auto simp: tree_le_def)
  note same = tree_le_same [OF le]
  have rv: "red_valid t r" using ok p by (auto simp: tree_ok_def)
  have cv: "red_valid t c"
    using c red_children_valid [OF ok rv, of "red_child c"] by (auto simp: nth_child_def red_valid_def)
  have "cache_entry_ok ?t q j k" if e: "childCache ?t (q, j) = Some k" for q j k
  proof (cases "(q, j) = (p, i)")
    case True
    then have "k = length (reds t)" using e by simp
    then show ?thesis using True p c cp by (simp add: cache_entry_ok_def nth_append same)
  next
    case False
    with e have "childCache t (q, j) = Some k" by (auto split: if_splits)
    then have "cache_entry_ok t q j k" using ok by (auto simp: tree_ok_def)
    then show ?thesis by (simp add: cache_entry_ok_def nth_append same)
  qed
  moreover have "\<forall>x \<in> set (reds ?t). red_valid ?t x"
    using ok cv by (auto simp: same tree_ok_def)
  moreover have "\<exists>i. tr_Root ?t = Some i \<and> i < length (Nodes (tr_Arena ?t)) \<and>
      (reds ?t = [] \<or> reds ?t ! 0 = root_red i)"
    using ok p by (auto simp: tree_ok_def nth_append)
  moreover have "indexed ?t k" if "k < length (reds ?t)" for k
  proof (cases "k = length (reds t)")
    case True
    then show ?thesis using cp by (simp add: indexed_def)
  next
    case False
    then have k: "k < length (reds t)" using that by simp
    then have "indexed t k" using ok by (simp add: tree_ok_def)
    with indexed_mono [OF k le] show ?thesis by blast
  qed
  ultimately show ?thesis using ok unfolding tree_ok_def by (auto simp: same)
qed

text \<open>The cached lookup is correct: whatever the cache holds, \<open>ChildAt\<close> on a child index
  returns the handle of that child, whose parent is the handle it was asked for.\<close>

lemma ChildAt_spec:
  assumes ok: "tree_ok t" and h: "handle t r" and i: "i < ChildCount t r"
  obtains c t' where "ChildAt t r i = Inr (c, t')" "tree_ok t'" "tree_le t t'" "handle t' c"
    "nth_child t r i c" "Parent t' c = Some r"
proof -
  obtain n where n: "red_child r = GctNode n" and cs: "red_children t r = gn_Children (Nodes (tr_Arena t) ! n)"
    using i by (cases "red_child r") (auto simp: ChildCount_def red_children_def)
  have il: "i < length (red_children t r)" using i by (simp add: ChildCount_def)
  obtain k where k: "redIndex t r = (k, t)" "k < length (reds t)" "reds t ! k = r"
    using redIndex_handle [OF ok h] .
  show thesis
  proof (cases "childCache t (k, i)")
    case (Some idx)
    then have e: "cache_entry_ok t k i idx" using ok by (auto simp: tree_ok_def)
    have "ChildAt t r i = Inr (reds t ! idx, t)"
      using n cs il k(1) Some by (simp add: ChildAt_def)
    moreover have "handle t (reds t ! idx)" using e Some by (auto simp: handle_def cache_entry_ok_def)
    moreover have "Parent t (reds t ! idx) = Some r" using e k(3) by (simp add: Parent_def cache_entry_ok_def)
    ultimately show thesis using that ok e k(3) by (simp add: cache_entry_ok_def)
  next
    case None
    let ?c = "\<lparr>red_parent = Some k, red_indexInParent = Some i,
        red_absoluteOffset = red_absoluteOffset r + children_width (tr_Arena t) (take i (red_children t r)),
        red_child = red_children t r ! i\<rparr>"
    let ?t = "t\<lparr>reds := reds t @ [?c], childCache := (childCache t)((k, i) \<mapsto> length (reds t))\<rparr>"
    have "ChildAt t r i = Inr (?c, ?t)"
      using n il k(1) None by (simp add: ChildAt_def cs [symmetric] child_offset_sum Let_def)
    moreover have nc: "nth_child t r i ?c" using il by (simp add: nth_child_def)
    moreover have "tree_ok ?t" using tree_ok_add_child [OF ok k(2,3) None nc] by simp
    moreover have "tree_le t ?t" using None by (auto simp: tree_le_def)
    moreover have "handle ?t ?c" by (auto simp: handle_def)
    moreover have "Parent ?t ?c = Some r" using k by (simp add: Parent_def nth_append)
    ultimately show thesis using that by blast
  qed
qed

section \<open>The tree a handle stands for\<close>

text \<open>The reference definition of what the lazy walk visits: every node and token below a
  child, in pre-order, with the absolute offset the widths of the earlier siblings give it.\<close>

fun placed :: "GreenArena \<Rightarrow> nat \<Rightarrow> GreenChild list \<Rightarrow> (nat \<times> GreenChild) list" where
  "placed a off [] = []"
| "placed a off (c # cs) = (off, c) # placed a (off + child_width a c) cs"

lemma placed_nth:
  "length (placed a off cs) = length cs"
  "i < length cs \<Longrightarrow> placed a off cs ! i = (off + children_width a (take i cs), cs ! i)"
proof -
  show "length (placed a off cs) = length cs" by (induction a off cs rule: placed.induct) simp_all
  show "i < length cs \<Longrightarrow> placed a off cs ! i = (off + children_width a (take i cs), cs ! i)"
    by (induction a off cs arbitrary: i rule: placed.induct)
      (auto simp: nth_Cons children_width_def split: nat.splits)
qed

lemma placed_child: "x \<in> set (placed a off cs) \<Longrightarrow> snd x \<in> set cs"
  by (induction a off cs rule: placed.induct) auto

definition rank :: "GreenChild \<Rightarrow> nat" where
  "rank c = (case c of GctToken _ \<Rightarrow> 1 | GctNode i \<Rightarrow> i + 2)"

function preorder :: "GreenArena \<Rightarrow> nat \<times> GreenChild \<Rightarrow> (nat \<times> GreenChild) list" where
  "preorder a (off, GctToken i) = [(off, GctToken i)]"
| "preorder a (off, GctNode i) = (off, GctNode i) #
     concat (map (\<lambda>x. if rank (snd x) < i + 2 then preorder a x else [])
       (placed a off (gn_Children (Nodes a ! i))))"
  by pat_completeness auto
termination
  by (relation "measure (\<lambda>(a, x). rank (snd x))") (auto simp: rank_def)

declare preorder.simps(2) [simp del]

lemma rank_pos [simp]: "0 < rank c" "rank c \<noteq> 0"
  by (cases c; simp add: rank_def)+

lemma rank_child_ok: "child_ok i n c \<Longrightarrow> rank c < i + 2"
  by (cases c) (simp_all add: rank_def)

lemma preorder_node:
  assumes "wf_arena a" "i < length (Nodes a)"
  shows "preorder a (off, GctNode i) =
    (off, GctNode i) # concat (map (preorder a) (placed a off (gn_Children (Nodes a ! i))))"
proof -
  have "rank (snd x) < i + 2" if "x \<in> set (placed a off (gn_Children (Nodes a ! i)))" for x
    using wf_arena_child(1) [OF assms placed_child [OF that]] by (rule rank_child_ok)
  then show ?thesis by (simp add: preorder.simps(2) cong: map_cong)
qed

definition loc :: "Red \<Rightarrow> nat \<times> GreenChild" where
  "loc r = (red_absoluteOffset r, red_child r)"

definition below :: "Tree \<Rightarrow> Red \<Rightarrow> (nat \<times> GreenChild) list" where
  "below t r = placed (tr_Arena t) (red_absoluteOffset r) (red_children t r)"

lemma nth_child_below:
  "nth_child t r i c \<Longrightarrow> i < length (below t r) \<and> loc c = below t r ! i"
  by (simp add: nth_child_def below_def loc_def placed_nth)

lemma length_below [simp]: "length (below t r) = ChildCount t r"
  by (simp add: below_def placed_nth ChildCount_def)

lemma preorder_loc:
  assumes "tree_ok t" "red_valid t r"
  shows "preorder (tr_Arena t) (loc r) = loc r # concat (map (preorder (tr_Arena t)) (below t r))"
  using assms
  by (cases "red_child r") (auto simp: loc_def below_def red_children_def red_valid_def tree_ok_def preorder_node)

lemma rank_below:
  assumes "tree_ok t" "red_valid t r" "x \<in> set (below t r)"
  shows "rank (snd x) < rank (red_child r)"
proof (cases "red_child r")
  case (GctNode i)
  then have i: "i < length (Nodes (tr_Arena t))" using assms(2) by (simp add: red_valid_def)
  have "snd x \<in> set (gn_Children (Nodes (tr_Arena t) ! i))"
    using assms(3) GctNode by (auto simp: below_def red_children_def dest: placed_child)
  moreover have "wf_arena (tr_Arena t)" using assms(1) by (simp add: tree_ok_def)
  ultimately have "rank (snd x) < i + 2" using wf_arena_child(1) [OF _ i] rank_child_ok by blast
  then show ?thesis by (simp add: rank_def GctNode)
next
  case (GctToken i)
  then show ?thesis using assms(3) by (simp add: below_def red_children_def)
qed

lemma below_le: "tree_le t t' \<Longrightarrow> below t' r = below t r"
  by (simp add: below_def tree_le_same)

section \<open>Loops over the children of a handle\<close>

text \<open>A state \<open>t\<close> that evolved from \<open>t0\<close> by creating handles.\<close>

definition later :: "Tree \<Rightarrow> Tree \<Rightarrow> bool" where
  "later t0 t \<longleftrightarrow> tree_ok t \<and> tree_le t0 t"

lemma laterD:
  assumes "later t0 t"
  shows "tree_ok t" "tree_le t0 t" "tr_Arena t = tr_Arena t0" "red_End t = red_End t0"
  using assms tree_le_same(5,7) [of t0 t] by (simp_all add: later_def)

lemma later_refl: "tree_ok t \<Longrightarrow> later t t"
  by (simp add: later_def)

lemma later_trans: "later t0 t \<Longrightarrow> later t t' \<Longrightarrow> later t0 t'"
  by (auto simp: later_def intro: tree_le_trans)

lemma later_handle: "later t0 t \<Longrightarrow> handle t0 r \<Longrightarrow> handle t r"
  by (auto simp: later_def intro: handle_mono)

lemma later_ChildAt:
  assumes "tree_ok t" "handle t r" "i < length (below t r)"
  obtains c t' where "ChildAt t r i = Inr (c, t')" "later t t'" "handle t' c" "loc c = below t r ! i"
proof -
  from assms have "i < ChildCount t r" by simp
  from ChildAt_spec [OF assms(1,2) this] that nth_child_below show thesis
    by (metis later_def)
qed

lemma foldR_children:
  assumes body: "\<And>i t acc. later t0 t \<Longrightarrow> i < length (below t0 r) \<Longrightarrow>
      \<exists>t'. body i (t, acc) = Inr (t', acc @ g (below t0 r ! i)) \<and> later t t'"
    and "later t0 t" "k \<le> length (below t0 r)"
  shows "\<exists>t'. foldR body [k..<length (below t0 r)] (t, acc) =
      Inr (t', acc @ concat (map g (drop k (below t0 r)))) \<and> later t t'"
  using assms(2,3)
proof (induction "length (below t0 r) - k" arbitrary: k t acc)
  case 0
  then show ?case by (auto simp: later_def)
next
  case (Suc m)
  then have k: "k < length (below t0 r)" "m = length (below t0 r) - Suc k" by auto
  obtain t1 where t1: "body k (t, acc) = Inr (t1, acc @ g (below t0 r ! k))" "later t t1"
    using body [OF Suc.prems(1) k(1)] by blast
  from Suc.hyps(1) [OF k(2) later_trans [OF Suc.prems(1) t1(2)]] k(1)
  obtain t2 where t2: "foldR body [Suc k..<length (below t0 r)] (t1, acc @ g (below t0 r ! k)) =
      Inr (t2, (acc @ g (below t0 r ! k)) @ concat (map g (drop (Suc k) (below t0 r))))" "later t1 t2"
    by (metis Suc_leI)
  have "drop k (below t0 r) = below t0 r ! k # drop (Suc k) (below t0 r)"
    using k(1) by (simp add: Cons_nth_drop_Suc)
  then show ?case using t1 t2 k(1) later_trans [OF t1(2) t2(2)] by (simp add: upt_conv_Cons)
qed

lemma concat_concat: "concat (concat xss) = concat (map concat xss)"
  by (induction xss) simp_all

text \<open>\<open>Walk\<close> is pre-order: a visitor that appends \<open>g\<close> of the handle's place collects \<open>g\<close> over
  the reference order, whatever handles it and earlier calls left in the cache.\<close>

lemma Walk_preorder:
  assumes visit: "\<And>t acc r. later t0 t \<Longrightarrow> handle t r \<Longrightarrow> P (loc r) \<Longrightarrow>
      \<exists>t'. visit r (t, acc) = Inr (True, t', acc @ g (loc r)) \<and> later t t'"
    and down: "\<And>t r x. later t0 t \<Longrightarrow> handle t r \<Longrightarrow> P (loc r) \<Longrightarrow> x \<in> set (below t r) \<Longrightarrow> P x"
  shows "rank (red_child r) \<le> n \<Longrightarrow> later t0 t \<Longrightarrow> handle t r \<Longrightarrow> P (loc r) \<Longrightarrow>
    \<exists>t'. Walk n visit r (t, acc) = Inr (t', acc @ concat (map g (preorder (tr_Arena t0) (loc r)))) \<and> later t t'"
proof (induction n arbitrary: r t acc)
  case 0
  then show ?case by simp
next
  case (Suc n)
  let ?a = "tr_Arena t0"
  obtain t1 where t1: "visit r (t, acc) = Inr (True, t1, acc @ g (loc r))" "later t t1"
    using visit [OF Suc.prems(2,3,4)] by blast
  note l1 = later_trans [OF Suc.prems(2) t1(2)] and h1 = later_handle [OF t1(2) Suc.prems(3)]
  have ok1: "tree_ok t1" using l1 by (simp add: later_def)
  have a: "tr_Arena t' = ?a" if "later t0 t'" for t' using that by (simp add: later_def tree_le_same)
  have body: "\<exists>t''. (\<lambda>i st. bindR (ChildAt (fst st) r i) (\<lambda>x. Walk n visit (fst x) (snd x, snd st))) i (t', acc)
      = Inr (t'', acc @ concat (map g (preorder ?a (below t1 r ! i)))) \<and> later t' t''"
    if l: "later t1 t'" and i: "i < length (below t1 r)" for i t' acc
  proof -
    have ok': "tree_ok t'" and b: "below t' r = below t1 r"
      using l by (auto simp: later_def below_le)
    obtain c t2 where c: "ChildAt t' r i = Inr (c, t2)" "later t' t2" "handle t2 c" "loc c = below t1 r ! i"
      using later_ChildAt [OF ok' later_handle [OF l h1]] i b by metis
    have mem: "loc c \<in> set (below t1 r)" using c(4) i by simp
    have "rank (red_child c) < rank (red_child r)"
      using rank_below [OF ok1 handle_valid [OF ok1 h1] mem] by (simp add: loc_def)
    then have "rank (red_child c) \<le> n" using Suc.prems(1) by simp
    moreover have "P (loc c)" using down [OF l1 h1 Suc.prems(4) mem] .
    ultimately show ?thesis
      using Suc.IH [of c t2] later_trans [OF later_trans [OF l1 l] c(2)] c later_trans by fastforce
  qed
  obtain t2 where t2: "foldR (\<lambda>i st. bindR (ChildAt (fst st) r i) (\<lambda>x. Walk n visit (fst x) (snd x, snd st)))
        [0..<length (below t1 r)] (t1, acc @ g (loc r)) =
      Inr (t2, (acc @ g (loc r)) @ concat (map (\<lambda>x. concat (map g (preorder ?a x))) (below t1 r)))" "later t1 t2"
    using foldR_children [where body = "\<lambda>i st. bindR (ChildAt (fst st) r i) (\<lambda>x. Walk n visit (fst x) (snd x, snd st))"
        and k = 0 and t = t1 and acc = "acc @ g (loc r)" and g = "\<lambda>x. concat (map g (preorder ?a x))", OF body] ok1
    by (auto simp: later_def)
  have "preorder ?a (loc r) = loc r # concat (map (preorder ?a) (below t1 r))"
    using preorder_loc [OF ok1 handle_valid [OF ok1 h1]] a [OF l1] by simp
  then show ?case using t1 t2 later_trans [OF t1(2) t2(2)] by (simp add: map_concat concat_concat o_def)
qed

section \<open>Searches\<close>

text \<open>A search loop over the children (in any order of indices) against the reference: the
  body finds what \<open>f\<close> finds below the child.\<close>

lemma firstR_children:
  assumes body: "\<And>i t. later t0 t \<Longrightarrow> i < length (below t0 r) \<Longrightarrow>
      \<exists>x t'. body i t = Inr (x, t') \<and> map_option loc x = f (below t0 r ! i) \<and>
        (\<forall>h. x = Some h \<longrightarrow> handle t' h) \<and> later t t'"
    and "later t0 t" "\<forall>i \<in> set is. i < length (below t0 r)"
  shows "\<exists>x t'. firstR body is t = Inr (x, t') \<and>
      map_option loc x = foldr (\<lambda>i rest. case f (below t0 r ! i) of None \<Rightarrow> rest | Some y \<Rightarrow> Some y) is None \<and>
      (\<forall>h. x = Some h \<longrightarrow> handle t' h) \<and> later t t'"
  using assms(2,3)
proof (induction "is" arbitrary: t)
  case Nil
  then show ?case by (simp add: later_def)
next
  case (Cons i "is")
  then obtain x t1 where x: "body i t = Inr (x, t1)" "map_option loc x = f (below t0 r ! i)"
      "\<forall>h. x = Some h \<longrightarrow> handle t1 h" "later t t1"
    using body by (metis list.set_intros(1))
  show ?case
  proof (cases x)
    case None
    obtain y t2 where "firstR body is t1 = Inr (y, t2)"
        "map_option loc y = foldr (\<lambda>i rest. case f (below t0 r ! i) of None \<Rightarrow> rest | Some y \<Rightarrow> Some y) is None"
        "\<forall>h. y = Some h \<longrightarrow> handle t2 h" "later t1 t2"
      using Cons.IH [OF later_trans [OF Cons.prems(1) x(4)]] Cons.prems(2) by auto
    moreover have "later t t2" using later_trans [OF x(4)] calculation(4) .
    ultimately show ?thesis using x None by (auto simp: option.case_eq_if)
  next
    case (Some h)
    then show ?thesis using x by (auto simp: option.case_eq_if split: option.splits)
  qed
qed

lemma search_children:
  assumes S: "\<And>n r t. S (Suc n) r t = (if Q t r then Inr (Some r, t)
      else firstR (\<lambda>i t. bindR (ChildAt t r i) (\<lambda>x. S n (fst x) (snd x))) (ord (ChildCount t r)) t)"
    and Q: "\<And>t r. later t0 t \<Longrightarrow> Q t r = P (loc r)"
    and ord: "\<And>m. set (ord m) = {..<m}"
    and hit: "\<And>x. P x \<Longrightarrow> F x = Some x"
    and miss: "\<And>t r. later t0 t \<Longrightarrow> handle t r \<Longrightarrow> \<not> P (loc r) \<Longrightarrow> F (loc r) =
      foldr (\<lambda>i rest. case F (below t r ! i) of None \<Rightarrow> rest | Some y \<Rightarrow> Some y) (ord (ChildCount t r)) None"
  shows "rank (red_child r) \<le> n \<Longrightarrow> later t0 t \<Longrightarrow> handle t r \<Longrightarrow>
    \<exists>x t'. S n r t = Inr (x, t') \<and> map_option loc x = F (loc r) \<and>
      (\<forall>h. x = Some h \<longrightarrow> handle t' h) \<and> later t t'"
proof (induction n arbitrary: r t)
  case 0
  then show ?case by simp
next
  case (Suc n)
  have ok: "tree_ok t" using Suc.prems(2) by (simp add: later_def)
  show ?case
  proof (cases "P (loc r)")
    case True
    then show ?thesis using S Q [OF Suc.prems(2)] hit Suc.prems ok by (auto simp: later_def)
  next
    case False
    let ?body = "\<lambda>i t. bindR (ChildAt t r i) (\<lambda>x. S n (fst x) (snd x))"
    have body: "\<exists>x t''. ?body i t' = Inr (x, t'') \<and> map_option loc x = F (below t r ! i) \<and>
        (\<forall>h. x = Some h \<longrightarrow> handle t'' h) \<and> later t' t''"
      if l: "later t t'" and i: "i < length (below t r)" for i t'
    proof -
      have ok': "tree_ok t'" and b: "below t' r = below t r"
        using l by (auto simp: later_def below_le)
      obtain c t2 where c: "ChildAt t' r i = Inr (c, t2)" "later t' t2" "handle t2 c" "loc c = below t r ! i"
        using later_ChildAt [OF ok' later_handle [OF l Suc.prems(3)]] i b by metis
      have mem: "loc c \<in> set (below t r)" using c(4) i by simp
      have "rank (red_child c) \<le> n"
        using rank_below [OF ok handle_valid [OF ok Suc.prems(3)] mem] Suc.prems(1) by (simp add: loc_def)
      from Suc.IH [OF this later_trans [OF later_trans [OF Suc.prems(2) l] c(2)] c(3)]
      show ?thesis using c later_trans [OF c(2)] by fastforce
    qed
    have "later t t" using ok by (simp add: later_def)
    from firstR_children [of t r ?body F, OF body this, of "ord (ChildCount t r)"]
    show ?thesis using S Q [OF Suc.prems(2)] False miss [OF Suc.prems(2,3) False] ord by auto
  qed
qed

lemma find_concat:
  "find P (concat xss) = foldr (\<lambda>xs rest. case find P xs of None \<Rightarrow> rest | Some y \<Rightarrow> Some y) xss None"
proof (induction xss)
  case (Cons xs xss)
  have "find P (xs @ ys) = (case find P xs of None \<Rightarrow> find P ys | Some y \<Rightarrow> Some y)" for ys
    by (induction xs) simp_all
  with Cons show ?case by (simp split: option.split)
qed simp

lemma foldr_nth: "foldr (\<lambda>i. f (xs ! i)) [0..<length xs] = foldr f xs"
  using foldr_map [of f "(!) xs" "[0..<length xs]"] by (simp add: map_nth o_def fun_eq_iff)

lemma foldr_nth_rev: "foldr (\<lambda>i. f (xs ! i)) (rev [0..<length xs]) = foldr f (rev xs)"
  using foldr_map [of f "(!) xs" "rev [0..<length xs]"] by (simp add: rev_map [symmetric] map_nth o_def fun_eq_iff)

text \<open>The reference order of the tokens of a tree, and what a search for the first element
  with a property finds in it.\<close>

lemma find_preorder:
  assumes "tree_ok t" "handle t r" "\<not> P (loc r)"
  shows "find P (preorder (tr_Arena t) (loc r)) =
    foldr (\<lambda>i rest. case find P (preorder (tr_Arena t) (below t r ! i)) of None \<Rightarrow> rest | Some y \<Rightarrow> Some y)
      [0..<ChildCount t r] None"
proof -
  let ?f = "\<lambda>x rest. case find P (preorder (tr_Arena t) x) of None \<Rightarrow> rest | Some y \<Rightarrow> Some y"
  have "find P (preorder (tr_Arena t) (loc r)) = find P (concat (map (preorder (tr_Arena t)) (below t r)))"
    using preorder_loc [OF assms(1) handle_valid [OF assms(1,2)]] assms(3) by simp
  also have "\<dots> = foldr ?f (below t r) None" by (simp add: find_concat foldr_map o_def)
  also have "\<dots> = foldr (\<lambda>i. ?f (below t r ! i)) [0..<ChildCount t r] None"
    using fun_cong [OF foldr_nth [of ?f "below t r"]] by simp
  finally show ?thesis .
qed

lemma find_rev_preorder:
  assumes "tree_ok t" "handle t r" "\<not> P (loc r)"
  shows "find P (rev (preorder (tr_Arena t) (loc r))) =
    foldr (\<lambda>i rest. case find P (rev (preorder (tr_Arena t) (below t r ! i))) of None \<Rightarrow> rest | Some y \<Rightarrow> Some y)
      (rev [0..<ChildCount t r]) None"
proof -
  let ?f = "\<lambda>x rest. case find P (rev (preorder (tr_Arena t) x)) of None \<Rightarrow> rest | Some y \<Rightarrow> Some y"
  have "find P (xs @ [x]) = find P xs" if "\<not> P x" for x xs using that by (induction xs) simp_all
  then have "find P (rev (preorder (tr_Arena t) (loc r))) =
      find P (concat (map (rev \<circ> preorder (tr_Arena t)) (rev (below t r))))"
    using preorder_loc [OF assms(1) handle_valid [OF assms(1,2)]] assms(3)
    by (simp add: rev_concat rev_map o_def)
  also have "\<dots> = foldr ?f (rev (below t r)) None" by (simp add: find_concat foldr_map o_def)
  also have "\<dots> = foldr (\<lambda>i. ?f (below t r ! i)) (rev [0..<ChildCount t r]) None"
    using fun_cong [OF foldr_nth_rev [of ?f "below t r"]] by simp
  finally show ?thesis .
qed

definition tree_fuel :: "Tree \<Rightarrow> nat" where
  "tree_fuel t = length (Nodes (tr_Arena t)) + 2"

lemma rank_fuel: "red_valid t r \<Longrightarrow> rank (red_child r) \<le> tree_fuel t"
  by (cases "red_child r") (auto simp: red_valid_def rank_def tree_fuel_def)

text \<open>The byte range of a place in the tree.\<close>

definition place_end :: "GreenArena \<Rightarrow> nat \<times> GreenChild \<Rightarrow> nat" where
  "place_end a x = fst x + child_width a (snd x)"

definition covers :: "GreenArena \<Rightarrow> nat \<Rightarrow> nat \<times> GreenChild \<Rightarrow> bool" where
  "covers a off x \<longleftrightarrow> fst x \<le> off \<and> off < place_end a x"

lemma red_End_place: "red_End t r = place_end (tr_Arena t) (loc r)"
  by (simp add: red_End_def red_Width_def place_end_def loc_def)

text \<open>Siblings tile their parent, so an offset inside the parent is inside exactly one child.\<close>

lemma placed_tiles:
  "tiles off (map (\<lambda>x. (fst x, place_end a x)) (placed a off cs)) (off + children_width a cs)"
  by (induction a off cs rule: placed.induct) (simp_all add: place_end_def children_width_def add.assoc)

lemma below_tiles:
  assumes "tree_ok t" "red_valid t r" "IsNode r"
  shows "tiles (red_absoluteOffset r) (map (\<lambda>x. (fst x, place_end (tr_Arena t) x)) (below t r)) (red_End t r)"
proof -
  obtain i where i: "red_child r = GctNode i" using assms(3) by (cases "red_child r") (auto simp: IsNode_def)
  then have "i < length (Nodes (tr_Arena t))" using assms(2) by (simp add: red_valid_def)
  then have "red_End t r = red_absoluteOffset r + children_width (tr_Arena t) (red_children t r)"
    using i assms(1) by (auto simp: red_End_def red_Width_def red_children_def tree_ok_def wf_arena_def)
  with placed_tiles show ?thesis by (simp add: below_def)
qed

lemma tiles_member: "tiles lo ivs hi \<Longrightarrow> lo \<le> i \<Longrightarrow> i < hi \<Longrightarrow> \<exists>(a, b) \<in> set ivs. a \<le> i \<and> i < b"
proof (induction ivs arbitrary: lo)
  case (Cons iv ivs)
  obtain b where iv: "iv = (lo, b)" "lo \<le> b" "tiles b ivs hi" using Cons.prems(1) by (cases iv) auto
  show ?case
  proof (cases "i < b")
    case True
    then show ?thesis using iv Cons.prems by auto
  next
    case False
    then show ?thesis using Cons.IH [OF iv(3)] Cons.prems by auto
  qed
qed simp

lemma find_child_covering:
  assumes "tree_ok t" "red_valid t r" "IsNode r" "covers (tr_Arena t) off (loc r)"
  shows "\<exists>x \<in> set (below t r). covers (tr_Arena t) off x"
  using tiles_member [OF below_tiles [OF assms(1-3)], of off] assms(4)
  by (auto simp: covers_def red_End_place loc_def)

text \<open>The loop of \<open>FindCoveringNode\<close>, abstracted from the recursive call.\<close>

lemma firstR_covering:
  assumes step: "\<And>i t. later t0 t \<Longrightarrow> i < length (below t0 r) \<Longrightarrow>
      \<exists>x t'. body i t = Inr (x, t') \<and> later t t' \<and>
        (case x of None \<Rightarrow> \<not> P (below t0 r ! i) | Some h \<Rightarrow> G h t')"
    and "later t0 t" "\<forall>i \<in> set is. i < length (below t0 r)" "\<exists>i \<in> set is. P (below t0 r ! i)"
  shows "\<exists>h t'. firstR body is t = Inr (Some h, t') \<and> later t t' \<and> G h t'"
  using assms(2-4)
proof (induction "is" arbitrary: t)
  case (Cons i "is")
  then obtain x t1 where x: "body i t = Inr (x, t1)" "later t t1"
      "case x of None \<Rightarrow> \<not> P (below t0 r ! i) | Some h \<Rightarrow> G h t1"
    using step by (metis list.set_intros(1))
  show ?case
  proof (cases x)
    case None
    then have "\<exists>i \<in> set is. P (below t0 r ! i)" using Cons.prems(3) x(3) by auto
    then obtain h t2 where "firstR body is t1 = Inr (Some h, t2)" "later t1 t2" "G h t2"
      using Cons.IH [OF later_trans [OF Cons.prems(1) x(2)]] Cons.prems(2) by auto
    then show ?thesis using x None later_trans [OF x(2)] by auto
  next
    case (Some h)
    then show ?thesis using x by simp
  qed
qed simp

definition token_at :: "Tree \<Rightarrow> nat \<Rightarrow> Red \<Rightarrow> Tree \<Rightarrow> bool" where
  "token_at t0 off h t \<longleftrightarrow> IsToken h \<and> handle t h \<and> covers (tr_Arena t0) off (loc h)"

lemma FindCoveringNode_token:
  "rank (red_child r) \<le> n \<Longrightarrow> later t0 t \<Longrightarrow> handle t r \<Longrightarrow> covers (tr_Arena t0) off (loc r) \<Longrightarrow>
     \<exists>h t'. FindCoveringNode n off r t = Inr (h, t') \<and> later t t' \<and> token_at t0 off h t'"
proof (induction n arbitrary: r t)
  case 0
  then show ?case by simp
next
  case (Suc n)
  have ok: "tree_ok t" and a: "tr_Arena t = tr_Arena t0"
    using Suc.prems(2) by (auto simp: later_def tree_le_same)
  have v: "red_valid t r" using handle_valid [OF ok Suc.prems(3)] .
  have inside: "\<not> (off < red_absoluteOffset r \<or> off \<ge> red_End t r)"
    using Suc.prems(4) a by (auto simp: covers_def red_End_place loc_def)
  show ?case
  proof (cases "IsToken r")
    case True
    then have "ChildCount t r = 0"
      by (cases "red_child r") (simp_all add: IsToken_def ChildCount_def red_children_def)
    with inside True Suc.prems ok show ?thesis by (simp add: later_def token_at_def)
  next
    case False
    let ?body = "\<lambda>i t. bindR (ChildAt t r i) (\<lambda>x.
        if off \<ge> red_absoluteOffset (fst x) \<and> off < red_End (snd x) (fst x)
        then bindR (FindCoveringNode n off (fst x) (snd x)) (\<lambda>y. Inr (Some (fst y), snd y))
        else Inr (None, snd x))"
    have step: "\<exists>x t''. ?body i t' = Inr (x, t'') \<and> later t' t'' \<and>
        (case x of None \<Rightarrow> \<not> covers (tr_Arena t0) off (below t r ! i) | Some h \<Rightarrow> token_at t0 off h t'')"
      if l: "later t t'" and i: "i < length (below t r)" for i t'
    proof -
      have ok': "tree_ok t'" and b: "below t' r = below t r"
        using l by (auto simp: later_def below_le)
      obtain c t2 where c: "ChildAt t' r i = Inr (c, t2)" "later t' t2" "handle t2 c" "loc c = below t r ! i"
        using later_ChildAt [OF ok' later_handle [OF l Suc.prems(3)]] i b by metis
      note l2 = later_trans [OF later_trans [OF Suc.prems(2) l] c(2)]
      have a2: "tr_Arena t2 = tr_Arena t0" using l2 by (simp add: later_def tree_le_same)
      have cov: "off \<ge> red_absoluteOffset c \<and> off < red_End t2 c \<longleftrightarrow> covers (tr_Arena t0) off (below t r ! i)"
        unfolding c(4) [symmetric] using a2 by (auto simp: covers_def red_End_place loc_def)
      have "rank (red_child c) \<le> n"
        using rank_below [OF ok v, of "loc c"] c(4) i Suc.prems(1) by (simp add: loc_def)
      from Suc.IH [OF this l2 c(3)] show ?thesis
        using c cov later_trans [OF c(2)] by (fastforce simp: later_def)
    qed
    have "\<exists>i \<in> set [0..<ChildCount t r]. covers (tr_Arena t0) off (below t r ! i)"
    proof -
      have "IsNode r" using False by (simp add: IsNode_def IsToken_def)
      then obtain x where "x \<in> set (below t r)" "covers (tr_Arena t0) off x"
        using find_child_covering [OF ok v, of off] Suc.prems(4) a by auto
      then show ?thesis by (auto simp: in_set_conv_nth)
    qed
    from firstR_covering [of t r ?body "covers (tr_Arena t0) off" "\<lambda>h t. token_at t0 off h t",
        OF step later_refl [OF ok] _ this]
    obtain h t' where "firstR ?body [0..<ChildCount t r] t = Inr (Some h, t')" "later t t'" "token_at t0 off h t'"
      by auto
    with inside show ?thesis by simp
  qed
qed

section \<open>Properties of the red tree\<close>

lemma tree_ok_New:
  "wf_arena a \<Longrightarrow> i < length (Nodes a) \<Longrightarrow> tree_ok (NewTreeFromSource a (Some i) src)"
  by (simp add: tree_ok_def NewTreeFromSource_def)

definition place_kind :: "GreenArena \<Rightarrow> nat \<times> GreenChild \<Rightarrow> GreenKind" where
  "place_kind a x = (case snd x of GctNode i \<Rightarrow> gn_Kind (Nodes a ! i) | GctToken i \<Rightarrow> gt_Kind (Tokens a ! i))"

lemma red_Kind_place: "later t0 t \<Longrightarrow> red_Kind t r = place_kind (tr_Arena t0) (loc r)"
  using tree_le_same(7) [of t0 t]
  by (simp add: red_Kind_def place_kind_def loc_def later_def split: GreenChild.split)

lemma FindFirst_search:
  assumes "tree_ok t0" "handle t0 r"
  shows "\<exists>x t'. FindFirst (tree_fuel t0) kind r t0 = Inr (x, t') \<and>
    map_option loc x = find (\<lambda>y. place_kind (tr_Arena t0) y = kind) (preorder (tr_Arena t0) (loc r)) \<and>
    (\<forall>h. x = Some h \<longrightarrow> handle t' h) \<and> later t0 t'"
proof (rule search_children [where Q = "\<lambda>t r. red_Kind t r = kind" and ord = "\<lambda>m. [0..<m]" and t = t0
      and S = "\<lambda>n. FindFirst n kind" and P = "\<lambda>y. place_kind (tr_Arena t0) y = kind"
      and F = "\<lambda>x. find (\<lambda>y. place_kind (tr_Arena t0) y = kind) (preorder (tr_Arena t0) x)"])
  show "find (\<lambda>y. place_kind (tr_Arena t0) y = kind) (preorder (tr_Arena t0) x) = Some x"
    if "place_kind (tr_Arena t0) x = kind" for x
    using that by (cases x; cases "snd x") (auto simp: preorder.simps(2))
  show "find (\<lambda>y. place_kind (tr_Arena t0) y = kind) (preorder (tr_Arena t0) (loc r)) =
      foldr (\<lambda>i rest. case find (\<lambda>y. place_kind (tr_Arena t0) y = kind) (preorder (tr_Arena t0) (below t r ! i)) of
          None \<Rightarrow> rest | Some y \<Rightarrow> Some y) [0..<ChildCount t r] None"
    if "later t0 t" "handle t r" "\<not> place_kind (tr_Arena t0) (loc r) = kind" for t r
    using find_preorder [OF laterD(1) [OF that(1)] that(2), of "\<lambda>y. place_kind (tr_Arena t0) y = kind"]
      laterD(3) [OF that(1)] that(3) by simp
qed (use assms in \<open>auto simp: red_Kind_place later_refl intro: rank_fuel handle_valid\<close>)

lemma is_tok_preorder:
  assumes "is_tok (snd x)" shows "preorder a x = [x]"
  using assms by (cases x; cases "snd x") auto

lemma FirstToken_search:
  assumes "tree_ok t0" "handle t0 r"
  shows "\<exists>x t'. FirstToken (tree_fuel t0) r t0 = Inr (x, t') \<and>
    map_option loc x = find (\<lambda>y. is_tok (snd y)) (preorder (tr_Arena t0) (loc r)) \<and>
    (\<forall>h. x = Some h \<longrightarrow> handle t' h) \<and> later t0 t'"
proof (rule search_children [where Q = "\<lambda>t. IsToken" and ord = "\<lambda>m. [0..<m]" and t = t0
      and S = FirstToken and P = "\<lambda>y. is_tok (snd y)"
      and F = "\<lambda>x. find (\<lambda>y. is_tok (snd y)) (preorder (tr_Arena t0) x)"])
  show "find (\<lambda>y. is_tok (snd y)) (preorder (tr_Arena t0) (loc r)) =
      foldr (\<lambda>i rest. case find (\<lambda>y. is_tok (snd y)) (preorder (tr_Arena t0) (below t r ! i)) of
          None \<Rightarrow> rest | Some y \<Rightarrow> Some y) [0..<ChildCount t r] None"
    if "later t0 t" "handle t r" "\<not> is_tok (snd (loc r))" for t r
    using find_preorder [OF laterD(1) [OF that(1)] that(2), of "\<lambda>y. is_tok (snd y)"]
      laterD(3) [OF that(1)] that(3) by simp
qed (use assms in \<open>auto simp: is_tok_preorder IsToken_def loc_def later_refl intro: rank_fuel handle_valid\<close>)

lemma LastToken_search:
  assumes "tree_ok t0" "handle t0 r"
  shows "\<exists>x t'. LastToken (tree_fuel t0) r t0 = Inr (x, t') \<and>
    map_option loc x = find (\<lambda>y. is_tok (snd y)) (rev (preorder (tr_Arena t0) (loc r))) \<and>
    (\<forall>h. x = Some h \<longrightarrow> handle t' h) \<and> later t0 t'"
proof (rule search_children [where Q = "\<lambda>t. IsToken" and ord = "\<lambda>m. rev [0..<m]" and t = t0
      and S = LastToken and P = "\<lambda>y. is_tok (snd y)"
      and F = "\<lambda>x. find (\<lambda>y. is_tok (snd y)) (rev (preorder (tr_Arena t0) x))"])
  show "find (\<lambda>y. is_tok (snd y)) (rev (preorder (tr_Arena t0) (loc r))) =
      foldr (\<lambda>i rest. case find (\<lambda>y. is_tok (snd y)) (rev (preorder (tr_Arena t0) (below t r ! i))) of
          None \<Rightarrow> rest | Some y \<Rightarrow> Some y) (rev [0..<ChildCount t r]) None"
    if "later t0 t" "handle t r" "\<not> is_tok (snd (loc r))" for t r
    using find_rev_preorder [OF laterD(1) [OF that(1)] that(2), of "\<lambda>y. is_tok (snd y)"]
      laterD(3) [OF that(1)] that(3) by simp
qed (use assms in \<open>auto simp: is_tok_preorder IsToken_def loc_def later_refl intro: rank_fuel handle_valid\<close>)

lemma ChildAt_again:
  assumes "tree_ok t" "handle t r" "ChildAt t r i = Inr (c, t')" "tree_ok t'" "tree_le t t'" "i < ChildCount t r"
  shows "ChildAt t' r i = Inr (c, t')"
proof -
  obtain n where n: "red_child r = GctNode n" and cs: "i < length (gn_Children (Nodes (tr_Arena t) ! n))"
    using assms(6) by (cases "red_child r") (auto simp: ChildCount_def red_children_def)
  obtain k where k: "redIndex t r = (k, t)" "k < length (reds t)" "reds t ! k = r"
    using redIndex_handle [OF assms(1,2)] .
  have "indexed t k" using assms(1) k(2) by (simp add: tree_ok_def)
  then have k': "redIndex t' r = (k, t')"
    using k(3) assms(5) by (auto simp: indexed_def redIndex_def tree_le_def)
  have "\<exists>j. childCache t' (k, i) = Some j \<and> reds t' ! j = c"
    using assms(3) n cs k(1)
    by (cases "childCache t (k, i)") (auto simp: ChildAt_def Let_def)
  then show ?thesis using n cs k' assms(5) by (auto simp: ChildAt_def tree_le_def)
qed

text \<open>Parent indices are smaller than the entry's own, so the chain is finite and ends in
  entry 0, the root.\<close>

lemma parent_entry:
  assumes "tree_ok t" "k < length (reds t)" "red_parent (reds t ! k) = Some p"
  shows "p < k" "\<exists>i. nth_child t (reds t ! p) i (reds t ! k)"
proof -
  have "indexed t k" using assms(1,2) by (simp add: tree_ok_def)
  then obtain i where "childCache t (p, i) = Some k" using assms(3) by (auto simp: indexed_def)
  then have "cache_entry_ok t p i k" using assms(1) by (simp add: tree_ok_def)
  then show "p < k" "\<exists>i. nth_child t (reds t ! p) i (reds t ! k)" by (auto simp: cache_entry_ok_def)
qed

lemma ancestors_chain:
  assumes "tree_ok t"
  shows "k < length (reds t) \<Longrightarrow> k < n \<Longrightarrow> \<exists>ps. ancestors_fuel n t (reds t ! k) = Inr ps \<and>
    last (reds t ! k # ps) = reds t ! 0 \<and>
    successively (\<lambda>c p. \<exists>i. nth_child t p i c) (reds t ! k # ps) \<and> set ps \<subseteq> set (reds t)"
proof (induction n arbitrary: k)
  case (Suc n)
  show ?case
  proof (cases "red_parent (reds t ! k)")
    case None
    then have "k = 0" using assms Suc.prems by (auto simp: tree_ok_def indexed_def)
    then show ?thesis using None by (simp add: Parent_def)
  next
    case (Some p)
    note p = parent_entry [OF assms Suc.prems(1) Some]
    with Suc.prems have "p < length (reds t)" "p < n" by auto
    from Suc.IH [OF this] obtain ps where "ancestors_fuel n t (reds t ! p) = Inr ps"
        "last (reds t ! p # ps) = reds t ! 0"
        "successively (\<lambda>c p. \<exists>i. nth_child t p i c) (reds t ! p # ps)" "set ps \<subseteq> set (reds t)" by blast
    then show ?thesis using Some p \<open>p < length (reds t)\<close> by (simp add: Parent_def)
  qed
qed simp

section \<open>A small tree for the witnesses\<close>

definition sample_token :: GreenToken where
  "sample_token = mkGreenToken NewArena GkToken 3 ''x'' 1 [] []"

definition sample_arena :: GreenArena where
  "sample_arena = snd (AddNode (snd (AddToken NewArena sample_token))
     \<lparr>gn_Kind = GkFile, gn_Width = 1, gn_Children = [GctToken 0]\<rparr>)"

definition sample_tree :: Tree where
  "sample_tree = (NewTreeFromSource sample_arena (Some 0) (Some ''x''))\<lparr>reds := [root_red 0]\<rparr>"

lemma sample_lookups:
  "lookupToken NewArena sample_token = None"
  "Nodes (snd (AddToken NewArena sample_token)) = []"
  "Tokens (snd (AddToken NewArena sample_token)) = [sample_token]"
  "Nodes sample_arena = [\<lparr>gn_Kind = GkFile, gn_Width = 1, gn_Children = [GctToken 0]\<rparr>]"
  "Tokens sample_arena = [sample_token]"
  "TotalWidth sample_token = 1"
  by code_simp+

lemma sample_tree_ok: "tree_ok sample_tree" "handle sample_tree (root_red 0)"
proof -
  have "wf_arena NewArena"
    using NewArena_ok by (simp add: wf_arena_def NewArena_def)
  moreover have "token_ok NewArena sample_token" unfolding sample_token_def
    by (rule token_ok_mkGreenToken) (simp_all add: trivia_ids_ok_def)
  ultimately have "wf_arena (snd (AddToken NewArena sample_token))" by (rule wf_AddToken)
  then have "wf_arena sample_arena" unfolding sample_arena_def
    by (rule wf_AddNode) (simp_all add: sample_lookups children_width_def)
  then show "tree_ok sample_tree" "handle sample_tree (root_red 0)"
    using tree_ok_New [of sample_arena 0]
    by (auto simp: sample_tree_def tree_ok_def NewTreeFromSource_def red_valid_def root_red_def
        indexed_def sample_lookups handle_def)
qed

section \<open>Theorems\<close>

text \<open>C22. For every byte offset inside a handle, \<open>FindTokenAt\<close> returns a token leaf whose range
  contains the offset.\<close>

theorem FindTokenAt_finds:
  assumes "tree_ok t" "handle t r" "red_absoluteOffset r \<le> off" "off < red_End t r"
  shows "\<exists>h t'. FindTokenAt (tree_fuel t) off r t = Inr (Some h, t') \<and> IsToken h \<and> handle t' h \<and>
    red_absoluteOffset h \<le> off \<and> off < red_End t' h \<and> tree_ok t' \<and> tree_le t t'"
proof -
  have "covers (tr_Arena t) off (loc r)" using assms by (simp add: covers_def red_End_place loc_def)
  from FindCoveringNode_token [OF rank_fuel [OF handle_valid [OF assms(1,2)]] later_refl [OF assms(1)] assms(2) this]
  obtain h t' where h: "FindCoveringNode (tree_fuel t) off r t = Inr (h, t')" "later t t'" "token_at t off h t'"
    by blast
  then show ?thesis using laterD [OF h(2)]
    by (auto simp: FindTokenAt_def token_at_def covers_def red_End_place later_def loc_def)
qed

theorem FindTokenAt_finds_witness:
  "\<exists>h t'. FindTokenAt (tree_fuel sample_tree) 0 (root_red 0) sample_tree = Inr (Some h, t') \<and> IsToken h \<and>
    handle t' h \<and> red_absoluteOffset h \<le> 0 \<and> 0 < red_End t' h \<and> tree_ok t' \<and> tree_le sample_tree t'"
proof (rule FindTokenAt_finds [OF sample_tree_ok])
  show "red_absoluteOffset (root_red 0) \<le> 0" by (simp add: root_red_def)
  show "0 < red_End sample_tree (root_red 0)" by code_simp
qed



text \<open>C35. Asking a handle for its \<open>i\<close>-th child gives the handle of that child: the child's arena
  id, the offset where the widths of its earlier siblings end, and the asking handle as its
  parent. Asking again returns the same handle and leaves the side table as it is.\<close>

theorem ChildAt_Parent_roundtrip:
  assumes "tree_ok t" "handle t r" "i < ChildCount t r"
  shows "\<exists>c t'. ChildAt t r i = Inr (c, t') \<and> red_child c = red_children t r ! i \<and>
    red_absoluteOffset c = red_absoluteOffset r + children_width (tr_Arena t) (take i (red_children t r)) \<and>
    Parent t' c = Some r \<and> ChildAt t' r i = Inr (c, t') \<and> tree_ok t' \<and> tree_le t t' \<and> handle t' c"
proof -
  obtain c t' where "ChildAt t r i = Inr (c, t')" "tree_ok t'" "tree_le t t'" "handle t' c"
      "nth_child t r i c" "Parent t' c = Some r"
    using ChildAt_spec [OF assms] .
  with ChildAt_again [OF assms(1,2), of i c t'] assms(3) show ?thesis by (auto simp: nth_child_def)
qed

theorem ChildAt_Parent_roundtrip_witness:
  "\<exists>c t'. ChildAt sample_tree (root_red 0) 0 = Inr (c, t') \<and> Parent t' c = Some (root_red 0) \<and>
    red_absoluteOffset c = 0"
proof -
  have "0 < ChildCount sample_tree (root_red 0)" by code_simp
  from ChildAt_Parent_roundtrip [OF sample_tree_ok this] show ?thesis
    by (auto simp: children_width_def root_red_def)
qed

text \<open>The parent chain of a handle is finite: \<open>Ancestors\<close> returns, each element is a child of
  the next, and the last one is the root.\<close>

theorem Ancestors_end_in_root:
  assumes "tree_ok t" "handle t r" "tr_Root t = Some i"
  shows "\<exists>ps. Ancestors t r = Inr ps \<and> last (r # ps) = root_red i \<and>
    successively (\<lambda>c p. \<exists>j. nth_child t p j c) (r # ps) \<and> (\<forall>p \<in> set ps. handle t p)"
proof -
  obtain k where k: "k < length (reds t)" "reds t ! k = r"
    using assms(2) by (auto simp: handle_def in_set_conv_nth)
  have "reds t \<noteq> []" using k(1) by auto
  moreover obtain i' where "tr_Root t = Some i'" "reds t = [] \<or> reds t ! 0 = root_red i'"
    using assms(1) unfolding tree_ok_def by blast
  ultimately have root: "reds t ! 0 = root_red i" using assms(3) by simp
  have "k < Suc (length (reds t))" using k(1) by simp
  from ancestors_chain [OF assms(1) k(1) this]
  obtain ps where "ancestors_fuel (Suc (length (reds t))) t r = Inr ps" "last (r # ps) = root_red i"
      "successively (\<lambda>c p. \<exists>j. nth_child t p j c) (r # ps)" "set ps \<subseteq> set (reds t)"
    unfolding k(2) root by blast
  then show ?thesis unfolding Ancestors_def handle_def by blast
qed

theorem Ancestors_end_in_root_witness:
  "\<exists>ps. Ancestors sample_tree (root_red 0) = Inr ps \<and> last (root_red 0 # ps) = root_red 0"
  using Ancestors_end_in_root [OF sample_tree_ok, of 0]
  by (auto simp: sample_tree_def NewTreeFromSource_def)

end
