(* ===== verification/CST_Build.thy ===== *)
theory CST_Build
  imports CST_Red "HOL-Library.Product_Lexorder" "HOL-Library.Multiset"
begin

text \<open>
  \<^verbatim>\<open>src/internal/cst/build.go\<close>: attaching trivia to tokens, feeding tokens to a builder,
  and building a tree from syntax spans. Both drivers of a builder (this one and the parser
  of \<^verbatim>\<open>parse.go\<close>) hold the same context: the source, the tokens, the trivia attached to
  each token, the builder and the index of the next token. It is the record \<open>feed\<close>, which
  the parser extends. Whatever the spans, building never panics and hands every token to the
  builder once and in order.
\<close>

section \<open>Attaching trivia\<close>

definition findFirstDocComment :: "Trivia list \<Rightarrow> nat \<Rightarrow> nat \<Rightarrow> nat option" where
  "findFirstDocComment trivias lo hi =
     find (\<lambda>k. tr_Kind (trivias ! k) = TriviaDocComment) [lo..<hi]"

record pairing =
  pr_leading :: "nat list list"
  pr_trailing :: "nat list list"
  pr_triIdx :: nat
  pr_prev :: "nat option"

definition add_leading :: "nat \<Rightarrow> nat list \<Rightarrow> pairing \<Rightarrow> pairing" where
  "add_leading i ks p = p\<lparr>pr_leading := (pr_leading p)[i := pr_leading p ! i @ ks]\<rparr>"

definition add_trailing :: "nat \<Rightarrow> nat list \<Rightarrow> pairing \<Rightarrow> pairing" where
  "add_trailing i ks p = p\<lparr>pr_trailing := (pr_trailing p)[i := pr_trailing p ! i @ ks]\<rparr>"

text \<open>Same-line trivia after token \<open>j\<close>: the run \<open>[lo, hi)\<close> up to the first doc comment
  trails \<open>j\<close>; the rest is returned for whatever follows.\<close>

definition split_run :: "Trivia list \<Rightarrow> nat \<Rightarrow> nat \<Rightarrow> nat list \<times> nat list" where
  "split_run trivias lo hi =
     (case findFirstDocComment trivias lo hi of
        None \<Rightarrow> ([lo..<hi], [])
      | Some docAt \<Rightarrow> ([lo..<docAt], [docAt..<hi]))"

text \<open>One token of the main loop.\<close>

definition pair_token :: "Token list \<Rightarrow> Trivia list \<Rightarrow> nat \<Rightarrow> Token \<Rightarrow> pairing \<Rightarrow> pairing" where
  "pair_token toks trivias i tk p =
     (let runStart = pr_triIdx p;
          runEnd = scan_while (\<lambda>t. tr_Offset t + tr_Length t \<le> tok_start tk) trivias runStart;
          p1 = p\<lparr>pr_triIdx := runEnd\<rparr>;
          p2 = (case pr_prev p of
                  None \<Rightarrow> add_leading i [runStart..<runEnd] p1
                | Some j \<Rightarrow>
                    if tok_Kind (toks ! j) = T_NEWLINE then add_leading i [runStart..<runEnd] p1
                    else (let r = split_run trivias runStart runEnd
                          in add_leading i (snd r) (add_trailing j (fst r) p1)))
      in p2\<lparr>pr_prev := Some i\<rparr>)"

fun pair_loop :: "Token list \<Rightarrow> Trivia list \<Rightarrow> nat \<Rightarrow> Token list \<Rightarrow> pairing \<Rightarrow> pairing" where
  "pair_loop toks trivias i [] p = p"
| "pair_loop toks trivias i (tk # rest) p =
     (if isEOF tk then p
      else pair_loop toks trivias (Suc i) rest (pair_token toks trivias i tk p))"

text \<open>The last index of a token that is not EOF.\<close>

definition lastNonEOF :: "Token list \<Rightarrow> nat option" where
  "lastNonEOF toks =
     foldl (\<lambda>acc i. if isEOF (toks ! i) then acc else Some i) None [0..<length toks]"

definition pairTriviaToTokens ::
  "Token list \<Rightarrow> Trivia list \<Rightarrow> nat list list \<times> nat list list \<times> nat list" where
  "pairTriviaToTokens toks trivias =
     (let n = length toks;
          p = pair_loop toks trivias 0 toks
                \<lparr>pr_leading = replicate n [], pr_trailing = replicate n [], pr_triIdx = 0, pr_prev = None\<rparr>;
          tri = pr_triIdx p; m = length trivias
      in case lastNonEOF toks of
           Some j \<Rightarrow>
             (if tri < m then
                (if tok_Kind (toks ! j) = T_NEWLINE
                 then (pr_leading p, pr_trailing p, [tri..<m])
                 else (let r = split_run trivias tri m
                       in (pr_leading p, pr_trailing (add_trailing j (fst r) p), snd r)))
              else (pr_leading p, pr_trailing p, [tri..<m]))
         | None \<Rightarrow> (pr_leading p, pr_trailing p, [tri..<m]))"

section \<open>Feeding tokens\<close>

record feed =
  fd_src :: bytes
  fd_toks :: "Token list"
  fd_leading :: "nat list list"
  fd_trailing :: "nat list list"
  fd_tailTrivia :: "nat list"
  fd_triviaIDs :: "nat list"
  fd_b :: GreenBuilder
  fd_pos :: nat

definition translateTriviaIDs :: "nat list \<Rightarrow> nat list \<Rightarrow> nat list" where
  "translateTriviaIDs indices triviaIDs = map (\<lambda>idx. triviaIDs ! idx) indices"

text \<open>The lexeme \<open>emitToken\<close> takes from the source. (\<open>width\<close> is the difference of the
  offsets, floored at 0, which is subtraction on \<^typ>\<open>nat\<close>.)\<close>

definition token_text :: "bytes \<Rightarrow> Token \<Rightarrow> string" where
  "token_text src tk =
     (if tok_stop tk \<le> length src \<and> tok_start tk \<le> tok_stop tk
      then slice src (tok_start tk) (tok_stop tk) else [])"

definition emitToken ::
  "Token \<Rightarrow> bytes \<Rightarrow> nat list \<Rightarrow> nat list \<Rightarrow> nat list \<Rightarrow> GreenBuilder action" where
  "emitToken tk src leadingIdx trailingIdx triviaIDs b =
     (let width = tok_stop tk - tok_start tk
      in TokenEvent GkToken (Kind_int (tok_Kind tk)) (token_text src tk) width
           (translateTriviaIDs leadingIdx triviaIDs) (translateTriviaIDs trailingIdx triviaIDs) b)"

text \<open>Emit the token at the index and step past it.\<close>

definition feed_emit :: "'a feed_scheme action" where
  "feed_emit s =
     (if fd_pos s < length (fd_toks s)
      then bindR (emitToken (fd_toks s ! fd_pos s) (fd_src s) (fd_leading s ! fd_pos s)
                    (fd_trailing s ! fd_pos s) (fd_triviaIDs s) (fd_b s))
             (\<lambda>b. Inr (s\<lparr>fd_b := b, fd_pos := fd_pos s + 1\<rparr>))
      else Inl (Panic ''index out of range''))"

definition feed_start :: "GreenKind \<Rightarrow> 'a feed_scheme \<Rightarrow> 'a feed_scheme" where
  "feed_start k s = s\<lparr>fd_b := StartNode k (fd_b s)\<rparr>"

definition feed_checkpoint :: "'a feed_scheme \<Rightarrow> GreenCheckpoint res" where
  "feed_checkpoint s = Checkpoint (fd_b s)"

definition feed_startAt :: "GreenKind \<Rightarrow> GreenCheckpoint \<Rightarrow> 'a feed_scheme action" where
  "feed_startAt k cp s = bindR (StartNodeAt k cp (fd_b s)) (\<lambda>b. Inr (s\<lparr>fd_b := b\<rparr>))"

definition feed_finish :: "'a feed_scheme action" where
  "feed_finish s = bindR (FinishNode (fd_b s)) (\<lambda>b. Inr (s\<lparr>fd_b := b\<rparr>))"

text \<open>The common prologue of both drivers: a builder over a fresh arena, the trivia stored in
  it, and the attachment of trivia to tokens.\<close>

definition add_trivias :: "GreenArena \<Rightarrow> Trivia list \<Rightarrow> nat list \<times> GreenArena" where
  "add_trivias a trivias =
     foldl (\<lambda>acc tr. let r = AddTrivia (snd acc) tr in (fst acc @ [fst r], snd r)) ([], a) trivias"

definition new_feed :: "bytes \<Rightarrow> Token list \<Rightarrow> Trivia list \<Rightarrow> feed" where
  "new_feed src toks trivias =
     (let b = NewBuilder None;
          r = add_trivias (arena b) trivias;
          pr = pairTriviaToTokens toks trivias
      in \<lparr>fd_src = src, fd_toks = toks, fd_leading = fst pr, fd_trailing = fst (snd pr),
          fd_tailTrivia = snd (snd pr), fd_triviaIDs = fst r, fd_b = b\<lparr>arena := snd r\<rparr>, fd_pos = 0\<rparr>)"

text \<open>The common epilogue: tail trivia on a zero-width leaf, the file node closed.\<close>

definition feed_tail :: "'a feed_scheme action" where
  "feed_tail s =
     (if fd_tailTrivia s \<noteq> []
      then bindR (TokenEvent GkErrorMissing 0 [] 0 (translateTriviaIDs (fd_tailTrivia s) (fd_triviaIDs s)) []
             (fd_b s)) (\<lambda>b. Inr (s\<lparr>fd_b := b\<rparr>))
      else Inr s)"

definition feed_close :: "'a feed_scheme \<Rightarrow> Tree res" where
  "feed_close s =
     bindR (bindR (feed_tail s) feed_finish)
       (\<lambda>s. bindR (Finish (fd_b s)) (\<lambda>r. Inr (NewTreeFromSource (fst r) (snd r) (Some (fd_src s)))))"

section \<open>Syntax spans\<close>

datatype SyntaxSpan =
  SyntaxSpan (ss_Start: nat) (ss_End: nat) (ss_Kind: GreenKind) (ss_Children: "SyntaxSpan list")

record EntitySpan =
  es_Start :: nat
  es_End :: nat
  es_Kind :: GreenKind

definition span_accepted :: "nat \<Rightarrow> nat \<Rightarrow> SyntaxSpan \<Rightarrow> bool" where
  "span_accepted parentStart parentEnd child \<longleftrightarrow>
     \<not> (ss_Kind child = GkNone) \<and>
     \<not> (ss_Start child < parentStart \<or> ss_End child > parentEnd \<or> ss_End child < ss_Start child)"

fun drop_overlaps :: "nat \<Rightarrow> SyntaxSpan list \<Rightarrow> SyntaxSpan list" where
  "drop_overlaps cursor [] = []"
| "drop_overlaps cursor (child # cs) =
     (if ss_Start child < cursor then drop_overlaps cursor cs
      else child # drop_overlaps (if ss_End child > cursor then ss_End child else cursor) cs)"

text \<open>\<open>sort.SliceStable\<close> by start, then by end descending.\<close>

definition span_key :: "SyntaxSpan \<Rightarrow> nat \<times> int" where
  "span_key s = (ss_Start s, - int (ss_End s))"

function sanitizeSyntaxChildren :: "SyntaxSpan list \<Rightarrow> nat \<Rightarrow> nat \<Rightarrow> SyntaxSpan list" where
  "sanitizeSyntaxChildren children parentStart parentEnd0 =
     (let parentEnd = (if parentEnd0 < parentStart then parentStart else parentEnd0);
          out = map (\<lambda>child. SyntaxSpan (ss_Start child) (ss_End child) (ss_Kind child)
                      (sanitizeSyntaxChildren (ss_Children child) (ss_Start child) (ss_End child)))
                  (filter (span_accepted parentStart parentEnd) children)
      in drop_overlaps parentStart (sort_key span_key out))"
  by pat_completeness auto
termination
proof (relation "measure (\<lambda>(cs, a, b). size_list size cs)", goal_cases)
  case (2 cs a b x c)
  then have "c \<in> set cs" by simp
  then have "size c < size_list size cs" by (induction cs) auto
  moreover have "size_list size (ss_Children c) < size c" by (cases c) simp
  ultimately show ?case by simp
qed simp

declare sanitizeSyntaxChildren.simps [simp del]

fun span_nodes :: "SyntaxSpan \<Rightarrow> nat" where
  "span_nodes (SyntaxSpan a b k cs) = Suc (sum_list (map span_nodes cs))"

abbreviation spans_nodes :: "SyntaxSpan list \<Rightarrow> nat" where
  "spans_nodes cs \<equiv> sum_list (map span_nodes cs)"

lemma drop_overlaps_nodes: "spans_nodes (drop_overlaps cur cs) \<le> spans_nodes cs"
  by (induction cur cs rule: drop_overlaps.induct) auto

lemma spans_nodes_sort: "spans_nodes (sort_key f cs) = spans_nodes cs"
  by (metis mset_map mset_sort sum_mset_sum_list)

lemma filter_nodes: "spans_nodes (filter P cs) \<le> spans_nodes cs"
  by (induction cs) auto

lemma sanitize_nodes: "spans_nodes (sanitizeSyntaxChildren cs a b) \<le> spans_nodes cs"
proof (induction cs a b rule: sanitizeSyntaxChildren.induct)
  case (1 cs a b)
  define e where "e = (if b < a then a else b)"
  define g where "g = (\<lambda>child. SyntaxSpan (ss_Start child) (ss_End child) (ss_Kind child)
      (sanitizeSyntaxChildren (ss_Children child) (ss_Start child) (ss_End child)))"
  define out where "out = map g (filter (span_accepted a e) cs)"
  have eq: "sanitizeSyntaxChildren cs a b = drop_overlaps a (sort_key span_key out)"
    by (simp add: sanitizeSyntaxChildren.simps [of cs a b] e_def out_def g_def Let_def)
  have "span_nodes (g c) \<le> span_nodes c" if "c \<in> set (filter (span_accepted a e) cs)" for c
    using "1.IH" [OF e_def that] by (cases c) (simp add: g_def)
  then have "spans_nodes out \<le> spans_nodes (filter (span_accepted a e) cs)"
    unfolding out_def map_map by (intro sum_list_mono) simp
  also have "\<dots> \<le> spans_nodes cs" by (rule filter_nodes)
  finally show ?case
    unfolding eq using drop_overlaps_nodes [of a "sort_key span_key out"]
    by (simp add: spans_nodes_sort)
qed

section \<open>Building from spans\<close>

text \<open>The loop that emits the tokens that start before \<open>bound\<close>.\<close>

function emit_before :: "nat \<Rightarrow> 'a feed_scheme action" where
  "emit_before bound s =
     (if fd_pos s < length (fd_toks s) \<and> \<not> isEOF (fd_toks s ! fd_pos s) \<and>
         tok_start (fd_toks s ! fd_pos s) < bound
      then bindR (feed_emit s) (\<lambda>s'. emit_before bound s')
      else Inr s)"
  by pat_completeness auto
termination
  by (relation "measure (\<lambda>(bound, s). length (fd_toks s) - fd_pos s)")
    (auto simp: feed_emit_def bindR_eq_Inr)

declare emit_before.simps [simp del]

function (sequential) emitSyntaxSpan :: "SyntaxSpan \<Rightarrow> feed action"
  and emitChildren :: "SyntaxSpan list \<Rightarrow> feed action" where
  "emitSyntaxSpan span s =
     (let children = sanitizeSyntaxChildren (ss_Children span) (ss_Start span) (ss_End span)
      in bindR (bindR (emitChildren children (feed_start (ss_Kind span) s)) (emit_before (ss_End span)))
           feed_finish)"
| "emitChildren [] s = Inr s"
| "emitChildren (child # cs) s =
     bindR (bindR (emit_before (ss_Start child) s) (emitSyntaxSpan child)) (emitChildren cs)"
  by pat_completeness auto
termination
proof (relation "measure (\<lambda>x. case x of Inl (sp, s) \<Rightarrow> 3 * span_nodes sp
    | Inr (cs, s) \<Rightarrow> 3 * spans_nodes cs + 1)", goal_cases)
  case (2 span s cs)
  then show ?case
    using sanitize_nodes [of "ss_Children span" "ss_Start span" "ss_End span"] by (cases span) simp
next
  case (4 child cs)
  then show ?case by (cases child) simp
qed simp_all

text \<open>The final loop: the remaining tokens up to EOF.\<close>

function emit_rest :: "'a feed_scheme action" where
  "emit_rest s =
     (if fd_pos s < length (fd_toks s) \<and> \<not> isEOF (fd_toks s ! fd_pos s)
      then bindR (feed_emit s) emit_rest
      else Inr s)"
  by pat_completeness auto
termination
  by (relation "measure (\<lambda>s. length (fd_toks s) - fd_pos s)") (auto simp: feed_emit_def bindR_eq_Inr)

declare emit_rest.simps [simp del]

definition BuildFromSyntaxSpans ::
  "bytes \<Rightarrow> SyntaxSpan list \<Rightarrow> Token list \<Rightarrow> Trivia list \<Rightarrow> Tree res" where
  "BuildFromSyntaxSpans src spans toks trivias =
     (let s = feed_start GkFile (new_feed src toks trivias);
          spans' = sanitizeSyntaxChildren spans 0 (length src)
      in bindR (bindR (emitChildren spans' s) emit_rest) feed_close)"

definition BuildFromEntitySpans ::
  "bytes \<Rightarrow> EntitySpan list \<Rightarrow> Token list \<Rightarrow> Trivia list \<Rightarrow> Tree res" where
  "BuildFromEntitySpans src entities toks trivias =
     BuildFromSyntaxSpans src (map (\<lambda>ent. SyntaxSpan (es_Start ent) (es_End ent) (es_Kind ent) []) entities)
       toks trivias"

section \<open>The feed contract\<close>

definition ids_ok :: "'a feed_scheme \<Rightarrow> nat list \<Rightarrow> bool" where
  "ids_ok s xs \<longleftrightarrow> (\<forall>i \<in> set xs. i < length (fd_triviaIDs s))"

definition feed_ok :: "'a feed_scheme \<Rightarrow> bool" where
  "feed_ok s \<longleftrightarrow> open_builder (fd_b s) \<and> fd_pos s \<le> length (fd_toks s) \<and>
     length (fd_leading s) = length (fd_toks s) \<and> length (fd_trailing s) = length (fd_toks s) \<and>
     (\<forall>xs \<in> set (fd_leading s) \<union> set (fd_trailing s). ids_ok s xs) \<and> ids_ok s (fd_tailTrivia s) \<and>
     trivia_ids_ok (arena (fd_b s)) (fd_triviaIDs s)"

text \<open>The green token that index \<open>j\<close> of the token stream becomes.\<close>

definition green_of :: "'a feed_scheme \<Rightarrow> nat \<Rightarrow> GreenToken" where
  "green_of s j = (let tk = fd_toks s ! j in
     mkGreenToken (arena (fd_b s)) GkToken (Kind_int (tok_Kind tk)) (token_text (fd_src s) tk)
       (tok_stop tk - tok_start tk) (translateTriviaIDs (fd_leading s ! j) (fd_triviaIDs s))
       (translateTriviaIDs (fd_trailing s ! j) (fd_triviaIDs s)))"

definition same_ctx :: "'a feed_scheme \<Rightarrow> 'a feed_scheme \<Rightarrow> bool" where
  "same_ctx s s' \<longleftrightarrow> fd_src s' = fd_src s \<and> fd_toks s' = fd_toks s \<and> fd_leading s' = fd_leading s \<and>
     fd_trailing s' = fd_trailing s \<and> fd_tailTrivia s' = fd_tailTrivia s \<and>
     fd_triviaIDs s' = fd_triviaIDs s \<and> Trivias (arena (fd_b s')) = Trivias (arena (fd_b s))"

definition received :: "'a feed_scheme \<Rightarrow> GreenToken list" where
  "received s = emitted (fd_b s)"

text \<open>\<open>s'\<close> continues \<open>s\<close>: the innermost open node has received exactly the tokens between
  the two positions.\<close>

definition feed_ext :: "'a feed_scheme \<Rightarrow> 'a feed_scheme \<Rightarrow> bool" where
  "feed_ext s s' \<longleftrightarrow> grows (fd_b s) (fd_b s') \<and> same_ctx s s' \<and> fd_pos s \<le> fd_pos s' \<and>
     (\<forall>j. fd_pos s \<le> j \<and> j < fd_pos s' \<longrightarrow> \<not> isEOF (fd_toks s ! j)) \<and>
     received s' = received s @ map (green_of s) [fd_pos s..<fd_pos s']"

lemma green_of_same: "same_ctx s s' \<Longrightarrow> green_of s' = green_of s"
proof -
  assume c: "same_ctx s s'"
  then have "sumTriviaWidths (arena (fd_b s')) = sumTriviaWidths (arena (fd_b s))"
    unfolding same_ctx_def sumTriviaWidths_def by (elim conjE) (simp only:)
  with c show ?thesis by (simp add: fun_eq_iff green_of_def mkGreenToken_def same_ctx_def Let_def)
qed

lemma same_ctx_refl [simp]: "same_ctx s s"
  by (simp add: same_ctx_def)

lemma same_ctx_trans: "same_ctx s s1 \<Longrightarrow> same_ctx s1 s2 \<Longrightarrow> same_ctx s s2"
  by (simp add: same_ctx_def)

lemma feed_ext_trans:
  assumes "feed_ext s s1" "feed_ext s1 s2"
  shows "feed_ext s s2"
proof -
  have c: "same_ctx s s1" using assms(1) by (simp add: feed_ext_def)
  have p: "fd_pos s \<le> fd_pos s1" "fd_pos s1 \<le> fd_pos s2" using assms by (auto simp: feed_ext_def)
  then have "[fd_pos s..<fd_pos s2] = [fd_pos s..<fd_pos s1] @ [fd_pos s1..<fd_pos s2]"
    by (metis le_add_diff_inverse upt_add_eq_append)
  moreover have "\<not> isEOF (fd_toks s ! j)" if "fd_pos s \<le> j" "j < fd_pos s2" for j
    using assms c that by (cases "j < fd_pos s1") (auto simp: feed_ext_def same_ctx_def)
  ultimately show ?thesis using assms p
    by (auto simp: feed_ext_def green_of_same [OF c] intro: grows_trans same_ctx_trans)
qed

lemma feed_ext_refl: "feed_ok s \<Longrightarrow> feed_ext s s"
  by (auto simp: feed_ext_def feed_ok_def open_builder_def grows_refl)

lemma translate_ids_ok:
  "ids_ok s xs \<Longrightarrow> trivia_ids_ok a (fd_triviaIDs s) \<Longrightarrow> trivia_ids_ok a (translateTriviaIDs xs (fd_triviaIDs s))"
  by (auto simp: ids_ok_def trivia_ids_ok_def translateTriviaIDs_def list_all_iff)

text \<open>Replacing the builder by one that has grown keeps the context.\<close>

lemma feed_ok_builder:
  assumes "feed_ok s" "open_builder b" "Trivias (arena b) = Trivias (arena (fd_b s))" "n \<le> length (fd_toks s)"
  shows "feed_ok (s\<lparr>fd_b := b, fd_pos := n\<rparr>)" "same_ctx s (s\<lparr>fd_b := b, fd_pos := n\<rparr>)"
  using assms by (simp_all add: feed_ok_def ids_ok_def trivia_ids_ok_def same_ctx_def)

lemma feed_ok_builder':
  assumes "feed_ok s" "open_builder b" "Trivias (arena b) = Trivias (arena (fd_b s))"
  shows "feed_ok (s\<lparr>fd_b := b\<rparr>)" "same_ctx s (s\<lparr>fd_b := b\<rparr>)"
  using assms by (simp_all add: feed_ok_def ids_ok_def trivia_ids_ok_def same_ctx_def)

lemma StartNodeAt_arena: "StartNodeAt k cp b = Inr b' \<Longrightarrow> arena b' = arena b"
  by (auto simp: StartNodeAt_def Let_def split: list.splits if_splits)

lemma feed_emit_ok:
  assumes ok: "feed_ok s" and pos: "fd_pos s < length (fd_toks s)" and ne: "\<not> isEOF (fd_toks s ! fd_pos s)"
  obtains s' where "feed_emit s = Inr s'" "feed_ok s'" "feed_ext s s'" "fd_pos s' = Suc (fd_pos s)"
    "feed.more s' = feed.more s"
proof -
  let ?n = "fd_pos s" and ?tk = "fd_toks s ! fd_pos s"
  have b: "builder_ok (fd_b s)" "stack (fd_b s) \<noteq> []" using ok by (auto simp: feed_ok_def open_builder_def)
  have "fd_leading s ! ?n \<in> set (fd_leading s)" "fd_trailing s ! ?n \<in> set (fd_trailing s)"
    using ok pos by (auto simp: feed_ok_def)
  then have ids: "trivia_ids_ok (arena (fd_b s)) (translateTriviaIDs (fd_leading s ! ?n) (fd_triviaIDs s))"
      "trivia_ids_ok (arena (fd_b s)) (translateTriviaIDs (fd_trailing s ! ?n) (fd_triviaIDs s))"
    using ok by (auto simp: feed_ok_def intro!: translate_ids_ok)
  obtain b' where b': "emitToken ?tk (fd_src s) (fd_leading s ! ?n) (fd_trailing s ! ?n) (fd_triviaIDs s) (fd_b s) = Inr b'"
      "builder_ok b'" "grows (fd_b s) b'" "emitted b' = emitted (fd_b s) @ [green_of s ?n]"
    using TokenEvent_ok [OF b ids] unfolding emitToken_def green_of_def Let_def by metis
  let ?s = "s\<lparr>fd_b := b', fd_pos := Suc ?n\<rparr>"
  have ob: "open_builder b'" "Trivias (arena b') = Trivias (arena (fd_b s))"
    using b'(2,3) grows_stack [OF b'(3)] by (auto simp: open_builder_def grows_def arena_le_def)
  note c = feed_ok_builder [OF ok ob, of "Suc ?n"]
  have 1: "feed_emit s = Inr ?s" using pos b'(1) by (simp add: feed_emit_def)
  have 2: "feed_ext s ?s" using b'(3,4) c pos ne by (auto simp: feed_ext_def received_def le_less_Suc_eq)
  show thesis by (rule that [OF 1 c(1) 2]) (use pos in simp_all)
qed

interpretation feeding: event_builder feed_ok feed_ext received feed_start feed_checkpoint feed_startAt feed_finish
proof (unfold_locales, goal_cases)
  case (1 s) then show ?case by (rule feed_ext_refl)
next
  case (2 s s1 s2) then show ?case by (rule feed_ext_trans)
next
  case (3 s k)
  then have "open_builder (StartNode k (fd_b s))" by (simp add: feed_ok_def open_StartNode)
  then show ?case using feed_ok_builder'(1) [OF 3] by (simp add: feed_start_def StartNode_def)
next
  case (4 s k) then show ?case
    by (simp add: feed_start_def received_def feed_ok_def green.start_received)
next
  case (5 s) then show ?case by (simp add: feed_checkpoint_def feed_ok_def green.checkpoint_total)
next
  case (6 s s2 k)
  have g: "grows (StartNode k (fd_b s)) (fd_b s2)" and c: "same_ctx s s2" and p: "fd_pos s \<le> fd_pos s2"
    and r: "received s2 = received s @ map (green_of s) [fd_pos s..<fd_pos s2]"
    and ne: "\<forall>j. fd_pos s \<le> j \<and> j < fd_pos s2 \<longrightarrow> \<not> isEOF (fd_toks s ! j)"
    using 6 green_of_same [of s "feed_start k s"] green.start_received [of "fd_b s" k]
    by (auto simp: feed_ext_def feed_start_def same_ctx_def StartNode_def received_def feed_ok_def)
  obtain b3 where b3: "FinishNode (fd_b s2) = Inr b3" "open_builder b3" "grows (fd_b s) b3"
      "emitted b3 = emitted (fd_b s2)"
    using green.finish_start [OF _ _ g] 6(1,2) by (auto simp: feed_ok_def)
  have "Trivias (arena b3) = Trivias (arena (fd_b s2))"
    using b3(3) c by (simp add: grows_def arena_le_def same_ctx_def)
  note c3 = feed_ok_builder' [OF 6(2) b3(2) this]
  have "feed_ext s (s2\<lparr>fd_b := b3\<rparr>)"
    using b3(3,4) r p ne same_ctx_trans [OF c c3(2)] by (simp add: feed_ext_def received_def)
  then show ?case using b3(1,4) c3(1) by (simp add: feed_finish_def received_def)
next
  case (7 s c s1 k)
  then obtain b2 where b2: "StartNodeAt k c (fd_b s1) = Inr b2" "open_builder b2" "emitted b2 = emitted (fd_b s1)"
    using green.startAt_total [of "fd_b s" c "fd_b s1" k]
    by (auto simp: feed_ok_def feed_checkpoint_def feed_ext_def)
  then show ?case using feed_ok_builder'(1) [OF 7(3) b2(2)] StartNodeAt_arena [OF b2(1)]
    by (simp add: feed_startAt_def received_def)
next
  case (8 s c s1 k s2 s3)
  obtain b2 where b2: "StartNodeAt k c (fd_b s1) = Inr b2" "s2 = s1\<lparr>fd_b := b2\<rparr>"
    using 8(5) by (auto simp: feed_startAt_def bindR_eq_Inr)
  have g: "open_builder (fd_b s)" "open_builder (fd_b s1)" "Checkpoint (fd_b s) = Inr c"
      "grows (fd_b s) (fd_b s1)" "grows b2 (fd_b s3)" "open_builder (fd_b s3)"
    using 8 b2(2) by (auto simp: feed_ok_def feed_checkpoint_def feed_ext_def)
  have e2: "emitted b2 = emitted (fd_b s1)"
    using green.startAt_total [OF g(1,3,2,4), of k] b2(1) by auto
  obtain b4 where b4: "FinishNode (fd_b s3) = Inr b4" "open_builder b4" "grows (fd_b s) b4"
      "emitted b4 = emitted (fd_b s3)"
    using green.finish_startAt [OF g(1,3,2,4) b2(1) g(6,5)] by auto
  have c12: "same_ctx s1 s2" using b2 StartNodeAt_arena [OF b2(1)] by (simp add: same_ctx_def)
  have r2: "received s2 = received s1" "fd_pos s2 = fd_pos s1" using e2 b2(2) by (simp_all add: received_def)
  have c: "same_ctx s s3" using 8(4,7) c12 same_ctx_trans unfolding feed_ext_def by blast
  have "Trivias (arena b4) = Trivias (arena (fd_b s3))"
    using b4(3) c by (simp add: grows_def arena_le_def same_ctx_def)
  note c4 = feed_ok_builder' [OF 8(6) b4(2) this]
  have e: "[fd_pos s..<fd_pos s3] = [fd_pos s..<fd_pos s1] @ [fd_pos s1..<fd_pos s3]"
    using 8(4,7) r2(2) by (metis feed_ext_def le_add_diff_inverse upt_add_eq_append)
  have "green_of s2 = green_of s"
    using green_of_same [OF c12] green_of_same [of s s1] 8(4) by (simp add: feed_ext_def)
  then have "received s3 = received s @ map (green_of s) [fd_pos s..<fd_pos s3]"
    using 8(4,7) r2 e by (simp add: feed_ext_def)
  moreover have "\<not> isEOF (fd_toks s ! j)" if "fd_pos s \<le> j" "j < fd_pos s3" for j
    using 8(4,7) c12 r2(2) that by (cases "j < fd_pos s1") (auto simp: feed_ext_def same_ctx_def)
  ultimately have "feed_ext s (s3\<lparr>fd_b := b4\<rparr>)"
    using b4(3,4) 8(4,7) r2(2) same_ctx_trans [OF c c4(2)] by (simp add: feed_ext_def received_def)
  then show ?case using b4(1,4) c4(1) by (simp add: feed_finish_def received_def)
qed

section \<open>Totality\<close>

definition goes :: "'a feed_scheme \<Rightarrow> 'a feed_scheme res \<Rightarrow> bool" where
  "goes s r \<longleftrightarrow> (\<exists>s'. r = Inr s' \<and> feed_ok s' \<and> feed_ext s s')"

lemma goes_Inr [simp]: "goes s (Inr s') \<longleftrightarrow> feed_ok s' \<and> feed_ext s s'"
  by (auto simp: goes_def)

lemma goes_bind:
  assumes "goes s r" "\<And>s'. r = Inr s' \<Longrightarrow> feed_ok s' \<Longrightarrow> feed_ext s s' \<Longrightarrow> goes s' (f s')"
  shows "goes s (bindR r f)"
  using assms feed_ext_trans unfolding goes_def by fastforce

lemma goes_node:
  assumes "feed_ok s" "goes (feed_start k s) r"
  shows "goes s (bindR r feed_finish)"
proof -
  obtain s' where "r = Inr s'" "feed_ok s'" "feed_ext (feed_start k s) s'" using assms(2) by (auto simp: goes_def)
  with feeding.finish_start [OF assms(1), of s' k] show ?thesis by (auto simp: goes_def)
qed

lemma goes_emit: "feed_ok s \<Longrightarrow> fd_pos s < length (fd_toks s) \<Longrightarrow> \<not> isEOF (fd_toks s ! fd_pos s) \<Longrightarrow>
    goes s (feed_emit s)"
  by (rule feed_emit_ok [of s]) (auto simp: goes_def)

lemma emit_before_goes: "feed_ok s \<Longrightarrow> goes s (emit_before bound s)"
proof (induction bound s rule: emit_before.induct)
  case (1 bound s)
  then show ?case
    by (auto simp: emit_before.simps [of bound s] feed_ext_refl intro!: goes_bind goes_emit)
qed

lemma emit_rest_goes: "feed_ok s \<Longrightarrow> goes s (emit_rest s)"
proof (induction s rule: emit_rest.induct)
  case (1 s)
  then show ?case
    by (auto simp: emit_rest.simps [of s] feed_ext_refl intro!: goes_bind goes_emit)
qed

definition at_end :: "'a feed_scheme \<Rightarrow> bool" where
  "at_end s \<longleftrightarrow> fd_pos s = length (fd_toks s) \<or> isEOF (fd_toks s ! fd_pos s)"

lemma emit_rest_at_end: "feed_ok s \<Longrightarrow> emit_rest s = Inr s' \<Longrightarrow> at_end s'"
proof (induction s rule: emit_rest.induct)
  case (1 s)
  show ?case
  proof (cases "fd_pos s < length (fd_toks s) \<and> \<not> isEOF (fd_toks s ! fd_pos s)")
    case True
    obtain s1 where "feed_emit s = Inr s1" "feed_ok s1"
      by (rule feed_emit_ok [OF "1.prems"(1)]) (use True in auto)
    with "1.IH" [OF True] "1.prems"(2) True show ?thesis by (simp add: emit_rest.simps [of s])
  next
    case False
    then have "s' = s" using "1.prems"(2) by (auto simp: emit_rest.simps [of s] split: if_splits)
    then show ?thesis using False "1.prems"(1) by (auto simp: at_end_def feed_ok_def)
  qed
qed

lemma emitSpans_go:
  "feed_ok s \<Longrightarrow> goes s (emitSyntaxSpan span s)"
  "feed_ok s \<Longrightarrow> goes s (emitChildren spans s)"
proof (induction span s and spans s rule: emitSyntaxSpan_emitChildren.induct)
  case (1 span s)
  let ?s = "feed_start (ss_Kind span) s"
  have "feed_ok ?s" using "1.prems" by (rule feeding.start_ok)
  then have "goes ?s (bindR (emitChildren (sanitizeSyntaxChildren (ss_Children span) (ss_Start span) (ss_End span)) ?s)
      (emit_before (ss_End span)))"
    using "1.IH" by (intro goes_bind emit_before_goes) simp_all
  from goes_node [OF "1.prems" this] show ?case by (simp add: Let_def)
next
  case (3 child cs s)
  then show ?case by (auto intro!: goes_bind emit_before_goes)
qed (simp add: feed_ext_refl)

definition tail_leaf :: "'a feed_scheme \<Rightarrow> GreenToken list" where
  "tail_leaf s = (if fd_tailTrivia s = [] then []
     else [mkGreenToken (arena (fd_b s)) GkErrorMissing 0 [] 0
             (translateTriviaIDs (fd_tailTrivia s) (fd_triviaIDs s)) []])"

lemma feed_tail_ok:
  assumes "feed_ok s"
  obtains s' where "feed_tail s = Inr s'" "feed_ok s'" "received s' = received s @ tail_leaf s"
    "grows (fd_b s) (fd_b s')" "fd_src s' = fd_src s"
proof (cases "fd_tailTrivia s = []")
  case True
  with that assms show thesis
    by (auto simp: feed_tail_def tail_leaf_def feed_ok_def open_builder_def intro: grows_refl)
next
  case False
  have b: "builder_ok (fd_b s)" "stack (fd_b s) \<noteq> []" using assms by (auto simp: feed_ok_def open_builder_def)
  have ids: "trivia_ids_ok (arena (fd_b s)) (translateTriviaIDs (fd_tailTrivia s) (fd_triviaIDs s))"
      "trivia_ids_ok (arena (fd_b s)) []"
    using assms by (auto simp: feed_ok_def trivia_ids_ok_def [of _ "[]"] intro!: translate_ids_ok)
  obtain b' where b': "TokenEvent GkErrorMissing 0 [] 0 (translateTriviaIDs (fd_tailTrivia s) (fd_triviaIDs s)) [] (fd_b s) = Inr b'"
      "builder_ok b'" "grows (fd_b s) b'"
      "emitted b' = emitted (fd_b s) @ [mkGreenToken (arena (fd_b s)) GkErrorMissing 0 [] 0
         (translateTriviaIDs (fd_tailTrivia s) (fd_triviaIDs s)) []]"
    using TokenEvent_ok [OF b ids] .
  have "open_builder b'" "Trivias (arena b') = Trivias (arena (fd_b s))"
    using b'(2,3) grows_stack [OF b'(3)] by (auto simp: open_builder_def grows_def arena_le_def)
  note c = feed_ok_builder' [OF assms this]
  show thesis
    by (rule that [of "s\<lparr>fd_b := b'\<rparr>"]) (use False b' c in \<open>simp_all add: feed_tail_def tail_leaf_def received_def\<close>)
qed

lemma feed_close_ok:
  assumes ok: "feed_ok s" and st: "stack (fd_b s) = [fr]"
  obtains t i where "feed_close s = Inr t" "tree_ok t" "tr_Root t = Some i" "tr_Source t = Some (fd_src s)"
    "reds t = []" "Trivias (tr_Arena t) = Trivias (arena (fd_b s))" "i < length (Nodes (tr_Arena t))"
    "gn_Kind (Nodes (tr_Arena t) ! i) = fr_kind fr"
    "leaves (tr_Arena t) (GctNode i) = received s @ tail_leaf s"
proof -
  obtain s1 where s1: "feed_tail s = Inr s1" "feed_ok s1" "received s1 = received s @ tail_leaf s"
      "grows (fd_b s) (fd_b s1)" "fd_src s1 = fd_src s"
    using feed_tail_ok [OF ok] .
  obtain fr1 where fr1: "stack (fd_b s1) = [fr1]" "fr_kind fr1 = fr_kind fr"
    using s1(4) st unfolding grows_def by auto
  have bok: "builder_ok (fd_b s1)" using s1(2) by (simp add: feed_ok_def open_builder_def)
  obtain b i where b: "FinishNode (fd_b s1) = Inr b" "wf_arena (arena b)"
      "stack b = []" "root b = Some i" "i < length (Nodes (arena b))"
      "leaves (arena b) (GctNode i) = emitted (fd_b s1)" "gn_Kind (Nodes (arena b) ! i) = fr_kind fr1"
      "arena_le (arena (fd_b s1)) (arena b)" 
    by (rule FinishNode_root [OF bok fr1(1)]) (rule that; assumption)
  have tv: "Trivias (arena b) = Trivias (arena (fd_b s))"
    using b(8) s1(4) by (simp add: grows_def arena_le_def)
  let ?t = "NewTreeFromSource (arena b) (Some i) (Some (fd_src s))"
  have 1: "feed_close s = Inr ?t"
    using s1(1,5) b(1,3,4) by (simp add: feed_close_def feed_finish_def Finish_def)
  show thesis
    by (rule that [OF 1 tree_ok_New [OF b(2,5)]])
      (use b tv s1(3) fr1(2) in \<open>simp_all add: NewTreeFromSource_def received_def\<close>)
qed

section \<open>The prologue\<close>

lemma add_trivias_acc:
  "foldl (\<lambda>acc tr. let r = AddTrivia (snd acc) tr in (fst acc @ [fst r], snd r)) (ids, a) ts =
     (ids @ [length (Trivias a)..<length (Trivias a) + length ts], a\<lparr>Trivias := Trivias a @ ts\<rparr>)"
proof (induction ts arbitrary: ids a)
  case (Cons t ts)
  have "[n..<n + length (t # ts)] = n # [Suc n..<Suc n + length ts]" for n
    by (simp del: upt_Suc add: upt_conv_Cons)
  with Cons show ?case by (simp del: upt_Suc add: AddTrivia_def Let_def)
qed simp

lemma add_trivias_fresh:
  "add_trivias NewArena ts = ([0..<length ts], NewArena\<lparr>Trivias := ts\<rparr>)"
  using add_trivias_acc [of "[]" NewArena ts] by (simp add: add_trivias_def NewArena_def)

lemma translate_fresh: "\<forall>i \<in> set xs. i < n \<Longrightarrow> translateTriviaIDs xs [0..<n] = xs"
  by (simp add: translateTriviaIDs_def map_idI)

text \<open>Whatever the tokens and the trivia, the attachment only names trivia that exist.\<close>

definition attached_in :: "nat \<Rightarrow> nat list list \<Rightarrow> bool" where
  "attached_in m xss \<longleftrightarrow> (\<forall>xs \<in> set xss. \<forall>k \<in> set xs. k < m)"

lemma attached_in_update:
  assumes "attached_in m xss" "\<forall>k \<in> set ks. k < m"
  shows "attached_in m (xss[i := xss ! i @ ks])"
proof (cases "i < length xss")
  case True
  then have "\<forall>k \<in> set (xss ! i). k < m"
    using assms(1) nth_mem [OF True] unfolding attached_in_def by blast
  then show ?thesis using assms set_update_subset_insert [of xss i "xss ! i @ ks"]
    unfolding attached_in_def by fastforce
qed (use assms in \<open>simp add: list_update_beyond\<close>)

lemma split_run_concat:
  assumes "lo \<le> hi"
  shows "fst (split_run trivias lo hi) @ snd (split_run trivias lo hi) = [lo..<hi]"
proof (cases "findFirstDocComment trivias lo hi")
  case (Some d)
  then have "d \<in> set [lo..<hi]" by (auto simp: findFirstDocComment_def find_Some_iff)
  then show ?thesis using Some upt_add_eq_append [of lo d "hi - d"] by (simp add: split_run_def)
qed (simp add: split_run_def)

lemma split_run_bound:
  assumes "lo \<le> hi" "hi \<le> m"
  shows "\<forall>k \<in> set (fst (split_run trivias lo hi)). k < m" "\<forall>k \<in> set (snd (split_run trivias lo hi)). k < m"
proof -
  have "set (fst (split_run trivias lo hi)) \<union> set (snd (split_run trivias lo hi)) = {lo..<hi}"
    using arg_cong [OF split_run_concat [OF assms(1), of trivias], of set] by simp
  then have "set (fst (split_run trivias lo hi)) \<subseteq> {lo..<hi}" "set (snd (split_run trivias lo hi)) \<subseteq> {lo..<hi}"
    by blast+
  with assms(2) show "\<forall>k \<in> set (fst (split_run trivias lo hi)). k < m"
      "\<forall>k \<in> set (snd (split_run trivias lo hi)). k < m" by fastforce+
qed

definition pairing_ok :: "nat \<Rightarrow> nat \<Rightarrow> pairing \<Rightarrow> bool" where
  "pairing_ok n m p \<longleftrightarrow> length (pr_leading p) = n \<and> length (pr_trailing p) = n \<and> pr_triIdx p \<le> m \<and>
     attached_in m (pr_leading p) \<and> attached_in m (pr_trailing p)"

lemma add_leading_ok:
  "pairing_ok n m p \<Longrightarrow> \<forall>k \<in> set ks. k < m \<Longrightarrow> pairing_ok n m (add_leading i ks p)"
  by (simp add: pairing_ok_def add_leading_def attached_in_update)

lemma add_trailing_ok:
  "pairing_ok n m p \<Longrightarrow> \<forall>k \<in> set ks. k < m \<Longrightarrow> pairing_ok n m (add_trailing i ks p)"
  by (simp add: pairing_ok_def add_trailing_def attached_in_update)

lemma pair_token_ok:
  assumes "pairing_ok n (length trivias) p"
  shows "pairing_ok n (length trivias) (pair_token toks trivias i tk p)"
proof -
  let ?lo = "pr_triIdx p"
  let ?hi = "scan_while (\<lambda>t. tr_Offset t + tr_Length t \<le> tok_start tk) trivias ?lo"
  have b: "?lo \<le> ?hi" "?hi \<le> length trivias"
    using assms by (auto simp: pairing_ok_def intro: scan_while_ge scan_while_le)
  have p1: "pairing_ok n (length trivias) (p\<lparr>pr_triIdx := ?hi\<rparr>)" using assms b by (simp add: pairing_ok_def)
  have prev: "pairing_ok n (length trivias) (q\<lparr>pr_prev := x\<rparr>)" if "pairing_ok n (length trivias) q" for q x
    using that by (simp add: pairing_ok_def)
  show ?thesis
    unfolding pair_token_def Let_def using b split_run_bound [OF b, of trivias]
    by (auto intro!: prev add_leading_ok add_trailing_ok p1 split: option.split)
qed

lemma pair_loop_ok:
  "pairing_ok n (length trivias) p \<Longrightarrow> pairing_ok n (length trivias) (pair_loop toks trivias i rest p)"
  by (induction toks trivias i rest p rule: pair_loop.induct) (simp_all add: pair_token_ok)

lemma pairTriviaToTokens_ok:
  assumes "pairTriviaToTokens toks trivias = (L, T, tail)"
  shows "length L = length toks" "length T = length toks"
    "attached_in (length trivias) L" "attached_in (length trivias) T" "\<forall>k \<in> set tail. k < length trivias"
proof -
  let ?n = "length toks" and ?m = "length trivias"
  let ?p = "pair_loop toks trivias 0 toks
      \<lparr>pr_leading = replicate ?n [], pr_trailing = replicate ?n [], pr_triIdx = 0, pr_prev = None\<rparr>"
  have p: "pairing_ok ?n ?m ?p"
    by (rule pair_loop_ok) (simp add: pairing_ok_def attached_in_def)
  then have le: "pr_triIdx ?p \<le> ?m" by (simp add: pairing_ok_def)
  note sb = split_run_bound [OF le order.refl, of trivias]
  have q: "pairing_ok ?n ?m (add_trailing j (fst (split_run trivias (pr_triIdx ?p) ?m)) ?p)" for j
    using p sb(1) by (rule add_trailing_ok)
  have "pairing_ok ?n ?m \<lparr>pr_leading = L, pr_trailing = T, pr_triIdx = 0, pr_prev = None\<rparr> \<and>
      (\<forall>k \<in> set tail. k < ?m)"
    using assms p q sb(2) unfolding pairTriviaToTokens_def Let_def
    by (auto simp: pairing_ok_def add_trailing_def split: option.splits if_splits)
  then show "length L = ?n" "length T = ?n" "attached_in ?m L" "attached_in ?m T" "\<forall>k \<in> set tail. k < ?m"
    by (auto simp: pairing_ok_def)
qed

section \<open>Attached trivia and tokens tile the source\<close>

abbreviation iv_at :: "Trivia list \<Rightarrow> nat \<Rightarrow> nat \<times> nat" where
  "iv_at trivias \<equiv> (\<lambda>k. tr_iv (trivias ! k))"

text \<open>The byte ranges token \<open>j\<close> stands for with its leading and trailing trivia, in order.\<close>

definition attached_ivs ::
  "Token list \<Rightarrow> Trivia list \<Rightarrow> nat list list \<Rightarrow> nat list list \<Rightarrow> nat \<Rightarrow> (nat \<times> nat) list" where
  "attached_ivs toks trivias L T j =
     map (iv_at trivias) (L ! j) @ [tok_iv (toks ! j)] @ map (iv_at trivias) (T ! j)"

lemma tiles_mem:
  "tiles lo ivs hi \<Longrightarrow> iv \<in> set ivs \<Longrightarrow> lo \<le> fst iv \<and> fst iv \<le> snd iv \<and> snd iv \<le> hi"
proof (induction ivs arbitrary: lo)
  case (Cons x xs)
  obtain b where x: "x = (lo, b)" "lo \<le> b" "tiles b xs hi" using Cons.prems(1) by (cases x) auto
  from tiles_le [OF x(3)] Cons.IH [OF x(3)] Cons.prems(2) x show ?case by fastforce
qed simp

lemma interleaved_ge:
  "interleaved lo toks gs tail hi \<Longrightarrow> t \<in> set (concat gs @ tail) \<Longrightarrow> lo \<le> tr_Offset t"
proof (induction lo toks gs tail hi rule: interleaved.induct)
  case (1 lo tail hi)
  then show ?case using tiles_mem [of lo "map tr_iv tail" hi "tr_iv t"] by (auto simp: tr_iv_def)
next
  case (2 lo u us g gs tail hi)
  then have g: "tiles lo (map tr_iv g) (tok_start u)" "tok_start u \<le> tok_stop u" by auto
  note le = tiles_le [OF g(1)]
  show ?case
  proof (cases "t \<in> set g")
    case True
    then show ?thesis using tiles_mem [OF g(1), of "tr_iv t"] by (auto simp: tr_iv_def)
  next
    case False
    then have "tok_stop u \<le> tr_Offset t" using 2 by auto
    with g(2) le show ?thesis by simp
  qed
qed auto

lemma scan_run:
  assumes "drop k xs = g @ r" "k \<le> length xs" "\<forall>x \<in> set g. P x" "r = [] \<or> \<not> P (hd r)"
  shows "scan_while P xs k = k + length g"
  using assms
proof (induction g arbitrary: k)
  case Nil
  then have "\<not> (k < length xs \<and> P (xs ! k))" by (auto simp: hd_drop_conv_nth)
  then show ?case by (auto simp: scan_while.simps [of P xs k])
next
  case (Cons x g)
  then have k: "k < length xs" by (cases "k < length xs") auto
  then have "xs ! k = x" "drop (Suc k) xs = g @ r" using Cons.prems(1) by (simp_all add: Cons_nth_drop_Suc [symmetric])
  with Cons.IH [of "Suc k"] Cons.prems k show ?case by (simp add: scan_while.simps [of P xs k])
qed

lemma map_iv_run:
  assumes "drop k trivias = g @ r"
  shows "map (iv_at trivias) [k..<k + length g] = map tr_iv g"
proof (rule nth_equalityI)
  fix j assume "j < length (map (iv_at trivias) [k..<k + length g])"
  then have j: "j < length g" by simp
  moreover have "trivias ! (k + j) = (g @ r) ! j" using assms by (metis j length_append length_drop
      less_or_eq_imp_le linorder_not_le nth_drop trans_less_add1 zero_less_diff length_0_conv not_less_zero
      drop_all append_is_Nil_conv)
  ultimately show "map (iv_at trivias) [k..<k + length g] ! j = map tr_iv g ! j" by (simp add: nth_append)
qed simp

text \<open>The loop invariant: the first \<open>i\<close> tokens with what is attached to them tile the source up
  to \<open>lo\<close>; the remaining trivia fill the gaps of the remaining tokens.\<close>

definition paired ::
  "Token list \<Rightarrow> Trivia list \<Rightarrow> nat \<Rightarrow> pairing \<Rightarrow> nat \<Rightarrow> bool" where
  "paired toks trivias i p lo \<longleftrightarrow>
     length (pr_leading p) = length toks \<and> length (pr_trailing p) = length toks \<and>
     pr_prev p = (if i = 0 then None else Some (i - 1)) \<and> pr_triIdx p \<le> length trivias \<and>
     (\<forall>j. i \<le> j \<and> j < length toks \<longrightarrow> pr_leading p ! j = [] \<and> pr_trailing p ! j = []) \<and>
     tiles 0 (concat (map (attached_ivs toks trivias (pr_leading p) (pr_trailing p)) [0..<i])) lo"

lemma attach_trailing:
  assumes i: "0 < i" "i \<le> length T"
  shows "concat (map (attached_ivs toks trivias L (T[i - 1 := T ! (i - 1) @ ks])) [0..<i]) =
    concat (map (attached_ivs toks trivias L T) [0..<i]) @ map (iv_at trivias) ks"
proof -
  obtain m where m: "i = Suc m" using i by (cases i) auto
  have "concat (map (attached_ivs toks trivias L (T[m := T ! m @ ks])) [0..<m]) =
      concat (map (attached_ivs toks trivias L T) [0..<m])"
    by (intro arg_cong [where f = concat] map_cong) (simp_all add: attached_ivs_def)
  then show ?thesis using i m by (simp add: attached_ivs_def)
qed

lemma attach_leading:
  assumes "i < length L" "L ! i = []" "T ! i = []"
  shows "concat (map (attached_ivs toks trivias (L[i := L ! i @ ks]) T) [0..<Suc i]) =
    concat (map (attached_ivs toks trivias L T) [0..<i]) @ map (iv_at trivias) ks @ [tok_iv (toks ! i)]"
proof -
  have "concat (map (attached_ivs toks trivias (L[i := ks]) T) [0..<i]) =
      concat (map (attached_ivs toks trivias L T) [0..<i])"
    by (intro arg_cong [where f = concat] map_cong) (simp_all add: attached_ivs_def)
  then show ?thesis using assms by (simp add: attached_ivs_def)
qed

text \<open>One step: the run before token \<open>i\<close> is split between the previous token and this one.\<close>

lemma pair_token_paired:
  assumes inv: "paired toks trivias i p lo" and i: "i < length toks"
    and rest: "drop (pr_triIdx p) trivias = g @ r"
    and g: "tiles lo (map tr_iv g) (tok_start (toks ! i))" and tk: "tok_start (toks ! i) \<le> tok_stop (toks ! i)"
    and r: "\<forall>t \<in> set r. tok_start (toks ! i) < tr_stop t"
  shows "paired toks trivias (Suc i) (pair_token toks trivias i (toks ! i) p) (tok_stop (toks ! i)) \<and>
    drop (pr_triIdx (pair_token toks trivias i (toks ! i) p)) trivias = r"
proof -
  let ?lo = "pr_triIdx p" and ?tk = "toks ! i" and ?L = "pr_leading p" and ?T = "pr_trailing p"
  let ?hi = "?lo + length g"
  have le: "?lo \<le> length trivias" using inv by (simp add: paired_def)
  have ends: "tr_stop t \<le> tok_start ?tk" if "t \<in> set g" for t
    using tiles_mem [OF g, of "tr_iv t"] that by (simp add: tr_iv_def)
  have scan: "scan_while (\<lambda>t. tr_stop t \<le> tok_start ?tk) trivias ?lo = ?hi"
    by (rule scan_run [OF rest le]) (use ends r in \<open>cases r; auto\<close>)+
  have hi: "?hi \<le> length trivias" using arg_cong [OF rest, of length] le by simp
  have dr: "drop ?hi trivias = r" using rest by (metis append_eq_conv_conj drop_drop add.commute)
  define ks where "ks = (if i = 0 \<or> tok_Kind (toks ! (i - 1)) = T_NEWLINE then ([], [?lo..<?hi])
      else split_run trivias ?lo ?hi)"
  have ks: "fst ks @ snd ks = [?lo..<?hi]" by (simp add: ks_def split_run_concat)
  have ks0: "i = 0 \<Longrightarrow> fst ks = []" by (simp add: ks_def)
  define T where "T = (if i = 0 then ?T else ?T[i - 1 := ?T ! (i - 1) @ fst ks])"
  have step: "pair_token toks trivias i ?tk p = \<lparr>pr_leading = ?L[i := ?L ! i @ snd ks], pr_trailing = T,
      pr_triIdx = ?hi, pr_prev = Some i\<rparr>"
    using inv scan by (cases p) (auto simp: pair_token_def Let_def paired_def ks_def T_def add_leading_def
        add_trailing_def split: if_splits)
  have len: "length ?L = length toks" "length ?T = length toks" "?L ! i = []" "?T ! i = []"
    using inv i by (auto simp: paired_def)
  have Ti: "T ! i = []" using len by (cases "i = 0") (simp_all add: T_def)
  have "concat (map (attached_ivs toks trivias ?L T) [0..<i]) =
      concat (map (attached_ivs toks trivias ?L ?T) [0..<i]) @ map (iv_at trivias) (fst ks)"
    using attach_trailing [of i ?T toks trivias ?L "fst ks"] len i
    by (cases "i = 0") (simp_all add: T_def ks0)
  then have seq: "concat (map (attached_ivs toks trivias (?L[i := ?L ! i @ snd ks]) T) [0..<Suc i]) =
      concat (map (attached_ivs toks trivias ?L ?T) [0..<i]) @ map (iv_at trivias) (fst ks @ snd ks) @ [tok_iv ?tk]"
    using attach_leading [of i ?L T toks trivias "snd ks"] len i Ti by simp
  have t2: "tiles lo (map (iv_at trivias) (fst ks @ snd ks) @ [tok_iv ?tk]) (tok_stop ?tk)"
    unfolding ks map_iv_run [OF rest] using g tk by (auto simp: tok_iv_def)
  have t1: "tiles 0 (concat (map (attached_ivs toks trivias ?L ?T) [0..<i])) lo"
    using inv by (simp add: paired_def)
  have "tiles 0 (concat (map (attached_ivs toks trivias (?L[i := ?L ! i @ snd ks]) T) [0..<Suc i])) (tok_stop ?tk)"
    unfolding seq by (rule iffD2 [OF tiles_append]) (use t1 t2 in blast)
  then show ?thesis using inv len hi dr unfolding step by (auto simp: paired_def T_def)
qed

lemma pair_loop_paired:
  assumes "paired toks trivias i p lo" "toks = pre @ body @ ends" "i = length pre"
    and "\<forall>t \<in> set body. \<not> isEOF t" "ends = [] \<or> isEOF (hd ends)"
    and "drop (pr_triIdx p) trivias = concat gs @ tail" "interleaved lo body gs tail hi"
    and "\<forall>t \<in> set trivias. 0 < tr_Length t"
  shows "\<exists>lo'. paired toks trivias (i + length body) (pair_loop toks trivias i (body @ ends) p) lo' \<and>
    drop (pr_triIdx (pair_loop toks trivias i (body @ ends) p)) trivias = tail \<and> tiles lo' (map tr_iv tail) hi"
  using assms
proof (induction body arbitrary: pre i p lo gs)
  case Nil
  from Nil.prems(7) have "gs = []" "tiles lo (map tr_iv tail) hi" by (cases gs; simp)+
  with Nil.prems show ?case by (cases ends) auto
next
  case (Cons tk body)
  obtain g gs' where gs: "gs = g # gs'" using Cons.prems(7) by (cases gs) auto
  have it: "tiles lo (map tr_iv g) (tok_start tk)" "tok_start tk \<le> tok_stop tk"
      "interleaved (tok_stop tk) body gs' tail hi"
    using Cons.prems(7) gs by auto
  have i: "i < length toks" "toks ! i = tk" using Cons.prems(2,3) by (simp_all add: nth_append)
  let ?p = "pair_token toks trivias i tk p"
  have "set (concat gs' @ tail) \<subseteq> set trivias"
    using Cons.prems(6) gs by (metis Un_subset_iff append.assoc concat.simps(2) set_append set_drop_subset)
  then have "tok_start tk < tr_stop t" if "t \<in> set (concat gs' @ tail)" for t
    using interleaved_ge [OF it(3) that] Cons.prems(8) that it(2) by force
  then have "paired toks trivias (Suc i) ?p (tok_stop tk) \<and> drop (pr_triIdx ?p) trivias = concat gs' @ tail"
    using pair_token_paired [OF Cons.prems(1) i(1), of g "concat gs' @ tail"] Cons.prems(6) gs it(1,2) i(2) by simp
  then show ?case
    using Cons.IH [of "Suc i" ?p "tok_stop tk" "pre @ [tk]" gs'] Cons.prems it(3) by simp
qed

lemma lastNonEOF_body:
  assumes "\<forall>t \<in> set body. \<not> isEOF t" "\<forall>t \<in> set ends. isEOF t"
  shows "lastNonEOF (body @ ends) = (if body = [] then None else Some (length body - 1))"
proof -
  let ?f = "\<lambda>toks acc i. if isEOF (toks ! i) then acc else Some i"
  have e: "foldl (?f (body @ es)) x [length body..<length body + length es] = x" if "\<forall>t \<in> set es. isEOF t" for es x
    using that
  proof (induction es rule: rev_induct)
    case (snoc t es)
    have "foldl (?f (body @ es @ [t])) x [length body..<length body + length es] =
        foldl (?f (body @ es)) x [length body..<length body + length es]"
      by (rule foldl_cong) (auto simp: nth_append)
    with snoc show ?case by (simp add: nth_append)
  qed simp
  have b: "foldl (?f (body @ ends)) None [0..<length body] = (if body = [] then None else Some (length body - 1))"
    using assms(1)
  proof (cases body rule: rev_cases)
    case (snoc b' t)
    then show ?thesis using assms(1) by (simp add: nth_append)
  qed simp
  have "[0..<length (body @ ends)] = [0..<length body] @ [length body..<length body + length ends]"
    by (metis length_append upt_add_eq_append zero_le)
  then show ?thesis using b e [OF assms(2)] by (simp add: lastNonEOF_def)
qed

lemma toks_fit_shape:
  assumes "toks_fit src idx b toks"
  obtains body ends where "toks = body @ ends" "\<forall>t \<in> set body. \<not> isEOF t" "\<forall>t \<in> set ends. isEOF t"
    "filter (\<lambda>t. \<not> isEOF t) toks = body" "list_all (\<lambda>t. tok_start t \<le> tok_stop t \<and> tok_stop t \<le> length src) body"
proof -
  have "\<exists>body ends. toks = body @ ends \<and> (\<forall>t \<in> set body. \<not> isEOF t) \<and> (\<forall>t \<in> set ends. isEOF t) \<and>
      list_all (\<lambda>t. tok_start t \<le> tok_stop t \<and> tok_stop t \<le> length src) body"
    using assms
  proof (induction src idx b toks rule: toks_fit.induct)
    case (2 src idx b tok toks)
    show ?case
    proof (cases "isEOF tok")
      case True
      then show ?thesis using 2 by (intro exI [of _ "[]"] exI [of _ "[tok]"]) simp
    next
      case False
      then obtain body ends where "toks = body @ ends" "\<forall>t \<in> set body. \<not> isEOF t" "\<forall>t \<in> set ends. isEOF t"
          "list_all (\<lambda>t. tok_start t \<le> tok_stop t \<and> tok_stop t \<le> length src) body"
        using 2 by auto
      then show ?thesis using False 2(2) by (intro exI [of _ "tok # body"] exI [of _ ends]) simp
    qed
  qed simp
  then obtain body ends where *: "toks = body @ ends" "\<forall>t \<in> set body. \<not> isEOF t" "\<forall>t \<in> set ends. isEOF t"
      "list_all (\<lambda>t. tok_start t \<le> tok_stop t \<and> tok_stop t \<le> length src) body" by blast
  moreover have "filter (\<lambda>t. \<not> isEOF t) toks = body" using * by (simp add: filter_id_conv)
  ultimately show thesis using that by blast
qed

lemma spans_ordered_positive: "spans_ordered lo ts hi \<Longrightarrow> \<forall>t \<in> set ts. 0 < tr_Length t"
  by (induction ts arbitrary: lo) auto

lemma pairing_tiles:
  assumes fit: "toks_fit src 0 True toks"
    and pr: "pairTriviaToTokens toks (Extract src toks) = (L, T, tail)"
  shows "tiles 0 (concat (map (attached_ivs toks (Extract src toks) L T)
      [0..<length (filter (\<lambda>t. \<not> isEOF t) toks)]) @ map (iv_at (Extract src toks)) tail) (length src)"
proof -
  let ?ts = "Extract src toks"
  obtain body ends where sh: "toks = body @ ends" "\<forall>t \<in> set body. \<not> isEOF t" "\<forall>t \<in> set ends. isEOF t"
      "filter (\<lambda>t. \<not> isEOF t) toks = body"
      "list_all (\<lambda>t. tok_start t \<le> tok_stop t \<and> tok_stop t \<le> length src) body"
    using toks_fit_shape [OF fit] .
  obtain gs rest where gs: "?ts = concat gs @ rest" "interleaved 0 body gs rest (length src)"
    using Extract_interleaved [OF fit] sh(4) by metis
  have pos: "\<forall>t \<in> set ?ts. 0 < tr_Length t" by (rule Extract_positive)
  let ?n = "length toks" and ?e = "length body" and ?m = "length ?ts"
  let ?p0 = "\<lparr>pr_leading = replicate ?n [], pr_trailing = replicate ?n [], pr_triIdx = 0, pr_prev = None\<rparr>"
  define p where "p = pair_loop toks ?ts 0 toks ?p0"
  have "paired toks ?ts 0 ?p0 0" by (simp add: paired_def)
  then obtain lo where inv: "paired toks ?ts ?e p lo" and dr: "drop (pr_triIdx p) ?ts = rest"
      and tl: "tiles lo (map tr_iv rest) (length src)"
    using pair_loop_paired [of toks ?ts 0 ?p0 0 "[]" body ends gs rest "length src"] sh gs pos
    unfolding p_def by (cases ends) auto
  have tri: "pr_triIdx p \<le> ?m" and len: "length (pr_trailing p) = ?n"
    and t1: "tiles 0 (concat (map (attached_ivs toks ?ts (pr_leading p) (pr_trailing p)) [0..<?e])) lo"
    using inv by (auto simp: paired_def)
  have mr: "pr_triIdx p + length rest = ?m" using arg_cong [OF dr, of length] tri by simp
  have run: "map (iv_at ?ts) [pr_triIdx p..<?m] = map tr_iv rest"
    using map_iv_run [of "pr_triIdx p" ?ts rest "[]"] dr mr by simp
  define ks where "ks = (if body = [] \<or> tok_Kind (toks ! (?e - 1)) = T_NEWLINE then ([], [pr_triIdx p..<?m])
      else split_run ?ts (pr_triIdx p) ?m)"
  have ks: "fst ks @ snd ks = [pr_triIdx p..<?m]" using tri by (simp add: ks_def split_run_concat)
  have res: "L = pr_leading p \<and> tail = snd ks \<and>
      T = (if body = [] then pr_trailing p else (pr_trailing p)[?e - 1 := pr_trailing p ! (?e - 1) @ fst ks])"
  proof (cases "body = []")
    case True
    then show ?thesis using pr lastNonEOF_body [OF sh(2,3)] sh(1)
      unfolding pairTriviaToTokens_def Let_def p_def [symmetric] by (simp add: ks_def)
  next
    case False
    show ?thesis
    proof (cases "pr_triIdx p < ?m")
      case True
      then show ?thesis using False pr lastNonEOF_body [OF sh(2,3)] sh(1) len
        unfolding pairTriviaToTokens_def Let_def p_def [symmetric]
        by (auto simp: ks_def add_trailing_def)
    next
      case no: False
      then have "split_run ?ts (pr_triIdx p) ?m = ([], [])"
        using tri by (simp add: split_run_def findFirstDocComment_def)
      then have "fst ks = []" "snd ks = []" using no by (simp_all add: ks_def)
      then show ?thesis using False no pr lastNonEOF_body [OF sh(2,3)] sh(1) len
        unfolding pairTriviaToTokens_def Let_def p_def [symmetric] by auto
    qed
  qed
  have e1: "concat (map (attached_ivs toks ?ts L T) [0..<?e]) =
      concat (map (attached_ivs toks ?ts (pr_leading p) (pr_trailing p)) [0..<?e]) @ map (iv_at ?ts) (fst ks)"
  proof (cases "body = []")
    case False
    then show ?thesis using attach_trailing [of ?e "pr_trailing p" toks ?ts "pr_leading p" "fst ks"] res len sh(1)
      by simp
  qed (simp add: ks_def)
  have seq: "concat (map (attached_ivs toks ?ts L T) [0..<?e]) @ map (iv_at ?ts) tail =
      concat (map (attached_ivs toks ?ts (pr_leading p) (pr_trailing p)) [0..<?e]) @ map (iv_at ?ts) [pr_triIdx p..<?m]"
    unfolding e1 ks [symmetric] map_append using res by simp
  show ?thesis unfolding sh(4) seq run
    by (rule iffD2 [OF tiles_append]) (use t1 tl in blast)
qed

section \<open>The initial state\<close>

lemma new_feed_ok:
  "feed_ok (feed_start GkFile (new_feed src toks trivias))"
proof -
  obtain L T tail where pr: "pairTriviaToTokens toks trivias = (L, T, tail)" by (cases "pairTriviaToTokens toks trivias")
  note p = pairTriviaToTokens_ok [OF pr]
  let ?a = "NewArena\<lparr>Trivias := trivias\<rparr>"
  have "tokens_ok ?a" "nodes_ok ?a"
    using NewArena_ok by (simp_all add: tokens_ok_def nodes_ok_def NewArena_def)
  then have "wf_arena ?a" by (simp add: wf_arena_def NewArena_def)
  then have "open_builder (StartNode GkFile \<lparr>arena = ?a, stack = [], root = None\<rparr>)"
    by (simp add: open_builder_def StartNode_def builder_ok_def frame_ok_def)
  then show ?thesis
    using p by (auto simp: feed_ok_def feed_start_def new_feed_def NewBuilder_def add_trivias_fresh pr
        ids_ok_def attached_in_def trivia_ids_ok_def StartNode_def list_all_iff)
qed

lemma new_feed_simps:
  assumes "pairTriviaToTokens toks trivias = (L, T, tail)"
  shows "fd_src (new_feed src toks trivias) = src" "fd_toks (new_feed src toks trivias) = toks"
    "fd_leading (new_feed src toks trivias) = L" "fd_trailing (new_feed src toks trivias) = T"
    "fd_tailTrivia (new_feed src toks trivias) = tail"
    "fd_triviaIDs (new_feed src toks trivias) = [0..<length trivias]"
    "Trivias (arena (fd_b (new_feed src toks trivias))) = trivias"
    "stack (fd_b (new_feed src toks trivias)) = []" "fd_pos (new_feed src toks trivias) = 0"
  using assms by (simp_all add: new_feed_def NewBuilder_def add_trivias_fresh)

text \<open>The green token of index \<open>j\<close>, and the leaf that carries the tail trivia, in terms of the
  attachment alone.\<close>

definition attached_token :: "bytes \<Rightarrow> Token list \<Rightarrow> Trivia list \<Rightarrow> nat \<Rightarrow> GreenToken" where
  "attached_token src toks trivias j =
     (let pr = pairTriviaToTokens toks trivias; tk = toks ! j in
      mkGreenToken (NewArena\<lparr>Trivias := trivias\<rparr>) GkToken (Kind_int (tok_Kind tk)) (token_text src tk)
        (tok_stop tk - tok_start tk) (fst pr ! j) (fst (snd pr) ! j))"

definition tail_token :: "Token list \<Rightarrow> Trivia list \<Rightarrow> GreenToken list" where
  "tail_token toks trivias =
     (let tail = snd (snd (pairTriviaToTokens toks trivias)) in
      if tail = [] then []
      else [mkGreenToken (NewArena\<lparr>Trivias := trivias\<rparr>) GkErrorMissing 0 [] 0 tail []])"

lemma mkGreenToken_Trivias:
  assumes "Trivias a = Trivias a'" shows "mkGreenToken a = mkGreenToken a'"
proof -
  have "sumTriviaWidths a = sumTriviaWidths a'" unfolding sumTriviaWidths_def assms ..
  then show ?thesis by (simp add: fun_eq_iff mkGreenToken_def)
qed

lemma same_ctx_start: "same_ctx s (feed_start k s)"
  by (simp add: same_ctx_def feed_start_def StartNode_def)

text \<open>What both drivers end with. \<open>first_eof\<close> is the index the token loop stops at.\<close>

definition first_eof :: "Token list \<Rightarrow> nat" where
  "first_eof toks = length (takeWhile (\<lambda>t. \<not> isEOF t) toks)"

definition lossless :: "bytes \<Rightarrow> Token list \<Rightarrow> Trivia list \<Rightarrow> Tree \<Rightarrow> bool" where
  "lossless src toks trivias t \<longleftrightarrow> tree_ok t \<and> tr_Source t = Some src \<and> reds t = [] \<and>
     Trivias (tr_Arena t) = trivias \<and>
     (\<exists>i. tr_Root t = Some i \<and> gn_Kind (Nodes (tr_Arena t) ! i) = GkFile \<and>
        leaves (tr_Arena t) (GctNode i) =
          map (attached_token src toks trivias) [0..<first_eof toks] @ tail_token toks trivias)"

text \<open>A driver's state at the start of its token loop.\<close>

definition begun :: "bytes \<Rightarrow> Token list \<Rightarrow> Trivia list \<Rightarrow> 'a feed_scheme \<Rightarrow> bool" where
  "begun src toks trivias s \<longleftrightarrow> feed.truncate s = feed_start GkFile (new_feed src toks trivias)"

lemma truncate_fields [simp]:
  "fd_src (feed.truncate s) = fd_src s" "fd_toks (feed.truncate s) = fd_toks s"
  "fd_leading (feed.truncate s) = fd_leading s" "fd_trailing (feed.truncate s) = fd_trailing s"
  "fd_tailTrivia (feed.truncate s) = fd_tailTrivia s" "fd_triviaIDs (feed.truncate s) = fd_triviaIDs s"
  "fd_b (feed.truncate s) = fd_b s" "fd_pos (feed.truncate s) = fd_pos s"
  by (simp_all add: feed.defs)

lemma feed_ok_truncate: "feed_ok (feed.truncate s) = feed_ok s"
  by (simp add: feed_ok_def ids_ok_def)

lemma begun_fields:
  assumes "begun src toks trivias s" "pairTriviaToTokens toks trivias = (L, T, tail)"
  shows "fd_src s = src" "fd_toks s = toks" "fd_leading s = L" "fd_trailing s = T" "fd_tailTrivia s = tail"
    "fd_triviaIDs s = [0..<length trivias]" "Trivias (arena (fd_b s)) = trivias" "fd_pos s = 0"
    "stack (fd_b s) = [\<lparr>fr_kind = GkFile, fr_children = [], fr_width = 0\<rparr>]"
proof -
  let ?n = "new_feed src toks trivias"
  have e: "feed.truncate s = feed_start GkFile ?n" using assms(1) by (simp add: begun_def)
  note n = new_feed_simps [OF assms(2), of src]
  have f: "fd_src s = fd_src ?n" "fd_toks s = fd_toks ?n" "fd_leading s = fd_leading ?n"
      "fd_trailing s = fd_trailing ?n" "fd_tailTrivia s = fd_tailTrivia ?n" "fd_triviaIDs s = fd_triviaIDs ?n"
      "fd_b s = StartNode GkFile (fd_b ?n)" "fd_pos s = fd_pos ?n"
    using arg_cong [OF e, of fd_src] arg_cong [OF e, of fd_toks] arg_cong [OF e, of fd_leading]
      arg_cong [OF e, of fd_trailing] arg_cong [OF e, of fd_tailTrivia] arg_cong [OF e, of fd_triviaIDs]
      arg_cong [OF e, of fd_b] arg_cong [OF e, of fd_pos]
    by (simp_all add: feed_start_def)
  show "fd_src s = src" "fd_toks s = toks" "fd_leading s = L" "fd_trailing s = T" "fd_tailTrivia s = tail"
    "fd_triviaIDs s = [0..<length trivias]" "Trivias (arena (fd_b s)) = trivias" "fd_pos s = 0"
    "stack (fd_b s) = [\<lparr>fr_kind = GkFile, fr_children = [], fr_width = 0\<rparr>]"
    using f n by (simp_all add: StartNode_def)
qed

lemma begun_ok: "begun src toks trivias s \<Longrightarrow> feed_ok s"
  using new_feed_ok [of src toks trivias] feed_ok_truncate [of s] by (simp add: begun_def)

lemma driver_lossless:
  assumes b: "begun src toks trivias s0"
    and s: "feed_ok s" "feed_ext s0 s" "fd_pos s = first_eof toks"
  obtains t where "feed_close s = Inr t" "lossless src toks trivias t"
proof -
  obtain L T tail where pr: "pairTriviaToTokens toks trivias = (L, T, tail)" by (cases "pairTriviaToTokens toks trivias")
  note f = begun_fields [OF b pr] and p = pairTriviaToTokens_ok [OF pr]
  have c: "same_ctx s0 s" and g: "grows (fd_b s0) (fd_b s)" using s(2) by (auto simp: feed_ext_def)
  obtain fr where st: "stack (fd_b s) = [fr]" "fr_kind fr = GkFile"
    using g f(9) unfolding grows_def by auto
  have mk: "mkGreenToken (arena (fd_b s0)) = mkGreenToken (NewArena\<lparr>Trivias := trivias\<rparr>)"
    by (rule mkGreenToken_Trivias) (simp add: f(7))
  have tr: "translateTriviaIDs (L ! j) [0..<length trivias] = L ! j"
      "translateTriviaIDs (T ! j) [0..<length trivias] = T ! j" if "j < length toks" for j
    using p that by (auto simp: attached_in_def intro!: translate_fresh)
  have e: "first_eof toks \<le> length toks" by (simp add: first_eof_def length_takeWhile_le)
  have "green_of s0 j = attached_token src toks trivias j" if "j < first_eof toks" for j
    using that e tr [of j] by (simp add: green_of_def attached_token_def Let_def mk f pr)
  then have m: "map (green_of s0) [0..<first_eof toks] = map (attached_token src toks trivias) [0..<first_eof toks]"
    by simp
  have "received s0 = []" by (simp add: received_def emitted_def f(9))
  then have r: "received s = map (attached_token src toks trivias) [0..<first_eof toks]"
    using s(2,3) m f(8) by (simp add: feed_ext_def)
  have "mkGreenToken (arena (fd_b s)) = mkGreenToken (NewArena\<lparr>Trivias := trivias\<rparr>)"
    using c f(7) by (intro mkGreenToken_Trivias) (simp add: same_ctx_def)
  then have tl: "tail_leaf s = tail_token toks trivias"
    using c f p(5) by (simp add: tail_leaf_def tail_token_def Let_def pr same_ctx_def translate_fresh)
  obtain t i where t: "feed_close s = Inr t" "tree_ok t" "tr_Root t = Some i" "tr_Source t = Some (fd_src s)"
    "reds t = []" "Trivias (tr_Arena t) = Trivias (arena (fd_b s))" "i < length (Nodes (tr_Arena t))"
    "gn_Kind (Nodes (tr_Arena t) ! i) = fr_kind fr"
    "leaves (tr_Arena t) (GctNode i) = received s @ tail_leaf s"
    using feed_close_ok [OF s(1) st(1)] .
  have "lossless src toks trivias t"
    using t c f(1,7) st(2) r tl by (simp add: lossless_def same_ctx_def)
  with t(1) that show thesis by blast
qed

lemma at_end_first_eof:
  assumes "feed_ok s" "at_end s" "\<forall>j < fd_pos s. \<not> isEOF (fd_toks s ! j)"
  shows "fd_pos s = first_eof (fd_toks s)"
proof -
  have le: "fd_pos s \<le> length (fd_toks s)" using assms(1) by (simp add: feed_ok_def)
  have "takeWhile (\<lambda>t. \<not> isEOF t) (fd_toks s) = take (fd_pos s) (fd_toks s)"
    using assms le by (intro takeWhile_eq_take_P_nth) (auto simp: at_end_def)
  then show ?thesis using le by (simp add: first_eof_def)
qed

text \<open>Whatever the spans, the tokens and the trivia, building returns a tree, and the leaves of
  its File node are the tokens before EOF, each once and in order, and the tail trivia.\<close>

lemma BuildFromSyntaxSpans_total:
  obtains t where "BuildFromSyntaxSpans src spans toks trivias = Inr t" "lossless src toks trivias t"
proof -
  let ?s0 = "feed_start GkFile (new_feed src toks trivias)"
  have b: "begun src toks trivias ?s0" by (simp add: begun_def feed.defs)
  obtain L T tail where pr: "pairTriviaToTokens toks trivias = (L, T, tail)" by (cases "pairTriviaToTokens toks trivias")
  note f = begun_fields [OF b pr]
  define r where "r = bindR (emitChildren (sanitizeSyntaxChildren spans 0 (length src)) ?s0) emit_rest"
  have "goes ?s0 r" unfolding r_def
    by (intro goes_bind emitSpans_go emit_rest_goes begun_ok [OF b])
  then obtain s where s: "r = Inr s" "feed_ok s" "feed_ext ?s0 s" by (auto simp: goes_def)
  have "at_end s"
  proof -
    obtain s1 where "emitChildren (sanitizeSyntaxChildren spans 0 (length src)) ?s0 = Inr s1" "feed_ok s1"
      using emitSpans_go(2) [OF begun_ok [OF b]] by (auto simp: goes_def)
    then show ?thesis using s(1) emit_rest_at_end [of s1 s] by (simp add: r_def)
  qed
  moreover have "\<forall>j < fd_pos s. \<not> isEOF (fd_toks s ! j)" "fd_toks s = toks"
    using s(3) f by (auto simp: feed_ext_def same_ctx_def)
  ultimately have "fd_pos s = first_eof toks" using at_end_first_eof [OF s(2)] by simp
  then obtain t where "feed_close s = Inr t" "lossless src toks trivias t"
    using driver_lossless [OF b s(2,3)] by blast
  then show thesis using that s(1) by (simp add: BuildFromSyntaxSpans_def Let_def r_def)
qed

section \<open>Every trivia is attached once, in order\<close>

definition attached :: "nat list list \<Rightarrow> nat list list \<Rightarrow> nat \<Rightarrow> nat list" where
  "attached L T n = concat (map (\<lambda>j. L ! j @ T ! j) [0..<n])"

lemma attached_split:
  assumes "j < n" "\<forall>k. j < k \<and> k < n \<longrightarrow> L ! k = [] \<and> T ! k = []"
  shows "attached L T n = attached L T j @ L ! j @ T ! j"
proof -
  have "[0..<n] = [0..<j] @ j # [Suc j..<n]" using assms(1) by (metis upt_conv_Cons upt_add_eq_append le_add_diff_inverse less_imp_le zero_le)
  moreover have "concat (map (\<lambda>j. L ! j @ T ! j) [Suc j..<n]) = []" using assms(2) by simp
  ultimately show ?thesis by (simp add: attached_def)
qed

lemma attached_cong:
  "(\<And>k. k < j \<Longrightarrow> L ! k = L' ! k \<and> T ! k = T' ! k) \<Longrightarrow> attached L T j = attached L' T' j"
  unfolding attached_def by (intro arg_cong [where f = concat] map_cong) auto

lemma attached_trailing:
  assumes "j < n" "n \<le> length T" "\<forall>k. j < k \<and> k < n \<longrightarrow> L ! k = [] \<and> T ! k = []"
  shows "attached L (T[j := T ! j @ ks]) n = attached L T n @ ks"
proof -
  have "attached L (T[j := T ! j @ ks]) j = attached L T j" by (rule attached_cong) simp
  then show ?thesis
    using attached_split [OF assms(1,3)] attached_split [of j n L "T[j := T ! j @ ks]"] assms by simp
qed

lemma attached_leading:
  assumes "j < n" "n \<le> length L" "\<forall>k. j < k \<and> k < n \<longrightarrow> L ! k = [] \<and> T ! k = []" "T ! j = []"
  shows "attached (L[j := L ! j @ ks]) T n = attached L T n @ ks"
proof -
  have "attached (L[j := L ! j @ ks]) T j = attached L T j" by (rule attached_cong) simp
  then show ?thesis
    using attached_split [OF assms(1,3)] attached_split [of j n "L[j := L ! j @ ks]" T] assms by simp
qed

definition in_order :: "nat \<Rightarrow> nat \<Rightarrow> nat \<Rightarrow> pairing \<Rightarrow> bool" where
  "in_order n m i p \<longleftrightarrow> length (pr_leading p) = n \<and> length (pr_trailing p) = n \<and>
     pr_prev p = (if i = 0 then None else Some (i - 1)) \<and> pr_triIdx p \<le> m \<and> i \<le> n \<and>
     (\<forall>k. i \<le> k \<and> k < n \<longrightarrow> pr_leading p ! k = [] \<and> pr_trailing p ! k = []) \<and>
     attached (pr_leading p) (pr_trailing p) n = [0..<pr_triIdx p]"

lemma in_order_step:
  assumes inv: "in_order n (length trivias) i p" and i: "i < n"
  shows "in_order n (length trivias) (Suc i) (pair_token toks trivias i tk p)"
proof -
  let ?lo = "pr_triIdx p" and ?L = "pr_leading p" and ?T = "pr_trailing p"
  define hi where "hi = scan_while (\<lambda>t. tr_Offset t + tr_Length t \<le> tok_start tk) trivias ?lo"
  have len: "length ?L = n" "length ?T = n" "\<forall>k. i \<le> k \<and> k < n \<longrightarrow> ?L ! k = [] \<and> ?T ! k = []"
    and le: "?lo \<le> length trivias" and att: "attached ?L ?T n = [0..<?lo]"
    using inv by (auto simp: in_order_def)
  have b: "?lo \<le> hi" "hi \<le> length trivias" unfolding hi_def using le by (auto intro: scan_while_ge scan_while_le)
  define ks where "ks = (if i = 0 \<or> tok_Kind (toks ! (i - 1)) = T_NEWLINE then ([], [?lo..<hi])
      else split_run trivias ?lo hi)"
  have ks: "fst ks @ snd ks = [?lo..<hi]" using b by (simp add: ks_def split_run_concat)
  define T where "T = (if i = 0 then ?T else ?T[i - 1 := ?T ! (i - 1) @ fst ks])"
  have step: "pair_token toks trivias i tk p = \<lparr>pr_leading = ?L[i := ?L ! i @ snd ks], pr_trailing = T,
      pr_triIdx = hi, pr_prev = Some i\<rparr>"
    using inv hi_def by (cases p) (auto simp: pair_token_def Let_def in_order_def ks_def T_def add_leading_def
        add_trailing_def split: if_splits)
  have T: "attached ?L T n = attached ?L ?T n @ fst ks" "length T = n" "\<forall>k. i \<le> k \<and> k < n \<longrightarrow> T ! k = []"
  proof -
    have prev: "\<forall>k. i - 1 < k \<and> k < n \<longrightarrow> ?L ! k = [] \<and> ?T ! k = []" if "0 < i"
    proof (intro allI impI)
      fix k assume "i - 1 < k \<and> k < n"
      then have "i \<le> k \<and> k < n" using that by auto
      then show "?L ! k = [] \<and> ?T ! k = []" using len(3) by blast
    qed
    show "attached ?L T n = attached ?L ?T n @ fst ks"
      using attached_trailing [of "i - 1" n ?T ?L "fst ks", OF _ _ prev] len(2) i
      by (cases "i = 0") (simp_all add: T_def ks_def)
    show "length T = n" "\<forall>k. i \<le> k \<and> k < n \<longrightarrow> T ! k = []" using len i by (auto simp: T_def)
  qed
  have "attached (?L[i := ?L ! i @ snd ks]) T n = attached ?L T n @ snd ks"
    using attached_leading [of i n ?L T "snd ks"] len T i by simp
  also have "\<dots> = [0..<?lo] @ [?lo..<hi]" using T(1) att ks by simp
  also have "\<dots> = [0..<hi]" using b(1) by (metis le_add_diff_inverse upt_add_eq_append zero_le)
  finally show ?thesis using len T b i unfolding step by (auto simp: in_order_def)
qed

lemma in_order_loop:
  assumes "in_order (length toks) (length trivias) i p" "rest = drop i toks"
  shows "\<exists>j. in_order (length toks) (length trivias) j (pair_loop toks trivias i rest p) \<and>
    (\<forall>k < j - i. \<not> isEOF (toks ! (i + k))) \<and> i \<le> j"
  using assms
proof (induction rest arbitrary: i p)
  case (Cons tk rest)
  show ?case
  proof (cases "isEOF tk")
    case True
    then have "pair_loop toks trivias i (tk # rest) p = p" by simp
    then show ?thesis using Cons.prems(1) by (intro exI [of _ i]) simp
  next
    case False
    have i: "i < length toks" "toks ! i = tk" "rest = drop (Suc i) toks"
      using Cons.prems(2) by (metis drop_all linorder_not_less list.distinct(1), metis nth_via_drop,
          metis drop_Suc list.sel(3) tl_drop)
    obtain j where j: "in_order (length toks) (length trivias) j
        (pair_loop toks trivias (Suc i) rest (pair_token toks trivias i tk p))"
        "\<forall>k < j - Suc i. \<not> isEOF (toks ! (Suc i + k))" "Suc i \<le> j"
      using Cons.IH [OF in_order_step [OF Cons.prems(1) i(1)] i(3)] by blast
    have "\<not> isEOF (toks ! (i + k))" if "k < j - i" for k
      using j(2) [rule_format, of "k - 1"] that False i(2) by (cases k) auto
    with j False show ?thesis by (intro exI [of _ j]) auto
  qed
next
  case Nil
  then show ?case by (intro exI [of _ i]) simp
qed

lemma lastNonEOF_ge:
  assumes "j < length toks" "\<not> isEOF (toks ! j)"
  obtains l where "lastNonEOF toks = Some l" "j \<le> l" "l < length toks"
proof -
  have "\<exists>l. foldl (\<lambda>acc i. if isEOF (toks ! i) then acc else Some i) None [0..<n] = Some l \<and> j \<le> l \<and> l < n"
    if "j < n" for n
    using that
  proof (induction n)
    case (Suc n)
    then show ?case using assms(2) by (cases "j = n"; cases "isEOF (toks ! n)") auto
  qed simp
  from this [OF assms(1)] that show thesis by (auto simp: lastNonEOF_def)
qed

lemma lastNonEOF_bound: "lastNonEOF toks = Some l \<Longrightarrow> l < length toks"
proof -
  have "foldl (\<lambda>acc i. if isEOF (toks ! i) then acc else Some i) None [0..<n] = Some l \<Longrightarrow> l < n" for n l
    by (induction n) (auto split: if_splits simp: less_SucI)
  then show "lastNonEOF toks = Some l \<Longrightarrow> l < length toks" by (simp add: lastNonEOF_def)
qed

lemma pairing_in_order:
  assumes "pairTriviaToTokens toks trivias = (L, T, tail)"
  shows "attached L T (length toks) @ tail = [0..<length trivias]"
proof -
  let ?n = "length toks" and ?m = "length trivias"
  let ?p0 = "\<lparr>pr_leading = replicate ?n [], pr_trailing = replicate ?n [], pr_triIdx = 0, pr_prev = None\<rparr>"
  define p where "p = pair_loop toks trivias 0 toks ?p0"
  have "in_order ?n ?m 0 ?p0" by (simp add: in_order_def attached_def concat_eq_Nil_conv)
  then obtain j where j: "in_order ?n ?m j p" "\<forall>k < j. \<not> isEOF (toks ! k)"
    using in_order_loop [of toks trivias 0 ?p0 toks] unfolding p_def by auto
  let ?tri = "pr_triIdx p"
  have o: "length (pr_trailing p) = ?n" "?tri \<le> ?m" "j \<le> ?n"
      "\<forall>k. j \<le> k \<and> k < ?n \<longrightarrow> pr_leading p ! k = [] \<and> pr_trailing p ! k = []"
      "attached (pr_leading p) (pr_trailing p) ?n = [0..<?tri]"
    using j(1) by (auto simp: in_order_def)
  have whole: "[0..<?tri] @ [?tri..<?m] = [0..<?m]" using o(2) by (metis le_add_diff_inverse upt_add_eq_append zero_le)
  show ?thesis
  proof (cases "lastNonEOF toks")
    case None
    then show ?thesis using assms o(5) whole
      unfolding pairTriviaToTokens_def Let_def p_def [symmetric] by auto
  next
    case (Some l)
    have l: "l < ?n" using lastNonEOF_bound [OF Some] .
    have "j \<le> Suc l"
    proof (cases j)
      case (Suc j')
      then show ?thesis using lastNonEOF_ge [of j' toks] j(2) o(3) Some by (metis Suc_le_eq Suc_le_mono lessI option.inject)
    qed simp
    then have later: "\<forall>k. l < k \<and> k < ?n \<longrightarrow> pr_leading p ! k = [] \<and> pr_trailing p ! k = []" using o(4) by auto
    show ?thesis
    proof (cases "?tri < ?m \<and> tok_Kind (toks ! l) \<noteq> T_NEWLINE")
      case True
      let ?r = "split_run trivias ?tri ?m"
      have "L = pr_leading p" "T = (pr_trailing p)[l := pr_trailing p ! l @ fst ?r]" "tail = snd ?r"
        using assms Some True unfolding pairTriviaToTokens_def Let_def p_def [symmetric]
        by (auto simp: add_trailing_def)
      then show ?thesis
        using attached_trailing [OF l _ later, of "fst ?r"] o(1,5) split_run_concat [OF o(2), of trivias] whole by simp
    next
      case False
      then have "L = pr_leading p" "T = pr_trailing p" "tail = [?tri..<?m]"
        using assms Some unfolding pairTriviaToTokens_def Let_def p_def [symmetric] by (auto split: if_splits)
      then show ?thesis using o(5) whole by simp
    qed
  qed
qed

section \<open>Sanitised spans\<close>

text \<open>Direct children in order, disjoint, inside \<open>[lo, hi]\<close>, with a real kind, and the same below
  each of them.\<close>

function nested :: "nat \<Rightarrow> SyntaxSpan list \<Rightarrow> nat \<Rightarrow> bool" where
  "nested lo [] hi \<longleftrightarrow> True"
| "nested lo (SyntaxSpan a b k cs # rest) hi \<longleftrightarrow>
     lo \<le> a \<and> a \<le> b \<and> b \<le> hi \<and> k \<noteq> GkNone \<and> nested a cs b \<and> nested b rest hi"
  by pat_completeness auto
termination by (relation "measure (\<lambda>(lo, cs, hi). size_list size cs)") auto

definition span_fine :: "nat \<Rightarrow> SyntaxSpan \<Rightarrow> bool" where
  "span_fine hi s \<longleftrightarrow> ss_Start s \<le> ss_End s \<and> ss_End s \<le> hi \<and> ss_Kind s \<noteq> GkNone \<and>
     nested (ss_Start s) (ss_Children s) (ss_End s)"

lemma drop_overlaps_nested:
  "\<forall>s \<in> set cs. span_fine hi s \<Longrightarrow> nested cur (drop_overlaps cur cs) hi"
proof (induction cur cs rule: drop_overlaps.induct)
  case (2 cur c cs)
  obtain a b k ch where c: "c = SyntaxSpan a b k ch" by (cases c)
  show ?case
  proof (cases "a < cur")
    case True
    then show ?thesis using 2 c by simp
  next
    case False
    have f: "a \<le> b" "b \<le> hi" "k \<noteq> GkNone" "nested a ch b" using 2(3) c by (auto simp: span_fine_def)
    have cur': "(if cur < ss_End c then ss_End c else cur) = b" using False f(1) c by simp
    have "\<not> ss_Start c < cur" "\<forall>s \<in> set cs. span_fine hi s" using False 2(3) c by auto
    from 2(2) [OF this] have ih: "nested b (drop_overlaps b cs) hi" unfolding cur' .
    have "drop_overlaps cur (c # cs) = c # drop_overlaps b cs"
      unfolding drop_overlaps.simps cur' using \<open>\<not> ss_Start c < cur\<close> by simp
    then show ?thesis using False f c ih by simp
  qed
qed simp

lemma sanitize_nested:
  "nested lo (sanitizeSyntaxChildren cs lo hi) (max lo hi)"
proof (induction cs lo hi rule: sanitizeSyntaxChildren.induct)
  case (1 cs a b)
  define e where "e = (if b < a then a else b)"
  define g where "g = (\<lambda>child. SyntaxSpan (ss_Start child) (ss_End child) (ss_Kind child)
      (sanitizeSyntaxChildren (ss_Children child) (ss_Start child) (ss_End child)))"
  define out where "out = map g (filter (span_accepted a e) cs)"
  have eq: "sanitizeSyntaxChildren cs a b = drop_overlaps a (sort_key span_key out)"
    by (simp add: sanitizeSyntaxChildren.simps [of cs a b] e_def out_def g_def Let_def)
  have "span_fine e (g c)" if "c \<in> set (filter (span_accepted a e) cs)" for c
    using "1.IH" [OF e_def that] that by (auto simp: g_def span_fine_def span_accepted_def max_def)
  then have "\<forall>s \<in> set (sort_key span_key out). span_fine e s" by (auto simp: out_def)
  moreover have "e = max a b" by (simp add: e_def max_def)
  ultimately show ?case unfolding eq using drop_overlaps_nested by blast
qed

section \<open>Theorems\<close>

text \<open>C34. Building is total and keeps every token: whatever spans, tokens and trivia it is given,
  \<open>BuildFromSyntaxSpans\<close> never panics; the leaves of the File root, left to right, are the
  tokens before EOF with their attached trivia, each exactly once and in order, and the
  leaf with the tail trivia.\<close>

theorem Build_total_lossless:
  "\<exists>t. BuildFromSyntaxSpans src spans toks trivias = Inr t \<and> lossless src toks trivias t"
  using BuildFromSyntaxSpans_total by metis

text \<open>C21. Trivia attachment loses and duplicates nothing, for any tokens and trivia: reading off
  the leading and trailing lists of the tokens in order and then the tail gives the indices
  of all trivia in source order.\<close>

theorem pairTriviaToTokens_in_order:
  "(case pairTriviaToTokens toks trivias of (leading, trailing, tailTrivia) \<Rightarrow>
      length leading = length toks \<and> length trailing = length toks \<and>
      concat (map (\<lambda>j. leading ! j @ trailing ! j) [0..<length toks]) @ tailTrivia = [0..<length trivias])"
proof -
  obtain L T tail where pr: "pairTriviaToTokens toks trivias = (L, T, tail)" by (cases "pairTriviaToTokens toks trivias")
  then show ?thesis using pairing_in_order [OF pr] pairTriviaToTokens_ok(1,2) [OF pr] by (simp add: attached_def)
qed

text \<open>\<open>sanitizeSyntaxChildren\<close> turns any span tree into one whose siblings are in order and
  disjoint and whose children lie inside their parent, at every depth.\<close>

theorem sanitizeSyntaxChildren_nested:
  "nested parentStart (sanitizeSyntaxChildren children parentStart parentEnd) (max parentStart parentEnd)"
  by (rule sanitize_nested)

end
