(* ===== verification/CST_Validate.thy ===== *)
theory CST_Validate
  imports CST_Build
begin

text \<open>
  \<^verbatim>\<open>src/internal/cst/validate.go\<close>: the invariant checker and the reconstruction of the
  source from a tree. A nil tree or arena is not a value of the model. Offsets and lengths
  are naturals, so the checks for negative ones never fire and have no branch here.
  Theorems: reconstructing a tree that \<open>BuildFromSyntaxSpans\<close> made gives back the source, and
  the only complaint the checker can have about such a tree is a structural node of width 0.
\<close>

section \<open>Reports\<close>

record ValidationError =
  ve_Message :: string
  ve_Kind :: GreenKind
  ve_Offset :: nat
  ve_End :: nat

definition ValidationError_Error :: "ValidationError \<Rightarrow> string" where
  "ValidationError_Error e =
     (if ve_Kind e = GkNone then ve_Message e
      else ve_Message e @ '' at '' @ GreenKind_String (ve_Kind e) @ ''['' @ itoa (ve_Offset e) @ '','' @
           itoa (ve_End e) @ '')'')"

record ValidationReport =
  vr_Errors :: "ValidationError list"

definition report_OK :: "ValidationReport \<Rightarrow> bool" where
  "report_OK r \<longleftrightarrow> length (vr_Errors r) = 0"

definition report_Error :: "ValidationReport \<Rightarrow> string" where
  "report_Error r =
     (case vr_Errors r of
        [] \<Rightarrow> []
      | [e] \<Rightarrow> ValidationError_Error e
      | e # es \<Rightarrow> ValidationError_Error e @ ''; and '' @ itoa (length es) @ '' more'')"

section \<open>Reconstruction\<close>

definition emitTrivia :: "Tree \<Rightarrow> nat list \<Rightarrow> bytes" where
  "emitTrivia t indices =
     concat (map (\<lambda>i. if i \<ge> length (Trivias (tr_Arena t)) then []
         else (let tr = Trivias (tr_Arena t) ! i; lo = tr_Offset tr; hi0 = tr_Offset tr + tr_Length tr;
                   hi = (if hi0 > length (source_bytes t) then length (source_bytes t) else hi0)
               in if lo < hi then slice (source_bytes t) lo hi else []))
       indices)"

definition reconstruct_visit :: "bytes visitor" where
  "reconstruct_visit r st =
     (if \<not> IsToken r then Inr (True, st)
      else bindR (red_Token (fst st) r)
        (\<lambda>tok. Inr (True, fst st, snd st @ emitTrivia (fst st) (gt_LeadingTrivia tok) @ gt_Text tok @
                     emitTrivia (fst st) (gt_TrailingTrivia tok))))"

definition Reconstruct :: "Tree \<Rightarrow> (bytes \<times> Tree) res" where
  "Reconstruct t =
     bindR (Root t) (\<lambda>x. bindR (Walk (tree_fuel t) reconstruct_visit (fst x) (snd x, []))
       (\<lambda>y. Inr (snd y, fst y)))"

section \<open>Validation\<close>

definition complain :: "GreenKind \<Rightarrow> nat \<Rightarrow> nat \<Rightarrow> string \<Rightarrow> bool \<Rightarrow> ValidationError list" where
  "complain kind lo hi msg bad =
     (if bad then [\<lparr>ve_Message = msg, ve_Kind = kind, ve_Offset = lo, ve_End = hi\<rparr>] else [])"

abbreviation complain_at :: "Tree \<Rightarrow> Red \<Rightarrow> string \<Rightarrow> bool \<Rightarrow> ValidationError list" where
  "complain_at t r \<equiv> complain (red_Kind t r) (red_absoluteOffset r) (red_End t r)"

definition escapes :: "Tree \<Rightarrow> nat \<Rightarrow> nat \<Rightarrow> bool" where
  "escapes t lo hi \<longleftrightarrow> tr_Source t \<noteq> None \<and> (hi < lo \<or> hi > length (source_bytes t))"

definition validateTokenRed :: "Tree \<Rightarrow> Red \<Rightarrow> ValidationError list res" where
  "validateTokenRed t r =
     bindR (red_Token t r) (\<lambda>tok.
       Inr (complain_at t r ''token width does not match text length'' (gt_Width tok \<noteq> length (gt_Text tok)) @
            complain_at t r ''token leading width does not match trivia''
              (gt_LeadingWidth tok \<noteq> sumTriviaWidths (tr_Arena t) (gt_LeadingTrivia tok)) @
            complain_at t r ''token trailing width does not match trivia''
              (gt_TrailingWidth tok \<noteq> sumTriviaWidths (tr_Arena t) (gt_TrailingTrivia tok)) @
            complain_at t r (''red token width = '' @ itoa (red_Width t r) @ '', want '' @ itoa (TotalWidth tok))
              (red_Width t r \<noteq> TotalWidth tok) @
            (case TokenTextRange t r of
               None \<Rightarrow> complain_at t r ''token text range is invalid'' True
             | Some (start, stop) \<Rightarrow>
                 complain_at t r ''token text range is invalid'' (stop - start \<noteq> gt_Width tok) @
                 complain (red_Kind t r) start stop ''token text range escapes source'' (escapes t start stop))))"

text \<open>The child loop of \<open>validateNodeRed\<close> carries the errors, the width sum and the end of the
  previous child.\<close>

definition validate_child ::
  "Red \<Rightarrow> nat \<Rightarrow> Tree \<times> ValidationError list \<times> nat \<times> nat \<Rightarrow> (Tree \<times> ValidationError list \<times> nat \<times> nat) res" where
  "validate_child r i st =
     bindR (ChildAt (fst st) r i) (\<lambda>x.
       (let t = snd x; errs = fst (snd st); sum = fst (snd (snd st)); prevHi = snd (snd (snd st));
            lo = red_absoluteOffset (fst x); hi = red_End t (fst x)
        in Inr (t, errs @
               complain_at t r (''child '' @ itoa i @ '' overlaps previous sibling'') (lo < prevHi) @
               complain_at t r (''child '' @ itoa i @ '' escapes parent'')
                 (lo < red_absoluteOffset r \<or> hi > red_End t r),
             sum + red_Width t (fst x), hi)))"

definition validateNodeRed :: "Tree \<Rightarrow> Red \<Rightarrow> (Tree \<times> ValidationError list) res" where
  "validateNodeRed t r =
     bindR (red_Node t r) (\<lambda>node.
       bindR (foldR (validate_child r) [0..<ChildCount t r]
                (t, complain_at t r ''node width and red width disagree'' (gn_Width node \<noteq> red_Width t r),
                 0, red_absoluteOffset r))
         (\<lambda>st. (let t' = fst st; errs = fst (snd st); sum = fst (snd (snd st)) in
           Inr (t', errs @
             complain_at t' r (''node child widths sum to '' @ itoa sum @ '', want '' @ itoa (gn_Width node))
               (sum \<noteq> gn_Width node) @
             complain_at t' r ''structural node has non-positive width''
               (red_Kind t' r \<noteq> GkFile \<and> \<not> IsError (red_Kind t' r) \<and> red_Width t' r = 0)))))"

definition validate_visit :: "ValidationError list visitor" where
  "validate_visit r st =
     (let t = fst st; errs = snd st; lo = red_absoluteOffset r; hi = red_End t r in
      if escapes t lo hi
      then Inr (True, t, errs @ complain (red_Kind t r) lo hi ''red range escapes source'' True)
      else if IsToken r
      then bindR (validateTokenRed t r) (\<lambda>es. Inr (True, t, errs @ es))
      else bindR (validateNodeRed t r) (\<lambda>x. Inr (True, fst x, errs @ snd x)))"

definition trivia_errors :: "Tree \<Rightarrow> ValidationError list" where
  "trivia_errors t =
     concat (map (\<lambda>i. let tr = Trivias (tr_Arena t) ! i; lo = tr_Offset tr; hi = tr_Offset tr + tr_Length tr in
         complain GkTrivia lo hi (''trivia '' @ itoa i @ '' escapes source'')
           (tr_Source t \<noteq> None \<and> hi > length (source_bytes t)))
       [0..<length (Trivias (tr_Arena t))])"

definition ValidateTree :: "Tree \<Rightarrow> (ValidationReport \<times> Tree) res" where
  "ValidateTree t =
     (case tr_Root t of
        None \<Rightarrow> Inr (\<lparr>vr_Errors = complain GkNone 0 0 ''root id is out of range'' True\<rparr>, t)
      | Some i \<Rightarrow>
          if i \<ge> length (Nodes (tr_Arena t))
          then Inr (\<lparr>vr_Errors = complain GkNone 0 0 ''root id is out of range'' True\<rparr>, t)
          else bindR (Root t) (\<lambda>x.
            (let r = fst x; t1 = snd x;
                 errs = complain_at t1 r ''root is not File'' (red_Kind t1 r \<noteq> GkFile) @
                        complain_at t1 r ''root width does not match source length''
                          (tr_Source t1 \<noteq> None \<and> red_Width t1 r \<noteq> length (source_bytes t1)) @
                        trivia_errors t1
             in bindR (Walk (tree_fuel t1) validate_visit r (t1, errs)) (\<lambda>y.
                  if tr_Source (fst y) = None then Inr (\<lparr>vr_Errors = snd y\<rparr>, fst y)
                  else bindR (Reconstruct (fst y)) (\<lambda>z.
                    Inr (\<lparr>vr_Errors = snd y @
                             complain GkFile 0 (red_End (snd z) r) ''tree reconstruction does not match source''
                               (fst z \<noteq> source_bytes (snd z))\<rparr>, snd z))))))"

section \<open>Reconstruction collects the leaves\<close>

definition leaf_bytes :: "Tree \<Rightarrow> GreenToken \<Rightarrow> bytes" where
  "leaf_bytes t tok = emitTrivia t (gt_LeadingTrivia tok) @ gt_Text tok @ emitTrivia t (gt_TrailingTrivia tok)"

definition place_bytes :: "Tree \<Rightarrow> nat \<times> GreenChild \<Rightarrow> bytes" where
  "place_bytes t x = (case snd x of GctToken i \<Rightarrow> leaf_bytes t (Tokens (tr_Arena t) ! i) | GctNode _ \<Rightarrow> [])"

lemma emitTrivia_later: "later t0 t \<Longrightarrow> emitTrivia t = emitTrivia t0"
proof -
  assume l: "later t0 t"
  then have "source_bytes t = source_bytes t0" using tree_le_same(8) [OF laterD(2)] by blast
  with laterD(3) [OF l] show ?thesis unfolding emitTrivia_def by (simp only:)
qed

lemma map_snd_placed: "map snd (placed a off cs) = cs"
  by (induction a off cs rule: placed.induct) simp_all

lemma leaves_preorder:
  assumes "wf_arena a" "child_ok (length (Nodes a)) (length (Tokens a)) (snd x)"
  shows "concat (map (\<lambda>y. case snd y of GctToken i \<Rightarrow> f (Tokens a ! i) | GctNode _ \<Rightarrow> []) (preorder a x)) =
    concat (map f (leaves a (snd x)))"
  using assms
proof (induction a x rule: preorder.induct)
  case (1 a off i)
  then show ?case by simp
next
  case (2 a off i)
  then have i: "i < length (Nodes a)" by simp
  let ?g = "\<lambda>y. case snd y of GctToken i \<Rightarrow> f (Tokens a ! i) | GctNode _ \<Rightarrow> []"
  let ?cs = "placed a off (gn_Children (Nodes a ! i))"
  have ih: "concat (map ?g (preorder a x)) = concat (map f (leaves a (snd x)))" if x: "x \<in> set ?cs" for x
  proof -
    note c = wf_arena_child [OF "2.prems"(1) i placed_child [OF x]]
    show ?thesis using "2.IH" [OF x rank_child_ok [OF c(1)] "2.prems"(1) c(2)] .
  qed
  have "concat (map ?g (preorder a (off, GctNode i))) = concat (map (\<lambda>x. concat (map ?g (preorder a x))) ?cs)"
    by (simp add: preorder_node [OF "2.prems"(1) i] map_concat concat_concat o_def)
  also have "\<dots> = concat (map (\<lambda>x. concat (map f (leaves a (snd x)))) ?cs)"
    by (rule arg_cong [where f = concat], rule map_cong [OF refl], rule ih)
  also have "\<dots> = concat (map (\<lambda>c. concat (map f (leaves a c))) (map snd ?cs))" by (simp add: o_def)
  also have "map snd ?cs = gn_Children (Nodes a ! i)" by (rule map_snd_placed)
  finally show ?case by (simp add: leaves_node [OF "2.prems"(1) i] map_concat concat_concat o_def)
qed

lemma Reconstruct_leaves:
  assumes "tree_ok t" "tr_Root t = Some i"
  obtains t' where "Reconstruct t = Inr (concat (map (leaf_bytes t) (leaves (tr_Arena t) (GctNode i))), t')"
    "later t t'"
proof -
  obtain j t1 where r: "Root t = Inr (root_red j, t1)" "tr_Root t = Some j" "tree_ok t1" "tree_le t t1"
      "handle t1 (root_red j)" "j < length (Nodes (tr_Arena t))" using Root_spec [OF assms(1)] .
  have l1: "later t t1" using r by (simp add: later_def)
  have a: "tr_Arena t1 = tr_Arena t" using laterD(3) [OF l1] .
  have visit: "\<exists>t''. reconstruct_visit r (t', acc) = Inr (True, t'', acc @ place_bytes t (loc r)) \<and> later t' t''"
    if "later t t'" "handle t' r" for t' acc r
    using that laterD [OF that(1)] emitTrivia_later [OF that(1)]
    by (cases "red_child r") (auto simp: reconstruct_visit_def IsToken_def red_Token_def place_bytes_def loc_def
        leaf_bytes_def later_refl)
  have "rank (red_child (root_red j)) \<le> tree_fuel t"
    using r(6) by (simp add: root_red_def rank_def tree_fuel_def)
  from Walk_preorder [where P = "\<lambda>_. True" and t = t1 and acc = "[]" and g = "place_bytes t"
      and visit = reconstruct_visit, OF visit _ this l1 r(5)]
  obtain t2 where t2: "Walk (tree_fuel t) reconstruct_visit (root_red j) (t1, []) =
      Inr (t2, concat (map (place_bytes t) (preorder (tr_Arena t) (loc (root_red j)))))" "later t1 t2" by auto
  have "wf_arena (tr_Arena t)" using assms(1) by (simp add: tree_ok_def)
  from leaves_preorder [OF this, of "loc (root_red j)" "leaf_bytes t"] r(6)
  have "concat (map (place_bytes t) (preorder (tr_Arena t) (loc (root_red j)))) =
      concat (map (leaf_bytes t) (leaves (tr_Arena t) (GctNode j)))"
    by (simp add: place_bytes_def [abs_def] loc_def root_red_def)
  with t2 r(1,2) assms(2) that later_trans [OF l1 t2(2)] show thesis by (simp add: Reconstruct_def)
qed

section \<open>Reconstruction gives back the source\<close>

lemma emitTrivia_slices:
  assumes "tr_Source t = Some src" "Trivias (tr_Arena t) = trivias" "\<forall>k \<in> set ks. k < length trivias"
    and "\<forall>k \<in> set ks. snd (iv_at trivias k) \<le> length src"
  shows "emitTrivia t ks = concat (map (\<lambda>(a, b). slice src a b) (map (iv_at trivias) ks))"
proof -
  have "source_bytes t = src" using assms(1) by (simp add: source_bytes_def)
  then have "emitTrivia t ks = concat (map (\<lambda>k. slice src (tr_Offset (trivias ! k)) (tr_stop (trivias ! k))) ks)"
    unfolding emitTrivia_def assms(2)
    using assms(3,4) by (intro arg_cong [where f = concat] map_cong) (auto simp: Let_def tr_iv_def slice_def)
  then show ?thesis by (simp add: tr_iv_def o_def)
qed

lemma attached_token_bytes:
  assumes t: "tr_Source t = Some src" "Trivias (tr_Arena t) = trivias"
    and pr: "pairTriviaToTokens toks trivias = (L, T, tail)" and j: "j < length toks"
    and iv: "\<forall>iv \<in> set (attached_ivs toks trivias L T j). fst iv \<le> snd iv \<and> snd iv \<le> length src"
  shows "leaf_bytes t (attached_token src toks trivias j) =
    concat (map (\<lambda>(a, b). slice src a b) (attached_ivs toks trivias L T j))"
proof -
  note p = pairTriviaToTokens_ok [OF pr]
  have "L ! j \<in> set L" "T ! j \<in> set T" using p(1,2) j by simp_all
  then have "\<forall>k \<in> set (L ! j). k < length trivias" "\<forall>k \<in> set (T ! j). k < length trivias"
    using p(3,4) unfolding attached_in_def by blast+
  moreover have "\<forall>k \<in> set (L ! j). snd (iv_at trivias k) \<le> length src"
      "\<forall>k \<in> set (T ! j). snd (iv_at trivias k) \<le> length src"
    using iv by (simp_all add: attached_ivs_def)
  ultimately have "emitTrivia t (L ! j) = concat (map (\<lambda>(a, b). slice src a b) (map (iv_at trivias) (L ! j)))"
      "emitTrivia t (T ! j) = concat (map (\<lambda>(a, b). slice src a b) (map (iv_at trivias) (T ! j)))"
    using emitTrivia_slices [OF t] by blast+
  moreover have "token_text src (toks ! j) = slice src (tok_start (toks ! j)) (tok_stop (toks ! j))"
    using iv by (simp add: attached_ivs_def tok_iv_def token_text_def)
  ultimately show ?thesis
    by (simp add: leaf_bytes_def attached_token_def mkGreenToken_def pr attached_ivs_def tok_iv_def Let_def)
qed

lemma tail_token_bytes:
  assumes t: "tr_Source t = Some src" "Trivias (tr_Arena t) = trivias"
    and pr: "pairTriviaToTokens toks trivias = (L, T, tail)"
    and iv: "\<forall>iv \<in> set (map (iv_at trivias) tail). snd iv \<le> length src"
  shows "concat (map (leaf_bytes t) (tail_token toks trivias)) =
    concat (map (\<lambda>(a, b). slice src a b) (map (iv_at trivias) tail))"
  using emitTrivia_slices [OF t, of tail] pairTriviaToTokens_ok(5) [OF pr] iv
  by (auto simp: tail_token_def pr Let_def leaf_bytes_def mkGreenToken_def emitTrivia_def [of _ "[]"])

lemma first_eof_fit:
  assumes "toks_fit src 0 True toks"
  shows "first_eof toks = length (filter (\<lambda>t. \<not> isEOF t) toks)" "first_eof toks \<le> length toks"
proof -
  obtain body ends where sh: "toks = body @ ends" "\<forall>t \<in> set body. \<not> isEOF t" "\<forall>t \<in> set ends. isEOF t"
      "filter (\<lambda>t. \<not> isEOF t) toks = body" using toks_fit_shape [OF assms] .
  have "takeWhile (\<lambda>t. \<not> isEOF t) ends = []" using sh(3) by (cases ends) auto
  then have "takeWhile (\<lambda>t. \<not> isEOF t) toks = body" unfolding sh(1) using sh(2) by (subst takeWhile_append2) auto
  then show "first_eof toks = length (filter (\<lambda>t. \<not> isEOF t) toks)" using sh(4) by (simp add: first_eof_def)
  show "first_eof toks \<le> length toks" by (simp add: first_eof_def length_takeWhile_le)
qed

text \<open>The byte ranges of all leaves, in order, tile the source.\<close>

lemma lossless_bytes:
  assumes fit: "toks_fit src 0 True toks" and l: "lossless src toks (Extract src toks) t"
    and i: "tr_Root t = Some i"
  shows "concat (map (leaf_bytes t) (leaves (tr_Arena t) (GctNode i))) = src"
proof -
  let ?ts = "Extract src toks" and ?e = "first_eof toks" and ?sl = "\<lambda>(a, b). slice src a b"
  obtain L T tail where pr: "pairTriviaToTokens toks ?ts = (L, T, tail)" by (cases "pairTriviaToTokens toks ?ts")
  have t: "tr_Source t = Some src" "Trivias (tr_Arena t) = ?ts"
    and lv: "leaves (tr_Arena t) (GctNode i) = map (attached_token src toks ?ts) [0..<?e] @ tail_token toks ?ts"
    using l i by (auto simp: lossless_def)
  let ?ivs = "concat (map (attached_ivs toks ?ts L T) [0..<?e]) @ map (iv_at ?ts) tail"
  have tiles: "tiles 0 ?ivs (length src)" using pairing_tiles [OF fit pr] first_eof_fit(1) [OF fit] by simp
  have iv: "fst iv \<le> snd iv \<and> snd iv \<le> length src" if "iv \<in> set ?ivs" for iv
    using tiles_mem [OF tiles that] by blast
  have 1: "leaf_bytes t (attached_token src toks ?ts j) = concat (map ?sl (attached_ivs toks ?ts L T j))"
    if j: "j \<in> set [0..<?e]" for j
  proof (rule attached_token_bytes [OF t pr])
    show "j < length toks" using j first_eof_fit(2) [OF fit] by simp
    show "\<forall>iv \<in> set (attached_ivs toks ?ts L T j). fst iv \<le> snd iv \<and> snd iv \<le> length src"
    proof
      fix x assume "x \<in> set (attached_ivs toks ?ts L T j)"
      then have "x \<in> set ?ivs" using j by auto
      then show "fst x \<le> snd x \<and> snd x \<le> length src" by (rule iv)
    qed
  qed
  have "concat (map (leaf_bytes t) (map (attached_token src toks ?ts) [0..<?e])) =
      concat (map ?sl (concat (map (attached_ivs toks ?ts L T) [0..<?e])))"
    unfolding map_map o_def map_concat concat_concat by (rule arg_cong [where f = concat], rule map_cong [OF refl], rule 1)
  moreover have "concat (map (leaf_bytes t) (tail_token toks ?ts)) = concat (map ?sl (map (iv_at ?ts) tail))"
    using iv by (intro tail_token_bytes [OF t pr]) auto
  ultimately have "concat (map (leaf_bytes t) (leaves (tr_Arena t) (GctNode i))) = concat (map ?sl ?ivs)"
    by (simp add: lv)
  also have "\<dots> = src" using tiles_concat_slice [OF tiles, of src] by simp
  finally show ?thesis .
qed

section \<open>Widths\<close>

lemma sumTriviaWidths_sum:
  assumes "\<forall>k \<in> set ks. k < length (Trivias a)"
  shows "sumTriviaWidths a ks = sum_list (map (\<lambda>k. tr_Length (Trivias a ! k)) ks)"
proof -
  have "foldl (\<lambda>total idx. if idx < length (Trivias a) then total + tr_Length (Trivias a ! idx) else total) n ks =
      n + sum_list (map (\<lambda>k. tr_Length (Trivias a ! k)) ks)" for n
    using assms by (induction ks arbitrary: n) simp_all
  then show ?thesis by (simp add: sumTriviaWidths_def)
qed

lemma length_emitTrivia:
  assumes "\<forall>k \<in> set ks. k < length (Trivias (tr_Arena t))"
    and "\<forall>k < length (Trivias (tr_Arena t)). tr_stop (Trivias (tr_Arena t) ! k) \<le> length (source_bytes t)"
  shows "length (emitTrivia t ks) = sumTriviaWidths (tr_Arena t) ks"
  unfolding sumTriviaWidths_sum [OF assms(1)] using assms(1)
proof (induction ks)
  case (Cons k ks)
  then have "tr_stop (Trivias (tr_Arena t) ! k) \<le> length (source_bytes t)" using assms(2) by simp
  with Cons show ?case by (auto simp: emitTrivia_def Let_def)
qed (simp add: emitTrivia_def)

lemma sum_list_concat: "sum_list (concat xss) = sum_list (map sum_list (xss :: nat list list))"
  by (induction xss) simp_all

lemma child_width_leaves:
  assumes "wf_arena a" "child_ok (length (Nodes a)) (length (Tokens a)) c"
  shows "child_width a c = sum_list (map TotalWidth (leaves a c))"
  using assms
proof (induction a c rule: leaves.induct)
  case (2 a i)
  then have i: "i < length (Nodes a)" by simp
  have "child_width a c = sum_list (map TotalWidth (leaves a c))" if "c \<in> set (gn_Children (Nodes a ! i))" for c
    using "2.IH" [OF that] wf_arena_child [OF "2.prems"(1) i that] "2.prems"(1) by blast
  then have "children_width a (gn_Children (Nodes a ! i)) =
      sum_list (map (\<lambda>c. sum_list (map TotalWidth (leaves a c))) (gn_Children (Nodes a ! i)))"
    unfolding children_width_def by (intro arg_cong [where f = sum_list] map_cong) auto
  then show ?case using wf_arenaD(5) [OF "2.prems"(1) i]
    by (simp add: leaves_node [OF "2.prems"(1) i] map_concat sum_list_concat o_def)
qed simp

lemma leaves_Tokens:
  assumes "wf_arena a" "child_ok (length (Nodes a)) (length (Tokens a)) c"
  shows "set (leaves a c) \<subseteq> set (Tokens a)"
  using assms
proof (induction a c rule: leaves.induct)
  case (2 a i)
  then have i: "i < length (Nodes a)" by simp
  have "set (leaves a c) \<subseteq> set (Tokens a)" if "c \<in> set (gn_Children (Nodes a ! i))" for c
    using "2.IH" [OF that] wf_arena_child [OF "2.prems"(1) i that] "2.prems"(1) by blast
  then show ?case by (auto simp: leaves_node [OF "2.prems"(1) i])
qed simp

lemma interleaved_le:
  "interleaved lo toks gs tail hi \<Longrightarrow> t \<in> set (concat gs @ tail) \<Longrightarrow> tr_stop t \<le> hi"
proof (induction lo toks gs tail hi rule: interleaved.induct)
  case (1 lo tail hi)
  then show ?case using tiles_mem [of lo "map tr_iv tail" hi "tr_iv t"] by (auto simp: tr_iv_def)
next
  case (2 lo u us g gs tail hi)
  have "tok_start u \<le> tok_stop u" "tok_stop u \<le> hi"
    using 2(2) interleaved_covering [of "tok_stop u" us gs tail hi 0] by auto
  then show ?case using 2 tiles_mem [of lo "map tr_iv g" "tok_start u" "tr_iv t"] by (auto simp: tr_iv_def)
qed auto

lemma Extract_inside:
  assumes "toks_fit src 0 True toks" "t \<in> set (Extract src toks)"
  shows "tr_stop t \<le> length src"
proof -
  obtain gs tail where "Extract src toks = concat gs @ tail"
      "interleaved 0 (filter (\<lambda>t. \<not> isEOF t) toks) gs tail (length src)"
    using Extract_interleaved [OF assms(1)] .
  then show ?thesis using interleaved_le assms(2) by metis
qed

section \<open>What validation checks about one handle\<close>

text \<open>A subtree whose range is inside the source and whose lexemes have the recorded width.\<close>

definition sound_place :: "Tree \<Rightarrow> nat \<times> GreenChild \<Rightarrow> bool" where
  "sound_place t x \<longleftrightarrow> place_end (tr_Arena t) x \<le> length (source_bytes t) \<and>
     (\<forall>tok \<in> set (leaves (tr_Arena t) (snd x)). gt_Width tok = length (gt_Text tok))"

definition zero_width :: "GreenArena \<Rightarrow> nat \<times> GreenChild \<Rightarrow> ValidationError list" where
  "zero_width a x = complain (place_kind a x) (fst x) (place_end a x) ''structural node has non-positive width''
     (\<not> is_tok (snd x) \<and> place_kind a x \<noteq> GkFile \<and> \<not> IsError (place_kind a x) \<and> child_width a (snd x) = 0)"

lemma sound_place_below:
  assumes "tree_ok t" "red_valid t r" "sound_place t (loc r)" "x \<in> set (below t r)"
  shows "sound_place t x"
proof -
  obtain i where i: "red_child r = GctNode i"
    using assms(4) by (cases "red_child r") (auto simp: below_def red_children_def)
  have il: "i < length (Nodes (tr_Arena t))" and wf: "wf_arena (tr_Arena t)"
    using assms(1,2) i by (simp_all add: red_valid_def tree_ok_def)
  have "tiles (red_absoluteOffset r) (map (\<lambda>x. (fst x, place_end (tr_Arena t) x)) (below t r)) (red_End t r)"
    using below_tiles [OF assms(1,2)] i by (simp add: IsNode_def)
  from tiles_mem [OF this, of "(fst x, place_end (tr_Arena t) x)"] assms(4)
  have "place_end (tr_Arena t) x \<le> place_end (tr_Arena t) (loc r)" by (simp add: red_End_place)
  moreover have "snd x \<in> set (gn_Children (Nodes (tr_Arena t) ! i))"
    using assms(4) i by (auto simp: below_def red_children_def dest: placed_child)
  then have "set (leaves (tr_Arena t) (snd x)) \<subseteq> set (leaves (tr_Arena t) (snd (loc r)))"
    by (auto simp: loc_def i leaves_node [OF wf il])
  ultimately show ?thesis using assms(3) by (auto simp: sound_place_def)
qed

lemma complain_ok [simp]: "complain k lo hi msg False = []"
  by (simp add: complain_def)

lemma validateTokenRed_clean:
  assumes "tree_ok t" "red_valid t r" "IsToken r" "sound_place t (loc r)" "tr_Source t \<noteq> None"
  shows "validateTokenRed t r = Inr []"
proof -
  obtain i where i: "red_child r = GctToken i" using assms(3) by (cases "red_child r") (auto simp: IsToken_def)
  let ?tok = "Tokens (tr_Arena t) ! i"
  have "?tok \<in> set (Tokens (tr_Arena t))" using assms(2) i by (simp add: red_valid_def)
  then have "token_ok (tr_Arena t) ?tok" using assms(1) by (simp add: tree_ok_def wf_arena_def)
  moreover have "red_absoluteOffset r + TotalWidth ?tok \<le> length (source_bytes t)" "gt_Width ?tok = length (gt_Text ?tok)"
    using assms(4) i by (simp_all add: sound_place_def place_end_def loc_def)
  ultimately show ?thesis
    using i by (simp add: validateTokenRed_def red_Token_def token_ok_def red_Width_def TokenTextRange_def
        Let_def escapes_def TotalWidth_def)
qed

lemma children_width_take_le: "children_width a (take k cs) \<le> children_width a cs"
  by (metis append_take_drop_id children_width_simps(2) le_add1)

lemma validate_children:
  assumes ok: "later t0 t" and h: "handle t r" and n: "red_child r = GctNode m" and k: "k \<le> ChildCount t r"
  shows "\<exists>t' hi. foldR (validate_child r) [k..<ChildCount t r]
      (t, errs, children_width (tr_Arena t) (take k (red_children t r)),
       red_absoluteOffset r + children_width (tr_Arena t) (take k (red_children t r))) =
    Inr (t', errs, children_width (tr_Arena t) (red_children t r), hi) \<and> later t t'"
  using ok h k
proof (induction "ChildCount t r - k" arbitrary: t k)
  case 0
  then show ?case by (auto simp: ChildCount_def later_def)
next
  case (Suc d)
  let ?cs = "red_children t r" and ?a = "tr_Arena t"
  have k: "k < ChildCount t r" "k < length ?cs" "d = ChildCount t r - Suc k"
    using Suc.hyps(2) by (auto simp: ChildCount_def)
  have tok: "tree_ok t" using Suc.prems(1) by (rule laterD)
  obtain c t1 where c: "ChildAt t r k = Inr (c, t1)" "tree_ok t1" "tree_le t t1" "nth_child t r k c"
    using ChildAt_spec [OF tok Suc.prems(2) k(1)] by metis
  have l1: "later t t1" using c by (simp add: later_def)
  note same = tree_le_same [OF c(3)]
  have w: "red_absoluteOffset c = red_absoluteOffset r + children_width ?a (take k ?cs)"
      "children_width ?a (take (Suc k) ?cs) = children_width ?a (take k ?cs) + red_Width t1 c"
    using c(4) k(2) same(7) by (auto simp: nth_child_def take_Suc_conv_app_nth red_Width_def)
  have "red_End t r = red_absoluteOffset r + children_width ?a ?cs"
    using n handle_valid [OF tok Suc.prems(2)] tok
    by (auto simp: red_End_def red_Width_def red_children_def red_valid_def tree_ok_def wf_arena_def)
  then have in_parent: "red_absoluteOffset r + children_width ?a (take (Suc k) ?cs) \<le> red_End t r"
    using children_width_take_le by simp
  have step: "validate_child r k (t, errs, children_width ?a (take k ?cs),
        red_absoluteOffset r + children_width ?a (take k ?cs)) =
      Inr (t1, errs, children_width ?a (take (Suc k) ?cs), red_absoluteOffset r + children_width ?a (take (Suc k) ?cs))"
    using c(1) w in_parent fun_cong [OF same(4), of r]
    by (simp add: validate_child_def Let_def red_End_def add.assoc complain_def)
  have "d = ChildCount t1 r - Suc k" "Suc k \<le> ChildCount t1 r" using k same(6) by simp_all
  from Suc.hyps(1) [OF this(1) later_trans [OF Suc.prems(1) l1] later_handle [OF l1 Suc.prems(2)] this(2)]
  obtain t2 hi where t2: "foldR (validate_child r) [Suc k..<ChildCount t r] (t1, errs, children_width ?a (take (Suc k) ?cs),
      red_absoluteOffset r + children_width ?a (take (Suc k) ?cs)) = Inr (t2, errs, children_width ?a ?cs, hi)" "later t1 t2"
    using same by auto
  have "[k..<ChildCount t r] = k # [Suc k..<ChildCount t r]" using k(1) by (simp add: upt_conv_Cons)
  then show ?case using step t2 later_trans [OF l1 t2(2)] by (simp del: upt_Suc)
qed

lemma validateNodeRed_exact:
  assumes l: "later t0 t" and h: "handle t r" and n: "IsNode r"
  shows "\<exists>t'. validateNodeRed t r = Inr (t', zero_width (tr_Arena t0) (loc r)) \<and> later t t'"
proof -
  obtain m where m: "red_child r = GctNode m" using n by (cases "red_child r") (auto simp: IsNode_def)
  have ok: "tree_ok t" using l by (rule laterD)
  have "m < length (Nodes (tr_Arena t))" using handle_valid [OF ok h] m by (simp add: red_valid_def)
  then have w: "gn_Width (Nodes (tr_Arena t) ! m) = children_width (tr_Arena t) (red_children t r)"
      "red_Width t r = gn_Width (Nodes (tr_Arena t) ! m)"
    using m ok by (auto simp: red_children_def red_Width_def tree_ok_def wf_arena_def)
  obtain t' hi where v: "foldR (validate_child r) [0..<ChildCount t r] (t, [], 0, red_absoluteOffset r) =
      Inr (t', [], children_width (tr_Arena t) (red_children t r), hi)" "later t t'"
    using validate_children [OF l h m, of 0 "[]"] by auto
  note lt = later_trans [OF l v(2)]
  have k: "red_Kind t' r = place_kind (tr_Arena t0) (loc r)" by (rule red_Kind_place [OF lt])
  have e: "red_End t' r = place_end (tr_Arena t0) (loc r)" "red_Width t' r = child_width (tr_Arena t0) (snd (loc r))"
    using laterD(3) [OF lt] by (simp_all add: red_End_place red_Width_def loc_def)
  have "validateNodeRed t r = Inr (t', zero_width (tr_Arena t0) (loc r))"
    using v(1) w m k e by (simp add: validateNodeRed_def red_Node_def Let_def zero_width_def loc_def)
  with v(2) show ?thesis by blast
qed

section \<open>Validation of a lossless tree\<close>

lemma attached_token_width:
  assumes "tok_start (toks ! j) \<le> tok_stop (toks ! j) \<and> tok_stop (toks ! j) \<le> length src"
  shows "gt_Width (attached_token src toks trivias j) = length (gt_Text (attached_token src toks trivias j))"
  using assms by (simp add: attached_token_def mkGreenToken_def Let_def token_text_def min_absorb1 diff_le_mono)

lemma tail_token_width: "tok \<in> set (tail_token toks trivias) \<Longrightarrow> gt_Width tok = length (gt_Text tok)"
  by (auto simp: tail_token_def mkGreenToken_def Let_def split: if_splits)

lemma lossless_sound:
  assumes fit: "toks_fit src 0 True toks" and l: "lossless src toks (Extract src toks) t"
    and i: "tr_Root t = Some i"
  shows "sound_place t (0, GctNode i)" "gn_Width (Nodes (tr_Arena t) ! i) = length src"
proof -
  let ?ts = "Extract src toks" and ?a = "tr_Arena t"
  have t: "tr_Source t = Some src" "Trivias ?a = ?ts" and ok: "tree_ok t"
    and lv: "leaves ?a (GctNode i) = map (attached_token src toks ?ts) [0..<first_eof toks] @ tail_token toks ?ts"
    using l i by (auto simp: lossless_def)
  have sb: "source_bytes t = src" using t(1) by (simp add: source_bytes_def)
  have wf: "wf_arena ?a" and il: "i < length (Nodes ?a)" using ok i by (auto simp: tree_ok_def)
  have width: "gt_Width tok = length (gt_Text tok)" if "tok \<in> set (leaves ?a (GctNode i))" for tok
  proof -
    obtain body ends where sh: "toks = body @ ends" "filter (\<lambda>t. \<not> isEOF t) toks = body"
        "list_all (\<lambda>t. tok_start t \<le> tok_stop t \<and> tok_stop t \<le> length src) body"
      using toks_fit_shape [OF fit] by metis
    have "first_eof toks = length body" using first_eof_fit(1) [OF fit] sh(2) by simp
    then have "tok_start (toks ! j) \<le> tok_stop (toks ! j) \<and> tok_stop (toks ! j) \<le> length src" if "j < first_eof toks" for j
      using that sh(3) unfolding sh(1) by (simp add: nth_append list_all_length)
    then show ?thesis using that attached_token_width tail_token_width unfolding lv by fastforce
  qed
  have tok_mem: "tok \<in> set (Tokens ?a)" if "tok \<in> set (leaves ?a c)" "child_ok (length (Nodes ?a)) (length (Tokens ?a)) c" for tok c
    using leaves_Tokens [OF wf that(2)] that(1) by blast
  have inside: "\<forall>k < length (Trivias ?a). tr_stop (Trivias ?a ! k) \<le> length (source_bytes t)"
    using Extract_inside [OF fit] t(2) sb by simp
  have len: "length (leaf_bytes t tok) = TotalWidth tok" if m: "tok \<in> set (leaves ?a (GctNode i))" for tok
  proof -
    have "token_ok ?a tok" using tok_mem [OF m] il wf_arenaD(6) [OF wf] by simp
    then show ?thesis using length_emitTrivia [OF _ inside] width [OF m]
      by (simp add: leaf_bytes_def token_ok_def trivia_ids_ok_def list_all_iff TotalWidth_def)
  qed
  have "gn_Width (Nodes ?a ! i) = sum_list (map TotalWidth (leaves ?a (GctNode i)))"
    using child_width_leaves [OF wf, of "GctNode i"] il by simp
  also have "\<dots> = sum_list (map (length \<circ> leaf_bytes t) (leaves ?a (GctNode i)))"
    using len by (intro arg_cong [where f = sum_list] map_cong) auto
  also have "\<dots> = length (concat (map (leaf_bytes t) (leaves ?a (GctNode i))))"
    by (simp add: length_concat o_def)
  also have "\<dots> = length src" by (simp add: lossless_bytes [OF fit l i])
  finally show w: "gn_Width (Nodes ?a ! i) = length src" .
  show "sound_place t (0, GctNode i)" using width w sb by (simp add: sound_place_def place_end_def)
qed

lemma sound_place_later: "later t0 t \<Longrightarrow> sound_place t = sound_place t0"
  using laterD(3) [of t0 t] tree_le_same(8) [of t0 t] by (simp add: fun_eq_iff sound_place_def later_def)

lemma validate_visit_exact:
  assumes l: "later t0 t" and h: "handle t r" and s: "sound_place t0 (loc r)" and src: "tr_Source t0 \<noteq> None"
  shows "\<exists>t'. validate_visit r (t, errs) = Inr (True, t', errs @ zero_width (tr_Arena t0) (loc r)) \<and> later t t'"
proof -
  have ok: "tree_ok t" and src': "tr_Source t \<noteq> None" using l src by (auto simp: later_def tree_le_def)
  have s': "sound_place t (loc r)" using s sound_place_later [OF l] by simp
  have esc: "\<not> escapes t (red_absoluteOffset r) (red_End t r)"
    using s' by (simp add: escapes_def sound_place_def red_End_place) (simp add: place_end_def loc_def)
  show ?thesis
  proof (cases "IsToken r")
    case True
    then have "zero_width (tr_Arena t0) (loc r) = []" by (simp add: zero_width_def IsToken_def loc_def)
    then show ?thesis using validateTokenRed_clean [OF ok handle_valid [OF ok h] True s' src'] True esc ok
      by (simp add: validate_visit_def Let_def later_refl)
  next
    case False
    then show ?thesis using validateNodeRed_exact [OF l h] esc
      by (auto simp: validate_visit_def Let_def IsNode_def IsToken_def)
  qed
qed

lemma ValidateTree_lossless:
  assumes fit: "toks_fit src 0 True toks" and l: "lossless src toks (Extract src toks) t"
    and i: "tr_Root t = Some i"
  shows "\<exists>t'. ValidateTree t =
    Inr (\<lparr>vr_Errors = concat (map (zero_width (tr_Arena t)) (preorder (tr_Arena t) (0, GctNode i)))\<rparr>, t')"
proof -
  have t: "tr_Source t = Some src" "Trivias (tr_Arena t) = Extract src toks" and ok: "tree_ok t"
    and fk: "gn_Kind (Nodes (tr_Arena t) ! i) = GkFile"
    using l i by (auto simp: lossless_def)
  note snd = lossless_sound [OF fit l i]
  obtain j t1 where r: "Root t = Inr (root_red j, t1)" "tr_Root t = Some j" "tree_ok t1" "tree_le t t1"
      "handle t1 (root_red j)" "j < length (Nodes (tr_Arena t))" using Root_spec [OF ok] .
  have j: "j = i" using r(2) i by simp
  have l1: "later t t1" using r by (simp add: later_def)
  have same: "tr_Arena t1 = tr_Arena t" "tr_Source t1 = Some src" "source_bytes t1 = src"
    using r(4) t(1) by (auto simp: tree_le_def source_bytes_def)
  have lc: "loc (root_red i) = (0, GctNode i)" by (simp add: loc_def root_red_def)
  have "\<not> length src < tr_stop (Extract src toks ! x)" if "x < length (Extract src toks)" for x
    using Extract_inside [OF fit nth_mem [OF that]] by simp
  then have "trivia_errors t1 = []"
    unfolding trivia_errors_def Let_def same t(2) complain_def by simp
  then have errs: "complain_at t1 (root_red i) ''root is not File'' (red_Kind t1 (root_red i) \<noteq> GkFile) @
      complain_at t1 (root_red i) ''root width does not match source length''
        (tr_Source t1 \<noteq> None \<and> red_Width t1 (root_red i) \<noteq> length (source_bytes t1)) @ trivia_errors t1 = []"
    using fk snd(2) by (simp add: red_Kind_def red_Width_def root_red_def same complain_def)
  have src: "tr_Source t \<noteq> None" using t(1) by simp
  have rk: "rank (red_child (root_red i)) \<le> tree_fuel t1"
    using r(6) j by (simp add: root_red_def rank_def tree_fuel_def same)
  have vis: "\<exists>t''. validate_visit r' (t', acc) = Inr (True, t'', acc @ zero_width (tr_Arena t) (loc r')) \<and> later t' t''"
    if "later t t'" "handle t' r'" "sound_place t (loc r')" for t' acc r'
    using validate_visit_exact [OF that src] .
  have dn: "sound_place t x" if "later t t'" "handle t' r'" "sound_place t (loc r')" "x \<in> set (below t' r')" for t' r' x
    using sound_place_below [OF laterD(1) [OF that(1)] handle_valid [OF laterD(1) [OF that(1)] that(2)] _ that(4)]
      that(3) sound_place_later [OF that(1)] by simp
  have h: "handle t1 (root_red i)" and sp: "sound_place t (loc (root_red i))" using r(5) j snd(1) lc by simp_all
  have "\<exists>t2. Walk (tree_fuel t1) validate_visit (root_red i) (t1, []) =
      Inr (t2, [] @ concat (map (zero_width (tr_Arena t)) (preorder (tr_Arena t) (loc (root_red i))))) \<and> later t1 t2"
    by (rule Walk_preorder [where P = "sound_place t", OF _ _ rk l1 h sp], erule (2) vis, erule (3) dn)
  then obtain t2 where w: "Walk (tree_fuel t1) validate_visit (root_red i) (t1, []) =
      Inr (t2, concat (map (zero_width (tr_Arena t)) (preorder (tr_Arena t) (0, GctNode i))))" "later t1 t2"
    unfolding lc append_Nil by blast
  note l2 = later_trans [OF l1 w(2)]
  have same2: "tr_Source t2 = Some src" "source_bytes t2 = src" "tr_Root t2 = Some i" "tr_Arena t2 = tr_Arena t"
    using laterD(2) [OF l2] t(1) i by (auto simp: tree_le_def source_bytes_def)
  have "leaf_bytes t2 = leaf_bytes t"
    using emitTrivia_later [OF l2] by (simp add: fun_eq_iff leaf_bytes_def)
  then obtain t3 where rc: "Reconstruct t2 = Inr (src, t3)" "later t2 t3"
    using Reconstruct_leaves [OF laterD(1) [OF l2] same2(3)] lossless_bytes [OF fit l i] same2(4) by metis
  have "source_bytes t3 = src" using tree_le_same(8) [OF laterD(2) [OF rc(2)]] same2(2) by simp
  then show ?thesis
    using i r(1,6) j errs w(1) rc(1) same2(1) by (simp add: ValidateTree_def Let_def)
qed

section \<open>Theorems\<close>

text \<open>C20. Building is lossless: for a token stream in source order whose tokens do not cut a
  trivia run (\<open>toks_fit\<close>), and whatever spans the caller supplies, the tree \<open>BuildFromSyntaxSpans\<close> makes
  from the tokens and their extracted trivia reconstructs the source byte for byte.\<close>

theorem Build_reconstructs_source:
  assumes "toks_fit src 0 True toks"
  shows "\<exists>t t'. BuildFromSyntaxSpans src spans toks (Extract src toks) = Inr t \<and> Reconstruct t = Inr (src, t')"
proof -
  obtain t where t: "BuildFromSyntaxSpans src spans toks (Extract src toks) = Inr t"
      "lossless src toks (Extract src toks) t" by (rule BuildFromSyntaxSpans_total)
  then obtain i where i: "tr_Root t = Some i" "tree_ok t" by (auto simp: lossless_def)
  from lossless_bytes [OF assms t(2) i(1)] show ?thesis
    using t(1) Reconstruct_leaves [OF i(2,1)] by metis
qed

theorem Build_reconstructs_source_witness:
  "\<exists>t t'. BuildFromSyntaxSpans ''a  b'' [SyntaxSpan 0 1 GkIdent [], SyntaxSpan 3 4 GkIdent []]
      [tokAt T_IDENT 0 1 ''a'', tokAt T_IDENT 3 4 ''b''] (Extract ''a  b'' [tokAt T_IDENT 0 1 ''a'', tokAt T_IDENT 3 4 ''b'']) = Inr t \<and>
    Reconstruct t = Inr (''a  b'', t')"
  by (rule Build_reconstructs_source) code_simp

text \<open>The checker against the builder: on a tree built from such a token stream,
  \<open>ValidateTree\<close> returns a report whose errors are exactly one per structural node of width 0,
  in pre-order. Every other check (root kind and width, trivia inside the source, ranges,
  token and node widths, sibling order, reconstruction) holds.\<close>

theorem ValidateTree_Build:
  assumes "toks_fit src 0 True toks" "BuildFromSyntaxSpans src spans toks (Extract src toks) = Inr t"
    and "tr_Root t = Some i"
  shows "\<exists>t'. ValidateTree t =
    Inr (\<lparr>vr_Errors = concat (map (zero_width (tr_Arena t)) (preorder (tr_Arena t) (0, GctNode i)))\<rparr>, t')"
proof -
  obtain t0 where "BuildFromSyntaxSpans src spans toks (Extract src toks) = Inr t0"
      "lossless src toks (Extract src toks) t0" by (rule BuildFromSyntaxSpans_total)
  then show ?thesis using assms ValidateTree_lossless [OF assms(1)] by auto
qed

definition errors_of :: "Tree res \<Rightarrow> string list" where
  "errors_of r = (case bindR r ValidateTree of Inl _ \<Rightarrow> [''panic''] | Inr x \<Rightarrow> map ve_Message (vr_Errors (fst x)))"

theorem ValidateTree_Build_witness:
  "\<exists>t i t'. BuildFromSyntaxSpans ''ab'' [SyntaxSpan 0 1 GkIdent [], SyntaxSpan 1 1 GkBlock []]
      [tokAt T_IDENT 0 1 ''a'', tokAt T_IDENT 1 2 ''b''] (Extract ''ab'' [tokAt T_IDENT 0 1 ''a'', tokAt T_IDENT 1 2 ''b'']) = Inr t \<and>
    tr_Root t = Some i \<and> ValidateTree t =
    Inr (\<lparr>vr_Errors = concat (map (zero_width (tr_Arena t)) (preorder (tr_Arena t) (0, GctNode i)))\<rparr>, t')"
proof -
  let ?toks = "[tokAt T_IDENT 0 1 ''a'', tokAt T_IDENT 1 2 ''b'']"
  obtain t where t: "BuildFromSyntaxSpans ''ab'' [SyntaxSpan 0 1 GkIdent [], SyntaxSpan 1 1 GkBlock []] ?toks
      (Extract ''ab'' ?toks) = Inr t" "lossless ''ab'' ?toks (Extract ''ab'' ?toks) t"
    by (rule BuildFromSyntaxSpans_total)
  then obtain i where i: "tr_Root t = Some i" by (auto simp: lossless_def)
  have "toks_fit ''ab'' 0 True ?toks" by code_simp
  from ValidateTree_Build [OF this t(1) i] t(1) i show ?thesis by blast
qed

lemma zero_width_span_reported: "errors_of (BuildFromSyntaxSpans ''ab'' [SyntaxSpan 0 1 GkIdent [], SyntaxSpan 1 1 GkBlock []]
      [tokAt T_IDENT 0 1 ''a'', tokAt T_IDENT 1 2 ''b''] (Extract ''ab'' [tokAt T_IDENT 0 1 ''a'', tokAt T_IDENT 1 2 ''b'']))
   = [''structural node has non-positive width'']"
  by code_simp

end
