(* ===== verification/CST_Parse.thy ===== *)
theory CST_Parse
  imports CST_Validate
begin

text \<open>
  \<^verbatim>\<open>src/internal/cst/parse.go\<close>: the recovery-first parser that drives a builder from the
  token stream. Each function of the code is one definition, a list of statements run in
  order. The parser's state extends \<open>feed\<close> with the count of pending type-argument closers.

  Recursion. The code's functions call each other recursively in three groups, and in each
  group every cycle goes through one or two functions: \<open>parseTypeUntil\<close> for types,
  \<open>parsePatternAtom\<close> for patterns, \<open>parseExprBP\<close> and \<open>parseIf\<close> for expressions and statements. The functions of a group
  take the recursive call as an argument (\<open>tu\<close>, \<open>pa\<close>, \<open>ex\<close>), and the group is closed by
  recursion on fuel. Every recursive call happens after a token has been consumed, so
  one more than the number of remaining tokens is enough fuel; loops get the same bound.
  That the fuel is always enough, for every token stream, is part of the totality theorem.
\<close>

section \<open>State and statements\<close>

record greenParser = feed +
  pendingTypeArgClosers :: nat

type_synonym stmt = "greenParser action"
type_synonym flow = "greenParser \<Rightarrow> (bool \<times> greenParser) res"

definition remaining :: "greenParser \<Rightarrow> nat" where
  "remaining s = length (fd_toks s) - fd_pos s"

definition kindAt :: "greenParser \<Rightarrow> nat \<Rightarrow> Kind" where
  "kindAt s idx = (if idx \<ge> length (fd_toks s) then T_EOF else tok_Kind (fd_toks s ! idx))"

definition tokenValueAt :: "greenParser \<Rightarrow> nat \<Rightarrow> string" where
  "tokenValueAt s idx = (if idx \<ge> length (fd_toks s) then [] else tok_Value (fd_toks s ! idx))"

text \<open>\<open>peek().Kind\<close> and \<open>peek().Value\<close>; past the end \<open>peek\<close> is a bare EOF token.\<close>

definition peekKind :: "greenParser \<Rightarrow> Kind" where
  "peekKind s = kindAt s (fd_pos s)"

definition p_at :: "Kind \<Rightarrow> greenParser \<Rightarrow> bool" where
  "p_at k s \<longleftrightarrow> peekKind s = k"

definition atAny :: "Kind list \<Rightarrow> greenParser \<Rightarrow> bool" where
  "atAny kinds s \<longleftrightarrow> peekKind s \<in> set kinds"

definition tokenKindIn :: "Kind list \<Rightarrow> Kind \<Rightarrow> bool" where
  "tokenKindIn kinds target \<longleftrightarrow> target \<in> set kinds"

definition atIdentValue :: "string \<Rightarrow> greenParser \<Rightarrow> bool" where
  "atIdentValue v s \<longleftrightarrow> p_at T_IDENT s \<and> tokenValueAt s (fd_pos s) = v"

definition atUseAliasKeyword :: "greenParser \<Rightarrow> bool" where
  "atUseAliasKeyword s \<longleftrightarrow> atIdentValue ''as'' s"

definition previousTokenValue :: "greenParser \<Rightarrow> string" where
  "previousTokenValue s = (if fd_pos s = 0 then [] else tokenValueAt s (fd_pos s - 1))"

definition kindAfterPub :: "greenParser \<Rightarrow> Kind" where
  "kindAfterPub s = (if p_at T_PUB s then kindAt s (fd_pos s + 1) else peekKind s)"

definition emit :: stmt where
  "emit s = (if fd_pos s \<ge> length (fd_toks s) \<or> isEOF (fd_toks s ! fd_pos s) then Inr s else feed_emit s)"

definition eat :: "Kind \<Rightarrow> flow" where
  "eat k s = (if \<not> p_at k s then Inr (False, s) else bindR (emit s) (\<lambda>s'. Inr (True, s')))"

text \<open>\<open>p.eat(k)\<close> as a statement, and \<open>if p.eat(k) { as } else { bs }\<close>.\<close>

definition eatS :: "Kind \<Rightarrow> stmt" where
  "eatS k s = bindR (eat k s) (\<lambda>x. Inr (snd x))"

definition ifEat :: "Kind \<Rightarrow> stmt list \<Rightarrow> stmt list \<Rightarrow> stmt" where
  "ifEat k as bs s = bindR (eat k s) (\<lambda>x. if fst x then seqs as (snd x) else seqs bs (snd x))"

text \<open>\<open>StartNode(k); as; FinishNode()\<close> and \<open>StartNodeAt(k, cp); as; FinishNode()\<close>.\<close>

definition node :: "GreenKind \<Rightarrow> stmt list \<Rightarrow> stmt" where
  "node k as s = bindR (seqs as (feed_start k s)) feed_finish"

definition nodeAt :: "GreenKind \<Rightarrow> GreenCheckpoint \<Rightarrow> stmt list \<Rightarrow> stmt" where
  "nodeAt k cp as s = bindR (bindR (feed_startAt k cp s) (seqs as)) feed_finish"

definition withCp :: "(GreenCheckpoint \<Rightarrow> stmt list) \<Rightarrow> stmt" where
  "withCp f s = bindR (feed_checkpoint s) (\<lambda>cp. seqs (f cp) s)"

text \<open>Statements that read the current state first.\<close>

definition withS :: "(greenParser \<Rightarrow> stmt list) \<Rightarrow> stmt" where
  "withS f s = seqs (f s) s"

text \<open>\<open>for cond { body }\<close>, and a loop whose body may \<open>break\<close> (it returns whether to go on).\<close>

primrec loop_fuel :: "nat \<Rightarrow> (greenParser \<Rightarrow> bool) \<Rightarrow> flow \<Rightarrow> stmt" where
  "loop_fuel 0 c body s = Inl OutOfFuel"
| "loop_fuel (Suc n) c body s =
     (if c s then bindR (body s) (\<lambda>x. if fst x then loop_fuel n c body (snd x) else Inr (snd x)) else Inr s)"

definition loopB :: "(greenParser \<Rightarrow> bool) \<Rightarrow> flow \<Rightarrow> stmt" where
  "loopB c body s = loop_fuel (Suc (remaining s)) c body s"

definition go_on :: "stmt list \<Rightarrow> flow" where
  "go_on as s = bindR (seqs as s) (\<lambda>s'. Inr (True, s'))"

definition break_after :: "stmt list \<Rightarrow> flow" where
  "break_after as s = bindR (seqs as s) (\<lambda>s'. Inr (False, s'))"

definition loopA :: "(greenParser \<Rightarrow> bool) \<Rightarrow> stmt list \<Rightarrow> stmt" where
  "loopA c body = loopB c (go_on body)"

definition recoverIfStalled :: "nat \<Rightarrow> stmt" where
  "recoverIfStalled start s =
     (if fd_pos s \<noteq> start \<or> p_at T_EOF s then Inr s else node GkErrorExtra [emit] s)"

text \<open>\<open>start := p.pos; as; p.recoverIfStalled(start)\<close>.\<close>

definition unstalled :: "stmt list \<Rightarrow> stmt" where
  "unstalled as = withS (\<lambda>s. as @ [recoverIfStalled (fd_pos s)])"

text \<open>\<open>start := p.pos; as; if p.pos == start { p.emit() }\<close>.\<close>

definition unstalledEmit :: "stmt list \<Rightarrow> stmt" where
  "unstalledEmit as = withS (\<lambda>s. as @ [whenA (\<lambda>s'. fd_pos s' = fd_pos s) [emit]])"

definition parseLeaf :: "GreenKind \<Rightarrow> stmt" where
  "parseLeaf kind = node kind [emit]"

abbreviation notAt2 :: "Kind \<Rightarrow> greenParser \<Rightarrow> bool" where
  "notAt2 k s \<equiv> \<not> p_at k s \<and> \<not> p_at T_EOF s"

abbreviation atSep :: "greenParser \<Rightarrow> bool" where
  "atSep s \<equiv> p_at T_COMMA s \<or> p_at T_NEWLINE s"

text \<open>\<open>for !p.at(close) && !p.at(EOF) { if separator { p.emit(); continue }; as }\<close>.\<close>

definition itemsUntil :: "Kind \<Rightarrow> stmt list \<Rightarrow> stmt" where
  "itemsUntil close as = loopA (notAt2 close) [ifA atSep [emit] as]"

definition skipNewlines :: stmt where
  "skipNewlines = loopA (p_at T_NEWLINE) [emit]"

section \<open>Types\<close>

definition parseOptionalTypeSuffixes :: stmt where
  "parseOptionalTypeSuffixes =
     loopA (\<lambda>s. p_at T_QUESTION s \<or> p_at T_QQ s) [node GkOptionalType [emit]]"

definition parseUnitType :: stmt where
  "parseUnitType = node GkUnitType [eatS T_LPAREN, skipNewlines, eatS T_RPAREN]"

definition skip_newlines_at :: "greenParser \<Rightarrow> nat \<Rightarrow> nat" where
  "skip_newlines_at s i = scan_while (\<lambda>t. tok_Kind t = T_NEWLINE) (fd_toks s) i"

definition looksLikeUnitType :: "greenParser \<Rightarrow> bool" where
  "looksLikeUnitType s \<longleftrightarrow>
     p_at T_LPAREN s \<and> kindAt s (skip_newlines_at s (fd_pos s + 1)) = T_RPAREN"

definition parseFunctionType :: "(Kind list \<Rightarrow> stmt) \<Rightarrow> Kind list \<Rightarrow> stmt" where
  "parseFunctionType tu stops =
     node GkFunctionType
       [eatS T_FN,
        whenA (p_at T_LPAREN)
          [node GkParamList
             [emit,
              itemsUntil T_RPAREN [node GkParam [unstalled [tu [T_COMMA, T_RPAREN]]]],
              eatS T_RPAREN]],
        ifEat T_ARROW [tu stops] []]"

definition parseTupleType :: "(Kind list \<Rightarrow> stmt) \<Rightarrow> stmt" where
  "parseTupleType tu =
     node GkTupleType
       [eatS T_LPAREN, itemsUntil T_RPAREN [unstalled [tu [T_COMMA, T_RPAREN]]], eatS T_RPAREN]"

definition parseListType :: "(Kind list \<Rightarrow> stmt) \<Rightarrow> stmt" where
  "parseListType tu =
     node GkListType
       [eatS T_LBRACKET, itemsUntil T_RBRACKET [unstalled [tu [T_COMMA, T_RBRACKET]]], eatS T_RBRACKET]"

definition closersDec :: stmt where
  "closersDec s = Inr (s\<lparr>pendingTypeArgClosers := pendingTypeArgClosers s - 1\<rparr>)"

definition closersInc :: stmt where
  "closersInc s = Inr (s\<lparr>pendingTypeArgClosers := pendingTypeArgClosers s + 1\<rparr>)"

definition typeArg :: "(Kind list \<Rightarrow> stmt) \<Rightarrow> flow" where
  "typeArg tu s =
     (if pendingTypeArgClosers s > 0 then break_after [closersDec] s
      else if p_at T_GT s then break_after [emit] s
      else if p_at T_SHR s then break_after [emit, closersInc] s
      else if atSep s then go_on [emit] s
      else bindR (node GkGenericParam [unstalledEmit [tu [T_COMMA, T_GT, T_SHR, T_NEWLINE]]] s)
        (\<lambda>s'. if pendingTypeArgClosers s' > 0 then break_after [closersDec] s' else Inr (True, s')))"

definition parseTypeArgList :: "(Kind list \<Rightarrow> stmt) \<Rightarrow> stmt" where
  "parseTypeArgList tu =
     whenA (p_at T_LT) [node GkGenericParamList [emit, loopB (\<lambda>s. \<not> p_at T_EOF s) (typeArg tu)]]"

text \<open>The dotted tail of a type name: \<open>.\<close> and an identifier, repeatedly.\<close>

definition dottedTail :: stmt where
  "dottedTail = loopA (\<lambda>s. p_at T_DOT s \<and> kindAt s (fd_pos s + 1) = T_IDENT) [emit, emit]"

definition parseTypeAtom :: "(Kind list \<Rightarrow> stmt) \<Rightarrow> Kind list \<Rightarrow> flow" where
  "parseTypeAtom tu stops s =
     (if p_at T_FN s then go_on [parseFunctionType tu stops, parseOptionalTypeSuffixes] s
      else if p_at T_LPAREN s
      then go_on [ifA looksLikeUnitType [parseUnitType] [parseTupleType tu], parseOptionalTypeSuffixes] s
      else if p_at T_LBRACKET s then go_on [parseListType tu, parseOptionalTypeSuffixes] s
      else if atIdentValue ''Self'' s \<and> kindAt s (fd_pos s + 1) \<noteq> T_DOT
      then go_on [node GkSelfType [emit], parseOptionalTypeSuffixes] s
      else if p_at T_IDENT s \<or> p_at T_UNDERSCORE s
      then go_on [node GkNamedType [emit, dottedTail, whenA (p_at T_LT) [parseTypeArgList tu]],
                  parseOptionalTypeSuffixes] s
      else Inr (False, s))"

definition typeUntil_step :: "(Kind list \<Rightarrow> stmt) \<Rightarrow> Kind list \<Rightarrow> flow" where
  "typeUntil_step tu stops s =
     bindR (parseTypeAtom tu stops s) (\<lambda>x. if fst x then Inr (True, snd x)
       else bindR (emit (snd x)) (\<lambda>s'. if fd_pos s' = fd_pos s then Inr (False, s') else Inr (True, s')))"

primrec typeUntil_fuel :: "nat \<Rightarrow> Kind list \<Rightarrow> stmt" where
  "typeUntil_fuel 0 = (\<lambda>stops s. Inl OutOfFuel)"
| "typeUntil_fuel (Suc n) = (\<lambda>stops.
     loopB (\<lambda>s. \<not> atAny stops s \<and> \<not> p_at T_EOF s) (typeUntil_step (typeUntil_fuel n) stops))"

definition parseTypeUntil :: "Kind list \<Rightarrow> stmt" where
  "parseTypeUntil stops s = typeUntil_fuel (Suc (remaining s)) stops s"

definition genericBound :: flow where
  "genericBound s =
     bindR (seqs [node GkGenericBound
              [unstalled [parseTypeUntil [T_PLUS, T_COMMA, T_GT, T_SHR, T_NEWLINE]]]] s) (eat T_PLUS)"

definition parseGenericBounds :: stmt where
  "parseGenericBounds =
     loopB (\<lambda>s. \<not> atAny [T_COMMA, T_GT, T_SHR, T_NEWLINE] s \<and> \<not> p_at T_EOF s) genericBound"

definition genericParam :: flow where
  "genericParam s =
     (if p_at T_SHR s then break_after [emit] s
      else if atSep s then go_on [emit] s
      else go_on [node GkGenericParam
             [unstalledEmit [eatS T_IDENT, ifEat T_COLON [parseGenericBounds] []]]] s)"

definition parseGenericParamList :: stmt where
  "parseGenericParamList =
     whenA (p_at T_LT)
       [node GkGenericParamList [emit, loopB (notAt2 T_GT) genericParam, eatS T_GT]]"

section \<open>Patterns\<close>

definition patternAtEnd :: "Kind list \<Rightarrow> greenParser \<Rightarrow> bool" where
  "patternAtEnd stops s \<longleftrightarrow> atAny stops s \<or> p_at T_BITOR s \<or> p_at T_EOF s"

definition parsePatternRange :: "(Kind list \<Rightarrow> stmt) \<Rightarrow> Kind list \<Rightarrow> stmt" where
  "parsePatternRange pa stops =
     withCp (\<lambda>cp.
       [pa stops,
        whenA (\<lambda>s. p_at T_DOTDOT s \<or> p_at T_DOTDOTEQ s)
          [nodeAt GkRangePat cp [emit, whenA (\<lambda>s. \<not> patternAtEnd stops s) [pa stops]]]])"

definition parsePattern :: "(Kind list \<Rightarrow> stmt) \<Rightarrow> Kind list \<Rightarrow> stmt" where
  "parsePattern pa stops =
     withCp (\<lambda>cp.
       [parsePatternRange pa stops,
        loopA (\<lambda>s. p_at T_BITOR s \<and> \<not> tokenKindIn stops T_BITOR)
          [nodeAt GkOrPat cp [emit, parsePatternRange pa stops]]])"

definition parseTuplePattern :: "(Kind list \<Rightarrow> stmt) \<Rightarrow> stmt" where
  "parseTuplePattern pa =
     node GkTuplePat
       [eatS T_LPAREN, itemsUntil T_RPAREN [unstalled [parsePattern pa [T_COMMA, T_RPAREN]]], eatS T_RPAREN]"

text \<open>The loop over the dotted segments of a name, counting them.\<close>

primrec segments_fuel :: "nat \<Rightarrow> nat \<Rightarrow> greenParser \<Rightarrow> (nat \<times> greenParser) res" where
  "segments_fuel 0 segments s = Inl OutOfFuel"
| "segments_fuel (Suc n) segments s =
     bindR (eat T_IDENT s) (\<lambda>x.
       if \<not> fst x then Inr (segments, snd x)
       else if \<not> (p_at T_DOT (snd x) \<and> kindAt (snd x) (fd_pos (snd x) + 1) = T_IDENT) then Inr (segments + 1, snd x)
       else bindR (emit (snd x)) (segments_fuel n (segments + 1)))"

definition structPatField :: "(Kind list \<Rightarrow> stmt) \<Rightarrow> stmt" where
  "structPatField pa =
     node GkStructPatField
       [unstalled
          [ifEat T_IDENT
             [ifEat T_COLON [parsePattern pa [T_COMMA, T_RBRACE]] []]
             [parsePattern pa [T_COMMA, T_RBRACE]]]]"

text \<open>What follows the name, by the number of its segments.\<close>

definition namedPatternRest :: "(Kind list \<Rightarrow> stmt) \<Rightarrow> Kind list \<Rightarrow> GreenCheckpoint \<Rightarrow> nat \<Rightarrow> stmt" where
  "namedPatternRest pa stops cp segments s =
     (if segments = 1 \<and> (previousTokenValue s = ''true'' \<or> previousTokenValue s = ''false'')
      then nodeAt GkLiteralPat cp [] s
      else if segments = 1 \<and> p_at T_AT s
      then nodeAt GkBindingPat cp
             [emit, whenA (\<lambda>s. \<not> patternAtEnd stops s) [parsePatternRange pa stops]] s
      else if p_at T_LPAREN s
      then nodeAt GkVariantPat cp
             [emit, itemsUntil T_RPAREN [unstalled [parsePattern pa [T_COMMA, T_RPAREN]]], eatS T_RPAREN] s
      else if p_at T_LBRACE s
      then nodeAt GkStructPat cp
             [emit,
              itemsUntil T_RBRACE
                [ifA (\<lambda>s. p_at T_DOTDOT s \<or> p_at T_DOTDOTEQ s) [emit] [structPatField pa]],
              eatS T_RBRACE] s
      else if segments > 1 then nodeAt GkVariantPat cp [] s
      else nodeAt GkIdentPat cp [] s)"

definition parseNamedPattern :: "(Kind list \<Rightarrow> stmt) \<Rightarrow> Kind list \<Rightarrow> stmt" where
  "parseNamedPattern pa stops =
     withCp (\<lambda>cp. [\<lambda>s. bindR (segments_fuel (Suc (remaining s)) 0 s)
                          (\<lambda>x. namedPatternRest pa stops cp (fst x) (snd x))])"

definition patternAtom_step :: "(Kind list \<Rightarrow> stmt) \<Rightarrow> Kind list \<Rightarrow> stmt" where
  "patternAtom_step pa stops s =
     (if atAny stops s \<or> p_at T_EOF s then Inr s
      else if p_at T_UNDERSCORE s then parseLeaf GkWildcardPat s
      else if atAny [T_INT, T_FLOAT, T_STRING, T_RAWSTRING, T_BYTESTRING, T_CHAR, T_BYTE] s
      then parseLeaf GkLiteralPat s
      else if p_at T_MINUS s
      then node GkLiteralPat [emit, whenA (\<lambda>s. \<not> patternAtEnd stops s) [pa stops]] s
      else if atAny [T_DOTDOT, T_DOTDOTEQ] s
      then node GkRangePat [emit, whenA (\<lambda>s. \<not> patternAtEnd stops s) [pa stops]] s
      else if p_at T_LPAREN s then parseTuplePattern pa s
      else if p_at T_IDENT s then parseNamedPattern pa stops s
      else node GkError [emit] s)"

primrec patternAtom_fuel :: "nat \<Rightarrow> Kind list \<Rightarrow> stmt" where
  "patternAtom_fuel 0 = (\<lambda>stops s. Inl OutOfFuel)"
| "patternAtom_fuel (Suc n) = patternAtom_step (patternAtom_fuel n)"

definition parsePatternAtom :: "Kind list \<Rightarrow> stmt" where
  "parsePatternAtom stops s = patternAtom_fuel (Suc (remaining s)) stops s"

definition parsePatternUntil :: "Kind list \<Rightarrow> stmt" where
  "parsePatternUntil stops =
     loopA (\<lambda>s. \<not> atAny stops s \<and> \<not> p_at T_EOF s) [unstalled [parsePattern parsePatternAtom stops]]"

section \<open>Look-ahead\<close>

definition infixBindingPower :: "Kind \<Rightarrow> nat \<times> nat \<times> bool" where
  "infixBindingPower kind =
     (if kind = T_QQ then (2, 2, True)
      else if kind = T_OR then (3, 4, True)
      else if kind = T_AND then (4, 5, True)
      else if kind \<in> set [T_EQ, T_NEQ, T_LT, T_GT, T_LEQ, T_GEQ] then (5, 6, True)
      else if kind \<in> set [T_DOTDOT, T_DOTDOTEQ] then (6, 7, True)
      else if kind = T_BITOR then (7, 8, True)
      else if kind = T_BITXOR then (8, 9, True)
      else if kind = T_BITAND then (9, 10, True)
      else if kind \<in> set [T_SHL, T_SHR] then (10, 11, True)
      else if kind \<in> set [T_PLUS, T_MINUS] then (11, 12, True)
      else if kind \<in> set [T_STAR, T_SLASH, T_PERCENT] then (12, 13, True)
      else if kind \<in> set [T_ASSIGN, T_PLUSEQ, T_MINUSEQ, T_STAREQ, T_SLASHEQ, T_PERCENTEQ, T_BITANDEQ,
                          T_BITOREQ, T_BITXOREQ, T_SHLEQ, T_SHREQ, T_CHANARROW] then (1, 1, True)
      else (0, 0, False))"

definition infixKind :: "greenParser \<Rightarrow> GreenKind" where
  "infixKind s =
     (if p_at T_DOTDOT s then GkRangeExcl
      else if p_at T_DOTDOTEQ s then GkRangeIncl
      else if atAny [T_ASSIGN, T_PLUSEQ, T_MINUSEQ, T_STAREQ, T_SLASHEQ, T_PERCENTEQ, T_BITANDEQ,
                     T_BITOREQ, T_BITXOREQ, T_SHLEQ, T_SHREQ] s then GkAssignStmt
      else if p_at T_CHANARROW s then GkChanSendStmt
      else GkBinary)"

definition tokenStartsBlockStmt :: "Kind \<Rightarrow> bool" where
  "tokenStartsBlockStmt kind \<longleftrightarrow>
     kind \<in> set [T_LET, T_RETURN, T_BREAK, T_CONTINUE, T_DEFER, T_FOR, T_PUB, T_LABEL]"

fun mapLit_scan :: "nat \<Rightarrow> nat \<Rightarrow> nat \<Rightarrow> Kind list \<Rightarrow> bool" where
  "mapLit_scan parenDepth bracketDepth braceDepth [] = False"
| "mapLit_scan parenDepth bracketDepth braceDepth (k # ks) =
     (if k = T_EOF then False
      else if k = T_NEWLINE \<and> parenDepth = 0 \<and> bracketDepth = 0 \<and> braceDepth = 0 then False
      else if k = T_LPAREN then mapLit_scan (parenDepth + 1) bracketDepth braceDepth ks
      else if k = T_RPAREN then mapLit_scan (parenDepth - 1) bracketDepth braceDepth ks
      else if k = T_LBRACKET then mapLit_scan parenDepth (bracketDepth + 1) braceDepth ks
      else if k = T_RBRACKET then mapLit_scan parenDepth (bracketDepth - 1) braceDepth ks
      else if k = T_LBRACE then mapLit_scan parenDepth bracketDepth (braceDepth + 1) ks
      else if k = T_RBRACE
      then (if braceDepth = 0 then False else mapLit_scan parenDepth bracketDepth (braceDepth - 1) ks)
      else if k = T_COLON \<and> parenDepth = 0 \<and> bracketDepth = 0 \<and> braceDepth = 0 then True
      else mapLit_scan parenDepth bracketDepth braceDepth ks)"

definition looksLikeMapLit :: "greenParser \<Rightarrow> bool" where
  "looksLikeMapLit s =
     (if \<not> p_at T_LBRACE s then False
      else
        (let i = skip_newlines_at s (fd_pos s + 1) in
         if kindAt s i = T_COLON then kindAt s (skip_newlines_at s (i + 1)) = T_RBRACE
         else if kindAt s i = T_RBRACE \<or> tokenStartsBlockStmt (kindAt s i) then False
         else mapLit_scan 0 0 0 (map tok_Kind (drop i (fd_toks s)))))"

fun tupleExpr_scan :: "nat \<Rightarrow> nat \<Rightarrow> nat \<Rightarrow> Kind list \<Rightarrow> bool" where
  "tupleExpr_scan parenDepth bracketDepth braceDepth [] = False"
| "tupleExpr_scan parenDepth bracketDepth braceDepth (k # ks) =
     (if k = T_EOF then False
      else if k = T_LPAREN then tupleExpr_scan (parenDepth + 1) bracketDepth braceDepth ks
      else if k = T_RPAREN
      then (if parenDepth = 0 then False else tupleExpr_scan (parenDepth - 1) bracketDepth braceDepth ks)
      else if k = T_LBRACKET then tupleExpr_scan parenDepth (bracketDepth + 1) braceDepth ks
      else if k = T_RBRACKET then tupleExpr_scan parenDepth (bracketDepth - 1) braceDepth ks
      else if k = T_LBRACE then tupleExpr_scan parenDepth bracketDepth (braceDepth + 1) ks
      else if k = T_RBRACE then tupleExpr_scan parenDepth bracketDepth (braceDepth - 1) ks
      else if k = T_COMMA \<and> parenDepth = 0 \<and> bracketDepth = 0 \<and> braceDepth = 0 then True
      else tupleExpr_scan parenDepth bracketDepth braceDepth ks)"

definition looksLikeTupleExpr :: "greenParser \<Rightarrow> bool" where
  "looksLikeTupleExpr s =
     (if \<not> p_at T_LPAREN s then False
      else
        (let i = skip_newlines_at s (fd_pos s + 1) in
         if kindAt s i = T_RPAREN then True
         else tupleExpr_scan 0 0 0 (map tok_Kind (drop i (fd_toks s)))))"

definition atLoopExprStart :: "greenParser \<Rightarrow> bool" where
  "atLoopExprStart s \<longleftrightarrow>
     (atIdentValue ''loop'' s \<and> kindAt s (fd_pos s + 1) = T_LBRACE) \<or>
     (p_at T_LABEL s \<and> kindAt s (fd_pos s + 1) = T_COLON \<and> kindAt s (fd_pos s + 2) = T_IDENT \<and>
      tokenValueAt s (fd_pos s + 2) = ''loop'' \<and> kindAt s (fd_pos s + 3) = T_LBRACE)"

fun forHeader_scan :: "nat \<Rightarrow> nat \<Rightarrow> Token list \<Rightarrow> bool" where
  "forHeader_scan parenDepth bracketDepth [] = False"
| "forHeader_scan parenDepth bracketDepth (t # ts) =
     (let k = tok_Kind t in
      if k = T_EOF \<or> k = T_NEWLINE then False
      else if k = T_LBRACE then False
      else if k = T_LPAREN then forHeader_scan (parenDepth + 1) bracketDepth ts
      else if k = T_RPAREN then forHeader_scan (parenDepth - 1) bracketDepth ts
      else if k = T_LBRACKET then forHeader_scan parenDepth (bracketDepth + 1) ts
      else if k = T_RBRACKET then forHeader_scan parenDepth (bracketDepth - 1) ts
      else if k = T_IDENT \<and> parenDepth = 0 \<and> bracketDepth = 0 \<and> tok_Value t = ''in'' then True
      else forHeader_scan parenDepth bracketDepth ts)"

definition forHeaderHasInBeforeBody :: "greenParser \<Rightarrow> bool" where
  "forHeaderHasInBeforeBody s = forHeader_scan 0 0 (drop (fd_pos s) (fd_toks s))"

fun useGroup_scan :: "bool \<Rightarrow> Kind list \<Rightarrow> bool" where
  "useGroup_scan sawColonColon [] = False"
| "useGroup_scan sawColonColon (k # ks) =
     (if k = T_NEWLINE \<or> k = T_EOF then False
      else if k = T_COLONCOLON then useGroup_scan True ks
      else if k = T_LBRACE then sawColonColon
      else useGroup_scan sawColonColon ks)"

definition useLooksGrouped :: "greenParser \<Rightarrow> nat \<Rightarrow> bool" where
  "useLooksGrouped s start = useGroup_scan False (map tok_Kind (drop start (fd_toks s)))"

section \<open>Expressions and statements\<close>

text \<open>The recursive entry points: \<open>parseExprBP(minBP, stops)\<close>, \<open>parseIf()\<close> (an \<open>else if\<close>) and
  \<open>parseBlock()\<close> (the body of a \<open>for\<close> inside a block).\<close>

datatype expr_nt = NtExprBP nat "Kind list" | NtIf | NtBlock

definition parseExprUntil :: "(expr_nt \<Rightarrow> stmt) \<Rightarrow> Kind list \<Rightarrow> stmt" where
  "parseExprUntil ex stops =
     whenA (\<lambda>s. \<not> (atAny stops s \<or> p_at T_EOF s)) [ex (NtExprBP 0 stops)]"

definition parseExprsUntil :: "(expr_nt \<Rightarrow> stmt) \<Rightarrow> Kind list \<Rightarrow> stmt" where
  "parseExprsUntil ex stops =
     loopA (\<lambda>s. \<not> atAny stops s \<and> \<not> p_at T_EOF s) [unstalled [parseExprUntil ex stops]]"

definition annotationPart :: "(expr_nt \<Rightarrow> stmt) \<Rightarrow> stmt" where
  "annotationPart ex =
     ifA (p_at T_LPAREN)
       [emit,
        itemsUntil T_RPAREN [node GkAnnotationArg [parseExprUntil ex [T_COMMA, T_RPAREN]]],
        eatS T_RPAREN]
       [ifA (p_at T_ASSIGN)
          [emit, node GkAnnotationArg [parseExprUntil ex [T_RBRACKET]]]
          [emit]]"

definition parseAnnotations :: "(expr_nt \<Rightarrow> stmt) \<Rightarrow> stmt" where
  "parseAnnotations ex =
     loopA (\<lambda>s. p_at T_HASH s \<and> kindAt s (fd_pos s + 1) = T_LBRACKET)
       [node GkAnnotation
          [emit, emit, loopA (notAt2 T_RBRACKET) [annotationPart ex], eatS T_RBRACKET],
        skipNewlines]"

definition parseLet :: "(expr_nt \<Rightarrow> stmt) \<Rightarrow> stmt" where
  "parseLet ex = seqs
     [eatS T_PUB, eatS T_LET, eatS T_MUT,
      parsePatternUntil [T_COLON, T_ASSIGN, T_NEWLINE, T_RBRACE, T_EOF],
      ifEat T_COLON [parseTypeUntil [T_ASSIGN, T_NEWLINE, T_RBRACE, T_EOF]] [],
      ifEat T_ASSIGN [parseExprUntil ex [T_NEWLINE, T_RBRACE, T_EOF]] []]"

definition stmtKind :: "greenParser \<Rightarrow> GreenKind" where
  "stmtKind s =
     (if p_at T_LABEL s \<and> kindAt s (fd_pos s + 1) = T_COLON \<and> kindAt s (fd_pos s + 2) = T_FOR then GkForStmt
      else if kindAfterPub s = T_LET then GkLetStmt
      else if kindAfterPub s = T_RETURN then GkReturnStmt
      else if kindAfterPub s = T_BREAK then GkBreakStmt
      else if kindAfterPub s = T_CONTINUE then GkContinueStmt
      else if kindAfterPub s = T_DEFER then GkDeferStmt
      else if kindAfterPub s = T_FOR then GkForStmt
      else GkNone)"

definition forHeader :: "(expr_nt \<Rightarrow> stmt) \<Rightarrow> stmt" where
  "forHeader ex s =
     (if p_at T_LBRACE s then Inr s
      else ifEat T_LET
        [parsePatternUntil [T_ASSIGN, T_LBRACE, T_NEWLINE, T_EOF], eatS T_ASSIGN,
         parseExprsUntil ex [T_LBRACE, T_NEWLINE, T_EOF]]
        [ifA forHeaderHasInBeforeBody
           [parsePattern parsePatternAtom [T_LBRACE, T_NEWLINE, T_EOF],
            whenA (atIdentValue ''in'') [emit],
            parseExprsUntil ex [T_LBRACE, T_NEWLINE, T_EOF]]
           [parseExprsUntil ex [T_LBRACE, T_NEWLINE, T_EOF]]] s)"

definition parseForStmt :: "(expr_nt \<Rightarrow> stmt) \<Rightarrow> stmt" where
  "parseForStmt ex = seqs
     [whenA (\<lambda>s. p_at T_LABEL s \<and> kindAt s (fd_pos s + 1) = T_COLON) [emit, emit],
      eatS T_FOR, forHeader ex, whenA (p_at T_LBRACE) [ex NtBlock]]"

definition parseStmtBody :: "(expr_nt \<Rightarrow> stmt) \<Rightarrow> GreenKind \<Rightarrow> stmt" where
  "parseStmtBody ex kind =
     (if kind = GkLetStmt \<or> kind = GkLetDecl then parseLet ex
      else if kind = GkReturnStmt \<or> kind = GkBreakStmt \<or> kind = GkContinueStmt \<or> kind = GkDeferStmt
      then seqs [emit, parseExprsUntil ex [T_NEWLINE, T_RBRACE, T_EOF]]
      else if kind = GkForStmt then parseForStmt ex
      else seqs [])"

definition parseStmt :: "(expr_nt \<Rightarrow> stmt) \<Rightarrow> stmt" where
  "parseStmt ex =
     withCp (\<lambda>cp.
       [parseAnnotations ex,
        withS (\<lambda>s.
          if stmtKind s = GkNone
          then [nodeAt GkExprStmt cp [unstalled [parseExprsUntil ex [T_NEWLINE, T_RBRACE, T_EOF]]]]
          else [nodeAt (stmtKind s) cp [parseStmtBody ex (stmtKind s)]])])"

definition parseBlock :: "(expr_nt \<Rightarrow> stmt) \<Rightarrow> stmt" where
  "parseBlock ex =
     node GkBlock
       [eatS T_LBRACE,
        loopA (notAt2 T_RBRACE) [ifA (p_at T_NEWLINE) [emit] [parseStmt ex]],
        eatS T_RBRACE]"

definition parseParenOrTuple :: "(expr_nt \<Rightarrow> stmt) \<Rightarrow> stmt" where
  "parseParenOrTuple ex =
     withS (\<lambda>s. [node (if looksLikeTupleExpr s then GkTuple else GkParen)
       [emit, itemsUntil T_RPAREN [parseExprUntil ex [T_COMMA, T_RPAREN]], eatS T_RPAREN]])"

definition parseList :: "(expr_nt \<Rightarrow> stmt) \<Rightarrow> stmt" where
  "parseList ex =
     node GkList [emit, itemsUntil T_RBRACKET [parseExprUntil ex [T_COMMA, T_RBRACKET]], eatS T_RBRACKET]"

definition parseMap :: "(expr_nt \<Rightarrow> stmt) \<Rightarrow> stmt" where
  "parseMap ex =
     node GkMap
       [eatS T_LBRACE,
        ifEat T_COLON
          [skipNewlines, eatS T_RBRACE]
          [itemsUntil T_RBRACE
             [node GkMapEntry
                [unstalled
                   [parseExprUntil ex [T_COLON, T_COMMA, T_RBRACE],
                    ifEat T_COLON [parseExprUntil ex [T_COMMA, T_RBRACE]] []]]],
           eatS T_RBRACE]]"

definition parseIf :: "(expr_nt \<Rightarrow> stmt) \<Rightarrow> stmt" where
  "parseIf ex =
     withS (\<lambda>s. [node (if kindAt s (fd_pos s + 1) = T_LET then GkIfLet else GkIf)
       [emit,
        ifEat T_LET [parsePatternUntil [T_ASSIGN, T_LBRACE, T_NEWLINE, T_EOF], eatS T_ASSIGN] [],
        parseExprsUntil ex [T_LBRACE, T_NEWLINE, T_EOF],
        whenA (p_at T_LBRACE) [parseBlock ex],
        whenA (p_at T_ELSE)
          [node GkElse
             [emit, ifA (p_at T_IF) [ex NtIf] [whenA (p_at T_LBRACE) [parseBlock ex]]]]]])"

definition matchArm :: "(expr_nt \<Rightarrow> stmt) \<Rightarrow> stmt" where
  "matchArm ex =
     node GkMatchArm
       [parsePatternUntil [T_IF, T_ARROW, T_RBRACE],
        ifEat T_IF [parseExprsUntil ex [T_ARROW, T_RBRACE]] [],
        eatS T_ARROW,
        parseExprsUntil ex [T_COMMA, T_NEWLINE, T_RBRACE]]"

definition parseMatch :: "(expr_nt \<Rightarrow> stmt) \<Rightarrow> stmt" where
  "parseMatch ex =
     node GkMatch
       [emit,
        parseExprsUntil ex [T_LBRACE, T_NEWLINE, T_EOF],
        ifEat T_LBRACE
          [node GkMatchArmList [itemsUntil T_RBRACE [matchArm ex]], eatS T_RBRACE] []]"

definition parseLoop :: "(expr_nt \<Rightarrow> stmt) \<Rightarrow> stmt" where
  "parseLoop ex =
     node GkLoop
       [whenA (\<lambda>s. p_at T_LABEL s \<and> kindAt s (fd_pos s + 1) = T_COLON) [emit, emit],
        whenA (atIdentValue ''loop'') [emit],
        whenA (p_at T_LBRACE) [parseBlock ex]]"

definition parseClosureBody :: "(expr_nt \<Rightarrow> stmt) \<Rightarrow> Kind list \<Rightarrow> stmt" where
  "parseClosureBody ex stops =
     ifA (p_at T_LBRACE) [parseBlock ex] [parseExprUntil ex (stops @ [T_NEWLINE, T_RBRACE, T_EOF])]"

definition parseClosureParamList :: stmt where
  "parseClosureParamList =
     node GkParamList
       [eatS T_BITOR,
        itemsUntil T_BITOR
          [node GkParam
             [unstalled
                [parsePatternUntil [T_COLON, T_COMMA, T_BITOR],
                 ifEat T_COLON [parseTypeUntil [T_COMMA, T_BITOR]] []]]],
        eatS T_BITOR]"

definition parseClosure :: "(expr_nt \<Rightarrow> stmt) \<Rightarrow> Kind list \<Rightarrow> stmt" where
  "parseClosure ex stops =
     node GkClosure
       [ifA (p_at T_OR)
          [node GkParamList [emit], parseClosureBody ex stops]
          [whenA (p_at T_BITOR) [parseClosureParamList],
           ifEat T_ARROW [parseTypeUntil [T_LBRACE, T_NEWLINE, T_EOF]] [],
           parseClosureBody ex stops]]"

definition parsePrefix :: "(expr_nt \<Rightarrow> stmt) \<Rightarrow> Kind list \<Rightarrow> stmt" where
  "parsePrefix ex stops s =
     (if atAny stops s \<or> p_at T_EOF s then Inr s
      else if atLoopExprStart s then parseLoop ex s
      else if atAny [T_MINUS, T_NOT, T_BITNOT, T_STAR] s then node GkUnary [emit, ex (NtExprBP 13 stops)] s
      else if p_at T_INT s then parseLeaf GkIntLit s
      else if p_at T_FLOAT s then parseLeaf GkFloatLit s
      else if atAny [T_STRING, T_BYTESTRING] s then parseLeaf GkStringLit s
      else if p_at T_RAWSTRING s then parseLeaf GkRawStringLit s
      else if p_at T_CHAR s then parseLeaf GkCharLit s
      else if p_at T_BYTE s then parseLeaf GkByteLit s
      else if atAny [T_IDENT, T_UNDERSCORE, T_LABEL] s
      then (if atIdentValue ''true'' s \<or> atIdentValue ''false'' s then parseLeaf GkBoolLit s
            else parseLeaf GkIdent s)
      else if p_at T_LPAREN s then parseParenOrTuple ex s
      else if p_at T_LBRACKET s then parseList ex s
      else if p_at T_LBRACE s then (if looksLikeMapLit s then parseMap ex s else parseBlock ex s)
      else if p_at T_IF s then parseIf ex s
      else if p_at T_MATCH s then parseMatch ex s
      else if atAny [T_BITOR, T_OR] s then parseClosure ex stops s
      else node GkError [emit] s)"

definition structLitField :: "(expr_nt \<Rightarrow> stmt) \<Rightarrow> stmt" where
  "structLitField ex =
     node GkStructLitField
       [unstalled
          [ifA (\<lambda>s. p_at T_DOTDOT s \<or> p_at T_DOTDOTEQ s)
             [emit, parseExprUntil ex [T_COMMA, T_RBRACE]]
             [eatS T_IDENT, ifEat T_COLON [parseExprUntil ex [T_COMMA, T_RBRACE]] []]]]"

definition parsePostfix :: "(expr_nt \<Rightarrow> stmt) \<Rightarrow> GreenCheckpoint \<Rightarrow> Kind list \<Rightarrow> flow" where
  "parsePostfix ex lhs stops s =
     (if p_at T_LPAREN s
      then go_on [nodeAt GkCall lhs
             [emit, itemsUntil T_RPAREN [parseExprUntil ex [T_COMMA, T_RPAREN]], eatS T_RPAREN]] s
      else if p_at T_LBRACKET s
      then go_on [nodeAt GkIndex lhs [emit, parseExprUntil ex [T_RBRACKET], eatS T_RBRACKET]] s
      else if atAny [T_DOT, T_QDOT] s then go_on [nodeAt GkFieldAccess lhs [emit, eatS T_IDENT]] s
      else if atAny [T_QUESTION, T_ASQUESTION] s
      then go_on [nodeAt GkQuestion lhs
             [emit, whenA (\<lambda>s. \<not> atAny stops s \<and> \<not> p_at T_EOF s \<and> p_at T_IDENT s) [parseTypeUntil stops]]] s
      else if p_at T_COLONCOLON s
      then go_on [nodeAt GkTurbofish lhs [emit, whenA (p_at T_LT) [parseGenericParamList]]] s
      else if p_at T_LBRACE s
      then go_on [nodeAt GkStructLit lhs [emit, itemsUntil T_RBRACE [structLitField ex], eatS T_RBRACE]] s
      else Inr (False, s))"

definition exprBP_step :: "(expr_nt \<Rightarrow> stmt) \<Rightarrow> GreenCheckpoint \<Rightarrow> nat \<Rightarrow> Kind list \<Rightarrow> flow" where
  "exprBP_step ex lhs minBP stops s =
     bindR (parsePostfix ex lhs stops s) (\<lambda>x.
       if fst x then Inr (True, snd x)
       else (let s1 = snd x; bp = infixBindingPower (peekKind s1) in
         if \<not> snd (snd bp) \<or> fst bp < minBP then Inr (False, s1)
         else go_on [nodeAt (infixKind s1) lhs [emit, ex (NtExprBP (fst (snd bp)) stops)]] s1))"

definition parseExprBP :: "(expr_nt \<Rightarrow> stmt) \<Rightarrow> nat \<Rightarrow> Kind list \<Rightarrow> stmt" where
  "parseExprBP ex minBP stops =
     withCp (\<lambda>lhs.
       [parsePrefix ex stops,
        loopB (\<lambda>s. \<not> (atAny stops s \<or> p_at T_EOF s)) (exprBP_step ex lhs minBP stops)])"

primrec expr_fuel :: "nat \<Rightarrow> expr_nt \<Rightarrow> stmt" where
  "expr_fuel 0 = (\<lambda>nt s. Inl OutOfFuel)"
| "expr_fuel (Suc n) = (\<lambda>nt. case nt of
       NtExprBP minBP stops \<Rightarrow> parseExprBP (expr_fuel n) minBP stops
     | NtIf \<Rightarrow> parseIf (expr_fuel n)
     | NtBlock \<Rightarrow> parseBlock (expr_fuel n))"

text \<open>The closed recursion: enough fuel for the tokens that remain.\<close>

definition expr :: "expr_nt \<Rightarrow> stmt" where
  "expr nt s = expr_fuel (Suc (remaining s)) nt s"

section \<open>Declarations\<close>

definition parseParamList :: stmt where
  "parseParamList =
     whenA (p_at T_LPAREN)
       [node GkParamList
          [emit,
           itemsUntil T_RPAREN
             [node GkParam
                [unstalled
                   [eatS T_MUT, eatS T_IDENT, eatS T_UNDERSCORE,
                    ifEat T_COLON [parseTypeUntil [T_COMMA, T_RPAREN, T_ASSIGN]] [],
                    ifEat T_ASSIGN [parseExprUntil expr [T_COMMA, T_RPAREN]] []]]],
           eatS T_RPAREN]]"

definition parseFnDecl :: stmt where
  "parseFnDecl = seqs
     [eatS T_PUB, eatS T_FN, eatS T_IDENT, parseGenericParamList, parseParamList,
      ifEat T_ARROW [parseTypeUntil [T_LBRACE, T_NEWLINE, T_EOF]] [],
      whenA (p_at T_LBRACE) [parseBlock expr]]"

definition parseFieldLike :: stmt where
  "parseFieldLike = seqs
     [eatS T_PUB, eatS T_IDENT,
      ifEat T_COLON [parseTypeUntil [T_ASSIGN, T_COMMA, T_NEWLINE, T_RBRACE]] [],
      ifEat T_ASSIGN [parseExprUntil expr [T_COMMA, T_NEWLINE, T_RBRACE]] []]"

definition parseVariant :: stmt where
  "parseVariant = seqs
     [eatS T_IDENT,
      whenA (p_at T_LPAREN)
        [node GkFieldList
           [emit, itemsUntil T_RPAREN [parseTypeUntil [T_COMMA, T_RPAREN]], eatS T_RPAREN]]]"

definition parseTypeAlias :: stmt where
  "parseTypeAlias = seqs
     [eatS T_PUB, eatS T_TYPE, eatS T_IDENT, parseGenericParamList,
      ifEat T_ASSIGN [parseTypeUntil [T_NEWLINE, T_EOF]] []]"

definition aggregateMember :: "GreenKind \<Rightarrow> stmt" where
  "aggregateMember kind =
     withCp (\<lambda>cp.
       [parseAnnotations expr,
        ifA (\<lambda>s. kindAfterPub s = T_FN)
          [nodeAt GkFnDecl cp [parseFnDecl]]
          (if kind = GkStructDecl then [nodeAt GkField cp [unstalled [parseFieldLike]]]
           else if kind = GkEnumDecl then [nodeAt GkVariant cp [unstalled [parseVariant]]]
           else if kind = GkInterfaceDecl
           then [nodeAt GkNamedType cp [unstalled [parseTypeUntil [T_NEWLINE, T_RBRACE]]]]
           else [])])"

definition aggregateMembers :: "GreenKind \<Rightarrow> stmt" where
  "aggregateMembers kind =
     loopA (notAt2 T_RBRACE)
       [ifA (\<lambda>s. p_at T_NEWLINE s \<or> p_at T_COMMA s) [emit] [aggregateMember kind]]"

definition parseAggregateDecl :: "GreenKind \<Rightarrow> stmt" where
  "parseAggregateDecl kind = seqs
     [eatS T_PUB, emit, eatS T_IDENT, parseGenericParamList,
      whenA (p_at T_LBRACE)
        [emit,
         if kind = GkEnumDecl then node GkVariantList [aggregateMembers kind] else aggregateMembers kind,
         eatS T_RBRACE]]"

definition parseUseAlias :: stmt where
  "parseUseAlias = node GkUseAlias [emit, whenA (p_at T_IDENT) [emit]]"

abbreviation usePathGoes :: "Kind list \<Rightarrow> greenParser \<Rightarrow> bool" where
  "usePathGoes stops s \<equiv> \<not> atAny stops s \<and> \<not> atUseAliasKeyword s \<and> \<not> p_at T_EOF s"

definition parseUsePathUntil :: "Kind list \<Rightarrow> stmt" where
  "parseUsePathUntil stops =
     whenA (\<lambda>s. \<not> (atAny stops s \<or> atUseAliasKeyword s \<or> p_at T_EOF s))
       [node GkUsePath [loopA (usePathGoes stops) [emit]]]"

definition parseGroupedUseDecl :: stmt where
  "parseGroupedUseDecl =
     node GkUseDecl
       [parseUsePathUntil [T_COMMA, T_RBRACE, T_NEWLINE, T_EOF], whenA atUseAliasKeyword [parseUseAlias]]"

primrec balanced_fuel :: "nat \<Rightarrow> Kind \<Rightarrow> Kind \<Rightarrow> int \<Rightarrow> stmt" where
  "balanced_fuel 0 open close depth s = Inl OutOfFuel"
| "balanced_fuel (Suc n) open close depth s =
     (if p_at T_EOF s then Inr s
      else
        (let depth1 = (if p_at open s then depth + 1 else depth) in
         if p_at close s
         then bindR (emit s) (\<lambda>s'. if depth1 - 1 \<le> 0 then Inr s' else balanced_fuel n open close (depth1 - 1) s')
         else bindR (emit s) (balanced_fuel n open close depth1)))"

definition parseBalancedNode :: "GreenKind \<Rightarrow> Kind \<Rightarrow> Kind \<Rightarrow> stmt" where
  "parseBalancedNode kind open close =
     node kind [\<lambda>s. balanced_fuel (Suc (remaining s)) open close 0 s]"

definition useDeclPart :: "bool \<Rightarrow> stmt" where
  "useDeclPart grouped =
     ifA (\<lambda>s. grouped \<and> p_at T_LBRACE s)
       [emit, itemsUntil T_RBRACE [parseGroupedUseDecl], eatS T_RBRACE]
       [ifA atUseAliasKeyword [parseUseAlias]
          [ifA (p_at T_LBRACE) [parseBalancedNode GkUseFFIBody T_LBRACE T_RBRACE]
             [unstalled [parseUsePathUntil [T_LBRACE, T_NEWLINE, T_EOF]]]]]"

definition parseUseDecl :: "bool \<Rightarrow> stmt" where
  "parseUseDecl grouped = seqs
     [eatS T_PUB, eatS T_USE, parseUsePathUntil [T_LBRACE, T_NEWLINE, T_EOF],
      loopA (\<lambda>s. \<not> p_at T_EOF s \<and> \<not> p_at T_NEWLINE s) [useDeclPart grouped]]"

definition topLevelKind :: "greenParser \<Rightarrow> GreenKind" where
  "topLevelKind s =
     (let i = (if kindAt s (fd_pos s) = T_PUB then fd_pos s + 1 else fd_pos s); k = kindAt s i in
      if k = T_FN then GkFnDecl
      else if k = T_STRUCT then GkStructDecl
      else if k = T_ENUM then GkEnumDecl
      else if k = T_INTERFACE then GkInterfaceDecl
      else if k = T_TYPE then GkTypeAlias
      else if k = T_USE then (if useLooksGrouped s i then GkUsePath else GkUseDecl)
      else if k = T_LET then GkLetDecl
      else if k = T_RETURN then GkReturnStmt
      else if k = T_BREAK then GkBreakStmt
      else if k = T_CONTINUE then GkContinueStmt
      else if k = T_DEFER then GkDeferStmt
      else if k = T_FOR then GkForStmt
      else GkNone)"

definition topLevelBody :: "GreenKind \<Rightarrow> stmt" where
  "topLevelBody kind =
     (if kind = GkFnDecl then parseFnDecl
      else if kind = GkStructDecl then parseAggregateDecl GkStructDecl
      else if kind = GkEnumDecl then parseAggregateDecl GkEnumDecl
      else if kind = GkInterfaceDecl then parseAggregateDecl GkInterfaceDecl
      else if kind = GkTypeAlias then parseTypeAlias
      else if kind = GkUseDecl then parseUseDecl False
      else if kind = GkLetDecl then parseLet expr
      else parseStmtBody expr kind)"

definition parseTopLevel :: stmt where
  "parseTopLevel =
     withCp (\<lambda>cp.
       [parseAnnotations expr,
        withS (\<lambda>s.
          if topLevelKind s = GkUsePath then [nodeAt GkUsePath cp [parseUseDecl True]]
          else if topLevelKind s \<noteq> GkNone then [nodeAt (topLevelKind s) cp [topLevelBody (topLevelKind s)]]
          else [parseStmt expr])])"

section \<open>The driver\<close>

definition newGreenParser :: "bytes \<Rightarrow> Token list \<Rightarrow> Trivia list \<Rightarrow> greenParser" where
  "newGreenParser src toks trivias = feed.extend (new_feed src toks trivias) \<lparr>pendingTypeArgClosers = 0\<rparr>"

definition parse_loop :: stmt where
  "parse_loop = loopA (\<lambda>s. \<not> p_at T_EOF s) [ifA (p_at T_NEWLINE) [emit] [unstalled [parseTopLevel]]]"

definition parse :: "greenParser \<Rightarrow> Tree res" where
  "parse s = bindR (parse_loop (feed_start GkFile s)) feed_close"

definition ParseGreen :: "bytes \<Rightarrow> Token list \<Rightarrow> Trivia list \<Rightarrow> Tree res" where
  "ParseGreen src toks trivias = parse (newGreenParser src toks trivias)"

end
