(* ===== verification/CST_Parse_Rules.thy ===== *)
theory CST_Parse_Rules
  imports CST_Parse
begin

text \<open>
  The program logic for the parser of \<^verbatim>\<open>parse.go\<close>. The judgement \<open>runs c n P b act\<close> says that
  \<open>act\<close>, started where at most \<open>n\<close> tokens remain and \<open>P\<close> holds, returns (no panic, no fuel
  exhausted), keeps the invariant of the builder, only extends what was built, and, if \<open>b\<close>,
  consumes a token. If \<open>c\<close> is a checkpoint, the extension is relative to the state the
  checkpoint was taken in, so that \<open>act\<close> may wrap what was built since then. There is a rule
  for each form of statement; a loop needs a body that consumes a token.
\<close>

section \<open>The judgement\<close>

definition based :: "GreenCheckpoint option \<Rightarrow> greenParser \<Rightarrow> greenParser \<Rightarrow> bool" where
  "based c s0 s \<longleftrightarrow> (case c of None \<Rightarrow> s0 = s
     | Some cp \<Rightarrow> feed_ok s0 \<and> feed_checkpoint s0 = Inr cp \<and> feed_ext s0 s)"

definition reaches :: "greenParser \<Rightarrow> greenParser \<Rightarrow> bool \<Rightarrow> greenParser \<Rightarrow> bool" where
  "reaches s0 s b s' \<longleftrightarrow> feed_ok s' \<and> feed_ext s0 s' \<and> fd_pos s \<le> fd_pos s' \<and> (b \<longrightarrow> fd_pos s < fd_pos s')"

definition ready :: "GreenCheckpoint option \<Rightarrow> nat \<Rightarrow> greenParser \<Rightarrow> greenParser \<Rightarrow> bool" where
  "ready c n s0 s \<longleftrightarrow> feed_ok s \<and> based c s0 s \<and> remaining s \<le> n"

definition runs :: "GreenCheckpoint option \<Rightarrow> nat \<Rightarrow> (greenParser \<Rightarrow> bool) \<Rightarrow> bool \<Rightarrow> stmt \<Rightarrow> bool" where
  "runs c n P b act \<longleftrightarrow>
     (\<forall>s0 s. ready c n s0 s \<longrightarrow> P s \<longrightarrow> (\<exists>s'. act s = Inr s' \<and> reaches s0 s b s'))"

text \<open>The same for a loop body: if it asks to go on, it has consumed a token.\<close>

definition runsF :: "GreenCheckpoint option \<Rightarrow> nat \<Rightarrow> (greenParser \<Rightarrow> bool) \<Rightarrow> bool \<Rightarrow> flow \<Rightarrow> bool" where
  "runsF c n P b act \<longleftrightarrow>
     (\<forall>s0 s. ready c n s0 s \<longrightarrow> P s \<longrightarrow> (\<exists>g s'. act s = Inr (g, s') \<and> reaches s0 s (b \<or> g) s'))"

text \<open>A condition on the tokens and the position only.\<close>

definition view :: "(greenParser \<Rightarrow> bool) \<Rightarrow> bool" where
  "view P \<longleftrightarrow> (\<forall>s s'. fd_toks s = fd_toks s' \<longrightarrow> fd_pos s = fd_pos s' \<longrightarrow> P s = P s')"

lemmas looks = p_at_def atAny_def peekKind_def kindAt_def tokenValueAt_def atIdentValue_def
  atUseAliasKeyword_def kindAfterPub_def tokenKindIn_def patternAtEnd_def

lemma runsI:
  "(\<And>s0 s. ready c n s0 s \<Longrightarrow> P s \<Longrightarrow> \<exists>s'. act s = Inr s' \<and> reaches s0 s b s') \<Longrightarrow> runs c n P b act"
  by (auto simp: runs_def)

lemma runsE:
  assumes "runs c n P b act" "ready c n s0 s" "P s"
  obtains s' where "act s = Inr s'" "reaches s0 s b s'"
  using assms unfolding runs_def by blast

lemma runsFI:
  "(\<And>s0 s. ready c n s0 s \<Longrightarrow> P s \<Longrightarrow> \<exists>g s'. act s = Inr (g, s') \<and> reaches s0 s (b \<or> g) s') \<Longrightarrow> runsF c n P b act"
  by (auto simp: runsF_def)

lemma runsFE:
  assumes "runsF c n P b act" "ready c n s0 s" "P s"
  obtains g s' where "act s = Inr (g, s')" "reaches s0 s (b \<or> g) s'"
  using assms unfolding runsF_def by blast

lemma feed_ext_toks: "feed_ext s s' \<Longrightarrow> fd_toks s' = fd_toks s"
  by (simp add: feed_ext_def same_ctx_def)

lemma feed_ext_pos: "feed_ext s s' \<Longrightarrow> fd_pos s \<le> fd_pos s'"
  by (simp add: feed_ext_def)

lemma based_ext: "feed_ok s \<Longrightarrow> based c s0 s \<Longrightarrow> feed_ext s0 s"
  by (auto simp: based_def feeding.ext_refl split: option.splits)

lemma reaches_toks:
  "feed_ok s \<Longrightarrow> based c s0 s \<Longrightarrow> reaches s0 s b s' \<Longrightarrow> fd_toks s' = fd_toks s"
  using based_ext [of s c s0] feed_ext_toks [of s0 s] feed_ext_toks [of s0 s'] by (simp add: reaches_def)

lemma ready_refl: "ready c n s0 s \<Longrightarrow> reaches s0 s False s"
  by (auto simp: ready_def reaches_def intro: based_ext)

lemma remaining_le:
  "fd_toks s' = fd_toks s \<Longrightarrow> fd_pos s \<le> fd_pos s' \<Longrightarrow> remaining s' \<le> remaining s"
  by (simp add: remaining_def)

lemma remaining_less:
  "fd_toks s' = fd_toks s \<Longrightarrow> fd_pos s < fd_pos s' \<Longrightarrow> fd_pos s' \<le> length (fd_toks s') \<Longrightarrow> remaining s' < remaining s"
  by (simp add: remaining_def)

text \<open>Where an action leads, the next one can start: from the checkpoint's state if there is
  one, otherwise from where the action ended.\<close>

lemma ready_next:
  assumes "ready c n s0 s" "reaches s0 s b s'"
  obtains s1 m where "ready c m s1 s'" "m \<le> n" "b \<Longrightarrow> m < n"
    "\<And>b' s''. reaches s1 s' b' s'' \<Longrightarrow> reaches s0 s (b \<or> b') s''"
proof -
  define s1 where "s1 = (case c of None \<Rightarrow> s' | Some _ \<Rightarrow> s0)"
  have ok: "feed_ok s" "feed_ok s'" "feed_ext s0 s'" "based c s0 s" "fd_pos s \<le> fd_pos s'" "remaining s \<le> n"
    "b \<Longrightarrow> fd_pos s < fd_pos s'"
    using assms by (auto simp: ready_def reaches_def)
  have t: "fd_toks s' = fd_toks s" using reaches_toks [OF ok(1,4) assms(2)] .
  have len: "fd_pos s' \<le> length (fd_toks s')" using ok(2) by (simp add: feed_ok_def)
  have "ready c (remaining s') s1 s'"
    using ok(2,3,4) by (auto simp: ready_def based_def s1_def split: option.splits)
  moreover have "remaining s' \<le> n" using remaining_le [OF t ok(5)] ok(6) by simp
  moreover have "remaining s' < n" if b using remaining_less [OF t ok(7) [OF that] len] ok(6) by simp
  moreover have "reaches s0 s (b \<or> b') s''" if "reaches s1 s' b' s''" for b' s''
  proof -
    have "feed_ext s0 s''"
      using that feeding.ext_trans [OF ok(3), of s''] by (auto simp: reaches_def s1_def split: option.splits)
    then show ?thesis using that ok(5,7) by (auto simp: reaches_def)
  qed
  ultimately show thesis by (rule that)
qed

lemma ready_mono: "ready c m s0 s \<Longrightarrow> m \<le> n \<Longrightarrow> ready c n s0 s"
  by (simp add: ready_def)

lemma reaches_weaken: "reaches s0 s b s' \<Longrightarrow> (b' \<Longrightarrow> b) \<Longrightarrow> reaches s0 s b' s'"
  by (auto simp: reaches_def)

lemma runs_mono:
  assumes "runs c n P b act" "m \<le> n" "\<And>s. Q s \<Longrightarrow> P s" "b' \<Longrightarrow> b"
  shows "runs c m Q b' act"
proof (rule runsI)
  fix s0 s assume "ready c m s0 s" "Q s"
  then obtain s' where "act s = Inr s'" "reaches s0 s b s'"
    using runsE [OF assms(1)] ready_mono [OF _ assms(2)] assms(3) by metis
  then show "\<exists>s'. act s = Inr s' \<and> reaches s0 s b' s'" using reaches_weaken assms(4) by blast
qed

lemma runs_any: "runs c n (\<lambda>s. True) False act \<Longrightarrow> runs c n P False act"
  by (erule runs_mono) auto

lemma runs_strict: "runs c n P True act \<Longrightarrow> runs c n P b act"
  by (erule runs_mono) auto

lemma runs_based:
  assumes "runs None n P b act"
  shows "runs c n P b act"
proof (rule runsI)
  fix s0 s assume r: "ready c n s0 s" "P s"
  then have "ready None n s s" by (simp add: ready_def based_def)
  then obtain s' where s': "act s = Inr s'" "reaches s s b s'" using runsE [OF assms] r(2) by metis
  have "feed_ext s0 s" using r(1) based_ext by (auto simp: ready_def)
  then have "reaches s0 s b s'" using s'(2) feeding.ext_trans by (auto simp: reaches_def)
  with s'(1) show "\<exists>s'. act s = Inr s' \<and> reaches s0 s b s'" by blast
qed

section \<open>Rules for statements\<close>

lemma runs_id: "(\<And>s. P s \<Longrightarrow> act s = Inr s) \<Longrightarrow> runs c n P False act"
proof (rule runsI)
  fix s0 s assume a: "\<And>s. P s \<Longrightarrow> act s = Inr s" and r: "ready c n s0 s" "P s"
  show "\<exists>s'. act s = Inr s' \<and> reaches s0 s False s'" using a [OF r(2)] ready_refl [OF r(1)] by (intro exI [of _ s] conjI)
qed

lemma runs_nil: "runs c n P False (seqs [])"
  by (rule runs_id) simp

lemma seqs_one: "seqs [a] = a"
proof
  fix s show "seqs [a] s = a s" by (cases "a s") simp_all
qed

lemma runs_one: "runs c n P b a \<Longrightarrow> runs c n P b (seqs [a])"
  by (simp add: seqs_one)

lemma view_reached:
  assumes "view P" "ready c n s0 s" "reaches s0 s b s'" "fd_pos s' = fd_pos s" "P s"
  shows "P s'"
proof -
  have "fd_toks s' = fd_toks s" using reaches_toks [OF _ _ assms(3)] assms(2) unfolding ready_def by blast
  with assms(1,4,5) show ?thesis unfolding view_def by blast
qed

text \<open>The general rule for a sequence: if the first statement consumes nothing, what was known
  still is; otherwise the rest has fewer tokens to go.\<close>

lemma runs_seq:
  assumes "view P" "runs c n P False a" "runs c n P b (seqs as)"
    and less: "\<And>m. m < n \<Longrightarrow> runs c m (\<lambda>s. True) False (seqs as)"
  shows "runs c n P b (seqs (a # as))"
proof (rule runsI)
  fix s0 s assume r: "ready c n s0 s" "P s"
  obtain s1 where s1: "a s = Inr s1" "reaches s0 s False s1" using runsE [OF assms(2) r] by metis
  define g where "g \<longleftrightarrow> fd_pos s < fd_pos s1"
  have g: "reaches s0 s g s1" using s1(2) by (auto simp: reaches_def g_def)
  obtain s2 m where n: "ready c m s2 s1" "m \<le> n" "g \<Longrightarrow> m < n"
      "\<And>b' s''. reaches s2 s1 b' s'' \<Longrightarrow> reaches s0 s (g \<or> b') s''"
    using ready_next [OF r(1) g] by metis
  show "\<exists>s'. seqs (a # as) s = Inr s' \<and> reaches s0 s b s'"
  proof (cases g)
    case True
    then obtain s' where "seqs as s1 = Inr s'" "reaches s2 s1 False s'"
      using runsE [OF less [OF n(3)] n(1)] by metis
    then show ?thesis using n(4) [of False s'] s1(1) True reaches_weaken by auto
  next
    case False
    then have "fd_pos s1 = fd_pos s" using s1(2) by (simp add: g_def reaches_def)
    then have "P s1" using view_reached [OF assms(1) r(1) s1(2) _ r(2)] by simp
    then obtain s' where "seqs as s1 = Inr s'" "reaches s2 s1 b s'"
      using runsE [OF assms(3) ready_mono [OF n(1,2)]] by metis
    then show ?thesis using n(4) [of b s'] s1(1) False by auto
  qed
qed

lemma runs_seq0:
  assumes "runs c n P False a" "runs c n (\<lambda>s. True) False (seqs as)"
  shows "runs c n P False (seqs (a # as))"
proof (rule runsI)
  fix s0 s assume r: "ready c n s0 s" "P s"
  obtain s1 where s1: "a s = Inr s1" "reaches s0 s False s1" using runsE [OF assms(1) r] by metis
  obtain s2 m where n: "ready c m s2 s1" "m \<le> n" "\<And>b' s''. reaches s2 s1 b' s'' \<Longrightarrow> reaches s0 s (False \<or> b') s''"
    using ready_next [OF r(1) s1(2)] by metis
  obtain s' where "seqs as s1 = Inr s'" "reaches s2 s1 False s'"
    using runsE [OF assms(2) ready_mono [OF n(1,2)]] by metis
  then show "\<exists>s'. seqs (a # as) s = Inr s' \<and> reaches s0 s False s'" using n(3) s1(1) by auto
qed

lemma runs_seq1:
  assumes "runs c n P True a" "\<And>m. m < n \<Longrightarrow> runs c m (\<lambda>s. True) False (seqs as)"
  shows "runs c n P b (seqs (a # as))"
proof (rule runsI)
  fix s0 s assume r: "ready c n s0 s" "P s"
  obtain s1 where s1: "a s = Inr s1" "reaches s0 s True s1" using runsE [OF assms(1) r] by metis
  obtain s2 m where n: "ready c m s2 s1" "True \<Longrightarrow> m < n" "\<And>b' s''. reaches s2 s1 b' s'' \<Longrightarrow> reaches s0 s (True \<or> b') s''"
    using ready_next [OF r(1) s1(2)] by metis
  obtain s' where "seqs as s1 = Inr s'" "reaches s2 s1 False s'"
    using runsE [OF assms(2) n(1)] n(2) by metis
  then show "\<exists>s'. seqs (a # as) s = Inr s' \<and> reaches s0 s b s'"
    using n(3) [of False s'] s1(1) reaches_weaken [of s0 s True s' b] by auto
qed

lemma runs_seq1':
  "runs c n P True a \<Longrightarrow> runs c n (\<lambda>s. True) False (seqs as) \<Longrightarrow> runs c n P b (seqs (a # as))"
  by (rule runs_seq1) (auto elim: runs_mono)

lemma runs_append:
  assumes "runs c n P b (seqs (as @ bs))"
  shows "runs c n P b (\<lambda>s. bindR (seqs as s) (seqs bs))"
  using assms by (simp add: seqs_append runs_def)

lemma runs_if:
  assumes "runs c n (\<lambda>s. P s \<and> q s) b (seqs as)" "runs c n (\<lambda>s. P s \<and> \<not> q s) b (seqs bs)"
  shows "runs c n P b (ifA q as bs)"
  using assms by (auto simp: runs_def ifA_def)

lemma runs_cond:
  assumes "runs c n (\<lambda>s. P s \<and> q s) b f" "runs c n (\<lambda>s. P s \<and> \<not> q s) b g"
  shows "runs c n P b (\<lambda>s. if q s then f s else g s)"
  using assms by (auto simp: runs_def)

lemma runs_when:
  assumes "runs c n (\<lambda>s. P s \<and> q s) b (seqs as)" "b \<Longrightarrow> (\<And>s. P s \<Longrightarrow> q s)"
  shows "runs c n P b (whenA q as)"
proof (rule runsI)
  fix s0 s assume r: "ready c n s0 s" "P s"
  show "\<exists>s'. whenA q as s = Inr s' \<and> reaches s0 s b s'"
  proof (cases "q s")
    case True
    then show ?thesis using runsE [OF assms(1) r(1)] r(2) unfolding whenA_def by metis
  next
    case False
    then have "\<not> b" using assms(2) r(2) by blast
    then show ?thesis using False ready_refl [OF r(1)] by (auto simp: whenA_def)
  qed
qed

lemma runs_withS:
  assumes "\<And>s1. P s1 \<Longrightarrow> runs c n (\<lambda>s. P s \<and> s = s1) b (seqs (f s1))"
  shows "runs c n P b (withS f)"
  using assms by (auto simp: runs_def withS_def)


section \<open>Tokens\<close>

lemma p_at_EOF: "p_at T_EOF s \<longleftrightarrow> fd_pos s \<ge> length (fd_toks s) \<or> isEOF (fd_toks s ! fd_pos s)"
  by (auto simp: looks isEOF_def)

lemma emit_runs:
  assumes "ready c n s0 s"
  shows "\<exists>s'. emit s = Inr s' \<and> reaches s0 s (\<not> p_at T_EOF s) s'"
proof (cases "p_at T_EOF s")
  case True
  then show ?thesis using ready_refl [OF assms] by (auto simp: emit_def p_at_EOF)
next
  case False
  then obtain s' where s': "feed_emit s = Inr s'" "feed_ok s'" "feed_ext s s'" "fd_pos s' = Suc (fd_pos s)"
    using feed_emit_ok [of s] assms by (auto simp: p_at_EOF ready_def)
  have "feed_ext s0 s'"
    using feeding.ext_trans [OF _ s'(3)] based_ext assms by (auto simp: ready_def)
  then have "reaches s0 s True s'" using s' by (simp add: reaches_def)
  moreover have "emit s = Inr s'" using False s'(1) by (auto simp: emit_def p_at_EOF)
  ultimately show ?thesis using False by auto
qed

lemma runs_emit:
  assumes "b \<Longrightarrow> (\<And>s. P s \<Longrightarrow> \<not> p_at T_EOF s)"
  shows "runs c n P b emit"
proof (rule runsI)
  fix s0 s assume r: "ready c n s0 s" "P s"
  then show "\<exists>s'. emit s = Inr s' \<and> reaches s0 s b s'"
    using emit_runs [OF r(1)] assms r(2) reaches_weaken by blast
qed

text \<open>\<open>eat\<close> either takes a token or leaves the state alone.\<close>

lemma eat_cases:
  assumes "ready c n s0 s" "k \<noteq> T_EOF"
  obtains s' where "p_at k s" "eat k s = Inr (True, s')" "reaches s0 s True s'"
  | "\<not> p_at k s" "eat k s = Inr (False, s)"
proof (cases "p_at k s")
  case True
  then have "\<not> p_at T_EOF s" using assms(2) by (simp add: p_at_def)
  then obtain s' where "emit s = Inr s'" "reaches s0 s True s'" using emit_runs [OF assms(1)] by auto
  then show thesis using that(1) True by (simp add: eat_def)
next
  case False
  then show thesis using that(2) by (simp add: eat_def)
qed

lemma runs_eatS:
  assumes "k \<noteq> T_EOF" "b \<Longrightarrow> (\<And>s. P s \<Longrightarrow> p_at k s)"
  shows "runs c n P b (eatS k)"
proof (rule runsI)
  fix s0 s assume r: "ready c n s0 s" "P s"
  from r(1) assms(1) show "\<exists>s'. eatS k s = Inr s' \<and> reaches s0 s b s'"
  proof (cases rule: eat_cases)
    case (1 s')
    then show ?thesis using reaches_weaken by (auto simp: eatS_def)
  next
    case 2
    then have "\<not> b" using assms(2) r(2) by blast
    then show ?thesis using 2 ready_refl [OF r(1)] by (auto simp: eatS_def)
  qed
qed

lemma runs_ifEat:
  assumes k: "k \<noteq> T_EOF" and less: "\<And>m. m < n \<Longrightarrow> runs c m (\<lambda>s. True) False (seqs as)"
    and els: "runs c n (\<lambda>s. P s \<and> \<not> p_at k s) b (seqs bs)"
  shows "runs c n P b (ifEat k as bs)"
proof (rule runsI)
  fix s0 s assume r: "ready c n s0 s" "P s"
  from r(1) k show "\<exists>s'. ifEat k as bs s = Inr s' \<and> reaches s0 s b s'"
  proof (cases rule: eat_cases)
    case (1 s1)
    obtain s2 m where n: "ready c m s2 s1" "True \<Longrightarrow> m < n"
        "\<And>b' s''. reaches s2 s1 b' s'' \<Longrightarrow> reaches s0 s (True \<or> b') s''"
      using ready_next [OF r(1) 1(3)] by metis
    obtain s' where "seqs as s1 = Inr s'" "reaches s2 s1 False s'"
      using runsE [OF less n(1)] n(2) by metis
    then show ?thesis using 1(2) n(3) [of False s'] reaches_weaken [of s0 s True s' b] by (simp add: ifEat_def)
  next
    case 2
    obtain s' where "seqs bs s = Inr s'" "reaches s0 s b s'" using runsE [OF els r(1)] r(2) 2(1) by metis
    then show ?thesis using 2(2) by (simp add: ifEat_def)
  qed
qed

text \<open>A leading \<open>p.eat(k)\<close>: either something was consumed, or the rest starts where \<open>k\<close> is not next.\<close>

lemma runs_eat_seq:
  assumes k: "k \<noteq> T_EOF" and less: "\<And>m. m < n \<Longrightarrow> runs c m (\<lambda>s. True) False (seqs as)"
    and els: "runs c n (\<lambda>s. P s \<and> \<not> p_at k s) b (seqs as)"
  shows "runs c n P b (seqs (eatS k # as))"
proof -
  have "seqs (eatS k # as) = ifEat k as as"
    by (rule ext) (simp add: eatS_def ifEat_def bindR_def split: sum.split)
  then show ?thesis using runs_ifEat [OF k less els] by simp
qed

section \<open>Nodes\<close>

lemma view_builder:
  assumes "view P"
  shows "P (s\<lparr>fd_b := x\<rparr>) = P s"
  using assms [unfolded view_def, rule_format, of "s\<lparr>fd_b := x\<rparr>" s] by simp

lemma runs_node:
  assumes v: "view P" and body: "runs None n P b (seqs as)"
  shows "runs c n P b (node k as)"
proof (rule runs_based, rule runsI)
  fix s0 s assume r: "ready None n s0 s" "P s"
  let ?s = "feed_start k s"
  have ok: "feed_ok s" "s0 = s" using r(1) by (auto simp: ready_def based_def)
  have "ready None n ?s ?s"
    using r(1) feeding.start_ok [OF ok(1)] by (auto simp: ready_def based_def remaining_def feed_start_def)
  moreover have "P ?s" using r(2) view_builder [OF v] by (simp add: feed_start_def)
  ultimately obtain s2 where s2: "seqs as ?s = Inr s2" "reaches ?s ?s b s2" using runsE [OF body] by metis
  then obtain s3 where s3: "feed_finish s2 = Inr s3" "feed_ok s3" "feed_ext s s3"
    using feeding.finish_start [OF ok(1), of s2 k] by (auto simp: reaches_def)
  have "fd_pos s3 = fd_pos s2" using s3(1) by (auto simp: feed_finish_def bindR_eq_Inr)
  then have "reaches s s b s3" using s2(2) s3(2,3) by (auto simp: reaches_def feed_start_def)
  then show "\<exists>s'. node k as s = Inr s' \<and> reaches s0 s b s'" using s2(1) s3(1) ok(2) by (simp add: node_def)
qed

lemma runs_nodeAt:
  assumes v: "view P" and body: "runs None n P b (seqs as)"
  shows "runs (Some cp) n P b (nodeAt k cp as)"
proof (rule runsI)
  fix s0 s assume r: "ready (Some cp) n s0 s" "P s"
  have ok: "feed_ok s" "feed_ok s0" "feed_checkpoint s0 = Inr cp" "feed_ext s0 s"
    using r(1) by (auto simp: ready_def based_def)
  obtain s1 where s1: "feed_startAt k cp s = Inr s1" "feed_ok s1"
    using feeding.startAt_total [OF ok(2,3,1,4)] by blast
  then obtain x where x: "s1 = s\<lparr>fd_b := x\<rparr>" by (auto simp: feed_startAt_def bindR_eq_Inr)
  have "ready None n s1 s1" using r(1) s1(2) by (auto simp: ready_def based_def remaining_def x)
  moreover have "P s1" using r(2) view_builder [OF v] by (simp add: x)
  ultimately obtain s2 where s2: "seqs as s1 = Inr s2" "reaches s1 s1 b s2" using runsE [OF body] by metis
  then obtain s3 where s3: "feed_finish s2 = Inr s3" "feed_ok s3" "feed_ext s0 s3"
    using feeding.finish_startAt [OF ok(2,3,1,4) s1(1), of s2] by (auto simp: reaches_def)
  have "fd_pos s3 = fd_pos s2" using s3(1) by (auto simp: feed_finish_def bindR_eq_Inr)
  then have "reaches s0 s b s3" using s2(2) s3(2,3) x by (auto simp: reaches_def)
  then show "\<exists>s'. nodeAt k cp as s = Inr s' \<and> reaches s0 s b s'" using s1(1) s2(1) s3(1) by (simp add: nodeAt_def)
qed

lemma runs_withCp:
  assumes "\<And>cp. runs (Some cp) n P b (seqs (f cp))"
  shows "runs c n P b (withCp f)"
proof (rule runs_based, rule runsI)
  fix s0 s assume r: "ready None n s0 s" "P s"
  then have ok: "feed_ok s" "s0 = s" by (auto simp: ready_def based_def)
  obtain cp where cp: "feed_checkpoint s = Inr cp" using feeding.checkpoint_total [OF ok(1)] by blast
  have "ready (Some cp) n s s" using r(1) cp feeding.ext_refl [OF ok(1)] by (simp add: ready_def based_def)
  then obtain s' where "seqs (f cp) s = Inr s'" "reaches s s b s'" using runsE [OF assms] r(2) by metis
  then show "\<exists>s'. withCp f s = Inr s' \<and> reaches s0 s b s'" using cp ok(2) by (simp add: withCp_def)
qed

section \<open>Loops\<close>

lemma runsF_go_on: "runs c n P True (seqs as) \<Longrightarrow> runsF c n P b (go_on as)"
proof (rule runsFI)
  fix s0 s assume a: "runs c n P True (seqs as)" and r: "ready c n s0 s" "P s"
  obtain s' where s': "seqs as s = Inr s'" "reaches s0 s True s'" using runsE [OF a r] by metis
  then show "\<exists>g s'. go_on as s = Inr (g, s') \<and> reaches s0 s (b \<or> g) s'"
    by (intro exI [of _ True] exI [of _ s']) (simp add: go_on_def)
qed

lemma runsF_break: "runs c n P b (seqs as) \<Longrightarrow> runsF c n P b (break_after as)"
proof (rule runsFI)
  fix s0 s assume a: "runs c n P b (seqs as)" and r: "ready c n s0 s" "P s"
  obtain s' where s': "seqs as s = Inr s'" "reaches s0 s b s'" using runsE [OF a r] by metis
  then show "\<exists>g s'. break_after as s = Inr (g, s') \<and> reaches s0 s (b \<or> g) s'"
    by (intro exI [of _ False] exI [of _ s']) (simp add: break_after_def)
qed

lemma runsF_stop: "runsF c n P False (\<lambda>s. Inr (False, s))"
  by (rule runsFI, drule ready_refl) auto

lemma runsF_cond:
  assumes "runsF c n (\<lambda>s. P s \<and> q s) b f" "runsF c n (\<lambda>s. P s \<and> \<not> q s) b g"
  shows "runsF c n P b (\<lambda>s. if q s then f s else g s)"
  using assms by (auto simp: runsF_def)

lemma loop_fuel_runs:
  assumes "runsF c n q b body" "ready c n s0 s" "remaining s < k" "b \<Longrightarrow> b' \<Longrightarrow> q s" "b' \<Longrightarrow> b"
  shows "\<exists>s'. loop_fuel k q body s = Inr s' \<and> reaches s0 s b' s'"
  using assms(2-)
proof (induction k arbitrary: s0 s b')
  case (Suc k)
  show ?case
  proof (cases "q s")
    case False
    then have "\<not> b'" using Suc.prems(3,4) by blast
    then show ?thesis using False ready_refl [OF Suc.prems(1)] by auto
  next
    case True
    obtain g s1 where s1: "body s = Inr (g, s1)" "reaches s0 s (b \<or> g) s1"
      using runsFE [OF assms(1) Suc.prems(1) True] by metis
    show ?thesis
    proof (cases g)
      case False
      then show ?thesis using s1 True Suc.prems(4) reaches_weaken [of s0 s b s1 b'] by auto
    next
      case g: True
      obtain s2 m where n: "ready c m s2 s1" "m \<le> n"
          "\<And>b' s''. reaches s2 s1 b' s'' \<Longrightarrow> reaches s0 s ((b \<or> g) \<or> b') s''"
        using ready_next [OF Suc.prems(1) s1(2)] by metis
      have "remaining s1 < remaining s"
        using s1(2) g remaining_less [of s1 s] reaches_toks [of s c s0 "b \<or> g" s1] Suc.prems(1)
        by (auto simp: ready_def reaches_def feed_ok_def)
      then have "remaining s1 < k" using Suc.prems(2) by simp
      then obtain s' where "loop_fuel k q body s1 = Inr s'" "reaches s2 s1 False s'"
        using Suc.IH [OF ready_mono [OF n(1,2)], of False] by auto
      then show ?thesis using n(3) [of False s'] s1(1) True g reaches_weaken [of s0 s True s' b'] by auto
    qed
  qed
qed simp

lemma runs_loopB:
  assumes "runsF c n q b body" "b \<Longrightarrow> (\<And>s. P s \<Longrightarrow> q s)"
  shows "runs c n P b (loopB q body)"
proof (rule runsI)
  fix s0 s assume r: "ready c n s0 s" "P s"
  then show "\<exists>s'. loopB q body s = Inr s' \<and> reaches s0 s b s'"
    using loop_fuel_runs [OF assms(1) r(1), of "Suc (remaining s)" b] assms(2) by (simp add: loopB_def)
qed

lemma runs_loopA:
  assumes "runs c n q True (seqs body)" "b \<Longrightarrow> (\<And>s. P s \<Longrightarrow> q s)"
  shows "runs c n P b (loopA q body)"
  unfolding loopA_def by (rule runs_loopB [OF runsF_go_on [OF assms(1)] assms(2)])

lemma runs_items:
  assumes "runs c n (\<lambda>s. notAt2 k s \<and> \<not> atSep s) True (seqs as)"
  shows "runs c n P False (itemsUntil k as)"
  unfolding itemsUntil_def
  by (rule runs_loopA, rule runs_one, rule runs_if, rule runs_one, rule runs_emit) (use assms in auto)

section \<open>Progress\<close>

lemma runs_recover:
  assumes "view P" "runs c n P False (seqs as)" "b \<Longrightarrow> (\<And>s. P s \<Longrightarrow> \<not> p_at T_EOF s)"
  shows "runs c n P b (unstalled as)" "runs c n P b (unstalledEmit as)"
proof -
  have emit1: "runs c n (\<lambda>s. \<not> p_at T_EOF s) True (node GkErrorExtra [emit])"
    by (intro runs_node runs_one runs_emit) (auto simp: view_def looks)
  have *: "\<exists>s'. bindR (seqs as s) f = Inr s' \<and> reaches s0 s b s'"
    if r: "ready c n s0 s" "P s" and moved: "\<And>s1. fd_pos s1 \<noteq> fd_pos s \<Longrightarrow> f s1 = Inr s1"
      and stalled: "\<And>s1 s2. ready c n s2 s1 \<Longrightarrow> fd_pos s1 = fd_pos s \<Longrightarrow> \<exists>s'. f s1 = Inr s' \<and> reaches s2 s1 (\<not> p_at T_EOF s1) s'"
    for s0 s f
  proof -
    obtain s1 where s1: "seqs as s = Inr s1" "reaches s0 s False s1" using runsE [OF assms(2) r] by metis
    show ?thesis
    proof (cases "fd_pos s1 = fd_pos s")
      case False
      then have "reaches s0 s b s1" using s1(2) by (auto simp: reaches_def)
      then show ?thesis using s1(1) moved [OF False] by simp
    next
      case True
      have "P s1" using view_reached [OF assms(1) r(1) s1(2) True r(2)] .
      obtain s2 m where n: "ready c m s2 s1" "m \<le> n" "\<And>b' s''. reaches s2 s1 b' s'' \<Longrightarrow> reaches s0 s (False \<or> b') s''"
        using ready_next [OF r(1) s1(2)] by metis
      then obtain s' where s': "f s1 = Inr s'" "reaches s2 s1 (\<not> p_at T_EOF s1) s'"
        using stalled [OF ready_mono [OF n(1,2)] True] by metis
      then have "reaches s2 s1 b s'" using reaches_weaken assms(3) \<open>P s1\<close> by blast
      then show ?thesis using n(3) s1(1) s'(1) by auto
    qed
  qed
  show "runs c n P b (unstalled as)"
  proof (rule runsI)
    fix s0 s assume r: "ready c n s0 s" "P s"
    have "\<exists>s'. bindR (seqs as s) (recoverIfStalled (fd_pos s)) = Inr s' \<and> reaches s0 s b s'"
    proof (rule * [OF r])
      fix s1 s2 assume r1: "ready c n s2 s1" "fd_pos s1 = fd_pos s"
      show "\<exists>s'. recoverIfStalled (fd_pos s) s1 = Inr s' \<and> reaches s2 s1 (\<not> p_at T_EOF s1) s'"
      proof (cases "p_at T_EOF s1")
        case True
        then show ?thesis using ready_refl [OF r1(1)] by (auto simp: recoverIfStalled_def)
      next
        case False
        obtain s' where "node GkErrorExtra [emit] s1 = Inr s'" "reaches s2 s1 True s'"
          using runsE [OF emit1 r1(1) False] by metis
        then show ?thesis using False r1(2) by (simp add: recoverIfStalled_def)
      qed
    qed (simp add: recoverIfStalled_def)
    then show "\<exists>s'. unstalled as s = Inr s' \<and> reaches s0 s b s'"
      by (simp add: unstalled_def withS_def seqs_append seqs_one)
  qed
  show "runs c n P b (unstalledEmit as)"
  proof (rule runsI)
    fix s0 s assume r: "ready c n s0 s" "P s"
    have "\<exists>s'. bindR (seqs as s) (whenA (\<lambda>s'. fd_pos s' = fd_pos s) [emit]) = Inr s' \<and> reaches s0 s b s'"
    proof (rule * [OF r])
      fix s1 s2 assume r1: "ready c n s2 s1" "fd_pos s1 = fd_pos s"
      show "\<exists>s'. whenA (\<lambda>s'. fd_pos s' = fd_pos s) [emit] s1 = Inr s' \<and> reaches s2 s1 (\<not> p_at T_EOF s1) s'"
        using emit_runs [OF r1(1)] r1(2) by (simp add: whenA_def seqs_one del: seqs.simps)
    qed (simp add: whenA_def)
    then show "\<exists>s'. unstalledEmit as s = Inr s' \<and> reaches s0 s b s'"
      by (simp add: unstalledEmit_def withS_def seqs_append seqs_one)
  qed
qed

section \<open>Rule sets\<close>

text \<open>Conditions on the look-ahead are views.\<close>

lemma view_const: "view (\<lambda>s. b)" by (simp add: view_def)

lemma view_not: "view P \<Longrightarrow> view (\<lambda>s. \<not> P s)" unfolding view_def by blast

lemma view_conj: "view P \<Longrightarrow> view Q \<Longrightarrow> view (\<lambda>s. P s \<and> Q s)" unfolding view_def by blast

lemma view_disj: "view P \<Longrightarrow> view Q \<Longrightarrow> view (\<lambda>s. P s \<or> Q s)" unfolding view_def by blast

lemma view_look:
  "view (\<lambda>s. p_at k s)" "view (\<lambda>s. atAny ks s)" "view (\<lambda>s. peekKind s = k)" "view (\<lambda>s. kindAt s (fd_pos s + i) = k)"
  "view (\<lambda>s. atIdentValue v s)" "view (\<lambda>s. kindAfterPub s = k)" "view (\<lambda>s. atUseAliasKeyword s)"
  "view (\<lambda>s. patternAtEnd ks s)"
  by (simp_all add: view_def looks)

lemmas views = view_const view_not view_conj view_disj view_look

text \<open>The rules that keep the bound, for sequences of at least two statements.\<close>

lemma runs_seq0_2: "runs c n P False a \<Longrightarrow> runs c n (\<lambda>s. True) False (seqs (a' # as)) \<Longrightarrow>
    runs c n P False (seqs (a # a' # as))"
  by (rule runs_seq0)

lemma runs_seq1_2: "runs c n P True a \<Longrightarrow> runs c n (\<lambda>s. True) False (seqs (a' # as)) \<Longrightarrow>
    runs c n P True (seqs (a # a' # as))"
  by (rule runs_seq1')

lemma runs_ifEat0: "k \<noteq> T_EOF \<Longrightarrow> runs c n (\<lambda>s. True) False (seqs as) \<Longrightarrow>
    runs c n (\<lambda>s. P s \<and> \<not> p_at k s) False (seqs bs) \<Longrightarrow> runs c n P False (ifEat k as bs)"
  by (rule runs_ifEat) (auto elim: runs_mono)

lemmas stmt_rules = runs_nil runs_one runs_seq0_2 runs_seq1_2 runs_node runs_nodeAt runs_withCp runs_emit runs_eatS
  runs_if runs_when runs_ifEat0 runs_loopA runs_items runs_recover

text \<open>Lemmas about the parser's functions.\<close>

named_theorems parses

lemma skipNewlines_runs [parses]: "runs c n P False skipNewlines"
  unfolding skipNewlines_def by (intro stmt_rules) (auto simp: p_at_def)

lemma parseLeaf_runs [parses]: "runs c n P False (parseLeaf k)"
  unfolding parseLeaf_def by (rule runs_any) (intro stmt_rules views; simp)

lemma parseLeaf_adv [parses]:
  assumes "\<And>s. P s \<Longrightarrow> \<not> p_at T_EOF s"
  shows "runs c n P True (parseLeaf k)"
proof (rule runs_mono)
  show "runs c n (\<lambda>s. \<not> p_at T_EOF s) True (parseLeaf k)"
    unfolding parseLeaf_def by (intro stmt_rules views; simp)
qed (use assms in auto)

end
