(* ===== verification/CST_Parse_Total.thy ===== *)
theory CST_Parse_Total
  imports CST_Parse_Rules
begin

text \<open>
  Totality and losslessness of the parser: a lemma per function of \<^verbatim>\<open>parse.go\<close> (it runs from
  anywhere, and consumes a token where its callers rely on that), the fuel of the three
  recursive groups, and the theorems about \<open>ParseGreen\<close>.
\<close>

section \<open>Types\<close>

definition types_run :: "nat \<Rightarrow> (Kind list \<Rightarrow> stmt) \<Rightarrow> bool" where
  "types_run n tu \<longleftrightarrow> (\<forall>stops. runs None n (\<lambda>s. True) False (tu stops))"

lemma types_runD: "types_run n tu \<Longrightarrow> runs c n P False (tu stops)"
  unfolding types_run_def by (rule runs_any, rule runs_based) blast

definition types_below :: "nat \<Rightarrow> (Kind list \<Rightarrow> stmt) \<Rightarrow> bool" where
  "types_below n tu \<longleftrightarrow> (\<forall>m < n. types_run m tu)"

lemma types_belowD: "types_below n tu \<Longrightarrow> m < n \<Longrightarrow> types_run m tu"
  by (simp add: types_below_def)

lemma runsF_weaken: "runsF c n P b act \<Longrightarrow> runsF c n P False act"
  unfolding runsF_def using reaches_weaken by (metis (no_types, lifting))

lemma parseOptionalTypeSuffixes_runs [parses]: "runs c n P False parseOptionalTypeSuffixes"
  unfolding parseOptionalTypeSuffixes_def by (intro stmt_rules views) (auto simp: p_at_def)

lemma parseUnitType_adv [parses]: "runs c n (\<lambda>s. p_at T_LPAREN s) True parseUnitType"
  unfolding parseUnitType_def by (intro stmt_rules views parses) auto

text \<open>The functions that call \<open>parseTypeUntil\<close> only after a token.\<close>

lemma runs_emit_then:
  "(\<And>s. P s \<Longrightarrow> \<not> p_at T_EOF s) \<Longrightarrow> (\<And>m. m < n \<Longrightarrow> runs c m (\<lambda>s. True) False (seqs as)) \<Longrightarrow>
    runs c n P b (seqs (emit # as))"
  by (rule runs_seq1, rule runs_emit)

lemma runs_eat_then:
  "k \<noteq> T_EOF \<Longrightarrow> (\<And>s. P s \<Longrightarrow> p_at k s) \<Longrightarrow> (\<And>m. m < n \<Longrightarrow> runs c m (\<lambda>s. True) False (seqs as)) \<Longrightarrow>
    runs c n P b (seqs (eatS k # as))"
  by (rule runs_seq1, rule runs_eatS)

lemma parseFunctionType_adv:
  assumes "types_below n tu"
  shows "runs c n (\<lambda>s. p_at T_FN s) True (parseFunctionType tu stops)"
  unfolding parseFunctionType_def
  by (intro runs_node views, rule runs_eat_then, simp, simp)
    (intro stmt_rules views types_runD types_belowD [OF assms]; simp)

lemma parseTupleType_adv:
  assumes "types_below n tu"
  shows "runs c n (\<lambda>s. p_at T_LPAREN s) True (parseTupleType tu)"
  unfolding parseTupleType_def
  by (intro runs_node views, rule runs_eat_then, simp, simp)
    (intro stmt_rules views types_runD types_belowD [OF assms]; simp)

lemma parseListType_adv:
  assumes "types_below n tu"
  shows "runs c n (\<lambda>s. p_at T_LBRACKET s) True (parseListType tu)"
  unfolding parseListType_def
  by (intro runs_node views, rule runs_eat_then, simp, simp)
    (intro stmt_rules views types_runD types_belowD [OF assms]; simp)

lemma closers_reach:
  "reaches s0 s b s' \<Longrightarrow> reaches s0 s b (s'\<lparr>pendingTypeArgClosers := x\<rparr>)"
proof -
  let ?s = "s'\<lparr>pendingTypeArgClosers := x\<rparr>"
  have "ids_ok ?s = ids_ok s'" by (rule ext) (simp add: ids_ok_def)
  then have "feed_ok ?s = feed_ok s'" by (simp add: feed_ok_def)
  moreover have "feed_ext s0 ?s = feed_ext s0 s'" by (simp add: feed_ext_def same_ctx_def received_def)
  ultimately show "reaches s0 s b s' \<Longrightarrow> reaches s0 s b ?s" by (simp add: reaches_def)
qed

lemma runs_closers: "runs c n P False closersDec" "runs c n P False closersInc"
  by (rule runsI, drule ready_refl, simp add: closersDec_def closersInc_def closers_reach)+

lemma typeArg_runs:
  assumes "types_run n tu"
  shows "runsF c n (\<lambda>s. \<not> p_at T_EOF s) False (typeArg tu)"
proof -
  let ?arg = "node GkGenericParam [unstalledEmit [tu [T_COMMA, T_GT, T_SHR, T_NEWLINE]]]"
  have "runs c n (\<lambda>s. \<not> p_at T_EOF s) True ?arg"
    by (intro stmt_rules views types_runD assms)
  note arg1 = this
  have arg: "runsF c n (\<lambda>s. \<not> p_at T_EOF s) False (\<lambda>s. bindR (?arg s)
      (\<lambda>s'. if pendingTypeArgClosers s' > 0 then break_after [closersDec] s' else Inr (True, s')))"
  proof (rule runsFI)
    fix s0 s assume "ready c n s0 s" "\<not> p_at T_EOF s"
    then obtain s1 where s1: "?arg s = Inr s1" "reaches s0 s True s1" using runsE [OF arg1] by metis
    let ?g = "pendingTypeArgClosers s1 = 0"
    show "\<exists>g s'. bindR (?arg s) (\<lambda>s'. if pendingTypeArgClosers s' > 0 then break_after [closersDec] s'
        else Inr (True, s')) = Inr (g, s') \<and> reaches s0 s (False \<or> g) s'"
      using s1 closers_reach [OF reaches_weaken [OF s1(2), of False]]
      by (cases ?g) (auto simp: break_after_def closersDec_def)
  qed
  show ?thesis
    unfolding typeArg_def [abs_def]
    by (intro runsF_cond runsF_break runsF_go_on stmt_rules runs_closers)
      (use arg in \<open>auto simp: runsF_def p_at_def\<close>)
qed

lemma parseTypeArgList_runs:
  assumes "types_below n tu"
  shows "runs c n P False (parseTypeArgList tu)"
  unfolding parseTypeArgList_def
  by (rule runs_any, intro runs_when runs_one runs_node views, rule runs_emit_then, simp add: p_at_def)
    (rule runs_one, rule runs_loopB, rule typeArg_runs, rule types_belowD [OF assms], auto)

lemma dottedTail_runs [parses]: "runs c n P False dottedTail"
  unfolding dottedTail_def by (intro stmt_rules) (auto simp: p_at_def)

lemma parseTypeAtom_runs:
  assumes "types_below n tu"
  shows "runsF c n P False (parseTypeAtom tu stops)"
proof -
  have named: "runs c n (\<lambda>s. p_at T_IDENT s \<or> p_at T_UNDERSCORE s) True
      (node GkNamedType [emit, dottedTail, whenA (p_at T_LT) [parseTypeArgList tu]])"
    by (intro runs_node views runs_emit_then stmt_rules parses parseTypeArgList_runs assms)
      (auto simp: p_at_def)
  have fst: "runs c n Q True (seqs (a # [parseOptionalTypeSuffixes]))" if "runs c n Q True a" for Q a
    using that by (intro runs_seq1_2 runs_one parses)
  show ?thesis
    unfolding parseTypeAtom_def [abs_def]
    apply (intro runsF_cond runsF_go_on runsF_stop fst)
         apply (rule runs_mono [OF parseFunctionType_adv [OF assms]]; auto)
        apply (intro runs_if runs_one; rule runs_mono [OF parseUnitType_adv] runs_mono [OF parseTupleType_adv [OF assms]]; auto)
       apply (rule runs_mono [OF parseListType_adv [OF assms]]; auto)
      apply (rule runs_mono [where P = "\<lambda>s. p_at T_IDENT s"], intro stmt_rules views)
          apply (auto simp: p_at_def atIdentValue_def)[4]
    apply (rule runs_mono [OF named]; auto)
    done
qed

lemma typeUntil_step_runs:
  assumes "types_below n tu"
  shows "runsF c n (\<lambda>s. \<not> atAny stops s \<and> \<not> p_at T_EOF s) True (typeUntil_step tu stops)"
proof (rule runsFI)
  fix s0 s assume r: "ready c n s0 s" and s: "\<not> atAny stops s \<and> \<not> p_at T_EOF s"
  obtain g s1 where s1: "parseTypeAtom tu stops s = Inr (g, s1)" "reaches s0 s (False \<or> g) s1"
    using runsFE [OF parseTypeAtom_runs [OF assms, of c "\<lambda>s. True" stops] r] by blast
  show "\<exists>g s'. typeUntil_step tu stops s = Inr (g, s') \<and> reaches s0 s (True \<or> g) s'"
  proof (cases g)
    case True
    then show ?thesis using s1 by (auto simp: typeUntil_step_def)
  next
    case False
    obtain s2 m where n: "ready c m s2 s1" "\<And>b' s''. reaches s2 s1 b' s'' \<Longrightarrow> reaches s0 s ((False \<or> g) \<or> b') s''"
      using ready_next [OF r s1(2)] by metis
    obtain s' where s': "emit s1 = Inr s'" "reaches s2 s1 (\<not> p_at T_EOF s1) s'" using emit_runs [OF n(1)] by metis
    have "p_at T_EOF s1 \<Longrightarrow> fd_pos s1 = fd_pos s \<Longrightarrow> False"
      using view_reached [of "\<lambda>s. \<not> p_at T_EOF s", OF _ r s1(2)] s by (simp add: views)
    then have "fd_pos s < fd_pos s'" using s1(2) s'(2) by (fastforce simp: reaches_def)
    then show ?thesis using s1(1) s'(1) n(2) [OF s'(2)] False by (auto simp: typeUntil_step_def reaches_def)
  qed
qed

lemma typeUntil_fuel_runs: "n < k \<Longrightarrow> types_run n (typeUntil_fuel k)"
proof (induction k arbitrary: n)
  case (Suc k)
  have b: "types_below n (typeUntil_fuel k)" using Suc by (simp add: types_below_def)
  show ?case unfolding types_run_def typeUntil_fuel.simps
    by (intro allI, rule runs_loopB [OF runsF_weaken [OF typeUntil_step_runs [OF b]]]) auto
qed simp

lemma typeUntil_fuel_adv:
  assumes "n < k"
  shows "runs c n (\<lambda>s. \<not> atAny stops s \<and> \<not> p_at T_EOF s) True (typeUntil_fuel k stops)"
proof (cases k)
  case (Suc k')
  have b: "types_below n (typeUntil_fuel k')" using assms Suc typeUntil_fuel_runs by (simp add: types_below_def)
  show ?thesis unfolding Suc typeUntil_fuel.simps by (rule runs_loopB [OF typeUntil_step_runs [OF b]]) auto
qed (use assms in simp)

text \<open>A call starts with enough fuel for the tokens that remain, so the bound may be any.\<close>

lemma runs_fuel:
  assumes "\<And>m. runs c m P b (\<lambda>s. f (Suc m) s)"
  shows "runs c n P b (\<lambda>s. f (Suc (remaining s)) s)"
proof (rule runsI)
  fix s0 s assume r: "ready c n s0 s" "P s"
  then have "ready c (remaining s) s0 s" by (simp add: ready_def)
  then show "\<exists>s'. f (Suc (remaining s)) s = Inr s' \<and> reaches s0 s b s'"
    using runsE [OF assms [of "remaining s"]] r(2) by metis
qed

lemma parseTypeUntil_runs [parses]: "runs c n P False (parseTypeUntil stops)"
  unfolding parseTypeUntil_def [abs_def] by (rule runs_fuel, rule types_runD, rule typeUntil_fuel_runs) simp

lemma parseTypeUntil_adv:
  assumes "\<And>s. P s \<Longrightarrow> \<not> atAny stops s \<and> \<not> p_at T_EOF s"
  shows "runs c n P True (parseTypeUntil stops)"
  unfolding parseTypeUntil_def [abs_def]
  by (rule runs_fuel, rule runs_mono [OF typeUntil_fuel_adv [OF lessI]]) (use assms in auto)

lemma parseGenericBounds_runs [parses]: "runs c n P False parseGenericBounds"
proof -
  let ?bound = "node GkGenericBound [unstalled [parseTypeUntil [T_PLUS, T_COMMA, T_GT, T_SHR, T_NEWLINE]]]"
  have bound: "runs c n (\<lambda>s. \<not> p_at T_EOF s) True (seqs [?bound])" by (intro stmt_rules views parses)
  have "runsF c n (\<lambda>s. \<not> atAny [T_COMMA, T_GT, T_SHR, T_NEWLINE] s \<and> \<not> p_at T_EOF s) False genericBound"
  proof (rule runsFI)
    fix s0 s assume r: "ready c n s0 s" and s: "\<not> atAny [T_COMMA, T_GT, T_SHR, T_NEWLINE] s \<and> \<not> p_at T_EOF s"
    obtain s1 where s1: "seqs [?bound] s = Inr s1" "reaches s0 s True s1" using runsE [OF bound r] s by metis
    obtain s2 m where n: "ready c m s2 s1" "\<And>b' s''. reaches s2 s1 b' s'' \<Longrightarrow> reaches s0 s (True \<or> b') s''"
      using ready_next [OF r s1(2)] by metis
    have gb: "genericBound s = eat T_PLUS s1" using s1(1) by (simp add: genericBound_def del: seqs.simps)
    have "T_PLUS \<noteq> T_EOF" by simp
    with n(1) have "\<exists>g s'. eat T_PLUS s1 = Inr (g, s') \<and> reaches s0 s (False \<or> g) s'"
    proof (cases rule: eat_cases)
      case (1 s')
      then show ?thesis using n(2) [of True s'] by auto
    next
      case 2
      then show ?thesis using s1(2) reaches_weaken [of s0 s True s1 False] by auto
    qed
    then show "\<exists>g s'. genericBound s = Inr (g, s') \<and> reaches s0 s (False \<or> g) s'" unfolding gb .
  qed
  then show ?thesis unfolding parseGenericBounds_def by (rule runs_loopB) simp
qed

lemma parseGenericParamList_runs [parses]: "runs c n P False parseGenericParamList"
proof -
  have "runsF None n (notAt2 T_GT) False genericParam"
    unfolding genericParam_def [abs_def]
    by (intro runsF_cond runsF_break runsF_go_on stmt_rules parses views) (auto simp: p_at_def)
  then show ?thesis unfolding parseGenericParamList_def
    by (intro runs_any [of c n _ P] stmt_rules views runs_loopB) auto
qed

section \<open>Patterns\<close>

definition patterns_run :: "nat \<Rightarrow> (Kind list \<Rightarrow> stmt) \<Rightarrow> bool" where
  "patterns_run n pa \<longleftrightarrow> (\<forall>stops. runs None n (\<lambda>s. True) False (pa stops))"

lemma patterns_runD: "patterns_run n pa \<Longrightarrow> runs c n P False (pa stops)"
  unfolding patterns_run_def by (rule runs_any, rule runs_based) blast

definition patterns_below :: "nat \<Rightarrow> (Kind list \<Rightarrow> stmt) \<Rightarrow> bool" where
  "patterns_below n pa \<longleftrightarrow> (\<forall>m < n. patterns_run m pa)"

lemma patterns_belowD: "patterns_below n pa \<Longrightarrow> m < n \<Longrightarrow> patterns_run m pa"
  by (simp add: patterns_below_def)

lemma parsePatternRange_runs:
  assumes "patterns_run n pa"
  shows "runs c n P False (parsePatternRange pa stops)"
  unfolding parsePatternRange_def
  by (rule runs_any) (intro stmt_rules views patterns_runD [OF assms]; simp)

lemma parsePattern_runs:
  assumes "patterns_run n pa"
  shows "runs c n P False (parsePattern pa stops)"
  unfolding parsePattern_def
  by (intro stmt_rules views parsePatternRange_runs assms) (auto simp: p_at_def)

lemma parseTuplePattern_adv:
  assumes "patterns_below n pa"
  shows "runs c n (\<lambda>s. p_at T_LPAREN s) True (parseTuplePattern pa)"
  unfolding parseTuplePattern_def
  by (intro runs_node views, rule runs_eat_then, simp, simp)
    (intro stmt_rules views parsePattern_runs patterns_belowD [OF assms]; simp)

lemma segments_fuel_runs:
  "ready c n s0 s \<Longrightarrow> remaining s < k \<Longrightarrow>
    \<exists>segments s'. segments_fuel k seg s = Inr (segments, s') \<and> reaches s0 s (p_at T_IDENT s) s'"
proof (induction k arbitrary: n s0 s seg)
  case (Suc k)
  have "T_IDENT \<noteq> T_EOF" by simp
  with Suc.prems(1) show ?case
  proof (cases rule: eat_cases)
    case 2
    then show ?thesis using ready_refl [OF Suc.prems(1)] by simp
  next
    case (1 s1)
    show ?thesis
    proof (cases "p_at T_DOT s1 \<and> kindAt s1 (fd_pos s1 + 1) = T_IDENT")
      case False
      then show ?thesis using 1 by auto
    next
      case True
      obtain s2 m where n: "ready c m s2 s1" "\<And>b' s''. reaches s2 s1 b' s'' \<Longrightarrow> reaches s0 s (True \<or> b') s''"
        using ready_next [OF Suc.prems(1) 1(3)] by metis
      obtain s3 where s3: "emit s1 = Inr s3" "reaches s2 s1 (\<not> p_at T_EOF s1) s3" using emit_runs [OF n(1)] by metis
      obtain s4 m' where n': "ready c m' s4 s3" "\<And>b' s''. reaches s4 s3 b' s'' \<Longrightarrow> reaches s2 s1 ((\<not> p_at T_EOF s1) \<or> b') s''"
        using ready_next [OF n(1) s3(2)] by metis
      have "fd_toks s1 = fd_toks s" "fd_toks s3 = fd_toks s1"
        using reaches_toks Suc.prems(1) 1(3) n(1) s3(2) unfolding ready_def by blast+
      then have "remaining s3 < remaining s"
        using 1(3) s3(2) by (intro remaining_less) (auto simp: reaches_def feed_ok_def)
      then obtain segs s' where "segments_fuel k (seg + 1) s3 = Inr (segs, s')" "reaches s4 s3 (p_at T_IDENT s3) s'"
        using Suc.IH [OF n'(1), of "seg + 1"] Suc.prems(2) by fastforce
      then show ?thesis using 1(1,2) True s3(1) n(2) [OF n'(2)] by auto
    qed
  qed
qed simp

lemma structPatField_adv:
  assumes "patterns_run n pa"
  shows "runs c n (\<lambda>s. \<not> p_at T_EOF s) True (structPatField pa)"
  unfolding structPatField_def
  by (intro stmt_rules views parsePattern_runs assms) auto

lemma namedPatternRest_runs:
  assumes "patterns_run n pa"
  shows "runs (Some cp) n (\<lambda>s. True) False (namedPatternRest pa stops cp segments)"
proof -
  have field: "runs c n P True (structPatField pa)" if "\<And>s. P s \<Longrightarrow> \<not> p_at T_EOF s" for c P
    using runs_mono [OF structPatField_adv [OF assms]] that by auto
  have v: "view (\<lambda>s. previousTokenValue s = v)" for v by (simp add: view_def previousTokenValue_def looks)
  show ?thesis
    unfolding namedPatternRest_def [abs_def]
    by (intro runs_cond stmt_rules views v parsePattern_runs parsePatternRange_runs assms field) auto
qed

lemma parseNamedPattern_adv:
  assumes "patterns_below n pa"
  shows "runs c n (\<lambda>s. p_at T_IDENT s) True (parseNamedPattern pa stops)"
  unfolding parseNamedPattern_def
proof (intro runs_withCp runs_one, rule runsI)
  fix cp s0 s assume r: "ready (Some cp) n s0 s" and s: "p_at T_IDENT s"
  obtain segs s1 where s1: "segments_fuel (Suc (remaining s)) 0 s = Inr (segs, s1)" "reaches s0 s True s1"
    using segments_fuel_runs [OF r lessI, of 0] s by auto
  obtain s2 m where n: "ready (Some cp) m s2 s1" "True \<Longrightarrow> m < n"
      "\<And>b' s''. reaches s2 s1 b' s'' \<Longrightarrow> reaches s0 s (True \<or> b') s''"
    using ready_next [OF r s1(2)] by metis
  have "m < n" using n(2) by simp
  obtain s' where "namedPatternRest pa stops cp segs s1 = Inr s'" "reaches s2 s1 False s'"
    using runsE [OF namedPatternRest_runs [OF patterns_belowD [OF assms \<open>m < n\<close>]] n(1)] by metis
  then show "\<exists>s'. bindR (segments_fuel (Suc (remaining s)) 0 s)
      (\<lambda>x. namedPatternRest pa stops cp (fst x) (snd x)) = Inr s' \<and> reaches s0 s True s'"
    using s1(1) n(3) [of False s'] by simp
qed

lemma runs_ret: "runs c n P False (\<lambda>s. Inr s)"
  by (rule runs_id) simp

lemma patternAtom_step_runs:
  assumes "patterns_below n pa"
  shows "runs c n (\<lambda>s. True) False (patternAtom_step pa stops)"
proof -
  have head: "runs None n P False (seqs [emit, whenA (\<lambda>s. \<not> patternAtEnd stops s) [pa stops]])"
    if "\<And>s. P s \<Longrightarrow> \<not> p_at T_EOF s" for P
    by (rule runs_emit_then, erule that)
      (intro stmt_rules patterns_runD [OF patterns_belowD [OF assms]]; simp)
  have tuple: "runs c n P False (parseTuplePattern pa)" if "\<And>s. P s \<Longrightarrow> p_at T_LPAREN s" for P
    using runs_mono [OF parseTuplePattern_adv [OF assms]] that by auto
  have named: "runs c n P False (parseNamedPattern pa stops)" if "\<And>s. P s \<Longrightarrow> p_at T_IDENT s" for P
    using runs_mono [OF parseNamedPattern_adv [OF assms]] that by auto
  show ?thesis
    unfolding patternAtom_step_def [abs_def]
    by (intro runs_cond runs_ret parses runs_node head tuple named views runs_one runs_emit) (auto simp: p_at_def)
qed

lemma patternAtom_fuel_runs: "n < k \<Longrightarrow> patterns_run n (patternAtom_fuel k)"
proof (induction k arbitrary: n)
  case (Suc k)
  have "patterns_below n (patternAtom_fuel k)" using Suc by (simp add: patterns_below_def)
  then show ?case unfolding patterns_run_def patternAtom_fuel.simps by (blast intro: patternAtom_step_runs)
qed simp

lemma parsePatternAtom_runs: "patterns_run n parsePatternAtom"
  unfolding patterns_run_def parsePatternAtom_def [abs_def]
  by (intro allI, rule runs_fuel, rule patterns_runD, rule patternAtom_fuel_runs) simp

lemma parsePatternUntil_runs [parses]: "runs c n P False (parsePatternUntil stops)"
  unfolding parsePatternUntil_def
  by (intro stmt_rules views parsePattern_runs parsePatternAtom_runs) auto

section \<open>Expressions and statements\<close>

text \<open>What the recursive entry points promise: an expression may start anywhere, and consumes a
  token unless it is at a stop; the other two are only called at their keyword or brace.\<close>

definition exprs_run :: "nat \<Rightarrow> (expr_nt \<Rightarrow> stmt) \<Rightarrow> bool" where
  "exprs_run n ex \<longleftrightarrow>
     (\<forall>bp stops. runs None n (\<lambda>s. True) False (ex (NtExprBP bp stops))) \<and>
     (\<forall>bp stops. runs None n (\<lambda>s. \<not> atAny stops s \<and> \<not> p_at T_EOF s) True (ex (NtExprBP bp stops))) \<and>
     runs None n (p_at T_IF) True (ex NtIf) \<and>
     runs None n (p_at T_LBRACE) True (ex NtBlock)"

definition exprs_below :: "nat \<Rightarrow> (expr_nt \<Rightarrow> stmt) \<Rightarrow> bool" where
  "exprs_below n ex \<longleftrightarrow> (\<forall>m < n. exprs_run m ex)"

lemma exprs_belowD: "exprs_below n ex \<Longrightarrow> m < n \<Longrightarrow> exprs_run m ex"
  by (simp add: exprs_below_def)

lemma runs_fewer: "runs c n P b act \<Longrightarrow> m < n \<Longrightarrow> runs c m P b act"
  by (erule runs_mono) auto

lemma exprs_run_below: "exprs_run n ex \<Longrightarrow> exprs_below n ex"
  unfolding exprs_below_def exprs_run_def by (blast intro: runs_fewer)

lemma exprs_run_mono: "exprs_run n ex \<Longrightarrow> m \<le> n \<Longrightarrow> exprs_run m ex"
  using exprs_run_below [of n ex] by (cases "m = n") (auto simp: exprs_below_def)

lemma expr_runs:
  assumes "exprs_run n ex"
  shows "runs c n P False (ex (NtExprBP bp stops))"
  using assms unfolding exprs_run_def by (blast intro: runs_any [OF runs_based])

lemma nt_runs:
  assumes "exprs_run n ex"
  shows "(\<And>s. P s \<Longrightarrow> \<not> atAny stops s \<and> \<not> p_at T_EOF s) \<Longrightarrow> runs c n P True (ex (NtExprBP bp stops))"
    "(\<And>s. P s \<Longrightarrow> p_at T_IF s) \<Longrightarrow> runs c n P b (ex NtIf)"
    "(\<And>s. P s \<Longrightarrow> p_at T_LBRACE s) \<Longrightarrow> runs c n P b (ex NtBlock)"
proof -
  have e: "runs c n (\<lambda>s. \<not> atAny stops s \<and> \<not> p_at T_EOF s) True (ex (NtExprBP bp stops))"
    "runs c n (p_at T_IF) True (ex NtIf)" "runs c n (p_at T_LBRACE) True (ex NtBlock)"
    using assms unfolding exprs_run_def by (auto intro: runs_based)
  show "(\<And>s. P s \<Longrightarrow> \<not> atAny stops s \<and> \<not> p_at T_EOF s) \<Longrightarrow> runs c n P True (ex (NtExprBP bp stops))"
    by (rule runs_mono [OF e(1)]) auto
  show "(\<And>s. P s \<Longrightarrow> p_at T_IF s) \<Longrightarrow> runs c n P b (ex NtIf)" by (rule runs_mono [OF e(2)]) auto
  show "(\<And>s. P s \<Longrightarrow> p_at T_LBRACE s) \<Longrightarrow> runs c n P b (ex NtBlock)" by (rule runs_mono [OF e(3)]) auto
qed

lemma parseExprUntil_runs: "exprs_run n ex \<Longrightarrow> runs c n P False (parseExprUntil ex stops)"
  unfolding parseExprUntil_def by (intro stmt_rules expr_runs) auto

lemma parseExprUntil_adv:
  assumes "exprs_run n ex" "\<And>s. P s \<Longrightarrow> \<not> atAny stops s \<and> \<not> p_at T_EOF s"
  shows "runs c n P True (parseExprUntil ex stops)"
  unfolding parseExprUntil_def by (intro stmt_rules nt_runs) (use assms in auto)

lemma parseExprsUntil_runs: "exprs_run n ex \<Longrightarrow> runs c n P False (parseExprsUntil ex stops)"
  unfolding parseExprsUntil_def by (intro stmt_rules views parseExprUntil_runs) auto

lemma parseExprsUntil_adv:
  assumes "exprs_run n ex" "\<And>s. P s \<Longrightarrow> \<not> atAny stops s \<and> \<not> p_at T_EOF s"
  shows "runs c n P True (parseExprsUntil ex stops)"
  unfolding parseExprsUntil_def by (intro stmt_rules views parseExprUntil_runs assms) (use assms in auto)

lemmas expr_rules = parseExprUntil_runs parseExprUntil_adv parseExprsUntil_runs

lemma parseAnnotations_runs:
  assumes "exprs_below n ex"
  shows "runs c n P False (parseAnnotations ex)"
proof -
  have part: "runs c m (notAt2 T_RBRACKET) True (annotationPart ex)" if "m < n" for c m
    unfolding annotationPart_def
    by (intro stmt_rules views expr_rules exprs_belowD [OF assms that]) (auto simp: p_at_def atAny_def)
  have "runs c n (\<lambda>s. p_at T_HASH s \<and> kindAt s (fd_pos s + 1) = T_LBRACKET) True
      (node GkAnnotation [emit, emit, loopA (notAt2 T_RBRACKET) [annotationPart ex], eatS T_RBRACKET])"
    by (intro runs_node views runs_emit_then stmt_rules part) (auto simp: p_at_def)
  then show ?thesis unfolding parseAnnotations_def
    by (intro runs_loopA runs_seq1_2 runs_one parses) auto
qed

lemma parseLet_runs:
  assumes "exprs_below n ex"
  shows "runs c n P False (parseLet ex)"
  unfolding parseLet_def
  by (rule runs_any, intro stmt_rules parses runs_ifEat expr_rules exprs_belowD [OF assms]; simp)

lemma parseLet_adv:
  assumes ex: "exprs_below n ex" and P: "\<And>s. P s \<Longrightarrow> p_at T_PUB s \<or> p_at T_LET s"
  shows "runs c n P True (parseLet ex)"
proof (rule runs_mono)
  have rest: "runs c m (\<lambda>s. True) False (seqs
      [eatS T_MUT, parsePatternUntil [T_COLON, T_ASSIGN, T_NEWLINE, T_RBRACE, T_EOF],
      ifEat T_COLON [parseTypeUntil [T_ASSIGN, T_NEWLINE, T_RBRACE, T_EOF]] [],
      ifEat T_ASSIGN [parseExprUntil ex [T_NEWLINE, T_RBRACE, T_EOF]] []])" if "m < n" for m
    by (intro stmt_rules parses expr_rules exprs_belowD [OF ex that]; simp)
  show "runs c n (\<lambda>s. p_at T_PUB s \<or> p_at T_LET s) True (parseLet ex)"
    unfolding parseLet_def
    by (rule runs_eat_seq, simp, rule runs_seq0, rule runs_eatS, simp, simp, erule rest, rule runs_eat_then, simp)
      (auto intro: rest)
qed (use P in auto)

lemma forHeader_runs:
  assumes "exprs_run n ex"
  shows "runs c n P False (forHeader ex)"
  unfolding forHeader_def [abs_def]
  by (rule runs_any)
   (intro runs_cond runs_ret stmt_rules parses expr_rules parsePattern_runs parsePatternAtom_runs assms; simp)

abbreviation starts_header :: "greenParser \<Rightarrow> bool" where
  "starts_header s \<equiv> \<not> p_at T_LBRACE s \<and> \<not> p_at T_NEWLINE s \<and> \<not> p_at T_EOF s"

lemma forHeader_adv:
  assumes "exprs_run n ex" "\<And>s. P s \<Longrightarrow> starts_header s"
  shows "runs c n P True (forHeader ex)"
proof (rule runs_mono)
  let ?es = "parseExprsUntil ex [T_LBRACE, T_NEWLINE, T_EOF]"
  have es: "runs c m Q False ?es" if "m \<le> n" for Q m
    by (rule parseExprsUntil_runs [OF exprs_run_mono [OF assms(1) that]])
  have adv: "runs c n Q True ?es" if "\<And>s. Q s \<Longrightarrow> starts_header s" for Q
    using that by (intro parseExprsUntil_adv assms) (auto simp: p_at_def atAny_def)
  have tail: "runs c m Q False (seqs [whenA (atIdentValue ''in'') [emit], ?es])" if "m \<le> n" for Q m
    by (rule runs_any, intro stmt_rules es that; simp)
  have pat: "runs c n starts_header True (seqs [parsePattern parsePatternAtom [T_LBRACE, T_NEWLINE, T_EOF],
      whenA (atIdentValue ''in'') [emit], ?es])"
  proof (rule runs_seq)
    show "runs c n starts_header True (seqs [whenA (atIdentValue ''in'') [emit], ?es])"
      by (rule runs_seq, intro views, intro stmt_rules, simp_all add: runs_one adv es)
  qed (intro views, intro parsePattern_runs parsePatternAtom_runs, simp add: tail)
  show "runs c n starts_header True (forHeader ex)"
    unfolding forHeader_def [abs_def]
  proof (rule runs_cond)
    show "runs c n (\<lambda>s. starts_header s \<and> p_at T_LBRACE s) True (\<lambda>s. Inr s)" by (auto simp: runs_def)
    show "runs c n (\<lambda>s. starts_header s \<and> \<not> p_at T_LBRACE s) True
     (ifEat T_LET [parsePatternUntil [T_ASSIGN, T_LBRACE, T_NEWLINE, T_EOF], eatS T_ASSIGN, ?es]
       [ifA forHeaderHasInBeforeBody
         [parsePattern parsePatternAtom [T_LBRACE, T_NEWLINE, T_EOF], whenA (atIdentValue ''in'') [emit], ?es] [?es]])"
      by (rule runs_ifEat, simp, intro stmt_rules parses es less_imp_le, simp, simp, assumption, rule runs_one,
          rule runs_if, rule runs_mono [OF pat], simp_all, intro runs_one adv, simp)
  qed
qed (use assms(2) in auto)

lemma parseForStmt_runs:
  assumes "exprs_run n ex"
  shows "runs c n P False (parseForStmt ex)"
  unfolding parseForStmt_def
  by (rule runs_any) (intro stmt_rules forHeader_runs nt_runs assms; simp)

lemma parseForStmt_adv:
  assumes "exprs_run n ex" "\<And>s. P s \<Longrightarrow> starts_header s"
  shows "runs c n P True (parseForStmt ex)"
proof (rule runs_mono)
  let ?bl = "whenA (p_at T_LBRACE) [ex NtBlock]"
  have bl: "runs c m (\<lambda>s. True) False (seqs [?bl])"
    "runs c m (\<lambda>s. True) False (seqs [forHeader ex, ?bl])"
    "runs c m (\<lambda>s. True) False (seqs [eatS T_FOR, forHeader ex, ?bl])" if "m < n" for m
    by (intro stmt_rules forHeader_runs nt_runs [OF exprs_run_mono [OF assms(1)]] exprs_run_mono [OF assms(1)]; use that in simp)+
  show "runs c n starts_header True (parseForStmt ex)"
    unfolding parseForStmt_def
  proof (rule runs_seq)
    show "runs c n starts_header True (seqs [eatS T_FOR, forHeader ex, ?bl])"
      by (rule runs_eat_seq, simp, erule bl, rule runs_seq1, rule forHeader_adv [OF assms(1)], simp, erule bl)
  qed (intro views, intro stmt_rules, simp_all add: bl)
qed (use assms(2) in auto)

lemma runs_ite:
  "(q \<Longrightarrow> runs c n P b f) \<Longrightarrow> (\<not> q \<Longrightarrow> runs c n P b g) \<Longrightarrow> runs c n P b (if q then f else g)"
  by simp

lemma parseStmtBody_runs:
  assumes "exprs_run n ex"
  shows "runs c n P False (parseStmtBody ex k)"
  unfolding parseStmtBody_def
  by (intro runs_ite stmt_rules expr_rules parseLet_runs parseForStmt_runs exprs_run_below assms) auto

lemma parseStmtBody_adv:
  assumes "exprs_run n ex"
    and "k \<in> {GkLetStmt, GkReturnStmt, GkBreakStmt, GkContinueStmt, GkDeferStmt, GkForStmt}"
    and "\<And>s. P s \<Longrightarrow> starts_header s" "\<And>s. k = GkLetStmt \<Longrightarrow> P s \<Longrightarrow> p_at T_PUB s \<or> p_at T_LET s"
  shows "runs c n P True (parseStmtBody ex k)"
proof -
  have jump: "runs c n P True (seqs [emit, parseExprsUntil ex [T_NEWLINE, T_RBRACE, T_EOF]])"
    by (intro stmt_rules expr_rules assms(1)) (use assms(3) in auto)
  have "runs c n P True (parseLet ex)" if "k = GkLetStmt"
    by (rule parseLet_adv [OF exprs_run_below [OF assms(1)]]) (rule assms(4) [OF that])
  then show ?thesis
    using assms(2) jump parseForStmt_adv [OF assms(1,3)] by (auto simp: parseStmtBody_def)
qed

lemma runs_withS_view:
  assumes "\<And>k. runs c n (\<lambda>s. P s \<and> h s = k) b (seqs (F k))"
  shows "runs c n P b (withS (\<lambda>s. F (h s)))"
  using assms by (auto simp: runs_def withS_def)

lemma stmtKind_cases:
  "stmtKind s \<in> {GkNone, GkLetStmt, GkReturnStmt, GkBreakStmt, GkContinueStmt, GkDeferStmt, GkForStmt}"
  by (simp add: stmtKind_def)

lemma stmtKind_starts: "stmtKind s \<noteq> GkNone \<Longrightarrow> starts_header s"
  by (auto simp: stmtKind_def p_at_def kindAfterPub_def peekKind_def split: if_splits)

lemma stmtKind_let: "stmtKind s = GkLetStmt \<Longrightarrow> p_at T_PUB s \<or> p_at T_LET s"
  by (auto simp: stmtKind_def p_at_def kindAfterPub_def peekKind_def split: if_splits)

lemma view_stmtKind: "view (\<lambda>s. stmtKind s = k)"
  unfolding view_def
proof (intro allI impI)
  fix s s' :: greenParser assume "fd_toks s = fd_toks s'" "fd_pos s = fd_pos s'"
  then have "p_at T_LABEL s = p_at T_LABEL s'" "kindAfterPub s = kindAfterPub s'"
    "\<And>i. kindAt s (fd_pos s + i) = kindAt s' (fd_pos s' + i)"
    by (simp_all add: looks)
  then show "(stmtKind s = k) = (stmtKind s' = k)" unfolding stmtKind_def by (simp only:)
qed

lemma parseStmt_runs:
  assumes ex: "exprs_run n ex"
  shows "runs c n (\<lambda>s. True) False (parseStmt ex)" "runs c n (\<lambda>s. \<not> p_at T_EOF s) True (parseStmt ex)"
proof -
  define F where "F = (\<lambda>cp k. if k = GkNone
      then [nodeAt GkExprStmt cp [unstalled [parseExprsUntil ex [T_NEWLINE, T_RBRACE, T_EOF]]]]
      else [nodeAt k cp [parseStmtBody ex k]])"
  have eq: "parseStmt ex = withCp (\<lambda>cp. [parseAnnotations ex, withS (\<lambda>s. F cp (stmtKind s))])"
    by (simp add: parseStmt_def F_def)
  have F: "runs (Some cp) m (\<lambda>s. True) False (seqs [withS (\<lambda>s. F cp (stmtKind s))])" if "m \<le> n" for m cp
    unfolding F_def
    by (rule runs_one, rule runs_withS_view, rule runs_any)
     (auto intro!: stmt_rules views expr_rules parseStmtBody_runs exprs_run_mono [OF ex that])
  have body: "runs None n (\<lambda>s. \<not> p_at T_EOF s \<and> stmtKind s = k) True (parseStmtBody ex k)" if "k \<noteq> GkNone" for k
  proof (cases "k \<in> {GkLetStmt, GkReturnStmt, GkBreakStmt, GkContinueStmt, GkDeferStmt, GkForStmt}")
    case True
    then show ?thesis using that stmtKind_starts stmtKind_let by (intro parseStmtBody_adv [OF ex]) auto
  next
    case False
    then have "stmtKind s \<noteq> k" for s using stmtKind_cases [of s] that by auto
    then show ?thesis by (auto simp: runs_def)
  qed
  have adv: "runs (Some cp) n (\<lambda>s. \<not> p_at T_EOF s) True (withS (\<lambda>s. F cp (stmtKind s)))" for cp
    unfolding F_def
    by (rule runs_withS_view)
      (auto intro!: stmt_rules views expr_rules ex body view_stmtKind)
  show "runs c n (\<lambda>s. True) False (parseStmt ex)"
    unfolding eq
    by (intro runs_withCp runs_seq0 parseAnnotations_runs exprs_run_below ex F) simp
  show "runs c n (\<lambda>s. \<not> p_at T_EOF s) True (parseStmt ex)"
    unfolding eq
    by (intro runs_withCp, rule runs_seq, intro views, intro parseAnnotations_runs exprs_run_below ex,
        intro runs_one adv, rule F) simp
qed

lemma parseBlock_adv:
  assumes "exprs_below n ex" "\<And>s. P s \<Longrightarrow> p_at T_LBRACE s"
  shows "runs c n P b (parseBlock ex)"
proof (rule runs_mono)
  have item: "runs None m (notAt2 T_RBRACE) True (ifA (p_at T_NEWLINE) [emit] [parseStmt ex])" if "m < n" for m
    by (intro stmt_rules runs_mono [OF parseStmt_runs(2) [OF exprs_belowD [OF assms(1) that]]]) auto
  show "runs c n (p_at T_LBRACE) True (parseBlock ex)"
    unfolding parseBlock_def
    by (intro runs_node views, rule runs_eat_then, simp, simp) (intro stmt_rules item; simp)
qed (use assms(2) in auto)

lemma parseParenOrTuple_adv:
  assumes "exprs_below n ex"
  shows "runs c n (\<lambda>s. \<not> p_at T_EOF s) True (parseParenOrTuple ex)"
proof -
  let ?as = "[emit, itemsUntil T_RPAREN [parseExprUntil ex [T_COMMA, T_RPAREN]], eatS T_RPAREN]"
  have "runs None n (\<lambda>s. \<not> p_at T_EOF s) True (seqs ?as)"
    by (rule runs_emit_then, simp) (intro stmt_rules expr_rules exprs_belowD [OF assms]; simp add: p_at_def atAny_def)
  then have "runs c n (\<lambda>s. \<not> p_at T_EOF s) True (node k ?as)" for k by (intro runs_node views)
  then show ?thesis unfolding parseParenOrTuple_def by (auto simp: runs_def withS_def seqs_one)
qed

lemma parseList_adv:
  assumes "exprs_below n ex"
  shows "runs c n (\<lambda>s. \<not> p_at T_EOF s) True (parseList ex)"
  unfolding parseList_def
  by (intro runs_node views, rule runs_emit_then, simp)
    (intro stmt_rules expr_rules exprs_belowD [OF assms]; simp add: p_at_def atAny_def)

lemma parseMap_adv:
  assumes "exprs_below n ex"
  shows "runs c n (\<lambda>s. p_at T_LBRACE s) True (parseMap ex)"
  unfolding parseMap_def
  by (intro runs_node views, rule runs_eat_then, simp, simp)
    (intro stmt_rules views parses expr_rules exprs_belowD [OF assms]; simp add: p_at_def atAny_def)

lemma runs_split:
  "runs c n (\<lambda>s. P s \<and> q s) b f \<Longrightarrow> runs c n (\<lambda>s. P s \<and> \<not> q s) b f \<Longrightarrow> runs c n P b f"
  unfolding runs_def by blast

lemma runs_never: "(\<And>s. \<not> P s) \<Longrightarrow> runs c n P b f"
  by (simp add: runs_def)

lemma parsePatternUntil_adv:
  assumes "\<And>s. P s \<Longrightarrow> \<not> atAny stops s \<and> \<not> p_at T_EOF s"
  shows "runs c n P True (parsePatternUntil stops)"
  unfolding parsePatternUntil_def
  by (intro stmt_rules views parsePattern_runs parsePatternAtom_runs) (use assms in auto)

lemma parseIf_adv:
  assumes ex: "exprs_below n ex"
  shows "runs c n (p_at T_IF) True (parseIf ex)"
proof -
  define as where "as = [ifEat T_LET [parsePatternUntil [T_ASSIGN, T_LBRACE, T_NEWLINE, T_EOF], eatS T_ASSIGN] [],
        parseExprsUntil ex [T_LBRACE, T_NEWLINE, T_EOF],
        whenA (p_at T_LBRACE) [parseBlock ex],
        whenA (p_at T_ELSE)
          [node GkElse [emit, ifA (p_at T_IF) [ex NtIf] [whenA (p_at T_LBRACE) [parseBlock ex]]]]]"
  have block: "runs c m P False (parseBlock ex)" if "m < n" "\<And>s. P s \<Longrightarrow> p_at T_LBRACE s" for c m P
    using that exprs_belowD [OF ex] by (intro parseBlock_adv exprs_run_below) auto
  have as: "runs None m (\<lambda>s. True) False (seqs as)" if m: "m < n" for m
    unfolding as_def
    by (intro stmt_rules views parses expr_rules block m exprs_belowD [OF ex m] nt_runs(2) [OF exprs_belowD [OF ex m]]) auto
  have "runs None n (p_at T_IF) True (seqs (emit # as))"
    by (rule runs_emit_then) (simp_all add: as, simp add: p_at_def)
  then have "runs c n (p_at T_IF) True (node k (emit # as))" for k by (intro runs_node views)
  moreover have "parseIf ex = withS (\<lambda>s. [node (if kindAt s (fd_pos s + 1) = T_LET then GkIfLet else GkIf) (emit # as)])"
    by (simp add: parseIf_def as_def)
  ultimately show ?thesis by (auto simp: runs_def withS_def seqs_one)
qed

lemma matchArm_adv:
  assumes ex: "exprs_run n ex"
  shows "runs c n (\<lambda>s. notAt2 T_RBRACE s \<and> \<not> atSep s) True (matchArm ex)"
proof -
  let ?pat = "parsePatternUntil [T_IF, T_ARROW, T_RBRACE]"
  let ?guard = "ifEat T_IF [parseExprsUntil ex [T_ARROW, T_RBRACE]] []"
  let ?body = "[eatS T_ARROW, parseExprsUntil ex [T_COMMA, T_NEWLINE, T_RBRACE]]"
  let ?P = "\<lambda>s. notAt2 T_RBRACE s \<and> \<not> atSep s"
  have e: "exprs_run m ex" if "m \<le> n" for m using exprs_run_mono [OF ex that] .
  have body: "runs None m (\<lambda>s. True) False (seqs ?body)" if "m \<le> n" for m
    by (intro stmt_rules expr_rules e that) simp_all
  have guard: "runs None m (\<lambda>s. True) False (seqs (?guard # ?body))" if "m \<le> n" for m
    by (intro stmt_rules expr_rules e that; simp)
  have arm: "runs None n Q True (seqs (?pat # ?guard # ?body))" if "view Q" "runs None n Q True (seqs (?guard # ?body))" for Q
    by (rule runs_seq) (use that guard in \<open>auto intro: parses\<close>)
  have at_if: "runs None n (p_at T_IF) True (seqs (?guard # ?body))"
    by (rule runs_seq1, rule runs_ifEat, simp, intro runs_one expr_rules e, simp, rule runs_never, simp) (simp add: body)
  have at_arrow: "runs None n (p_at T_ARROW) True (seqs (?guard # ?body))"
  proof (rule runs_seq)
    show "runs None n (p_at T_ARROW) False ?guard" by (rule runs_any, intro stmt_rules expr_rules e; simp)
    show "runs None n (p_at T_ARROW) True (seqs ?body)" by (intro stmt_rules expr_rules e) simp_all
  qed (intro views, simp add: body)
  have "runs None n ?P True (seqs (?pat # ?guard # ?body))"
  proof (rule runs_split [where q = "p_at T_IF"])
    show "runs None n (\<lambda>s. ?P s \<and> p_at T_IF s) True (seqs (?pat # ?guard # ?body))"
      by (rule runs_mono [OF arm [OF _ at_if]]) (simp_all add: views)
    show "runs None n (\<lambda>s. ?P s \<and> \<not> p_at T_IF s) True (seqs (?pat # ?guard # ?body))"
    proof (rule runs_split [where q = "p_at T_ARROW"])
      show "runs None n (\<lambda>s. (?P s \<and> \<not> p_at T_IF s) \<and> p_at T_ARROW s) True (seqs (?pat # ?guard # ?body))"
        by (rule runs_mono [OF arm [OF _ at_arrow]]) (simp_all add: views)
      show "runs None n (\<lambda>s. (?P s \<and> \<not> p_at T_IF s) \<and> \<not> p_at T_ARROW s) True (seqs (?pat # ?guard # ?body))"
        by (rule runs_seq1, rule parsePatternUntil_adv) (auto simp: p_at_def atAny_def guard)
    qed
  qed
  then show ?thesis unfolding matchArm_def by (intro runs_node views)
qed

lemma parseMatch_adv:
  assumes "exprs_below n ex"
  shows "runs c n (p_at T_MATCH) True (parseMatch ex)"
  unfolding parseMatch_def
  by (intro runs_node views, rule runs_emit_then, simp add: p_at_def)
    (intro stmt_rules views expr_rules matchArm_adv exprs_belowD [OF assms]; simp)

lemma parseLoop_adv:
  assumes ex: "exprs_below n ex"
  shows "runs c n atLoopExprStart True (parseLoop ex)"
proof -
  let ?labelled = "\<lambda>s. p_at T_LABEL s \<and> kindAt s (fd_pos s + 1) = T_COLON"
  let ?label = "whenA ?labelled [emit, emit]" and ?kw = "whenA (atIdentValue ''loop'') [emit]"
  let ?bl = "whenA (p_at T_LBRACE) [parseBlock ex]"
  have bl: "runs None m (\<lambda>s. True) False (seqs [?bl])" "runs None m (\<lambda>s. True) False (seqs [?kw, ?bl])" if "m \<le> n" for m
    using that ex by (intro stmt_rules parseBlock_adv; auto simp: exprs_below_def)+
  have label: "runs None n ?labelled True (seqs [?label, ?kw, ?bl])"
    by (rule runs_seq1, intro stmt_rules) (auto simp: p_at_def bl)
  have kw: "runs None n (atIdentValue ''loop'') True (seqs [?label, ?kw, ?bl])"
  proof (rule runs_seq)
    show "runs None n (atIdentValue ''loop'') True (seqs [?kw, ?bl])"
      by (rule runs_seq1, intro stmt_rules) (auto simp: atIdentValue_def p_at_def bl)
    show "runs None n (atIdentValue ''loop'') False ?label" by (rule runs_any, intro stmt_rules) auto
  qed (intro views, simp add: bl)
  have "runs None n (\<lambda>s. atIdentValue ''loop'' s \<or> ?labelled s) True (seqs [?label, ?kw, ?bl])"
    by (rule runs_split [where q = "atIdentValue ''loop''"]; rule runs_mono [OF kw] runs_mono [OF label]; auto)
  then have "runs c n (\<lambda>s. atIdentValue ''loop'' s \<or> ?labelled s) True (parseLoop ex)"
    unfolding parseLoop_def by (intro runs_node views)
  then show ?thesis by (rule runs_mono) (auto simp: atLoopExprStart_def)
qed

lemma parseClosureBody_runs:
  assumes "exprs_run n ex"
  shows "runs c n P False (parseClosureBody ex stops)"
  unfolding parseClosureBody_def
  by (rule runs_any) (intro stmt_rules expr_rules parseBlock_adv exprs_run_below assms; simp)

lemma parseClosureParamList_adv: "runs c n (p_at T_BITOR) True parseClosureParamList"
  unfolding parseClosureParamList_def
  by (intro stmt_rules views parses) auto

lemma parseClosure_adv:
  assumes ex: "exprs_below n ex"
  shows "runs c n (\<lambda>s. p_at T_OR s \<or> p_at T_BITOR s) True (parseClosure ex stops)"
proof -
  have body: "runs None m P False (parseClosureBody ex stops)" if "m < n" for m P
    by (rule parseClosureBody_runs [OF exprs_belowD [OF ex that]])
  have rest: "runs None m (\<lambda>s. True) False
      (seqs [ifEat T_ARROW [parseTypeUntil [T_LBRACE, T_NEWLINE, T_EOF]] [], parseClosureBody ex stops])" if "m < n" for m
    by (intro stmt_rules parses body that; simp)
  let ?P = "\<lambda>s. p_at T_OR s \<or> p_at T_BITOR s"
  have bar: "runs None n ?P True (seqs [ifA (p_at T_OR) [node GkParamList [emit], parseClosureBody ex stops]
      [whenA (p_at T_BITOR) [parseClosureParamList],
       ifEat T_ARROW [parseTypeUntil [T_LBRACE, T_NEWLINE, T_EOF]] [], parseClosureBody ex stops]])"
    by (intro runs_one runs_if; rule runs_seq1)
      (auto intro!: stmt_rules views runs_mono [OF parseClosureParamList_adv] simp: body rest p_at_def)
  then show ?thesis unfolding parseClosure_def by (intro runs_node views)
qed

lemma parsePrefix_adv:
  assumes ex: "exprs_below n ex"
  shows "runs c n (\<lambda>s. \<not> (atAny stops s \<or> p_at T_EOF s)) True (parsePrefix ex stops)"
proof -
  have e: "exprs_run m ex" if "m < n" for m using exprs_belowD [OF ex that] .
  have "runs c n (\<lambda>s. \<not> p_at T_EOF s) True (node GkUnary [emit, ex (NtExprBP 13 stops)])"
    by (intro runs_node views, rule runs_emit_then, simp) (intro runs_one expr_runs e)
  then have unary: "runs c n P True (node GkUnary [emit, ex (NtExprBP 13 stops)])" if "\<And>s. P s \<Longrightarrow> \<not> p_at T_EOF s" for P
    using that by (auto elim: runs_mono)
  have "runs c n (\<lambda>s. \<not> p_at T_EOF s) True (node GkError [emit])" by (intro stmt_rules views) simp
  then have err: "runs c n P True (node GkError [emit])" if "\<And>s. P s \<Longrightarrow> \<not> p_at T_EOF s" for P
    using that by (auto elim: runs_mono)
  show ?thesis
    unfolding parsePrefix_def [abs_def]
    by (intro runs_cond parseLeaf_adv unary err parseBlock_adv ex runs_mono [OF parseLoop_adv [OF ex]]
        runs_mono [OF parseParenOrTuple_adv [OF ex]] runs_mono [OF parseList_adv [OF ex]] runs_mono [OF parseMap_adv [OF ex]]
        runs_mono [OF parseIf_adv [OF ex]] runs_mono [OF parseMatch_adv [OF ex]] runs_mono [OF parseClosure_adv [OF ex]]
        runs_never [where f = "\<lambda>s. Inr s"])
      (auto simp: atAny_def p_at_def)
qed

lemma parsePrefix_runs:
  assumes ex: "exprs_below n ex"
  shows "runs c n P False (parsePrefix ex stops)"
  by (rule runs_any, rule runs_split [where q = "\<lambda>s. atAny stops s \<or> p_at T_EOF s"])
    (auto intro: runs_mono [OF parsePrefix_adv [OF ex]] runs_id simp: parsePrefix_def)

lemma structLitField_adv:
  assumes "exprs_run n ex"
  shows "runs c n (\<lambda>s. \<not> p_at T_EOF s) True (structLitField ex)"
  unfolding structLitField_def
  by (intro stmt_rules views expr_rules assms) auto

lemma parsePostfix_runs:
  assumes ex: "exprs_below n ex"
  shows "runsF (Some lhs) n (\<lambda>s. True) False (parsePostfix ex lhs stops)"
proof -
  have e: "exprs_run m ex" if "m < n" for m using exprs_belowD [OF ex that] .
  have field: "runs c m P True (structLitField ex)" if "m < n" "\<And>s. P s \<Longrightarrow> \<not> p_at T_EOF s" for c m P
    by (rule runs_mono [OF structLitField_adv [OF e [OF that(1)]]]) (use that in auto)
  show ?thesis
    unfolding parsePostfix_def [abs_def]
    by (intro runsF_cond runsF_go_on runsF_stop runs_one runs_nodeAt views runs_emit_then)
      (auto intro!: stmt_rules parses expr_rules e field simp: p_at_def atAny_def)
qed

text \<open>\<open>if f() { continue }; g\<close>.\<close>

lemma runsF_or:
  assumes f: "runsF c n P False f" and g: "runsF c n (\<lambda>s. True) False g"
  shows "runsF c n P False (\<lambda>s. bindR (f s) (\<lambda>x. if fst x then Inr (True, snd x) else g (snd x)))"
proof (rule runsFI)
  fix s0 s assume r: "ready c n s0 s" "P s"
  obtain b s1 where s1: "f s = Inr (b, s1)" "reaches s0 s (False \<or> b) s1" using runsFE [OF f r] by metis
  obtain s2 m where n: "ready c m s2 s1" "m \<le> n"
      "\<And>b' s''. reaches s2 s1 b' s'' \<Longrightarrow> reaches s0 s ((False \<or> b) \<or> b') s''"
    using ready_next [OF r(1) s1(2)] by metis
  obtain b' s' where s': "g s1 = Inr (b', s')" "reaches s2 s1 (False \<or> b') s'"
    using runsFE [OF g ready_mono [OF n(1,2)]] by metis
  show "\<exists>b s'. bindR (f s) (\<lambda>x. if fst x then Inr (True, snd x) else g (snd x)) = Inr (b, s') \<and>
      reaches s0 s (False \<or> b) s'"
    using s1 s' n(3) [OF s'(2)] by (cases b) auto
qed

lemma infixBindingPower_EOF: "snd (snd (infixBindingPower k)) \<Longrightarrow> k \<noteq> T_EOF"
  by (auto simp: infixBindingPower_def)

lemma exprBP_step_runs:
  assumes ex: "exprs_below n ex"
  shows "runsF (Some lhs) n P False (exprBP_step ex lhs minBP stops)"
proof -
  define g where "g = (\<lambda>s1. let bp = infixBindingPower (peekKind s1) in
      if \<not> snd (snd bp) \<or> fst bp < minBP then Inr (False, s1)
      else go_on [nodeAt (infixKind s1) lhs [emit, ex (NtExprBP (fst (snd bp)) stops)]] s1)"
  have rhs: "runs (Some lhs) n (\<lambda>s. \<not> p_at T_EOF s) True (seqs [nodeAt k lhs [emit, ex (NtExprBP bp stops)]])" for k bp
    by (intro runs_one runs_nodeAt views, rule runs_emit_then, simp) (intro runs_one expr_runs exprs_belowD [OF ex])
  have "runsF (Some lhs) n (\<lambda>s. True) False g"
  proof (rule runsFI)
    fix s0 s assume r: "ready (Some lhs) n s0 s"
    let ?bp = "infixBindingPower (peekKind s)"
    show "\<exists>b s'. g s = Inr (b, s') \<and> reaches s0 s (False \<or> b) s'"
    proof (cases "\<not> snd (snd ?bp) \<or> fst ?bp < minBP")
      case True
      then have "g s = Inr (False, s)" unfolding g_def Let_def by (rule if_P)
      then show ?thesis using ready_refl [OF r] by auto
    next
      case False
      then have "\<not> p_at T_EOF s" using infixBindingPower_EOF by (auto simp: p_at_def)
      then obtain s' where "seqs [nodeAt (infixKind s) lhs [emit, ex (NtExprBP (fst (snd ?bp)) stops)]] s = Inr s'"
          "reaches s0 s True s'"
        using runsE [OF rhs r] by metis
      moreover have "g s = go_on [nodeAt (infixKind s) lhs [emit, ex (NtExprBP (fst (snd ?bp)) stops)]] s"
        using False unfolding g_def Let_def by (rule if_not_P)
      ultimately show ?thesis by (auto simp: go_on_def simp del: seqs.simps)
    qed
  qed
  then have "runsF (Some lhs) n (\<lambda>s. True) False (\<lambda>s. bindR (parsePostfix ex lhs stops s)
      (\<lambda>x. if fst x then Inr (True, snd x) else g (snd x)))"
    by (rule runsF_or [OF parsePostfix_runs [OF ex]])
  moreover have "exprBP_step ex lhs minBP stops = (\<lambda>s. bindR (parsePostfix ex lhs stops s)
      (\<lambda>x. if fst x then Inr (True, snd x) else g (snd x)))"
    unfolding exprBP_step_def [abs_def] g_def Let_def ..
  ultimately show ?thesis by (simp add: runsF_def)
qed

lemma parseExprBP_runs:
  assumes ex: "exprs_below n ex"
  shows "runs c n P False (parseExprBP ex minBP stops)"
    "runs c n (\<lambda>s. \<not> atAny stops s \<and> \<not> p_at T_EOF s) True (parseExprBP ex minBP stops)"
proof -
  have loop: "runs (Some lhs) n Q False (loopB (\<lambda>s. \<not> (atAny stops s \<or> p_at T_EOF s)) (exprBP_step ex lhs minBP stops))" for lhs Q
    by (rule runs_loopB [OF exprBP_step_runs [OF ex]]) simp
  show "runs c n P False (parseExprBP ex minBP stops)"
    unfolding parseExprBP_def by (intro runs_withCp runs_seq0 runs_one loop parsePrefix_runs ex)
  show "runs c n (\<lambda>s. \<not> atAny stops s \<and> \<not> p_at T_EOF s) True (parseExprBP ex minBP stops)"
    unfolding parseExprBP_def
    by (intro runs_withCp runs_seq1' runs_one loop runs_mono [OF parsePrefix_adv [OF ex]]) auto
qed

lemma expr_fuel_runs: "n < k \<Longrightarrow> exprs_run n (expr_fuel k)"
proof (induction k arbitrary: n)
  case (Suc k)
  have "exprs_below n (expr_fuel k)" using Suc by (simp add: exprs_below_def)
  then show ?case
    unfolding exprs_run_def expr_fuel.simps expr_nt.case
    by (intro conjI allI parseExprBP_runs parseIf_adv parseBlock_adv)
qed simp

lemma expr_runs_all [parses]: "exprs_run n expr"
proof -
  note e = expr_fuel_runs [OF lessI, unfolded exprs_run_def]
  show ?thesis
    unfolding exprs_run_def expr_def [abs_def]
    by (intro conjI allI; rule runs_fuel; insert e; blast)
qed

section \<open>Declarations\<close>

lemmas decl_rules = stmt_rules views expr_rules parseTypeUntil_adv

lemma parseParamList_runs [parses]: "runs c n P False parseParamList"
  unfolding parseParamList_def by (rule runs_any, intro decl_rules parses) (auto simp: p_at_def)

lemma parseFnDecl_runs [parses]: "runs c n P False parseFnDecl"
  unfolding parseFnDecl_def
  by (rule runs_any, intro decl_rules parses parseBlock_adv exprs_run_below) auto

lemma parseFieldLike_runs [parses]: "runs c n P False parseFieldLike"
  unfolding parseFieldLike_def by (rule runs_any, intro decl_rules parses) auto

lemma parseVariant_runs [parses]: "runs c n P False parseVariant"
  unfolding parseVariant_def by (rule runs_any, intro decl_rules parses) (auto simp: p_at_def atAny_def)

lemma parseTypeAlias_runs [parses]: "runs c n P False parseTypeAlias"
  unfolding parseTypeAlias_def by (rule runs_any, intro decl_rules parses) auto

lemma parseFnDecl_adv: "runs c n (\<lambda>s. p_at T_PUB s \<or> p_at T_FN s) True parseFnDecl"
proof -
  let ?rest = "[eatS T_IDENT, parseGenericParamList, parseParamList,
      ifEat T_ARROW [parseTypeUntil [T_LBRACE, T_NEWLINE, T_EOF]] [], whenA (p_at T_LBRACE) [parseBlock expr]]"
  have rest: "runs c m (\<lambda>s. True) False (seqs ?rest)" "runs c m (\<lambda>s. True) False (seqs (eatS T_FN # ?rest))" for m
    by (intro decl_rules parses parseBlock_adv exprs_run_below; simp)+
  show ?thesis unfolding parseFnDecl_def
    by (rule runs_eat_seq, simp, rule rest, rule runs_eat_then) (auto simp: rest)
qed

lemma aggregateMember_adv:
  assumes "kind \<in> {GkStructDecl, GkEnumDecl, GkInterfaceDecl}"
  shows "runs c n (\<lambda>s. \<not> p_at T_EOF s) True (aggregateMember kind)"
proof -
  let ?member = "\<lambda>cp. ifA (\<lambda>s. kindAfterPub s = T_FN) [nodeAt GkFnDecl cp [parseFnDecl]]
      (if kind = GkStructDecl then [nodeAt GkField cp [unstalled [parseFieldLike]]]
       else if kind = GkEnumDecl then [nodeAt GkVariant cp [unstalled [parseVariant]]]
       else if kind = GkInterfaceDecl then [nodeAt GkNamedType cp [unstalled [parseTypeUntil [T_NEWLINE, T_RBRACE]]]]
       else [])"
  have fn: "runs None n (\<lambda>s. \<not> p_at T_EOF s \<and> kindAfterPub s = T_FN) True parseFnDecl"
    by (rule runs_mono [OF parseFnDecl_adv]) (auto simp: kindAfterPub_def p_at_def split: if_splits)
  have adv: "runs (Some cp) n (\<lambda>s. \<not> p_at T_EOF s) True (?member cp)" for cp
    using assms by (elim insertE) (auto intro!: stmt_rules views parses fn)
  have run: "runs (Some cp) m (\<lambda>s. True) False (?member cp)" for cp m
    using assms by (elim insertE) (auto intro!: stmt_rules views parses)
  show ?thesis unfolding aggregateMember_def
    by (rule runs_withCp, rule runs_seq, intro views,
      intro parseAnnotations_runs exprs_run_below expr_runs_all, rule runs_one, rule adv, rule runs_one, rule run)
qed

lemma aggregateMembers_runs:
  assumes "kind \<in> {GkStructDecl, GkEnumDecl, GkInterfaceDecl}"
  shows "runs c n P False (aggregateMembers kind)"
  unfolding aggregateMembers_def
  by (intro stmt_rules runs_mono [OF aggregateMember_adv [OF assms]]) (auto simp: p_at_def)

lemma parseAggregateDecl_runs:
  assumes "kind \<in> {GkStructDecl, GkEnumDecl, GkInterfaceDecl}"
  shows "runs c n P False (parseAggregateDecl kind)"
  unfolding parseAggregateDecl_def
  by (rule runs_any, cases "kind = GkEnumDecl")
    (simp_all, (intro stmt_rules views parses aggregateMembers_runs; use assms in simp)+)

lemma parseUseAlias_adv:
  assumes "\<And>s. P s \<Longrightarrow> \<not> p_at T_EOF s"
  shows "runs c n P b parseUseAlias"
proof (rule runs_mono)
  show "runs c n (\<lambda>s. \<not> p_at T_EOF s) True parseUseAlias"
    unfolding parseUseAlias_def by (intro stmt_rules views) auto
qed (use assms in auto)

lemma parseUsePathUntil_runs [parses]: "runs c n P False (parseUsePathUntil stops)"
  unfolding parseUsePathUntil_def by (rule runs_any, intro stmt_rules views) auto

lemma parseUsePathUntil_adv:
  assumes "\<And>s. P s \<Longrightarrow> \<not> (atAny stops s \<or> atUseAliasKeyword s \<or> p_at T_EOF s)"
  shows "runs c n P True (parseUsePathUntil stops)"
proof (rule runs_mono)
  show "runs c n (\<lambda>s. \<not> (atAny stops s \<or> atUseAliasKeyword s \<or> p_at T_EOF s)) True (parseUsePathUntil stops)"
    unfolding parseUsePathUntil_def by (intro stmt_rules views) auto
qed (use assms in auto)

lemma atUseAliasKeyword_EOF: "atUseAliasKeyword s \<Longrightarrow> \<not> p_at T_EOF s"
  by (auto simp: atUseAliasKeyword_def atIdentValue_def p_at_def)

lemma parseGroupedUseDecl_adv:
  "runs c n (\<lambda>s. notAt2 T_RBRACE s \<and> \<not> atSep s) True parseGroupedUseDecl"
proof -
  let ?path = "parseUsePathUntil [T_COMMA, T_RBRACE, T_NEWLINE, T_EOF]" and ?als = "whenA atUseAliasKeyword [parseUseAlias]"
  let ?P = "\<lambda>s. notAt2 T_RBRACE s \<and> \<not> atSep s"
  have als: "runs None m Q False (seqs [?als])" for m Q
    by (rule runs_any, intro stmt_rules parseUseAlias_adv) (auto dest: atUseAliasKeyword_EOF)
  have "runs None n ?P True (seqs [?path, ?als])"
  proof (rule runs_split [where q = atUseAliasKeyword])
    show "runs None n (\<lambda>s. ?P s \<and> atUseAliasKeyword s) True (seqs [?path, ?als])"
      by (rule runs_seq, intro views, intro parses, intro stmt_rules parseUseAlias_adv, auto simp: als)
    show "runs None n (\<lambda>s. ?P s \<and> \<not> atUseAliasKeyword s) True (seqs [?path, ?als])"
      by (rule runs_seq1, rule parseUsePathUntil_adv) (auto simp: als atAny_def p_at_def)
  qed
  then show ?thesis unfolding parseGroupedUseDecl_def by (intro runs_node views)
qed

lemma balanced_fuel_runs:
  "ready None n s0 s \<Longrightarrow> remaining s < k \<Longrightarrow>
    \<exists>s'. balanced_fuel k open close depth s = Inr s' \<and> reaches s0 s (\<not> p_at T_EOF s) s'"
proof (induction k arbitrary: n s0 s depth)
  case (Suc k)
  show ?case
  proof (cases "p_at T_EOF s")
    case True
    then show ?thesis using ready_refl [OF Suc.prems(1)] by simp
  next
    case False
    obtain s1 where s1: "emit s = Inr s1" "reaches s0 s True s1" using emit_runs [OF Suc.prems(1)] False by auto
    obtain s2 m where n: "ready None m s2 s1" "\<And>b' s''. reaches s2 s1 b' s'' \<Longrightarrow> reaches s0 s (True \<or> b') s''"
      using ready_next [OF Suc.prems(1) s1(2)] by metis
    have "fd_toks s1 = fd_toks s" using reaches_toks Suc.prems(1) s1(2) unfolding ready_def by blast
    then have "remaining s1 < k"
      using remaining_less [of s1 s] s1(2) Suc.prems(2) by (auto simp: reaches_def feed_ok_def)
    then have "\<exists>s'. balanced_fuel k open close d s1 = Inr s' \<and> reaches s0 s True s'" for d
      using Suc.IH [OF n(1), of d] n(2) by auto
    then show ?thesis using False s1 by (simp add: Let_def)
  qed
qed simp

lemma parseBalancedNode_adv:
  assumes "\<And>s. P s \<Longrightarrow> \<not> p_at T_EOF s"
  shows "runs c n P b (parseBalancedNode kind open close)"
proof (rule runs_mono)
  have "runs None n (\<lambda>s. \<not> p_at T_EOF s) True (\<lambda>s. balanced_fuel (Suc (remaining s)) open close 0 s)"
    using balanced_fuel_runs [OF _ lessI] by (fastforce intro: runsI)
  then show "runs c n (\<lambda>s. \<not> p_at T_EOF s) True (parseBalancedNode kind open close)"
    unfolding parseBalancedNode_def by (intro runs_node views runs_one)
qed (use assms in auto)

lemma useDeclPart_adv: "runs c n (\<lambda>s. \<not> p_at T_EOF s \<and> \<not> p_at T_NEWLINE s) True (useDeclPart grouped)"
  unfolding useDeclPart_def
  by (intro stmt_rules views parses parseUseAlias_adv parseBalancedNode_adv parseGroupedUseDecl_adv) (auto simp: p_at_def)

lemma parseUseDecl_runs: "runs c n P False (parseUseDecl grouped)"
  unfolding parseUseDecl_def by (intro stmt_rules parses useDeclPart_adv) auto

lemma topLevelBody_runs: "runs c n P False (topLevelBody k)"
proof -
  note e = expr_runs_all exprs_run_below [OF expr_runs_all]
  have "runs c n P False (parseAggregateDecl GkStructDecl)" "runs c n P False (parseAggregateDecl GkEnumDecl)"
    "runs c n P False (parseAggregateDecl GkInterfaceDecl)"
    by (intro parseAggregateDecl_runs; simp)+
  then show ?thesis unfolding topLevelBody_def
    by (intro runs_ite parses parseUseDecl_runs parseLet_runs parseStmtBody_runs e)
qed

lemma parseTopLevel_runs [parses]: "runs c n P False parseTopLevel"
proof -
  note e = expr_runs_all exprs_run_below [OF expr_runs_all]
  define F where "F = (\<lambda>cp k. if k = GkUsePath then [nodeAt GkUsePath cp [parseUseDecl True]]
      else if k \<noteq> GkNone then [nodeAt k cp [topLevelBody k]] else [parseStmt expr])"
  have F: "runs (Some cp) n (\<lambda>s. True) False (seqs (F cp k))" for cp k
    unfolding F_def
    by (auto intro!: stmt_rules views parseUseDecl_runs topLevelBody_runs parseStmt_runs(1) e)
  have "parseTopLevel = withCp (\<lambda>cp. [parseAnnotations expr, withS (\<lambda>s. F cp (topLevelKind s))])"
    by (simp add: parseTopLevel_def F_def)
  moreover have "runs c n P False (withCp (\<lambda>cp. [parseAnnotations expr, withS (\<lambda>s. F cp (topLevelKind s))]))"
    by (rule runs_withCp, rule runs_seq0, rule parseAnnotations_runs [OF e(2)], rule runs_one, rule runs_withS_view,
        rule runs_any, rule F)
  ultimately show ?thesis by simp
qed

section \<open>The driver\<close>

lemma parse_loop_runs: "runs c n (\<lambda>s. True) False parse_loop"
  unfolding parse_loop_def by (intro stmt_rules views parses) auto

text \<open>The loop ends only at EOF.\<close>

lemma loop_fuel_exit: "loop_fuel k q (go_on body) s = Inr s' \<Longrightarrow> \<not> q s'"
  by (induction k arbitrary: s) (auto simp: go_on_def bindR_eq_Inr split: if_splits)

lemma parse_loop_exit: "parse_loop s = Inr s' \<Longrightarrow> p_at T_EOF s'"
  using loop_fuel_exit [where q = "\<lambda>s. \<not> p_at T_EOF s"]
  unfolding parse_loop_def loopA_def loopB_def by blast

lemma newGreenParser_begun: "begun src toks trivias (feed_start GkFile (newGreenParser src toks trivias))"
  by (simp add: begun_def newGreenParser_def feed_start_def feed.defs)

lemma ParseGreen_ok:
  obtains t where "ParseGreen src toks trivias = Inr t" "lossless src toks trivias t"
proof -
  let ?s0 = "feed_start GkFile (newGreenParser src toks trivias)"
  have b: "begun src toks trivias ?s0" by (rule newGreenParser_begun)
  have ok: "feed_ok ?s0" using begun_ok [OF b] .
  have "ready None (remaining ?s0) ?s0 ?s0" using ok by (simp add: ready_def based_def)
  then obtain s where s: "parse_loop ?s0 = Inr s" "feed_ok s" "feed_ext ?s0 s"
    using runsE [OF parse_loop_runs] by (metis reaches_def)
  have "at_end s" using parse_loop_exit [OF s(1)] s(2) by (auto simp: at_end_def p_at_EOF feed_ok_def)
  moreover have "fd_pos ?s0 = 0" "fd_toks ?s0 = toks" using begun_fields(2,8) [OF b] by (metis prod_cases3)+
  then have "\<forall>j < fd_pos s. \<not> isEOF (fd_toks s ! j)" "fd_toks s = toks"
    using s(3) by (auto simp: feed_ext_def same_ctx_def)
  ultimately have "fd_pos s = first_eof toks" using at_end_first_eof [OF s(2)] by simp
  then obtain t where "feed_close s = Inr t" "lossless src toks trivias t"
    using driver_lossless [OF b s(2,3)] by blast
  then show thesis using that s(1) by (simp add: ParseGreen_def parse_def)
qed

section \<open>Theorems\<close>

text \<open>C1. The parser is total and keeps every token: for every source, token stream and trivia
  list, \<open>ParseGreen\<close> returns a tree (it never panics and never loops: the fuel of the model
  is always enough) whose leaves, left to right, are the tokens before EOF with their attached
  trivia, each exactly once and in order.\<close>

theorem ParseGreen_total_lossless:
  "\<exists>t. ParseGreen src toks trivias = Inr t \<and> lossless src toks trivias t"
  using ParseGreen_ok by metis

text \<open>C2. Parsing is lossless: for a token stream that lies inside the source in source order, with
  EOF only at the end, and whose tokens do not cut a trivia run (\<open>toks_fit\<close>), the tree \<open>ParseGreen\<close> makes from the tokens and their extracted trivia, however
  malformed the program, reconstructs the source byte for byte.\<close>

theorem ParseGreen_reconstructs_source:
  assumes "toks_fit src 0 True toks"
  shows "\<exists>t t'. ParseGreen src toks (Extract src toks) = Inr t \<and> Reconstruct t = Inr (src, t')"
proof -
  obtain t where t: "ParseGreen src toks (Extract src toks) = Inr t" "lossless src toks (Extract src toks) t"
    by (rule ParseGreen_ok)
  then obtain i where i: "tr_Root t = Some i" "tree_ok t" by (auto simp: lossless_def)
  from lossless_bytes [OF assms t(2) i(1)] show ?thesis
    using t(1) Reconstruct_leaves [OF i(2,1)] by metis
qed

definition let_toks :: "Token list" where
  "let_toks = [tokAt T_LET 0 3 ''let'', tokAt T_IDENT 4 5 ''x'', tokAt T_ASSIGN 6 7 '''']"

theorem ParseGreen_reconstructs_source_witness:
  "\<exists>t t'. ParseGreen ''let x ='' let_toks (Extract ''let x ='' let_toks) = Inr t \<and> Reconstruct t = Inr (''let x ='', t')"
  by (rule ParseGreen_reconstructs_source) code_simp

text \<open>C3. The checker against the parser: on a tree parsed from a token stream in source order whose
  tokens do not cut a trivia run (\<open>toks_fit\<close>) and its extracted trivia, \<open>ValidateTree\<close> reports exactly one error per structural node of width 0, in pre-order,
  and nothing else.\<close>

theorem ValidateTree_ParseGreen:
  assumes "toks_fit src 0 True toks" "ParseGreen src toks (Extract src toks) = Inr t"
    and "tr_Root t = Some i"
  shows "\<exists>t'. ValidateTree t =
    Inr (\<lparr>vr_Errors = concat (map (zero_width (tr_Arena t)) (preorder (tr_Arena t) (0, GctNode i)))\<rparr>, t')"
proof -
  obtain t0 where "ParseGreen src toks (Extract src toks) = Inr t0" "lossless src toks (Extract src toks) t0"
    by (rule ParseGreen_ok)
  then show ?thesis using assms ValidateTree_lossless [OF assms(1)] by auto
qed

theorem ValidateTree_ParseGreen_witness:
  "\<exists>t i t'. ParseGreen ''let x ='' let_toks (Extract ''let x ='' let_toks) = Inr t \<and> tr_Root t = Some i \<and> ValidateTree t =
    Inr (\<lparr>vr_Errors = concat (map (zero_width (tr_Arena t)) (preorder (tr_Arena t) (0, GctNode i)))\<rparr>, t')"
proof -
  obtain t where t: "ParseGreen ''let x ='' let_toks (Extract ''let x ='' let_toks) = Inr t"
      "lossless ''let x ='' let_toks (Extract ''let x ='' let_toks) t"
    by (rule ParseGreen_ok)
  then obtain i where i: "tr_Root t = Some i" by (auto simp: lossless_def)
  have "toks_fit ''let x ='' 0 True let_toks" by code_simp
  from ValidateTree_ParseGreen [OF this t(1) i] t(1) i show ?thesis by blast
qed

section \<open>Where the tree is not the one the grammar means\<close>

text \<open>The kinds of the structural nodes around each leaf, from the root, with the leaf's text.\<close>

fun spine :: "nat \<Rightarrow> GreenArena \<Rightarrow> GreenKind list \<Rightarrow> GreenChild \<Rightarrow> (GreenKind list \<times> string) list" where
  "spine 0 a ks c = []"
| "spine (Suc n) a ks (GctToken i) = [(ks, gt_Text (Tokens a ! i))]"
| "spine (Suc n) a ks (GctNode i) =
     concat (map (spine n a (ks @ [gn_Kind (Nodes a ! i)])) (gn_Children (Nodes a ! i)))"

definition spine_of :: "nat \<Rightarrow> Tree res \<Rightarrow> (GreenKind list \<times> string) list" where
  "spine_of n r = (case r of Inl _ \<Rightarrow> []
     | Inr t \<Rightarrow> (case tr_Root t of None \<Rightarrow> [] | Some i \<Rightarrow> spine n (tr_Arena t) [] (GctNode i)))"

definition empty_enum :: "Token list" where
  "empty_enum = [tokAt T_ENUM 0 4 ''enum'', tokAt T_IDENT 5 6 ''E'', tokAt T_LBRACE 6 7 '''', tokAt T_RBRACE 7 8 '''']"

text \<open>An enum with no variants is reported as a malformed tree: parsing \<open>enum E{}\<close> opens an
  empty variant list, a structural node of width 0, which \<open>ValidateTree\<close> rejects.\<close>

theorem empty_enum_rejected:
  "errors_of (ParseGreen ''enum E{}'' empty_enum (Extract ''enum E{}'' empty_enum))
     = [''structural node has non-positive width'']"
  by code_simp

definition nested_args :: "Token list" where
  "nested_args = [tokAt T_LET 0 3 ''let'', tokAt T_IDENT 4 5 ''x'', tokAt T_COLON 5 6 '''', tokAt T_IDENT 6 7 ''L'',
     tokAt T_LT 7 8 '''', tokAt T_IDENT 8 9 ''L'', tokAt T_LT 9 10 '''', tokAt T_IDENT 10 11 ''I'', tokAt T_SHR 11 13 '''',
     tokAt T_ASSIGN 13 14 '''', tokAt T_IDENT 14 15 ''y'']"

text \<open>After \<open>>>\<close> has closed two type-argument lists, the loop over the outer argument goes on:
  in \<open>let x:L<L<I>>=y\<close> the initialiser \<open>y\<close> is parsed as a named type inside the generic parameter
  of the declared type.\<close>

theorem nested_args_swallow_initialiser:
  "last (spine_of 9 (ParseGreen ''let x:L<L<I>>=y'' nested_args (Extract ''let x:L<L<I>>=y'' nested_args)))
     = ([GkFile, GkLetDecl, GkNamedType, GkGenericParamList, GkGenericParam, GkNamedType], ''y'')"
  by code_simp

end
