(* ===== verification/Go_Strings.thy ===== *)
theory Go_Strings
  imports Osty_Prelude
begin

text \<open>
  What the components use of Go's \<^verbatim>\<open>strings\<close>, \<^verbatim>\<open>strconv\<close> and \<^verbatim>\<open>unicode/utf8\<close> packages, with the lemmas on
  splitting, decimal numbers and white space that they share.
\<close>

section \<open>Functions\<close>

text \<open>\<open>strings.Split(s, c)\<close> and \<open>strings.Join(xs, c)\<close> for a one-byte separator.\<close>

fun split_on :: "char \<Rightarrow> string \<Rightarrow> string list" where
  "split_on c [] = [[]]"
| "split_on c (x # xs) =
     (if x = c then [] # split_on c xs
      else (case split_on c xs of [] \<Rightarrow> [[x]] | y # ys \<Rightarrow> (x # y) # ys))"

fun join :: "char \<Rightarrow> string list \<Rightarrow> string" where
  "join c [] = []"
| "join c [x] = x"
| "join c (x # y # ys) = x @ c # join c (y # ys)"

text \<open>The text before the first \<open>c\<close>, and the text after it if there is one.\<close>

definition cut_at :: "char \<Rightarrow> string \<Rightarrow> string \<times> string option" where
  "cut_at c s = (takeWhile (\<lambda>x. x \<noteq> c) s, if c \<in> set s then Some (tl (dropWhile (\<lambda>x. x \<noteq> c) s)) else None)"

definition is_digit :: "char \<Rightarrow> bool" where
  "is_digit c \<longleftrightarrow> 48 \<le> (of_char c :: int) \<and> (of_char c :: int) \<le> 57"

definition is_alnum_dash :: "char \<Rightarrow> bool" where
  "is_alnum_dash c \<longleftrightarrow>
     (let n = (of_char c :: int) in
      48 \<le> n \<and> n \<le> 57 \<or> 65 \<le> n \<and> n \<le> 90 \<or> 97 \<le> n \<and> n \<le> 122 \<or> n = 45)"

definition digits_val :: "string \<Rightarrow> int" where
  "digits_val s = foldl (\<lambda>a c. a * 10 + (of_char c - 48)) 0 s"

text \<open>\<open>strconv.ParseUint(s, 10, 64)\<close>: an error for an empty string, a non-digit or overflow.\<close>

definition ParseUint :: "string \<Rightarrow> 64 word option" where
  "ParseUint s =
     (if s = [] \<or> \<not> list_all is_digit s then None
      else if digits_val s < 2 ^ 64 then Some (word_of_int (digits_val s)) else None)"

text \<open>The UTF-8 encodings of the runes with \<open>unicode.IsSpace\<close>.\<close>

definition space_runes :: "string list" where
  "space_runes =
     [[CHR 0x09], [CHR 0x0A], [CHR 0x0B], [CHR 0x0C], [CHR 0x0D], [CHR 0x20], [CHR 0xC2, CHR 0x85], [CHR 0xC2, CHR 0xA0],
      [CHR 0xE1, CHR 0x9A, CHR 0x80], [CHR 0xE2, CHR 0x80, CHR 0xA8], [CHR 0xE2, CHR 0x80, CHR 0xA9],
      [CHR 0xE2, CHR 0x80, CHR 0xAF], [CHR 0xE2, CHR 0x81, CHR 0x9F], [CHR 0xE3, CHR 0x80, CHR 0x80],
      [CHR 0xE2, CHR 0x80, CHR 0x80], [CHR 0xE2, CHR 0x80, CHR 0x81], [CHR 0xE2, CHR 0x80, CHR 0x82],
      [CHR 0xE2, CHR 0x80, CHR 0x83], [CHR 0xE2, CHR 0x80, CHR 0x84], [CHR 0xE2, CHR 0x80, CHR 0x85],
      [CHR 0xE2, CHR 0x80, CHR 0x86], [CHR 0xE2, CHR 0x80, CHR 0x87], [CHR 0xE2, CHR 0x80, CHR 0x88],
      [CHR 0xE2, CHR 0x80, CHR 0x89], [CHR 0xE2, CHR 0x80, CHR 0x8A]]"

definition space_prefix :: "string \<Rightarrow> nat" where
  "space_prefix s = (case find (\<lambda>r. take (length r) s = r) space_runes of None \<Rightarrow> 0 | Some r \<Rightarrow> length r)"

definition space_suffix :: "string \<Rightarrow> nat" where
  "space_suffix s = (case find (\<lambda>r. take (length r) (rev s) = rev r) space_runes of None \<Rightarrow> 0 | Some r \<Rightarrow> length r)"

fun trim_left :: "nat \<Rightarrow> string \<Rightarrow> string" where
  "trim_left 0 s = s"
| "trim_left (Suc n) s = (if space_prefix s = 0 then s else trim_left n (drop (space_prefix s) s))"

fun trim_right :: "nat \<Rightarrow> string \<Rightarrow> string" where
  "trim_right 0 s = s"
| "trim_right (Suc n) s = (if space_suffix s = 0 then s else trim_right n (take (length s - space_suffix s) s))"

definition TrimSpace :: "string \<Rightarrow> string" where
  "TrimSpace s = (let s1 = trim_left (length s) s in trim_right (length s1) s1)"

text \<open>\<open>strings.Fields\<close>: the maximal runs without white space. Each round drops at least one byte.\<close>

fun fields_loop :: "nat \<Rightarrow> string \<Rightarrow> string \<Rightarrow> string list" where
  "fields_loop 0 cur s = (if cur = [] then [] else [cur])"
| "fields_loop (Suc n) cur [] = (if cur = [] then [] else [cur])"
| "fields_loop (Suc n) cur (x # xs) =
     (if space_prefix (x # xs) = 0 then fields_loop n (cur @ [x]) xs
      else (if cur = [] then [] else [cur]) @ fields_loop n [] (drop (space_prefix (x # xs)) (x # xs)))"

definition Fields :: "string \<Rightarrow> string list" where
  "Fields s = fields_loop (length s) [] s"

text \<open>\<open>string(r)\<close>, \<open>%c\<close> and \<open>utf8.EncodeRune\<close>: the UTF-8 encoding of a code point; U+FFFD for what is none.\<close>

definition utf8_rune :: "nat \<Rightarrow> string" where
  "utf8_rune r =
     (let c = (if r > 0x10FFFF \<or> 0xD800 \<le> r \<and> r \<le> 0xDFFF then 0xFFFD else r);
          b = (\<lambda>n. char_of (0x80 + n mod 64 :: nat)) in
      if c < 0x80 then [char_of c]
      else if c < 0x800 then [char_of (0xC0 + c div 64), b c]
      else if c < 0x10000 then [char_of (0xE0 + c div 4096), b (c div 64), b c]
      else [char_of (0xF0 + c div 262144), b (c div 4096), b (c div 64), b c])"

section \<open>Splitting and joining\<close>

lemma split_on_ne [simp]: "split_on c s \<noteq> []"
  by (induction c s rule: split_on.induct) (auto split: list.splits)

lemma join_split [simp]: "join c (split_on c s) = s"
proof (induction c s rule: split_on.induct)
  case (2 c x xs)
  then show ?case by (cases "split_on c xs"; cases "tl (split_on c xs)") (auto split: list.splits)
qed simp

lemma split_on_free: "c \<notin> set s \<Longrightarrow> split_on c s = [s]"
  by (induction c s rule: split_on.induct) auto

lemma split_on_append: "c \<notin> set x \<Longrightarrow> split_on c (x @ c # s) = x # split_on c s"
  by (induction x) auto

lemma split_join: "xs \<noteq> [] \<Longrightarrow> \<forall>x \<in> set xs. c \<notin> set x \<Longrightarrow> split_on c (join c xs) = xs"
  by (induction c xs rule: join.induct) (auto simp: split_on_free split_on_append)

lemma set_join: "set (join c xs) \<subseteq> \<Union> (set ` set xs) \<union> {c}"
  by (induction c xs rule: join.induct) auto

lemma cut_free: "c \<notin> set s \<Longrightarrow> cut_at c s = (s, None)"
  by (simp add: cut_at_def takeWhile_eq_all_conv) blast

lemma cut_append: "c \<notin> set a \<Longrightarrow> cut_at c (a @ c # b) = (a, Some b)"
  by (induction a) (auto simp: cut_at_def)

lemma cut_cases:
  obtains "c \<notin> set s" "cut_at c s = (s, None)"
  | a b where "s = a @ c # b" "c \<notin> set a" "cut_at c s = (a, Some b)"
proof (cases "c \<in> set s")
  case True
  then obtain a b where "s = a @ c # b" "c \<notin> set a" by (metis split_list_first)
  then show thesis using that(2) cut_append by blast
next
  case False
  then show thesis using that(1) cut_free by blast
qed

section \<open>Decimal numbers\<close>

lemma digits_val_snoc: "digits_val (xs @ [c]) = digits_val xs * 10 + (of_char c - 48)"
  by (simp add: digits_val_def)

lemma digit_char_val: "d < 10 \<Longrightarrow> of_char (digit_char d) = 48 + int d"
proof -
  assume "d < 10"
  then have "(of_char (digit_char d) :: nat) = 48 + d" by (simp add: digit_char_def)
  then show ?thesis by (metis of_nat_add of_nat_numeral of_nat_of_char)
qed

lemma of_char_int_eq: "(of_char c :: int) = of_char d \<longleftrightarrow> c = d"
  by (metis of_nat_of_char of_nat_eq_iff of_char_eq_iff)

lemma itoa_digits: "list_all is_digit (itoa n)" "itoa n \<noteq> []"
proof (induction n rule: itoa.induct)
  case (1 n)
  {
    case 1
    have "d < 10 \<Longrightarrow> is_digit (digit_char d)" for d by (simp add: is_digit_def digit_char_val)
    then show ?case using "1.IH" by (subst itoa.simps) auto
  next
    case 2
    then show ?case by (subst itoa.simps) simp
  }
qed

lemma digits_val_itoa: "digits_val (itoa n) = int n"
proof (induction n rule: itoa.induct)
  case (1 n)
  show ?case
  proof (cases "n < 10")
    case True
    then show ?thesis by (simp add: itoa.simps [of n] digits_val_def digit_char_val)
  next
    case False
    then show ?thesis using 1 by (simp add: itoa.simps [of n] digits_val_snoc digit_char_val zdiv_int zmod_int)
  qed
qed

lemma itoa_no_zero: "0 < n \<Longrightarrow> itoa n ! 0 \<noteq> CHR ''0''"
proof (induction n rule: itoa.induct)
  case (1 n)
  show ?case
  proof (cases "n < 10")
    case True
    have "(of_char (digit_char n) :: int) \<noteq> of_char CHR ''0''" using True 1(2) by (simp add: digit_char_val)
    then have "digit_char n \<noteq> CHR ''0''" by metis
    then show ?thesis using True by (simp add: itoa.simps [of n])
  next
    case False
    then show ?thesis using 1(1) itoa_digits(2) [of "n div 10"] by (simp add: itoa.simps [of n] nth_append)
  qed
qed

lemma digit_val_bounds: "is_digit c \<Longrightarrow> 0 \<le> (of_char c :: int) - 48 \<and> (of_char c :: int) - 48 < 10"
  by (simp add: is_digit_def)

lemma foldl_digits_ge:
  "list_all is_digit s \<Longrightarrow> 0 \<le> a \<Longrightarrow> (a :: int) \<le> foldl (\<lambda>a c. a * 10 + (of_char c - 48)) a s"
proof (induction s arbitrary: a)
  case (Cons c s)
  have c: "a \<le> a * 10 + (of_char c - 48)" using digit_val_bounds [of c] Cons.prems by auto
  also have "\<dots> \<le> foldl (\<lambda>a c. a * 10 + (of_char c - 48)) (a * 10 + (of_char c - 48)) s"
    using Cons.IH Cons.prems c by auto
  finally show ?case by simp
qed simp

lemma digits_val_ge: "list_all is_digit s \<Longrightarrow> 0 \<le> digits_val s"
  using foldl_digits_ge [of s 0] by (simp add: digits_val_def)

lemma digits_val_pos:
  assumes "is_digit c" "c \<noteq> CHR ''0''" "list_all is_digit s"
  shows "0 < digits_val (c # s)"
proof -
  have "(of_char c :: int) \<noteq> 48" using assms(2) of_char_int_eq [of c "CHR ''0''"] by simp
  then have "0 < (of_char c :: int) - 48" using digit_val_bounds [OF assms(1)] by simp
  then show ?thesis using foldl_digits_ge [OF assms(3), of "of_char c - 48"] by (simp add: digits_val_def)
qed

lemma digit_char_of: "is_digit c \<Longrightarrow> digit_char (nat ((of_char c :: int) - 48)) = c"
proof -
  assume c: "is_digit c"
  have "nat ((of_char c :: int) - 48) = (of_char c :: nat) - 48"
    by (metis nat_diff_distrib' nat_int nat_numeral of_nat_of_char of_nat_0_le_iff zero_le_numeral)
  moreover have "48 \<le> (of_char c :: nat)" using c by (metis is_digit_def of_nat_le_iff of_nat_numeral of_nat_of_char)
  ultimately show ?thesis by (simp add: digit_char_def)
qed

lemma itoa_digits_val:
  "p \<noteq> [] \<Longrightarrow> list_all is_digit p \<Longrightarrow> \<not> (length p > 1 \<and> p ! 0 = CHR ''0'') \<Longrightarrow> itoa (nat (digits_val p)) = p"
proof (induction p rule: rev_induct)
  case (snoc c xs)
  have c: "is_digit c" "list_all is_digit xs" using snoc.prems(2) by auto
  define d where "d = (of_char c :: int) - 48"
  have d: "0 \<le> d" "d < 10" "digit_char (nat d) = c" using digit_val_bounds [OF c(1)] digit_char_of [OF c(1)] by (auto simp: d_def)
  show ?case
  proof (cases "xs = []")
    case True
    then show ?thesis using d by (simp add: digits_val_def itoa.simps d_def [symmetric])
  next
    case False
    then obtain y ys where xs: "xs = y # ys" by (cases xs) auto
    have pos: "0 < digits_val xs" using digits_val_pos [of y ys] snoc.prems xs by (auto simp: nth_append)
    have ih: "itoa (nat (digits_val xs)) = xs" using snoc False by (auto simp: nth_append split: if_splits)
    define n where "n = nat (digits_val (xs @ [c]))"
    have n: "n = nat (digits_val xs) * 10 + nat d"
      using pos d(1) by (simp add: n_def digits_val_snoc d_def [symmetric] nat_add_distrib nat_mult_distrib)
    moreover have "nat d < 10" using d by simp
    ultimately have "n div 10 = nat (digits_val xs)" "n mod 10 = nat d" by auto
    moreover have "\<not> n < 10" using n pos by auto
    ultimately show ?thesis using ih d(3) by (simp add: n_def [symmetric] itoa.simps [of n])
  qed
qed simp

section \<open>Texts without white space\<close>

definition graphic :: "char \<Rightarrow> bool" where
  "graphic c \<longleftrightarrow> 33 \<le> (of_char c :: int) \<and> (of_char c :: int) \<le> 126"

lemma spaces_not_graphic: "list_all (\<lambda>r. r \<noteq> [] \<and> \<not> graphic (hd r) \<and> \<not> graphic (last r)) space_runes"
  by code_simp

lemma graphic_no_space:
  assumes "list_all graphic s"
  shows "space_prefix s = 0" "space_suffix s = 0"
proof -
  have r: "r \<noteq> [] \<and> \<not> graphic (hd r) \<and> \<not> graphic (last r)" if "r \<in> set space_runes" for r
    using spaces_not_graphic that by (auto simp: list_all_iff)
  have "take (length r) s \<noteq> r" "take (length r) (rev s) \<noteq> rev r" if "r \<in> set space_runes" for r
  proof -
    show "take (length r) s \<noteq> r"
    proof
      assume "take (length r) s = r"
      then have "hd r \<in> set s" using r [OF that] by (metis hd_in_set in_set_takeD)
      then show False using r [OF that] assms by (auto simp: list_all_iff)
    qed
    show "take (length r) (rev s) \<noteq> rev r"
    proof
      assume "take (length r) (rev s) = rev r"
      then have "last r \<in> set s" using r [OF that] by (metis in_set_takeD last_in_set set_rev)
      then show False using r [OF that] assms by (auto simp: list_all_iff)
    qed
  qed
  then have "find (\<lambda>r. take (length r) s = r) space_runes = None"
    "find (\<lambda>r. take (length r) (rev s) = rev r) space_runes = None"
    by (auto simp: find_None_iff)
  then show "space_prefix s = 0" "space_suffix s = 0" by (simp_all add: space_prefix_def space_suffix_def)
qed

lemma fields_graphic: "list_all graphic s \<Longrightarrow> length s \<le> n \<Longrightarrow> cur @ s \<noteq> [] \<Longrightarrow> fields_loop n cur s = [cur @ s]"
proof (induction s arbitrary: n cur)
  case (Cons x s)
  then show ?case using graphic_no_space(1) [of "x # s"] by (cases n) auto
next
  case Nil
  then show ?case by (cases n) auto
qed

lemma one_field:
  assumes "list_all graphic s" "s \<noteq> []"
  shows "TrimSpace s = s" "Fields s = [s]"
proof -
  have "trim_left n s = s" "trim_right n s = s" for n using graphic_no_space [OF assms(1)] by (cases n; simp)+
  then show "TrimSpace s = s" by (simp add: TrimSpace_def Let_def)
  show "Fields s = [s]" using fields_graphic [OF assms(1) order_refl, of "[]"] assms(2) by (simp add: Fields_def)
qed

end
