(* ===== verification/IR_Decision.thy ===== *)
theory IR_Decision
  imports Go_Strings "HOL-Library.Multiset"
begin

text \<open>
  \<^verbatim>\<open>src/internal/ir/pattern.go\<close> and \<^verbatim>\<open>decision.go\<close>: patterns and the decision trees that
  \<open>CompileDecisionTree\<close> makes of the arms of a \<open>match\<close>, with the tree validator of \<^verbatim>\<open>validate.go\<close>. Spans and
  types are left out. Go's \<open>nil\<close> patterns occur only where the code allows them (the fields of
  a struct pattern). An expression is a literal, an identifier or anything else, whose
  content the code does not look at.

  A tree is run as MIR lowering does (\<open>lowerTree\<close>, \<open>lowerSwitch\<close> of \<^verbatim>\<open>src/internal/mir/lower.go\<close>): a guard without a
  condition goes to its first branch. How literals compare with values is a parameter.
\<close>

section \<open>Expressions and patterns\<close>

datatype 'e StringPart = LitPart string | ExprPart 'e

datatype 'x Expr =
  BoolLit bool
| IntLit string
| FloatLit string
| CharLit nat
| ByteLit "8 word"
| BytesLit string
| StringLit "'x Expr StringPart list"
| Ident string
| OtherExpr 'x

datatype 'x Pattern =
  WildPat
| IdentPat string bool
| LitPat "'x Expr"
| TuplePat "'x Pattern list"
| StructPat string "(string \<times> 'x Pattern option) list" bool
| VariantPat string string "'x Pattern list"
| RangePat "'x Expr option" "'x Expr option" bool
| OrPat "'x Pattern list"
| BindingPat string "'x Pattern"
| ErrorPat string

record 'x MatchArm =
  arm_Pattern :: "'x Pattern"
  arm_Guard :: "'x Expr option"

definition quote_char :: char where
  "quote_char = CHR 0x22"

definition exprLiteralText :: "'x Expr \<Rightarrow> string" where
  "exprLiteralText e =
     (case e of
        IntLit t \<Rightarrow> t
      | FloatLit t \<Rightarrow> t
      | BoolLit b \<Rightarrow> if b then ''true'' else ''false''
      | CharLit r \<Rightarrow> CHR 0x27 # utf8_rune r @ [CHR 0x27]
      | ByteLit b \<Rightarrow> [CHR ''b'', CHR 0x27, CHR ''?'', CHR 0x27]
      | BytesLit s \<Rightarrow> CHR ''b'' # quote_char # ''...'' @ [quote_char]
      | StringLit ps \<Rightarrow> quote_char # concat (map (\<lambda>p. case p of LitPart s \<Rightarrow> s | ExprPart _ \<Rightarrow> ''{expr}'') ps) @ [quote_char]
      | Ident n \<Rightarrow> n
      | OtherExpr _ \<Rightarrow> ''<expr>'')"

fun sep_by :: "string \<Rightarrow> string list \<Rightarrow> string" where
  "sep_by s [] = []"
| "sep_by s [x] = x"
| "sep_by s (x # y # ys) = x @ s @ sep_by s (y # ys)"

fun PatternString :: "'x Pattern \<Rightarrow> string" where
  "PatternString WildPat = ''_''"
| "PatternString (IdentPat n mt) = (if mt then ''mut '' else []) @ n"
| "PatternString (LitPat e) = exprLiteralText e"
| "PatternString (TuplePat ps) = ''('' @ sep_by '', '' (map PatternString ps) @ '')''"
| "PatternString (StructPat t fs rst) =
     t @ '' { '' @ sep_by '', '' (map (\<lambda>f. fst f @ (case snd f of None \<Rightarrow> [] | Some p \<Rightarrow> '': '' @ PatternString p)) fs) @
     (if rst then (if fs \<noteq> [] then '', '' else []) @ ''..'' else []) @ '' }''"
| "PatternString (VariantPat en v ps) =
     (if en \<noteq> [] then en @ ''.'' else []) @ v @ (if ps \<noteq> [] then ''('' @ sep_by '', '' (map PatternString ps) @ '')'' else [])"
| "PatternString (RangePat lo hi inc) =
     (case lo of None \<Rightarrow> [] | Some e \<Rightarrow> exprLiteralText e) @ (if inc then ''..='' else ''..'') @
     (case hi of None \<Rightarrow> [] | Some e \<Rightarrow> exprLiteralText e)"
| "PatternString (OrPat ps) = sep_by '' | '' (map PatternString ps)"
| "PatternString (BindingPat n p) = n @ '' @ '' @ PatternString p"
| "PatternString (ErrorPat n) = ''<error:'' @ n @ ''>''"

section \<open>Decision trees\<close>

datatype ProjectionKind = ProjScrutinee | ProjTuple | ProjField | ProjVariant | ProjVariantN

datatype Projection =
  Projection (pj_Base: "Projection option") (pj_Kind: ProjectionKind) (pj_Index: nat) (pj_Field: string) (pj_Variant: string)

datatype SwitchKind = SwitchUnknown | SwitchVariant | SwitchLit | SwitchBool | SwitchTuple

text \<open>A case has a label, the variant or the literal it stands for, and a body.\<close>

datatype 'x DecisionNode =
  DecisionLeaf nat
| DecisionFail
| DecisionBind string Projection "'x DecisionNode"
| DecisionGuard "'x Expr option" "'x DecisionNode" "'x DecisionNode"
| DecisionSwitch SwitchKind Projection "'x SwitchCase list" "'x DecisionNode"
and 'x SwitchCase = SwitchCase string string "'x Expr option" "'x DecisionNode"

definition switchKindName :: "SwitchKind \<Rightarrow> string" where
  "switchKindName k = (case k of SwitchVariant \<Rightarrow> ''variant'' | SwitchLit \<Rightarrow> ''lit'' | SwitchBool \<Rightarrow> ''bool''
     | SwitchTuple \<Rightarrow> ''tuple'' | SwitchUnknown \<Rightarrow> ''?'')"

definition projection_part :: "Projection \<Rightarrow> string" where
  "projection_part p = (case pj_Kind p of
       ProjScrutinee \<Rightarrow> ''.''
     | ProjTuple \<Rightarrow> CHR ''.'' # itoa (pj_Index p)
     | ProjField \<Rightarrow> CHR ''.'' # pj_Field p
     | ProjVariant \<Rightarrow> CHR 0x40 # pj_Variant p
     | ProjVariantN \<Rightarrow> CHR 0x40 # pj_Variant p @ CHR ''.'' # itoa (pj_Index p))"

text \<open>The code collects the parts from the leaf to the root and reverses them.\<close>

fun projection_parts :: "Projection \<Rightarrow> string list" where
  "projection_parts (Projection b k i f v) =
     projection_part (Projection b k i f v) # (case b of None \<Rightarrow> [] | Some p \<Rightarrow> projection_parts p)"

definition projectionString :: "Projection \<Rightarrow> string" where
  "projectionString p = concat (rev (projection_parts p))"

fun Decision_String :: "'x DecisionNode \<Rightarrow> string" and case_String :: "'x SwitchCase \<Rightarrow> string" where
  "Decision_String (DecisionLeaf i) = ''leaf(arm='' @ itoa i @ '')''"
| "Decision_String DecisionFail = ''fail''"
| "Decision_String (DecisionBind n p nxt) = ''bind('' @ n @ ''='' @ projectionString p @ '') -> '' @ Decision_String nxt"
| "Decision_String (DecisionGuard c t e) = ''guard -> {'' @ Decision_String t @ ''} / {'' @ Decision_String e @ ''}''"
| "Decision_String (DecisionSwitch k p cs d) =
     ''switch('' @ switchKindName k @ '', '' @ projectionString p @ '') ['' @ sep_by ''; '' (map case_String cs) @
     ''] else '' @ Decision_String d"
| "case_String (SwitchCase l v lit b) = l @ '' -> '' @ Decision_String b"

section \<open>Compilation\<close>

fun isCatchAll :: "'x Pattern \<Rightarrow> bool" where
  "isCatchAll WildPat = True"
| "isCatchAll (IdentPat n mt) = (\<not> mt)"
| "isCatchAll (BindingPat n p) = isCatchAll p"
| "isCatchAll _ = False"

text \<open>The element loops wrap \<open>rest\<close> once per element, the last element outermost.\<close>

fun bindPattern :: "'x Pattern \<Rightarrow> Projection \<Rightarrow> 'x DecisionNode \<Rightarrow> 'x DecisionNode"
  and bind_elems :: "(nat \<Rightarrow> Projection) \<Rightarrow> nat \<Rightarrow> 'x Pattern list \<Rightarrow> 'x DecisionNode \<Rightarrow> 'x DecisionNode"
  and bind_fields :: "Projection \<Rightarrow> (string \<times> 'x Pattern option) list \<Rightarrow> 'x DecisionNode \<Rightarrow> 'x DecisionNode" where
  "bindPattern (IdentPat n mt) proj rest = DecisionBind n proj rest"
| "bindPattern (BindingPat n p) proj rest = DecisionBind n proj (bindPattern p proj rest)"
| "bindPattern (TuplePat ps) proj rest = bind_elems (\<lambda>i. Projection (Some proj) ProjTuple i [] []) 0 ps rest"
| "bindPattern (StructPat t fs rst) proj rest = bind_fields proj fs rest"
| "bindPattern (VariantPat en v ps) proj rest = bind_elems (\<lambda>i. Projection (Some proj) ProjVariantN i [] v) 0 ps rest"
| "bindPattern _ proj rest = rest"
| "bind_elems child i [] rest = rest"
| "bind_elems child i (p # ps) rest = bind_elems child (Suc i) ps (bindPattern p (child i) rest)"
| "bind_fields proj [] rest = rest"
| "bind_fields proj ((n, None) # fs) rest =
     bind_fields proj fs (DecisionBind n (Projection (Some proj) ProjField 0 n []) rest)"
| "bind_fields proj ((n, Some p) # fs) rest =
     bind_fields proj fs (bindPattern p (Projection (Some proj) ProjField 0 n []) rest)"

definition compileArmBody :: "nat \<Rightarrow> 'x MatchArm \<Rightarrow> Projection \<Rightarrow> 'x DecisionNode" where
  "compileArmBody armIdx arm proj =
     (let body = bindPattern (arm_Pattern arm) proj (DecisionLeaf armIdx) in
      case arm_Guard arm of None \<Rightarrow> body | Some g \<Rightarrow> DecisionGuard (Some g) body DecisionFail)"

text \<open>The loop runs from the last arm down to \<open>armStart\<close>: \<open>chain_from i arms\<close> is the chain of the arms from
  index \<open>i\<close> on.\<close>

fun chain_from :: "nat \<Rightarrow> 'x MatchArm list \<Rightarrow> Projection \<Rightarrow> 'x DecisionNode" where
  "chain_from i [] proj = DecisionFail"
| "chain_from i (arm # arms) proj =
     (let cur = chain_from (Suc i) arms proj;
          body0 = bindPattern (arm_Pattern arm) proj (DecisionLeaf i);
          body = (case arm_Guard arm of None \<Rightarrow> body0 | Some g \<Rightarrow> DecisionGuard (Some g) body0 cur)
      in if isCatchAll (arm_Pattern arm) \<and> arm_Guard arm = None then body else DecisionGuard None body cur)"

definition compileArmChain :: "'x MatchArm list \<Rightarrow> nat \<Rightarrow> Projection \<Rightarrow> 'x DecisionNode" where
  "compileArmChain arms armStart proj = chain_from armStart (drop armStart arms) proj"

text \<open>\<open>cases\<close> with \<open>order\<close>: the arms of each variant, in order of first appearance.\<close>

fun add_case :: "string \<Rightarrow> nat \<Rightarrow> (string \<times> nat list) list \<Rightarrow> (string \<times> nat list) list" where
  "add_case v i [] = [(v, [i])]"
| "add_case v i ((w, is) # cs) = (if w = v then (w, is @ [i]) # cs else (w, is) # add_case v i cs)"

fun variant_scan :: "nat \<Rightarrow> 'x MatchArm list \<Rightarrow> (string \<times> nat list) list \<Rightarrow> ((string \<times> nat list) list \<times> nat option) option" where
  "variant_scan i [] cases = Some (cases, None)"
| "variant_scan i (arm # arms) cases =
     (case arm_Pattern arm of
        VariantPat en v ps \<Rightarrow> variant_scan (Suc i) arms (add_case v i cases)
      | WildPat \<Rightarrow> Some (cases, Some i)
      | IdentPat n mt \<Rightarrow> Some (cases, Some i)
      | _ \<Rightarrow> None)"

definition default_node :: "'x MatchArm list \<Rightarrow> nat option \<Rightarrow> Projection \<Rightarrow> 'x DecisionNode" where
  "default_node arms d proj = (case d of None \<Rightarrow> DecisionFail | Some i \<Rightarrow> compileArmBody i (arms ! i) proj)"

definition variant_case :: "'x MatchArm list \<Rightarrow> Projection \<Rightarrow> string \<times> nat list \<Rightarrow> 'x SwitchCase" where
  "variant_case arms proj c =
     SwitchCase (fst c) (fst c) None
       (compileArmBody (hd (snd c)) (arms ! hd (snd c)) (Projection (Some proj) ProjVariant 0 [] (fst c)))"

definition tryCompileVariantSwitch :: "'x MatchArm list \<Rightarrow> nat \<Rightarrow> Projection \<Rightarrow> 'x DecisionNode option" where
  "tryCompileVariantSwitch arms armStart proj =
     (case variant_scan armStart (drop armStart arms) [] of
        None \<Rightarrow> None
      | Some (cases, defaultArm) \<Rightarrow>
          if cases = [] then None
          else Some (DecisionSwitch SwitchVariant proj (map (variant_case arms proj) cases) (default_node arms defaultArm proj)))"

definition switchKindOfLit :: "'x Expr \<Rightarrow> SwitchKind" where
  "switchKindOfLit e = (case e of
       BoolLit _ \<Rightarrow> SwitchBool
     | IntLit _ \<Rightarrow> SwitchLit | CharLit _ \<Rightarrow> SwitchLit | ByteLit _ \<Rightarrow> SwitchLit | BytesLit _ \<Rightarrow> SwitchLit | FloatLit _ \<Rightarrow> SwitchLit
     | StringLit _ \<Rightarrow> SwitchLit
     | _ \<Rightarrow> SwitchUnknown)"

definition litLabel :: "'x Expr \<Rightarrow> string" where
  "litLabel e = (case e of
       BoolLit b \<Rightarrow> if b then ''true'' else ''false''
     | IntLit t \<Rightarrow> t
     | FloatLit t \<Rightarrow> t
     | CharLit r \<Rightarrow> CHR 0x27 # utf8_rune r @ [CHR 0x27]
     | ByteLit b \<Rightarrow> CHR ''b'' # itoa (unat b)
     | BytesLit s \<Rightarrow> CHR ''b'' # quote_char # s @ [quote_char]
     | StringLit ps \<Rightarrow> quote_char # concat (map (\<lambda>p. case p of LitPart s \<Rightarrow> s
         | ExprPart _ \<Rightarrow> CHR 0x7B # [CHR 0xE2, CHR 0x80, CHR 0xA6] @ [CHR 0x7D]) ps) @ [quote_char]
     | _ \<Rightarrow> ''?'')"

fun lit_scan :: "nat \<Rightarrow> 'x MatchArm list \<Rightarrow> Projection \<Rightarrow> SwitchKind \<Rightarrow> 'x SwitchCase list \<Rightarrow>
    (SwitchKind \<times> 'x SwitchCase list \<times> nat option) option" where
  "lit_scan i [] proj kind cases = Some (kind, cases, None)"
| "lit_scan i (arm # arms) proj kind cases =
     (case arm_Pattern arm of
        LitPat e \<Rightarrow>
          (let k = switchKindOfLit e in
           if k = SwitchUnknown \<or> kind \<noteq> SwitchUnknown \<and> kind \<noteq> k then None
           else lit_scan (Suc i) arms proj k (cases @ [SwitchCase (litLabel e) [] (Some e) (compileArmBody i arm proj)]))
      | WildPat \<Rightarrow> Some (kind, cases, Some i)
      | IdentPat n mt \<Rightarrow> Some (kind, cases, Some i)
      | _ \<Rightarrow> None)"

definition tryCompileLitSwitch :: "'x MatchArm list \<Rightarrow> nat \<Rightarrow> Projection \<Rightarrow> 'x DecisionNode option" where
  "tryCompileLitSwitch arms armStart proj =
     (case lit_scan armStart (drop armStart arms) proj SwitchUnknown [] of
        None \<Rightarrow> None
      | Some (kind, cases, defaultArm) \<Rightarrow>
          if kind = SwitchUnknown \<or> cases = [] then None
          else Some (DecisionSwitch kind proj cases (default_node arms defaultArm proj)))"

definition compileArms :: "'x MatchArm list \<Rightarrow> nat \<Rightarrow> Projection \<Rightarrow> 'x DecisionNode" where
  "compileArms arms armStart proj =
     (if armStart \<ge> length arms then DecisionFail
      else if isCatchAll (arm_Pattern (arms ! armStart)) then compileArmBody armStart (arms ! armStart) proj
      else (case tryCompileVariantSwitch arms armStart proj of
              Some sw \<Rightarrow> sw
            | None \<Rightarrow>
                (case tryCompileLitSwitch arms armStart proj of
                   Some sw \<Rightarrow> sw
                 | None \<Rightarrow> compileArmChain arms armStart proj)))"

definition root_projection :: Projection where
  "root_projection = Projection None ProjScrutinee 0 [] []"

definition CompileDecisionTree :: "'x MatchArm list \<Rightarrow> 'x DecisionNode" where
  "CompileDecisionTree arms = (if arms = [] then DecisionFail else compileArms arms 0 root_projection)"

section \<open>Validation\<close>

text \<open>The checks for missing children have no counterpart: every child is there by construction.\<close>

datatype decision_error = LeafOutOfRange nat nat

fun decision_walk :: "nat \<Rightarrow> 'x DecisionNode \<Rightarrow> decision_error list"
  and case_walk :: "nat \<Rightarrow> 'x SwitchCase \<Rightarrow> decision_error list" where
  "decision_walk n (DecisionLeaf i) = (if i \<ge> n then [LeafOutOfRange i n] else [])"
| "decision_walk n DecisionFail = []"
| "decision_walk n (DecisionBind x p nxt) = decision_walk n nxt"
| "decision_walk n (DecisionGuard c t e) = decision_walk n t @ decision_walk n e"
| "decision_walk n (DecisionSwitch k p cs d) = decision_walk n d @ concat (map (case_walk n) cs)"
| "case_walk n (SwitchCase l v lit b) = decision_walk n b"

definition ValidateDecisionTree :: "'x DecisionNode \<Rightarrow> nat \<Rightarrow> decision_error list" where
  "ValidateDecisionTree t armCount = decision_walk armCount t"

section \<open>What trees and arms mean\<close>

text \<open>Values, with the literals as an arbitrary type.\<close>

datatype 'l val = VLit 'l | VTuple "'l val list" | VStruct "(string \<times> 'l val) list" | VVariant string "'l val list"

type_synonym 'l env = "(string \<times> 'l val) list"

datatype 'l outcome = Selected nat "'l env" | Unmatched | Stuck

text \<open>The payload of a variant is a tuple; its fields are read off the payload or off the
  value itself.\<close>

fun project :: "Projection \<Rightarrow> 'l val \<Rightarrow> 'l val option" where
  "project (Projection b k i f v) x =
     (case (case b of None \<Rightarrow> Some x | Some p \<Rightarrow> project p x) of
        None \<Rightarrow> None
      | Some y \<Rightarrow>
          (case k of
             ProjScrutinee \<Rightarrow> Some y
           | ProjTuple \<Rightarrow> (case y of VTuple vs \<Rightarrow> if i < length vs then Some (vs ! i) else None | _ \<Rightarrow> None)
           | ProjField \<Rightarrow> (case y of VStruct fs \<Rightarrow> map_of fs f | _ \<Rightarrow> None)
           | ProjVariant \<Rightarrow> (case y of VVariant w vs \<Rightarrow> if w = v then Some (VTuple vs) else None | _ \<Rightarrow> None)
           | ProjVariantN \<Rightarrow>
               (case y of VTuple vs \<Rightarrow> if i < length vs then Some (vs ! i) else None
                | VVariant w vs \<Rightarrow> if w = v \<and> i < length vs then Some (vs ! i) else None | _ \<Rightarrow> None)))"

text \<open>\<open>leq e l\<close>: the literal \<open>e\<close> denotes the value \<open>l\<close>; \<open>lrange lo hi inc l\<close>: it lies in the range; \<open>gd g env\<close>: the
  guard holds.\<close>

record ('x, 'l) semantics =
  leq :: "'x Expr \<Rightarrow> 'l \<Rightarrow> bool"
  lrange :: "'x Expr option \<Rightarrow> 'x Expr option \<Rightarrow> bool \<Rightarrow> 'l \<Rightarrow> bool"
  gd :: "'x Expr \<Rightarrow> 'l env \<Rightarrow> bool"

definition case_hit :: "('x, 'l) semantics \<Rightarrow> SwitchKind \<Rightarrow> string \<Rightarrow> 'x Expr option \<Rightarrow> 'l val \<Rightarrow> bool" where
  "case_hit S k v lit x =
     (if k = SwitchVariant then (case x of VVariant w vs \<Rightarrow> w = v | _ \<Rightarrow> False)
      else (case (lit, x) of (Some e, VLit l) \<Rightarrow> leq S e l | _ \<Rightarrow> False))"

fun run_tree :: "('x, 'l) semantics \<Rightarrow> 'l val \<Rightarrow> 'x DecisionNode \<Rightarrow> 'l env \<Rightarrow> 'l outcome"
  and run_cases :: "('x, 'l) semantics \<Rightarrow> 'l val \<Rightarrow> SwitchKind \<Rightarrow> 'l val \<Rightarrow> 'x SwitchCase list \<Rightarrow> 'l env \<Rightarrow> 'l outcome option" where
  "run_tree S x (DecisionLeaf i) env = Selected i env"
| "run_tree S x DecisionFail env = Unmatched"
| "run_tree S x (DecisionBind n p nxt) env =
     (case project p x of None \<Rightarrow> Stuck | Some y \<Rightarrow> run_tree S x nxt ((n, y) # env))"
| "run_tree S x (DecisionGuard c t e) env =
     (case c of None \<Rightarrow> run_tree S x t env | Some g \<Rightarrow> if gd S g env then run_tree S x t env else run_tree S x e env)"
| "run_tree S x (DecisionSwitch k p cs d) env =
     (case project p x of None \<Rightarrow> Stuck
      | Some y \<Rightarrow> (case run_cases S x k y cs env of Some r \<Rightarrow> r | None \<Rightarrow> run_tree S x d env))"
| "run_cases S x k y [] env = None"
| "run_cases S x k y (SwitchCase l v lit b # cs) env =
     (if case_hit S k v lit y then Some (run_tree S x b env) else run_cases S x k y cs env)"

text \<open>The arms in order: the first one whose pattern matches and whose guard holds with the names
  of the pattern bound.\<close>

fun pmatch :: "('x, 'l) semantics \<Rightarrow> 'x Pattern \<Rightarrow> 'l val \<Rightarrow> bool"
  and pmatches :: "('x, 'l) semantics \<Rightarrow> 'x Pattern list \<Rightarrow> 'l val list \<Rightarrow> bool"
  and fmatches :: "('x, 'l) semantics \<Rightarrow> (string \<times> 'x Pattern option) list \<Rightarrow> (string \<times> 'l val) list \<Rightarrow> bool"
  and some_match :: "('x, 'l) semantics \<Rightarrow> 'x Pattern list \<Rightarrow> 'l val \<Rightarrow> bool" where
  "pmatch S WildPat x = True"
| "pmatch S (IdentPat n mt) x = True"
| "pmatch S (LitPat e) x = (case x of VLit l \<Rightarrow> leq S e l | _ \<Rightarrow> False)"
| "pmatch S (TuplePat ps) x = (case x of VTuple vs \<Rightarrow> pmatches S ps vs | _ \<Rightarrow> False)"
| "pmatch S (StructPat t fs rst) x = (case x of VStruct vs \<Rightarrow> fmatches S fs vs | _ \<Rightarrow> False)"
| "pmatch S (VariantPat en v ps) x = (case x of VVariant w vs \<Rightarrow> w = v \<and> pmatches S ps vs | _ \<Rightarrow> False)"
| "pmatch S (RangePat lo hi inc) x = (case x of VLit l \<Rightarrow> lrange S lo hi inc l | _ \<Rightarrow> False)"
| "pmatch S (OrPat ps) x = some_match S ps x"
| "pmatch S (BindingPat n p) x = pmatch S p x"
| "pmatch S (ErrorPat n) x = False"
| "pmatches S [] vs = (vs = [])"
| "pmatches S (p # ps) vs = (case vs of [] \<Rightarrow> False | v # vs' \<Rightarrow> pmatch S p v \<and> pmatches S ps vs')"
| "fmatches S [] vs = True"
| "fmatches S ((n, None) # fs) vs = (map_of vs n \<noteq> None \<and> fmatches S fs vs)"
| "fmatches S ((n, Some p) # fs) vs = ((case map_of vs n of None \<Rightarrow> False | Some v \<Rightarrow> pmatch S p v) \<and> fmatches S fs vs)"
| "some_match S [] x = False"
| "some_match S (p # ps) x = (pmatch S p x \<or> some_match S ps x)"

fun pbinds :: "('x, 'l) semantics \<Rightarrow> 'x Pattern \<Rightarrow> 'l val \<Rightarrow> 'l env"
  and pbindss :: "('x, 'l) semantics \<Rightarrow> 'x Pattern list \<Rightarrow> 'l val list \<Rightarrow> 'l env"
  and fbinds :: "('x, 'l) semantics \<Rightarrow> (string \<times> 'x Pattern option) list \<Rightarrow> (string \<times> 'l val) list \<Rightarrow> 'l env"
  and obinds :: "('x, 'l) semantics \<Rightarrow> 'x Pattern list \<Rightarrow> 'l val \<Rightarrow> 'l env" where
  "pbinds S (IdentPat n mt) x = [(n, x)]"
| "pbinds S (BindingPat n p) x = (n, x) # pbinds S p x"
| "pbinds S (TuplePat ps) x = (case x of VTuple vs \<Rightarrow> pbindss S ps vs | _ \<Rightarrow> [])"
| "pbinds S (StructPat t fs rst) x = (case x of VStruct vs \<Rightarrow> fbinds S fs vs | _ \<Rightarrow> [])"
| "pbinds S (VariantPat en v ps) x = (case x of VVariant w vs \<Rightarrow> pbindss S ps vs | _ \<Rightarrow> [])"
| "pbinds S (OrPat ps) x = obinds S ps x"
| "pbinds S WildPat x = []"
| "pbinds S (LitPat e) x = []"
| "pbinds S (RangePat lo hi inc) x = []"
| "pbinds S (ErrorPat n) x = []"
| "pbindss S [] vs = []"
| "pbindss S (p # ps) vs = (case vs of [] \<Rightarrow> [] | v # vs' \<Rightarrow> pbinds S p v @ pbindss S ps vs')"
| "fbinds S [] vs = []"
| "fbinds S ((n, None) # fs) vs = (case map_of vs n of None \<Rightarrow> [] | Some v \<Rightarrow> [(n, v)]) @ fbinds S fs vs"
| "fbinds S ((n, Some p) # fs) vs = (case map_of vs n of None \<Rightarrow> [] | Some v \<Rightarrow> pbinds S p v) @ fbinds S fs vs"
| "obinds S [] x = []"
| "obinds S (p # ps) x = (if pmatch S p x then pbinds S p x else obinds S ps x)"

fun first_arm :: "('x, 'l) semantics \<Rightarrow> nat \<Rightarrow> 'x MatchArm list \<Rightarrow> 'l val \<Rightarrow> 'l outcome" where
  "first_arm S i [] x = Unmatched"
| "first_arm S i (arm # arms) x =
     (if pmatch S (arm_Pattern arm) x \<and> (case arm_Guard arm of None \<Rightarrow> True | Some g \<Rightarrow> gd S g (pbinds S (arm_Pattern arm) x))
      then Selected i (pbinds S (arm_Pattern arm) x) else first_arm S (Suc i) arms x)"

section \<open>Binding\<close>

fun or_free :: "'x Pattern \<Rightarrow> bool" and or_frees :: "'x Pattern list \<Rightarrow> bool" and or_freef :: "(string \<times> 'x Pattern option) list \<Rightarrow> bool" where
  "or_free (OrPat ps) = False"
| "or_free (TuplePat ps) = or_frees ps"
| "or_free (StructPat t fs rst) = or_freef fs"
| "or_free (VariantPat en v ps) = or_frees ps"
| "or_free (BindingPat n p) = or_free p"
| "or_free _ = True"
| "or_frees [] = True"
| "or_frees (p # ps) = (or_free p \<and> or_frees ps)"
| "or_freef [] = True"
| "or_freef ((n, None) # fs) = or_freef fs"
| "or_freef ((n, Some p) # fs) = (or_free p \<and> or_freef fs)"

text \<open>Running a chain of bindings adds the names of the pattern.\<close>

definition binds_as :: "('x, 'l) semantics \<Rightarrow> 'l val \<Rightarrow> 'x DecisionNode \<Rightarrow> 'x DecisionNode \<Rightarrow> 'l env \<Rightarrow> bool" where
  "binds_as S x t rest bs \<longleftrightarrow> (\<forall>env. \<exists>env'. run_tree S x t env = run_tree S x rest env' \<and> mset env' = mset bs + mset env)"

lemma binds_as_nil: "binds_as S x rest rest []"
  by (auto simp: binds_as_def)

lemma binds_as_bind:
  assumes "project p x = Some y" "binds_as S x t rest bs"
  shows "binds_as S x (DecisionBind n p t) rest ((n, y) # bs)"
  unfolding binds_as_def
proof
  fix env
  obtain env' where "run_tree S x t ((n, y) # env) = run_tree S x rest env'" "mset env' = mset bs + mset ((n, y) # env)"
    using assms(2) unfolding binds_as_def by blast
  then show "\<exists>env'. run_tree S x (DecisionBind n p t) env = run_tree S x rest env' \<and> mset env' = mset ((n, y) # bs) + mset env"
    using assms(1) by (intro exI [of _ env']) simp
qed

lemma binds_as_trans:
  assumes "binds_as S x t u bs" "binds_as S x u rest cs" "mset ds = mset bs + mset cs"
  shows "binds_as S x t rest ds"
  unfolding binds_as_def
proof
  fix env
  obtain e1 where 1: "run_tree S x t env = run_tree S x u e1" "mset e1 = mset bs + mset env"
    using assms(1) unfolding binds_as_def by blast
  obtain e2 where "run_tree S x u e1 = run_tree S x rest e2" "mset e2 = mset cs + mset e1"
    using assms(2) unfolding binds_as_def by blast
  then show "\<exists>env'. run_tree S x t env = run_tree S x rest env' \<and> mset env' = mset ds + mset env"
    using 1 assms(3) by (intro exI [of _ e2]) (simp add: ac_simps)
qed

lemma bindPattern_binds:
  fixes S :: "('x, 'l) semantics"
  shows
  "\<forall>y. pmatch S p y \<and> or_free p \<and> project proj x = Some y \<longrightarrow> binds_as S x (bindPattern p proj rest) rest (pbinds S p y)"
  "\<forall>vs. pmatches S ps vs \<and> or_frees ps \<and> (\<forall>j < length vs. project (child (i + j)) x = Some (vs ! j)) \<longrightarrow>
     binds_as S x (bind_elems child i ps rest) rest (pbindss S ps vs)"
  "\<forall>vs. fmatches S fs vs \<and> or_freef fs \<and> project proj x = Some (VStruct vs) \<longrightarrow>
     binds_as S x (bind_fields proj fs rest) rest (fbinds S fs vs)"
proof (induction p proj rest and child i ps rest and proj fs rest rule: bindPattern_bind_elems_bind_fields.induct)
  case (1 n mt proj rest)
  then show ?case by (auto intro: binds_as_bind binds_as_nil)
next
  case (2 n p proj rest)
  then show ?case by (auto intro: binds_as_bind)
next
  case (3 ps proj rest)
  then show ?case by (auto split: val.splits)
next
  case (4 t fs rst proj rest)
  then show ?case by (auto split: val.splits)
next
  case (5 en v ps proj rest)
  then show ?case by (auto split: val.splits)
next
  case (8 child i p ps rest)
  show ?case
  proof (intro allI impI, elim conjE)
    fix vs
    assume a: "pmatches S (p # ps) vs" "or_frees (p # ps)" "\<forall>j < length vs. project (child (i + j)) x = Some (vs ! j)"
    then obtain v vs' where vs: "vs = v # vs'" "pmatch S p v" "pmatches S ps vs'" by (auto split: list.splits)
    have 1: "binds_as S x (bindPattern p (child i) rest) rest (pbinds S p v)"
      using "8.IH"(1) a(2) spec [OF a(3), of 0] vs by simp
    have "\<forall>j < length vs'. project (child (Suc i + j)) x = Some (vs' ! j)"
      using a(3) vs(1) by (auto dest: spec [of _ "Suc _"])
    then have "binds_as S x (bind_elems child (Suc i) ps (bindPattern p (child i) rest)) (bindPattern p (child i) rest) (pbindss S ps vs')"
      using "8.IH"(2) a(2) vs(3) by simp
    from binds_as_trans [OF this 1] show "binds_as S x (bind_elems child i (p # ps) rest) rest (pbindss S (p # ps) vs)"
      using vs(1) by simp
  qed
next
  case (10 proj n fs rest)
  show ?case
  proof (intro allI impI, elim conjE)
    fix vs
    assume a: "fmatches S ((n, None) # fs) vs" "or_freef ((n, None) # fs)" "project proj x = Some (VStruct vs)"
    then obtain v where v: "map_of vs n = Some v" by auto
    let ?b = "DecisionBind n (Projection (Some proj) ProjField 0 n []) rest"
    have 1: "binds_as S x ?b rest [(n, v)]" by (rule binds_as_bind [OF _ binds_as_nil]) (simp add: a(3) v)
    have "binds_as S x (bind_fields proj fs ?b) ?b (fbinds S fs vs)" using "10.IH" a by simp
    from binds_as_trans [OF this 1] show "binds_as S x (bind_fields proj ((n, None) # fs) rest) rest (fbinds S ((n, None) # fs) vs)"
      using v by simp
  qed
next
  case (11 proj n p fs rest)
  show ?case
  proof (intro allI impI, elim conjE)
    fix vs
    assume a: "fmatches S ((n, Some p) # fs) vs" "or_freef ((n, Some p) # fs)" "project proj x = Some (VStruct vs)"
    then obtain v where v: "map_of vs n = Some v" "pmatch S p v" by (auto split: option.splits)
    let ?b = "bindPattern p (Projection (Some proj) ProjField 0 n []) rest"
    have 1: "binds_as S x ?b rest (pbinds S p v)" using "11.IH"(1) a v by simp
    have "binds_as S x (bind_fields proj fs ?b) ?b (fbinds S fs vs)" using "11.IH"(2) a by simp
    from binds_as_trans [OF this 1] show "binds_as S x (bind_fields proj ((n, Some p) # fs) rest) rest (fbinds S ((n, Some p) # fs) vs)"
      using v by simp
  qed
qed (auto simp: binds_as_nil)

section \<open>Flat matches\<close>

text \<open>A match is flat if its arms up to the first wildcard or name have no guards and are either
  distinct variants or literals of one kind.\<close>

fun is_binder :: "'x Pattern \<Rightarrow> bool" where
  "is_binder WildPat = True"
| "is_binder (IdentPat n mt) = True"
| "is_binder _ = False"

definition tests :: "'x MatchArm list \<Rightarrow> 'x MatchArm list" where
  "tests arms = takeWhile (\<lambda>a. \<not> is_binder (arm_Pattern a)) arms"

fun variant_of :: "'x Pattern \<Rightarrow> string" where
  "variant_of (VariantPat en v ps) = v"
| "variant_of _ = []"

fun variant_arm :: "'x Pattern \<Rightarrow> bool" where
  "variant_arm (VariantPat en v ps) = or_frees ps"
| "variant_arm _ = False"

fun lit_arm :: "SwitchKind \<Rightarrow> 'x Pattern \<Rightarrow> bool" where
  "lit_arm k (LitPat e) = (switchKindOfLit e = k)"
| "lit_arm k _ = False"

definition flat :: "'x MatchArm list \<Rightarrow> bool" where
  "flat arms \<longleftrightarrow>
     list_all (\<lambda>a. arm_Guard a = None) (take (Suc (length (tests arms))) arms) \<and>
     (list_all (\<lambda>a. variant_arm (arm_Pattern a)) (tests arms) \<and> distinct (map (variant_of \<circ> arm_Pattern) (tests arms)) \<or>
      list_ex (\<lambda>k. list_all (\<lambda>a. lit_arm k (arm_Pattern a)) (tests arms)) [SwitchLit, SwitchBool])"

text \<open>The patterns inside a variant accept whatever the variant carries.\<close>

definition payload_open :: "('x, 'l) semantics \<Rightarrow> 'x MatchArm list \<Rightarrow> 'l val \<Rightarrow> bool" where
  "payload_open S arms x \<longleftrightarrow>
     list_all (\<lambda>a. case (arm_Pattern a, x) of (VariantPat en v ps, VVariant w vs) \<Rightarrow> v = w \<longrightarrow> pmatches S ps vs | _ \<Rightarrow> True) (tests arms)"

fun agrees :: "'l outcome \<Rightarrow> 'l outcome \<Rightarrow> bool" where
  "agrees (Selected i e) (Selected j f) = (i = j \<and> mset e = mset f)"
| "agrees Unmatched Unmatched = True"
| "agrees _ _ = False"

text \<open>What a switch makes of the test arms, numbered from \<open>i\<close>.\<close>

definition variant_cases :: "nat \<Rightarrow> 'x MatchArm list \<Rightarrow> 'x SwitchCase list" where
  "variant_cases i hs = map (\<lambda>(j, a). SwitchCase (variant_of (arm_Pattern a)) (variant_of (arm_Pattern a)) None
     (compileArmBody j a (Projection (Some root_projection) ProjVariant 0 [] (variant_of (arm_Pattern a))))) (enumerate i hs)"

fun lit_of :: "'x Pattern \<Rightarrow> 'x Expr option" where
  "lit_of (LitPat e) = Some e"
| "lit_of _ = None"

definition lit_cases :: "nat \<Rightarrow> 'x MatchArm list \<Rightarrow> 'x SwitchCase list" where
  "lit_cases i hs = map (\<lambda>(j, a). SwitchCase (litLabel (the (lit_of (arm_Pattern a)))) [] (lit_of (arm_Pattern a))
     (compileArmBody j a root_projection)) (enumerate i hs)"

text \<open>A list of cases decides like the arms it was made from.\<close>

definition decides :: "('x, 'l) semantics \<Rightarrow> SwitchKind \<Rightarrow> 'l val \<Rightarrow> 'x SwitchCase list \<Rightarrow> nat \<Rightarrow> 'x MatchArm list \<Rightarrow> bool" where
  "decides S k x cs i hs \<longleftrightarrow>
     (case run_cases S x k x cs [] of None \<Rightarrow> first_arm S i hs x = Unmatched 
      | Some r \<Rightarrow> first_arm S i hs x \<noteq> Unmatched \<and> agrees r (first_arm S i hs x))"

lemma project_root [simp]: "project root_projection x = Some x"
  by (simp add: root_projection_def)

lemma run_body_agrees:
  assumes "arm_Guard a = None" "binds_as S x (bindPattern (arm_Pattern a) proj (DecisionLeaf j)) (DecisionLeaf j) bs"
  shows "agrees (run_tree S x (compileArmBody j a proj) []) (Selected j bs)"
proof -
  obtain env where "run_tree S x (bindPattern (arm_Pattern a) proj (DecisionLeaf j)) [] = Selected j env" "mset env = mset bs"
    using assms(2) unfolding binds_as_def by (metis add.right_neutral mset.simps(1) run_tree.simps(1))
  then show ?thesis using assms(1) by (simp add: compileArmBody_def)
qed

lemma variant_cases_decide:
  assumes "list_all (\<lambda>a. arm_Guard a = None \<and> variant_arm (arm_Pattern a)) hs"
    "list_all (\<lambda>a. case (arm_Pattern a, x) of (VariantPat en v ps, VVariant w vs) \<Rightarrow> v = w \<longrightarrow> pmatches S ps vs | _ \<Rightarrow> True) hs"
  shows "decides S SwitchVariant x (variant_cases i hs) i hs"
  using assms
proof (induction hs arbitrary: i)
  case Nil
  then show ?case by (simp add: decides_def variant_cases_def)
next
  case (Cons a hs)
  then obtain en v ps where p: "arm_Pattern a = VariantPat en v ps" "or_frees ps" "arm_Guard a = None"
    by (cases "arm_Pattern a") auto
  show ?case
  proof (cases "\<exists>vs. x = VVariant v vs")
    case True
    then obtain vs where x: "x = VVariant v vs" "pmatches S ps vs" using Cons.prems(2) p(1) by auto
    let ?pj = "Projection (Some root_projection) ProjVariant 0 [] v"
    have "binds_as S x (bindPattern (VariantPat en v ps) ?pj (DecisionLeaf i)) (DecisionLeaf i) (pbindss S ps vs)"
      using bindPattern_binds(2) [of S ps "\<lambda>j. Projection (Some ?pj) ProjVariantN j [] v" 0 x "DecisionLeaf i"] x p(2) by simp
    then have "agrees (run_tree S x (compileArmBody i a ?pj) []) (Selected i (pbindss S ps vs))"
      using run_body_agrees p by metis
    then show ?thesis using x p by (simp add: decides_def variant_cases_def case_hit_def)
  next
    case False
    then have "first_arm S i (a # hs) x = first_arm S (Suc i) hs x"
      "run_cases S x SwitchVariant x (variant_cases i (a # hs)) [] = run_cases S x SwitchVariant x (variant_cases (Suc i) hs) []"
      using p by (cases x; auto simp: variant_cases_def case_hit_def)+
    moreover have "decides S SwitchVariant x (variant_cases (Suc i) hs) (Suc i) hs" using Cons by simp
    ultimately show ?thesis unfolding decides_def by (simp only:)
  qed
qed

lemma lit_cases_decide:
  assumes "list_all (\<lambda>a. arm_Guard a = None \<and> lit_arm k (arm_Pattern a)) hs" "k \<noteq> SwitchVariant"
  shows "decides S k x (lit_cases i hs) i hs"
  using assms(1)
proof (induction hs arbitrary: i)
  case Nil
  then show ?case by (simp add: decides_def lit_cases_def)
next
  case (Cons a hs)
  then obtain e where p: "arm_Pattern a = LitPat e" "arm_Guard a = None" by (cases "arm_Pattern a") auto
  have c: "case_hit S k [] (Some e) x = pmatch S (LitPat e) x" using assms(2) by (cases x) (simp_all add: case_hit_def)
  show ?case
  proof (cases "pmatch S (LitPat e) x")
    case True
    then show ?thesis using p c by (auto simp: decides_def lit_cases_def compileArmBody_def)
  next
    case False
    then have "first_arm S i (a # hs) x = first_arm S (Suc i) hs x"
      "run_cases S x k x (lit_cases i (a # hs)) [] = run_cases S x k x (lit_cases (Suc i) hs) []"
      using p c by (simp_all add: lit_cases_def)
    moreover have "decides S k x (lit_cases (Suc i) hs) (Suc i) hs" using Cons by simp
    ultimately show ?thesis unfolding decides_def by (simp only:)
  qed
qed

text \<open>What the scans collect.\<close>

lemma add_case_fresh: "v \<notin> fst ` set cs \<Longrightarrow> add_case v i cs = cs @ [(v, [i])]"
  by (induction cs) auto

lemma tests_Nil [simp]: "tests [] = []"
  by (simp add: tests_def)

lemma tests_Cons: "tests (a # as) = (if is_binder (arm_Pattern a) then [] else a # tests as)"
  by (simp add: tests_def)

definition default_at :: "nat \<Rightarrow> 'x MatchArm list \<Rightarrow> nat option" where
  "default_at i as = (if length (tests as) < length as then Some (i + length (tests as)) else None)"

lemma variant_scan_flat:
  assumes "list_all (\<lambda>a. variant_arm (arm_Pattern a)) (tests as)" "distinct (map (variant_of \<circ> arm_Pattern) (tests as))"
    "fst ` set cs \<inter> set (map (variant_of \<circ> arm_Pattern) (tests as)) = {}"
  shows "variant_scan i as cs =
    Some (cs @ map (\<lambda>(j, a). (variant_of (arm_Pattern a), [j])) (enumerate i (tests as)), default_at i as)"
  using assms
proof (induction as arbitrary: i cs)
  case (Cons a as)
  show ?case
  proof (cases "is_binder (arm_Pattern a)")
    case True
    then show ?thesis by (cases "arm_Pattern a") (simp_all add: tests_Cons default_at_def)
  next
    case False
    then obtain en v ps where p: "arm_Pattern a = VariantPat en v ps"
      using Cons.prems(1) by (cases "arm_Pattern a") (simp_all add: tests_Cons)
    have "add_case v i cs = cs @ [(v, [i])]" using Cons.prems(3) p by (intro add_case_fresh) (auto simp: tests_Cons)
    then show ?thesis
      using Cons.IH [of "cs @ [(v, [i])]" "Suc i"] Cons.prems p by (auto simp: tests_Cons default_at_def)
  qed
qed (simp add: default_at_def)

lemma lit_scan_flat:
  assumes "list_all (\<lambda>a. lit_arm k (arm_Pattern a)) (tests as)" "k \<noteq> SwitchUnknown" "kind = SwitchUnknown \<or> kind = k"
  shows "lit_scan i as root_projection kind cs =
    Some (if tests as = [] then kind else k, cs @ lit_cases i (tests as), default_at i as)"
  using assms
proof (induction as arbitrary: i cs kind)
  case (Cons a as)
  show ?case
  proof (cases "is_binder (arm_Pattern a)")
    case True
    then show ?thesis by (cases "arm_Pattern a") (simp_all add: tests_Cons default_at_def lit_cases_def)
  next
    case False
    then obtain e where p: "arm_Pattern a = LitPat e" "switchKindOfLit e = k"
      using Cons.prems(1) by (cases "arm_Pattern a") (simp_all add: tests_Cons)
    then show ?thesis
      using Cons.IH [of k "Suc i"] Cons.prems by (auto simp: tests_Cons default_at_def lit_cases_def Let_def)
  qed
qed (simp add: default_at_def lit_cases_def)

text \<open>After the tests comes a binder or nothing.\<close>

lemma first_arm_append:
  "first_arm S i (as @ bs) x = (case first_arm S i as x of Unmatched \<Rightarrow> first_arm S (i + length as) bs x | r \<Rightarrow> r)"
  by (induction as arbitrary: i) (auto split: outcome.splits)

lemma first_arm_not_stuck: "first_arm S i as x \<noteq> Stuck"
  by (induction as arbitrary: i) auto

lemma default_agrees:
  assumes "list_all (\<lambda>a. arm_Guard a = None) (take (Suc (length (tests arms))) arms)"
  shows "agrees (run_tree S x (default_node arms (default_at 0 arms) root_projection) [])
    (first_arm S (length (tests arms)) (drop (length (tests arms)) arms) x)"
proof (cases "length (tests arms) < length arms")
  case True
  let ?a = "arms ! length (tests arms)"
  have b: "is_binder (arm_Pattern ?a)" using True nth_length_takeWhile [of "\<lambda>a. \<not> is_binder (arm_Pattern a)" arms] by (simp add: tests_def)
  have g: "arm_Guard ?a = None" using assms True by (simp add: list_all_length)
  have "drop (length (tests arms)) arms = ?a # drop (Suc (length (tests arms))) arms" using True by (simp add: Cons_nth_drop_Suc)
  then show ?thesis using b g True
    by (cases "arm_Pattern ?a") (simp_all add: default_node_def default_at_def compileArmBody_def)
next
  case False
  then show ?thesis by (simp add: default_node_def default_at_def)
qed

text \<open>A switch over the tests with the default after them agrees with the arms.\<close>

lemma switch_agrees:
  assumes "list_all (\<lambda>a. arm_Guard a = None) (take (Suc (length (tests arms))) arms)" "decides S k x cs 0 (tests arms)"
  shows "agrees (run_tree S x (DecisionSwitch k root_projection cs (default_node arms (default_at 0 arms) root_projection)) [])
    (first_arm S 0 arms x)"
proof -
  have "arms = tests arms @ drop (length (tests arms)) arms"
    unfolding tests_def by (metis takeWhile_eq_take append_take_drop_id)
  then have "first_arm S 0 arms x = (case first_arm S 0 (tests arms) x of
      Unmatched \<Rightarrow> first_arm S (length (tests arms)) (drop (length (tests arms)) arms) x | r \<Rightarrow> r)"
    using first_arm_append [of S 0 "tests arms" "drop (length (tests arms)) arms" x] by (simp only: add_0)
  then show ?thesis
    using assms(2) default_agrees [OF assms(1), of S x] first_arm_not_stuck [of S 0 "tests arms" x]
    by (cases "run_cases S x k x cs []"; cases "first_arm S 0 (tests arms) x")
      (auto simp: decides_def split: outcome.splits elim: agrees.elims)
qed

lemma tests_prefix: "set (tests as) \<subseteq> set (take (Suc (length (tests as))) as)"
  by (induction as) (auto simp: tests_Cons)

lemma flat_variants_agree:
  assumes "list_all (\<lambda>a. arm_Guard a = None) (take (Suc (length (tests arms))) arms)" "payload_open S arms x"
    "list_all (\<lambda>a. variant_arm (arm_Pattern a)) (tests arms)" "distinct (map (variant_of \<circ> arm_Pattern) (tests arms))"
    "tests arms \<noteq> []"
  shows "\<exists>sw. tryCompileVariantSwitch arms 0 root_projection = Some sw \<and> agrees (run_tree S x sw []) (first_arm S 0 arms x)"
proof -
  have g: "list_all (\<lambda>a. arm_Guard a = None \<and> variant_arm (arm_Pattern a)) (tests arms)"
    using tests_prefix [of arms] assms(1,3) by (auto simp: list_all_iff)
  have len: "length (tests arms) \<le> length arms" by (simp add: tests_def length_takeWhile_le)
  have nth: "arms ! j = tests arms ! j" if "j < length (tests arms)" for j
    using that by (simp add: tests_def takeWhile_nth)
  have "map (variant_case arms root_projection) (map (\<lambda>(j, a). (variant_of (arm_Pattern a), [j])) (enumerate 0 (tests arms))) =
      variant_cases 0 (tests arms)"
    by (rule nth_equalityI) (simp_all add: variant_cases_def variant_case_def nth_enumerate_eq nth)
  moreover have "variant_scan 0 arms [] = Some (map (\<lambda>(j, a). (variant_of (arm_Pattern a), [j])) (enumerate 0 (tests arms)), default_at 0 arms)"
    using variant_scan_flat [OF assms(3,4), of "[]" 0] by simp
  ultimately have "tryCompileVariantSwitch arms 0 root_projection =
      Some (DecisionSwitch SwitchVariant root_projection (variant_cases 0 (tests arms)) (default_node arms (default_at 0 arms) root_projection))"
    using assms(5) by (cases "tests arms") (simp_all add: tryCompileVariantSwitch_def)
  then show ?thesis
    using switch_agrees [OF assms(1) variant_cases_decide [OF g]] assms(2) by (simp add: payload_open_def)
qed

lemma flat_lits_agree:
  assumes "list_all (\<lambda>a. arm_Guard a = None) (take (Suc (length (tests arms))) arms)"
    "list_all (\<lambda>a. lit_arm k (arm_Pattern a)) (tests arms)" "k = SwitchLit \<or> k = SwitchBool" "tests arms \<noteq> []"
  shows "\<exists>sw. tryCompileVariantSwitch arms 0 root_projection = None \<and> tryCompileLitSwitch arms 0 root_projection = Some sw \<and>
    agrees (run_tree S x sw []) (first_arm S 0 arms x)"
proof -
  have g: "list_all (\<lambda>a. arm_Guard a = None \<and> lit_arm k (arm_Pattern a)) (tests arms)"
    using tests_prefix [of arms] assms(1,2) by (auto simp: list_all_iff)
  have k: "k \<noteq> SwitchUnknown" "k \<noteq> SwitchVariant" using assms(3) by auto
  have "lit_scan 0 arms root_projection SwitchUnknown [] = Some (k, lit_cases 0 (tests arms), default_at 0 arms)"
    using lit_scan_flat [OF assms(2) k(1), of SwitchUnknown 0 "[]"] assms(4) by simp
  moreover have "lit_cases 0 (tests arms) \<noteq> []" using assms(4) by (cases "tests arms") (simp_all add: lit_cases_def)
  ultimately have "tryCompileLitSwitch arms 0 root_projection =
      Some (DecisionSwitch k root_projection (lit_cases 0 (tests arms)) (default_node arms (default_at 0 arms) root_projection))"
    using k by (simp add: tryCompileLitSwitch_def)
  moreover obtain a as e where "arms = a # as" "arm_Pattern a = LitPat e"
    using assms(2,4) by (cases arms; cases "arm_Pattern (hd arms)") (auto simp: tests_Cons split: if_splits)
  then have "tryCompileVariantSwitch arms 0 root_projection = None" by (simp add: tryCompileVariantSwitch_def)
  ultimately show ?thesis using switch_agrees [OF assms(1) lit_cases_decide [OF g k(2)]] by simp
qed

lemma flat_agrees:
  assumes "flat arms" "payload_open S arms x"
  shows "agrees (run_tree S x (CompileDecisionTree arms) []) (first_arm S 0 arms x)"
proof (cases "tests arms")
  case Nil
  show ?thesis
  proof (cases arms)
    case (Cons a as)
    then have "is_binder (arm_Pattern a)" "arm_Guard a = None" using Nil assms(1) by (auto simp: tests_Cons flat_def split: if_splits)
    then show ?thesis using Cons
      by (cases "arm_Pattern a") (auto simp: CompileDecisionTree_def compileArms_def compileArmBody_def
        tryCompileVariantSwitch_def tryCompileLitSwitch_def compileArmChain_def Let_def)
  qed (simp add: CompileDecisionTree_def)
next
  case (Cons t ts)
  have g: "list_all (\<lambda>a. arm_Guard a = None) (take (Suc (length (tests arms))) arms)" using assms(1) by (simp add: flat_def)
  have ne: "tests arms \<noteq> []" "arms \<noteq> []" using Cons by auto
  have nc: "\<not> isCatchAll (arm_Pattern (arms ! 0))" if "variant_arm (arm_Pattern t) \<or> lit_arm k (arm_Pattern t)" for k
    using that Cons by (cases arms; cases "arm_Pattern t") (auto simp: tests_Cons split: if_splits)
  consider "list_all (\<lambda>a. variant_arm (arm_Pattern a)) (tests arms)" "distinct (map (variant_of \<circ> arm_Pattern) (tests arms))"
    | k where "k = SwitchLit \<or> k = SwitchBool" "list_all (\<lambda>a. lit_arm k (arm_Pattern a)) (tests arms)"
    using assms(1) by (auto simp: flat_def)
  then show ?thesis
  proof cases
    case 1
    then show ?thesis using flat_variants_agree [OF g assms(2) 1 ne(1)] nc ne(2) Cons
      by (auto simp: CompileDecisionTree_def compileArms_def)
  next
    case 2
    then show ?thesis using flat_lits_agree [OF g 2(2,1) ne(1), of S x] nc [of k] ne(2) Cons
      by (auto simp: CompileDecisionTree_def compileArms_def)
  qed
qed

section \<open>Leaves\<close>

lemma walk_bind [simp]:
  "decision_walk n (bindPattern p proj rest) = decision_walk n rest"
  "decision_walk n (bind_elems child i ps rest) = decision_walk n rest"
  "decision_walk n (bind_fields proj fs rest) = decision_walk n rest"
  by (induction p proj rest and child i ps rest and proj fs rest rule: bindPattern_bind_elems_bind_fields.induct) simp_all

lemma walk_body [simp]: "j < n \<Longrightarrow> decision_walk n (compileArmBody j a proj) = []"
  by (simp add: compileArmBody_def Let_def split: option.splits)

lemma walk_chain: "i + length as \<le> n \<Longrightarrow> decision_walk n (chain_from i as proj) = []"
  by (induction as arbitrary: i) (auto simp: Let_def split: option.splits)

lemma add_case_bound:
  "i < n \<Longrightarrow> \<forall>c \<in> set cs. snd c \<noteq> [] \<and> hd (snd c) < n \<Longrightarrow> c \<in> set (add_case v i cs) \<Longrightarrow> snd c \<noteq> [] \<and> hd (snd c) < n"
  by (induction cs) (auto split: if_splits)

lemma variant_scan_bound:
  assumes "variant_scan i as cs = Some (cases, d)" "i + length as \<le> n" "\<forall>c \<in> set cs. snd c \<noteq> [] \<and> hd (snd c) < n"
  shows "(\<forall>c \<in> set cases. hd (snd c) < n) \<and> (\<forall>j. d = Some j \<longrightarrow> j < n)"
  using assms
proof (induction as arbitrary: i cs)
  case (Cons a as)
  have c: "\<forall>c \<in> set (add_case v i cs). snd c \<noteq> [] \<and> hd (snd c) < n" for v
    using add_case_bound [OF _ Cons.prems(3), of i _ v] Cons.prems(2) by auto
  show ?case
  proof (cases "arm_Pattern a")
    case (VariantPat en v ps)
    then have "variant_scan (Suc i) as (add_case v i cs) = Some (cases, d)" using Cons.prems(1) by simp
    from Cons.IH [OF this _ c] show ?thesis using Cons.prems(2) by simp
  qed (use Cons.prems in auto)
qed auto

lemma lit_scan_bound:
  assumes "lit_scan i as proj kind cs = Some (k, cases, d)" "i + length as \<le> n" "\<forall>c \<in> set cs. case_walk n c = []"
  shows "(\<forall>c \<in> set cases. case_walk n c = []) \<and> (\<forall>j. d = Some j \<longrightarrow> j < n)"
  using assms
proof (induction as arbitrary: i kind cs)
  case (Cons a as)
  have c: "\<forall>c \<in> set (cs @ [SwitchCase l v e (compileArmBody i a proj)]). case_walk n c = []" for l v e
    using Cons.prems(2,3) by simp
  show ?case
  proof (cases "arm_Pattern a")
    case (LitPat e)
    then have "lit_scan (Suc i) as proj (switchKindOfLit e)
        (cs @ [SwitchCase (litLabel e) [] (Some e) (compileArmBody i a proj)]) = Some (k, cases, d)"
      using Cons.prems(1) by (simp add: Let_def split: if_splits)
    from Cons.IH [OF this _ c] show ?thesis using Cons.prems(2) by simp
  qed (use Cons.prems in auto)
qed simp

lemma walk_default: "(\<And>j. d = Some j \<Longrightarrow> j < n) \<Longrightarrow> decision_walk n (default_node arms d proj) = []"
  by (auto simp: default_node_def split: option.splits)

lemma walk_variant_switch:
  assumes "tryCompileVariantSwitch arms i proj = Some t" "i \<le> length arms"
  shows "decision_walk (length arms) t = []"
proof -
  obtain cs d where s: "variant_scan i (drop i arms) [] = Some (cs, d)"
      "t = DecisionSwitch SwitchVariant proj (map (variant_case arms proj) cs) (default_node arms d proj)"
    using assms(1) by (auto simp: tryCompileVariantSwitch_def split: option.splits if_splits)
  have b: "(\<forall>c \<in> set cs. hd (snd c) < length arms) \<and> (\<forall>j. d = Some j \<longrightarrow> j < length arms)"
    by (rule variant_scan_bound [OF s(1)]) (use assms(2) in simp_all)
  then show ?thesis using s(2) by (auto simp: walk_default variant_case_def)
qed

lemma walk_lit_switch:
  assumes "tryCompileLitSwitch arms i proj = Some t" "i \<le> length arms"
  shows "decision_walk (length arms) t = []"
proof -
  obtain k cs d where s: "lit_scan i (drop i arms) proj SwitchUnknown [] = Some (k, cs, d)"
      "t = DecisionSwitch k proj cs (default_node arms d proj)"
    using assms(1) by (auto simp: tryCompileLitSwitch_def split: option.splits if_splits)
  have b: "(\<forall>c \<in> set cs. case_walk (length arms) c = []) \<and> (\<forall>j. d = Some j \<longrightarrow> j < length arms)"
    by (rule lit_scan_bound [OF s(1)]) (use assms(2) in simp_all)
  then show ?thesis using s(2) by (auto simp: walk_default)
qed

section \<open>Theorems\<close>

text \<open>Compiled trees pass the validator, whatever the arms: every leaf names one of the arms.\<close>

theorem CompileDecisionTree_valid: "ValidateDecisionTree (CompileDecisionTree arms) (length arms) = []"
  unfolding ValidateDecisionTree_def CompileDecisionTree_def compileArms_def
  by (auto simp: compileArmChain_def walk_chain walk_variant_switch walk_lit_switch split: option.splits)


definition demo_sem :: "(unit, string) semantics" where
  "demo_sem = \<lparr>leq = (\<lambda>e l. case e of IntLit t \<Rightarrow> t = l | _ \<Rightarrow> False), lrange = (\<lambda>_ _ _ _. False), gd = (\<lambda>g env. False)\<rparr>"

definition arm :: "'x Pattern \<Rightarrow> 'x MatchArm" where
  "arm p = \<lparr>arm_Pattern = p, arm_Guard = None\<rparr>"


section \<open>What the trees do not look at\<close>

text \<open>Of the arms of a variant a switch keeps the first.\<close>

definition names_variant :: "'x Pattern \<Rightarrow> bool" where
  "names_variant p = (case p of VariantPat en v ps \<Rightarrow> True | _ \<Rightarrow> False)"

lemma map_of_add_case: "map_of (add_case v i cs) w =
    (if w = v then Some (case map_of cs v of None \<Rightarrow> [i] | Some js \<Rightarrow> js @ [i]) else map_of cs w)"
  by (induction cs) (auto split: if_splits)

lemma variant_scan_first:
  assumes "list_all (\<lambda>a. names_variant (arm_Pattern a)) (tests as)"
  shows "\<exists>cases d. variant_scan i as cs = Some (cases, d) \<and>
    (\<forall>v js. map_of cs v = Some js \<longrightarrow> js \<noteq> [] \<longrightarrow> (\<exists>js'. map_of cases v = Some js' \<and> js' \<noteq> [] \<and> hd js' = hd js)) \<and>
    (\<forall>v j. map_of cs v = None \<longrightarrow> j < length (tests as) \<longrightarrow> variant_of (arm_Pattern (as ! j)) = v \<longrightarrow>
      (\<forall>l < j. variant_of (arm_Pattern (as ! l)) \<noteq> v) \<longrightarrow> (\<exists>js'. map_of cases v = Some js' \<and> js' \<noteq> [] \<and> hd js' = i + j))"
  using assms
proof (induction as arbitrary: i cs)
  case (Cons a as)
  show ?case
  proof (cases "is_binder (arm_Pattern a)")
    case True
    then show ?thesis by (cases "arm_Pattern a") (auto simp: tests_Cons)
  next
    case False
    then obtain en v ps where p: "arm_Pattern a = VariantPat en v ps"
      using Cons.prems by (cases "arm_Pattern a") (simp_all add: tests_Cons names_variant_def)
    obtain cases d where c: "variant_scan (Suc i) as (add_case v i cs) = Some (cases, d)"
      and old: "\<And>w js. map_of (add_case v i cs) w = Some js \<Longrightarrow> js \<noteq> [] \<Longrightarrow> \<exists>js'. map_of cases w = Some js' \<and> js' \<noteq> [] \<and> hd js' = hd js"
      and new: "\<And>w j. map_of (add_case v i cs) w = None \<Longrightarrow> j < length (tests as) \<Longrightarrow> variant_of (arm_Pattern (as ! j)) = w \<Longrightarrow>
        (\<forall>l < j. variant_of (arm_Pattern (as ! l)) \<noteq> w) \<Longrightarrow> \<exists>js'. map_of cases w = Some js' \<and> js' \<noteq> [] \<and> hd js' = Suc i + j"
      using Cons.IH [of "Suc i" "add_case v i cs"] Cons.prems False by (auto simp: tests_Cons)
    have "\<exists>js'. map_of cases w = Some js' \<and> js' \<noteq> [] \<and> hd js' = hd js" if "map_of cs w = Some js" "js \<noteq> []" for w js
      using that old [of w js] old [of v "js @ [i]"] by (cases "w = v") (auto simp: map_of_add_case)
    moreover have "\<exists>js'. map_of cases w = Some js' \<and> js' \<noteq> [] \<and> hd js' = i + j"
      if j: "map_of cs w = None" "j < length (tests (a # as))" "variant_of (arm_Pattern ((a # as) ! j)) = w"
        "\<forall>l < j. variant_of (arm_Pattern ((a # as) ! l)) \<noteq> w" for w j
    proof (cases j)
      case 0
      then show ?thesis using old [of v "[i]"] j(1,3) p by (auto simp: map_of_add_case)
    next
      case (Suc k)
      then have "w \<noteq> v" using j(4) p by force
      then show ?thesis using new [of w k] j Suc False by (fastforce simp: map_of_add_case tests_Cons)
    qed
    ultimately show ?thesis using c p by auto
  qed
qed (simp add: tests_def)

lemma run_variant_cases:
  "run_cases S x SwitchVariant (VVariant v xs) (map (variant_case arms proj) cs) env =
    map_option (\<lambda>js. run_tree S x (compileArmBody (hd js) (arms ! hd js) (Projection (Some proj) ProjVariant 0 [] v)) env) (map_of cs v)"
  by (induction cs) (auto simp: variant_case_def case_hit_def)

text \<open>Patterns that bind no name.\<close>

definition nameless :: "'x Pattern \<Rightarrow> bool" where
  "nameless p = (case p of WildPat \<Rightarrow> True | LitPat e \<Rightarrow> True | RangePat lo hi inc \<Rightarrow> True | OrPat ps \<Rightarrow> True | _ \<Rightarrow> False)"

lemma bind_nameless: "nameless p \<Longrightarrow> bindPattern p proj rest = rest" "list_all nameless ps \<Longrightarrow> bind_elems child k ps rest = rest"
proof -
  show one: "nameless p \<Longrightarrow> bindPattern p proj rest = rest" for p :: "'x Pattern" and proj rest
    by (cases p) (simp_all add: nameless_def)
  show "list_all nameless ps \<Longrightarrow> bind_elems child k ps rest = rest" by (induction ps arbitrary: k rest) (simp_all add: one)
qed



text \<open>A match whose first arm is an or-pattern or a range, without a guard, selects that arm for every value: the chain of tests that is made
  for it tests no pattern.\<close>

lemma chain_takes_first:
  assumes "arm_Guard a = None" "arm_Pattern a = OrPat ps \<or> arm_Pattern a = RangePat lo hi inc"
  shows "run_tree S x (CompileDecisionTree (a # arms)) [] = Selected 0 []"
  using assms by (auto simp: CompileDecisionTree_def compileArms_def tryCompileVariantSwitch_def tryCompileLitSwitch_def compileArmChain_def Let_def)

end
