(* ===== verification/Semver.thy ===== *)
theory Semver
  imports Go_Strings "HOL-Library.Char_ord" "HOL-Library.List_Lexorder" "HOL-Library.Product_Lexorder"
begin

text \<open>
  \<^verbatim>\<open>src/internal/pkgmgr/semver/semver.go\<close>: semantic versions, their order, and version
  requirements. Numbers keep their width (\<^typ>\<open>64 word\<close>), so the upper bound of a range wraps as in
  the code. Error values carry the offending text; their wording is not modelled.
\<close>

section \<open>Versions\<close>

record Version =
  Major :: "64 word"
  Minor :: "64 word"
  Patch :: "64 word"
  Pre :: "string list"
  Build :: "string list"

abbreviation core_version :: "64 word \<Rightarrow> 64 word \<Rightarrow> 64 word \<Rightarrow> Version" where
  "core_version a b c \<equiv> \<lparr>Major = a, Minor = b, Patch = c, Pre = [], Build = []\<rparr>"

datatype semver_error =
  EmptyVersion | InvalidBuild string | InvalidPre string | NotThreeParts string | InvalidPart nat string
| EmptyReq | MissingVersion | InvalidVersion string | UnknownOperator string
| InvalidWildcard string | WildcardNoStar string | WildcardFixedAfterStar string

definition Version_String :: "Version \<Rightarrow> string" where
  "Version_String v =
     itoa (unat (Major v)) @ CHR ''.'' # itoa (unat (Minor v)) @ CHR ''.'' # itoa (unat (Patch v)) @
     (if Pre v \<noteq> [] then CHR ''-'' # join CHR ''.'' (Pre v) else []) @
     (if Build v \<noteq> [] then CHR ''+'' # join CHR ''.'' (Build v) else [])"

definition IsPrerelease :: "Version \<Rightarrow> bool" where
  "IsPrerelease v \<longleftrightarrow> Pre v \<noteq> []"

definition isPreIdent :: "string \<Rightarrow> bool" where
  "isPreIdent s =
     (if s = [] then False
      else if list_all is_digit s then \<not> (length s > 1 \<and> s ! 0 = CHR ''0'')
      else list_all is_alnum_dash s)"

definition isBuildIdent :: "string \<Rightarrow> bool" where
  "isBuildIdent s \<longleftrightarrow> s \<noteq> [] \<and> list_all is_alnum_dash s"

text \<open>One component of the core: a number without a leading zero.\<close>

definition parse_num :: "string \<Rightarrow> 64 word option" where
  "parse_num p = (case ParseUint p of None \<Rightarrow> None
     | Some n \<Rightarrow> if length p > 1 \<and> p ! 0 = CHR ''0'' then None else Some n)"

text \<open>The loop over the components; \<open>i\<close> is the index \<open>majorMinorPatch\<close> names.\<close>

fun parse_nums :: "nat \<Rightarrow> string list \<Rightarrow> semver_error + 64 word list" where
  "parse_nums i [] = Inr []"
| "parse_nums i (p # ps) =
     (case parse_num p of None \<Rightarrow> Inl (InvalidPart i p)
      | Some n \<Rightarrow> (case parse_nums (i + 1) ps of Inl e \<Rightarrow> Inl e | Inr ns \<Rightarrow> Inr (n # ns)))"

definition strip_v :: "string \<Rightarrow> string" where
  "strip_v s = (if s \<noteq> [] \<and> hd s = CHR ''v'' then tl s else s)"

text \<open>The optional part after a separator, split at the dots.\<close>

definition idents :: "string option \<Rightarrow> string list" where
  "idents r = (case r of None \<Rightarrow> [] | Some t \<Rightarrow> split_on CHR ''.'' t)"

definition ParseVersion :: "string \<Rightarrow> semver_error + Version" where
  "ParseVersion s0 =
     (if s0 = [] then Inl EmptyVersion
      else
        (let s = strip_v s0;
             sb = cut_at CHR ''+'' s; core = fst sb; build = idents (snd sb)
         in case find (\<lambda>b. \<not> isBuildIdent b) build of
              Some b \<Rightarrow> Inl (InvalidBuild b)
            | None \<Rightarrow>
                (let sp = cut_at CHR ''-'' core; versionPart = fst sp; pre = idents (snd sp)
                 in case find (\<lambda>p. \<not> isPreIdent p) pre of
                      Some p \<Rightarrow> Inl (InvalidPre p)
                    | None \<Rightarrow>
                        (let parts = split_on CHR ''.'' versionPart
                         in if length parts \<noteq> 3 then Inl (NotThreeParts s)
                            else (case parse_nums 0 parts of
                                    Inl e \<Rightarrow> Inl e
                                  | Inr nums \<Rightarrow> Inr \<lparr>Major = nums ! 0, Minor = nums ! 1, Patch = nums ! 2,
                                                     Pre = pre, Build = build\<rparr>)))))"

section \<open>Order\<close>

definition parseUintMaybe :: "string \<Rightarrow> 64 word option" where
  "parseUintMaybe s = (if \<not> list_all is_digit s then None else ParseUint s)"

definition signU :: "64 word \<Rightarrow> 64 word \<Rightarrow> int" where
  "signU a b = (if a < b then - 1 else if a > b then 1 else 0)"

fun compare_pre :: "string list \<Rightarrow> string list \<Rightarrow> int" where
  "compare_pre [] [] = 0"
| "compare_pre [] (y # ys) = - 1"
| "compare_pre (x # xs) [] = 1"
| "compare_pre (x # xs) (y # ys) =
     (case (parseUintMaybe x, parseUintMaybe y) of
        (Some an, Some bn) \<Rightarrow> if an \<noteq> bn then signU an bn else compare_pre xs ys
      | (Some an, None) \<Rightarrow> - 1
      | (None, Some bn) \<Rightarrow> 1
      | (None, None) \<Rightarrow> if x \<noteq> y then (if x < y then - 1 else 1) else compare_pre xs ys)"

definition Compare :: "Version \<Rightarrow> Version \<Rightarrow> int" where
  "Compare a b =
     (if Major a \<noteq> Major b then signU (Major a) (Major b)
      else if Minor a \<noteq> Minor b then signU (Minor a) (Minor b)
      else if Patch a \<noteq> Patch b then signU (Patch a) (Patch b)
      else if Pre a = [] \<and> Pre b = [] then 0
      else if Pre a = [] then 1
      else if Pre b = [] then - 1
      else compare_pre (Pre a) (Pre b))"

definition Less :: "Version \<Rightarrow> Version \<Rightarrow> bool" where
  "Less a b \<longleftrightarrow> Compare a b < 0"

definition Equal :: "Version \<Rightarrow> Version \<Rightarrow> bool" where
  "Equal a b \<longleftrightarrow> Compare a b = 0"

definition LessEq :: "Version \<Rightarrow> Version \<Rightarrow> bool" where
  "LessEq a b \<longleftrightarrow> Compare a b \<le> 0"

section \<open>Requirements\<close>

datatype req_op = opEQ | opGE | opGT | opLE | opLT

record clause =
  cl_Op :: req_op
  cl_V :: Version

record Req =
  Raw :: string
  Clauses :: "clause list"
  allowPre :: bool

abbreviation mk_clause :: "req_op \<Rightarrow> Version \<Rightarrow> clause" where
  "mk_clause oper v \<equiv> \<lparr>cl_Op = oper, cl_V = v\<rparr>"

definition parsePartialVersion :: "string \<Rightarrow> semver_error + Version" where
  "parsePartialVersion s0 =
     (if s0 = [] then Inl MissingVersion
      else
        (let s = strip_v s0;
             sb = cut_at CHR ''+'' s; core = fst sb; build = idents (snd sb);
             sp = cut_at CHR ''-'' core; body = fst sp; pre = idents (snd sp);
             parts = split_on CHR ''.'' body
         in if length parts < 1 \<or> length parts > 3 then Inl (InvalidVersion s)
            else (case parse_nums 0 parts of
                    Inl e \<Rightarrow> Inl e
                  | Inr nums \<Rightarrow>
                      (let ns = nums @ [0, 0]
                       in Inr \<lparr>Major = ns ! 0, Minor = ns ! 1, Patch = ns ! 2, Pre = pre, Build = build\<rparr>))))"

definition caretClauses :: "Version \<Rightarrow> clause list" where
  "caretClauses v =
     (let hi = (if Major v > 0 then core_version (Major v + 1) 0 0
                else if Minor v > 0 then core_version 0 (Minor v + 1) 0
                else core_version 0 0 (Patch v + 1))
      in [mk_clause opGE v, mk_clause opLT hi])"

definition tildeClauses :: "Version \<Rightarrow> clause list" where
  "tildeClauses v = [mk_clause opGE v, mk_clause opLT (core_version (Major v) (Minor v + 1) 0)]"

definition is_star :: "string \<Rightarrow> bool" where
  "is_star p \<longleftrightarrow> p = ''*'' \<or> p = ''x'' \<or> p = ''X''"

definition wildcardClauses :: "string \<Rightarrow> semver_error + clause list \<times> bool" where
  "wildcardClauses s =
     (if s = ''*'' then Inr ([], False)
      else
        (let parts = split_on CHR ''.'' s
         in if length parts > 3 then Inl (InvalidWildcard s)
            else
              (let starAt = length (takeWhile (\<lambda>p. \<not> is_star p) parts)
               in if starAt = length parts then Inl (WildcardNoStar s)
                  else if \<not> list_all is_star (drop (starAt + 1) parts) then Inl (WildcardFixedAfterStar s)
                  else (case parse_nums 0 (take starAt parts) of
                          Inl e \<Rightarrow> Inl e
                        | Inr nums \<Rightarrow>
                            (let ns = nums @ [0, 0, 0]; lo = core_version (ns ! 0) (ns ! 1) (ns ! 2)
                             in if starAt = 0 then Inr ([], False)
                                else if starAt = 1
                                then Inr ([mk_clause opGE lo, mk_clause opLT (core_version (ns ! 0 + 1) 0 0)], False)
                                else Inr ([mk_clause opGE lo, mk_clause opLT (core_version (ns ! 0) (ns ! 1 + 1) 0)],
                                          False))))))"

definition splitOp :: "string \<Rightarrow> string \<times> string" where
  "splitOp s =
     (if take 2 s = ''>='' then (''>='', drop 2 s)
      else if take 2 s = ''<='' then (''<='', drop 2 s)
      else if take 1 s = ''>'' then (''>'', drop 1 s)
      else if take 1 s = ''<'' then (''<'', drop 1 s)
      else if take 1 s = ''='' then (''='', drop 1 s)
      else ([], s))"

definition parseOnePart :: "string \<Rightarrow> semver_error + clause list \<times> bool" where
  "parseOnePart s =
     (if take 1 s = ''^''
      then (case parsePartialVersion (drop 1 s) of Inl e \<Rightarrow> Inl e | Inr v \<Rightarrow> Inr (caretClauses v, IsPrerelease v))
      else if take 1 s = ''~''
      then (case parsePartialVersion (drop 1 s) of Inl e \<Rightarrow> Inl e | Inr v \<Rightarrow> Inr (tildeClauses v, IsPrerelease v))
      else if CHR ''*'' \<in> set s then wildcardClauses s
      else
        (let (opStr, rest) = splitOp s
         in case parsePartialVersion rest of Inl e \<Rightarrow> Inl e
            | Inr v \<Rightarrow>
                if opStr = [] \<or> opStr = ''='' then Inr ([mk_clause opEQ v], IsPrerelease v)
                else if opStr = ''>'' then Inr ([mk_clause opGT v], IsPrerelease v)
                else if opStr = ''>='' then Inr ([mk_clause opGE v], IsPrerelease v)
                else if opStr = ''<'' then Inr ([mk_clause opLT v], IsPrerelease v)
                else if opStr = ''<='' then Inr ([mk_clause opLE v], IsPrerelease v)
                else Inl (UnknownOperator opStr)))"

fun parse_parts :: "string list \<Rightarrow> Req \<Rightarrow> semver_error + Req" where
  "parse_parts [] out = Inr out"
| "parse_parts (p # ps) out =
     (case parseOnePart p of Inl e \<Rightarrow> Inl e
      | Inr r \<Rightarrow> parse_parts ps (out\<lparr>Clauses := Clauses out @ fst r, allowPre := allowPre out \<or> snd r\<rparr>))"

definition ParseReq :: "string \<Rightarrow> semver_error + Req" where
  "ParseReq s0 =
     (let s = TrimSpace s0; out = \<lparr>Raw = s0, Clauses = [], allowPre = False\<rparr>
      in if s = [] then Inl EmptyReq
         else if s = ''*'' then Inr out
         else parse_parts (Fields s) out)"

definition clauseMatch :: "clause \<Rightarrow> Version \<Rightarrow> bool" where
  "clauseMatch c v =
     (let cmp = Compare v (cl_V c)
      in case cl_Op c of
           opEQ \<Rightarrow> cmp = 0
         | opGE \<Rightarrow> cmp \<ge> 0
         | opGT \<Rightarrow> cmp > 0
         | opLE \<Rightarrow> cmp \<le> 0
         | opLT \<Rightarrow> cmp < 0)"

definition Match :: "Req \<Rightarrow> Version \<Rightarrow> bool" where
  "Match r v =
     (if IsPrerelease v \<and> \<not> allowPre r then False
      else if Clauses r = [] then True
      else list_all (\<lambda>c. clauseMatch c v) (Clauses r))"

definition op_String :: "req_op \<Rightarrow> string" where
  "op_String oper = (case oper of opEQ \<Rightarrow> ''='' | opGE \<Rightarrow> ''>='' | opGT \<Rightarrow> ''>'' | opLE \<Rightarrow> ''<='' | opLT \<Rightarrow> ''<'')"

definition Req_String :: "Req \<Rightarrow> string" where
  "Req_String r =
     (if Raw r \<noteq> [] then Raw r
      else if Clauses r = [] then ''*''
      else join CHR '' '' (map (\<lambda>c. op_String (cl_Op c) @ Version_String (cl_V c)) (Clauses r)))"

fun max_loop :: "Req \<Rightarrow> Version list \<Rightarrow> Version option \<Rightarrow> Version option" where
  "max_loop r [] best = best"
| "max_loop r (v # vs) best =
     (if \<not> Match r v then max_loop r vs best
      else if (case best of None \<Rightarrow> True | Some b \<Rightarrow> Less b v) then max_loop r vs (Some v)
      else max_loop r vs best)"

definition Max_version :: "Req \<Rightarrow> Version list \<Rightarrow> Version option" where
  "Max_version r vs = max_loop r vs None"

section \<open>Parsing and printing\<close>

lemma parse_num_itoa: "parse_num (itoa (unat n)) = Some n"
proof -
  have "int (unat n) < 2 ^ 64" using unsigned_less [of n] by simp
  then have "ParseUint (itoa (unat n)) = Some n"
    using itoa_digits [of "unat n"] by (simp add: ParseUint_def digits_val_itoa)
  moreover have "length (itoa (unat n)) > 1 \<Longrightarrow> itoa (unat n) ! 0 \<noteq> CHR ''0''"
    using itoa_no_zero [of "unat n"] by (cases "unat n = 0") (auto simp: itoa.simps [of 0])
  ultimately show ?thesis by (auto simp: parse_num_def)
qed

lemma parse_num_Some:
  assumes "parse_num p = Some n"
  shows "itoa (unat n) = p \<and> list_all is_digit p \<and> p \<noteq> []"
proof -
  have p: "p \<noteq> []" "list_all is_digit p" "\<not> (length p > 1 \<and> p ! 0 = CHR ''0'')" "digits_val p < 2 ^ 64"
      "n = word_of_int (digits_val p)"
    using assms by (auto simp: parse_num_def ParseUint_def split: option.splits if_splits)
  have "unat n = nat (digits_val p)"
    using p(4,5) digits_val_ge [OF p(2)] by (simp add: unat_eq_nat_uint uint_word_of_int_eq take_bit_int_eq_self)
  then show ?thesis using itoa_digits_val [OF p(1-3)] p(1,2) by simp
qed

definition valid_version :: "Version \<Rightarrow> bool" where
  "valid_version v \<longleftrightarrow> list_all isPreIdent (Pre v) \<and> list_all isBuildIdent (Build v)"

lemma digit_alnum: "is_digit c \<Longrightarrow> is_alnum_dash c"
  by (auto simp: is_digit_def is_alnum_dash_def)

lemma ident_chars:
  "isPreIdent s \<Longrightarrow> s \<noteq> [] \<and> list_all is_alnum_dash s"
  "isBuildIdent s \<Longrightarrow> s \<noteq> [] \<and> list_all is_alnum_dash s"
  by (auto simp: isPreIdent_def isBuildIdent_def list_all_iff digit_alnum split: if_splits)

lemma alnum_not_sep: "\<not> is_alnum_dash CHR ''.''" "\<not> is_alnum_dash CHR ''+''"
  by (simp_all add: is_alnum_dash_def)

lemma digit_not_sep: "\<not> is_digit CHR ''.''" "\<not> is_digit CHR ''+''" "\<not> is_digit CHR ''-''" "\<not> is_digit CHR ''v''"
  by (simp_all add: is_digit_def)

lemma idents_free:
  assumes "\<forall>x \<in> set xs. list_all is_alnum_dash x"
  shows "\<forall>x \<in> set xs. CHR ''.'' \<notin> set x" "CHR ''+'' \<notin> set (join CHR ''.'' xs)"
  using assms alnum_not_sep set_join [of "CHR ''.''" xs] by (auto simp: list_all_iff)

lemma itoa_free: "c \<in> set (itoa n) \<Longrightarrow> is_digit c"
  using itoa_digits(1) [of n] by (simp add: list_all_iff)

abbreviation core_text :: "Version \<Rightarrow> string" where
  "core_text v \<equiv> itoa (unat (Major v)) @ CHR ''.'' # itoa (unat (Minor v)) @ CHR ''.'' # itoa (unat (Patch v))"

abbreviation suffix_text :: "char \<Rightarrow> string list \<Rightarrow> string" where
  "suffix_text c xs \<equiv> if xs \<noteq> [] then c # join CHR ''.'' xs else []"

lemma core_text_chars: "c \<in> set (core_text v) \<Longrightarrow> is_digit c \<or> c = CHR ''.''"
  by (auto dest: itoa_free)

lemma split_core: "split_on CHR ''.'' (core_text v) = map (\<lambda>n. itoa (unat n)) [Major v, Minor v, Patch v]"
proof -
  have "CHR ''.'' \<notin> set (itoa n)" for n using itoa_free digit_not_sep(1) by blast
  then show ?thesis by (simp add: split_on_append split_on_free)
qed

lemma parse_nums_itoa: "parse_nums i (map (\<lambda>n. itoa (unat n)) ns) = Inr ns"
  by (induction ns arbitrary: i) (simp_all add: parse_num_itoa)

lemma cut_suffix:
  assumes "c \<notin> set a"
  shows "cut_at c (a @ suffix_text c xs) = (a, if xs \<noteq> [] then Some (join CHR ''.'' xs) else None)"
  using assms by (simp add: cut_append cut_free)

lemma idents_join:
  assumes "\<forall>x \<in> set xs. CHR ''.'' \<notin> set x"
  shows "idents (if xs \<noteq> [] then Some (join CHR ''.'' xs) else None) = xs"
  using assms by (simp add: idents_def split_join)

lemma find_None: "list_all P xs \<Longrightarrow> find (\<lambda>x. \<not> P x) xs = None"
  by (auto simp: find_None_iff list_all_iff)

lemma ParseVersion_prints:
  assumes "valid_version v"
  shows "ParseVersion (Version_String v) = Inr v"
proof -
  have al: "\<forall>x \<in> set (Pre v). list_all is_alnum_dash x" "\<forall>x \<in> set (Build v). list_all is_alnum_dash x"
    using assms ident_chars unfolding valid_version_def list_all_iff by blast+
  define core where "core = core_text v @ suffix_text CHR ''-'' (Pre v)"
  have s: "Version_String v = core @ suffix_text CHR ''+'' (Build v)"
    by (simp add: Version_String_def core_def)
  have ne: "Version_String v \<noteq> []" by (simp add: Version_String_def)
  have "is_digit (hd (Version_String v))"
    using itoa_digits [of "unat (Major v)"] by (cases "itoa (unat (Major v))") (auto simp: Version_String_def)
  then have v: "strip_v (Version_String v) = Version_String v"
    using digit_not_sep(4) by (auto simp: strip_v_def)
  have dash: "CHR ''-'' \<notin> set (core_text v)" using core_text_chars digit_not_sep(3) by blast
  have plus: "CHR ''+'' \<notin> set core"
    using core_text_chars [of "CHR ''+''" v] digit_not_sep(2) idents_free(2) [OF al(1)]
    by (auto simp: core_def simp del: append_assoc)
  define b p where "b = (if Build v \<noteq> [] then Some (join CHR ''.'' (Build v)) else None)"
    and "p = (if Pre v \<noteq> [] then Some (join CHR ''.'' (Pre v)) else None)"
  have cuts: "cut_at CHR ''+'' (Version_String v) = (core, b)" "cut_at CHR ''-'' core = (core_text v, p)"
    using cut_suffix [OF plus, of "Build v"] cut_suffix [OF dash, of "Pre v"] unfolding s b_def p_def core_def by simp_all
  have ids: "idents b = Build v" "idents p = Pre v"
    unfolding b_def p_def using idents_join idents_free(1) al by blast+
  have nums: "parse_nums 0 (split_on CHR ''.'' (core_text v)) = Inr [Major v, Minor v, Patch v]"
    "length (split_on CHR ''.'' (core_text v)) = 3"
    unfolding split_core by (rule parse_nums_itoa) simp
  have valid: "find (\<lambda>b. \<not> isBuildIdent b) (Build v) = None" "find (\<lambda>p. \<not> isPreIdent p) (Pre v) = None"
    using assms by (simp_all add: find_None valid_version_def)
  show ?thesis
    unfolding ParseVersion_def v Let_def cuts fst_conv snd_conv ids valid option.case nums sum.case
    using ne by simp
qed

lemma parse_nums_Inr: "parse_nums i ps = Inr ns \<Longrightarrow> ps = map (\<lambda>n. itoa (unat n)) ns"
  by (induction i ps arbitrary: ns rule: parse_nums.induct)
    (auto dest: parse_num_Some split: option.splits sum.splits)

lemma cut_idents: "cut_at c s = (a, r) \<Longrightarrow> s = a @ suffix_text c (idents r)"
  by (cases c s rule: cut_cases) (auto simp: idents_def)

lemma list_three: "length xs = 3 \<Longrightarrow> xs = [xs ! 0, xs ! 1, xs ! 2]"
  by (cases xs; cases "tl xs"; cases "tl (tl xs)") (auto simp: numeral_3_eq_3)

lemma ParseVersion_exact:
  assumes "ParseVersion s0 = Inr v"
  shows "Version_String v = strip_v s0" "valid_version v"
proof -
  define s where "s = strip_v s0"
  obtain core b where sb: "cut_at CHR ''+'' s = (core, b)" by (cases "cut_at CHR ''+'' s")
  obtain vp q where sp: "cut_at CHR ''-'' core = (vp, q)" by (cases "cut_at CHR ''-'' core")
  obtain nums where n: "find (\<lambda>b. \<not> isBuildIdent b) (idents b) = None" "find (\<lambda>p. \<not> isPreIdent p) (idents q) = None"
      "length (split_on CHR ''.'' vp) = 3" "parse_nums 0 (split_on CHR ''.'' vp) = Inr nums"
      "v = \<lparr>Major = nums ! 0, Minor = nums ! 1, Patch = nums ! 2, Pre = idents q, Build = idents b\<rparr>"
    using assms unfolding ParseVersion_def s_def [symmetric]
    by (auto simp: sb sp Let_def split: if_splits option.splits sum.splits)
  have parts: "split_on CHR ''.'' vp = map (\<lambda>n. itoa (unat n)) nums" using parse_nums_Inr [OF n(4)] .
  then have "length nums = 3" using n(3) by simp
  from list_three [OF this] have "split_on CHR ''.'' vp = map (\<lambda>n. itoa (unat n)) [nums ! 0, nums ! 1, nums ! 2]"
    using parts by metis
  then have "vp = core_text v" using join_split [of "CHR ''.''" vp] n(5) by simp
  then show "Version_String v = strip_v s0"
    using cut_idents [OF sb] cut_idents [OF sp] n(5) by (simp add: Version_String_def s_def)
  show "valid_version v" using n(1,2,5) by (auto simp: valid_version_def find_None_iff list_all_iff)
qed

section \<open>The order\<close>

text \<open>A three-way comparison that is the sign of a key in a linear order.\<close>

locale comparison =
  fixes key :: "'a \<Rightarrow> 'k::linorder"
    and cmp :: "'a \<Rightarrow> 'a \<Rightarrow> int"
  assumes cmp_key: "cmp a b = (if key a < key b then - 1 else if key b < key a then 1 else 0)"
begin

lemma cmp_less: "cmp a b < 0 \<longleftrightarrow> key a < key b"
  by (auto simp: cmp_key)

lemma cmp_le: "cmp a b \<le> 0 \<longleftrightarrow> key a \<le> key b"
  by (auto simp: cmp_key)

lemma cmp_ge: "0 \<le> cmp a b \<longleftrightarrow> key b \<le> key a"
  by (auto simp: cmp_key)

lemma cmp_greater: "0 < cmp a b \<longleftrightarrow> key b < key a"
  by (auto simp: cmp_key)

lemma cmp_zero: "cmp a b = 0 \<longleftrightarrow> key a = key b"
  by (auto simp: cmp_key)

lemma cmp_range: "cmp a b \<in> {- 1, 0, 1}"
  by (simp add: cmp_key)

lemma cmp_sym: "cmp b a = - cmp a b"
  by (auto simp: cmp_key)

lemma cmp_trans: "cmp a b \<le> 0 \<Longrightarrow> cmp b c \<le> 0 \<Longrightarrow> cmp a c \<le> 0"
  by (simp add: cmp_le)

end

definition ident_key :: "string \<Rightarrow> nat \<times> nat \<times> string" where
  "ident_key s = (case parseUintMaybe s of Some n \<Rightarrow> (0, unat n, []) | None \<Rightarrow> (1, 0, s))"

definition version_key :: "Version \<Rightarrow> nat \<times> nat \<times> nat \<times> nat \<times> (nat \<times> nat \<times> string) list" where
  "version_key v = (unat (Major v), unat (Minor v), unat (Patch v),
     if Pre v = [] then 1 else 0, map ident_key (Pre v))"

lemma unat_eq_iff [simp]: "unat (a :: 64 word) = unat b \<longleftrightarrow> a = b"
  by (simp add: word_unat_eq_iff)

lemma ident_key_less: "ident_key x < ident_key y \<longleftrightarrow>
   (case (parseUintMaybe x, parseUintMaybe y) of (Some m, Some n) \<Rightarrow> m < n | (Some m, None) \<Rightarrow> True
     | (None, Some n) \<Rightarrow> False | (None, None) \<Rightarrow> x < y)"
  by (auto simp: ident_key_def word_less_nat_alt split: option.split)

lemma ident_key_eq: "ident_key x = ident_key y \<longleftrightarrow>
   (case (parseUintMaybe x, parseUintMaybe y) of (Some m, Some n) \<Rightarrow> m = n | (None, None) \<Rightarrow> x = y | _ \<Rightarrow> False)"
  by (auto simp: ident_key_def split: option.split)

lemma compare_pre_key:
  "compare_pre xs ys = (if map ident_key xs < map ident_key ys then - 1
     else if map ident_key ys < map ident_key xs then 1 else 0)"
proof (induction xs arbitrary: ys)
  case Nil
  then show ?case by (cases ys) simp_all
next
  case (Cons x xs)
  show ?case
  proof (cases ys)
    case ys: (Cons y ys')
    show ?thesis
    proof (cases "ident_key x = ident_key y")
      case True
      then have "compare_pre (x # xs) ys = compare_pre xs ys'"
        using ys by (auto simp: ident_key_eq split: option.splits)
      then show ?thesis using True ys Cons.IH [of ys'] by simp
    next
      case False
      have "compare_pre (x # xs) ys = (if ident_key x < ident_key y then - 1 else 1)"
        using False ys by (auto simp: ident_key_eq ident_key_less signU_def split: option.splits)
      moreover have "ident_key x < ident_key y \<or> ident_key y < ident_key x" using False by (metis linorder_less_linear)
      ultimately show ?thesis using False ys by auto
    qed
  qed simp
qed

interpretation version: comparison version_key Compare
proof
  fix a b
  show "Compare a b = (if version_key a < version_key b then - 1 else if version_key b < version_key a then 1 else 0)"
    unfolding Compare_def version_key_def signU_def word_less_nat_alt
    by (cases "Major a = Major b"; cases "Minor a = Minor b"; cases "Patch a = Patch b"; cases "Pre a"; cases "Pre b")
      (simp_all add: compare_pre_key del: compare_pre.simps)
qed

section \<open>Selection\<close>

lemma max_loop_Some:
  assumes "max_loop r vs best = Some m" "\<And>b. best = Some b \<Longrightarrow> Match r b"
  shows "(m \<in> set vs \<or> best = Some m) \<and> Match r m \<and>
    (\<forall>v. (v \<in> set vs \<and> Match r v \<or> best = Some v) \<longrightarrow> LessEq v m)"
  using assms
proof (induction r vs best arbitrary: m rule: max_loop.induct)
  case (1 r best)
  then show ?case by (simp add: LessEq_def version.cmp_le)
next
  case (2 r v vs best)
  show ?case
  proof (cases "Match r v")
    case False
    then show ?thesis using 2(1) [OF False, of m] 2(4,5) by auto
  next
    case True
    show ?thesis
    proof (cases best)
      case None
      have "max_loop r vs (Some v) = Some m" using 2(4) None True by simp
      then show ?thesis using 2(2) [of m] None True by auto
    next
      case (Some b)
      show ?thesis
      proof (cases "Less b v")
        case True
        have "max_loop r vs (Some v) = Some m" using 2(4) Some \<open>Match r v\<close> True by simp
        then have ih: "(m \<in> set vs \<or> v = m) \<and> Match r m \<and> (\<forall>w. (w \<in> set vs \<and> Match r w \<or> v = w) \<longrightarrow> LessEq w m)"
          using 2(2) [of m] Some \<open>Match r v\<close> True by auto
        then have "LessEq b m" using True by (auto simp: LessEq_def Less_def version.cmp_le version.cmp_less)
        then show ?thesis using ih Some by auto
      next
        case False
        have "max_loop r vs best = Some m" using 2(4) Some \<open>Match r v\<close> False by simp
        then have ih: "(m \<in> set vs \<or> b = m) \<and> Match r m \<and> (\<forall>w. (w \<in> set vs \<and> Match r w \<or> b = w) \<longrightarrow> LessEq w m)"
          using 2(3) [of m] Some \<open>Match r v\<close> False 2(5) by auto
        then have "LessEq v m" using False by (auto simp: LessEq_def Less_def version.cmp_le version.cmp_less)
        then show ?thesis using ih Some by auto
      qed
    qed
  qed
qed

lemma max_loop_None: "max_loop r vs best = None \<longleftrightarrow> best = None \<and> \<not> (\<exists>v \<in> set vs. Match r v)"
  by (induction r vs best rule: max_loop.induct) (auto split: option.splits)

section \<open>What the ranges accept\<close>

lemma Compare_core:
  "Compare w (core_version a b c) < 0 \<longleftrightarrow>
     unat (Major w) < unat a \<or> Major w = a \<and> (unat (Minor w) < unat b \<or>
       Minor w = b \<and> (unat (Patch w) < unat c \<or> Patch w = c \<and> Pre w \<noteq> []))"
  unfolding version.cmp_less version_key_def by (auto simp: le_less)

lemma clauses_ge_lt:
  "clauseMatch (mk_clause opGE v) w \<longleftrightarrow> LessEq v w"
  "clauseMatch (mk_clause opLT hi) w \<longleftrightarrow> Compare w hi < 0"
  by (simp_all add: clauseMatch_def LessEq_def version.cmp_ge version.cmp_le)

lemma LessEq_core:
  "LessEq v w \<Longrightarrow> unat (Major v) \<le> unat (Major w) \<and>
    (Major v = Major w \<longrightarrow> unat (Minor v) \<le> unat (Minor w) \<and>
      (Minor v = Minor w \<longrightarrow> unat (Patch v) \<le> unat (Patch w)))"
  unfolding LessEq_def version.cmp_le version_key_def by auto

lemma unat_Suc: "(a :: 64 word) \<noteq> - 1 \<Longrightarrow> unat (a + 1) = Suc (unat a)"
  by (metis Suc_eq_plus1 add.commute eq_neg_iff_add_eq_0 unatSuc)

text \<open>What \<open>^\<close> promises: the leftmost non-zero component stays.\<close>

definition caret_compatible :: "Version \<Rightarrow> Version \<Rightarrow> bool" where
  "caret_compatible v w \<longleftrightarrow>
     (if Major v > 0 then Major w = Major v
      else if Minor v > 0 then Major w = 0 \<and> Minor w = Minor v
      else Major w = 0 \<and> Minor w = 0 \<and> Patch w = Patch v)"

text \<open>The component \<open>^\<close> increments is not the largest \<open>uint64\<close>.\<close>

definition caret_fits :: "Version \<Rightarrow> bool" where
  "caret_fits v \<longleftrightarrow> (if Major v > 0 then Major v else if Minor v > 0 then Minor v else Patch v) \<noteq> - 1"

lemma caretClauses_accept:
  assumes fits: "caret_fits v" and w: "Pre w = []"
  shows "list_all (\<lambda>c. clauseMatch c w) (caretClauses v) \<longleftrightarrow> LessEq v w \<and> caret_compatible v w"
proof (cases "LessEq v w")
  case True
  note le = LessEq_core [OF True]
  have eqI: "unat a \<le> unat b \<Longrightarrow> unat b \<le> unat a \<longleftrightarrow> b = a" for a b :: "64 word" by (metis le_antisym order_refl unat_eq_iff)
  show ?thesis
  proof (cases "0 < Major v")
    case major: True
    then have "unat (Major v + 1) = Suc (unat (Major v))" using fits by (simp add: caret_fits_def unat_Suc)
    then have "Compare w (core_version (Major v + 1) 0 0) < 0 \<longleftrightarrow> Major w = Major v"
      using w le eqI [of "Major v" "Major w"] by (auto simp: Compare_core less_Suc_eq_le)
    then show ?thesis using True major by (simp add: caretClauses_def clauses_ge_lt caret_compatible_def)
  next
    case False
    then have major: "Major v = 0" by (simp add: word_greater_zero_iff)
    show ?thesis
    proof (cases "0 < Minor v")
      case minor: True
      then have "unat (Minor v + 1) = Suc (unat (Minor v))" using fits major by (simp add: caret_fits_def unat_Suc)
      then have "Compare w (core_version 0 (Minor v + 1) 0) < 0 \<longleftrightarrow> Major w = 0 \<and> Minor w = Minor v"
        using w le eqI [of "Minor v" "Minor w"] major by (auto simp: Compare_core less_Suc_eq_le)
      then show ?thesis using True major minor
        by (simp add: caretClauses_def clauses_ge_lt caret_compatible_def)
    next
      case False
      then have minor: "Minor v = 0" by (simp add: word_greater_zero_iff)
      then have "unat (Patch v + 1) = Suc (unat (Patch v))" using fits major by (simp add: caret_fits_def unat_Suc)
      then have "Compare w (core_version 0 0 (Patch v + 1)) < 0 \<longleftrightarrow> Major w = 0 \<and> Minor w = 0 \<and> Patch w = Patch v"
        using w le eqI [of "Patch v" "Patch w"] major minor by (auto simp: Compare_core less_Suc_eq_le)
      then show ?thesis using True major minor
        by (simp add: caretClauses_def clauses_ge_lt caret_compatible_def)
    qed
  qed
qed (simp add: caretClauses_def Let_def clauses_ge_lt)

section \<open>Requirement texts without white space\<close>

lemma ParseReq_one:
  assumes "list_all graphic s" "s \<noteq> []" "s \<noteq> ''*''" "parseOnePart s = Inr (cls, ap)"
  shows "ParseReq s = Inr \<lparr>Raw = s, Clauses = cls, allowPre = ap\<rparr>"
  using assms(2-4) one_field [OF assms(1,2)] by (simp add: ParseReq_def Let_def)

lemma parsePartial_full: "ParseVersion s = Inr v \<Longrightarrow> parsePartialVersion s = Inr v"
proof -
  assume a: "ParseVersion s = Inr v"
  define s1 where "s1 = strip_v s"
  obtain core b where sb: "cut_at CHR ''+'' s1 = (core, b)" by (cases "cut_at CHR ''+'' s1")
  obtain vp q where sp: "cut_at CHR ''-'' core = (vp, q)" by (cases "cut_at CHR ''-'' core")
  obtain nums where n: "s \<noteq> []" "length (split_on CHR ''.'' vp) = 3" "parse_nums 0 (split_on CHR ''.'' vp) = Inr nums"
      "v = \<lparr>Major = nums ! 0, Minor = nums ! 1, Patch = nums ! 2, Pre = idents q, Build = idents b\<rparr>"
    using a unfolding ParseVersion_def s1_def [symmetric]
    by (auto simp: sb sp Let_def split: if_splits option.splits sum.splits)
  have "length nums = 3" using parse_nums_Inr [OF n(3)] n(2) by simp
  then show ?thesis using n unfolding parsePartialVersion_def s1_def [symmetric]
    by (simp add: sb sp Let_def nth_append)
qed

lemma Version_String_graphic:
  assumes "valid_version v"
  shows "list_all graphic (Version_String v)" "CHR ''*'' \<notin> set (Version_String v)"
proof -
  have g: "is_alnum_dash c \<Longrightarrow> graphic c \<and> c \<noteq> CHR ''*''" "is_digit c \<Longrightarrow> is_alnum_dash c" for c
    by (auto simp: is_alnum_dash_def graphic_def is_digit_def Let_def)
  have s: "graphic CHR ''.''" "graphic CHR ''-''" "graphic CHR ''+''" by (simp_all add: graphic_def)
  have j: "is_alnum_dash c \<or> c = CHR ''.''" if "c \<in> set (join CHR ''.'' xs)" "\<forall>x \<in> set xs. list_all is_alnum_dash x" for c xs
    using set_join [of "CHR ''.''" xs] that by (auto simp: list_all_iff)
  have al: "\<forall>x \<in> set (Pre v). list_all is_alnum_dash x" "\<forall>x \<in> set (Build v). list_all is_alnum_dash x"
    using assms ident_chars unfolding valid_version_def list_all_iff by blast+
  have "graphic c \<and> c \<noteq> CHR ''*''" if "c \<in> set (Version_String v)" for c
  proof -
    have "is_alnum_dash c \<or> c = CHR ''.'' \<or> c = CHR ''-'' \<or> c = CHR ''+''"
      using that j [OF _ al(1)] j [OF _ al(2)] g(2) by (auto simp: Version_String_def dest: itoa_free split: if_splits)
    then show ?thesis using g(1) s by auto
  qed
  then show "list_all graphic (Version_String v)" "CHR ''*'' \<notin> set (Version_String v)" by (auto simp: list_all_iff)
qed

lemma ParseReq_caret:
  assumes "valid_version v"
  shows "ParseReq (CHR ''^'' # Version_String v) =
    Inr \<lparr>Raw = CHR ''^'' # Version_String v, Clauses = caretClauses v, allowPre = IsPrerelease v\<rparr>"
proof (rule ParseReq_one)
  show "list_all graphic (CHR ''^'' # Version_String v)"
    using Version_String_graphic(1) [OF assms] by (simp add: graphic_def)
  show "parseOnePart (CHR ''^'' # Version_String v) = Inr (caretClauses v, IsPrerelease v)"
    using parsePartial_full [OF ParseVersion_prints [OF assms]] by (simp add: parseOnePart_def)
qed simp_all

section \<open>Theorems\<close>

text \<open>Printing and parsing a version: for every version whose identifiers are well formed,
  parsing its text gives the version back.\<close>

theorem ParseVersion_String:
  assumes "valid_version v"
  shows "ParseVersion (Version_String v) = Inr v"
  by (rule ParseVersion_prints [OF assms])

definition sample_version :: Version where
  "sample_version = \<lparr>Major = 1, Minor = 20, Patch = 3, Pre = [''rc-x'', ''7''], Build = [''001'']\<rparr>"

theorem ParseVersion_String_witness:
  "valid_version sample_version \<and> ParseVersion (Version_String sample_version) = Inr sample_version"
proof -
  have "valid_version sample_version" by code_simp
  with ParseVersion_String [OF this] show ?thesis by blast
qed

text \<open>C26. Parsing is exact: whatever text is accepted, the version is well formed and prints as
  the very same text, up to the one leading \<open>v\<close> the parser strips.\<close>

theorem ParseVersion_byte_exact:
  assumes "ParseVersion s = Inr v"
  shows "valid_version v \<and> Version_String v = strip_v s"
  using ParseVersion_exact [OF assms] by simp

theorem ParseVersion_byte_exact_witness:
  "\<exists>v. ParseVersion ''v1.2.3-a'' = Inr v \<and> valid_version v \<and> Version_String v = ''1.2.3-a''"
proof -
  have p: "ParseVersion ''v1.2.3-a'' = Inr \<lparr>Major = 1, Minor = 2, Patch = 3, Pre = [''a''], Build = []\<rparr>" by code_simp
  show ?thesis using ParseVersion_byte_exact [OF p] p by (auto simp: strip_v_def)
qed

text \<open>C27. \<open>Compare\<close> is a linear order up to build metadata: swapping the arguments flips the sign,
  it is transitive, and well-formed versions compare equal exactly when they differ at most
  in their build metadata.\<close>

theorem Compare_linear:
  assumes "valid_version a" "valid_version b"
  shows "Compare b a = - Compare a b \<and> (Compare a b \<le> 0 \<and> Compare b c \<le> 0 \<longrightarrow> Compare a c \<le> 0) \<and>
    (Compare a b = 0 \<longleftrightarrow> a\<lparr>Build := []\<rparr> = b\<lparr>Build := []\<rparr>)"
proof -
  have inj: "x = y" if "isPreIdent x" "isPreIdent y" "ident_key x = ident_key y" for x y
  proof (cases "parseUintMaybe x")
    case None
    then show ?thesis using that(3) by (auto simp: ident_key_eq split: option.splits)
  next
    case (Some n)
    then have "parse_num x = Some n" "parse_num y = Some n"
      using that by (auto simp: ident_key_eq parse_num_def parseUintMaybe_def isPreIdent_def ParseUint_def split: option.splits if_splits)
    then show ?thesis using parse_num_Some by metis
  qed
  have "map ident_key (Pre a) = map ident_key (Pre b) \<longleftrightarrow> Pre a = Pre b"
    using assms inj by (intro inj_on_map_eq_map inj_onI) (auto simp: valid_version_def list_all_iff)
  then have "Compare a b = 0 \<longleftrightarrow> a\<lparr>Build := []\<rparr> = b\<lparr>Build := []\<rparr>"
    unfolding version.cmp_zero version_key_def by (cases a; cases b) auto
  then show ?thesis using version.cmp_sym [of b a] version.cmp_trans [of a b c] by blast
qed

theorem Compare_linear_witness:
  "Compare (core_version 1 2 3) sample_version = - Compare sample_version (core_version 1 2 3) \<and>
    Compare sample_version (core_version 1 2 3) \<noteq> 0"
proof -
  have v: "valid_version sample_version" "valid_version (core_version 1 2 3)" by code_simp+
  show ?thesis using Compare_linear [OF v, of "core_version 1 2 3"] by (simp add: sample_version_def)
qed

text \<open>C32. \<open>Max\<close> selects a candidate that satisfies the requirement and is at least as new as every
  candidate that does, and selects nothing only if no candidate does.\<close>

theorem Max_selects:
  "case Max_version r vs of
     None \<Rightarrow> \<not> (\<exists>v. v \<in> set vs \<and> Match r v)
   | Some m \<Rightarrow> m \<in> set vs \<and> Match r m \<and> \<not> (\<exists>v. v \<in> set vs \<and> Match r v \<and> Less m v)"
proof (cases "Max_version r vs")
  case None
  then show ?thesis using max_loop_None [of r vs None] by (auto simp: Max_version_def)
next
  case (Some m)
  then have "m \<in> set vs \<and> Match r m \<and> (\<forall>v. v \<in> set vs \<and> Match r v \<longrightarrow> LessEq v m)"
    using max_loop_Some [of r vs None m] by (simp add: Max_version_def)
  then show ?thesis using Some by (auto simp: LessEq_def Less_def version.cmp_le version.cmp_less)
qed

text \<open>C28. What a caret requirement accepts: for a stable version \<open>v\<close> whose leftmost non-zero component
  is not the largest number, \<open>^v\<close> parses, and accepts exactly the stable versions from \<open>v\<close> on
  that keep that component and everything to its left.\<close>

theorem caret_accepts:
  assumes "valid_version v" "Pre v = []" "caret_fits v"
  shows "\<exists>r. ParseReq (CHR ''^'' # Version_String v) = Inr r \<and>
    (\<forall>w. Match r w \<longleftrightarrow> Pre w = [] \<and> LessEq v w \<and> caret_compatible v w)"
proof -
  have "Match \<lparr>Raw = rw, Clauses = caretClauses v, allowPre = IsPrerelease v\<rparr> w \<longleftrightarrow>
      Pre w = [] \<and> LessEq v w \<and> caret_compatible v w" for w rw
    using caretClauses_accept [OF assms(3), of w] assms(2)
    by (auto simp: Match_def IsPrerelease_def caretClauses_def Let_def)
  then show ?thesis using ParseReq_caret [OF assms(1)] by blast
qed

theorem caret_accepts_witness:
  "\<exists>r. ParseReq ''^0.2.3'' = Inr r \<and>
    (\<forall>w. Match r w \<longleftrightarrow> Pre w = [] \<and> LessEq (core_version 0 2 3) w \<and> caret_compatible (core_version 0 2 3) w)"
proof -
  have v: "valid_version (core_version 0 2 3)" "Pre (core_version 0 2 3) = []" "caret_fits (core_version 0 2 3)" by code_simp+
  have "CHR ''^'' # Version_String (core_version 0 2 3) = ''^0.2.3''" by code_simp
  then show ?thesis using caret_accepts [OF v] by metis
qed

text \<open>C30. The upper bound of a caret range wraps: for the largest major version, \<open>^v\<close> is accepted as a
  requirement but no version satisfies it, not even \<open>v\<close>.\<close>

theorem caret_wraps:
  assumes "valid_version v" "Major v = - 1"
  shows "\<exists>r. ParseReq (CHR ''^'' # Version_String v) = Inr r \<and> (\<forall>w. \<not> Match r w)"
proof -
  have "caretClauses v = [mk_clause opGE v, mk_clause opLT (core_version 0 0 0)]"
    using assms(2) by (simp add: caretClauses_def Let_def word_greater_zero_iff)
  moreover have "\<not> (LessEq v w \<and> Compare w (core_version 0 0 0) < 0)" for w
  proof
    assume a: "LessEq v w \<and> Compare w (core_version 0 0 0) < 0"
    then have "Major w = 0" by (simp add: Compare_core)
    moreover have "unat (Major v) \<le> unat (Major w)" using LessEq_core a by blast
    ultimately show False using assms(2) by (simp add: unat_eq_zero)
  qed
  ultimately have "\<not> Match \<lparr>Raw = rw, Clauses = caretClauses v, allowPre = ap\<rparr> w" for w rw ap
    by (simp add: Match_def clauses_ge_lt)
  then show ?thesis using ParseReq_caret [OF assms(1)] by blast
qed

theorem caret_wraps_witness:
  "\<exists>r. ParseReq (CHR ''^'' # Version_String (core_version (- 1) 0 0)) = Inr r \<and> (\<forall>w. \<not> Match r w)"
  by (rule caret_wraps) code_simp+

definition accepts :: "string \<Rightarrow> string \<Rightarrow> bool" where
  "accepts req v = (case (ParseReq req, ParseVersion v) of (Inr r, Inr w) \<Rightarrow> Match r w | _ \<Rightarrow> False)"

text \<open>Two ranges that differ from their comments. \<open>~1\<close> is minor-stable: it rejects \<open>1.1.0\<close>, which
  \<open>^1\<close> accepts. A requirement that names a pre-release lets in every pre-release inside its bounds, of other
  versions too, and those of the excluded upper bound: \<open>^1.0.0-alpha\<close> accepts \<open>2.0.0-beta\<close>.\<close>

theorem ranges_against_comments:
  "accepts ''~1'' ''1.0.9'' \<and> \<not> accepts ''~1'' ''1.1.0'' \<and> accepts ''^1'' ''1.1.0'' \<and>
    accepts ''^1.0.0-alpha'' ''2.0.0-beta'' \<and> accepts ''^1.0.0-alpha'' ''1.5.0-beta''"
  by (intro conjI) code_simp+

text \<open>Numeric identifiers beyond 64 bits are compared as text: \<open>1.0.0-99999999999999999999\<close> is
  ordered after \<open>1.0.0-100000000000000000000\<close>.\<close>

theorem long_numeric_identifiers_as_text:
  "\<exists>a b. ParseVersion ''1.0.0-99999999999999999999'' = Inr a \<and> ParseVersion ''1.0.0-100000000000000000000'' = Inr b \<and>
    Less b a"
proof -
  let ?v = "\<lambda>p. \<lparr>Major = 1, Minor = 0, Patch = 0, Pre = [p], Build = []\<rparr>"
  have "ParseVersion ''1.0.0-99999999999999999999'' = Inr (?v ''99999999999999999999'')"
    "ParseVersion ''1.0.0-100000000000000000000'' = Inr (?v ''100000000000000000000'')"
    "Less (?v ''100000000000000000000'') (?v ''99999999999999999999'')"
    by code_simp+
  then show ?thesis by blast
qed

end
