(* ===== verification/Query_Engine.thy ===== *)
theory Query_Engine
  imports Osty_Prelude
begin

text \<open>
  \<^verbatim>\<open>src/internal/query\<close> (\<^verbatim>\<open>db.go, query.go, slot.go, cycle.go, metrics.go\<close>): the incremental query
  engine. Keys and values, type-erased in the code, are the type parameters \<open>'k\<close> and \<open>'v\<close>. A query
  body, a Go function that may call \<open>Fetch\<close> and \<open>HasFetch\<close>, is a tree of reads ending in a
  value: that bodies are functions of what they read is what the package documents. Every
  operation is a function from the database to an error or a result, with the database it
  leaves behind in both cases (a panic does not undo anything). Revisions and ids are
  \<^typ>\<open>nat\<close>; the metrics keep their width.

  The recursion through bodies and dependency walks carries fuel, one unit per nested
  query. The same number is enough as for evaluating the query from scratch.
\<close>

section \<open>Data\<close>

record 'k depRecord =
  dp_qid :: nat
  dp_key :: 'k
  changedAt :: nat

text \<open>\<open>outputHash\<close> is \<^const>\<open>None\<close> where the code has \<open>hasHash == false\<close>.\<close>

record ('k, 'v) slot =
  sl_value :: 'v
  outputHash :: "bytes option"
  computedAt :: nat
  verifiedAt :: nat
  sl_deps :: "'k depRecord list"

record 'k frame =
  fm_qid :: nat
  fm_key :: 'k
  fm_deps :: "'k depRecord list"

datatype ('k, 'v) body =
  Return 'v
| Fetch nat 'k "'v \<Rightarrow> ('k, 'v) body"
| HasFetch nat 'k "bool \<Rightarrow> ('k, 'v) body"

text \<open>What \<open>Register\<close> and \<open>RegisterInput\<close> leave in \<open>validators\<close>, the dispatch table.\<close>

datatype ('k, 'v) validator =
  InputOf "'v \<Rightarrow> bytes"
| QueryOf "'k \<Rightarrow> ('k, 'v) body" "('v \<Rightarrow> bytes) option"

record Metrics =
  hits :: "64 word"
  misses :: "64 word"
  reruns :: "64 word"
  cutoffs :: "64 word"
  inputSet :: "64 word"

text \<open>The stack has its top at the head.\<close>

record ('k, 'v) Database =
  rev_no :: nat
  slots :: "nat \<times> 'k \<rightharpoonup> ('k, 'v) slot"
  names :: "nat \<rightharpoonup> string"
  isInput :: "nat \<Rightarrow> bool"
  validators :: "nat \<rightharpoonup> ('k, 'v) validator"
  nextID :: nat
  stack :: "'k frame list"
  metrics :: Metrics

datatype 'k query_error =
  CycleError "(nat \<times> 'k) list"
| InputHasNoSlot nat
| InputHasNoValue nat 'k
| NilHashFn
| NotRegistered nat
| EmptyStack
| NoFuel

type_synonym ('k, 'v, 'a) qres = "('k query_error \<times> ('k, 'v) Database) + ('a \<times> ('k, 'v) Database)"
type_synonym ('k, 'v, 'a) qact = "('k, 'v) Database \<Rightarrow> ('k, 'v, 'a) qres"

definition bindQ :: "('k, 'v, 'a) qres \<Rightarrow> ('a \<Rightarrow> ('k, 'v, 'b) qact) \<Rightarrow> ('k, 'v, 'b) qres" where
  "bindQ r f = (case r of Inl e \<Rightarrow> Inl e | Inr x \<Rightarrow> f (fst x) (snd x))"

lemma bindQ_simps [simp]: "bindQ (Inl e) f = Inl e" "bindQ (Inr (a, db)) f = f a db"
  by (simp_all add: bindQ_def)

section \<open>Registration\<close>

definition zero_metrics :: Metrics where
  "zero_metrics = \<lparr>hits = 0, misses = 0, reruns = 0, cutoffs = 0, inputSet = 0\<rparr>"

definition NewDatabase :: "('k, 'v) Database" where
  "NewDatabase = \<lparr>rev_no = 0, slots = Map.empty, names = Map.empty, isInput = (\<lambda>_. False),
     validators = Map.empty, nextID = 0, stack = [], metrics = zero_metrics\<rparr>"

definition allocID :: "string \<Rightarrow> bool \<Rightarrow> ('k, 'v) Database \<Rightarrow> nat \<times> ('k, 'v) Database" where
  "allocID name inp db =
     (nextID db, db\<lparr>nextID := nextID db + 1, names := (names db)(nextID db \<mapsto> name),
                   isInput := (isInput db)(nextID db := inp),
                   slots := (\<lambda>p. if fst p = nextID db then None else slots db p)\<rparr>)"

definition Register ::
  "string \<Rightarrow> ('k \<Rightarrow> ('k, 'v) body) \<Rightarrow> ('v \<Rightarrow> bytes) option \<Rightarrow> ('k, 'v) Database \<Rightarrow> nat \<times> ('k, 'v) Database" where
  "Register name fn hashFn db =
     (let r = allocID name False db
      in (fst r, (snd r)\<lparr>validators := (validators (snd r))(fst r \<mapsto> QueryOf fn hashFn)\<rparr>))"

definition RegisterInput :: "string \<Rightarrow> ('v \<Rightarrow> bytes) option \<Rightarrow> ('k, 'v, nat) qact" where
  "RegisterInput name hashFn db =
     (case hashFn of None \<Rightarrow> Inl (NilHashFn, db)
      | Some h \<Rightarrow>
          (let r = allocID name True db
           in Inr (fst r, (snd r)\<lparr>validators := (validators (snd r))(fst r \<mapsto> InputOf h)\<rparr>)))"

section \<open>Frames, cycles, metrics\<close>

definition pushFrame :: "'k frame \<Rightarrow> ('k, 'v) Database \<Rightarrow> ('k, 'v) Database" where
  "pushFrame f db = db\<lparr>stack := f # stack db\<rparr>"

text \<open>\<open>parent.deps = append(parent.deps, d)\<close> if there is a current frame.\<close>

definition record_dep :: "'k depRecord \<Rightarrow> ('k, 'v) Database \<Rightarrow> ('k, 'v) Database" where
  "record_dep d db =
     (case stack db of [] \<Rightarrow> db | f # fs \<Rightarrow> db\<lparr>stack := f\<lparr>fm_deps := fm_deps f @ [d]\<rparr> # fs\<rparr>)"

definition checkCycle :: "nat \<Rightarrow> 'k \<Rightarrow> ('k, 'v) Database \<Rightarrow> 'k query_error option" where
  "checkCycle qid key db =
     (if list_ex (\<lambda>f. fm_qid f = qid \<and> fm_key f = key) (stack db)
      then Some (CycleError (map (\<lambda>f. (fm_qid f, fm_key f)) (rev (stack db)) @ [(qid, key)])) else None)"

definition count_hit :: "('k, 'v) Database \<Rightarrow> ('k, 'v) Database" where
  "count_hit db = db\<lparr>metrics := (metrics db)\<lparr>hits := hits (metrics db) + 1\<rparr>\<rparr>"

definition Metrics_Sub :: "Metrics \<Rightarrow> Metrics \<Rightarrow> Metrics" where
  "Metrics_Sub a b = \<lparr>hits = hits a - hits b, misses = misses a - misses b, reruns = reruns a - reruns b,
     cutoffs = cutoffs a - cutoffs b, inputSet = inputSet a - inputSet b\<rparr>"

section \<open>Inputs\<close>

definition input_slot :: "'v \<Rightarrow> bytes \<Rightarrow> nat \<Rightarrow> ('k, 'v) slot" where
  "input_slot val h r = \<lparr>sl_value = val, outputHash = Some h, computedAt = r, verifiedAt = r, sl_deps = []\<rparr>"

definition Input_Set :: "nat \<Rightarrow> 'k \<Rightarrow> 'v \<Rightarrow> ('k, 'v, unit) qact" where
  "Input_Set qid key val db =
     (case validators db qid of
        Some (InputOf hashFn) \<Rightarrow>
          (let newHash = hashFn val in
           if (case slots db (qid, key) of None \<Rightarrow> False | Some old \<Rightarrow> outputHash old = Some newHash)
           then Inr ((), db)
           else Inr ((), db\<lparr>rev_no := rev_no db + 1,
                           slots := (slots db)((qid, key) \<mapsto> input_slot val newHash (rev_no db + 1)),
                           metrics := (metrics db)\<lparr>inputSet := inputSet (metrics db) + 1\<rparr>\<rparr>))
      | _ \<Rightarrow> Inl (NotRegistered qid, db))"

definition Input_Clear :: "nat \<Rightarrow> 'k \<Rightarrow> ('k, 'v) Database \<Rightarrow> ('k, 'v) Database" where
  "Input_Clear qid key db =
     (if slots db (qid, key) = None then db
      else db\<lparr>slots := (slots db)((qid, key) := None), rev_no := rev_no db + 1\<rparr>)"

definition Input_getLocked :: "nat \<Rightarrow> 'k \<Rightarrow> ('k, 'v, 'v) qact" where
  "Input_getLocked qid key db =
     (case slots db (qid, key) of
        None \<Rightarrow> Inl (InputHasNoValue qid key, db)
      | Some s \<Rightarrow> Inr (sl_value s, count_hit
          (record_dep \<lparr>dp_qid = qid, dp_key = key, changedAt = computedAt s\<rparr> db)))"

definition Input_Has :: "nat \<Rightarrow> 'k \<Rightarrow> ('k, 'v) Database \<Rightarrow> bool" where
  "Input_Has qid key db \<longleftrightarrow> slots db (qid, key) \<noteq> None"

definition Input_HasFetch :: "nat \<Rightarrow> 'k \<Rightarrow> ('k, 'v) Database \<Rightarrow> bool \<times> ('k, 'v) Database" where
  "Input_HasFetch qid key db =
     (slots db (qid, key) \<noteq> None,
      record_dep \<lparr>dp_qid = qid, dp_key = key,
                  changedAt = (case slots db (qid, key) of None \<Rightarrow> 0 | Some s \<Rightarrow> computedAt s)\<rparr> db)"

section \<open>The engine\<close>

text \<open>The functions below take the recursive call \<open>vr\<close> (\<open>validateOrRunLocked\<close> with less fuel).\<close>

definition getLocked :: "(nat \<Rightarrow> 'k \<Rightarrow> ('k, 'v, ('k, 'v) slot) qact) \<Rightarrow> nat \<Rightarrow> 'k \<Rightarrow> ('k, 'v, 'v) qact" where
  "getLocked vr qid key db =
     (case checkCycle qid key db of
        Some e \<Rightarrow> Inl (e, db)
      | None \<Rightarrow> bindQ (vr qid key db) (\<lambda>s db1.
          Inr (sl_value s, record_dep \<lparr>dp_qid = qid, dp_key = key, changedAt = computedAt s\<rparr> db1)))"

text \<open>\<open>Query.Fetch\<close> or \<open>Input.Fetch\<close>, by what the id was registered as.\<close>

definition fetch :: "(nat \<Rightarrow> 'k \<Rightarrow> ('k, 'v, ('k, 'v) slot) qact) \<Rightarrow> nat \<Rightarrow> 'k \<Rightarrow> ('k, 'v, 'v) qact" where
  "fetch vr qid key db =
     (case validators db qid of
        None \<Rightarrow> Inl (NotRegistered qid, db)
      | Some (InputOf h) \<Rightarrow> Input_getLocked qid key db
      | Some (QueryOf fn h) \<Rightarrow> getLocked vr qid key db)"

primrec run_body :: "(nat \<Rightarrow> 'k \<Rightarrow> ('k, 'v, ('k, 'v) slot) qact) \<Rightarrow> ('k, 'v) body \<Rightarrow> ('k, 'v, 'v) qact" where
  "run_body vr (Return v) = (\<lambda>db. Inr (v, db))"
| "run_body vr (Fetch qid key f) = (\<lambda>db. bindQ (fetch vr qid key db) (\<lambda>v. run_body vr (f v)))"
| "run_body vr (HasFetch qid key f) =
     (\<lambda>db. let r = Input_HasFetch qid key db in run_body vr (f (fst r)) (snd r))"

definition validateDepLocked ::
  "(nat \<Rightarrow> 'k \<Rightarrow> ('k, 'v, ('k, 'v) slot) qact) \<Rightarrow> 'k depRecord \<Rightarrow> ('k, 'v, ('k, 'v) slot option) qact" where
  "validateDepLocked vr d db =
     (case validators db (dp_qid d) of
        None \<Rightarrow> Inr (None, db)
      | Some (InputOf h) \<Rightarrow> Inr (slots db (dp_qid d, dp_key d), db)
      | Some (QueryOf fn h) \<Rightarrow> bindQ (vr (dp_qid d) (dp_key d) db) (\<lambda>s db1. Inr (Some s, db1)))"

text \<open>The loop over the recorded dependencies: is one of them stale?\<close>

primrec walk_deps :: "(nat \<Rightarrow> 'k \<Rightarrow> ('k, 'v, ('k, 'v) slot) qact) \<Rightarrow> 'k depRecord list \<Rightarrow> ('k, 'v, bool) qact" where
  "walk_deps vr [] = (\<lambda>db. Inr (False, db))"
| "walk_deps vr (d # ds) = (\<lambda>db. bindQ (validateDepLocked vr d db) (\<lambda>r db1.
     case r of
       None \<Rightarrow> if changedAt d \<noteq> 0 then Inr (True, db1) else walk_deps vr ds db1
     | Some s \<Rightarrow> if computedAt s > changedAt d then Inr (True, db1) else walk_deps vr ds db1))"

definition count_run :: "bool \<Rightarrow> bool \<Rightarrow> Metrics \<Rightarrow> Metrics" where
  "count_run cold cutoff m =
     (if cold then m\<lparr>misses := misses m + 1\<rparr>
      else if cutoff then m\<lparr>cutoffs := cutoffs m + 1\<rparr> else m\<lparr>reruns := reruns m + 1\<rparr>)"

definition runAndStoreLocked ::
  "(nat \<Rightarrow> 'k \<Rightarrow> ('k, 'v, ('k, 'v) slot) qact) \<Rightarrow> nat \<Rightarrow> 'k \<Rightarrow> ('k, 'v) slot option \<Rightarrow> ('k, 'v, ('k, 'v) slot) qact" where
  "runAndStoreLocked vr qid key oldSlot db =
     (if isInput db qid then Inl (InputHasNoSlot qid, db)
      else
        (case validators db qid of
           Some (QueryOf fn hashFn) \<Rightarrow>
             bindQ (run_body vr (fn key) (pushFrame \<lparr>fm_qid = qid, fm_key = key, fm_deps = []\<rparr> db)) (\<lambda>value db1.
               case stack db1 of
                 [] \<Rightarrow> Inl (EmptyStack, db1)
               | f # fs \<Rightarrow>
                   (let newHash = map_option (\<lambda>h. h value) hashFn;
                        cutoff = (case oldSlot of None \<Rightarrow> False | Some old \<Rightarrow> newHash \<noteq> None \<and> outputHash old = newHash);
                        newSlot = \<lparr>sl_value = value, outputHash = newHash,
                          computedAt = (if cutoff then computedAt (the oldSlot) else rev_no db1),
                          verifiedAt = rev_no db1, sl_deps = fm_deps f\<rparr>
                    in Inr (newSlot, db1\<lparr>stack := fs, slots := (slots db1)((qid, key) \<mapsto> newSlot),
                                        metrics := count_run (oldSlot = None) cutoff (metrics db1)\<rparr>)))
         | _ \<Rightarrow> Inl (NotRegistered qid, db)))"

text \<open>\<open>s.verifiedAt = db.rev\<close> writes through the pointer \<open>s\<close>: it shows in the table only if the table
  still holds that slot.\<close>

definition touch_slot :: "nat \<times> 'k \<Rightarrow> ('k, 'v) slot \<Rightarrow> ('k, 'v) Database \<Rightarrow> ('k, 'v) Database" where
  "touch_slot p s db =
     (if slots db p = Some s then db\<lparr>slots := (slots db)(p \<mapsto> s\<lparr>verifiedAt := rev_no db\<rparr>)\<rparr> else db)"

primrec validateOrRunLocked :: "nat \<Rightarrow> nat \<Rightarrow> 'k \<Rightarrow> ('k, 'v, ('k, 'v) slot) qact" where
  "validateOrRunLocked 0 = (\<lambda>qid key db. Inl (NoFuel, db))"
| "validateOrRunLocked (Suc n) = (\<lambda>qid key db.
     (case slots db (qid, key) of
        None \<Rightarrow> runAndStoreLocked (validateOrRunLocked n) qid key None db
      | Some s \<Rightarrow>
          if verifiedAt s = rev_no db then Inr (s, count_hit db)
          else bindQ (walk_deps (validateOrRunLocked n) (sl_deps s) db) (\<lambda>stale db1.
            if \<not> stale
            then Inr (s\<lparr>verifiedAt := rev_no db1\<rparr>, count_hit (touch_slot (qid, key) s db1))
            else runAndStoreLocked (validateOrRunLocked n) qid key (Some s) db1)))"

text \<open>\<open>Query.Get\<close>.\<close>

definition Query_Get :: "nat \<Rightarrow> nat \<Rightarrow> 'k \<Rightarrow> ('k, 'v, 'v) qact" where
  "Query_Get n = getLocked (validateOrRunLocked n)"

section \<open>Evaluation from scratch\<close>

text \<open>The specification: the value of a query is that of its body, run on the current inputs
  without any cache.\<close>

type_synonym ('k, 'v) inputs = "nat \<Rightarrow> 'k \<Rightarrow> 'v option"

definition inputs_of :: "('k, 'v) Database \<Rightarrow> ('k, 'v) inputs" where
  "inputs_of db q k = (if isInput db q then map_option sl_value (slots db (q, k)) else None)"

definition is_input_reg :: "('k, 'v) validator option \<Rightarrow> bool" where
  "is_input_reg r = (case r of Some (InputOf h) \<Rightarrow> True | _ \<Rightarrow> False)"

primrec eval_body :: "(nat \<Rightarrow> bool) \<Rightarrow> ('k, 'v) inputs \<Rightarrow> (nat \<Rightarrow> 'k \<Rightarrow> 'v option) \<Rightarrow> ('k, 'v) body \<Rightarrow> 'v option" where
  "eval_body inp I E (Return v) = Some v"
| "eval_body inp I E (Fetch q k f) =
     (case (if inp q then I q k else E q k) of None \<Rightarrow> None | Some v \<Rightarrow> eval_body inp I E (f v))"
| "eval_body inp I E (HasFetch q k f) = (if inp q then eval_body inp I E (f (I q k \<noteq> None)) else None)"

primrec eval :: "(nat \<rightharpoonup> ('k, 'v) validator) \<Rightarrow> ('k, 'v) inputs \<Rightarrow> nat \<Rightarrow> nat \<Rightarrow> 'k \<Rightarrow> 'v option" where
  "eval regs I 0 = (\<lambda>q k. None)"
| "eval regs I (Suc n) = (\<lambda>q k.
     case regs q of
       Some (QueryOf fn h) \<Rightarrow>
         eval_body (\<lambda>q. is_input_reg (regs q)) I (eval regs I n) (fn k)
     | _ \<Rightarrow> None)"

abbreviation eval_in :: "('k, 'v) Database \<Rightarrow> nat \<Rightarrow> nat \<Rightarrow> 'k \<Rightarrow> 'v option" where
  "eval_in db \<equiv> eval (validators db) (inputs_of db)"

abbreviation body_in :: "('k, 'v) Database \<Rightarrow> nat \<Rightarrow> ('k, 'v) body \<Rightarrow> 'v option" where
  "body_in db m \<equiv> eval_body (\<lambda>q. is_input_reg (validators db q)) (inputs_of db) (eval_in db m)"

lemma eval_body_mono:
  assumes "\<And>q k v. E q k = Some v \<Longrightarrow> E' q k = Some v"
  shows "eval_body inp I E b = Some v \<Longrightarrow> eval_body inp I E' b = Some v"
proof (induction b)
  case (Fetch q k f)
  then show ?case using assms by (auto split: option.splits if_splits)
qed (auto split: if_splits)

lemma eval_Suc: "eval R I n q k = Some v \<Longrightarrow> eval R I (Suc n) q k = Some v"
proof (induction n arbitrary: q k v)
  case (Suc n)
  have "eval_body inp I (eval R I n) b = Some v \<Longrightarrow> eval_body inp I (eval R I (Suc n)) b = Some v" for inp b
    by (rule eval_body_mono [OF Suc.IH])
  with Suc.prems show ?case by (auto split: option.splits validator.splits)
qed simp

lemma eval_mono: "eval R I n q k = Some v \<Longrightarrow> n \<le> m \<Longrightarrow> eval R I m q k = Some v"
proof (induction m)
  case (Suc m)
  then show ?case using eval_Suc [of R I m q k v] by (cases "n = Suc m") (auto simp del: eval.simps)
qed simp

lemma eval_det: "eval R I n q k = Some v \<Longrightarrow> eval R I m q k = Some w \<Longrightarrow> v = w"
  using eval_mono [of R I n q k v "max n m"] eval_mono [of R I m q k w "max n m"] by simp

section \<open>Values with equal hashes\<close>

text \<open>The engine compares hashes, never values. Two values of an input or a query are alike if its hash function does not tell
  them apart; without a hash function nothing but equality counts.\<close>

definition alike :: "(nat \<rightharpoonup> ('k, 'v) validator) \<Rightarrow> nat \<Rightarrow> 'v \<Rightarrow> 'v \<Rightarrow> bool" where
  "alike R q v w \<longleftrightarrow> (case R q of Some (InputOf h) \<Rightarrow> h v = h w | Some (QueryOf fn (Some h)) \<Rightarrow> h v = h w | _ \<Rightarrow> v = w)"

lemma alike_refl [simp]: "alike R q v v"
  by (simp add: alike_def split: option.split validator.split)

lemma alike_sym: "alike R q v w \<Longrightarrow> alike R q w v"
  by (auto simp: alike_def split: option.splits validator.splits)

lemma alike_trans [trans]: "alike R q u v \<Longrightarrow> alike R q v w \<Longrightarrow> alike R q u w"
  by (simp add: alike_def split: option.splits validator.splits)

text \<open>Two bodies that make the same reads, and whose results are related by \<open>P\<close>, if their reads give alike values. A configuration
  respects its hash functions if every body is such with itself: reads that hash alike give results that hash alike.\<close>

primrec like_body :: "(nat \<rightharpoonup> ('k, 'v) validator) \<Rightarrow> ('v \<Rightarrow> 'v \<Rightarrow> bool) \<Rightarrow> ('k, 'v) body \<Rightarrow> ('k, 'v) body \<Rightarrow> bool" where
  "like_body R P (Return v) = (\<lambda>b. \<exists>w. b = Return w \<and> P v w)"
| "like_body R P (Fetch q k f) = (\<lambda>b. \<exists>g. b = Fetch q k g \<and> (\<forall>u w. alike R q u w \<longrightarrow> like_body R P (f u) (g w)))"
| "like_body R P (HasFetch q k f) = (\<lambda>b. \<exists>g. b = HasFetch q k g \<and> (\<forall>h. like_body R P (f h) (g h)))"

definition hash_respecting :: "(nat \<rightharpoonup> ('k, 'v) validator) \<Rightarrow> bool" where
  "hash_respecting R \<longleftrightarrow> (\<forall>q fn h k. R q = Some (QueryOf fn h) \<longrightarrow> like_body R (alike R q) (fn k) (fn k))"

lemma hash_respectingD: "hash_respecting R \<Longrightarrow> R q = Some (QueryOf fn h) \<Longrightarrow> like_body R (alike R q) (fn k) (fn k)"
  by (simp add: hash_respecting_def)

text \<open>Hash functions without collisions are respected by every body.\<close>

lemma injective_hash_respecting:
  assumes "\<And>q v w. alike R q v w \<Longrightarrow> v = w"
  shows "hash_respecting R"
proof -
  have "like_body R (alike R q) b b" for q b by (induction b) (use assms in auto)
  then show ?thesis by (simp add: hash_respecting_def)
qed

lemma eval_body_alike:
  assumes "\<And>q k. rel_option (alike R q) (I q k) (I' q k)"
    and "\<And>q k v. E q k = Some v \<Longrightarrow> \<exists>w. E' q k = Some w \<and> alike R q v w"
  shows "like_body R P b b' \<Longrightarrow> eval_body inp I E b = Some v \<Longrightarrow> \<exists>w. eval_body inp I' E' b' = Some w \<and> P v w"
proof (induction b arbitrary: b')
  case (Fetch q k f)
  obtain g where g: "b' = Fetch q k g" "\<And>u w. alike R q u w \<Longrightarrow> like_body R P (f u) (g w)" using Fetch.prems(1) by auto
  obtain u where u: "(if inp q then I q k else E q k) = Some u" "eval_body inp I E (f u) = Some v"
    using Fetch.prems(2) by (auto split: option.splits)
  obtain w where w: "(if inp q then I' q k else E' q k) = Some w" "alike R q u w"
    using u(1) assms(1) [of q k] assms(2) [of q k u] by (cases "I' q k") (auto split: if_splits)
  show ?case using Fetch.IH [OF rangeI g(2) [OF w(2)] u(2)] g(1) w(1) by simp
next
  case (HasFetch q k f)
  obtain g where g: "b' = HasFetch q k g" "\<And>h. like_body R P (f h) (g h)" using HasFetch.prems(1) by auto
  have "I q k = None \<longleftrightarrow> I' q k = None" using assms(1) [of q k] by (cases "I q k"; cases "I' q k") auto
  then show ?case using HasFetch.IH [OF rangeI g(2)] HasFetch.prems(2) g(1) by (simp split: if_splits)
qed auto

lemma eval_alike:
  assumes "hash_respecting R" "\<And>q k. rel_option (alike R q) (I q k) (I' q k)"
  shows "eval R I n q k = Some v \<Longrightarrow> \<exists>w. eval R I' n q k = Some w \<and> alike R q v w"
proof (induction n arbitrary: q k v)
  case (Suc n)
  obtain fn h where fn: "R q = Some (QueryOf fn h)" "eval_body (\<lambda>q. is_input_reg (R q)) I (eval R I n) (fn k) = Some v"
    using Suc.prems by (auto split: option.splits validator.splits)
  have "\<exists>w. eval_body (\<lambda>q. is_input_reg (R q)) I' (eval R I' n) (fn k) = Some w \<and> alike R q v w"
    
    by (rule eval_body_alike [where E = "eval R I n", OF assms(2) _ hash_respectingD [OF assms(1) fn(1)] fn(2)]) (rule Suc.IH)
  then show ?case using fn(1) by simp
qed simp

text \<open>How deeply queries nest below this one.\<close>

definition depth :: "(nat \<rightharpoonup> ('k, 'v) validator) \<Rightarrow> ('k, 'v) inputs \<Rightarrow> nat \<Rightarrow> 'k \<Rightarrow> nat" where
  "depth R I q k = (LEAST n. eval R I n q k \<noteq> None)"

abbreviation depth_in :: "('k, 'v) Database \<Rightarrow> nat \<Rightarrow> 'k \<Rightarrow> nat" where
  "depth_in db \<equiv> depth (validators db) (inputs_of db)"

lemma depth_le: "eval R I n q k = Some v \<Longrightarrow> depth R I q k \<le> n"
  unfolding depth_def by (rule Least_le) simp

lemma depth_level:
  assumes "eval R I n q k = Some v"
  obtains m fn h where "depth R I q k = Suc m" "m < n" "R q = Some (QueryOf fn h)"
    "eval_body (\<lambda>q. is_input_reg (R q)) I (eval R I m) (fn k) = Some v"
proof -
  obtain w where w: "eval R I (depth R I q k) q k = Some w"
    using LeastI [of "\<lambda>n. eval R I n q k \<noteq> None" n] assms by (auto simp: depth_def)
  then have vw: "w = v" using assms eval_det by metis
  then obtain m where m: "depth R I q k = Suc m" using w by (cases "depth R I q k") auto
  have "m < n" using depth_le [OF assms] m by simp
  moreover obtain fn h where "R q = Some (QueryOf fn h)"
      "eval_body (\<lambda>q. is_input_reg (R q)) I (eval R I m) (fn k) = Some v"
    using w m vw by (auto split: option.splits validator.splits)
  ultimately show thesis using that m by blast
qed

section \<open>The invariant\<close>

text \<open>What a recorded read answered: a value, or whether an input is present.\<close>

datatype 'v answer = Val 'v | Present bool

primrec replay :: "('k, 'v) body \<Rightarrow> ('k depRecord \<times> 'v answer) list \<Rightarrow> 'v \<Rightarrow> bool" where
  "replay (Return v) = (\<lambda>tr w. tr = [] \<and> w = v)"
| "replay (Fetch q k f) = (\<lambda>tr w. case tr of
     (d, Val u) # tr' \<Rightarrow> dp_qid d = q \<and> dp_key d = k \<and> replay (f u) tr' w | _ \<Rightarrow> False)"
| "replay (HasFetch q k f) = (\<lambda>tr w. case tr of
     (d, Present h) # tr' \<Rightarrow> dp_qid d = q \<and> dp_key d = k \<and> replay (f h) tr' w | _ \<Rightarrow> False)"

text \<open>A dependency that does not look changed has an answer alike the one that was recorded.\<close>

definition dep_ok :: "('k, 'v) Database \<Rightarrow> 'k depRecord \<Rightarrow> 'v answer \<Rightarrow> bool" where
  "dep_ok db d a \<longleftrightarrow>
     (case a of
        Val u \<Rightarrow>
          (\<forall>t. slots db (dp_qid d, dp_key d) = Some t \<and> computedAt t \<le> changedAt d \<longrightarrow> alike (validators db) (dp_qid d) (sl_value t) u) \<and>
          (if isInput db (dp_qid d) then changedAt d \<noteq> 0 \<and> changedAt d \<le> rev_no db
           else (\<exists>t. slots db (dp_qid d, dp_key d) = Some t \<and> changedAt d \<le> verifiedAt t))
      | Present h \<Rightarrow>
          isInput db (dp_qid d) \<and> changedAt d \<le> rev_no db \<and> (h \<longleftrightarrow> changedAt d \<noteq> 0))"

definition input_ok :: "('k, 'v) Database \<Rightarrow> nat \<Rightarrow> ('k, 'v) slot \<Rightarrow> bool" where
  "input_ok db q t \<longleftrightarrow> computedAt t \<noteq> 0 \<and> computedAt t \<le> rev_no db \<and>
     (\<exists>h. validators db q = Some (InputOf h) \<and> outputHash t = Some (h (sl_value t)))"

definition query_ok :: "('k, 'v) Database \<Rightarrow> nat \<Rightarrow> 'k \<Rightarrow> ('k, 'v) slot \<Rightarrow> bool" where
  "query_ok db q k t \<longleftrightarrow>
     computedAt t \<le> verifiedAt t \<and> verifiedAt t \<le> rev_no db \<and>
     (\<exists>fn h tr. validators db q = Some (QueryOf fn h) \<and> outputHash t = map_option (\<lambda>h. h (sl_value t)) h \<and>
        sl_deps t = map fst tr \<and> replay (fn k) tr (sl_value t) \<and> (\<forall>x \<in> set tr. dep_ok db (fst x) (snd x))) \<and>
     (verifiedAt t = rev_no db \<longrightarrow> (\<exists>n v. eval_in db n q k = Some v \<and> alike (validators db) q (sl_value t) v))"

definition wf_db :: "('k, 'v) Database \<Rightarrow> bool" where
  "wf_db db \<longleftrightarrow>
     (\<forall>q. isInput db q = is_input_reg (validators db q)) \<and>
     (\<forall>q k t. slots db (q, k) = Some t \<longrightarrow> (if isInput db q then input_ok db q t else query_ok db q k t))"

lemma wf_dbI:
  assumes "\<And>q. isInput db q = is_input_reg (validators db q)"
    "\<And>q k t. slots db (q, k) = Some t \<Longrightarrow> isInput db q \<Longrightarrow> input_ok db q t"
    "\<And>q k t. slots db (q, k) = Some t \<Longrightarrow> \<not> isInput db q \<Longrightarrow> query_ok db q k t"
  shows "wf_db db"
  unfolding wf_db_def using assms by (metis (mono_tags))

lemma wf_dbD:
  assumes "wf_db db"
  shows "is_input_reg (validators db q) = isInput db q" "slots db (q, k) = Some t \<Longrightarrow> isInput db q \<Longrightarrow> input_ok db q t"
    "slots db (q, k) = Some t \<Longrightarrow> \<not> isInput db q \<Longrightarrow> query_ok db q k t"
  using assms unfolding wf_db_def by (auto dest: spec split: if_splits)

section \<open>Progress within a revision\<close>

definition slot_step :: "('v \<Rightarrow> 'v \<Rightarrow> bool) \<Rightarrow> nat \<Rightarrow> ('k, 'v) slot \<Rightarrow> ('k, 'v) slot \<Rightarrow> bool" where
  "slot_step P r t t' \<longleftrightarrow> t' = t \<or> verifiedAt t < r \<and> verifiedAt t' = r \<and>
     (computedAt t' = computedAt t \<and> P (sl_value t') (sl_value t) \<or> computedAt t' = r)"

definition db_le :: "('k, 'v) Database \<Rightarrow> ('k, 'v) Database \<Rightarrow> bool" where
  "db_le db db' \<longleftrightarrow> rev_no db' = rev_no db \<and> validators db' = validators db \<and> isInput db' = isInput db \<and>
     (\<forall>q k. isInput db q \<longrightarrow> slots db' (q, k) = slots db (q, k)) \<and>
     (\<forall>p t. slots db p = Some t \<longrightarrow> (\<exists>t'. slots db' p = Some t' \<and> slot_step (alike (validators db) (fst p)) (rev_no db) t t'))"

lemma slot_step_trans: "slot_step (alike R q) r t1 t2 \<Longrightarrow> slot_step (alike R q) r t2 t3 \<Longrightarrow> slot_step (alike R q) r t1 t3"
  by (auto simp: slot_step_def)

lemma db_le_refl: "db_le db db"
  by (auto simp: db_le_def slot_step_def)

lemma db_le_trans: "db_le a b \<Longrightarrow> db_le b c \<Longrightarrow> db_le a c"
  unfolding db_le_def by (fastforce intro: slot_step_trans)

lemma db_le_inputs: "db_le a b \<Longrightarrow> inputs_of b = inputs_of a"
  by (auto simp: db_le_def inputs_of_def fun_eq_iff)

lemma dep_ok_le:
  assumes "db_le db db'" "dep_ok db d a"
  shows "dep_ok db' d a"
proof (cases "isInput db (dp_qid d)")
  case True
  then have "slots db' (dp_qid d, dp_key d) = slots db (dp_qid d, dp_key d)" "rev_no db' = rev_no db" "isInput db' = isInput db"
      "validators db' = validators db"
    using assms(1) by (auto simp: db_le_def)
  then show ?thesis using assms(2) by (cases a) (simp_all add: dep_ok_def)
next
  case False
  then obtain u t where a: "a = Val u" "slots db (dp_qid d, dp_key d) = Some t" "changedAt d \<le> verifiedAt t"
      "computedAt t \<le> changedAt d \<longrightarrow> alike (validators db) (dp_qid d) (sl_value t) u"
    using assms(2) by (auto simp: dep_ok_def split: answer.splits)
  obtain t' where t': "slots db' (dp_qid d, dp_key d) = Some t'" "slot_step (alike (validators db) (dp_qid d)) (rev_no db) t t'" "isInput db' = isInput db" "validators db' = validators db"
    using assms(1) a(2) unfolding db_le_def by fastforce
  then show ?thesis using a False by (auto simp: dep_ok_def slot_step_def intro: alike_trans)
qed

text \<open>The invariant looks at the tables only.\<close>

lemma tables_only [simp]:
  "inputs_of (db\<lparr>metrics := m\<rparr>) = inputs_of db" "inputs_of (db\<lparr>stack := st\<rparr>) = inputs_of db"
  "dep_ok (db\<lparr>metrics := m\<rparr>) = dep_ok db" "dep_ok (db\<lparr>stack := st\<rparr>) = dep_ok db"
  by (auto simp: inputs_of_def dep_ok_def fun_eq_iff split: answer.splits)

lemma wf_tables_only [simp]:
  "wf_db (db\<lparr>metrics := m\<rparr>) \<longleftrightarrow> wf_db db" "wf_db (db\<lparr>stack := st\<rparr>) \<longleftrightarrow> wf_db db"
  "db_le db (db'\<lparr>metrics := m\<rparr>) \<longleftrightarrow> db_le db db'" "db_le db (db'\<lparr>stack := st\<rparr>) \<longleftrightarrow> db_le db db'"
  "db_le (db\<lparr>metrics := m\<rparr>) db' \<longleftrightarrow> db_le db db'" "db_le (db\<lparr>stack := st\<rparr>) db' \<longleftrightarrow> db_le db db'"
  by (auto simp: wf_db_def input_ok_def query_ok_def db_le_def)

lemma record_dep_simps [simp]:
  "slots (record_dep d db) = slots db" "validators (record_dep d db) = validators db" "isInput (record_dep d db) = isInput db"
  "rev_no (record_dep d db) = rev_no db" "inputs_of (record_dep d db) = inputs_of db" "dep_ok (record_dep d db) = dep_ok db"
  "wf_db (record_dep d db) = wf_db db" "db_le db' (record_dep d db) = db_le db' db" "db_le (record_dep d db) db' = db_le db db'"
  by (simp_all add: record_dep_def split: list.splits)

lemma count_hit_simps [simp]:
  "slots (count_hit db) = slots db" "validators (count_hit db) = validators db" "isInput (count_hit db) = isInput db"
  "rev_no (count_hit db) = rev_no db" "inputs_of (count_hit db) = inputs_of db" "dep_ok (count_hit db) = dep_ok db"
  "wf_db (count_hit db) = wf_db db" "db_le db' (count_hit db) = db_le db' db" "db_le (count_hit db) db' = db_le db db'"
  "stack (count_hit db) = stack db"
  by (simp_all add: count_hit_def)

text \<open>Writing one slot of a derived query.\<close>

lemma store_le:
  assumes "\<not> isInput db q" "\<And>t0. slots db (q, k) = Some t0 \<Longrightarrow> slot_step (alike (validators db) q) (rev_no db) t0 t"
  shows "db_le db (db\<lparr>slots := (slots db)((q, k) \<mapsto> t)\<rparr>)"
  using assms by (auto simp: db_le_def slot_step_def)

lemma query_ok_le:
  assumes "db_le db db'" "query_ok db q k t"
  shows "query_ok db' q k t"
proof -
  have "validators db' = validators db" "rev_no db' = rev_no db" "inputs_of db' = inputs_of db"
    using assms(1) db_le_inputs [OF assms(1)] by (auto simp: db_le_def)
  then show ?thesis using assms(2) dep_ok_le [OF assms(1)] unfolding query_ok_def by fastforce
qed

lemma wf_store:
  assumes "wf_db db" "\<not> isInput db q" "\<And>t0. slots db (q, k) = Some t0 \<Longrightarrow> slot_step (alike (validators db) q) (rev_no db) t0 t"
    "query_ok (db\<lparr>slots := (slots db)((q, k) \<mapsto> t)\<rparr>) q k t"
  shows "wf_db (db\<lparr>slots := (slots db)((q, k) \<mapsto> t)\<rparr>)"
proof -
  note le = store_le [where t = t, OF assms(2,3)]
  show ?thesis
    using assms(2,4) query_ok_le [OF le] wf_dbD [OF assms(1)]
    by (intro wf_dbI) (auto simp: input_ok_def split: if_splits)
qed

text \<open>What a run below a query leaves behind: the tables stay well formed and only move forward,
  and only slots of queries of depth at most \<open>m\<close> change.\<close>

definition advances :: "nat \<Rightarrow> ('k, 'v) Database \<Rightarrow> ('k, 'v) Database \<Rightarrow> bool" where
  "advances m db db' \<longleftrightarrow> wf_db db' \<and> db_le db db' \<and>
     (\<forall>q k. m < depth_in db q k \<longrightarrow> slots db' (q, k) = slots db (q, k))"

lemma advances_same:
  assumes "advances m db db'"
  shows "validators db' = validators db" "isInput db' = isInput db" "rev_no db' = rev_no db" "inputs_of db' = inputs_of db"
  using assms db_le_inputs [of db db'] by (auto simp: advances_def db_le_def)

lemma advances_dep: "advances m db db' \<Longrightarrow> dep_ok db d a \<Longrightarrow> dep_ok db' d a"
  using dep_ok_le by (auto simp: advances_def)

lemma advances_refl: "wf_db db \<Longrightarrow> advances m db db"
  by (simp add: advances_def db_le_refl)

lemma advances_trans:
  assumes "advances i db db1" "advances j db1 db2" "i \<le> m" "j \<le> m"
  shows "advances m db db2"
  using assms advances_same [OF assms(1)] db_le_trans unfolding advances_def by fastforce

lemma advances_tables [simp]:
  "advances m db (record_dep d db') \<longleftrightarrow> advances m db db'" "advances m db (count_hit db') \<longleftrightarrow> advances m db db'"
  "advances m (db\<lparr>stack := st\<rparr>) db' \<longleftrightarrow> advances m db db'" "advances m (record_dep d db) db' \<longleftrightarrow> advances m db db'"
  "advances m (count_hit db) db' \<longleftrightarrow> advances m db db'" "advances m db (db'\<lparr>stack := st\<rparr>) \<longleftrightarrow> advances m db db'"
  by (simp_all add: advances_def)

text \<open>The running queries lie above depth \<open>m\<close>: none of them is needed below.\<close>

definition stack_above :: "nat \<Rightarrow> ('k, 'v) Database \<Rightarrow> bool" where
  "stack_above m db \<longleftrightarrow> (\<forall>f \<in> set (stack db). m < depth_in db (fm_qid f) (fm_key f))"

lemma stack_above_le: "stack_above m db \<Longrightarrow> i \<le> m \<Longrightarrow> stack_above i db"
  by (auto simp: stack_above_def)

lemma stack_above_frames:
  assumes "stack_above m db" "advances i db db'" "map (\<lambda>f. (fm_qid f, fm_key f)) (stack db') = map (\<lambda>f. (fm_qid f, fm_key f)) (stack db)"
  shows "stack_above m db'"
proof -
  have "(\<lambda>f. (fm_qid f, fm_key f)) ` set (stack db') = (\<lambda>f. (fm_qid f, fm_key f)) ` set (stack db)"
    using assms(3) by (metis list.set_map)
  then show ?thesis using assms(1) advances_same [OF assms(2)] by (force simp: stack_above_def)
qed

lemma stack_above_no_cycle: "stack_above (depth_in db q k) db \<Longrightarrow> checkCycle q k db = None"
  by (auto simp: stack_above_def checkCycle_def list_ex_iff)

section \<open>One level of the engine\<close>

text \<open>What the engine promises about a call on a query that can be evaluated: it returns the slot
  of the query, verified in this revision and holding a value alike the one computed from scratch.\<close>

definition answers :: "('k, 'v) Database \<Rightarrow> nat \<Rightarrow> 'k \<Rightarrow> 'v \<Rightarrow> ('k, 'v, ('k, 'v) slot) qres \<Rightarrow> bool" where
  "answers db q k v r \<longleftrightarrow> (\<exists>s db'. r = Inr (s, db') \<and> advances (depth_in db q k) db db' \<and> stack db' = stack db \<and>
     slots db' (q, k) = Some s \<and> verifiedAt s = rev_no db \<and> alike (validators db) q (sl_value s) v)"

text \<open>The current answer to a \<open>Fetch\<close>.\<close>

abbreviation read_in :: "('k, 'v) Database \<Rightarrow> nat \<Rightarrow> nat \<Rightarrow> 'k \<Rightarrow> 'v option" where
  "read_in db m q k \<equiv> (if is_input_reg (validators db q) then inputs_of db q k else eval_in db m q k)"

lemma wf_input_reg:
  assumes "isInput db q" "wf_db db"
  obtains h where "validators db q = Some (InputOf h)"
  using assms wf_dbD(1) [of db q] by (auto simp: is_input_reg_def split: option.splits validator.splits)

lemma body_present:
  assumes "wf_db db" "body_in db m (HasFetch q k c) = Some v"
  shows "isInput db q \<and> body_in db m (c (slots db (q, k) \<noteq> None)) = Some v"
proof -
  have i: "isInput db q" using assms(2) wf_dbD(1) [OF assms(1)] by (auto split: if_splits)
  then have "inputs_of db q k = None \<longleftrightarrow> slots db (q, k) = None" by (simp add: inputs_of_def)
  then show ?thesis using assms(2) i by (simp split: if_splits)
qed

text \<open>Storing the result of a run, with or without early cutoff.\<close>

lemma store_run:
  assumes wf: "wf_db db" and reg: "validators db q = Some (QueryOf fn h)"
    and tr: "replay (fn k) tr v" "\<forall>x \<in> set tr. dep_ok db (fst x) (snd x)"
    and ev: "eval_in db i q k = Some v'" "alike (validators db) q v v'"
    and old: "\<And>t. slots db (q, k) = Some t \<Longrightarrow> verifiedAt t < rev_no db"
    and reused: "reused \<Longrightarrow> \<exists>t. slots db (q, k) = Some t \<and> h \<noteq> None \<and> outputHash t = map_option (\<lambda>h. h v) h"
  defines "t \<equiv> \<lparr>sl_value = v, outputHash = map_option (\<lambda>h. h v) h,
      computedAt = (if reused then computedAt (the (slots db (q, k))) else rev_no db), verifiedAt = rev_no db, sl_deps = map fst tr\<rparr>"
  shows "wf_db (db\<lparr>slots := (slots db)((q, k) \<mapsto> t)\<rparr>) \<and> db_le db (db\<lparr>slots := (slots db)((q, k) \<mapsto> t)\<rparr>)"
proof -
  have ni: "\<not> isInput db q" using reg wf_dbD(1) [OF wf, of q] by (simp add: is_input_reg_def)
  have ok: "query_ok db q k t0" if "slots db (q, k) = Some t0" for t0 by (rule wf_dbD(3) [OF wf that ni])
  have same: "alike (validators db) q v (sl_value t0)" if "slots db (q, k) = Some t0" reused for t0
    using reused [OF that(2)] that(1) ok [OF that(1)] reg by (auto simp: query_ok_def alike_def)
  then have step: "slot_step (alike (validators db) q) (rev_no db) t0 t" if "slots db (q, k) = Some t0" for t0
    using that old [OF that] by (simp add: slot_step_def t_def)
  note le = store_le [where t = t, OF ni step]
  have "computedAt t \<le> rev_no db" using reused ok by (fastforce simp: t_def query_ok_def)
  then have "query_ok (db\<lparr>slots := (slots db)((q, k) \<mapsto> t)\<rparr>) q k t"
    using reg tr ev dep_ok_le [OF le] db_le_inputs [OF le] unfolding query_ok_def
    by (intro conjI exI [of _ fn] exI [of _ h] exI [of _ tr]) (auto simp: t_def)
  then show ?thesis using wf_store [where t = t, OF wf ni step] le by blast
qed

text \<open>Confirming a slot without running its body.\<close>

lemma store_touch:
  assumes wf: "wf_db db" and reg: "\<not> isInput db q" and t: "slots db (q, k) = Some t" "verifiedAt t < rev_no db"
    and ev: "eval_in db i q k = Some v" "alike (validators db) q (sl_value t) v"
  defines "t' \<equiv> t\<lparr>verifiedAt := rev_no db\<rparr>"
  shows "wf_db (db\<lparr>slots := (slots db)((q, k) \<mapsto> t')\<rparr>) \<and> db_le db (db\<lparr>slots := (slots db)((q, k) \<mapsto> t')\<rparr>)"
proof -
  have step: "slot_step (alike (validators db) q) (rev_no db) t0 t'" if "slots db (q, k) = Some t0" for t0
    using that t by (simp add: slot_step_def t'_def)
  have le: "db_le db (db\<lparr>slots := (slots db)((q, k) \<mapsto> t')\<rparr>)" by (rule store_le [OF reg step])
  have ok: "query_ok db q k t" by (rule wf_dbD(3) [OF wf t(1) reg])
  have "query_ok (db\<lparr>slots := (slots db)((q, k) \<mapsto> t')\<rparr>) q k t'"
    using query_ok_le [OF le ok] ev db_le_inputs [OF le] t(2) by (fastforce simp: query_ok_def t'_def)
  then show ?thesis using wf_store [where t = t', OF wf reg step] le by blast
qed

locale engine_level =
  fixes vr :: "nat \<Rightarrow> 'k \<Rightarrow> ('k, 'v, ('k, 'v) slot) qact" and n :: nat
  assumes call: "wf_db db \<Longrightarrow> hash_respecting (validators db) \<Longrightarrow> eval_in db n q k = Some v \<Longrightarrow>
    stack_above (depth_in db q k) db \<Longrightarrow> answers db q k v (vr q k db)"
begin

lemma call_below:
  assumes "wf_db db" "hash_respecting (validators db)" "eval_in db m q k = Some v" "m \<le> n" "stack_above m db"
  obtains s db' where "vr q k db = Inr (s, db')" "advances m db db'" "stack db' = stack db"
    "slots db' (q, k) = Some s" "alike (validators db) q (sl_value s) v"
proof -
  have d: "depth_in db q k \<le> m" by (rule depth_le [OF assms(3)])
  have "answers db q k v (vr q k db)"
    by (rule call [OF assms(1,2) eval_mono [OF assms(3,4)] stack_above_le [OF assms(5) d]])
  then obtain s db' where "vr q k db = Inr (s, db')" "advances (depth_in db q k) db db'" "stack db' = stack db"
      "slots db' (q, k) = Some s" "alike (validators db) q (sl_value s) v"
    unfolding answers_def by blast
  then show thesis using that d by (auto simp: advances_def)
qed

text \<open>Validating a recorded read: if the slot does not look newer, the recorded answer is alike the
  current one.\<close>

lemma validate_fetch:
  assumes "wf_db db" "hash_respecting (validators db)" "read_in db m (dp_qid d) (dp_key d) = Some u'" "m \<le> n" "stack_above m db"
    "dep_ok db d (Val u)"
  obtains s db' where "validateDepLocked vr d db = Inr (Some s, db')" "advances m db db'" "stack db' = stack db"
    "computedAt s \<le> changedAt d \<longrightarrow> alike (validators db) (dp_qid d) u u'"
proof (cases "isInput db (dp_qid d)")
  case True
  then obtain h where h: "validators db (dp_qid d) = Some (InputOf h)"
    using assms(1) by (rule wf_input_reg)
  then obtain t where "slots db (dp_qid d, dp_key d) = Some t" "sl_value t = u'"
    using assms(3) True by (auto simp: is_input_reg_def inputs_of_def)
  then show thesis using that [of t db] h assms(1,6)
    by (simp add: validateDepLocked_def advances_refl dep_ok_def alike_sym)
next
  case False
  then have e: "eval_in db m (dp_qid d) (dp_key d) = Some u'" using assms(3) wf_dbD(1) [OF assms(1)] by simp
  then obtain fn h where fn: "validators db (dp_qid d) = Some (QueryOf fn h)" using depth_level by metis
  obtain s db1 where s: "vr (dp_qid d) (dp_key d) db = Inr (s, db1)" "advances m db db1" "stack db1 = stack db"
      "slots db1 (dp_qid d, dp_key d) = Some s" "alike (validators db) (dp_qid d) (sl_value s) u'"
    by (rule call_below [OF assms(1,2) e assms(4,5)])
  have "dep_ok db1 d (Val u)" using s(2) assms(6) dep_ok_le unfolding advances_def by blast
  then show thesis using that [of s db1] s fn advances_same(1) [OF s(2)]
    by (simp add: validateDepLocked_def dep_ok_def) (metis alike_sym alike_trans)
qed

lemma validate_present:
  assumes "wf_db db" "dep_ok db d (Present h)"
  shows "validateDepLocked vr d db = Inr (slots db (dp_qid d, dp_key d), db)"
    "case slots db (dp_qid d, dp_key d) of None \<Rightarrow> changedAt d = 0 \<longrightarrow> \<not> h | Some t \<Rightarrow> computedAt t \<le> changedAt d \<longrightarrow> h"
proof -
  have inp: "isInput db (dp_qid d)" "h \<longleftrightarrow> changedAt d \<noteq> 0" using assms(2) by (auto simp: dep_ok_def)
  then obtain hf where "validators db (dp_qid d) = Some (InputOf hf)" using assms(1) wf_input_reg by metis
  then show "validateDepLocked vr d db = Inr (slots db (dp_qid d, dp_key d), db)" by (simp add: validateDepLocked_def)
  show "case slots db (dp_qid d, dp_key d) of None \<Rightarrow> changedAt d = 0 \<longrightarrow> \<not> h | Some t \<Rightarrow> computedAt t \<le> changedAt d \<longrightarrow> h"
    using wf_dbD(2) [OF assms(1) _ inp(1)] inp(2) by (fastforce simp: input_ok_def split: option.splits)
qed

lemma walk_deps_ok:
  assumes "wf_db db" "hash_respecting (validators db)" "body_in db m b' = Some v" "m \<le> n" "stack_above m db"
    "replay b tr w" "\<forall>x \<in> set tr. dep_ok db (fst x) (snd x)" "like_body (validators db) P b b'"
  shows "\<exists>stale db'. walk_deps vr (map fst tr) db = Inr (stale, db') \<and> advances m db db' \<and> stack db' = stack db \<and>
    (\<not> stale \<longrightarrow> P w v)"
  using assms
proof (induction b arbitrary: b' db tr)
  case (Return x)
  then obtain y where "b' = Return y" "P x y" by auto
  then show ?case using Return.prems(1,3,6) by (auto simp: advances_refl)
next
  case (Fetch q k f)
  obtain d u tr' where tr: "tr = (d, Val u) # tr'" and d: "dp_qid d = q" "dp_key d = k" and rp: "replay (f u) tr' w"
    using Fetch.prems(6) by (auto split: list.splits prod.splits answer.splits)
  obtain g where g: "b' = Fetch q k g" "\<And>u w. alike (validators db) q u w \<Longrightarrow> like_body (validators db) P (f u) (g w)"
    using Fetch.prems(8) by auto
  obtain u' where u': "read_in db m q k = Some u'" "body_in db m (g u') = Some v"
    using Fetch.prems(3) g(1) by (auto split: option.splits)
  have dok: "dep_ok db d (Val u)" using Fetch.prems(7) tr by simp
  obtain s db1 where s: "validateDepLocked vr d db = Inr (Some s, db1)" "advances m db db1" "stack db1 = stack db"
      "computedAt s \<le> changedAt d \<longrightarrow> alike (validators db) (dp_qid d) u u'"
    by (rule validate_fetch [OF Fetch.prems(1,2) u'(1) [folded d] Fetch.prems(4,5) dok])
  have 1: "wf_db db1" "hash_respecting (validators db1)" "body_in db1 m (g u') = Some v" "stack_above m db1"
      "\<forall>x \<in> set tr'. dep_ok db1 (fst x) (snd x)"
    using s(2,3) u'(2) Fetch.prems(2,7) tr advances_dep [OF s(2)] advances_same [OF s(2)] stack_above_frames [OF Fetch.prems(5) s(2)]
    by (simp_all add: advances_def)
  show ?case
  proof (cases "computedAt s \<le> changedAt d")
    case True
    then have "like_body (validators db1) P (f u) (g u')" using s(4) g(2) d(1) advances_same(1) [OF s(2)] by simp
    then have "\<exists>stale db'. walk_deps vr (map fst tr') db1 = Inr (stale, db') \<and> advances m db1 db' \<and> stack db' = stack db1 \<and>
        (\<not> stale \<longrightarrow> P w v)"
      using Fetch.IH [OF rangeI 1(1-3) Fetch.prems(4) 1(4) rp 1(5)] by blast
    then show ?thesis using True tr s(1,3) advances_trans [OF s(2)] by fastforce
  next
    case False
    then show ?thesis using tr s by auto
  qed
next
  case (HasFetch q k f)
  obtain d h tr' where tr: "tr = (d, Present h) # tr'" and d: "dp_qid d = q" "dp_key d = k" and rp: "replay (f h) tr' w"
    using HasFetch.prems(6) by (auto split: list.splits prod.splits answer.splits)
  obtain g where g: "b' = HasFetch q k g" "\<And>h. like_body (validators db) P (f h) (g h)" using HasFetch.prems(8) by auto
  have dok: "dep_ok db d (Present h)" using HasFetch.prems(7) tr by simp
  have b: "body_in db m (g (slots db (q, k) \<noteq> None)) = Some v"
    using body_present [OF HasFetch.prems(1)] HasFetch.prems(3) g(1) by blast+
  show ?case
    using validate_present [OF HasFetch.prems(1) dok] tr d b rp HasFetch.IH [of "f h" db "g h" tr'] HasFetch.prems(1,2,4,5,7) g(2) [of h]
    by (auto simp: advances_refl split: option.splits)
qed

text \<open>Running a body: the value is alike the one computed from scratch, and the reads go to the frame on
  top of the stack.\<close>

lemma fetch_ok:
  assumes "wf_db db" "hash_respecting (validators db)" "read_in db m q k = Some u" "m \<le> n" "stack_above m db" "stack db = f # fs"
  obtains d u' db' where "fetch vr q k db = Inr (u', db')" "advances m db db'" "dp_qid d = q" "dp_key d = k"
    "stack db' = f\<lparr>fm_deps := fm_deps f @ [d]\<rparr> # fs" "dep_ok db' d (Val u')" "alike (validators db) q u' u"
proof (cases "isInput db q")
  case True
  then obtain h where h: "validators db q = Some (InputOf h)"
    using assms(1) by (rule wf_input_reg)
  then obtain t where t: "slots db (q, k) = Some t" "sl_value t = u"
    using assms(3) True by (auto simp: is_input_reg_def inputs_of_def)
  let ?d = "\<lparr>dp_qid = q, dp_key = k, changedAt = computedAt t\<rparr>"
  have "dep_ok db ?d (Val u)" using True t wf_dbD(2) [OF assms(1)] by (auto simp: dep_ok_def input_ok_def)
  then show thesis using that [of u "count_hit (record_dep ?d db)" ?d] h t assms(1,6)
    by (simp add: fetch_def Input_getLocked_def advances_refl) (simp add: record_dep_def)
next
  case False
  then have e: "eval_in db m q k = Some u" using assms(3) wf_dbD(1) [OF assms(1)] by simp
  then obtain fn h where fn: "validators db q = Some (QueryOf fn h)" using depth_level by metis
  obtain s db1 where s: "vr q k db = Inr (s, db1)" "advances m db db1" "stack db1 = stack db"
      "slots db1 (q, k) = Some s" "alike (validators db) q (sl_value s) u"
    by (rule call_below [OF assms(1,2) e assms(4,5)])
  have "checkCycle q k db = None"
    by (rule stack_above_no_cycle [OF stack_above_le [OF assms(5) depth_le [OF e]]])
  moreover have "query_ok db1 q k s"
    by (rule wf_dbD(3)) (use s False advances_same [OF s(2)] in \<open>auto simp: advances_def\<close>)
  ultimately show thesis
    using that [of "sl_value s" "record_dep \<lparr>dp_qid = q, dp_key = k, changedAt = computedAt s\<rparr> db1"
        "\<lparr>dp_qid = q, dp_key = k, changedAt = computedAt s\<rparr>"]
      fn s False assms(6) advances_same [OF s(2)]
    by (simp add: fetch_def getLocked_def dep_ok_def query_ok_def) (simp add: record_dep_def)
qed

lemma run_body_ok:
  assumes "wf_db db" "hash_respecting (validators db)" "body_in db m b' = Some v" "m \<le> n" "stack_above m db" "stack db = f # fs"
    "like_body (validators db) P b b'"
  shows "\<exists>db' tr w. run_body vr b db = Inr (w, db') \<and> advances m db db' \<and> P w v \<and>
    stack db' = f\<lparr>fm_deps := fm_deps f @ map fst tr\<rparr> # fs \<and> replay b tr w \<and> (\<forall>x \<in> set tr. dep_ok db' (fst x) (snd x))"
  using assms
proof (induction b arbitrary: b' db f)
  case (Return x)
  then show ?case by (auto simp: advances_refl intro!: exI [of _ "[]"])
next
  case (Fetch q k c)
  obtain g where g: "b' = Fetch q k g" "\<And>u w. alike (validators db) q u w \<Longrightarrow> like_body (validators db) P (c u) (g w)"
    using Fetch.prems(7) by auto
  obtain u where u: "read_in db m q k = Some u" "body_in db m (g u) = Some v"
    using Fetch.prems(3) g(1) by (auto split: option.splits)
  obtain d u' db1 where s: "fetch vr q k db = Inr (u', db1)" "advances m db db1" "dp_qid d = q" "dp_key d = k"
      "stack db1 = f\<lparr>fm_deps := fm_deps f @ [d]\<rparr> # fs" "dep_ok db1 d (Val u')" "alike (validators db) q u' u"
    by (rule fetch_ok [OF Fetch.prems(1,2) u(1) Fetch.prems(4,5,6)])
  have 1: "wf_db db1" "hash_respecting (validators db1)" "body_in db1 m (g u) = Some v" "stack_above m db1"
      "like_body (validators db1) P (c u') (g u)"
    using s(2,5) u(2) Fetch.prems(2,6) g(2) [OF s(7)] advances_same [OF s(2)] stack_above_frames [OF Fetch.prems(5) s(2)]
    by (simp_all add: advances_def)
  obtain db' tr w where r: "run_body vr (c u') db1 = Inr (w, db')" "advances m db1 db'" "P w v"
      "stack db' = f\<lparr>fm_deps := fm_deps f @ d # map fst tr\<rparr> # fs" "replay (c u') tr w" "\<forall>x \<in> set tr. dep_ok db' (fst x) (snd x)"
    using Fetch.IH [OF rangeI 1(1-3) Fetch.prems(4) 1(4) s(5) 1(5)] by auto
  show ?case
    using s r advances_trans [OF s(2) r(2)] advances_dep [OF r(2) s(6)]
    by (intro exI [of _ db'] exI [of _ "(d, Val u') # tr"] exI [of _ w]) simp
next
  case (HasFetch q k c)
  obtain g where g: "b' = HasFetch q k g" "\<And>h. like_body (validators db) P (c h) (g h)" using HasFetch.prems(7) by auto
  have inp: "isInput db q" "body_in db m (g (slots db (q, k) \<noteq> None)) = Some v"
    using body_present [OF HasFetch.prems(1)] HasFetch.prems(3) g(1) by blast+
  let ?h = "slots db (q, k) \<noteq> None"
  let ?d = "\<lparr>dp_qid = q, dp_key = k, changedAt = (case slots db (q, k) of None \<Rightarrow> 0 | Some s \<Rightarrow> computedAt s)\<rparr>"
  let ?db = "record_dep ?d db"
  have st: "stack ?db = f\<lparr>fm_deps := fm_deps f @ [?d]\<rparr> # fs" using HasFetch.prems(6) by (simp add: record_dep_def)
  have d: "dep_ok db ?d (Present ?h)"
    using inp(1) wf_dbD(2) [OF HasFetch.prems(1) _ inp(1)] by (fastforce simp: dep_ok_def input_ok_def split: option.splits)
  have adv: "advances m db ?db" using HasFetch.prems(1) by (simp add: advances_refl)
  have 1: "stack_above m ?db" "body_in ?db m (g ?h) = Some v" "like_body (validators ?db) P (c ?h) (g ?h)"
    using st HasFetch.prems(6) stack_above_frames [OF HasFetch.prems(5) adv] inp(2) g(2) by simp_all
  obtain db' tr w where r: "run_body vr (c ?h) ?db = Inr (w, db')" "advances m ?db db'" "P w v"
      "stack db' = f\<lparr>fm_deps := fm_deps f @ ?d # map fst tr\<rparr> # fs" "replay (c ?h) tr w" "\<forall>x \<in> set tr. dep_ok db' (fst x) (snd x)"
    using HasFetch.IH [OF rangeI _ _ 1(2) HasFetch.prems(4) 1(1) st 1(3)] HasFetch.prems(1,2) by auto
  show ?case
    using r advances_dep [OF r(2)] d
    by (intro exI [of _ db'] exI [of _ "(?d, Present ?h) # tr"] exI [of _ w]) (simp add: Input_HasFetch_def)
qed

lemma run_ok:
  assumes wf: "wf_db db" and fa: "hash_respecting (validators db)" and reg: "validators db q = Some (QueryOf fn h)"
    and b: "body_in db m (fn k) = Some v" "m \<le> n" "depth_in db q k = Suc m" and st: "stack_above (Suc m) db"
    and old: "\<And>t. slots db (q, k) = Some t \<Longrightarrow> verifiedAt t < rev_no db"
  shows "answers db q k v (runAndStoreLocked vr q k (slots db (q, k)) db)"
proof -
  let ?f = "\<lparr>fm_qid = q, fm_key = k, fm_deps = []\<rparr>"
  let ?p = "pushFrame ?f db"
  have p: "wf_db ?p" "hash_respecting (validators ?p)" "body_in ?p m (fn k) = Some v" "stack_above m ?p" "stack ?p = ?f # stack db"
      "like_body (validators ?p) (alike (validators db) q) (fn k) (fn k)"
    using wf fa b st hash_respectingD [OF fa reg] by (auto simp: pushFrame_def stack_above_def)
  obtain db1 tr w where r: "run_body vr (fn k) ?p = Inr (w, db1)" "advances m ?p db1" "stack db1 = ?f\<lparr>fm_deps := map fst tr\<rparr> # stack db"
      "replay (fn k) tr w" "\<forall>x \<in> set tr. dep_ok db1 (fst x) (snd x)" "alike (validators db) q w v"
    using run_body_ok [OF p(1-3) b(2) p(4-6)] by auto
  have adv: "advances m db db1" using r(2) by (simp add: pushFrame_def)
  note same = advances_same [OF adv]
  have s1: "slots db1 (q, k) = slots db (q, k)" using adv b(3) by (simp add: advances_def)
  have ni: "\<not> isInput db q" using reg wf_dbD(1) [OF wf, of q] by (simp add: is_input_reg_def)
  have ev: "eval_in db1 (Suc m) q k = Some v" using reg b(1) same by simp
  define reused where "reused \<longleftrightarrow> (case slots db (q, k) of None \<Rightarrow> False
    | Some t \<Rightarrow> map_option (\<lambda>h. h w) h \<noteq> None \<and> outputHash t = map_option (\<lambda>h. h w) h)"
  define ns where "ns = \<lparr>sl_value = w, outputHash = map_option (\<lambda>h. h w) h,
      computedAt = (if reused then computedAt (the (slots db1 (q, k))) else rev_no db1), verifiedAt = rev_no db1, sl_deps = map fst tr\<rparr>"
  let ?db2 = "db1\<lparr>slots := (slots db1)((q, k) \<mapsto> ns)\<rparr>"
  have 2: "wf_db ?db2 \<and> db_le db1 ?db2" unfolding ns_def
    by (rule store_run [where fn = fn and h = h and i = "Suc m" and v' = v])
      (use adv reg r(4-6) ev old same s1 in \<open>auto simp: advances_def reused_def split: option.splits\<close>)
  then have "advances (Suc m) db1 ?db2" using b(3) same by (auto simp: advances_def)
  then have adv2: "advances (Suc m) db ?db2" using advances_trans [OF adv] by simp
  have "runAndStoreLocked vr q k (slots db (q, k)) db = Inr (ns, (?db2\<lparr>stack := stack db\<rparr>)
      \<lparr>metrics := count_run (slots db (q, k) = None) reused (metrics db1)\<rparr>)"
    using ni reg r(1,3) s1 by (simp add: runAndStoreLocked_def Let_def ns_def reused_def)
  then show ?thesis using adv2 b(3) same r(6) by (simp add: answers_def ns_def advances_def)
qed

text \<open>A slot of an earlier revision: walk its dependencies, then confirm it or run the body.\<close>

lemma revalidate_ok:
  assumes wf: "wf_db db" and fa: "hash_respecting (validators db)" and reg: "validators db q = Some (QueryOf fn h)"
    and b: "body_in db m (fn k) = Some v" "m \<le> n" "depth_in db q k = Suc m" and st: "stack_above (Suc m) db"
    and t: "slots db (q, k) = Some t" "verifiedAt t < rev_no db"
  shows "answers db q k v (bindQ (walk_deps vr (sl_deps t) db) (\<lambda>stale db1.
    if \<not> stale then Inr (t\<lparr>verifiedAt := rev_no db1\<rparr>, count_hit (touch_slot (q, k) t db1))
    else runAndStoreLocked vr q k (Some t) db1))" (is "answers db q k v ?r")
proof -
  have ni: "\<not> isInput db q" using reg wf_dbD(1) [OF wf, of q] by (simp add: is_input_reg_def)
  obtain tr where tr: "sl_deps t = map fst tr" "replay (fn k) tr (sl_value t)" "\<forall>x \<in> set tr. dep_ok db (fst x) (snd x)"
    using wf_dbD(3) [OF wf t(1) ni] reg by (auto simp: query_ok_def)
  have sm: "stack_above m db" by (rule stack_above_le [OF st]) simp
  obtain stale db1 where w: "walk_deps vr (sl_deps t) db = Inr (stale, db1)" "advances m db db1"
      "stack db1 = stack db" "\<not> stale \<longrightarrow> alike (validators db) q (sl_value t) v"
    using walk_deps_ok [OF wf fa b(1,2) sm tr(2,3) hash_respectingD [OF fa reg]] tr(1) by auto
  note same = advances_same [OF w(2)]
  have s1: "slots db1 (q, k) = Some t" "wf_db db1" using w(2) b(3) t(1) by (simp_all add: advances_def)
  have "answers db1 q k v ?r"
  proof (cases stale)
    case True
    have "answers db1 q k v (runAndStoreLocked vr q k (slots db1 (q, k)) db1)"
      by (rule run_ok [OF s1(2) _ _ _ b(2) _ stack_above_frames [OF st w(2)]]) (use fa reg b t(2) same s1(1) w(3) in auto)
    then show ?thesis using w(1) True s1(1) by simp
  next
    case False
    have ev: "eval_in db (Suc m) q k = Some v" using reg b(1) by simp
    have "advances (Suc m) db1 (touch_slot (q, k) t db1)"
      using store_touch [OF s1(2) _ s1(1), of "Suc m" v] ni t(2) same ev w(4) False s1(1) b(3)
      by (auto simp: touch_slot_def advances_def)
    then show ?thesis using w False s1(1) same b(3) by (simp add: answers_def) (simp add: touch_slot_def)
  qed
  then show ?thesis
    using advances_trans [OF w(2), of "depth_in db q k" _ "depth_in db q k"] w(3) same b(3) by (fastforce simp: answers_def)
qed

end

text \<open>With fuel for one more level, the engine keeps the same promise one level up.\<close>

lemma engine_level_Suc:
  assumes "engine_level (validateOrRunLocked n :: nat \<Rightarrow> 'k \<Rightarrow> ('k, 'v, ('k, 'v) slot) qact) n"
  shows "engine_level (validateOrRunLocked (Suc n) :: nat \<Rightarrow> 'k \<Rightarrow> ('k, 'v, ('k, 'v) slot) qact) (Suc n)"
proof (rule engine_level.intro)
  fix db :: "('k, 'v) Database" and q k v
  assume wf: "wf_db db" and fa: "hash_respecting (validators db)" and ev: "eval_in db (Suc n) q k = Some v"
    and st: "stack_above (depth_in db q k) db"
  obtain m fn h where m: "depth_in db q k = Suc m" "m < Suc n" and reg: "validators db q = Some (QueryOf fn h)"
      and b: "body_in db m (fn k) = Some v"
    by (rule depth_level [OF ev])
  have ni: "\<not> isInput db q" using reg wf_dbD(1) [OF wf, of q] by (simp add: is_input_reg_def)
  have mn: "m \<le> n" and st': "stack_above (Suc m) db" using m st by simp_all
  show "answers db q k v (validateOrRunLocked (Suc n) q k db)"
  proof (cases "slots db (q, k)")
    case None
    then show ?thesis using engine_level.run_ok [OF assms wf fa reg b mn m(1) st'] by simp
  next
    case (Some t)
    then have t: "query_ok db q k t" using wf_dbD(3) [OF wf] ni by blast
    show ?thesis
    proof (cases "verifiedAt t = rev_no db")
      case True
      then have "alike (validators db) q (sl_value t) v" using t ev eval_det unfolding query_ok_def by metis
      then show ?thesis using Some True wf by (simp add: answers_def advances_refl)
    next
      case False
      then have "verifiedAt t < rev_no db" using t by (simp add: query_ok_def)
      then show ?thesis using engine_level.revalidate_ok [OF assms wf fa reg b mn m(1) st' Some] Some False by simp
    qed
  qed
qed

interpretation engine: engine_level "validateOrRunLocked n" n for n
proof (induction n)
  case 0
  show ?case by unfold_locales simp
next
  case (Suc n)
  then show ?case by (rule engine_level_Suc)
qed

section \<open>Sessions\<close>

lemma Get_ok:
  assumes "wf_db db" "hash_respecting (validators db)" "stack db = []" "eval_in db n q k = Some v"
  shows "\<exists>db' s. Query_Get n q k db = Inr (sl_value s, db') \<and> wf_db db' \<and> db_le db db' \<and> stack db' = [] \<and>
    slots db' (q, k) = Some s \<and> verifiedAt s = rev_no db \<and> alike (validators db) q (sl_value s) v"
proof -
  have "answers db q k v (validateOrRunLocked n q k db)"
    by (rule engine.call [OF assms(1,2,4)]) (simp add: stack_above_def assms(3))
  then show ?thesis using assms(3)
    by (auto simp: answers_def advances_def Query_Get_def getLocked_def checkCycle_def record_dep_def)
qed

text \<open>An edit of an input opens a new revision: nothing is verified in it yet, and no recorded read of
  the edited input looks current any more.\<close>

lemma wf_edit:
  assumes wf: "wf_db db" and inp: "isInput db q" and rev: "rev_no db' = Suc (rev_no db)"
    and same: "validators db' = validators db" "isInput db' = isInput db" "\<And>p. p \<noteq> (q, k) \<Longrightarrow> slots db' p = slots db p"
    and new: "\<And>t. slots db' (q, k) = Some t \<Longrightarrow> computedAt t = Suc (rev_no db) \<and>
      (\<exists>h. validators db q = Some (InputOf h) \<and> outputHash t = Some (h (sl_value t)))"
  shows "wf_db db'"
proof (rule wf_dbI)
  have dep: "dep_ok db' d a" if "dep_ok db d a" for d a
    using that new rev same inp by (cases "(dp_qid d, dp_key d) = (q, k)"; cases a) (auto simp: dep_ok_def split: if_splits)
  show "query_ok db' q' k' t" if "slots db' (q', k') = Some t" "\<not> isInput db' q'" for q' k' t
  proof -
    have "slots db (q', k') = Some t" using that same inp by (cases "(q', k') = (q, k)") auto
    then have ok: "query_ok db q' k' t" using wf_dbD(3) [OF wf] that same by simp
    then obtain fn h tr where "validators db q' = Some (QueryOf fn h)" "outputHash t = map_option (\<lambda>h. h (sl_value t)) h"
        "sl_deps t = map fst tr" "replay (fn k') tr (sl_value t)" "\<forall>x \<in> set tr. dep_ok db (fst x) (snd x)"
      by (auto simp: query_ok_def)
    then show ?thesis using dep rev same(1) ok unfolding query_ok_def
      by (intro conjI exI [of _ fn] exI [of _ h] exI [of _ tr]) auto
  qed
  show "input_ok db' q' t" if "slots db' (q', k') = Some t" "isInput db' q'" for q' k' t
  proof (cases "(q', k') = (q, k)")
    case True
    then show ?thesis using new that same rev by (auto simp: input_ok_def)
  next
    case False
    then show ?thesis using that same rev wf_dbD(2) [OF wf, of q' k' t] by (auto simp: input_ok_def)
  qed
qed (use wf_dbD(1) [OF wf] same in auto)

lemma Set_ok:
  assumes "wf_db db" "Input_Set q k v db = Inr (u, db')"
  shows "wf_db db' \<and> validators db' = validators db \<and> stack db' = stack db"
proof -
  obtain h where h: "validators db q = Some (InputOf h)"
    using assms(2) by (auto simp: Input_Set_def split: option.splits validator.splits)
  then have i: "isInput db q" using wf_dbD(1) [OF assms(1), of q] by (simp add: is_input_reg_def)
  show ?thesis
  proof (cases "db' = db")
    case False
    then have d: "db' = db\<lparr>rev_no := rev_no db + 1, slots := (slots db)((q, k) \<mapsto> input_slot v (h v) (rev_no db + 1)),
        metrics := (metrics db)\<lparr>inputSet := inputSet (metrics db) + 1\<rparr>\<rparr>"
      using assms(2) h by (auto simp: Input_Set_def Let_def split: if_splits)
    have "wf_db db'" by (rule wf_edit [OF assms(1) i, where k = k]) (auto simp: d h input_slot_def)
    then show ?thesis by (simp add: d)
  qed (use assms in simp)
qed

lemma Clear_ok:
  assumes "wf_db db" "isInput db q"
  shows "wf_db (Input_Clear q k db) \<and> validators (Input_Clear q k db) = validators db \<and> stack (Input_Clear q k db) = stack db"
proof -
  have "wf_db (Input_Clear q k db)" if "slots db (q, k) \<noteq> None"
    by (rule wf_edit [OF assms, where k = k]) (use that in \<open>auto simp: Input_Clear_def\<close>)
  then show ?thesis using assms(1) by (auto simp: Input_Clear_def)
qed

text \<open>Registration comes first; then edits and reads in any order. \<open>session I db\<close>: the database \<open>db\<close> is reached so, and \<open>I\<close> holds what
  the edits have set. A read asks for a query that can be evaluated on these inputs. Hash functions may have collisions, as those of
  \<^verbatim>\<open>src/internal/query/osty/hash.go\<close> have (slices are sorted before hashing), as long as the bodies respect them.\<close>

inductive configured :: "('k, 'v) Database \<Rightarrow> bool" where
  new: "configured NewDatabase"
| query: "configured db \<Longrightarrow> configured (snd (Register name fn h db))"
| input: "configured db \<Longrightarrow> RegisterInput name h db = Inr (i, db') \<Longrightarrow> configured db'"

inductive session :: "('k, 'v) inputs \<Rightarrow> ('k, 'v) Database \<Rightarrow> bool" where
  start: "configured db \<Longrightarrow> hash_respecting (validators db) \<Longrightarrow> session (\<lambda>_ _. None) db"
| set: "session I db \<Longrightarrow> Input_Set q k v db = Inr (u, db') \<Longrightarrow> session (I(q := (I q)(k \<mapsto> v))) db'"
| clear: "session I db \<Longrightarrow> isInput db q \<Longrightarrow> session (I(q := (I q)(k := None))) (Input_Clear q k db)"
| get_input: "session I db \<Longrightarrow> isInput db q \<Longrightarrow> Input_getLocked q k db = Inr (v, db') \<Longrightarrow> session I db'"
| get: "session I db \<Longrightarrow> eval (validators db) I n q k = Some w \<Longrightarrow> Query_Get n q k db = Inr (v, db') \<Longrightarrow> session I db'"

lemma configured_ok: "configured db \<Longrightarrow> slots db = Map.empty \<and> stack db = [] \<and> wf_db db"
proof (induction rule: configured.induct)
  case new
  show ?case by (auto simp: NewDatabase_def wf_db_def is_input_reg_def)
next
  case (query db name fn h)
  then show ?case by (auto simp: Register_def allocID_def Let_def wf_db_def is_input_reg_def)
next
  case (input db name h i db')
  then show ?case
    by (cases h) (auto simp: RegisterInput_def allocID_def Let_def wf_db_def is_input_reg_def split: if_splits)
qed

text \<open>The inputs that the database holds are alike those that were set.\<close>

definition holds_inputs :: "('k, 'v) inputs \<Rightarrow> ('k, 'v) Database \<Rightarrow> bool" where
  "holds_inputs I db \<longleftrightarrow> (\<forall>q k. rel_option (alike (validators db) q) (I q k) (inputs_of db q k))"

lemma Set_inputs:
  assumes "wf_db db" "validators db q = Some (InputOf h)" "Input_Set q k v db = Inr (u, db')"
  obtains w where "inputs_of db' = (inputs_of db)(q := (inputs_of db q)(k \<mapsto> w))" "alike (validators db) q v w"
    "if \<exists>o'. inputs_of db q k = Some o' \<and> alike (validators db) q o' v then db' = db else w = v \<and> rev_no db' = rev_no db + 1"
    "Input_Set q k v db' = Inr ((), db')" "validators db' = validators db"
proof (cases "\<exists>t. slots db (q, k) = Some t \<and> outputHash t = Some (h v)")
  case True
  then obtain t where t: "slots db (q, k) = Some t" "outputHash t = Some (h v)" by blast
  have i: "isInput db q" using assms(2) wf_dbD(1) [OF assms(1), of q] by (simp add: is_input_reg_def)
  have "h (sl_value t) = h v" using wf_dbD(2) [OF assms(1) t(1) i] t(2) assms(2) by (auto simp: input_ok_def)
  moreover have "db' = db" using assms(2,3) t by (simp add: Input_Set_def Let_def)
  ultimately have same: "db' = db" "alike (validators db) q v (sl_value t)" "alike (validators db) q (sl_value t) v"
    using assms(2) by (simp_all add: alike_def)
  have held: "inputs_of db q k = Some (sl_value t)" using t(1) i by (simp add: inputs_of_def)
  then have "inputs_of db' = (inputs_of db)(q := (inputs_of db q)(k \<mapsto> sl_value t))" using same(1) by (auto simp: fun_eq_iff)
  from that [OF this same(2) _ _ arg_cong [OF same(1)]] show thesis using assms(3) same(1,3) held by auto
next
  case False
  have i: "isInput db q" using assms(2) wf_dbD(1) [OF assms(1), of q] by (simp add: is_input_reg_def)
  have new: "\<not> (\<exists>o'. inputs_of db q k = Some o' \<and> alike (validators db) q o' v)"
    using False wf_dbD(2) [OF assms(1) _ i] assms(2) by (fastforce simp: inputs_of_def i alike_def input_ok_def)
  have d: "db' = db\<lparr>rev_no := rev_no db + 1, slots := (slots db)((q, k) \<mapsto> input_slot v (h v) (rev_no db + 1)),
      metrics := (metrics db)\<lparr>inputSet := inputSet (metrics db) + 1\<rparr>\<rparr>"
    using assms(2,3) False by (auto simp: Input_Set_def Let_def split: if_splits option.splits)
  have inp: "inputs_of db' = (inputs_of db)(q := (inputs_of db q)(k \<mapsto> v))"
    using i by (auto simp: d inputs_of_def input_slot_def fun_eq_iff)
  have again: "Input_Set q k v db' = Inr ((), db')" using assms(2) by (simp add: d Input_Set_def input_slot_def)
  have "rev_no db' = rev_no db + 1" "validators db' = validators db" by (simp_all add: d)
  then show thesis using that [OF inp alike_refl _ again] new by simp
qed

lemma holds_Clear: "holds_inputs I db \<Longrightarrow> isInput db q \<Longrightarrow> holds_inputs (I(q := (I q)(k := None))) (Input_Clear q k db)"
proof -
  assume "holds_inputs I db" "isInput db q"
  moreover have "inputs_of (Input_Clear q k db) = (inputs_of db)(q := (inputs_of db q)(k := None))"
    "validators (Input_Clear q k db) = validators db"
    by (auto simp: Input_Clear_def inputs_of_def fun_eq_iff)
  ultimately show ?thesis by (simp add: holds_inputs_def)
qed

lemma session_ok: "session I db \<Longrightarrow> wf_db db \<and> stack db = [] \<and> hash_respecting (validators db) \<and> holds_inputs I db"
proof (induction rule: session.induct)
  case (start db)
  then show ?case using configured_ok by (fastforce simp: holds_inputs_def inputs_of_def)
next
  case (set I db q k v u db')
  obtain h where h: "validators db q = Some (InputOf h)"
    using set.hyps(2) by (auto simp: Input_Set_def split: option.splits validator.splits)
  obtain w where "inputs_of db' = (inputs_of db)(q := (inputs_of db q)(k \<mapsto> w))" "alike (validators db) q v w"
      "validators db' = validators db"
    using Set_inputs [OF _ h set.hyps(2)] set.IH by metis
  then show ?case using Set_ok [OF _ set.hyps(2)] set.IH by (auto simp: holds_inputs_def)
next
  case (clear I db q k)
  then show ?case using Clear_ok [of db q k] holds_Clear [of I db q k] by metis
next
  case (get_input I db q k v db')
  then show ?case by (auto simp: Input_getLocked_def record_dep_def holds_inputs_def split: option.splits)
next
  case (get I db n q k w v db')
  obtain w' where "eval_in db n q k = Some w'"
    using eval_alike [OF _ _ get.hyps(2)] get.IH unfolding holds_inputs_def by blast
  then have "wf_db db' \<and> db_le db db' \<and> stack db' = []"
    using Get_ok [of db n q k w'] get.IH get.hyps(3) by auto
  then show ?case using get.IH db_le_inputs [of db db'] by (auto simp: db_le_def holds_inputs_def)
qed

text \<open>A read in a session: the slot it leaves holds a value alike the one computed from the inputs that were set.\<close>

lemma session_read:
  assumes "session I db" "eval (validators db) I n q k = Some v"
  obtains db' s where "Query_Get n q k db = Inr (sl_value s, db')" "session I db'" "db_le db db'" "stack db' = []"
    "slots db' (q, k) = Some s" "verifiedAt s = rev_no db" "alike (validators db) q (sl_value s) v"
proof -
  note ok = session_ok [OF assms(1)]
  obtain w where w: "eval_in db n q k = Some w" "alike (validators db) q v w"
    using eval_alike [OF _ _ assms(2)] ok unfolding holds_inputs_def by blast
  obtain db' s where s: "Query_Get n q k db = Inr (sl_value s, db')" "db_le db db'" "stack db' = []" "slots db' (q, k) = Some s"
      "verifiedAt s = rev_no db" "alike (validators db) q (sl_value s) w"
    using Get_ok [OF _ _ _ w(1)] ok by blast
  have "alike (validators db) q (sl_value s) v" using alike_trans [OF s(6) alike_sym [OF w(2)]] .
  then show thesis using that s session.get [OF assms s(1)] by blast
qed

section \<open>Theorems\<close>


definition left_by :: "('k, 'v, 'a) qres \<Rightarrow> ('k, 'v) Database" where
  "left_by r = (case r of Inl e \<Rightarrow> snd e | Inr x \<Rightarrow> snd x)"

text \<open>A small session: the second query doubles what the first one reads, the first byte of the input, whose hash is its first two bytes.
  The second edit keeps the first byte, so the rerun of the first query is cut off; the third edit has the hash of the second, and is dropped.\<close>

definition demo_db :: "(unit, string) Database" where
  "demo_db = snd (Register ''twice'' (\<lambda>k. Fetch 1 k (\<lambda>s. Return (s @ s))) (Some id)
     (snd (Register ''head'' (\<lambda>k. Fetch 0 k (\<lambda>s. Return (take 1 s))) (Some id)
       (left_by (RegisterInput ''text'' (Some (take 2)) NewDatabase)))))"

definition demo_read :: "(unit, string) Database" where
  "demo_read = left_by (Query_Get 2 2 () (left_by (Input_Set 0 () ''ab'' demo_db)))"

definition demo_edited :: "(unit, string) Database" where
  "demo_edited = left_by (Input_Set 0 () ''ac'' demo_read)"

definition demo_inputs :: "string \<Rightarrow> (unit, string) inputs" where
  "demo_inputs s = (\<lambda>q k. if q = 0 then Some s else None)"

lemmas engine_eval = Query_Get_def getLocked_def checkCycle_def runAndStoreLocked_def pushFrame_def fetch_def
  Input_getLocked_def record_dep_def count_hit_def left_by_def Input_Set_def input_slot_def Register_def RegisterInput_def
  allocID_def NewDatabase_def Let_def validateDepLocked_def numeral_2_eq_2 numeral_3_eq_3 is_input_reg_def inputs_of_def

lemma configured_input: "configured db \<Longrightarrow> configured (left_by (RegisterInput name (Some h) db))"
  by (rule configured.input [of db name "Some h" "nextID db"]) (simp_all add: engine_eval)

lemma demo_tables:
  "validators demo_db q = (if q = 0 then Some (InputOf (take 2)) else if q = 1 then Some (QueryOf (\<lambda>k. Fetch 0 k (\<lambda>s. Return (take 1 s))) (Some id))
     else if q = 2 then Some (QueryOf (\<lambda>k. Fetch 1 k (\<lambda>s. Return (s @ s))) (Some id)) else None)"
  by (simp add: demo_db_def engine_eval)

lemma demo_respecting: "hash_respecting (validators demo_db)"
proof -
  have one: "take 1 s = take 1 t" if "take 2 s = take 2 t" for s t :: string
    using arg_cong [OF that, of "take 1"] by simp
  show ?thesis unfolding hash_respecting_def demo_tables
    by (auto simp: alike_def demo_tables simp del: One_nat_def dest: one)
qed

lemma demo_set_inputs: "(demo_inputs s)(0 := (demo_inputs s 0)(() \<mapsto> t)) = demo_inputs t"
  by (simp add: demo_inputs_def fun_eq_iff)

lemma demo_session: "session (demo_inputs ''acd'') demo_edited"
proof -
  let ?set = "Input_Set 0 () ''ab'' demo_db"
  have "configured demo_db" unfolding demo_db_def
    by (intro configured.query configured_input configured.new)
  from session.start [OF this demo_respecting] have "session (\<lambda>_ _. None) demo_db" .
  moreover have "?set = Inr ((), left_by ?set)" by (simp add: demo_db_def engine_eval)
  ultimately have "session ((\<lambda>_ _. None)(0 := Map.empty(() \<mapsto> ''ab''))) (left_by ?set)" by (rule session.set)
  moreover have "(\<lambda>_ _. None)(0 := Map.empty(() \<mapsto> ''ab'')) = demo_inputs ''ab''" by (simp add: demo_inputs_def fun_eq_iff)
  ultimately have 1: "session (demo_inputs ''ab'') (left_by ?set)" by simp
  have "Query_Get 2 2 () (left_by ?set) = Inr (''aa'', demo_read)" unfolding demo_read_def
    by (simp add: demo_db_def engine_eval)
  moreover have "eval (validators (left_by ?set)) (demo_inputs ''ab'') 2 2 () = Some ''aa''"
    by (simp add: demo_db_def demo_inputs_def engine_eval)
  ultimately have 2: "session (demo_inputs ''ab'') demo_read" using session.get [OF 1] by blast
  have "Input_Set 0 () ''ac'' demo_read = Inr ((), demo_edited)" unfolding demo_edited_def
    by (simp add: demo_read_def demo_db_def engine_eval)
  from session.set [OF 2 this] have 3: "session (demo_inputs ''ac'') demo_edited" unfolding demo_set_inputs .
  have "Input_Set 0 () ''acd'' demo_edited = Inr ((), demo_edited)"
    by (simp add: demo_edited_def demo_read_def demo_db_def engine_eval)
  from session.set [OF 3 this] show ?thesis unfolding demo_set_inputs .
qed

lemma demo_eval: "eval (validators demo_edited) (demo_inputs ''acd'') 2 2 () = Some ''aa''"
  "alike (validators demo_edited) 2 w ''aa'' \<longleftrightarrow> w = ''aa''"
  by (simp_all add: demo_edited_def demo_read_def demo_db_def demo_inputs_def engine_eval alike_def)


text \<open>C24. In a session, a read of a query that can be evaluated returns, and a second read in the same revision is a cache hit: it returns the
  same value and changes nothing but the hit counter.\<close>

theorem Get_again_hits:
  assumes "session I db" "eval (validators db) I n q k = Some v"
  shows "\<exists>w db'. Query_Get n q k db = Inr (w, db') \<and> Query_Get (Suc m) q k db' = Inr (w, count_hit db')"
proof -
  obtain db' s where "Query_Get n q k db = Inr (sl_value s, db')" "session I db'" "db_le db db'" "stack db' = []"
      "slots db' (q, k) = Some s" "verifiedAt s = rev_no db" "alike (validators db) q (sl_value s) v"
    by (rule session_read [OF assms])
  then show ?thesis by (auto simp: db_le_def Query_Get_def getLocked_def checkCycle_def record_dep_def count_hit_def)
qed

theorem Get_again_hits_witness:
  "\<exists>w db'. Query_Get 2 2 () demo_edited = Inr (w, db') \<and> Query_Get 1 2 () db' = Inr (w, count_hit db')"
  using Get_again_hits [OF demo_session demo_eval(1), of 0] by simp

text \<open>C25. Setting an input in a session succeeds and changes no other input. If the input holds a value of the same hash, nothing changes, not even
  the revision, and that value stays; otherwise the new value is read back, in a new revision. Setting the same value again
  changes nothing.\<close>

theorem Set_roundtrip:
  assumes "session I db" "isInput db q"
  shows "\<exists>w db'. Input_Set q k v db = Inr ((), db') \<and> session (I(q := (I q)(k \<mapsto> v))) db' \<and>
    inputs_of db' = (inputs_of db)(q := (inputs_of db q)(k \<mapsto> w)) \<and> alike (validators db) q v w \<and>
    (if \<exists>u. inputs_of db q k = Some u \<and> alike (validators db) q u v then db' = db else w = v \<and> rev_no db' = rev_no db + 1) \<and>
    Input_Set q k v db' = Inr ((), db')"
proof -
  have wf: "wf_db db" using session_ok [OF assms(1)] by simp
  obtain h where h: "validators db q = Some (InputOf h)" using assms(2) wf by (rule wf_input_reg)
  have "\<exists>db'. Input_Set q k v db = Inr ((), db')" using h by (simp add: Input_Set_def Let_def)
  then obtain db' where db': "Input_Set q k v db = Inr ((), db')" by blast
  show ?thesis using Set_inputs [OF wf h db'] session.set [OF assms(1) db'] db' by metis
qed

theorem Set_roundtrip_witness:
  "\<exists>db'. Input_Set 0 () ''xy'' demo_edited = Inr ((), db') \<and> inputs_of db' 0 () = Some ''xy'' \<and>
    Input_Set 0 () ''xy'' db' = Inr ((), db') \<and> Input_Set 0 () ''aced'' demo_edited = Inr ((), demo_edited)"
proof -
  have i: "isInput demo_edited 0" by (simp add: demo_edited_def demo_read_def demo_db_def engine_eval)
  have held: "inputs_of demo_edited 0 () = Some ''ac''" "\<not> alike (validators demo_edited) 0 ''ac'' ''xy''" "alike (validators demo_edited) 0 ''ac'' ''aced''"
    by (simp_all add: demo_edited_def demo_read_def demo_db_def engine_eval alike_def)
  show ?thesis using Set_roundtrip [OF demo_session i, of "()" "''xy''"] Set_roundtrip [OF demo_session i, of "()" "''aced''"] held by auto
qed

section \<open>Cycles and panics\<close>

text \<open>Two queries that depend on each other if the input is not empty, and on nothing else otherwise.\<close>

definition pair_db :: "(unit, string) Database" where
  "pair_db = snd (Register ''b'' (\<lambda>k. Fetch 0 k (\<lambda>s. if s = [] then Return ''x'' else Fetch 1 k Return)) None
     (snd (Register ''a'' (\<lambda>k. Fetch 2 k Return) None
       (left_by (RegisterInput ''text'' (Some id) NewDatabase)))))"

definition cyclic_fresh :: "(unit, string) Database" where
  "cyclic_fresh = left_by (Input_Set 0 () ''y'' pair_db)"

definition cyclic_edited :: "(unit, string) Database" where
  "cyclic_edited = left_by (Input_Set 0 () ''y'' (left_by (Query_Get 3 1 () (left_by (Input_Set 0 () [] pair_db)))))"

text \<open>The state in which the walk over recorded dependencies goes round: \<open>a\<close> is confirmed by
  validating \<open>b\<close>, which is stale, so its body runs and asks for \<open>a\<close>; no frame of \<open>a\<close> is on the stack.\<close>

definition spins :: "(unit, string) Database \<Rightarrow> bool" where
  "spins db \<longleftrightarrow> rev_no db = 2 \<and> validators db = validators pair_db \<and> isInput db = isInput pair_db \<and>
     slots db (0, ()) = Some (input_slot ''y'' ''y'' 2) \<and>
     slots db (1, ()) = Some \<lparr>sl_value = ''x'', outputHash = None, computedAt = 1, verifiedAt = 1,
       sl_deps = [\<lparr>dp_qid = 2, dp_key = (), changedAt = 1\<rparr>]\<rparr> \<and>
     slots db (2, ()) = Some \<lparr>sl_value = ''x'', outputHash = None, computedAt = 1, verifiedAt = 1,
       sl_deps = [\<lparr>dp_qid = 0, dp_key = (), changedAt = 1\<rparr>]\<rparr> \<and>
     list_all (\<lambda>f. fm_qid f = 2) (stack db)"

lemma pair_db_tables:
  "validators pair_db 0 = Some (InputOf id)" "validators pair_db (Suc 0) = Some (QueryOf (\<lambda>k. Fetch 2 k Return) None)"
  "validators pair_db 2 = Some (QueryOf (\<lambda>k. Fetch 0 k (\<lambda>s. if s = [] then Return ''x'' else Fetch 1 k Return)) None)"
  "isInput pair_db 0" "\<not> isInput pair_db (Suc 0)" "\<not> isInput pair_db 2"
  by (simp_all add: pair_db_def engine_eval)

lemma spins_forever:
  "spins db \<Longrightarrow> (\<exists>db'. validateOrRunLocked n 1 () db = Inl (NoFuel, db')) \<and> (\<exists>db'. validateOrRunLocked n 2 () db = Inl (NoFuel, db'))"
proof (induction n arbitrary: db)
  case (Suc n)
  let ?d = "\<lparr>dp_qid = 0, dp_key = (), changedAt = 2\<rparr>"
  let ?db = "count_hit (record_dep ?d (pushFrame \<lparr>fm_qid = 2, fm_key = (), fm_deps = []\<rparr> db))"
  have "spins ?db" using Suc.prems by (simp add: spins_def pushFrame_def record_dep_def)
  moreover have "checkCycle 1 () ?db = None"
    using Suc.prems by (auto simp: spins_def pushFrame_def record_dep_def count_hit_def checkCycle_def list_ex_iff list_all_iff)
  ultimately show ?case
    using Suc.prems Suc.IH [of db] Suc.IH [of ?db]
    by (auto simp: spins_def pair_db_tables validateDepLocked_def input_slot_def runAndStoreLocked_def fetch_def
      Input_getLocked_def getLocked_def pushFrame_def)
qed simp

text \<open>C37. A cycle that an edit creates between queries that were read before is not reported: the read
  never comes back, whatever the fuel, while a fresh database with the same inputs reports the cycle.\<close>

theorem cycle_after_edit_diverges:
  "inputs_of cyclic_edited = inputs_of cyclic_fresh \<and>
   (\<forall>n. \<exists>db'. Query_Get n 1 () cyclic_edited = Inl (NoFuel, db')) \<and>
   (\<exists>chain db'. Query_Get 3 1 () cyclic_fresh = Inl (CycleError chain, db'))"
proof (intro conjI allI)
  show "inputs_of cyclic_edited = inputs_of cyclic_fresh"
    by (simp add: fun_eq_iff cyclic_edited_def cyclic_fresh_def pair_db_def engine_eval)
  show "\<exists>chain db'. Query_Get 3 1 () cyclic_fresh = Inl (CycleError chain, db')"
    by (simp add: cyclic_fresh_def pair_db_def engine_eval)
  fix n
  have "spins cyclic_edited" "stack cyclic_edited = []"
    by (simp_all add: spins_def cyclic_edited_def pair_db_def engine_eval)
  then show "\<exists>db'. Query_Get n 1 () cyclic_edited = Inl (NoFuel, db')"
    using spins_forever [of cyclic_edited n] by (auto simp: Query_Get_def getLocked_def checkCycle_def)
qed

text \<open>C38. A panic leaves its frames on the stack: whenever the first read of a query that has no slot yet is of an input that is missing, the read panics,
  and after the input has been set the same read reports a cycle, although the query can be evaluated if the rest of its
  body can.\<close>

theorem panic_leaves_frames:
  assumes "validators db q = Some (QueryOf fn h)" "\<not> isInput db q" "fn k = Fetch i j f" "validators db i = Some (InputOf hi)" "isInput db i"
    and "slots db (q, k) = None" "slots db (i, j) = None" "stack db = []" "0 < n"
  shows "\<exists>db1. Query_Get n q k db = Inl (InputHasNoValue i j, db1) \<and>
    (\<forall>v. \<exists>db2. Input_Set i j v db1 = Inr ((), db2) \<and>
      (\<forall>m. Query_Get m q k db2 = Inl (CycleError [(q, k), (q, k)], db2)) \<and>
      (\<forall>m. eval (validators db2) (inputs_of db2) (Suc m) q k =
         eval_body (\<lambda>q. is_input_reg (validators db2 q)) (inputs_of db2) (eval (validators db2) (inputs_of db2) m) (f v)))"
proof -
  obtain n' where n: "n = Suc n'" using assms(9) by (cases n) auto
  let ?db1 = "pushFrame \<lparr>fm_qid = q, fm_key = k, fm_deps = []\<rparr> db"
  have "Query_Get n q k db = Inl (InputHasNoValue i j, ?db1)"
    using assms by (simp add: n Query_Get_def getLocked_def checkCycle_def runAndStoreLocked_def fetch_def Input_getLocked_def pushFrame_def)
  moreover have "\<exists>db2. Input_Set i j v ?db1 = Inr ((), db2) \<and> (\<forall>m. Query_Get m q k db2 = Inl (CycleError [(q, k), (q, k)], db2)) \<and>
      (\<forall>m. eval (validators db2) (inputs_of db2) (Suc m) q k =
         eval_body (\<lambda>q. is_input_reg (validators db2 q)) (inputs_of db2) (eval (validators db2) (inputs_of db2) m) (f v))" for v
    using assms by (simp add: Input_Set_def Let_def pushFrame_def Query_Get_def getLocked_def checkCycle_def is_input_reg_def inputs_of_def
      input_slot_def)
  ultimately show ?thesis by blast
qed

theorem panic_leaves_frames_witness:
  "\<exists>db1 db2. Query_Get 2 1 () demo_db = Inl (InputHasNoValue 0 (), db1) \<and> Input_Set 0 () ''ab'' db1 = Inr ((), db2) \<and>
     Query_Get 2 1 () db2 = Inl (CycleError [(1, ()), (1, ())], db2) \<and> eval (validators db2) (inputs_of db2) 1 1 () = Some ''a''"
proof -
  have r: "validators demo_db 1 = Some (QueryOf (\<lambda>k. Fetch 0 k (\<lambda>s. Return (take 1 s))) (Some id))" "\<not> isInput demo_db 1"
      "validators demo_db 0 = Some (InputOf (take 2))" "isInput demo_db 0" "slots demo_db (1, ()) = None" "slots demo_db (0, ()) = None"
      "stack demo_db = []"
    by (simp_all add: demo_db_def engine_eval)
  obtain db1 where 1: "Query_Get 2 1 () demo_db = Inl (InputHasNoValue 0 (), db1)"
      "\<And>v. \<exists>db2. Input_Set 0 () v db1 = Inr ((), db2) \<and> (\<forall>m. Query_Get m 1 () db2 = Inl (CycleError [(1, ()), (1, ())], db2)) \<and>
        (\<forall>m. eval (validators db2) (inputs_of db2) (Suc m) 1 () = eval_body (\<lambda>q. is_input_reg (validators db2 q)) (inputs_of db2)
          (eval (validators db2) (inputs_of db2) m) (Return (take 1 v)))"
    using panic_leaves_frames [where n = 2, OF r(1,2) refl r(3-7)] by auto
  obtain db2 where "Input_Set 0 () ''ab'' db1 = Inr ((), db2)" "Query_Get 2 1 () db2 = Inl (CycleError [(1, ()), (1, ())], db2)"
      "eval (validators db2) (inputs_of db2) (Suc 0) 1 () = Some ''a''"
    using 1(2) [of "''ab''"] by (auto simp del: eval.simps)
  then show ?thesis using 1(1) by (auto simp del: eval.simps)
qed

end
