(* ===== verification/Toml.thy ===== *)
theory Toml
  imports Go_Strings
begin

text \<open>
  \<^verbatim>\<open>src/internal/tomlparse/tomlparse.go\<close>: the TOML subset of manifests and lock files. The parser state
  is the unread input (\<open>src[pos:]\<close>) and the line. Tables are association lists in insertion order,
  which stand for \<open>Keys\<close> and \<open>Items\<close> together. The code keeps a pointer to the current table; here
  that table is named by the path of its header, where an array of tables stands for its
  last entry. Errors carry the line and a constructor per message.

  The loops and the recursion through values carry fuel; the initial fuel is one more than the bytes
  to read, and \<open>Parse\<close> is shown never to run out.
\<close>

section \<open>Values and tables\<close>

datatype Value =
  StrV string nat
| IntV int nat
| BoolV bool nat
| ArrV "Value list" nat
| TblV Table nat
and Table = Table (Items: "(string \<times> Value) list") (Inline: bool) (tbl_Line: nat)

definition NewTable :: "bool \<Rightarrow> nat \<Rightarrow> Table" where
  "NewTable inl ln = Table [] inl ln"

fun assoc_set :: "'k \<Rightarrow> 'v \<Rightarrow> ('k \<times> 'v) list \<Rightarrow> ('k \<times> 'v) list" where
  "assoc_set k v [] = [(k, v)]"
| "assoc_set k v ((j, w) # xs) = (if j = k then (j, v) # xs else (j, w) # assoc_set k v xs)"

definition Table_Set :: "string \<Rightarrow> Value \<Rightarrow> Table \<Rightarrow> Table" where
  "Table_Set k v t = Table (assoc_set k v (Items t)) (Inline t) (tbl_Line t)"

definition Table_Get :: "string \<Rightarrow> Table \<Rightarrow> Value option" where
  "Table_Get k t = map_of (Items t) k"

fun with_line :: "nat \<Rightarrow> Value \<Rightarrow> Value" where
  "with_line ln (StrV s _) = StrV s ln"
| "with_line ln (IntV i _) = IntV i ln"
| "with_line ln (BoolV b _) = BoolV b ln"
| "with_line ln (ArrV vs _) = ArrV vs ln"
| "with_line ln (TblV t _) = TblV t ln"

section \<open>The reader\<close>

record parser =
  unread :: string
  lineNo :: nat

datatype toml_msg =
  ExpectedCloseArrayHeader | ExpectedCloseHeader | GarbageAfterHeader
| PreviouslyPlainTable "string list" | CannotDescendArray "string list" | CannotDescendScalar "string list"
| ExpectedEquals | DuplicateKey "string list" | KeyNotTable "string list" | GarbageAfterValue
| KeyAtEnd | ExpectedKey char | ValueAtEnd | UnexpectedChar char | ExpectedBool
| ExpectedDigit | FloatNotSupported | InvalidInteger string
| ExpectedQuote | UnterminatedString | NewlineInString | UnterminatedEscape | TruncatedU | BadU string | UnknownEscape char
| ExpectedArray | UnterminatedArray | ExpectedCommaArray
| ExpectedInline | InlineNewline | ExpectedInlineEquals | UnterminatedInline | ExpectedCommaInline
| NoFuelLeft

type_synonym toml_error = "nat \<times> toml_msg"
type_synonym 'a tres = "toml_error + 'a \<times> parser"

definition bindT :: "'a tres \<Rightarrow> ('a \<Rightarrow> parser \<Rightarrow> 'b tres) \<Rightarrow> 'b tres" where
  "bindT r f = (case r of Inl e \<Rightarrow> Inl e | Inr x \<Rightarrow> f (fst x) (snd x))"

lemma bindT_simps [simp]: "bindT (Inl e) f = Inl e" "bindT (Inr (a, st)) f = f a st"
  by (simp_all add: bindT_def)

definition errorf :: "toml_msg \<Rightarrow> parser \<Rightarrow> 'a tres" where
  "errorf m st = Inl (lineNo st, m)"

abbreviation DQ :: char where "DQ \<equiv> CHR 0x22"
abbreviation BSL :: char where "BSL \<equiv> CHR 0x5C"
abbreviation NL :: char where "NL \<equiv> CHR 0x0A"

definition atEnd :: "parser \<Rightarrow> bool" where
  "atEnd st \<longleftrightarrow> unread st = []"

text \<open>\<open>!p.atEnd() && p.peek() == c\<close>.\<close>

definition at_char :: "char \<Rightarrow> parser \<Rightarrow> bool" where
  "at_char c st \<longleftrightarrow> unread st \<noteq> [] \<and> hd (unread st) = c"

definition at_eol :: "parser \<Rightarrow> bool" where
  "at_eol st \<longleftrightarrow> atEnd st \<or> at_char NL st \<or> at_char CHR 0x23 st"

definition advance :: "parser \<Rightarrow> parser" where
  "advance st = (case unread st of [] \<Rightarrow> st | c # cs \<Rightarrow>
     \<lparr>unread = cs, lineNo = (if c = NL then lineNo st + 1 else lineNo st)\<rparr>)"

definition is_blank :: "char \<Rightarrow> bool" where
  "is_blank c \<longleftrightarrow> c = CHR '' '' \<or> c = CHR 0x09"

definition skipHorizontalWhitespace :: "parser \<Rightarrow> parser" where
  "skipHorizontalWhitespace st = st\<lparr>unread := dropWhile is_blank (unread st)\<rparr>"

function skip_ws :: "string \<Rightarrow> nat \<Rightarrow> string \<times> nat" where
  "skip_ws [] ln = ([], ln)"
| "skip_ws (c # cs) ln =
     (if is_blank c \<or> c = CHR 0x0D then skip_ws cs ln
      else if c = NL then skip_ws cs (ln + 1)
      else if c = CHR 0x23 then skip_ws (dropWhile (\<lambda>x. x \<noteq> NL) cs) ln
      else (c # cs, ln))"
  by pat_completeness auto
termination
  by (relation "measure (\<lambda>(s, _). length s)") (auto simp: le_imp_less_Suc length_dropWhile_le)

definition skipWhitespaceAndComments :: "parser \<Rightarrow> parser" where
  "skipWhitespaceAndComments st = (let r = skip_ws (unread st) (lineNo st) in \<lparr>unread = fst r, lineNo = snd r\<rparr>)"

section \<open>Scalars and keys\<close>

definition isBareKeyChar :: "char \<Rightarrow> bool" where
  "isBareKeyChar c \<longleftrightarrow> is_alnum_dash c \<or> c = CHR ''_''"

definition unescape :: "char \<Rightarrow> char option" where
  "unescape e =
     (if e = DQ then Some DQ else if e = BSL then Some BSL else if e = CHR ''n'' then Some NL
      else if e = CHR ''r'' then Some CHR 0x0D else if e = CHR ''t'' then Some CHR 0x09
      else if e = CHR ''b'' then Some CHR 0x08 else if e = CHR ''f'' then Some CHR 0x0C
      else if e = CHR ''/'' then Some CHR ''/'' else None)"

definition hex_digit :: "char \<Rightarrow> nat option" where
  "hex_digit c =
     (let n = of_char c :: nat in
      if 48 \<le> n \<and> n \<le> 57 then Some (n - 48)
      else if 97 \<le> n \<and> n \<le> 102 then Some (n - 87)
      else if 65 \<le> n \<and> n \<le> 70 then Some (n - 55) else None)"

text \<open>\<open>strconv.ParseUint(s, 16, 32)\<close> on four characters.\<close>

fun hex_val :: "nat \<Rightarrow> string \<Rightarrow> nat option" where
  "hex_val acc [] = Some acc"
| "hex_val acc (c # cs) = (case hex_digit c of None \<Rightarrow> None | Some d \<Rightarrow> hex_val (acc * 16 + d) cs)"

text \<open>The loop of \<open>parseBasicString\<close>, with what has been read of the string.\<close>

function str_loop :: "string \<Rightarrow> nat \<Rightarrow> string \<Rightarrow> string tres" where
  "str_loop [] ln out = Inl (ln, UnterminatedString)"
| "str_loop (c # cs) ln out =
     (if c = NL then Inl (ln, NewlineInString)
      else if c = DQ then Inr (out, \<lparr>unread = cs, lineNo = ln\<rparr>)
      else if c = BSL then
        (case cs of [] \<Rightarrow> Inl (ln, UnterminatedEscape)
         | e # ds \<Rightarrow>
             if e = CHR ''u'' then
               (if length ds < 4 then Inl (ln, TruncatedU)
                else (case hex_val 0 (take 4 ds) of None \<Rightarrow> Inl (ln, BadU (take 4 ds))
                      | Some n \<Rightarrow> str_loop (drop 4 ds) ln (out @ utf8_rune n)))
             else (case unescape e of None \<Rightarrow> Inl (if e = NL then ln + 1 else ln, UnknownEscape e)
                   | Some b \<Rightarrow> str_loop ds ln (out @ [b])))
      else str_loop cs ln (out @ [c]))"
  by pat_completeness auto
termination
  by (relation "measure (\<lambda>(s, _, _). length s)") auto

definition parseBasicString :: "parser \<Rightarrow> string tres" where
  "parseBasicString st =
     (if \<not> at_char DQ st then errorf ExpectedQuote st else str_loop (tl (unread st)) (lineNo st) [])"

definition parseSingleKey :: "parser \<Rightarrow> string tres" where
  "parseSingleKey st =
     (if atEnd st then errorf KeyAtEnd st
      else if at_char DQ st then parseBasicString st
      else (let k = takeWhile isBareKeyChar (unread st) in
            if k = [] then errorf (ExpectedKey (hd (unread st))) st
            else Inr (k, st\<lparr>unread := dropWhile isBareKeyChar (unread st)\<rparr>)))"

fun dotted_loop :: "nat \<Rightarrow> parser \<Rightarrow> string list \<Rightarrow> string list tres" where
  "dotted_loop 0 st out = errorf NoFuelLeft st"
| "dotted_loop (Suc n) st out =
     bindT (parseSingleKey (skipHorizontalWhitespace st)) (\<lambda>k st1.
       let st2 = skipHorizontalWhitespace st1 in
       if \<not> at_char CHR ''.'' st2 then Inr (out @ [k], st2) else dotted_loop n (advance st2) (out @ [k]))"

definition parseDottedKey :: "parser \<Rightarrow> string list tres" where
  "parseDottedKey st = dotted_loop (Suc (length (unread st))) st []"

definition parseBool :: "parser \<Rightarrow> Value tres" where
  "parseBool st =
     (if take 4 (unread st) = ''true'' then Inr (BoolV True (lineNo st), st\<lparr>unread := drop 4 (unread st)\<rparr>)
      else if take 5 (unread st) = ''false'' then Inr (BoolV False (lineNo st), st\<lparr>unread := drop 5 (unread st)\<rparr>)
      else errorf ExpectedBool st)"

text \<open>\<open>strconv.ParseInt(s, 10, 64)\<close> on an optional sign and digits.\<close>

definition ParseInt :: "string \<Rightarrow> int option" where
  "ParseInt s =
     (let neg = (s \<noteq> [] \<and> hd s = CHR ''-'');
          ds = (if s \<noteq> [] \<and> (hd s = CHR ''-'' \<or> hd s = CHR ''+'') then tl s else s);
          n = (if neg then - digits_val ds else digits_val ds)
      in if ds = [] \<or> \<not> list_all is_digit ds then None
         else if - (2 ^ 63) \<le> n \<and> n < 2 ^ 63 then Some n else None)"

definition parseNumber :: "parser \<Rightarrow> Value tres" where
  "parseNumber st =
     (let sign = (if at_char CHR ''+'' st \<or> at_char CHR ''-'' st then take 1 (unread st) else []);
          ds = drop (length sign) (unread st)
      in if ds = [] \<or> \<not> is_digit (hd ds) then errorf ExpectedDigit st
         else (let num = takeWhile (\<lambda>c. is_digit c \<or> c = CHR ''_'') ds;
                   st1 = st\<lparr>unread := dropWhile (\<lambda>c. is_digit c \<or> c = CHR ''_'') ds\<rparr>;
                   raw = sign @ filter (\<lambda>c. c \<noteq> CHR ''_'') num
               in if at_char CHR ''.'' st1 \<or> at_char CHR ''e'' st1 \<or> at_char CHR ''E'' st1 then errorf FloatNotSupported st1
                  else (case ParseInt raw of None \<Rightarrow> errorf (InvalidInteger raw) st1
                        | Some n \<Rightarrow> Inr (IntV n (lineNo st1), st1))))"

section \<open>Arrays and inline tables\<close>

fun array_loop :: "(parser \<Rightarrow> Value tres) \<Rightarrow> nat \<Rightarrow> nat \<Rightarrow> parser \<Rightarrow> Value list \<Rightarrow> Value tres" where
  "array_loop pv startLine 0 st vs = errorf NoFuelLeft st"
| "array_loop pv startLine (Suc n) st vs =
     (let st1 = skipWhitespaceAndComments st in
      if atEnd st1 then errorf UnterminatedArray st1
      else if at_char CHR '']'' st1 then Inr (ArrV vs startLine, advance st1)
      else bindT (pv st1) (\<lambda>v st2.
        let st3 = skipWhitespaceAndComments st2 in
        if atEnd st3 then errorf UnterminatedArray st3
        else if at_char CHR '','' st3 then array_loop pv startLine n (advance st3) (vs @ [v])
        else if at_char CHR '']'' st3 then Inr (ArrV (vs @ [v]) startLine, advance st3)
        else errorf ExpectedCommaArray st3))"

definition parseArray :: "(parser \<Rightarrow> Value tres) \<Rightarrow> parser \<Rightarrow> Value tres" where
  "parseArray pv st =
     (if \<not> at_char CHR ''['' st then errorf ExpectedArray st
      else array_loop pv (lineNo st) (Suc (length (unread st))) (advance st) [])"

text \<open>An inline key overwrites what was there, and replaces what it cannot descend into.\<close>

fun set_inline :: "nat \<Rightarrow> string list \<Rightarrow> Value \<Rightarrow> Table \<Rightarrow> Table" where
  "set_inline ln [] v t = t"
| "set_inline ln [k] v t = Table_Set k v t"
| "set_inline ln (k # j # ks) v t =
     (case Table_Get k t of
        Some (TblV sub l) \<Rightarrow> Table_Set k (TblV (set_inline ln (j # ks) v sub) l) t
      | _ \<Rightarrow> Table_Set k (TblV (set_inline ln (j # ks) v (NewTable True 0)) ln) t)"

fun inline_loop :: "(parser \<Rightarrow> Value tres) \<Rightarrow> nat \<Rightarrow> nat \<Rightarrow> parser \<Rightarrow> Table \<Rightarrow> Value tres" where
  "inline_loop pv startLine 0 st t = errorf NoFuelLeft st"
| "inline_loop pv startLine (Suc n) st t =
     (let st1 = skipHorizontalWhitespace st in
      if atEnd st1 \<or> at_char NL st1 then errorf InlineNewline st1
      else bindT (parseDottedKey st1) (\<lambda>parts st2.
        let st3 = skipHorizontalWhitespace st2 in
        if \<not> at_char CHR ''='' st3 then errorf ExpectedInlineEquals st3
        else bindT (pv (skipHorizontalWhitespace (advance st3))) (\<lambda>v st4.
          let t1 = set_inline startLine parts v t; st5 = skipHorizontalWhitespace st4 in
          if atEnd st5 then errorf UnterminatedInline st5
          else if at_char CHR '','' st5 then inline_loop pv startLine n (advance st5) t1
          else if at_char CHR ''}'' st5 then Inr (TblV t1 startLine, advance st5)
          else errorf ExpectedCommaInline st5)))"

definition parseInlineTable :: "(parser \<Rightarrow> Value tres) \<Rightarrow> parser \<Rightarrow> Value tres" where
  "parseInlineTable pv st =
     (if \<not> at_char CHR ''{'' st then errorf ExpectedInline st
      else (let t = NewTable True (lineNo st); st1 = skipHorizontalWhitespace (advance st) in
            if at_char CHR ''}'' st1 then Inr (TblV t (lineNo st), advance st1)
            else inline_loop pv (lineNo st) (Suc (length (unread st))) st1 t))"

definition value_step :: "(parser \<Rightarrow> Value tres) \<Rightarrow> parser \<Rightarrow> Value tres" where
  "value_step pv st =
     (if atEnd st then errorf ValueAtEnd st
      else (let c = hd (unread st) in
            if c = DQ then bindT (parseBasicString st) (\<lambda>s st1. Inr (StrV s (lineNo st1), st1))
            else if c = CHR ''['' then parseArray pv st
            else if c = CHR ''{'' then parseInlineTable pv st
            else if c = CHR ''t'' \<or> c = CHR ''f'' then parseBool st
            else if c = CHR ''-'' \<or> c = CHR ''+'' \<or> is_digit c then parseNumber st
            else errorf (UnexpectedChar c) st))"

primrec value_fuel :: "nat \<Rightarrow> parser \<Rightarrow> Value tres" where
  "value_fuel 0 = errorf NoFuelLeft"
| "value_fuel (Suc n) = value_step (value_fuel n)"

definition parseValue :: "parser \<Rightarrow> Value tres" where
  "parseValue st = value_fuel (Suc (length (unread st))) st"

section \<open>Documents\<close>

text \<open>Opening the table of a header; \<open>whole\<close> is the header's full path, \<open>ks\<close> what is left of it.\<close>

fun open_table :: "bool \<Rightarrow> nat \<Rightarrow> string list \<Rightarrow> string list \<Rightarrow> string list \<Rightarrow> Table \<Rightarrow> toml_msg + Table" where
  "open_table aot ln whole seen [] t = Inr t"
| "open_table aot ln whole seen (k # ks) t =
     (case Table_Get k t of
        None \<Rightarrow>
          if ks = [] \<and> aot then Inr (Table_Set k (ArrV [TblV (NewTable False ln) ln] ln) t)
          else (case open_table aot ln whole (seen @ [k]) ks (NewTable False ln) of
                  Inl e \<Rightarrow> Inl e | Inr sub \<Rightarrow> Inr (Table_Set k (TblV sub ln) t))
      | Some (TblV sub l) \<Rightarrow>
          if ks = [] \<and> aot then Inl (PreviouslyPlainTable whole)
          else (case open_table aot ln whole (seen @ [k]) ks sub of
                  Inl e \<Rightarrow> Inl e | Inr sub' \<Rightarrow> Inr (Table_Set k (TblV sub' l) t))
      | Some (ArrV vs l) \<Rightarrow>
          if ks = [] \<and> aot then Inr (Table_Set k (ArrV (vs @ [TblV (NewTable False ln) ln]) l) t)
          else if vs = [] then Inl (CannotDescendArray (seen @ [k]))
          else (case last vs of
                  TblV sub l' \<Rightarrow>
                    (case open_table aot ln whole (seen @ [k]) ks sub of
                       Inl e \<Rightarrow> Inl e
                     | Inr sub' \<Rightarrow> Inr (Table_Set k (ArrV (butlast vs @ [TblV sub' l']) l) t))
                | _ \<Rightarrow> Inl (CannotDescendArray (seen @ [k])))
      | Some _ \<Rightarrow> Inl (CannotDescendScalar (seen @ [k])))"

definition parseHeader :: "Table \<Rightarrow> parser \<Rightarrow> (Table \<times> string list) tres" where
  "parseHeader root st =
     (let startLine = lineNo st; st1 = advance st; aot = at_char CHR ''['' st1;
          st2 = (if aot then advance st1 else st1)
      in bindT (parseDottedKey st2) (\<lambda>parts st3.
        let st4 = skipHorizontalWhitespace st3 in
        if aot \<and> \<not> at_char CHR '']'' st4 then errorf ExpectedCloseArrayHeader st4
        else
          (let st5 = (if aot then advance st4 else st4) in
           if \<not> at_char CHR '']'' st5 then errorf ExpectedCloseHeader st5
           else
             (let st6 = skipHorizontalWhitespace (advance st5) in
              if \<not> at_eol st6 then errorf GarbageAfterHeader st6
              else (case open_table aot startLine parts [] parts root of
                      Inl m \<Rightarrow> errorf m st6 | Inr root' \<Rightarrow> Inr ((root', parts), st6))))))"

text \<open>\<open>cur.Set(part, v)\<close> at the end of a dotted key.\<close>

fun set_key :: "nat \<Rightarrow> string list \<Rightarrow> string list \<Rightarrow> string list \<Rightarrow> Value \<Rightarrow> Table \<Rightarrow> toml_msg + Table" where
  "set_key ln whole seen [] v t = Inr t"
| "set_key ln whole seen [k] v t =
     (if Table_Get k t \<noteq> None then Inl (DuplicateKey whole) else Inr (Table_Set k (with_line ln v) t))"
| "set_key ln whole seen (k # j # ks) v t =
     (case Table_Get k t of
        Some (TblV sub l) \<Rightarrow>
          (case set_key ln whole (seen @ [k]) (j # ks) v sub of Inl e \<Rightarrow> Inl e | Inr sub' \<Rightarrow> Inr (Table_Set k (TblV sub' l) t))
      | Some _ \<Rightarrow> Inl (KeyNotTable (seen @ [k]))
      | None \<Rightarrow>
          (case set_key ln whole (seen @ [k]) (j # ks) v (NewTable False ln) of
             Inl e \<Rightarrow> Inl e | Inr sub' \<Rightarrow> Inr (Table_Set k (TblV sub' ln) t)))"

text \<open>The current table: \<open>at_table path f root\<close> applies \<open>f\<close> to the table the path leads to.\<close>

fun at_table :: "string list \<Rightarrow> (Table \<Rightarrow> toml_msg + Table) \<Rightarrow> Table \<Rightarrow> toml_msg + Table" where
  "at_table [] f t = f t"
| "at_table (k # ks) f t =
     (case Table_Get k t of
        Some (TblV sub l) \<Rightarrow> (case at_table ks f sub of Inl e \<Rightarrow> Inl e | Inr sub' \<Rightarrow> Inr (Table_Set k (TblV sub' l) t))
      | Some (ArrV vs l) \<Rightarrow>
          (if vs = [] then Inr t
           else (case last vs of
                   TblV sub l' \<Rightarrow> (case at_table ks f sub of Inl e \<Rightarrow> Inl e
                     | Inr sub' \<Rightarrow> Inr (Table_Set k (ArrV (butlast vs @ [TblV sub' l']) l) t))
                 | _ \<Rightarrow> Inr t))
      | _ \<Rightarrow> Inr t)"

definition parseKeyValue :: "string list \<Rightarrow> Table \<Rightarrow> parser \<Rightarrow> Table tres" where
  "parseKeyValue path root st =
     bindT (parseDottedKey st) (\<lambda>parts st1.
       let st2 = skipHorizontalWhitespace st1 in
       if \<not> at_char CHR ''='' st2 then errorf ExpectedEquals st2
       else bindT (parseValue (skipHorizontalWhitespace (advance st2))) (\<lambda>v st3.
         case at_table path (set_key (lineNo st) parts [] parts v) root of
           Inl m \<Rightarrow> errorf m st3
         | Inr root' \<Rightarrow>
             (let st4 = skipHorizontalWhitespace st3 in
              if \<not> at_eol st4 then errorf GarbageAfterValue st4 else Inr (root', st4))))"

fun root_loop :: "nat \<Rightarrow> parser \<Rightarrow> Table \<Rightarrow> string list \<Rightarrow> toml_error + Table" where
  "root_loop 0 st root path = Inl (lineNo st, NoFuelLeft)"
| "root_loop (Suc n) st root path =
     (let st1 = skipWhitespaceAndComments st in
      if atEnd st1 then Inr root
      else if at_char CHR ''['' st1 then
        (case parseHeader root st1 of Inl e \<Rightarrow> Inl e | Inr ((root', path'), st2) \<Rightarrow> root_loop n st2 root' path')
      else (case parseKeyValue path root st1 of Inl e \<Rightarrow> Inl e | Inr (root', st2) \<Rightarrow> root_loop n st2 root' path))"

definition Toml_Parse :: "string \<Rightarrow> toml_error + Table" where
  "Toml_Parse src = root_loop (Suc (length src)) \<lparr>unread = src, lineNo = 1\<rparr> (NewTable False 1) []"

section \<open>Every key once, at every depth\<close>

fun value_ok :: "Value \<Rightarrow> bool" and table_ok :: "Table \<Rightarrow> bool" where
  "value_ok (ArrV vs ln) = list_all value_ok vs"
| "value_ok (TblV t ln) = table_ok t"
| "value_ok (StrV s ln) = True"
| "value_ok (IntV i ln) = True"
| "value_ok (BoolV b ln) = True"
| "table_ok (Table xs inl ln) = (distinct (map fst xs) \<and> list_all (\<lambda>x. value_ok (snd x)) xs)"

lemma assoc_set_keys: "fst ` set (assoc_set k v xs) = insert k (fst ` set xs)"
  by (induction k v xs rule: assoc_set.induct) auto

lemma assoc_set_distinct: "distinct (map fst xs) \<Longrightarrow> distinct (map fst (assoc_set k v xs))"
  by (induction k v xs rule: assoc_set.induct) (auto simp: assoc_set_keys)

lemma assoc_set_all: "list_all P xs \<Longrightarrow> P (k, v) \<Longrightarrow> list_all P (assoc_set k v xs)"
  by (induction k v xs rule: assoc_set.induct) auto

lemma table_ok_Set: "table_ok t \<Longrightarrow> value_ok v \<Longrightarrow> table_ok (Table_Set k v t)"
  by (cases t) (simp add: Table_Set_def assoc_set_distinct assoc_set_all)

lemma table_ok_Get: "table_ok t \<Longrightarrow> Table_Get k t = Some v \<Longrightarrow> value_ok v"
  by (cases t) (auto simp: Table_Get_def list_all_iff dest: map_of_SomeD)

lemma table_ok_New [simp]: "table_ok (NewTable b ln)"
  by (simp add: NewTable_def)

lemma value_ok_with_line [simp]: "value_ok (with_line ln v) = value_ok v"
  by (cases v) simp_all

lemma last_ok: "list_all value_ok vs \<Longrightarrow> vs \<noteq> [] \<Longrightarrow> value_ok (last vs)"
  by (simp add: list_all_iff)

lemma butlast_ok: "list_all value_ok vs \<Longrightarrow> list_all value_ok (butlast vs)"
  by (auto simp: list_all_iff dest: in_set_butlastD)

lemma set_inline_ok: "table_ok t \<Longrightarrow> value_ok v \<Longrightarrow> table_ok (set_inline ln ks v t)"
proof (induction ln ks v t rule: set_inline.induct)
  case (3 ln k j ks v t)
  then show ?case using table_ok_Get [OF "3.prems"(1), of k] by (auto intro!: table_ok_Set split: option.splits Value.splits)
qed (simp_all add: table_ok_Set)

text \<open>Table operations fail with their own messages and keep tables well formed.\<close>

definition keeps :: "toml_msg + Table \<Rightarrow> bool" where
  "keeps r \<longleftrightarrow> (case r of Inl m \<Rightarrow> m \<noteq> NoFuelLeft | Inr t \<Rightarrow> table_ok t)"

lemma keeps_simps [simp]: "keeps (Inl m) \<longleftrightarrow> m \<noteq> NoFuelLeft" "keeps (Inr t) \<longleftrightarrow> table_ok t"
  by (simp_all add: keeps_def)

lemma keeps_store:
  assumes "keeps r" "\<And>sub. table_ok sub \<Longrightarrow> value_ok (f sub)" "table_ok t"
  shows "keeps (case r of Inl e \<Rightarrow> Inl e | Inr sub \<Rightarrow> Inr (Table_Set k (f sub) t))"
  using assms by (cases r) (auto intro: table_ok_Set)

lemma open_table_ok: "table_ok t \<Longrightarrow> keeps (open_table aot ln whole seen ks t)"
proof (induction aot ln whole seen ks t rule: open_table.induct)
  case (2 aot ln whole seen k ks t)
  note get = table_ok_Get [OF "2.prems", of k]
  have last: "table_ok sub" if "list_all value_ok vs" "vs \<noteq> []" "last vs = TblV sub l" for vs sub l
    using last_ok [OF that(1,2)] that(3) by simp
  show ?case
    using get "2.prems" "2.IH" last
    by (auto split: option.splits Value.splits intro!: keeps_store table_ok_Set intro: butlast_ok)
qed simp

lemma set_key_ok: "table_ok t \<Longrightarrow> value_ok v \<Longrightarrow> keeps (set_key ln whole seen ks v t)"
proof (induction ln whole seen ks v t rule: set_key.induct)
  case (3 ln whole seen k j ks v t)
  then show ?case using table_ok_Get [OF "3.prems"(1), of k] by (auto split: option.splits Value.splits intro!: keeps_store)
qed (simp_all add: table_ok_Set)

lemma at_table_ok:
  assumes "\<And>t. table_ok t \<Longrightarrow> keeps (f t)"
  shows "table_ok t \<Longrightarrow> keeps (at_table path f t)"
proof (induction path arbitrary: t)
  case (Cons k ks t)
  note get = table_ok_Get [OF Cons.prems, of k]
  have last: "table_ok sub" if "list_all value_ok vs" "vs \<noteq> []" "last vs = TblV sub l" for vs sub l
    using last_ok [OF that(1,2)] that(3) by simp
  show ?case
    using get Cons.prems Cons.IH last
    by (auto split: option.splits Value.splits intro!: keeps_store intro: butlast_ok)
qed (simp add: assms)

section \<open>Every loop makes progress\<close>

text \<open>A parse either fails for a reason other than fuel, or gives a result with \<open>P\<close> and leaves less to
  read than \<open>n\<close> bytes.\<close>

definition yields :: "('a \<Rightarrow> bool) \<Rightarrow> nat \<Rightarrow> 'a tres \<Rightarrow> bool" where
  "yields P n r \<longleftrightarrow> (case r of Inl e \<Rightarrow> snd e \<noteq> NoFuelLeft | Inr x \<Rightarrow> P (fst x) \<and> length (unread (snd x)) < n)"

abbreviation leaves_less :: "nat \<Rightarrow> 'a tres \<Rightarrow> bool" where
  "leaves_less \<equiv> yields (\<lambda>_. True)"

lemma yields_simps [simp]:
  "yields P n (Inl e) \<longleftrightarrow> snd e \<noteq> NoFuelLeft" "yields P n (Inr (a, st)) \<longleftrightarrow> P a \<and> length (unread st) < n"
  "yields P n (errorf m st) \<longleftrightarrow> m \<noteq> NoFuelLeft"
  by (simp_all add: yields_def errorf_def)

lemma yields_bind:
  assumes "yields P n r" "\<And>a st. P a \<Longrightarrow> length (unread st) < n \<Longrightarrow> yields Q m (f a st)"
  shows "yields Q m (bindT r f)"
  using assms by (cases r) (auto simp: yields_def bindT_def)

lemma yields_mono: "yields P n r \<Longrightarrow> n \<le> m \<Longrightarrow> yields P m r"
  by (auto simp: yields_def split: sum.splits)

lemma skipH_le: "length (unread (skipHorizontalWhitespace st)) \<le> length (unread st)"
  by (simp add: skipHorizontalWhitespace_def length_dropWhile_le)

lemma skip_ws_le: "length (fst (skip_ws s ln)) \<le> length s"
proof (induction s ln rule: skip_ws.induct)
  case (2 c cs ln)
  then show ?case using length_dropWhile_le [of "\<lambda>x. x \<noteq> NL" cs] by auto
qed simp

lemma skipWS_le: "length (unread (skipWhitespaceAndComments st)) \<le> length (unread st)"
  using skip_ws_le [of "unread st" "lineNo st"] by (simp add: skipWhitespaceAndComments_def Let_def)

lemma advance_less: "at_char c st \<Longrightarrow> length (unread (advance st)) < length (unread st)"
  by (auto simp: at_char_def advance_def split: list.splits)

lemma advance_le: "length (unread (advance st)) \<le> length (unread st)"
  by (auto simp: advance_def split: list.splits)

lemma str_loop_less: "length s \<le> m \<Longrightarrow> leaves_less m (str_loop s ln out)"
proof (induction s ln out rule: str_loop.induct)
  case (2 c cs ln out)
  then show ?case by (cases cs) (auto split: option.splits)
qed simp

lemma parseBasicString_less: "leaves_less (length (unread st)) (parseBasicString st)"
  using str_loop_less [of "tl (unread st)" "length (unread st)"] by (simp add: parseBasicString_def)

lemma parseSingleKey_less: "leaves_less (length (unread st)) (parseSingleKey st)"
proof -
  have "length (dropWhile isBareKeyChar s) < length s" if "takeWhile isBareKeyChar s \<noteq> []" for s
    using that length_dropWhile_le [of isBareKeyChar "tl s"] by (cases s) (auto split: if_splits simp: less_Suc_eq_le)
  then show ?thesis using parseBasicString_less by (simp add: parseSingleKey_def Let_def)
qed

lemma dotted_loop_less: "length (unread st) < n \<Longrightarrow> leaves_less (length (unread st)) (dotted_loop n st out)"
proof (induction n arbitrary: st out)
  case (Suc n)
  have "leaves_less (length (unread st)) (parseSingleKey (skipHorizontalWhitespace st))"
    by (rule yields_mono [OF parseSingleKey_less skipH_le])
  moreover have "leaves_less (length (unread st)) (dotted_loop n (advance (skipHorizontalWhitespace st1)) out')"
    if "length (unread st1) < length (unread st)" for st1 out'
  proof -
    have "length (unread (advance (skipHorizontalWhitespace st1))) < length (unread st)"
      using advance_le [of "skipHorizontalWhitespace st1"] skipH_le [of st1] that by simp
    then show ?thesis using yields_mono [OF Suc.IH] Suc.prems by simp
  qed
  ultimately show ?case
    by (auto simp: Let_def intro!: yields_bind intro: le_less_trans [OF skipH_le])
qed simp

lemma parseDottedKey_less: "leaves_less (length (unread st)) (parseDottedKey st)"
  unfolding parseDottedKey_def by (rule dotted_loop_less) simp

lemma parseNumber_less:
  assumes "unread st \<noteq> []"
  shows "yields value_ok (length (unread st)) (parseNumber st)"
proof -
  have "length (dropWhile (\<lambda>c. is_digit c \<or> c = CHR ''_'') ds) < length (unread st)"
    if "ds = drop k (unread st)" "ds \<noteq> []" "is_digit (hd ds)" for ds k
  proof -
    have "length ds \<le> length (unread st)" using that(1) by simp
    then show ?thesis using that(2,3) length_dropWhile_le [of "\<lambda>c. is_digit c \<or> c = CHR ''_''" "tl ds"] by (cases ds) auto
  qed
  note d = this [of "unread st" 0] this [of "drop 1 (unread st)" 1]
  show ?thesis using d by (auto simp: parseNumber_def Let_def split: option.splits)
qed

lemma parseBool_less: "yields value_ok (length (unread st)) (parseBool st)"
  by (cases "unread st") (auto simp: parseBool_def)

text \<open>What the loops need of the parser for values.\<close>

locale value_parser =
  fixes pv :: "parser \<Rightarrow> Value tres" and n :: nat
  assumes value_less: "length (unread st) < n \<Longrightarrow> yields value_ok (length (unread st)) (pv st)"
begin

lemma value_below:
  assumes "length (unread st) \<le> k" "k < n"
  shows "yields value_ok k (pv st)"
  using yields_mono [OF value_less] assms by simp

lemma array_loop_less:
  assumes "length (unread st) < m" "length (unread st) < n"
  shows "list_all value_ok vs \<Longrightarrow> yields value_ok (length (unread st)) (array_loop pv ln m st vs)"
  using assms
proof (induction m arbitrary: st vs)
  case (Suc m)
  let ?n = "length (unread st)"
  have pv: "yields value_ok ?n (pv (skipWhitespaceAndComments st))" by (rule value_below [OF skipWS_le Suc.prems(3)])
  have close: "length (unread (advance (skipWhitespaceAndComments s))) < ?n"
    if "length (unread s) < ?n \<or> s = st \<and> at_char c (skipWhitespaceAndComments s)" for s c
    using advance_le [of "skipWhitespaceAndComments s"] advance_less [of c "skipWhitespaceAndComments s"] skipWS_le [of s] that by auto
  have loop: "yields value_ok ?n (array_loop pv ln m (advance (skipWhitespaceAndComments s)) vs')" 
    if "length (unread s) < ?n" "list_all value_ok vs'" for s vs'
    using yields_mono [OF Suc.IH] close [of s] that Suc.prems by simp
  show ?case using Suc.prems(1) by (auto simp: Let_def intro!: yields_bind [OF pv] loop intro: close)
qed simp

lemma inline_loop_less:
  assumes "length (unread st) < m" "length (unread st) < n"
  shows "table_ok t \<Longrightarrow> yields value_ok (length (unread st)) (inline_loop pv ln m st t)"
  using assms
proof (induction m arbitrary: st t)
  case (Suc m)
  let ?n = "length (unread st)"
  have key: "leaves_less ?n (parseDottedKey (skipHorizontalWhitespace st))"
    by (rule yields_mono [OF parseDottedKey_less skipH_le])
  have val: "yields value_ok ?n (pv (skipHorizontalWhitespace (advance (skipHorizontalWhitespace s))))" if "length (unread s) < ?n" for s
    using value_below [of _ ?n] that Suc.prems(3) skipH_le [of "advance (skipHorizontalWhitespace s)"]
      advance_le [of "skipHorizontalWhitespace s"] skipH_le [of s] by simp
  have close: "length (unread (advance (skipHorizontalWhitespace s))) < ?n" if "length (unread s) < ?n" for s
    using advance_le [of "skipHorizontalWhitespace s"] skipH_le [of s] that by simp
  have loop: "yields value_ok ?n (inline_loop pv ln m (advance (skipHorizontalWhitespace s)) t')" 
    if "length (unread s) < ?n" "table_ok t'" for s t'
    using yields_mono [OF Suc.IH] close [OF that(1)] that(2) Suc.prems by simp
  show ?case
    using Suc.prems(1) by (auto simp: Let_def intro!: yields_bind [OF key] yields_bind [OF val] loop close set_inline_ok)
qed simp

lemma value_step_less:
  assumes "length (unread st) \<le> n"
  shows "yields value_ok (length (unread st)) (value_step pv st)"
proof -
  have arr: "yields value_ok (length (unread st)) (parseArray pv st)" if "at_char CHR ''['' st"
    using array_loop_less [of "advance st" "Suc (length (unread st))" "[]" "lineNo st"] advance_less [OF that] assms that
    by (auto simp: parseArray_def simp del: array_loop.simps intro: yields_mono)
  have inl: "yields value_ok (length (unread st)) (parseInlineTable pv st)" if "at_char CHR ''{'' st"
  proof -
    let ?s = "skipHorizontalWhitespace (advance st)"
    have "length (unread ?s) < length (unread st)" using skipH_le [of "advance st"] advance_less [OF that] by simp
    moreover from this have "yields value_ok (length (unread st)) (inline_loop pv ln (Suc (length (unread st))) ?s t)"
      if "table_ok t" for ln t
      by (intro yields_mono [OF inline_loop_less]) (use assms that in simp_all)
    ultimately show ?thesis using that advance_le [of ?s] by (simp add: parseInlineTable_def Let_def del: inline_loop.simps)
  qed
  show ?thesis
    using arr inl parseBasicString_less [of st] parseBool_less [of st] parseNumber_less [of st]
    by (auto simp: value_step_def Let_def atEnd_def at_char_def intro!: yields_bind)
qed

end

interpretation nested: value_parser "value_fuel n" n for n
proof (induction n)
  case 0
  show ?case by unfold_locales simp
next
  case (Suc n)
  show ?case by unfold_locales (use value_parser.value_step_less [OF Suc] in simp)
qed

lemma parseValue_less: "yields value_ok (length (unread st)) (parseValue st)"
  unfolding parseValue_def by (rule nested.value_less) simp

lemma parseHeader_less:
  assumes "table_ok root" "at_char CHR ''['' st"
  shows "yields (\<lambda>x. table_ok (fst x)) (length (unread st)) (parseHeader root st)"
proof -
  let ?n = "length (unread st)"
  let ?s = "if at_char CHR ''['' (advance st) then advance (advance st) else advance st"
  have "length (unread ?s) < ?n" using advance_less [OF assms(2)] advance_le [of "advance st"] by simp
  then have key: "leaves_less ?n (parseDottedKey ?s)" using yields_mono [OF parseDottedKey_less] by simp
  have close: "length (unread (skipHorizontalWhitespace (advance s))) < ?n" if "length (unread s) < ?n" for s
    using skipH_le [of "advance s"] advance_le [of s] that by simp
  have skip: "length (unread (skipHorizontalWhitespace s)) < ?n" "length (unread (advance s)) < ?n" if "length (unread s) < ?n" for s
    using skipH_le [of s] advance_le [of s] that by simp_all
  have opened: "yields (\<lambda>x. table_ok (fst x)) ?n (case open_table aot ln whole seen ks root of
      Inl m \<Rightarrow> errorf m s | Inr root' \<Rightarrow> Inr ((root', parts), s))" if "length (unread s) < ?n" for aot ln whole seen ks s parts
    using open_table_ok [OF assms(1), of aot ln whole seen ks] that by (auto split: sum.splits)
  show ?thesis unfolding parseHeader_def Let_def
    by (rule yields_bind [OF key]) (auto intro!: opened close skip)
qed

lemma parseKeyValue_less:
  assumes "table_ok root"
  shows "yields table_ok (length (unread st)) (parseKeyValue path root st)"
proof -
  let ?n = "length (unread st)"
  have val: "yields value_ok ?n (parseValue (skipHorizontalWhitespace (advance (skipHorizontalWhitespace s))))"
    if "length (unread s) < ?n" for s
    by (rule yields_mono [OF parseValue_less]) (use skipH_le [of "advance (skipHorizontalWhitespace s)"]
      advance_le [of "skipHorizontalWhitespace s"] skipH_le [of s] that in simp)
  have stored: "yields table_ok ?n (case at_table path (set_key ln parts [] parts v) root of
      Inl m \<Rightarrow> errorf m s
    | Inr root' \<Rightarrow> let st4 = skipHorizontalWhitespace s in if \<not> at_eol st4 then errorf GarbageAfterValue st4 else Inr (root', st4))"
    if "length (unread s) < ?n" "value_ok v" for s v ln parts
    using at_table_ok [of "set_key ln parts [] parts v", OF set_key_ok assms, of path] that skipH_le [of s]
    by (cases "at_table path (set_key ln parts [] parts v) root") (auto simp: Let_def)
  show ?thesis unfolding parseKeyValue_def
    by (auto simp: Let_def [of "skipHorizontalWhitespace _"] intro!: yields_bind [OF parseDottedKey_less] yields_bind [OF val] stored)
qed

lemma root_loop_total:
  "length (unread st) < n \<Longrightarrow> table_ok root \<Longrightarrow>
    (case root_loop n st root path of Inl e \<Rightarrow> snd e \<noteq> NoFuelLeft | Inr t \<Rightarrow> table_ok t)"
proof (induction n arbitrary: st root path)
  case (Suc n)
  let ?s = "skipWhitespaceAndComments st"
  have n: "length (unread ?s) \<le> n" using skipWS_le [of st] Suc.prems(1) by simp
  have header: "case root_loop n s r p of Inl e \<Rightarrow> snd e \<noteq> NoFuelLeft | Inr t \<Rightarrow> table_ok t"
    if "length (unread s) < length (unread ?s)" "table_ok r" for s r p
    using Suc.IH [of s r p] that n by simp
  show ?case
  proof (cases "at_char CHR ''['' ?s")
    case True
    then have "\<not> atEnd ?s" by (simp add: at_char_def atEnd_def)
    then show ?thesis
      using parseHeader_less [OF Suc.prems(2) True] True header
      by (cases "parseHeader root ?s") (auto simp: Let_def)
  next
    case False
    then show ?thesis
      using parseKeyValue_less [OF Suc.prems(2), of ?s path] Suc.prems(2) header
      by (cases "parseKeyValue path root ?s") (auto simp: Let_def)
  qed
qed simp

section \<open>Theorem\<close>

text \<open>C13. The TOML parser is total: on every input it returns an error of the source's own, never running
  out of fuel, or a table in which every key occurs once, at every depth.\<close>

theorem Toml_Parse_total:
  "case Toml_Parse src of Inl e \<Rightarrow> snd e \<noteq> NoFuelLeft | Inr t \<Rightarrow> table_ok t"
  unfolding Toml_Parse_def by (rule root_loop_total) simp_all

end
