(* ===== verification/Lockfile.thy ===== *)
theory Lockfile
  imports Toml "HOL-Library.Char_ord" "HOL-Library.List_Lexorder"
begin

text \<open>
  \<^verbatim>\<open>src/internal/lockfile/lockfile.go\<close> and \<^verbatim>\<open>src/internal/runner/lockfile_policy.go\<close>: the lock file, read with the TOML
  parser and written as sorted TOML text. The policy's own package and dependency types have
  the fields of the lock file's, and one record stands for both. Reading and writing the file on disk is left out.
\<close>

section \<open>Data\<close>

record Dependency =
  dep_Name :: string
  dep_Version :: string
  dep_Source :: string

record Package =
  pkg_Name :: string
  pkg_Version :: string
  pkg_Source :: string
  pkg_Checksum :: string
  pkg_Dependencies :: "Dependency list"

record Lock =
  lock_Version :: int
  Packages :: "Package list"

definition SchemaVersion :: int where
  "SchemaVersion = 1"

datatype lock_error =
  TomlFailed toml_error | VersionNotInteger | VersionTooNew int | PackageNotArray | EntryNotTable nat
| NameMissing nat | VersionMissing nat | SourceNotString nat | ChecksumNotString nat
| DependenciesNotArray nat | DependencyNotString nat | InvalidDependency nat string

section \<open>Dependencies as text\<close>

definition DependencyString :: "string \<Rightarrow> string \<Rightarrow> string \<Rightarrow> string" where
  "DependencyString name version source =
     (if source = [] then name @ '' '' @ version else name @ '' '' @ version @ '' ('' @ source @ '')'')"

text \<open>The loop over the bytes; \<open>cur\<close> is the field being read (\<open>head[start:i]\<close>).\<close>

fun dep_fields :: "string \<Rightarrow> string \<Rightarrow> string list" where
  "dep_fields cur [] = (if cur = [] then [] else [cur])"
| "dep_fields cur (c # cs) =
     (if is_blank c then (if cur = [] then [] else [cur]) @ dep_fields [] cs else dep_fields (cur @ [c]) cs)"

definition parseDependencyFields :: "string \<Rightarrow> string list" where
  "parseDependencyFields head = dep_fields [] head"

definition ParseDependency :: "string \<Rightarrow> Dependency option" where
  "ParseDependency s =
     (let trimmed = TrimSpace s;
          open0 = length (takeWhile (\<lambda>c. c \<noteq> CHR ''('') trimmed);
          sourced = (trimmed \<noteq> [] \<and> last trimmed = CHR '')'' \<and> CHR ''('' \<in> set trimmed \<and> open0 > 0);
          source = (if sourced then butlast (drop (open0 + 1) trimmed) else []);
          head = (if sourced then TrimSpace (take open0 trimmed) else trimmed)
      in case parseDependencyFields head of
           [n, v] \<Rightarrow> Some \<lparr>dep_Name = n, dep_Version = v, dep_Source = source\<rparr>
         | _ \<Rightarrow> None)"

definition Dependency_String :: "Dependency \<Rightarrow> string" where
  "Dependency_String d = DependencyString (dep_Name d) (dep_Version d) (dep_Source d)"

section \<open>Reading\<close>

text \<open>An optional string field: absent, present, or of the wrong type at a line.\<close>

definition string_field :: "string \<Rightarrow> Table \<Rightarrow> (nat \<Rightarrow> lock_error) \<Rightarrow> lock_error + string" where
  "string_field k t wrong = (case Table_Get k t of None \<Rightarrow> Inr [] | Some (StrV s _) \<Rightarrow> Inr s
     | Some (IntV _ ln) \<Rightarrow> Inl (wrong ln) | Some (BoolV _ ln) \<Rightarrow> Inl (wrong ln)
     | Some (ArrV _ ln) \<Rightarrow> Inl (wrong ln) | Some (TblV _ ln) \<Rightarrow> Inl (wrong ln))"

fun value_line :: "Value \<Rightarrow> nat" where
  "value_line (StrV _ ln) = ln"
| "value_line (IntV _ ln) = ln"
| "value_line (BoolV _ ln) = ln"
| "value_line (ArrV _ ln) = ln"
| "value_line (TblV _ ln) = ln"

fun parse_deps :: "Value list \<Rightarrow> lock_error + Dependency list" where
  "parse_deps [] = Inr []"
| "parse_deps (v # vs) =
     (case v of
        StrV s ln \<Rightarrow>
          (case ParseDependency s of None \<Rightarrow> Inl (InvalidDependency ln (TrimSpace s))
           | Some d \<Rightarrow> (case parse_deps vs of Inl e \<Rightarrow> Inl e | Inr ds \<Rightarrow> Inr (d # ds)))
      | _ \<Rightarrow> Inl (DependencyNotString (value_line v)))"

definition parseLockPackage :: "Table \<Rightarrow> lock_error + Package" where
  "parseLockPackage t =
     (case Table_Get ''name'' t of
        Some (StrV name _) \<Rightarrow>
          (case Table_Get ''version'' t of
             Some (StrV ver _) \<Rightarrow>
               (case string_field ''source'' t SourceNotString of Inl e \<Rightarrow> Inl e | Inr src \<Rightarrow>
               (case string_field ''checksum'' t ChecksumNotString of Inl e \<Rightarrow> Inl e | Inr chk \<Rightarrow>
               (case (case Table_Get ''dependencies'' t of None \<Rightarrow> Inr []
                      | Some (ArrV vs _) \<Rightarrow> parse_deps vs
                      | Some v \<Rightarrow> Inl (DependenciesNotArray (value_line v))) of
                  Inl e \<Rightarrow> Inl e
                | Inr deps \<Rightarrow> Inr \<lparr>pkg_Name = name, pkg_Version = ver, pkg_Source = src, pkg_Checksum = chk,
                                   pkg_Dependencies = deps\<rparr>)))
           | _ \<Rightarrow> Inl (VersionMissing (tbl_Line t)))
      | _ \<Rightarrow> Inl (NameMissing (tbl_Line t)))"

fun parse_packages :: "Value list \<Rightarrow> lock_error + Package list" where
  "parse_packages [] = Inr []"
| "parse_packages (v # vs) =
     (case v of
        TblV t ln \<Rightarrow>
          (case parseLockPackage t of Inl e \<Rightarrow> Inl e
           | Inr p \<Rightarrow> (case parse_packages vs of Inl e \<Rightarrow> Inl e | Inr ps \<Rightarrow> Inr (p # ps)))
      | _ \<Rightarrow> Inl (EntryNotTable (value_line v)))"

definition lock_of_table :: "Table \<Rightarrow> lock_error + Lock" where
  "lock_of_table root =
     (case (case Table_Get ''version'' root of None \<Rightarrow> Inr SchemaVersion
            | Some (IntV n _) \<Rightarrow> if n > SchemaVersion then Inl (VersionTooNew n) else Inr n
            | Some _ \<Rightarrow> Inl VersionNotInteger) of
        Inl e \<Rightarrow> Inl e
      | Inr ver \<Rightarrow>
          (case Table_Get ''package'' root of
             None \<Rightarrow> Inr \<lparr>lock_Version = ver, Packages = []\<rparr>
           | Some (ArrV vs _) \<Rightarrow>
               (case parse_packages vs of Inl e \<Rightarrow> Inl e | Inr ps \<Rightarrow> Inr \<lparr>lock_Version = ver, Packages = ps\<rparr>)
           | Some _ \<Rightarrow> Inl PackageNotArray))"

definition Lock_Parse :: "string \<Rightarrow> lock_error + Lock" where
  "Lock_Parse src = (case Toml_Parse src of Inl e \<Rightarrow> Inl (TomlFailed e) | Inr root \<Rightarrow> lock_of_table root)"

section \<open>Writing\<close>

definition hex_lower :: "nat \<Rightarrow> char" where
  "hex_lower d = (if d < 10 then char_of (48 + d) else char_of (87 + d))"

definition twoHexLower :: "nat \<Rightarrow> string" where
  "twoHexLower b = [hex_lower (b div 16 mod 16), hex_lower (b mod 16)]"

definition toml_escape :: "char \<Rightarrow> string" where
  "toml_escape c =
     (if c = DQ then [BSL, DQ] else if c = BSL then [BSL, BSL] else if c = CHR 0x07 then [BSL, CHR ''a'']
      else if c = CHR 0x08 then [BSL, CHR ''b''] else if c = CHR 0x09 then [BSL, CHR ''t'']
      else if c = CHR 0x0A then [BSL, CHR ''n''] else if c = CHR 0x0B then [BSL, CHR ''v'']
      else if c = CHR 0x0C then [BSL, CHR ''f''] else if c = CHR 0x0D then [BSL, CHR ''r'']
      else if 0x20 \<le> (of_char c :: int) \<and> (of_char c :: int) \<le> 0x7E then [c]
      else if (of_char c :: int) < 0x20 \<or> (of_char c :: int) = 0x7F then BSL # CHR ''x'' # twoHexLower (of_char c)
      else [c])"

definition TomlBasicString :: "string \<Rightarrow> string" where
  "TomlBasicString s = DQ # concat (map toml_escape s) @ [DQ]"

definition lockSortKey :: "string \<Rightarrow> string \<Rightarrow> string" where
  "lockSortKey name version = name @ CHR 0x00 # version"

definition sort_deps :: "Dependency list \<Rightarrow> Dependency list" where
  "sort_deps = sort_key (\<lambda>d. lockSortKey (dep_Name d) (dep_Version d))"

definition sort_packages :: "Package list \<Rightarrow> Package list" where
  "sort_packages = sort_key (\<lambda>p. lockSortKey (pkg_Name p) (pkg_Version p))"

definition itoa_int :: "int \<Rightarrow> string" where
  "itoa_int i = (if i < 0 then CHR ''-'' # itoa (nat (- i)) else itoa (nat i))"

definition kv_line :: "string \<Rightarrow> string \<Rightarrow> string" where
  "kv_line k v = k @ '' = '' @ v @ [NL]"

definition deps_text :: "Dependency list \<Rightarrow> string" where
  "deps_text ds =
     ''['' @ [NL] @ concat (map (\<lambda>d. ''    '' @ TomlBasicString (Dependency_String d) @ '','' @ [NL]) ds) @ '']''"

definition package_text :: "Package \<Rightarrow> string" where
  "package_text p =
     NL # (CHR ''['' # ''[package]]'') @ [NL] @ kv_line ''name'' (TomlBasicString (pkg_Name p)) @
     kv_line ''version'' (TomlBasicString (pkg_Version p)) @
     (if pkg_Source p \<noteq> [] then kv_line ''source'' (TomlBasicString (pkg_Source p)) else []) @
     (if pkg_Checksum p \<noteq> [] then kv_line ''checksum'' (TomlBasicString (pkg_Checksum p)) else []) @
     (if pkg_Dependencies p \<noteq> [] then kv_line ''dependencies'' (deps_text (sort_deps (pkg_Dependencies p))) else [])"

definition MarshalLockfile :: "int \<Rightarrow> Package list \<Rightarrow> string" where
  "MarshalLockfile version packages =
     ''# This file is auto-generated by osty.'' @ [NL] @
     ''# Do not edit manually; `osty update` regenerates it.'' @ [NL, NL] @
     kv_line ''version'' (itoa_int version) @ concat (map package_text (sort_packages packages))"

definition Marshal :: "Lock \<Rightarrow> string" where
  "Marshal l = MarshalLockfile (lock_Version l) (Packages l)"

definition Lock_Find :: "Lock \<Rightarrow> string \<Rightarrow> string \<Rightarrow> Package option" where
  "Lock_Find l name version = find (\<lambda>p. pkg_Name p = name \<and> pkg_Version p = version) (Packages l)"

definition FindByName :: "Lock \<Rightarrow> string \<Rightarrow> Package list" where
  "FindByName l name = filter (\<lambda>p. pkg_Name p = name) (Packages l)"

section \<open>Dependency texts\<close>

definition word_ok :: "string \<Rightarrow> bool" where
  "word_ok s \<longleftrightarrow> s \<noteq> [] \<and> list_all (\<lambda>c. graphic c \<and> c \<noteq> CHR ''('' \<and> c \<noteq> CHR '')'') s"

lemma graphic_ends:
  assumes "s \<noteq> []"
  shows "graphic (hd s) \<Longrightarrow> space_prefix s = 0" "graphic (last s) \<Longrightarrow> space_suffix s = 0"
proof -
  have r: "r \<noteq> [] \<and> \<not> graphic (hd r) \<and> \<not> graphic (last r)" if "r \<in> set space_runes" for r
    using spaces_not_graphic that by (auto simp: list_all_iff)
  have pre: "hd s = hd r" if "take (length r) s = r" "r \<noteq> []" for r s :: string
    using that by (cases s; cases r) auto
  show "space_prefix s = 0" if "graphic (hd s)"
  proof -
    have "find (\<lambda>r. take (length r) s = r) space_runes = None" unfolding find_None_iff using r pre that by metis
    then show ?thesis by (simp add: space_prefix_def)
  qed
  show "space_suffix s = 0" if "graphic (last s)"
  proof -
    have "take (length r) (rev s) \<noteq> rev r" if "r \<in> set space_runes" for r
      using r [OF that] pre [of "rev r" "rev s"] \<open>graphic (last s)\<close> by (auto simp: hd_rev)
    then have "find (\<lambda>r. take (length r) (rev s) = rev r) space_runes = None" unfolding find_None_iff by blast
    then show ?thesis by (simp add: space_suffix_def)
  qed
qed

lemma TrimSpace_graphic:
  assumes "s \<noteq> []" "graphic (hd s)" "graphic (last s)"
  shows "TrimSpace s = s"
proof -
  have "trim_left n s = s" "trim_right n s = s" for n using graphic_ends [OF assms(1)] assms(2,3) by (cases n; simp)+
  then show ?thesis by (simp add: TrimSpace_def Let_def)
qed

lemma TrimSpace_trailing:
  assumes "s \<noteq> []" "graphic (hd s)" "graphic (last s)"
  shows "TrimSpace (s @ '' '') = s"
proof -
  have l: "trim_left n (s @ '' '') = s @ '' ''" for n using graphic_ends(1) [of "s @ '' ''"] assms by (cases n) auto
  have "space_suffix (s @ '' '') = 1" by (simp add: space_suffix_def space_runes_def)
  moreover have "trim_right n s = s" for n using graphic_ends(2) [OF assms(1,3)] by (cases n) simp_all
  ultimately show ?thesis unfolding TrimSpace_def Let_def l by simp
qed

lemma dep_fields_word:
  "list_all graphic w \<Longrightarrow> dep_fields cur (w @ s) = dep_fields (cur @ w) s"
proof (induction w arbitrary: cur)
  case (Cons c w)
  then have "\<not> is_blank c" by (auto simp: is_blank_def graphic_def)
  then show ?case using Cons by simp
qed simp

lemma dep_fields_two:
  assumes "word_ok n" "word_ok v"
  shows "parseDependencyFields (n @ '' '' @ v) = [n, v]"
proof -
  have g: "list_all graphic n" "list_all graphic v" "n \<noteq> []" "v \<noteq> []" using assms by (auto simp: word_ok_def list_all_iff)
  have "dep_fields [] v = [v]" using dep_fields_word [OF g(2), of "[]" "[]"] g(4) by simp
  then show ?thesis using dep_fields_word [OF g(1), of "[]" "'' '' @ v"] g(3) by (simp add: parseDependencyFields_def is_blank_def)
qed

definition dep_ok :: "Dependency \<Rightarrow> bool" where
  "dep_ok d \<longleftrightarrow> word_ok (dep_Name d) \<and> word_ok (dep_Version d)"

lemma ParseDependency_sourced:
  assumes "TrimSpace s = p @ CHR ''('' # src @ '')''" "p \<noteq> []" "CHR ''('' \<notin> set p" "parseDependencyFields (TrimSpace p) = [n, v]"
  shows "ParseDependency s = Some \<lparr>dep_Name = n, dep_Version = v, dep_Source = src\<rparr>"
proof -
  have "takeWhile (\<lambda>c. c \<noteq> CHR ''('') p = p" using assms(3) unfolding takeWhile_eq_all_conv by auto
  then have t: "takeWhile (\<lambda>c. c \<noteq> CHR ''('') (p @ CHR ''('' # src @ '')'') = p" by (simp add: takeWhile_tail)
  show ?thesis unfolding ParseDependency_def Let_def assms(1) t using assms(2,4) by simp
qed

lemma ParseDependency_String:
  assumes "dep_ok d"
  shows "ParseDependency (Dependency_String d) = Some d"
proof -
  obtain n v src where d: "d = \<lparr>dep_Name = n, dep_Version = v, dep_Source = src\<rparr>" by (cases d)
  have w: "word_ok n" "word_ok v" using assms d by (simp_all add: dep_ok_def)
  let ?h = "n @ '' '' @ v"
  have h: "?h \<noteq> []" "graphic (hd ?h)" "graphic (last ?h)" "last ?h \<noteq> CHR '')''" "CHR ''('' \<notin> set ?h"
    using w by (auto simp: word_ok_def list_all_iff)
  show ?thesis
  proof (cases "src = []")
    case True
    then show ?thesis using d h TrimSpace_graphic [OF h(1-3)] dep_fields_two [OF w]
      by (simp add: ParseDependency_def Dependency_String_def DependencyString_def Let_def)
  next
    case False
    let ?s = "?h @ '' ('' @ src @ '')''"
    have "TrimSpace ?s = ?s" by (rule TrimSpace_graphic) (use h w in \<open>auto simp: graphic_def word_ok_def\<close>)
    then have "ParseDependency ?s = Some \<lparr>dep_Name = n, dep_Version = v, dep_Source = src\<rparr>"
      by (intro ParseDependency_sourced [where p = "?h @ '' ''"])
        (use h(5) TrimSpace_trailing [OF h(1-3)] dep_fields_two [OF w] in simp_all)
    then show ?thesis using d False by (simp add: Dependency_String_def DependencyString_def)
  qed
qed

section \<open>Strings and numbers\<close>

text \<open>The bytes that survive writing and reading: everything but control characters that the reader has no
  escape for.\<close>

definition readable :: "char \<Rightarrow> bool" where
  "readable c \<longleftrightarrow> c \<in> {CHR 0x08, CHR 0x09, CHR 0x0A, CHR 0x0C, CHR 0x0D} \<or> 32 \<le> (of_char c :: int) \<and> (of_char c :: int) \<noteq> 127"

lemma str_loop_readable:
  assumes "readable c"
  shows "str_loop (toml_escape c @ t) ln out = str_loop t ln (out @ [c])"
proof (cases "c \<in> {DQ, BSL, CHR 0x08, CHR 0x09, CHR 0x0A, CHR 0x0C, CHR 0x0D}")
  case True
  then show ?thesis by (elim insertE emptyE; simp add: toml_escape_def unescape_def)
next
  case False
  then have "32 \<le> (of_char c :: int)" "(of_char c :: int) \<noteq> 127" using assms by (auto simp: readable_def)
  moreover from this have "c \<noteq> CHR 0x07" "c \<noteq> CHR 0x0B" by auto
  ultimately have "toml_escape c = [c]" using False by (simp add: toml_escape_def)
  then show ?thesis using False by simp
qed

lemma str_loop_escaped:
  "list_all readable s \<Longrightarrow> str_loop (concat (map toml_escape s) @ DQ # after) ln out = Inr (out @ s, \<lparr>unread = after, lineNo = ln\<rparr>)"
  by (induction s arbitrary: out) (simp_all add: str_loop_readable)

text \<open>The first byte the reader has no escape for stops it.\<close>

lemma str_loop_stops:
  "\<not> list_all readable s \<Longrightarrow> \<exists>e. str_loop (concat (map toml_escape s) @ DQ # after) ln out = Inl (ln, UnknownEscape e)"
proof (induction s arbitrary: out)
  case (Cons c s)
  show ?case
  proof (cases "readable c")
    case True
    then show ?thesis using Cons str_loop_readable [OF True] by simp
  next
    case False
    have "\<forall>d \<in> {DQ, BSL, CHR 0x08, CHR 0x09, CHR 0x0A, CHR 0x0C, CHR 0x0D}. readable d" by (simp add: readable_def)
    then have n: "c \<notin> {DQ, BSL, CHR 0x08, CHR 0x09, CHR 0x0A, CHR 0x0C, CHR 0x0D}" using False by blast
    have r: "(of_char c :: int) < 32 \<or> (of_char c :: int) = 127" using False unfolding readable_def by linarith
    obtain e t where e: "toml_escape c = BSL # e # t" "e \<in> {CHR ''a'', CHR ''v'', CHR ''x''}"
    proof (cases "c = CHR 0x07 \<or> c = CHR 0x0B")
      case True
      then show thesis using that by (elim disjE) (simp_all add: toml_escape_def)
    next
      case False
      then have "toml_escape c = BSL # CHR ''x'' # twoHexLower (of_char c)" using n r by (elim disjE) (simp_all add: toml_escape_def)
      then show thesis using that by simp
    qed
    have "unescape e = None" "e \<noteq> NL" "e \<noteq> CHR ''u''" using e(2) by (auto simp: unescape_def)
    then show ?thesis using e(1) by simp
  qed
qed simp

lemma parseValue_string:
  assumes "list_all readable s"
  shows "value_fuel (Suc n) \<lparr>unread = TomlBasicString s @ after, lineNo = ln\<rparr> = Inr (StrV s ln, \<lparr>unread = after, lineNo = ln\<rparr>)"
  using str_loop_escaped [OF assms, of after ln "[]"]
  by (simp add: value_step_def atEnd_def TomlBasicString_def parseBasicString_def at_char_def)

lemma ParseInt_itoa_int:
  assumes "- (2 ^ 63) \<le> i" "i < 2 ^ 63"
  shows "ParseInt (itoa_int i) = Some i"
proof -
  have d: "hd (itoa n) \<noteq> CHR ''-''" "hd (itoa n) \<noteq> CHR ''+''" for n
    using itoa_digits [of n] by (cases "itoa n"; force simp: is_digit_def)+
  show ?thesis using assms d itoa_digits [of "nat i"] itoa_digits [of "nat (- i)"]
    by (auto simp: ParseInt_def itoa_int_def Let_def digits_val_itoa)
qed

lemma parseValue_int:
  assumes "- (2 ^ 63) \<le> i" "i < 2 ^ 63"
  shows "value_fuel (Suc n) \<lparr>unread = itoa_int i @ NL # after, lineNo = ln\<rparr> = Inr (IntV i ln, \<lparr>unread = NL # after, lineNo = ln\<rparr>)"
proof -
  let ?P = "\<lambda>c. is_digit c \<or> c = CHR ''_''"
  obtain sign ds where i: "itoa_int i = sign @ ds" "sign = [] \<or> sign = ''-''" "ds \<noteq> []" "list_all is_digit ds"
  proof (cases "i < 0")
    case True
    then show thesis using that [of "''-''" "itoa (nat (- i))"] itoa_digits by (simp add: itoa_int_def)
  next
    case False
    then show thesis using that [of "[]" "itoa (nat i)"] itoa_digits by (simp add: itoa_int_def)
  qed
  have d: "is_digit (hd ds)" using i(3,4) by (cases ds) auto
  then have h: "hd ds \<noteq> CHR ''-''" "hd ds \<noteq> CHR ''+''" "hd ds \<noteq> DQ" "hd ds \<noteq> CHR ''[''" "hd ds \<noteq> CHR ''{''"
      "hd ds \<noteq> CHR ''t''" "hd ds \<noteq> CHR ''f''"
    by (auto simp: is_digit_def)
  have sep: "\<not> is_digit NL" "\<not> is_digit CHR ''_''" by (simp_all add: is_digit_def)
  have w: "takeWhile ?P (ds @ NL # after) = ds" "dropWhile ?P (ds @ NL # after) = NL # after"
    using i(4) sep(1) by (auto simp: list_all_iff takeWhile_append2 dropWhile_append2)
  have f: "filter (\<lambda>c. c \<noteq> CHR ''_'') ds = ds" using i(4) sep(2) by (auto simp: list_all_iff filter_id_conv)
  have p: "ParseInt (sign @ ds) = Some i" using ParseInt_itoa_int [OF assms] i(1) by simp
  have n: "parseNumber \<lparr>unread = sign @ ds @ NL # after, lineNo = ln\<rparr> = Inr (IntV i ln, \<lparr>unread = NL # after, lineNo = ln\<rparr>)"
    using i(2) p by (elim disjE) (simp_all add: parseNumber_def at_char_def Let_def i(3) d h w f)
  have "value_fuel (Suc n) \<lparr>unread = sign @ ds @ NL # after, lineNo = ln\<rparr> = parseNumber \<lparr>unread = sign @ ds @ NL # after, lineNo = ln\<rparr>"
    using i(2) by (elim disjE) (simp_all add: value_step_def atEnd_def Let_def i(3) d h)
  then show ?thesis using i(1) n by simp
qed

text \<open>The array of dependency strings.\<close>

definition items_text :: "string list \<Rightarrow> string" where
  "items_text ss = concat (map (\<lambda>s. ''    '' @ TomlBasicString s @ '','' @ [NL]) ss)"

lemma skipWS_simps [simp]:
  "skipWhitespaceAndComments \<lparr>unread = NL # t, lineNo = ln\<rparr> = skipWhitespaceAndComments \<lparr>unread = t, lineNo = ln + 1\<rparr>"
  "skipWhitespaceAndComments \<lparr>unread = CHR '' '' # t, lineNo = ln\<rparr> = skipWhitespaceAndComments \<lparr>unread = t, lineNo = ln\<rparr>"
  "skipWhitespaceAndComments \<lparr>unread = DQ # t, lineNo = ln\<rparr> = \<lparr>unread = DQ # t, lineNo = ln\<rparr>"
  "skipWhitespaceAndComments \<lparr>unread = CHR '']'' # t, lineNo = ln\<rparr> = \<lparr>unread = CHR '']'' # t, lineNo = ln\<rparr>"
  "skipWhitespaceAndComments \<lparr>unread = CHR '','' # t, lineNo = ln\<rparr> = \<lparr>unread = CHR '','' # t, lineNo = ln\<rparr>"
  by (simp_all add: skipWhitespaceAndComments_def is_blank_def)

lemma array_loop_items:
  "list_all (list_all readable) ss \<Longrightarrow> length ss < m \<Longrightarrow>
    \<exists>ln' ws. array_loop (value_fuel (Suc k)) sl m \<lparr>unread = NL # items_text ss @ CHR '']'' # after, lineNo = ln\<rparr> vs =
      Inr (ArrV (vs @ ws) sl, \<lparr>unread = after, lineNo = ln'\<rparr>) \<and> list_all2 (\<lambda>w s. \<exists>l. w = StrV s l) ws ss"
proof (induction ss arbitrary: m ln vs)
  case Nil
  then show ?case by (cases m) (simp_all add: items_text_def atEnd_def at_char_def advance_def)
next
  case (Cons s ss)
  then obtain m' where m: "m = Suc m'" by (cases m) auto
  let ?t = "CHR '','' # NL # items_text ss @ CHR '']'' # after"
  have v: "value_fuel (Suc k) \<lparr>unread = TomlBasicString s @ ?t, lineNo = ln + 1\<rparr> = Inr (StrV s (ln + 1), \<lparr>unread = ?t, lineNo = ln + 1\<rparr>)"
    using Cons.prems by (intro parseValue_string) simp
  obtain q where q: "TomlBasicString s @ ?t = DQ # q" by (simp add: TomlBasicString_def)
  have "array_loop (value_fuel (Suc k)) sl m \<lparr>unread = NL # items_text (s # ss) @ CHR '']'' # after, lineNo = ln\<rparr> vs =
      array_loop (value_fuel (Suc k)) sl m' \<lparr>unread = NL # items_text ss @ CHR '']'' # after, lineNo = ln + 1\<rparr> (vs @ [StrV s (ln + 1)])"
    using v q unfolding m by (simp add: items_text_def atEnd_def at_char_def advance_def del: value_fuel.simps)
  then show ?case using Cons.IH [of m' "ln + 1" "vs @ [StrV s (ln + 1)]"] Cons.prems m by fastforce
qed

section \<open>What the reader has built\<close>

text \<open>The content of a package table, lines aside: strings and lists of strings under their keys.\<close>

datatype content = CStr string | CStrs "string list"

fun holds :: "Value \<Rightarrow> content \<Rightarrow> bool" where
  "holds (StrV s l) (CStr t) = (s = t)"
| "holds (ArrV ws l) (CStrs ss) = list_all2 (\<lambda>w s. \<exists>l. w = StrV s l) ws ss"
| "holds _ _ = False"

lemma holds_with_line [simp]: "holds (with_line ln v) c = holds v c"
  by (cases v; cases c) simp_all

definition fields_are :: "Table \<Rightarrow> (string \<rightharpoonup> content) \<Rightarrow> bool" where
  "fields_are t m \<longleftrightarrow> (\<forall>k. rel_option holds (Table_Get k t) (m k))"

definition entry_is :: "Value \<Rightarrow> (string \<rightharpoonup> content) \<Rightarrow> bool" where
  "entry_is w m \<longleftrightarrow> (\<exists>t l. w = TblV t l \<and> fields_are t m)"

definition doc :: "int \<Rightarrow> (string \<rightharpoonup> content) list \<Rightarrow> Table \<Rightarrow> bool" where
  "doc ver ms root \<longleftrightarrow> (\<exists>l. Table_Get ''version'' root = Some (IntV ver l)) \<and>
     (if ms = [] then Table_Get ''package'' root = None
      else \<exists>vs l. Table_Get ''package'' root = Some (ArrV vs l) \<and> list_all2 entry_is vs ms)"

lemma map_of_assoc_set: "map_of (assoc_set k v xs) j = (if j = k then Some v else map_of xs j)"
  by (induction k v xs rule: assoc_set.induct) auto

lemma Table_Get_Set [simp]: "Table_Get j (Table_Set k v t) = (if j = k then Some v else Table_Get j t)"
  by (simp add: Table_Get_def Table_Set_def map_of_assoc_set)

lemma Table_Get_New [simp]: "Table_Get k (NewTable b ln) = None"
  by (simp add: Table_Get_def NewTable_def)

lemma fields_are_None: "fields_are t m \<Longrightarrow> m k = None \<Longrightarrow> Table_Get k t = None"
  unfolding fields_are_def by (elim allE [of _ k]) simp

lemma fields_are_Some:
  assumes "fields_are t m" "m k = Some c"
  obtains v where "Table_Get k t = Some v" "holds v c"
proof -
  have "rel_option holds (Table_Get k t) (Some c)" using assms unfolding fields_are_def by metis
  then show thesis using that by (auto simp: option_rel_Some2)
qed

lemma fields_are_Set:
  assumes "fields_are t m" "holds v c"
  shows "fields_are (Table_Set k v t) (m(k \<mapsto> c))"
  using assms by (auto simp: fields_are_def)

lemma doc_set:
  assumes "doc ver (ms @ [m]) root" "m k = None" "holds v c"
  shows "\<exists>root'. at_table [''package''] (set_key ln [k] [] [k] v) root = Inr root' \<and> doc ver (ms @ [m(k \<mapsto> c)]) root'"
proof -
  obtain l vs l1 where r: "Table_Get ''version'' root = Some (IntV ver l)" "Table_Get ''package'' root = Some (ArrV vs l1)"
      "list_all2 entry_is vs (ms @ [m])"
    using assms(1) by (auto simp: doc_def)
  obtain us w where vs: "vs = us @ [w]" "list_all2 entry_is us ms" "entry_is w m"
    using r(3) by (auto simp: list_all2_append2 list_all2_Cons2)
  obtain t l2 where w: "w = TblV t l2" "fields_are t m" using vs(3) by (auto simp: entry_is_def)
  have "Table_Get k t = None" using fields_are_None [OF w(2) assms(2)] .
  moreover have "entry_is (TblV (Table_Set k (with_line ln v) t) l2) (m(k \<mapsto> c))"
    using fields_are_Set [OF w(2), of "with_line ln v"] assms(3) by (simp add: entry_is_def)
  ultimately show ?thesis using r vs w by (auto simp: doc_def intro!: list_all2_appendI)
qed

lemma doc_open:
  assumes "doc ver ms root"
  shows "\<exists>root'. open_table True ln [''package''] [] [''package''] root = Inr root' \<and> doc ver (ms @ [Map.empty]) root'"
proof -
  have e: "entry_is (TblV (NewTable False ln) ln) Map.empty" by (simp add: entry_is_def fields_are_def)
  show ?thesis
  proof (cases "ms = []")
    case True
    then show ?thesis using assms e by (auto simp: doc_def)
  next
    case False
    then show ?thesis using assms e by (auto simp: doc_def intro!: list_all2_appendI)
  qed
qed

section \<open>Reading what was written\<close>

text \<open>\<open>reads txt path P path' P'\<close>: from a table with \<open>P\<close>, reading \<open>txt\<close> leads to a table with \<open>P'\<close>, whatever follows.\<close>

definition reads :: "string \<Rightarrow> string list \<Rightarrow> (Table \<Rightarrow> bool) \<Rightarrow> string list \<Rightarrow> (Table \<Rightarrow> bool) \<Rightarrow> bool" where
  "reads txt path P path' P' \<longleftrightarrow> (\<forall>n after ln root. P root \<and> length (txt @ after) < n \<longrightarrow>
     (\<exists>m ln' root'. P' root' \<and> length after < m \<and>
        root_loop n \<lparr>unread = txt @ after, lineNo = ln\<rparr> root path = root_loop m \<lparr>unread = after, lineNo = ln'\<rparr> root' path'))"

lemma reads_nil: "reads [] path P path P"
  unfolding reads_def by auto

lemma reads_append:
  assumes "reads s p P q Q" "reads t q Q r R"
  shows "reads (s @ t) p P r R"
  unfolding reads_def
proof (intro allI impI, elim conjE)
  fix n after ln root
  assume a: "P root" "length ((s @ t) @ after) < n"
  obtain m ln1 root1 where 1: "Q root1" "length (t @ after) < m"
      "root_loop n \<lparr>unread = s @ t @ after, lineNo = ln\<rparr> root p = root_loop m \<lparr>unread = t @ after, lineNo = ln1\<rparr> root1 q"
    using assms(1) a unfolding reads_def by (metis append.assoc)
  obtain m' ln2 root2 where "R root2" "length after < m'"
      "root_loop m \<lparr>unread = t @ after, lineNo = ln1\<rparr> root1 q = root_loop m' \<lparr>unread = after, lineNo = ln2\<rparr> root2 r"
    using assms(2) 1 unfolding reads_def by blast
  then show "\<exists>m ln' root'. R root' \<and> length after < m \<and>
      root_loop n \<lparr>unread = (s @ t) @ after, lineNo = ln\<rparr> root p = root_loop m \<lparr>unread = after, lineNo = ln'\<rparr> root' r"
    using 1(3) by (intro exI [of _ m'] exI [of _ ln2] exI [of _ root2]) simp
qed

lemma root_loop_newline:
  "0 < m \<Longrightarrow> root_loop m \<lparr>unread = NL # t, lineNo = ln\<rparr> root p = root_loop m \<lparr>unread = t, lineNo = ln + 1\<rparr> root p"
  by (cases m) simp_all

lemma bare_key_stops:
  assumes "isBareKeyChar c"
  shows "\<not> is_blank c" "c \<noteq> NL" "c \<noteq> CHR 0x0D" "c \<noteq> CHR 0x23" "c \<noteq> CHR ''[''" "c \<noteq> DQ"
  using assms by (auto simp: isBareKeyChar_def is_alnum_dash_def is_blank_def Let_def)

text \<open>One line \<open>key = value\<close>.\<close>

lemma root_loop_kv:
  assumes k: "k \<noteq> []" "list_all isBareKeyChar k" and vt: "vt \<noteq> []" "\<not> is_blank (hd vt)"
  shows "root_loop (Suc n) \<lparr>unread = kv_line k vt @ after, lineNo = ln\<rparr> root path =
    (case bindT (parseValue \<lparr>unread = vt @ NL # after, lineNo = ln\<rparr>) (\<lambda>v st3.
         case at_table path (set_key ln [k] [] [k] v) root of
           Inl m \<Rightarrow> errorf m st3
         | Inr root' \<Rightarrow>
             (let st4 = skipHorizontalWhitespace st3 in
              if \<not> at_eol st4 then errorf GarbageAfterValue st4 else Inr (root', st4))) of
       Inl e \<Rightarrow> Inl e | Inr (root', st2) \<Rightarrow> root_loop n st2 root' path)"
proof -
  let ?rest = "'' = '' @ vt @ NL # after"
  obtain c cs where kc: "k = c # cs" "isBareKeyChar c" using k by (cases k) auto
  have skip: "skipWhitespaceAndComments \<lparr>unread = k @ ?rest, lineNo = ln\<rparr> = \<lparr>unread = k @ ?rest, lineNo = ln\<rparr>"
    using kc bare_key_stops [OF kc(2)] by (simp add: skipWhitespaceAndComments_def)
  have eq: "\<not> isBareKeyChar CHR '' ''" by (simp add: isBareKeyChar_def is_alnum_dash_def)
  have tw: "takeWhile isBareKeyChar (k @ ?rest) = k" "dropWhile isBareKeyChar (k @ ?rest) = ?rest"
    using k(2) eq by (auto simp: list_all_iff takeWhile_append2 dropWhile_append2)
  have "parseSingleKey \<lparr>unread = k @ ?rest, lineNo = ln\<rparr> = Inr (k, \<lparr>unread = ?rest, lineNo = ln\<rparr>)"
    using tw k(1) kc bare_key_stops(6) [OF kc(2)] by (simp add: parseSingleKey_def atEnd_def at_char_def Let_def del: takeWhile.simps dropWhile.simps)
  then have key: "parseDottedKey \<lparr>unread = k @ ?rest, lineNo = ln\<rparr> = Inr ([k], \<lparr>unread = tl ?rest, lineNo = ln\<rparr>)"
    using kc bare_key_stops(1) [OF kc(2)]
    by (simp add: parseDottedKey_def skipHorizontalWhitespace_def at_char_def is_blank_def)
  have blank: "is_blank CHR '' ''" "\<not> is_blank NL" "\<not> is_blank CHR ''=''" by (simp_all add: is_blank_def)
  have drop: "dropWhile is_blank (vt @ NL # after) = vt @ NL # after" using vt by (cases vt) simp_all
  have kv: "kv_line k vt @ after = k @ ?rest" by (simp add: kv_line_def)
  have "\<not> atEnd \<lparr>unread = k @ ?rest, lineNo = ln\<rparr>" "\<not> at_char CHR ''['' \<lparr>unread = k @ ?rest, lineNo = ln\<rparr>"
    using kc bare_key_stops(5) [OF kc(2)] by (simp_all add: atEnd_def at_char_def)
  moreover have "skipHorizontalWhitespace (advance (skipHorizontalWhitespace \<lparr>unread = tl ?rest, lineNo = ln\<rparr>)) = \<lparr>unread = vt @ NL # after, lineNo = ln\<rparr>"
      "at_char CHR ''='' (skipHorizontalWhitespace \<lparr>unread = tl ?rest, lineNo = ln\<rparr>)"
    using drop by (simp_all add: skipHorizontalWhitespace_def at_char_def advance_def blank)
  ultimately show ?thesis
    unfolding kv root_loop.simps Let_def skip parseKeyValue_def key bindT_simps by simp
qed

lemma reads_kv:
  assumes k: "k \<noteq> []" "list_all isBareKeyChar k"
    and v: "\<And>after ln. \<exists>v ln'. parseValue \<lparr>unread = vt @ NL # after, lineNo = ln\<rparr> = Inr (v, \<lparr>unread = NL # after, lineNo = ln'\<rparr>) \<and> V v"
    and vt: "vt \<noteq> []" "\<not> is_blank (hd vt)"
    and st: "\<And>root v ln. P root \<Longrightarrow> V v \<Longrightarrow> \<exists>root'. at_table path (set_key ln [k] [] [k] v) root = Inr root' \<and> P' root'"
  shows "reads (kv_line k vt) path P path P'"
  unfolding reads_def
proof (intro allI impI, elim conjE)
  fix n after ln root
  assume a: "P root" "length (kv_line k vt @ after) < n"
  obtain n' where n: "n = Suc n'" using a(2) by (cases n) auto
  obtain w ln' where w: "parseValue \<lparr>unread = vt @ NL # after, lineNo = ln\<rparr> = Inr (w, \<lparr>unread = NL # after, lineNo = ln'\<rparr>)" "V w"
    using v by blast
  obtain root' where r: "at_table path (set_key ln [k] [] [k] w) root = Inr root'" "P' root'" using st [OF a(1) w(2)] by blast
  have eol: "skipHorizontalWhitespace \<lparr>unread = NL # after, lineNo = ln'\<rparr> = \<lparr>unread = NL # after, lineNo = ln'\<rparr>"
      "at_eol \<lparr>unread = NL # after, lineNo = ln'\<rparr>"
    by (simp_all add: skipHorizontalWhitespace_def at_eol_def at_char_def is_blank_def)
  have "root_loop n \<lparr>unread = kv_line k vt @ after, lineNo = ln\<rparr> root path = root_loop n' \<lparr>unread = NL # after, lineNo = ln'\<rparr> root' path"
    unfolding n root_loop_kv [OF k vt] w(1) bindT_simps r(1) sum.case Let_def using eol by simp
  moreover have "length after < n'" using a(2) n by (simp add: kv_line_def)
  ultimately show "\<exists>m ln' root'. P' root' \<and> length after < m \<and>
      root_loop n \<lparr>unread = kv_line k vt @ after, lineNo = ln\<rparr> root path = root_loop m \<lparr>unread = after, lineNo = ln'\<rparr> root' path"
    using r(2) root_loop_newline [of n'] by (intro exI [of _ n'] exI [of _ "ln' + 1"] exI [of _ root']) simp
qed

lemma root_loop_comment:
  assumes "NL \<notin> set c" "0 < m"
  shows "root_loop m \<lparr>unread = CHR 0x23 # c @ NL # t, lineNo = ln\<rparr> root p = root_loop m \<lparr>unread = t, lineNo = ln + 1\<rparr> root p"
proof -
  have "dropWhile (\<lambda>x. x \<noteq> NL) (c @ NL # t) = NL # t" using assms(1) by (subst dropWhile_append2) auto
  then have "skipWhitespaceAndComments \<lparr>unread = CHR 0x23 # c @ NL # t, lineNo = ln\<rparr> = skipWhitespaceAndComments \<lparr>unread = t, lineNo = ln + 1\<rparr>"
    by (simp add: skipWhitespaceAndComments_def is_blank_def)
  then show ?thesis using assms(2) by (cases m) simp_all
qed

text \<open>Lines that change nothing: comments and empty lines.\<close>

lemma reads_comment: "NL \<notin> set c \<Longrightarrow> reads (CHR 0x23 # c @ [NL]) path P path P"
  unfolding reads_def
proof (intro allI impI, elim conjE)
  fix n after ln root
  assume a: "NL \<notin> set c" "P root" "length ((CHR 0x23 # c @ [NL]) @ after) < n"
  then show "\<exists>m ln' root'. P root' \<and> length after < m \<and>
      root_loop n \<lparr>unread = (CHR 0x23 # c @ [NL]) @ after, lineNo = ln\<rparr> root path = root_loop m \<lparr>unread = after, lineNo = ln'\<rparr> root' path"
    using root_loop_comment [OF a(1), of n after ln root path]
    by (intro exI [of _ n] exI [of _ "ln + 1"] exI [of _ root]) simp
qed

lemma reads_newline: "reads [NL] path P path P"
  unfolding reads_def
proof (intro allI impI, elim conjE)
  fix n after ln root
  assume a: "P root" "length ([NL] @ after) < n"
  then show "\<exists>m ln' root'. P root' \<and> length after < m \<and>
      root_loop n \<lparr>unread = [NL] @ after, lineNo = ln\<rparr> root path = root_loop m \<lparr>unread = after, lineNo = ln'\<rparr> root' path"
    using root_loop_newline [of n after ln root path]
    by (intro exI [of _ n] exI [of _ "ln + 1"] exI [of _ root]) simp
qed

text \<open>The header that opens a package.\<close>

lemma parseHeader_package:
  assumes "open_table True ln [''package''] [] [''package''] root = Inr root'"
  shows "parseHeader root \<lparr>unread = (CHR ''['' # ''[package]]'') @ NL # after, lineNo = ln\<rparr> =
    Inr ((root', [''package'']), \<lparr>unread = NL # after, lineNo = ln\<rparr>)"
proof -
  have b: "\<not> isBareKeyChar CHR '']''" "list_all isBareKeyChar ''package''"
    by (simp_all add: isBareKeyChar_def is_alnum_dash_def Let_def is_digit_def)
  have "takeWhile isBareKeyChar (''package'' @ CHR '']'' # t) = ''package''"
      "dropWhile isBareKeyChar (''package'' @ CHR '']'' # t) = CHR '']'' # t" for t
    using b by (auto simp: list_all_iff takeWhile_append2 dropWhile_append2)
  then have k: "parseSingleKey \<lparr>unread = ''package'' @ CHR '']'' # t, lineNo = ln\<rparr> = Inr (''package'', \<lparr>unread = CHR '']'' # t, lineNo = ln\<rparr>)" for t
    by (simp add: parseSingleKey_def atEnd_def at_char_def Let_def)
  have blank: "\<not> is_blank CHR '']''" "\<not> is_blank CHR ''p''" "\<not> is_blank NL" by (simp_all add: is_blank_def)
  have "parseDottedKey \<lparr>unread = ''package'' @ CHR '']'' # t, lineNo = ln\<rparr> = Inr ([''package''], \<lparr>unread = CHR '']'' # t, lineNo = ln\<rparr>)" for t
    using k [of t] blank by (simp add: parseDottedKey_def skipHorizontalWhitespace_def at_char_def)
  from this [of "CHR '']'' # NL # after"] show ?thesis using assms blank
    by (simp add: parseHeader_def at_char_def advance_def skipHorizontalWhitespace_def at_eol_def)
qed

lemma reads_header:
  "reads ((CHR ''['' # ''[package]]'') @ [NL]) path (doc ver ms) [''package''] (doc ver (ms @ [Map.empty]))"
  unfolding reads_def
proof (intro allI impI, elim conjE)
  fix n after ln root
  assume a: "doc ver ms root" "length (((CHR ''['' # ''[package]]'') @ [NL]) @ after) < n"
  obtain n' where n: "n = Suc n'" using a(2) by (cases n) auto
  obtain root' where r: "open_table True ln [''package''] [] [''package''] root = Inr root'" "doc ver (ms @ [Map.empty]) root'"
    using doc_open [OF a(1)] by blast
  have "root_loop n \<lparr>unread = (CHR ''['' # ''[package]]'') @ NL # after, lineNo = ln\<rparr> root path = root_loop n' \<lparr>unread = NL # after, lineNo = ln\<rparr> root' [''package'']"
    using parseHeader_package [OF r(1), of after]
    by (simp add: n skipWhitespaceAndComments_def is_blank_def atEnd_def at_char_def)
  then show "\<exists>m ln' root'. doc ver (ms @ [Map.empty]) root' \<and> length after < m \<and>
      root_loop n \<lparr>unread = ((CHR ''['' # ''[package]]'') @ [NL]) @ after, lineNo = ln\<rparr> root path =
        root_loop m \<lparr>unread = after, lineNo = ln'\<rparr> root' [''package'']"
    using r(2) a(2) n root_loop_newline [of n' after ln root' "[''package'']"]
    by (intro exI [of _ n'] exI [of _ "ln + 1"] exI [of _ root']) simp
qed

section \<open>Packages\<close>

abbreviation pkg_key :: "string \<Rightarrow> bool" where
  "pkg_key k \<equiv> k \<noteq> [] \<and> list_all isBareKeyChar k"

lemma pkg_keys:
  "pkg_key ''name''" "pkg_key ''version''" "pkg_key ''source''" "pkg_key ''checksum''" "pkg_key ''dependencies''"
  by (simp_all add: isBareKeyChar_def is_alnum_dash_def Let_def is_digit_def)

lemma reads_string_field:
  assumes "pkg_key k" "list_all readable s" "m k = None"
  shows "reads (kv_line k (TomlBasicString s)) [''package''] (doc ver (ms @ [m])) [''package''] (doc ver (ms @ [m(k \<mapsto> CStr s)]))"
proof (rule reads_kv [where V = "\<lambda>v. holds v (CStr s)"])
  show "\<exists>v ln'. parseValue \<lparr>unread = TomlBasicString s @ NL # after, lineNo = ln\<rparr> = Inr (v, \<lparr>unread = NL # after, lineNo = ln'\<rparr>) \<and> holds v (CStr s)"
    for after ln
    using parseValue_string [OF assms(2), of "length (TomlBasicString s @ NL # after)" "NL # after" ln]
    by (intro exI [of _ "StrV s ln"] exI [of _ ln]) (simp add: parseValue_def del: value_fuel.simps)
qed (use assms doc_set in \<open>auto simp: TomlBasicString_def is_blank_def\<close>)

lemma reads_optional_field:
  assumes "pkg_key k" "list_all readable s" "m k = None"
  shows "reads (if s \<noteq> [] then kv_line k (TomlBasicString s) else []) [''package''] (doc ver (ms @ [m])) [''package'']
    (doc ver (ms @ [if s \<noteq> [] then m(k \<mapsto> CStr s) else m]))"
  using reads_string_field [of k s m ver ms] assms reads_nil [of "[''package'']" "doc ver (ms @ [m])"] by simp

lemma deps_text_items: "deps_text ds = CHR ''['' # NL # items_text (map Dependency_String ds) @ '']''"
  by (simp add: deps_text_def items_text_def comp_def)

lemma items_text_length: "length ss \<le> length (items_text ss)"
  by (induction ss) (simp_all add: items_text_def)

lemma reads_deps:
  assumes "list_all (\<lambda>d. list_all readable (Dependency_String d)) ds" "m ''dependencies'' = None"
  shows "reads (kv_line ''dependencies'' (deps_text ds)) [''package''] (doc ver (ms @ [m])) [''package'']
    (doc ver (ms @ [m(''dependencies'' \<mapsto> CStrs (map Dependency_String ds))]))"
proof (rule reads_kv [where V = "\<lambda>v. holds v (CStrs (map Dependency_String ds))"])
  fix after ln
  let ?in = "deps_text ds @ NL # after" and ?ss = "map Dependency_String ds"
  have t: "?in = CHR ''['' # NL # items_text ?ss @ CHR '']'' # NL # after" by (simp add: deps_text_items)
  obtain k where k: "length ?in = Suc k" by (simp add: deps_text_items)
  have val: "parseValue \<lparr>unread = ?in, lineNo = ln\<rparr> =
      array_loop (value_fuel (length ?in)) ln (Suc (length ?in)) \<lparr>unread = NL # items_text ?ss @ CHR '']'' # NL # after, lineNo = ln\<rparr> []"
    unfolding t by (simp add: parseValue_def value_step_def atEnd_def parseArray_def at_char_def advance_def del: array_loop.simps)
  have "length ?ss < Suc (length ?in)" using items_text_length [of ?ss] t by simp
  from array_loop_items [OF _ this, of k ln "NL # after" ln "[]"] assms(1)
  obtain ln' ws where "array_loop (value_fuel (Suc k)) ln (Suc (length ?in)) \<lparr>unread = NL # items_text ?ss @ CHR '']'' # NL # after, lineNo = ln\<rparr> [] =
      Inr (ArrV ws ln, \<lparr>unread = NL # after, lineNo = ln'\<rparr>)" "list_all2 (\<lambda>w s. \<exists>l. w = StrV s l) ws ?ss"
    by (auto simp: list_all_iff)
  then show "\<exists>v ln'. parseValue \<lparr>unread = ?in, lineNo = ln\<rparr> = Inr (v, \<lparr>unread = NL # after, lineNo = ln'\<rparr>) \<and>
      holds v (CStrs (map Dependency_String ds))"
    using val k by (intro exI [of _ "ArrV ws ln"] exI [of _ ln']) (simp del: array_loop.simps value_fuel.simps)
qed (use assms(2) pkg_keys doc_set in \<open>auto simp: deps_text_items is_blank_def\<close>)

definition package_fields :: "Package \<Rightarrow> string \<rightharpoonup> content" where
  "package_fields p =
     (let m1 = [''name'' \<mapsto> CStr (pkg_Name p), ''version'' \<mapsto> CStr (pkg_Version p)];
          m2 = (if pkg_Source p \<noteq> [] then m1(''source'' \<mapsto> CStr (pkg_Source p)) else m1);
          m3 = (if pkg_Checksum p \<noteq> [] then m2(''checksum'' \<mapsto> CStr (pkg_Checksum p)) else m2)
      in if pkg_Dependencies p \<noteq> []
         then m3(''dependencies'' \<mapsto> CStrs (map Dependency_String (sort_deps (pkg_Dependencies p)))) else m3)"

definition pkg_ok :: "Package \<Rightarrow> bool" where
  "pkg_ok p \<longleftrightarrow> list_all readable (pkg_Name p) \<and> list_all readable (pkg_Version p) \<and>
     list_all readable (pkg_Source p) \<and> list_all readable (pkg_Checksum p) \<and>
     list_all (\<lambda>d. dep_ok d \<and> list_all readable (dep_Source d)) (pkg_Dependencies p)"

lemma dep_text_readable:
  assumes "dep_ok d" "list_all readable (dep_Source d)"
  shows "list_all readable (Dependency_String d)"
proof -
  have g: "readable c" if "graphic c" for c using that by (auto simp: graphic_def readable_def)
  have "list_all readable (dep_Name d)" "list_all readable (dep_Version d)"
    using assms(1) g by (auto simp: dep_ok_def word_ok_def list_all_iff)
  then show ?thesis using assms(2) by (simp add: Dependency_String_def DependencyString_def readable_def)
qed

lemma sort_deps_set: "set (sort_deps ds) = set ds"
  by (simp add: sort_deps_def)

lemma sort_deps_nil: "sort_deps ds = [] \<longleftrightarrow> ds = []"
  by (metis sort_deps_set set_empty)

lemma reads_package:
  assumes "pkg_ok p"
  shows "reads (package_text p) path (doc ver ms) [''package''] (doc ver (ms @ [package_fields p]))"
proof -
  define m0 :: "string \<rightharpoonup> content" where "m0 = Map.empty"
  define m1 where "m1 = m0(''name'' \<mapsto> CStr (pkg_Name p))"
  define m2 where "m2 = m1(''version'' \<mapsto> CStr (pkg_Version p))"
  define m3 where "m3 = (if pkg_Source p \<noteq> [] then m2(''source'' \<mapsto> CStr (pkg_Source p)) else m2)"
  define m4 where "m4 = (if pkg_Checksum p \<noteq> [] then m3(''checksum'' \<mapsto> CStr (pkg_Checksum p)) else m3)"
  note ms = m0_def m1_def m2_def m3_def m4_def
  let ?D = "\<lambda>m. doc ver (ms @ [m])" and ?P = "[''package'']" and ?ds = "sort_deps (pkg_Dependencies p)"
  note ok = assms [unfolded pkg_ok_def]
  have 1: "reads (kv_line ''name'' (TomlBasicString (pkg_Name p))) ?P (?D m0) ?P (?D m1)"
    unfolding m1_def by (rule reads_string_field) (use ok pkg_keys in \<open>simp_all add: ms\<close>)
  have 2: "reads (kv_line ''version'' (TomlBasicString (pkg_Version p))) ?P (?D m1) ?P (?D m2)"
    unfolding m2_def by (rule reads_string_field) (use ok pkg_keys in \<open>simp_all add: ms\<close>)
  have 3: "reads (if pkg_Source p \<noteq> [] then kv_line ''source'' (TomlBasicString (pkg_Source p)) else []) ?P (?D m2) ?P (?D m3)"
    unfolding m3_def by (rule reads_optional_field) (use ok pkg_keys in \<open>simp_all add: ms\<close>)
  have 4: "reads (if pkg_Checksum p \<noteq> [] then kv_line ''checksum'' (TomlBasicString (pkg_Checksum p)) else []) ?P (?D m3) ?P (?D m4)"
    unfolding m4_def by (rule reads_optional_field) (use ok pkg_keys in \<open>simp_all add: ms\<close>)
  have "list_all (\<lambda>d. list_all readable (Dependency_String d)) ?ds"
    using ok dep_text_readable by (auto simp: list_all_iff sort_deps_set)
  note deps = reads_deps [OF this, of m4 ver ms]
  have m5: "m4 ''dependencies'' = None"
      "package_fields p = (if pkg_Dependencies p \<noteq> [] then m4(''dependencies'' \<mapsto> CStrs (map Dependency_String ?ds)) else m4)"
    by (simp_all add: package_fields_def Let_def ms)
  have 5: "reads (if pkg_Dependencies p \<noteq> [] then kv_line ''dependencies'' (deps_text ?ds) else []) ?P (?D m4) ?P (?D (package_fields p))"
    using deps [OF m5(1)] reads_nil [of ?P "?D m4"] unfolding m5(2) by simp
  note 0 = reads_append [OF reads_newline reads_header [of path ver ms, folded m0_def]]
  have "reads (([NL] @ (CHR ''['' # ''[package]]'') @ [NL]) @ kv_line ''name'' (TomlBasicString (pkg_Name p)) @
      kv_line ''version'' (TomlBasicString (pkg_Version p)) @
      (if pkg_Source p \<noteq> [] then kv_line ''source'' (TomlBasicString (pkg_Source p)) else []) @
      (if pkg_Checksum p \<noteq> [] then kv_line ''checksum'' (TomlBasicString (pkg_Checksum p)) else []) @
      (if pkg_Dependencies p \<noteq> [] then kv_line ''dependencies'' (deps_text ?ds) else [])) path (doc ver ms) ?P (?D (package_fields p))"
    by (rule reads_append [OF 0 reads_append [OF 1 reads_append [OF 2 reads_append [OF 3 reads_append [OF 4 5]]]]])
  then show ?thesis by (simp add: package_text_def)
qed

lemma reads_packages:
  "list_all pkg_ok ps \<Longrightarrow> \<exists>path'. reads (concat (map package_text ps)) path (doc ver ms) path' (doc ver (ms @ map package_fields ps))"
proof (induction ps arbitrary: path ms)
  case Nil
  then show ?case using reads_nil by auto
next
  case (Cons p ps)
  then obtain path' where "reads (concat (map package_text ps)) [''package''] (doc ver (ms @ [package_fields p])) path'
      (doc ver (ms @ package_fields p # map package_fields ps))"
    using Cons.IH [of "[''package'']" "ms @ [package_fields p]"] by auto
  then show ?case using reads_append [OF reads_package [of p path ver ms]] Cons.prems by auto
qed

lemma parse_deps_strings:
  assumes "list_all2 (\<lambda>w s. \<exists>l. w = StrV s l) ws (map Dependency_String ds)" "list_all dep_ok ds"
  shows "parse_deps ws = Inr ds"
  using assms
proof (induction ds arbitrary: ws)
  case (Cons d ds)
  then show ?case using ParseDependency_String [of d] by (auto simp: list_all2_Cons2)
qed simp

definition canonical_package :: "Package \<Rightarrow> Package" where
  "canonical_package p = p\<lparr>pkg_Dependencies := sort_deps (pkg_Dependencies p)\<rparr>"

lemma string_field_of:
  assumes "fields_are t m" "m k = (if s \<noteq> [] then Some (CStr s) else None)"
  shows "string_field k t wrong = Inr s"
proof (cases "s = []")
  case True
  then have "Table_Get k t = None" using fields_are_None [OF assms(1)] assms(2) by simp
  then show ?thesis using True by (simp add: string_field_def)
next
  case False
  then obtain v where "Table_Get k t = Some v" "holds v (CStr s)"
    using fields_are_Some [OF assms(1), of k "CStr s"] assms(2) by auto
  then show ?thesis by (cases v) (simp_all add: string_field_def)
qed

lemma field_string:
  assumes "fields_are t m" "m k = Some (CStr s)"
  obtains l where "Table_Get k t = Some (StrV s l)"
proof -
  obtain v where v: "Table_Get k t = Some v" "holds v (CStr s)" using fields_are_Some [OF assms] .
  then show thesis using that by (cases v) auto
qed

lemma parseLockPackage_fields:
  assumes "fields_are t (package_fields p)" "pkg_ok p"
  shows "parseLockPackage t = Inr (canonical_package p)"
proof -
  let ?m = "package_fields p" and ?ds = "sort_deps (pkg_Dependencies p)"
  have m: "?m ''name'' = Some (CStr (pkg_Name p))" "?m ''version'' = Some (CStr (pkg_Version p))"
      "?m ''source'' = (if pkg_Source p \<noteq> [] then Some (CStr (pkg_Source p)) else None)"
      "?m ''checksum'' = (if pkg_Checksum p \<noteq> [] then Some (CStr (pkg_Checksum p)) else None)"
      "?m ''dependencies'' = (if pkg_Dependencies p \<noteq> [] then Some (CStrs (map Dependency_String ?ds)) else None)"
    by (simp_all add: package_fields_def Let_def)
  obtain l1 l2 where n: "Table_Get ''name'' t = Some (StrV (pkg_Name p) l1)" "Table_Get ''version'' t = Some (StrV (pkg_Version p) l2)"
    using field_string [OF assms(1) m(1)] field_string [OF assms(1) m(2)] by metis
  have ok: "list_all dep_ok ?ds" using assms(2) by (auto simp: pkg_ok_def list_all_iff sort_deps_set)
  have d: "(case Table_Get ''dependencies'' t of None \<Rightarrow> Inr [] | Some (ArrV vs _) \<Rightarrow> parse_deps vs
      | Some v \<Rightarrow> Inl (DependenciesNotArray (value_line v))) = Inr ?ds"
  proof (cases "pkg_Dependencies p = []")
    case True
    then have "Table_Get ''dependencies'' t = None" using fields_are_None [OF assms(1)] m(5) by simp
    then show ?thesis using True by (simp add: sort_deps_def)
  next
    case False
    then obtain v where v: "Table_Get ''dependencies'' t = Some v" "holds v (CStrs (map Dependency_String ?ds))"
      using fields_are_Some [OF assms(1), of "''dependencies''"] m(5) by auto
    then show ?thesis using parse_deps_strings [OF _ ok] by (cases v) simp_all
  qed
  show ?thesis unfolding parseLockPackage_def
    by (simp add: n d string_field_of [OF assms(1) m(3)] string_field_of [OF assms(1) m(4)] canonical_package_def)
qed

lemma parse_packages_fields:
  "list_all2 entry_is vs (map package_fields ps) \<Longrightarrow> list_all pkg_ok ps \<Longrightarrow> parse_packages vs = Inr (map canonical_package ps)"
proof (induction ps arbitrary: vs)
  case (Cons p ps)
  then show ?case using parseLockPackage_fields [of _ p] by (auto simp: list_all2_Cons2 entry_is_def)
qed simp

section \<open>The round trip\<close>

definition canonical :: "Lock \<Rightarrow> Lock" where
  "canonical l = l\<lparr>Packages := map canonical_package (sort_packages (Packages l))\<rparr>"

text \<open>A lock the file format can carry: a version the reader accepts, and strings it has escapes for.\<close>

definition lock_ok :: "Lock \<Rightarrow> bool" where
  "lock_ok l \<longleftrightarrow> - (2 ^ 63) \<le> lock_Version l \<and> lock_Version l \<le> SchemaVersion \<and> list_all pkg_ok (Packages l)"

lemma lock_of_doc:
  assumes "doc ver (map package_fields ps) root" "list_all pkg_ok ps" "ver \<le> SchemaVersion"
  shows "lock_of_table root = Inr \<lparr>lock_Version = ver, Packages = map canonical_package ps\<rparr>"
proof -
  obtain l where v: "Table_Get ''version'' root = Some (IntV ver l)" using assms(1) by (auto simp: doc_def)
  show ?thesis
  proof (cases "ps = []")
    case True
    then show ?thesis using assms v by (simp add: lock_of_table_def doc_def)
  next
    case False
    then obtain vs l1 where p: "Table_Get ''package'' root = Some (ArrV vs l1)" "list_all2 entry_is vs (map package_fields ps)"
      using assms(1) by (auto simp: doc_def)
    then show ?thesis using v assms(3) parse_packages_fields [OF p(2) assms(2)] by (simp add: lock_of_table_def)
  qed
qed

lemma itoa_int_start: "itoa_int i \<noteq> []" "\<not> is_blank (hd (itoa_int i))"
proof -
  have "itoa n \<noteq> []" "is_digit (hd (itoa n))" for n using itoa_digits [of n] by (cases "itoa n"; simp)+
  moreover have "\<not> is_blank c" if "is_digit c" for c using that by (auto simp: is_digit_def is_blank_def)
  ultimately show "itoa_int i \<noteq> []" "\<not> is_blank (hd (itoa_int i))" by (auto simp: itoa_int_def is_blank_def)
qed

lemma reads_version:
  assumes "- (2 ^ 63) \<le> i" "i < 2 ^ 63"
  shows "reads (kv_line ''version'' (itoa_int i)) [] (\<lambda>t. t = NewTable False 1) [] (doc i [])"
proof (rule reads_kv [where V = "\<lambda>v. \<exists>l. v = IntV i l"])
  show "\<exists>v ln'. parseValue \<lparr>unread = itoa_int i @ NL # after, lineNo = ln\<rparr> = Inr (v, \<lparr>unread = NL # after, lineNo = ln'\<rparr>) \<and> (\<exists>l. v = IntV i l)"
    for after ln
    using parseValue_int [OF assms, of "length (itoa_int i @ NL # after)" after ln]
    by (intro exI [of _ "IntV i ln"] exI [of _ ln]) (simp add: parseValue_def del: value_fuel.simps)
qed (use pkg_keys itoa_int_start in \<open>auto simp: doc_def\<close>)

lemma reads_document:
  assumes "reads txt [] (\<lambda>t. t = NewTable False 1) path P"
  obtains k ln root where "P root" "0 < k" "Toml_Parse (txt @ after) = root_loop k \<lparr>unread = after, lineNo = ln\<rparr> root path"
proof -
  have "\<exists>m ln' root'. P root' \<and> length after < m \<and> root_loop (Suc (length (txt @ after))) \<lparr>unread = txt @ after, lineNo = 1\<rparr>
      (NewTable False 1) [] = root_loop m \<lparr>unread = after, lineNo = ln'\<rparr> root' path"
    using assms unfolding reads_def by blast
  then show thesis using that unfolding Toml_Parse_def by (metis gr_zeroI not_less_zero)
qed

text \<open>The text before the packages.\<close>

definition preamble :: "int \<Rightarrow> string" where
  "preamble v = ''# This file is auto-generated by osty.'' @ [NL] @
     ''# Do not edit manually; `osty update` regenerates it.'' @ [NL, NL] @ kv_line ''version'' (itoa_int v)"

lemma Marshal_preamble: "Marshal l = preamble (lock_Version l) @ concat (map package_text (sort_packages (Packages l)))"
  by (simp add: Marshal_def MarshalLockfile_def preamble_def)

lemma reads_preamble:
  assumes "- (2 ^ 63) \<le> v" "v < 2 ^ 63"
  shows "reads (preamble v) [] (\<lambda>t. t = NewTable False 1) [] (doc v [])"
proof -
  let ?c1 = "''# This file is auto-generated by osty.'' @ [NL]"
  let ?c2 = "''# Do not edit manually; `osty update` regenerates it.'' @ [NL]"
  have c: "reads ?c1 [] P [] P" "reads ?c2 [] P [] P" for P
    using reads_comment [of "'' This file is auto-generated by osty.''" "[]" P]
      reads_comment [of "'' Do not edit manually; `osty update` regenerates it.''" "[]" P] by simp_all
  have "preamble v = ?c1 @ ?c2 @ [NL] @ kv_line ''version'' (itoa_int v)" by (simp add: preamble_def)
  then show ?thesis
    using reads_append [OF c(1) reads_append [OF c(2) reads_append [OF reads_newline reads_version [OF assms]]]] by simp
qed

lemma Parse_Marshal:
  assumes "lock_ok l"
  shows "Lock_Parse (Marshal l) = Inr (canonical l)"
proof -
  let ?ps = "sort_packages (Packages l)" and ?v = "lock_Version l"
  have v: "- (2 ^ 63) \<le> ?v" "?v < 2 ^ 63" "?v \<le> SchemaVersion" using assms by (auto simp: lock_ok_def SchemaVersion_def)
  have ok: "list_all pkg_ok ?ps" using assms by (simp add: lock_ok_def sort_packages_def list_all_iff)
  obtain path where "reads (concat (map package_text ?ps)) [] (doc ?v []) path (doc ?v (map package_fields ?ps))"
    using reads_packages [OF ok, of "[]" ?v "[]"] by auto
  from reads_append [OF reads_preamble [OF v(1,2)] this]
  obtain k ln root where r: "doc ?v (map package_fields ?ps) root" "0 < k"
      "Toml_Parse (Marshal l) = root_loop k \<lparr>unread = [], lineNo = ln\<rparr> root path"
    using reads_document unfolding Marshal_preamble by (metis append_Nil2)
  then have "Toml_Parse (Marshal l) = Inr root" by (cases k) (simp_all add: skipWhitespaceAndComments_def atEnd_def)
  then show ?thesis using lock_of_doc [OF r(1) ok v(3)] by (cases l) (simp add: Lock_Parse_def canonical_def)
qed

lemma sort_deps_idem: "sort_deps (sort_deps ds) = sort_deps ds"
  by (simp add: sort_deps_def sort_key_id_if_sorted)

lemma Marshal_canonical: "Marshal (canonical l) = Marshal l"
proof -
  let ?ps = "sort_packages (Packages l)"
  have "sorted (map (\<lambda>p. lockSortKey (pkg_Name p) (pkg_Version p)) (map canonical_package ?ps))"
    by (simp add: sort_packages_def canonical_package_def comp_def)
  then have "sort_packages (map canonical_package ?ps) = map canonical_package ?ps"
    unfolding sort_packages_def by (rule sort_key_id_if_sorted)
  moreover have "package_text (canonical_package p) = package_text p" for p
    by (simp add: package_text_def canonical_package_def sort_deps_idem sort_deps_nil)
  ultimately show ?thesis by (simp add: Marshal_def MarshalLockfile_def canonical_def comp_def)
qed

text \<open>What a file format promises its users: on the values it can carry, reading what was written gives the
  value in normal form, and the normal form is written as the same text.\<close>

locale file_format =
  fixes carries :: "'a \<Rightarrow> bool" and enc :: "'a \<Rightarrow> string" and dec :: "string \<Rightarrow> 'e + 'a" and normal :: "'a \<Rightarrow> 'a"
  assumes dec_enc: "carries x \<Longrightarrow> dec (enc x) = Inr (normal x)"
    and enc_normal: "enc (normal x) = enc x"
begin

lemma reencode_stable:
  assumes "carries x" "dec (enc x) = Inr y"
  shows "enc y = enc x \<and> dec (enc y) = Inr y"
  using assms dec_enc enc_normal by auto

lemma same_text:
  assumes "carries x" "carries y"
  shows "enc x = enc y \<longleftrightarrow> normal x = normal y"
  using assms dec_enc enc_normal by (metis sum.inject(2))

end

interpretation lockfile: file_format lock_ok Marshal Lock_Parse canonical
  by unfold_locales (rule Parse_Marshal, assumption, rule Marshal_canonical)

section \<open>Text the reader refuses\<close>

lemma unreadable_name:
  assumes "\<not> list_all readable s"
  shows "\<exists>e. root_loop (Suc n) \<lparr>unread = kv_line ''name'' (TomlBasicString s) @ after, lineNo = ln\<rparr> root path = Inl (ln, UnknownEscape e)"
proof -
  obtain e where "str_loop (concat (map toml_escape s) @ DQ # NL # after) ln [] = Inl (ln, UnknownEscape e)"
    using str_loop_stops [OF assms] by metis
  then have "parseValue \<lparr>unread = TomlBasicString s @ NL # after, lineNo = ln\<rparr> = Inl (ln, UnknownEscape e)"
    by (simp add: parseValue_def value_step_def atEnd_def TomlBasicString_def parseBasicString_def at_char_def)
  moreover have "TomlBasicString s \<noteq> []" "\<not> is_blank (hd (TomlBasicString s))" by (simp_all add: TomlBasicString_def is_blank_def)
  ultimately show ?thesis using root_loop_kv [of "''name''" "TomlBasicString s"] pkg_keys(1) by simp
qed

lemma Parse_unreadable:
  assumes "Packages l = [p]" "- (2 ^ 63) \<le> lock_Version l" "lock_Version l < 2 ^ 63" "\<not> list_all readable (pkg_Name p)"
  shows "\<exists>ln e. Lock_Parse (Marshal l) = Inl (TomlFailed (ln, UnknownEscape e))"
proof -
  let ?h = "[NL] @ (CHR ''['' # ''[package]]'') @ [NL]"
  obtain t where t: "package_text p = ?h @ kv_line ''name'' (TomlBasicString (pkg_Name p)) @ t" by (simp add: package_text_def)
  let ?rest = "kv_line ''name'' (TomlBasicString (pkg_Name p)) @ t"
  have m: "Marshal l = (preamble (lock_Version l) @ ?h) @ ?rest"
    by (simp add: Marshal_preamble assms(1) sort_packages_def t)
  have "reads (preamble (lock_Version l) @ ?h) [] (\<lambda>t. t = NewTable False 1) [''package''] (doc (lock_Version l) ([] @ [Map.empty]))"
    by (rule reads_append [OF reads_preamble [OF assms(2,3)] reads_append [OF reads_newline reads_header]])
  then obtain k ln root where r: "0 < k" "Toml_Parse (Marshal l) = root_loop k \<lparr>unread = ?rest, lineNo = ln\<rparr> root [''package'']"
    unfolding m using reads_document by metis
  then obtain k' where "k = Suc k'" by (cases k) auto
  then show ?thesis using r(2) unreadable_name [OF assms(4), of k' t ln root "[''package'']"] by (auto simp: Lock_Parse_def)
qed

section \<open>Properties\<close>

definition example_lock :: Lock where
  "example_lock = \<lparr>lock_Version = 1, Packages =
     [\<lparr>pkg_Name = ''json'', pkg_Version = ''1.2.0'', pkg_Source = ''registry+https://r'', pkg_Checksum = [],
        pkg_Dependencies = [\<lparr>dep_Name = ''utf'', dep_Version = ''0.3.1'', dep_Source = ''git+x''\<rparr>,
          \<lparr>dep_Name = ''core'', dep_Version = ''2.0.0'', dep_Source = []\<rparr>]\<rparr>,
      \<lparr>pkg_Name = ''core'', pkg_Version = ''2.0.0'', pkg_Source = [], pkg_Checksum = ''sha256:00'', pkg_Dependencies = []\<rparr>]\<rparr>"

lemma example_lock_ok: "lock_ok example_lock"
  by (simp add: lock_ok_def example_lock_def SchemaVersion_def pkg_ok_def readable_def dep_ok_def word_ok_def graphic_def)

text \<open>C12. Writing a lock and reading the text back gives the lock with its packages and each package's
  dependencies in sorted order, for every lock of an accepted version whose strings have no unreadable
  control character and whose dependency names and versions are single words. Writing that lock again gives the same text.\<close>

theorem lockfile_roundtrip:
  assumes "lock_ok l"
  shows "\<exists>l'. Lock_Parse (Marshal l) = Inr l' \<and> l' = canonical l \<and> Marshal l' = Marshal l \<and> Lock_Parse (Marshal l') = Inr l'"
  using lockfile.dec_enc [OF assms] lockfile.reencode_stable [OF assms lockfile.dec_enc [OF assms]]
  by (intro exI [of _ "canonical l"]) simp

theorem lockfile_roundtrip_witness:
  "\<exists>l'. Lock_Parse (Marshal example_lock) = Inr l' \<and> l' = canonical example_lock \<and> Marshal l' = Marshal example_lock \<and> Lock_Parse (Marshal l') = Inr l'"
  by (rule lockfile_roundtrip [OF example_lock_ok])

definition bell_lock :: Lock where
  "bell_lock = \<lparr>lock_Version = 1, Packages =
     [\<lparr>pkg_Name = [CHR 0x07], pkg_Version = ''1.0.0'', pkg_Source = [], pkg_Checksum = [], pkg_Dependencies = []\<rparr>]\<rparr>"

text \<open>C40. A lock of one package whose name has a control character other than backspace, tab, line feed, form
  feed and carriage return is written with an escape (backslash followed by a, v or x) that the reader does not
  know: reading the written file back fails.\<close>

theorem control_chars_unreadable:
  assumes "Packages l = [p]" "lock_Version l = SchemaVersion" "\<not> list_all readable (pkg_Name p)"
  shows "\<exists>ln e. Lock_Parse (Marshal l) = Inl (TomlFailed (ln, UnknownEscape e))"
  using Parse_unreadable [OF assms(1) _ _ assms(3)] assms(2) by (simp add: SchemaVersion_def)

theorem control_chars_unreadable_witness:
  "\<exists>ln e. Lock_Parse (Marshal bell_lock) = Inl (TomlFailed (ln, UnknownEscape e))"
  by (rule control_chars_unreadable [where p = "hd (Packages bell_lock)"])
    (simp_all add: bell_lock_def SchemaVersion_def readable_def)

end
