(* ===== verification/MIR.thy ===== *)
theory MIR
  imports Osty_Prelude
begin

text \<open>
  \<^verbatim>\<open>src/internal/mir/mir.go\<close>: the control-flow graphs that the optimiser, the validator and the back ends work on.
  Interfaces are datatypes with one constructor per implementation and one for the nil interface;
  nil pointers in slices are \<^const>\<open>None\<close>. A type is kept as its canonical string, which is all that the
  passes look at, and \<^const>\<open>None\<close> is the nil type. Ids of locals and blocks are natural numbers. Floats are kept
  as their 64 bits. Spans, layouts, imports and the code generation attributes of functions are left out.
\<close>

section \<open>Types, places, operands\<close>

type_synonym Ty = "string option"
type_synonym LocalID = nat
type_synonym BlockID = nat

definition typeString :: "Ty \<Rightarrow> string" where
  "typeString t = (case t of None \<Rightarrow> ''<nil>'' | Some s \<Rightarrow> s)"

datatype Const =
  IntConst int Ty | BoolConst bool | FloatConst "64 word" Ty | StringConst string | CharConst int
| ByteConst "8 word" | BytesConst string | UnitConst | NullConst Ty | FnConst string Ty | NilConst

definition or_type :: "Ty \<Rightarrow> string \<Rightarrow> Ty" where
  "or_type t d = (case t of None \<Rightarrow> Some d | Some s \<Rightarrow> Some s)"

text \<open>The method \<open>Type\<close> of a constant; the error type prints as \<open><error>\<close>.\<close>

fun Const_Type :: "Const \<Rightarrow> Ty" where
  "Const_Type (IntConst _ t) = or_type t ''Int''"
| "Const_Type (BoolConst _) = Some ''Bool''"
| "Const_Type (FloatConst _ t) = or_type t ''Float''"
| "Const_Type (StringConst _) = Some ''String''"
| "Const_Type (CharConst _) = Some ''Char''"
| "Const_Type (ByteConst _) = Some ''Byte''"
| "Const_Type (BytesConst _) = Some ''Bytes''"
| "Const_Type UnitConst = Some ''()''"
| "Const_Type (NullConst t) = or_type t ''()''"
| "Const_Type (FnConst _ t) = or_type t ''<error>''"
| "Const_Type NilConst = None"

datatype Place = Place (place_Local: LocalID) (Projections: "Projection list")
and Projection =
  FieldProj int string Ty | TupleProj int Ty | VariantProj int string int Ty | IndexProj Operand Ty | DerefProj Ty | NilProj
and Operand = CopyOp Place Ty | MoveOp Place Ty | ConstOp Const Ty | NilOp

definition HasProjections :: "Place \<Rightarrow> bool" where
  "HasProjections p \<longleftrightarrow> Projections p \<noteq> []"

definition Place_Base :: "Place \<Rightarrow> Place" where
  "Place_Base p = Place (place_Local p) []"

definition Place_Project :: "Place \<Rightarrow> Projection \<Rightarrow> Place" where
  "Place_Project p proj = Place (place_Local p) (Projections p @ [proj])"

fun Operand_Type :: "Operand \<Rightarrow> Ty" where
  "Operand_Type (CopyOp _ t) = t"
| "Operand_Type (MoveOp _ t) = t"
| "Operand_Type (ConstOp c t) = (if t \<noteq> None then t else if c \<noteq> NilConst then Const_Type c else Some ''<error>'')"
| "Operand_Type NilOp = None"

section \<open>Rvalues, instructions, terminators\<close>

datatype UnaryOp = UnInvalid | UnNeg | UnPlus | UnNot | UnBitNot

datatype BinaryOp =
  BinInvalid | BinAdd | BinSub | BinMul | BinDiv | BinMod | BinEq | BinNeq | BinLt | BinLeq | BinGt | BinGeq
| BinAnd | BinOr | BinBitAnd | BinBitOr | BinBitXor | BinShl | BinShr

datatype AggregateKind = AggInvalid | AggTuple | AggStruct | AggEnumVariant | AggList | AggMap | AggClosure

datatype CastKind =
  CastInvalid | CastIntResize | CastIntToFloat | CastFloatToInt | CastFloatResize | CastOptionalWrap
| CastOptionalUnwrap | CastBitcast

datatype NullaryRVKind = NullaryInvalid | NullaryNone

datatype RValue =
  UseRV Operand
| UnaryRV UnaryOp Operand Ty
| BinaryRV BinaryOp Operand Operand Ty
| AggregateRV AggregateKind "Operand list" Ty int string
| DiscriminantRV Place Ty
| LenRV Place Ty
| CastRV CastKind Operand Ty Ty
| AddressOfRV Place Ty
| RefRV Place Ty
| GlobalRefRV string Ty
| NullaryRV NullaryRVKind Ty
| NilRV

text \<open>Intrinsics are numbered in the order of their declaration; the table has the names of \<open>IntrinsicKind.String\<close> in
  that order. The intrinsics that the method leaves out print as \<open>invalid\<close>.\<close>

type_synonym IntrinsicKind = nat

definition IntrinsicInvalid :: IntrinsicKind where
  "IntrinsicInvalid = 0"

definition intrinsic_names :: "string list" where
  "intrinsic_names =
    [''invalid'', ''print'', ''println'', ''eprint'', ''eprintln'', ''abort'', ''string_concat'',
     ''bytes_concat'', ''chan_make'', ''chan_send'', ''chan_recv'', ''chan_close'', ''chan_is_closed'', ''task_group'',
     ''spawn'', ''handle_join'', ''group_cancel'', ''group_is_cancelled'', ''parallel'', ''race'', ''collect_all'',
     ''select'', ''select_recv'', ''select_send'', ''select_timeout'', ''select_default'', ''is_cancelled'', ''check_cancelled'',
     ''yield'', ''sleep'', ''list_push'', ''list_len'', ''list_get'', ''list_is_empty'', ''list_first'',
     ''list_last'', ''list_sorted'', ''list_contains'', ''list_index_of'', ''list_to_set'', ''list_remove_at'', ''list_reverse'',
     ''list_reversed'', ''invalid'', ''map_new'', ''map_get'', ''map_set'', ''map_contains'', ''map_len'',
     ''map_keys'', ''map_values'', ''map_remove'', ''map_keys_sorted'', ''map_to_string'', ''set_new'', ''set_insert'',
     ''set_contains'', ''set_len'', ''set_to_list'', ''set_remove'', ''set_to_string'', ''string_len'', ''string_is_empty'',
     ''string_contains'', ''string_count'', ''string_starts_with'', ''string_ends_with'', ''string_index_of'', ''string_split'', ''string_trim'',
     ''string_to_upper'', ''string_to_lower'', ''string_to_int'', ''string_to_float'', ''string_replace'', ''string_chars'', ''string_bytes'',
     ''bytes_len'', ''bytes_is_empty'', ''bytes_get'', ''bytes_contains'', ''bytes_starts_with'', ''bytes_ends_with'', ''bytes_index_of'',
     ''bytes_last_index_of'', ''bytes_split'', ''bytes_join'', ''bytes_repeat'', ''bytes_replace'', ''bytes_replace_all'', ''bytes_trim_left'',
     ''bytes_trim_right'', ''bytes_trim'', ''bytes_trim_space'', ''bytes_to_upper'', ''bytes_to_lower'', ''bytes_to_hex'', ''bytes_slice'',
     ''option_is_some'', ''option_is_none'', ''option_unwrap'', ''option_unwrap_or'', ''result_is_ok'', ''result_is_err'', ''result_unwrap'',
     ''result_unwrap_or'', ''raw_null'', ''string_join'', ''list_pop'', ''string_substring'', ''byte_to_int'', ''char_to_int'',
     ''list_slice'', ''map_get_or'', ''string_split_into'', ''string_nth_segment'', ''map_incr'', ''string_repeat'', ''string_trim_prefix'',
     ''string_trim_suffix'', ''string_trim_start'', ''string_trim_end'', ''string_replace_all'', ''string_split_n'', ''string_fields'', ''string_last_index_of'',
     ''bytes_from_list'', ''bytes_from_string'', ''bytes_to_string'', ''bytes_from_hex'', ''int_to_byte'', ''int_to_char'', ''byte_to_char'',
     ''char_to_byte'', ''list_insert'', ''list_clear'', ''map_clear'', ''set_clear'', ''invalid'', ''invalid'']"

definition IntrinsicKind_String :: "IntrinsicKind \<Rightarrow> string" where
  "IntrinsicKind_String k = (if k < length intrinsic_names then intrinsic_names ! k else ''invalid'')"

datatype Callee = FnRef string Ty | IndirectCall Operand | NilCallee

datatype Instr =
  AssignInstr Place RValue
| CallInstr "Place option" Callee "Operand list"
| IntrinsicInstr "Place option" IntrinsicKind "Operand list"
| StorageLiveInstr LocalID
| StorageDeadInstr LocalID
| NilInstr

datatype SwitchCase = SwitchCase (case_Value: int) (case_Target: BlockID) (case_Label: string)

datatype Terminator =
  GotoTerm BlockID
| BranchTerm Operand BlockID BlockID
| SwitchIntTerm Operand "SwitchCase list" BlockID
| ReturnTerm
| UnreachableTerm
| NilTerm

section \<open>Functions and modules\<close>

record BasicBlock =
  block_ID :: BlockID
  Instrs :: "Instr list"
  Term :: Terminator

record Local =
  loc_ID :: LocalID
  loc_Name :: string
  loc_Type :: Ty
  loc_Mut :: bool
  IsParam :: bool
  IsReturn :: bool

record Function =
  fn_Name :: string
  Params :: "LocalID list"
  ReturnType :: Ty
  ReturnLocal :: LocalID
  Locals :: "Local option list"
  Blocks :: "BasicBlock option list"
  Entry :: BlockID
  IsExternal :: bool
  IsIntrinsic :: bool

record Global =
  glob_Name :: string
  glob_Type :: Ty
  Init :: "Function option"

record Module =
  mod_Package :: string
  Functions :: "Function option list"
  Globals :: "Global option list"

definition NewLocal :: "string \<Rightarrow> Ty \<Rightarrow> bool \<Rightarrow> Function \<Rightarrow> LocalID \<times> Function" where
  "NewLocal name t mut f = (length (Locals f), f\<lparr>Locals := Locals f @
     [Some \<lparr>loc_ID = length (Locals f), loc_Name = name, loc_Type = t, loc_Mut = mut, IsParam = False, IsReturn = False\<rparr>]\<rparr>)"

definition Function_Local :: "Function \<Rightarrow> LocalID \<Rightarrow> Local option" where
  "Function_Local f l = (if l < length (Locals f) then Locals f ! l else None)"

definition Block :: "Function \<Rightarrow> BlockID \<Rightarrow> BasicBlock option" where
  "Block f b = (if b < length (Blocks f) then Blocks f ! b else None)"

definition NewBlock :: "Function \<Rightarrow> BlockID \<times> Function" where
  "NewBlock f = (length (Blocks f),
     f\<lparr>Blocks := Blocks f @ [Some \<lparr>block_ID = length (Blocks f), Instrs = [], Term = NilTerm\<rparr>]\<rparr>)"

definition Append :: "Instr \<Rightarrow> BasicBlock \<Rightarrow> BasicBlock" where
  "Append i bb = bb\<lparr>Instrs := Instrs bb @ [i]\<rparr>"

definition SetTerminator :: "Terminator \<Rightarrow> BasicBlock \<Rightarrow> BasicBlock" where
  "SetTerminator t bb = bb\<lparr>Term := t\<rparr>"

fun lookup_fn :: "string \<Rightarrow> Function option list \<Rightarrow> Function option" where
  "lookup_fn s [] = None"
| "lookup_fn s (None # fs) = lookup_fn s fs"
| "lookup_fn s (Some f # fs) = (if fn_Name f = s then Some f else lookup_fn s fs)"

definition LookupFunction :: "Module \<Rightarrow> string \<Rightarrow> Function option" where
  "LookupFunction m s = lookup_fn s (Functions m)"

section \<open>Names of operators\<close>

fun UnaryOp_String :: "UnaryOp \<Rightarrow> string" where
  "UnaryOp_String UnNeg = ''-''"
| "UnaryOp_String UnPlus = ''+''"
| "UnaryOp_String UnNot = ''!''"
| "UnaryOp_String UnBitNot = ''~''"
| "UnaryOp_String UnInvalid = ''?''"

fun BinaryOp_String :: "BinaryOp \<Rightarrow> string" where
  "BinaryOp_String BinAdd = ''+''"
| "BinaryOp_String BinSub = ''-''"
| "BinaryOp_String BinMul = ''*''"
| "BinaryOp_String BinDiv = ''/''"
| "BinaryOp_String BinMod = ''%''"
| "BinaryOp_String BinEq = ''==''"
| "BinaryOp_String BinNeq = ''!=''"
| "BinaryOp_String BinLt = ''<''"
| "BinaryOp_String BinLeq = ''<=''"
| "BinaryOp_String BinGt = ''>''"
| "BinaryOp_String BinGeq = ''>=''"
| "BinaryOp_String BinAnd = ''&&''"
| "BinaryOp_String BinOr = ''||''"
| "BinaryOp_String BinBitAnd = ''&''"
| "BinaryOp_String BinBitOr = ''|''"
| "BinaryOp_String BinBitXor = ''^''"
| "BinaryOp_String BinShl = ''<<''"
| "BinaryOp_String BinShr = ''>>''"
| "BinaryOp_String BinInvalid = ''?''"

fun AggregateKind_String :: "AggregateKind \<Rightarrow> string" where
  "AggregateKind_String AggTuple = ''tuple''"
| "AggregateKind_String AggStruct = ''struct''"
| "AggregateKind_String AggEnumVariant = ''variant''"
| "AggregateKind_String AggList = ''list''"
| "AggregateKind_String AggMap = ''map''"
| "AggregateKind_String AggClosure = ''closure''"
| "AggregateKind_String AggInvalid = ''?''"

fun CastKind_String :: "CastKind \<Rightarrow> string" where
  "CastKind_String CastIntResize = ''int_resize''"
| "CastKind_String CastIntToFloat = ''int_to_float''"
| "CastKind_String CastFloatToInt = ''float_to_int''"
| "CastKind_String CastFloatResize = ''float_resize''"
| "CastKind_String CastOptionalWrap = ''optional_wrap''"
| "CastKind_String CastOptionalUnwrap = ''optional_unwrap''"
| "CastKind_String CastBitcast = ''bitcast''"
| "CastKind_String CastInvalid = ''?''"

fun NullaryRVKind_String :: "NullaryRVKind \<Rightarrow> string" where
  "NullaryRVKind_String NullaryNone = ''none''"
| "NullaryRVKind_String NullaryInvalid = ''?''"

section \<open>The control-flow graph\<close>

fun Successors :: "Terminator \<Rightarrow> BlockID list" where
  "Successors (GotoTerm t) = [t]"
| "Successors (BranchTerm _ t e) = [t, e]"
| "Successors (SwitchIntTerm _ cs d) = map case_Target cs @ [d]"
| "Successors _ = []"

text \<open>The predecessor index, a map from blocks to lists.\<close>

definition add_pred :: "BlockID \<Rightarrow> BlockID \<Rightarrow> (BlockID \<Rightarrow> BlockID list) \<Rightarrow> BlockID \<Rightarrow> BlockID list" where
  "add_pred s b preds = preds(s := preds s @ [b])"

definition block_preds :: "nat \<Rightarrow> BasicBlock option \<Rightarrow> (BlockID \<Rightarrow> BlockID list) \<Rightarrow> BlockID \<Rightarrow> BlockID list" where
  "block_preds n b preds = (case b of None \<Rightarrow> preds
     | Some bb \<Rightarrow> fold (\<lambda>s. add_pred s (block_ID bb)) (filter (\<lambda>s. s < n) (Successors (Term bb))) preds)"

definition Predecessors :: "Function \<Rightarrow> BlockID \<Rightarrow> BlockID list" where
  "Predecessors f = fold (block_preds (length (Blocks f))) (Blocks f) (\<lambda>_. [])"

lemma add_preds: "fold (\<lambda>s. add_pred s b) ss preds t = preds t @ replicate (count_list ss t) b"
  by (induction ss arbitrary: preds) (auto simp: add_pred_def replicate_app_Cons_same)

text \<open>The index lists every edge, under the id that the block carries.\<close>

lemma block_preds_set: "set (fold (block_preds n) bs preds t) =
    set (preds t) \<union> {block_ID bb | bb. Some bb \<in> set bs \<and> t < n \<and> t \<in> set (Successors (Term bb))}"
proof (induction bs arbitrary: preds)
  case (Cons b bs)
  have "set (block_preds n b preds t) = set (preds t) \<union> {block_ID bb | bb. b = Some bb \<and> t < n \<and> t \<in> set (Successors (Term bb))}"
    by (cases b) (auto simp: block_preds_def add_preds count_list_0_iff set_replicate_conv_if)
  then show ?case using Cons.IH [of "block_preds n b preds"] by auto
qed simp

lemma Predecessors_set:
  "set (Predecessors f t) = {block_ID bb | bb. Some bb \<in> set (Blocks f) \<and> t < length (Blocks f) \<and> t \<in> set (Successors (Term bb))}"
  by (simp add: Predecessors_def block_preds_set)

end
