(* ===== verification/MIR_Optimize.thy ===== *)
theory MIR_Optimize
  imports MIR "HOL-Library.AList"
begin

text \<open>
  \<^verbatim>\<open>src/internal/mir/optimize.go\<close>: constant propagation, empty-block collapse and dead-assignment elimination.
  The Go passes rewrite a function in place and report whether they changed it; here a pass returns the new
  function, and it has changed something exactly when that differs from the old one: a rewrite replaces an operand,
  a terminator, a target, a destination or an instruction by a different one. Operands and places are values, as they are when no
  two instructions share one. A Go map from locals to constants is an association list with distinct keys.

  The work list of the data-flow analysis runs with fuel, twice the number of blocks times one more than the number of
  instructions; \<^verbatim>\<open>MIR_Dataflow\<close> shows that this is enough.
\<close>

section \<open>Equality of constants\<close>

text \<open>Equality of float64 values on their bits: NaN differs from everything, the two zeros are equal.\<close>

definition float_nan :: "64 word \<Rightarrow> bool" where
  "float_nan w \<longleftrightarrow> take_bit 63 w > 0x7FF0000000000000"

definition float_zero :: "64 word \<Rightarrow> bool" where
  "float_zero w \<longleftrightarrow> take_bit 63 w = 0"

definition float_eq :: "64 word \<Rightarrow> 64 word \<Rightarrow> bool" where
  "float_eq a b \<longleftrightarrow> \<not> float_nan a \<and> \<not> float_nan b \<and> (a = b \<or> float_zero a \<and> float_zero b)"

definition constValueEqual :: "Const \<Rightarrow> Const \<Rightarrow> bool" where
  "constValueEqual a b =
     (case a of
        IntConst x t \<Rightarrow> (case b of IntConst y u \<Rightarrow> x = y \<and> typeString (Const_Type a) = typeString (Const_Type b) | _ \<Rightarrow> False)
      | BoolConst x \<Rightarrow> (case b of BoolConst y \<Rightarrow> x = y | _ \<Rightarrow> False)
      | FloatConst x t \<Rightarrow> (case b of FloatConst y u \<Rightarrow> float_eq x y \<and> typeString (Const_Type a) = typeString (Const_Type b) | _ \<Rightarrow> False)
      | StringConst x \<Rightarrow> (case b of StringConst y \<Rightarrow> x = y | _ \<Rightarrow> False)
      | CharConst x \<Rightarrow> (case b of CharConst y \<Rightarrow> x = y | _ \<Rightarrow> False)
      | ByteConst x \<Rightarrow> (case b of ByteConst y \<Rightarrow> x = y | _ \<Rightarrow> False)
      | BytesConst x \<Rightarrow> (case b of BytesConst y \<Rightarrow> x = y | _ \<Rightarrow> False)
      | UnitConst \<Rightarrow> b = UnitConst
      | NullConst t \<Rightarrow> (case b of NullConst u \<Rightarrow> typeString (Const_Type a) = typeString (Const_Type b) | _ \<Rightarrow> False)
      | FnConst x t \<Rightarrow> (case b of FnConst y u \<Rightarrow> x = y | _ \<Rightarrow> False)
      | NilConst \<Rightarrow> b = NilConst)"

type_synonym cop = "Const \<times> Ty"
type_synonym known = "(LocalID \<times> cop) list"

definition constOpEqual :: "cop \<Rightarrow> cop \<Rightarrow> bool" where
  "constOpEqual a b \<longleftrightarrow> typeString (snd a) = typeString (snd b) \<and> constValueEqual (fst a) (fst b)"

section \<open>Data flow\<close>

definition track :: "Place \<Rightarrow> RValue \<Rightarrow> known \<Rightarrow> known" where
  "track d src known =
     (if HasProjections d then AList.delete (place_Local d) known
      else (case src of UseRV (ConstOp c t) \<Rightarrow> AList.update (place_Local d) (c, t) known
            | _ \<Rightarrow> AList.delete (place_Local d) known))"

definition forget :: "Place option \<Rightarrow> known \<Rightarrow> known" where
  "forget d known = (case d of None \<Rightarrow> known | Some p \<Rightarrow> AList.delete (place_Local p) known)"

fun transfer_instr :: "Instr \<Rightarrow> known \<Rightarrow> known" where
  "transfer_instr (AssignInstr d src) known = track d src known"
| "transfer_instr (CallInstr d _ _) known = forget d known"
| "transfer_instr (IntrinsicInstr d _ _) known = forget d known"
| "transfer_instr _ known = known"

definition transferBlock :: "BasicBlock \<Rightarrow> known \<Rightarrow> known" where
  "transferBlock bb known = fold transfer_instr (Instrs bb) known"

definition meetStates :: "known \<Rightarrow> known \<Rightarrow> known" where
  "meetStates a b = filter (\<lambda>x. case map_of b (fst x) of None \<Rightarrow> False | Some w \<Rightarrow> constOpEqual (snd x) w) a"

definition statesEqual :: "known option \<Rightarrow> known option \<Rightarrow> bool" where
  "statesEqual a b =
     (case (a, b) of (None, None) \<Rightarrow> True
      | (Some x, Some y) \<Rightarrow> length x = length y \<and>
          list_all (\<lambda>e. case map_of y (fst e) of None \<Rightarrow> False | Some w \<Rightarrow> constOpEqual (snd e) w) x
      | _ \<Rightarrow> False)"

fun meet_loop :: "known option list \<Rightarrow> BlockID list \<Rightarrow> known option \<Rightarrow> known option" where
  "meet_loop exits [] r = r"
| "meet_loop exits (p # ps) r =
     (if p \<ge> length exits then meet_loop exits ps r
      else (case exits ! p of None \<Rightarrow> meet_loop exits ps r
            | Some out \<Rightarrow> meet_loop exits ps (Some (case r of None \<Rightarrow> out | Some s \<Rightarrow> meetStates s out))))"

definition meetPredecessors :: "BlockID \<Rightarrow> BlockID list \<Rightarrow> known option list \<Rightarrow> BlockID \<Rightarrow> known option list \<Rightarrow> known option" where
  "meetPredecessors succ preds exits entryBlock entries =
     (case meet_loop exits preds None of None \<Rightarrow> entries ! succ
      | Some r \<Rightarrow> if succ = entryBlock then Some [] else Some r)"

text \<open>The variables of the loop; the last element of the Go work list is the head here.\<close>

record flow =
  entryStates :: "known option list"
  exitStates :: "known option list"
  worklist :: "BlockID list"
  inQueue :: "bool list"

definition visit_succ :: "Function \<Rightarrow> (BlockID \<Rightarrow> BlockID list) \<Rightarrow> BlockID \<Rightarrow> flow \<Rightarrow> flow" where
  "visit_succ fn preds succ s =
     (if succ \<ge> length (Blocks fn) then s
      else (let newIn = meetPredecessors succ (preds succ) (exitStates s) (Entry fn) (entryStates s) in
            if statesEqual (entryStates s ! succ) newIn then s
            else (let s1 = s\<lparr>entryStates := (entryStates s)[succ := newIn]\<rparr> in
                  if inQueue s ! succ then s1
                  else s1\<lparr>worklist := succ # worklist s, inQueue := (inQueue s)[succ := True]\<rparr>)))"

definition flow_step :: "Function \<Rightarrow> (BlockID \<Rightarrow> BlockID list) \<Rightarrow> BlockID \<Rightarrow> flow \<Rightarrow> flow" where
  "flow_step fn preds i s =
     (case Blocks fn ! i of None \<Rightarrow> s
      | Some bb \<Rightarrow>
          (let out = transferBlock bb (case entryStates s ! i of None \<Rightarrow> [] | Some k \<Rightarrow> k) in
           if statesEqual (exitStates s ! i) (Some out) then s
           else fold (visit_succ fn preds) (Successors (Term bb)) (s\<lparr>exitStates := (exitStates s)[i := Some out]\<rparr>)))"

fun flow_loop :: "nat \<Rightarrow> Function \<Rightarrow> (BlockID \<Rightarrow> BlockID list) \<Rightarrow> flow \<Rightarrow> flow option" where
  "flow_loop 0 fn preds s = None"
| "flow_loop (Suc n) fn preds s =
     (case worklist s of [] \<Rightarrow> Some s
      | i # rest \<Rightarrow> flow_loop n fn preds (flow_step fn preds i (s\<lparr>worklist := rest, inQueue := (inQueue s)[i := False]\<rparr>)))"

definition instr_count :: "Function \<Rightarrow> nat" where
  "instr_count fn = sum_list (map (\<lambda>b. case b of None \<Rightarrow> 0 | Some bb \<Rightarrow> length (Instrs bb)) (Blocks fn))"

definition flow_start :: "Function \<Rightarrow> flow" where
  "flow_start fn = (let n = length (Blocks fn) in
     \<lparr>entryStates = (replicate n None)[Entry fn := Some []], exitStates = replicate n None,
      worklist = [Entry fn], inQueue = (replicate n False)[Entry fn := True]\<rparr>)"

definition computeBlockStates :: "Function \<Rightarrow> (known option list \<times> known option list) option" where
  "computeBlockStates fn =
     (let n = length (Blocks fn) in
      if Entry fn \<ge> n then Some (replicate n None, replicate n None)
      else map_option (\<lambda>s. (entryStates s, exitStates s))
             (flow_loop (2 * n * (instr_count fn + 1) + 2) fn (Predecessors fn) (flow_start fn)))"

section \<open>Constant propagation\<close>

definition substituteConst :: "Operand \<Rightarrow> known \<Rightarrow> cop option" where
  "substituteConst op known =
     (case op of
        CopyOp p _ \<Rightarrow> if Projections p \<noteq> [] then None else map_of known (place_Local p)
      | MoveOp p _ \<Rightarrow> if Projections p \<noteq> [] then None else map_of known (place_Local p)
      | _ \<Rightarrow> None)"

definition rewrite_op :: "known \<Rightarrow> Operand \<Rightarrow> Operand" where
  "rewrite_op known op = (case substituteConst op known of None \<Rightarrow> op | Some co \<Rightarrow> ConstOp (fst co) (snd co))"

fun rewrite_proj :: "known \<Rightarrow> Projection \<Rightarrow> Projection" where
  "rewrite_proj known (IndexProj i t) = IndexProj (rewrite_op known i) t"
| "rewrite_proj known p = p"

definition rewritePlaceProjections :: "known \<Rightarrow> Place \<Rightarrow> Place" where
  "rewritePlaceProjections known p = Place (place_Local p) (map (rewrite_proj known) (Projections p))"

fun rewriteRValue :: "known \<Rightarrow> RValue \<Rightarrow> RValue" where
  "rewriteRValue k (UseRV op) = UseRV (rewrite_op k op)"
| "rewriteRValue k (UnaryRV u a t) = UnaryRV u (rewrite_op k a) t"
| "rewriteRValue k (BinaryRV b l r t) = BinaryRV b (rewrite_op k l) (rewrite_op k r) t"
| "rewriteRValue k (AggregateRV a fs t vi vt) = AggregateRV a (map (rewrite_op k) fs) t vi vt"
| "rewriteRValue k (CastRV c a f t) = CastRV c (rewrite_op k a) f t"
| "rewriteRValue k (DiscriminantRV p t) = DiscriminantRV (rewritePlaceProjections k p) t"
| "rewriteRValue k (LenRV p t) = LenRV (rewritePlaceProjections k p) t"
| "rewriteRValue k (AddressOfRV p t) = AddressOfRV (rewritePlaceProjections k p) t"
| "rewriteRValue k (RefRV p t) = RefRV (rewritePlaceProjections k p) t"
| "rewriteRValue k rv = rv"

fun rewrite_callee :: "known \<Rightarrow> Callee \<Rightarrow> Callee" where
  "rewrite_callee k (IndirectCall op) = IndirectCall (rewrite_op k op)"
| "rewrite_callee k c = c"

text \<open>One instruction of the walk: what it becomes, and what is known after it.\<close>

fun prop_instr :: "known \<Rightarrow> Instr \<Rightarrow> Instr \<times> known" where
  "prop_instr k (AssignInstr d src) =
     (let d' = rewritePlaceProjections k d; src' = rewriteRValue k src in (AssignInstr d' src', track d' src' k))"
| "prop_instr k (CallInstr d c args) =
     (CallInstr (map_option (rewritePlaceProjections k) d) (rewrite_callee k c) (map (rewrite_op k) args), forget d k)"
| "prop_instr k (IntrinsicInstr d i args) =
     (IntrinsicInstr (map_option (rewritePlaceProjections k) d) i (map (rewrite_op k) args), forget d k)"
| "prop_instr k i = (i, k)"

fun prop_instrs :: "known \<Rightarrow> Instr list \<Rightarrow> Instr list \<times> known" where
  "prop_instrs k [] = ([], k)"
| "prop_instrs k (i # is) =
     (let (i', k1) = prop_instr k i; (is', k2) = prop_instrs k1 is in (i' # is', k2))"

fun prop_term :: "known \<Rightarrow> Terminator \<Rightarrow> Terminator" where
  "prop_term k (BranchTerm c t e) = BranchTerm (rewrite_op k c) t e"
| "prop_term k (SwitchIntTerm s cs d) = SwitchIntTerm (rewrite_op k s) cs d"
| "prop_term k t = t"

fun switch_target :: "int \<Rightarrow> SwitchCase list \<Rightarrow> BlockID \<Rightarrow> BlockID" where
  "switch_target v [] d = d"
| "switch_target v (c # cs) d = (if case_Value c = v then case_Target c else switch_target v cs d)"

definition foldTerminator :: "Terminator \<Rightarrow> Terminator" where
  "foldTerminator t =
     (case t of
        BranchTerm (ConstOp (BoolConst b) _) th el \<Rightarrow> GotoTerm (if b then th else el)
      | SwitchIntTerm (ConstOp (IntConst v _) _) cs d \<Rightarrow> GotoTerm (switch_target v cs d)
      | _ \<Rightarrow> t)"

definition propagateBlockWithSeed :: "BasicBlock \<Rightarrow> known \<Rightarrow> BasicBlock" where
  "propagateBlockWithSeed bb known =
     (let (is, k) = prop_instrs known (Instrs bb)
      in bb\<lparr>Instrs := is, Term := foldTerminator (prop_term k (Term bb))\<rparr>)"

definition copyPropagateFn :: "Function \<Rightarrow> Function option" where
  "copyPropagateFn fn =
     (if Blocks fn = [] then Some fn
      else map_option (\<lambda>(entry, _). fn\<lparr>Blocks := map2 (\<lambda>e b. map_option (\<lambda>bb. propagateBlockWithSeed bb (case e of None \<Rightarrow> [] | Some s \<Rightarrow> s)) b)
             entry (Blocks fn)\<rparr>) (computeBlockStates fn))"

section \<open>Dead assignments\<close>

type_synonym reads = "LocalID \<Rightarrow> nat"

definition read_local :: "LocalID \<Rightarrow> reads \<Rightarrow> reads" where
  "read_local l r = r(l := r l + 1)"

fun countOperandReads :: "Operand \<Rightarrow> reads \<Rightarrow> reads"
  and countReadPlace :: "Place \<Rightarrow> reads \<Rightarrow> reads"
  and countProjReads :: "Projection \<Rightarrow> reads \<Rightarrow> reads" where
  "countOperandReads (CopyOp p _) r = countReadPlace p r"
| "countOperandReads (MoveOp p _) r = countReadPlace p r"
| "countOperandReads (ConstOp _ _) r = r"
| "countOperandReads NilOp r = r"
| "countReadPlace (Place l ps) r = fold countProjReads ps (read_local l r)"
| "countProjReads (IndexProj i _) r = countOperandReads i r"
| "countProjReads (FieldProj _ _ _) r = r"
| "countProjReads (TupleProj _ _) r = r"
| "countProjReads (VariantProj _ _ _ _) r = r"
| "countProjReads (DerefProj _) r = r"
| "countProjReads NilProj r = r"

fun countRValueReads :: "RValue \<Rightarrow> reads \<Rightarrow> reads" where
  "countRValueReads (UseRV op) r = countOperandReads op r"
| "countRValueReads (UnaryRV _ a _) r = countOperandReads a r"
| "countRValueReads (BinaryRV _ a b _) r = countOperandReads b (countOperandReads a r)"
| "countRValueReads (AggregateRV _ fs _ _ _) r = fold countOperandReads fs r"
| "countRValueReads (CastRV _ a _ _) r = countOperandReads a r"
| "countRValueReads (DiscriminantRV p _) r = countReadPlace p r"
| "countRValueReads (LenRV p _) r = countReadPlace p r"
| "countRValueReads (RefRV p _) r = countReadPlace p r"
| "countRValueReads (AddressOfRV p _) r = countReadPlace p r"
| "countRValueReads (GlobalRefRV _ _) r = r"
| "countRValueReads (NullaryRV _ _) r = r"
| "countRValueReads NilRV r = r"

definition countDest :: "Place \<Rightarrow> reads \<Rightarrow> reads" where
  "countDest p r = (if HasProjections p then countReadPlace p r else r)"

definition countDestOpt :: "Place option \<Rightarrow> reads \<Rightarrow> reads" where
  "countDestOpt d r = (case d of None \<Rightarrow> r | Some p \<Rightarrow> countDest p r)"

fun countCallee :: "Callee \<Rightarrow> reads \<Rightarrow> reads" where
  "countCallee (IndirectCall op) r = countOperandReads op r"
| "countCallee _ r = r"

fun countInstr :: "Instr \<Rightarrow> reads \<Rightarrow> reads" where
  "countInstr (AssignInstr d src) r = countRValueReads src (countDest d r)"
| "countInstr (CallInstr d c args) r = fold countOperandReads args (countCallee c (countDestOpt d r))"
| "countInstr (IntrinsicInstr d _ args) r = fold countOperandReads args (countDestOpt d r)"
| "countInstr _ r = r"

fun countTerm :: "Function \<Rightarrow> Terminator \<Rightarrow> reads \<Rightarrow> reads" where
  "countTerm fn (BranchTerm c _ _) r = countOperandReads c r"
| "countTerm fn (SwitchIntTerm s _ _) r = countOperandReads s r"
| "countTerm fn ReturnTerm r = (if ReturnLocal fn < length (Locals fn) then read_local (ReturnLocal fn) r else r)"
| "countTerm fn _ r = r"

definition countBlock :: "Function \<Rightarrow> BasicBlock option \<Rightarrow> reads \<Rightarrow> reads" where
  "countBlock fn b r = (case b of None \<Rightarrow> r | Some bb \<Rightarrow> countTerm fn (Term bb) (fold countInstr (Instrs bb) r))"

definition collectLocalReads :: "Function \<Rightarrow> reads" where
  "collectLocalReads fn = fold (countBlock fn) (Blocks fn) (\<lambda>_. 0)"

definition localIsDead :: "Function \<Rightarrow> LocalID \<Rightarrow> reads \<Rightarrow> bool" where
  "localIsDead fn l r =
     (if l \<ge> length (Locals fn) then False
      else (case Locals fn ! l of None \<Rightarrow> False | Some loc \<Rightarrow> if IsParam loc \<or> IsReturn loc then False else r l = 0))"

definition dead_dest :: "Function \<Rightarrow> reads \<Rightarrow> Place option \<Rightarrow> Place option" where
  "dead_dest fn r d =
     (case d of None \<Rightarrow> None | Some p \<Rightarrow> if \<not> HasProjections p \<and> localIsDead fn (place_Local p) r then None else Some p)"

fun dead_instr :: "Function \<Rightarrow> reads \<Rightarrow> Instr \<Rightarrow> Instr option" where
  "dead_instr fn r (AssignInstr d src) =
     (if \<not> HasProjections d \<and> localIsDead fn (place_Local d) r then None else Some (AssignInstr d src))"
| "dead_instr fn r (CallInstr d c args) = Some (CallInstr (dead_dest fn r d) c args)"
| "dead_instr fn r (IntrinsicInstr d k args) = Some (IntrinsicInstr (dead_dest fn r d) k args)"
| "dead_instr fn r (StorageLiveInstr l) = (if localIsDead fn l r then None else Some (StorageLiveInstr l))"
| "dead_instr fn r (StorageDeadInstr l) = (if localIsDead fn l r then None else Some (StorageDeadInstr l))"
| "dead_instr fn r NilInstr = Some NilInstr"

definition deadAssignElim :: "Function \<Rightarrow> Function" where
  "deadAssignElim fn =
     (let r = collectLocalReads fn in
      fn\<lparr>Blocks := map (map_option (\<lambda>bb. bb\<lparr>Instrs := List.map_filter (dead_instr fn r) (Instrs bb)\<rparr>)) (Blocks fn)\<rparr>)"

section \<open>Empty blocks\<close>

function resolve :: "BasicBlock option list \<Rightarrow> BlockID list \<Rightarrow> BlockID \<Rightarrow> BlockID" where
  "resolve bs seen target =
     (if target \<ge> length bs \<or> target \<in> set seen then target
      else (case bs ! target of None \<Rightarrow> target
            | Some bb \<Rightarrow> if Instrs bb \<noteq> [] then target
                else (case Term bb of GotoTerm t \<Rightarrow> resolve bs (target # seen) t | _ \<Rightarrow> target)))"
  by pat_completeness auto
termination
proof (relation "measure (\<lambda>(bs, seen, _). card ({..<length bs} - set seen))", goal_cases)
  case (2 bs seen target bb t)
  then have "target \<in> {..<length bs} - set seen" by simp
  moreover have "{..<length bs} - set (target # seen) = ({..<length bs} - set seen) - {target}" by (simp add: set_diff_eq) blast
  ultimately show ?case using card_Diff1_less [of "{..<length bs} - set seen" target] by simp
qed simp

declare resolve.simps [simp del]

fun retarget_term :: "BasicBlock option list \<Rightarrow> Terminator \<Rightarrow> Terminator" where
  "retarget_term bs (GotoTerm t) = GotoTerm (resolve bs [] t)"
| "retarget_term bs (BranchTerm c t e) = BranchTerm c (resolve bs [] t) (resolve bs [] e)"
| "retarget_term bs (SwitchIntTerm s cs d) =
     SwitchIntTerm s (map (\<lambda>c. SwitchCase (case_Value c) (resolve bs [] (case_Target c)) (case_Label c)) cs) (resolve bs [] d)"
| "retarget_term bs t = t"

text \<open>The loop over the blocks: later blocks see the edges that were shortened before.\<close>

definition retarget_block :: "nat \<Rightarrow> BasicBlock option list \<Rightarrow> BasicBlock option list" where
  "retarget_block i bs = (case bs ! i of None \<Rightarrow> bs | Some bb \<Rightarrow> bs[i := Some (bb\<lparr>Term := retarget_term bs (Term bb)\<rparr>)])"

definition collapseEmptyGotos :: "Function \<Rightarrow> Function" where
  "collapseEmptyGotos fn =
     (let bs = fold retarget_block [0..<length (Blocks fn)] (Blocks fn)
      in fn\<lparr>Blocks := bs, Entry := resolve bs [] (Entry fn)\<rparr>)"

section \<open>The fixed point of the passes\<close>

fun peephole_iters :: "nat \<Rightarrow> Function \<Rightarrow> Function option" where
  "peephole_iters 0 fn = Some fn"
| "peephole_iters (Suc n) fn =
     (case copyPropagateFn fn of None \<Rightarrow> None
      | Some f1 \<Rightarrow>
          (let f2 = collapseEmptyGotos f1; f3 = deadAssignElim f2 in
           if f1 = fn \<and> f2 = f1 \<and> f3 = f2 then Some f3 else peephole_iters n f3))"

definition peephole :: "Function \<Rightarrow> Function option" where
  "peephole fn = (if IsExternal fn \<or> IsIntrinsic fn then Some fn else peephole_iters 16 fn)"

end
