(* ===== verification/MIR_Semantics.thy ===== *)
theory MIR_Semantics
  imports MIR_Optimize
begin

text \<open>
  What MIR functions mean, and what the passes preserve. The meaning of constants, operators, projections, calls
  and intrinsics belongs to the back ends; it is given by a \<open>machine\<close>, a record of functions on the back end's values and
  memory. The rest is fixed by the comments of \<^verbatim>\<open>mir.go\<close>: rvalues have no side effects, a
  copy and a move read the same value, storage markers do nothing, calls and intrinsics may change the memory. Taking the address of
  a place, which lowering does not emit, stops a run. A run that traps, or does not end within its fuel, has no result.
\<close>

section \<open>Machines\<close>

datatype 'v step = SField int | STuple int | SVariant int int | SIndex 'v | SDeref

datatype 'v call_target = DirectTarget string | IndirectTarget 'v | IntrinsicTarget IntrinsicKind

datatype rv_op =
  OpUnary UnaryOp Ty | OpBinary BinaryOp Ty | OpAggregate AggregateKind Ty int string | OpDiscriminant Ty | OpLen Ty
| OpCast CastKind Ty Ty | OpRef Ty | OpGlobal string Ty | OpNullary NullaryRVKind Ty

record ('v, 'w) machine =
  m_const :: "Const \<Rightarrow> Ty \<Rightarrow> 'v"
  m_get :: "'v step \<Rightarrow> 'v \<Rightarrow> 'w \<Rightarrow> 'v option"
  m_put :: "'v step list \<Rightarrow> 'v \<Rightarrow> 'v \<Rightarrow> 'w \<Rightarrow> ('v \<times> 'w) option"
  m_rv :: "rv_op \<Rightarrow> 'v list \<Rightarrow> 'w \<Rightarrow> 'v option"
  m_call :: "'v call_target \<Rightarrow> 'v list \<Rightarrow> 'w \<Rightarrow> ('v \<times> 'w) option"
  m_bool :: "'v \<Rightarrow> bool option"
  m_int :: "'v \<Rightarrow> int option"

type_synonym 'v env = "LocalID \<Rightarrow> 'v"

section \<open>Runs\<close>

fun follow :: "('v, 'w) machine \<Rightarrow> 'w \<Rightarrow> 'v step list \<Rightarrow> 'v \<Rightarrow> 'v option" where
  "follow M w [] v = Some v"
| "follow M w (s # ss) v = Option.bind (m_get M s v w) (follow M w ss)"

fun eval_op :: "('v, 'w) machine \<Rightarrow> 'v env \<Rightarrow> 'w \<Rightarrow> Operand \<Rightarrow> 'v option"
  and eval_place :: "('v, 'w) machine \<Rightarrow> 'v env \<Rightarrow> 'w \<Rightarrow> Place \<Rightarrow> 'v option"
  and eval_step :: "('v, 'w) machine \<Rightarrow> 'v env \<Rightarrow> 'w \<Rightarrow> Projection \<Rightarrow> 'v step option" where
  "eval_op M env w (CopyOp p _) = eval_place M env w p"
| "eval_op M env w (MoveOp p _) = eval_place M env w p"
| "eval_op M env w (ConstOp c t) = (if c = NilConst then None else Some (m_const M c t))"
| "eval_op M env w NilOp = None"
| "eval_place M env w (Place l ps) = Option.bind (those (map (eval_step M env w) ps)) (\<lambda>ss. follow M w ss (env l))"
| "eval_step M env w (FieldProj i _ _) = Some (SField i)"
| "eval_step M env w (TupleProj i _) = Some (STuple i)"
| "eval_step M env w (VariantProj v _ i _) = Some (SVariant v i)"
| "eval_step M env w (IndexProj op _) = map_option SIndex (eval_op M env w op)"
| "eval_step M env w (DerefProj _) = Some SDeref"
| "eval_step M env w NilProj = None"

definition eval_ops :: "('v, 'w) machine \<Rightarrow> 'v env \<Rightarrow> 'w \<Rightarrow> Operand list \<Rightarrow> 'v list option" where
  "eval_ops M env w ops = those (map (eval_op M env w) ops)"

fun eval_rv :: "('v, 'w) machine \<Rightarrow> 'v env \<Rightarrow> 'w \<Rightarrow> RValue \<Rightarrow> 'v option" where
  "eval_rv M env w (UseRV op) = eval_op M env w op"
| "eval_rv M env w (UnaryRV u a t) = Option.bind (eval_ops M env w [a]) (\<lambda>vs. m_rv M (OpUnary u t) vs w)"
| "eval_rv M env w (BinaryRV b l r t) = Option.bind (eval_ops M env w [l, r]) (\<lambda>vs. m_rv M (OpBinary b t) vs w)"
| "eval_rv M env w (AggregateRV k fs t vi vt) = Option.bind (eval_ops M env w fs) (\<lambda>vs. m_rv M (OpAggregate k t vi vt) vs w)"
| "eval_rv M env w (DiscriminantRV p t) = Option.bind (eval_place M env w p) (\<lambda>v. m_rv M (OpDiscriminant t) [v] w)"
| "eval_rv M env w (LenRV p t) = Option.bind (eval_place M env w p) (\<lambda>v. m_rv M (OpLen t) [v] w)"
| "eval_rv M env w (CastRV c a f t) = Option.bind (eval_ops M env w [a]) (\<lambda>vs. m_rv M (OpCast c f t) vs w)"
| "eval_rv M env w (RefRV p t) = Option.bind (eval_place M env w p) (\<lambda>v. m_rv M (OpRef t) [v] w)"
| "eval_rv M env w (GlobalRefRV g t) = m_rv M (OpGlobal g t) [] w"
| "eval_rv M env w (NullaryRV k t) = m_rv M (OpNullary k t) [] w"
| "eval_rv M env w (AddressOfRV p t) = None"
| "eval_rv M env w NilRV = None"

definition store :: "('v, 'w) machine \<Rightarrow> Place \<Rightarrow> 'v \<Rightarrow> 'v env \<times> 'w \<Rightarrow> ('v env \<times> 'w) option" where
  "store M p v s =
     (let (env, w) = s; l = place_Local p in
      if Projections p = [] then Some (env(l := v), w)
      else Option.bind (those (map (eval_step M env w) (Projections p))) (\<lambda>ss.
             map_option (\<lambda>(v', w'). (env(l := v'), w')) (m_put M ss v (env l) w)))"

definition store_opt :: "('v, 'w) machine \<Rightarrow> Place option \<Rightarrow> 'v \<Rightarrow> 'v env \<times> 'w \<Rightarrow> ('v env \<times> 'w) option" where
  "store_opt M d v s = (case d of None \<Rightarrow> Some s | Some p \<Rightarrow> store M p v s)"

fun eval_callee :: "('v, 'w) machine \<Rightarrow> 'v env \<Rightarrow> 'w \<Rightarrow> Callee \<Rightarrow> 'v call_target option" where
  "eval_callee M env w (FnRef f _) = Some (DirectTarget f)"
| "eval_callee M env w (IndirectCall op) = map_option IndirectTarget (eval_op M env w op)"
| "eval_callee M env w NilCallee = None"

definition exec_call :: "('v, 'w) machine \<Rightarrow> Place option \<Rightarrow> 'v call_target option \<Rightarrow> Operand list \<Rightarrow> 'v env \<times> 'w \<Rightarrow> ('v env \<times> 'w) option" where
  "exec_call M d c args s =
     Option.bind c (\<lambda>t. Option.bind (eval_ops M (fst s) (snd s) args) (\<lambda>vs.
       Option.bind (m_call M t vs (snd s)) (\<lambda>(v, w'). store_opt M d v (fst s, w'))))"

fun exec_instr :: "('v, 'w) machine \<Rightarrow> Instr \<Rightarrow> 'v env \<times> 'w \<Rightarrow> ('v env \<times> 'w) option" where
  "exec_instr M (AssignInstr d src) s = Option.bind (eval_rv M (fst s) (snd s) src) (\<lambda>v. store M d v s)"
| "exec_instr M (CallInstr d c args) s = exec_call M d (eval_callee M (fst s) (snd s) c) args s"
| "exec_instr M (IntrinsicInstr d k args) s = exec_call M d (Some (IntrinsicTarget k)) args s"
| "exec_instr M (StorageLiveInstr _) s = Some s"
| "exec_instr M (StorageDeadInstr _) s = Some s"
| "exec_instr M NilInstr s = None"

fun exec_instrs :: "('v, 'w) machine \<Rightarrow> Instr list \<Rightarrow> 'v env \<times> 'w \<Rightarrow> ('v env \<times> 'w) option" where
  "exec_instrs M [] s = Some s"
| "exec_instrs M (i # is) s = Option.bind (exec_instr M i s) (exec_instrs M is)"

text \<open>Where a terminator goes: to a block, or out of the function.\<close>

datatype jump = Jump BlockID | Return

fun next_block :: "('v, 'w) machine \<Rightarrow> Terminator \<Rightarrow> 'v env \<times> 'w \<Rightarrow> jump option" where
  "next_block M (GotoTerm t) s = Some (Jump t)"
| "next_block M (BranchTerm c t e) s =
     Option.bind (eval_op M (fst s) (snd s) c) (\<lambda>v. map_option (\<lambda>b. Jump (if b then t else e)) (m_bool M v))"
| "next_block M (SwitchIntTerm c cs d) s =
     Option.bind (eval_op M (fst s) (snd s) c) (\<lambda>v. map_option (\<lambda>i. Jump (switch_target i cs d)) (m_int M v))"
| "next_block M ReturnTerm s = Some Return"
| "next_block M UnreachableTerm s = None"
| "next_block M NilTerm s = None"

fun run :: "('v, 'w) machine \<Rightarrow> Function \<Rightarrow> nat \<Rightarrow> BlockID \<Rightarrow> 'v env \<times> 'w \<Rightarrow> ('v \<times> 'w) option" where
  "run M fn 0 b s = None"
| "run M fn (Suc n) b s =
     Option.bind (Block fn b) (\<lambda>bb. Option.bind (exec_instrs M (Instrs bb) s) (\<lambda>s1.
       Option.bind (next_block M (Term bb) s1) (\<lambda>j.
         case j of Jump t \<Rightarrow> run M fn n t s1 | Return \<Rightarrow> Some (fst s1 (ReturnLocal fn), snd s1))))"

lemma exec_done [simp]: "Option.bind x (exec_instrs M []) = x"
  by (cases x) simp_all

lemma run_SucE:
  assumes "run M fn (Suc n) b s = Some r"
  obtains bb env1 w1 j where "Block fn b = Some bb" "exec_instrs M (Instrs bb) s = Some (env1, w1)"
    "next_block M (Term bb) (env1, w1) = Some j"
    "(case j of Jump t \<Rightarrow> run M fn n t (env1, w1) | Return \<Rightarrow> Some (env1 (ReturnLocal fn), w1)) = Some r"
proof -
  obtain bb s1 j where "Block fn b = Some bb" "exec_instrs M (Instrs bb) s = Some s1" "next_block M (Term bb) s1 = Some j"
      "(case j of Jump t \<Rightarrow> run M fn n t s1 | Return \<Rightarrow> Some (fst s1 (ReturnLocal fn), snd s1)) = Some r"
    using assms by (auto simp: bind_eq_Some_conv)
  then show thesis using that [of bb "fst s1" "snd s1" j] unfolding prod.collapse by blast
qed

text \<open>\<open>refines M fn fn'\<close>: whatever \<open>fn\<close> returns, \<open>fn'\<close> returns within the same number of blocks.\<close>

definition refines :: "('v, 'w) machine \<Rightarrow> Function \<Rightarrow> Function \<Rightarrow> bool" where
  "refines M fn fn' \<longleftrightarrow> (\<forall>n s r. run M fn n (Entry fn) s = Some r \<longrightarrow> run M fn' n (Entry fn') s = Some r)"

lemma refines_refl: "refines M fn fn"
  by (simp add: refines_def)

lemma refines_trans: "refines M f g \<Longrightarrow> refines M g h \<Longrightarrow> refines M f h"
  by (simp add: refines_def)

lemma run_mono: "run M fn n b s = Some r \<Longrightarrow> n \<le> m \<Longrightarrow> run M fn m b s = Some r"
proof (induction n arbitrary: m b s)
  case (Suc n)
  then obtain m' where m: "m = Suc m'" "n \<le> m'" by (cases m) auto
  show ?case using Suc.prems(1) Suc.IH [OF _ m(2)] unfolding m by (auto simp: bind_eq_Some_conv split: jump.splits)
qed simp

text \<open>The same from every block; a pass that keeps the entry block is shown correct this way.\<close>

definition run_le :: "('v, 'w) machine \<Rightarrow> Function \<Rightarrow> Function \<Rightarrow> bool" where
  "run_le M fn fn' \<longleftrightarrow> (\<forall>n b s r. run M fn n b s = Some r \<longrightarrow> run M fn' n b s = Some r)"

lemma run_le_trans: "run_le M f g \<Longrightarrow> run_le M g h \<Longrightarrow> run_le M f h"
  by (simp add: run_le_def)

section \<open>Collapsing empty blocks\<close>

lemma run_empty_goto:
  assumes "Block fn t = Some bb" "Instrs bb = []" "Term bb = GotoTerm t'" "run M fn n t s = Some r"
  shows "run M fn n t' s = Some r"
proof (cases n)
  case (Suc k)
  then have "run M fn k t' s = Some r" using assms by simp
  then show ?thesis using run_mono Suc by (metis lessI less_imp_le)
qed (use assms in simp)

lemma run_resolve:
  assumes "Blocks fn = bs"
  shows "run M fn n t s = Some r \<Longrightarrow> run M fn n (resolve bs seen t) s = Some r"
  using assms
proof (induction bs seen t rule: resolve.induct)
  case (1 bs seen t)
  show ?case
  proof (cases "t < length bs \<and> t \<notin> set seen")
    case True
    show ?thesis
    proof (cases "bs ! t")
      case (Some bb)
      have b: "Block fn t = Some bb" using Some True "1.prems"(2) by (simp add: Block_def)
      show ?thesis
      proof (cases "Instrs bb = [] \<and> (\<exists>t'. Term bb = GotoTerm t')")
        case goto: True
        then obtain t' where t': "Instrs bb = []" "Term bb = GotoTerm t'" by blast
        have "run M fn n (resolve bs (t # seen) t') s = Some r"
          using "1.IH" [of bb t'] run_empty_goto [OF b t' "1.prems"(1)] True Some t' "1.prems"(2) by simp
        then show ?thesis using True Some t' by (subst resolve.simps) simp
      next
        case False
        then have "resolve bs seen t = t" using True Some by (subst resolve.simps) (auto split: Terminator.splits)
        then show ?thesis using "1.prems" by simp
      qed
    qed (use True "1.prems" in \<open>subst resolve.simps, simp\<close>)
  qed (use "1.prems" in \<open>subst resolve.simps, auto\<close>)
qed

fun map_jump :: "(BlockID \<Rightarrow> BlockID) \<Rightarrow> jump \<Rightarrow> jump" where
  "map_jump f (Jump t) = Jump (f t)"
| "map_jump f Return = Return"

lemma switch_target_map:
  "switch_target v (map (\<lambda>c. SwitchCase (case_Value c) (f (case_Target c)) (case_Label c)) cs) (f d) = f (switch_target v cs d)"
  by (induction cs) auto

lemma next_block_retarget: "next_block M (retarget_term bs t) s = map_option (map_jump (resolve bs [])) (next_block M t s)"
  by (cases t) (auto simp: switch_target_map option.map_comp comp_def map_option_bind intro!: bind_option_cong map_option_cong)

lemma retarget_block_run:
  assumes "i < length (Blocks fn)"
  shows "run_le M fn (fn\<lparr>Blocks := retarget_block i (Blocks fn)\<rparr>)" (is "run_le M fn ?fn")
proof -
  let ?bs = "Blocks fn"
  have "run M fn n b s = Some r \<Longrightarrow> run M ?fn n b s = Some r" for n b s r
  proof (induction n arbitrary: b s)
    case (Suc n)
    then obtain bb s1 j where b: "Block fn b = Some bb" "exec_instrs M (Instrs bb) s = Some s1" "next_block M (Term bb) s1 = Some j"
        and j: "(case j of Jump t \<Rightarrow> run M fn n t s1 | Return \<Rightarrow> Some (fst s1 (ReturnLocal fn), snd s1)) = Some r"
      by (auto simp: bind_eq_Some_conv)
    show ?case
    proof (cases "b = i")
      case True
      let ?bb = "bb\<lparr>Term := retarget_term ?bs (Term bb)\<rparr>"
      have "Block ?fn b = Some ?bb" using b(1) True assms by (simp add: Block_def retarget_block_def split: if_splits)
      moreover have "run M ?fn n (resolve ?bs [] t) s1 = Some r" if "j = Jump t" for t
        using Suc.IH [OF run_resolve [OF refl, of M fn n t s1 r "[]"]] j that by simp
      ultimately show ?thesis using b(2,3) j by (cases j) (simp_all add: next_block_retarget)
    next
      case False
      then have "Block ?fn b = Some bb" using b(1) by (auto simp: Block_def retarget_block_def split: if_splits option.splits)
      then show ?thesis using b(2,3) j Suc.IH by (cases j) simp_all
    qed
  qed simp
  then show ?thesis by (simp add: run_le_def)
qed

lemma retarget_block_length [simp]: "length (retarget_block i bs) = length bs"
  by (simp add: retarget_block_def split: option.split)

lemma retarget_blocks_run:
  "list_all (\<lambda>i. i < length (Blocks fn)) is \<Longrightarrow> run_le M fn (fn\<lparr>Blocks := fold retarget_block is (Blocks fn)\<rparr>)"
proof (induction "is" arbitrary: fn)
  case Nil
  then show ?case by (simp add: run_le_def)
next
  case (Cons i "is")
  let ?fn = "fn\<lparr>Blocks := retarget_block i (Blocks fn)\<rparr>"
  have "run_le M ?fn (?fn\<lparr>Blocks := fold retarget_block is (Blocks ?fn)\<rparr>)" using Cons.prems by (intro Cons.IH) simp
  then show ?case using run_le_trans [OF retarget_block_run [of i fn M]] Cons.prems by simp
qed

lemma run_Entry: "run M (fn\<lparr>Entry := e\<rparr>) n b s = run M fn n b s"
proof (induction n arbitrary: b s)
  case (Suc n)
  have "Block (fn\<lparr>Entry := e\<rparr>) b = Block fn b" by (simp add: Block_def)
  then show ?case using Suc.IH by (simp cong: jump.case_cong)
qed simp

lemma collapse_refines: "refines M fn (collapseEmptyGotos fn)"
proof -
  let ?bs = "fold retarget_block [0..<length (Blocks fn)] (Blocks fn)"
  let ?fn = "fn\<lparr>Blocks := ?bs\<rparr>"
  have c: "collapseEmptyGotos fn = ?fn\<lparr>Entry := resolve ?bs [] (Entry fn)\<rparr>" by (simp add: collapseEmptyGotos_def Let_def)
  have "run_le M fn ?fn" by (rule retarget_blocks_run) (simp add: list_all_iff)
  then show ?thesis unfolding refines_def c run_Entry using run_resolve [of ?fn ?bs M] by (simp add: run_le_def)
qed

section \<open>Dead assignments\<close>

text \<open>\<open>D\<close> is a set of locals. A read count that is zero on \<open>D\<close> after a piece of code was counted was zero before, and the
  code does not look at \<open>D\<close>.\<close>

definition zero_on :: "LocalID set \<Rightarrow> reads \<Rightarrow> bool" where
  "zero_on D r \<longleftrightarrow> (\<forall>l \<in> D. r l = 0)"

definition agree :: "LocalID set \<Rightarrow> 'v env \<Rightarrow> 'v env \<Rightarrow> bool" where
  "agree D env env' \<longleftrightarrow> (\<forall>l. l \<notin> D \<longrightarrow> env l = env' l)"

lemma zero_on_read: "zero_on D (read_local l r) \<longleftrightarrow> l \<notin> D \<and> zero_on D r"
  by (auto simp: zero_on_def read_local_def)

lemma zero_on_fold:
  assumes "\<And>x r. x \<in> set xs \<Longrightarrow> zero_on D (c x r) \<Longrightarrow> zero_on D r \<and> Q x" "zero_on D (fold c xs r)"
  shows "zero_on D r \<and> (\<forall>x \<in> set xs. Q x)"
  using assms
proof (induction xs arbitrary: r)
  case (Cons x xs)
  have "zero_on D (c x r) \<and> (\<forall>x \<in> set xs. Q x)"
  proof (rule Cons.IH)
    show "zero_on D r \<and> Q x" if "x \<in> set xs" "zero_on D (c x r)" for x r using Cons.prems(1) [of x r] that by simp
    show "zero_on D (fold c xs (c x r))" using Cons.prems(2) by simp
  qed
  then show ?case using Cons.prems(1) [of x r] by simp
qed simp

lemma agree_eval:
  assumes "agree D env env'"
  shows "zero_on D (countOperandReads op r) \<Longrightarrow> zero_on D r \<and> eval_op M env w op = eval_op M env' w op"
    and "zero_on D (countReadPlace p r) \<Longrightarrow> zero_on D r \<and> place_Local p \<notin> D \<and>
      map (eval_step M env w) (Projections p) = map (eval_step M env' w) (Projections p) \<and>
      eval_place M env w p = eval_place M env' w p"
    and "zero_on D (countProjReads pr r) \<Longrightarrow> zero_on D r \<and> eval_step M env w pr = eval_step M env' w pr"
proof (induction op r and p r and pr r rule: countOperandReads_countReadPlace_countProjReads.induct)
  case (5 l ps r)
  from zero_on_fold [of ps D countProjReads "\<lambda>pr. eval_step M env w pr = eval_step M env' w pr" "read_local l r"] "5.IH" "5.prems"
  have "zero_on D (read_local l r) \<and> (\<forall>pr \<in> set ps. eval_step M env w pr = eval_step M env' w pr)" by simp
  then have "l \<notin> D" "zero_on D r" "map (eval_step M env w) ps = map (eval_step M env' w) ps" by (auto simp: zero_on_read)
  moreover from this have "env l = env' l" using assms by (simp add: agree_def)
  ultimately show ?case by (simp del: map_eq_conv)
qed simp_all

lemma agree_eval_ops:
  assumes "agree D env env'" "zero_on D (fold countOperandReads ops r)"
  shows "zero_on D r \<and> eval_ops M env w ops = eval_ops M env' w ops"
proof -
  have "zero_on D r \<and> (\<forall>op \<in> set ops. eval_op M env w op = eval_op M env' w op)"
    by (rule zero_on_fold [OF _ assms(2)]) (rule agree_eval(1) [OF assms(1)])
  then show ?thesis by (simp add: eval_ops_def cong: map_cong)
qed

lemma agree_eval_rv:
  assumes "agree D env env'" "zero_on D (countRValueReads rv r)"
  shows "zero_on D r \<and> eval_rv M env w rv = eval_rv M env' w rv"
proof -
  note op = agree_eval(1) [OF assms(1)] and ops = agree_eval_ops [OF assms(1)] and place = agree_eval(2) [OF assms(1)]
  show ?thesis
  proof (cases rv)
    case (BinaryRV b x y t)
    then show ?thesis using assms(2) ops [of "[x, y]" r M w] by simp
  next
    case (UnaryRV u x t)
    then show ?thesis using assms(2) ops [of "[x]" r M w] by simp
  next
    case (CastRV c x f t)
    then show ?thesis using assms(2) ops [of "[x]" r M w] by simp
  next
    case (AggregateRV k fs t vi vt)
    then show ?thesis using assms(2) ops [of fs r M w] by simp
  next
    case (DiscriminantRV q t)
    then show ?thesis using assms(2) place [of q r M w] by simp
  next
    case (LenRV q t)
    then show ?thesis using assms(2) place [of q r M w] by simp
  next
    case (RefRV q t)
    then show ?thesis using assms(2) place [of q r M w] by simp
  next
    case (AddressOfRV q t)
    then show ?thesis using assms(2) place [of q r M w] by simp
  next
    case (UseRV x)
    then show ?thesis using assms(2) op [of x r M w] by simp
  qed (use assms(2) in simp_all)
qed

lemma store_agree:
  assumes "agree D env env'" "Projections p \<noteq> [] \<Longrightarrow> \<exists>r. zero_on D (countReadPlace p r)" "store M p v (env, w) = Some (env1, w1)"
  shows "\<exists>env1'. store M p v (env', w) = Some (env1', w1) \<and> agree D env1 env1'"
proof (cases "Projections p = []")
  case True
  then show ?thesis using assms(1,3) by (auto simp: store_def agree_def)
next
  case False
  then obtain r where "zero_on D (countReadPlace p r)" using assms(2) by blast
  from agree_eval(2) [OF assms(1) this, of M w]
  have e: "map (eval_step M env' w) (Projections p) = map (eval_step M env w) (Projections p)" "env' (place_Local p) = env (place_Local p)"
    using assms(1) by (simp_all add: agree_def)
  show ?thesis using assms(1,3) False by (auto simp: store_def e agree_def bind_eq_Some_conv Let_def)
qed

lemma store_opt_agree:
  assumes "agree D env env'" "zero_on D (countDestOpt d r)" "store_opt M d v (env, w) = Some (env1, w1)"
  shows "\<exists>env1'. store_opt M d v (env', w) = Some (env1', w1) \<and> agree D env1 env1'"
proof (cases d)
  case (Some p)
  then show ?thesis using store_agree [OF assms(1), of p M v w env1 w1] assms(2,3)
    by (auto simp: store_opt_def countDestOpt_def countDest_def HasProjections_def split: if_splits)
qed (use assms in \<open>simp add: store_opt_def\<close>)

lemma zero_on_dest:
  assumes "zero_on D (countDest p r)"
  shows "zero_on D r" "Projections p \<noteq> [] \<Longrightarrow> zero_on D (countReadPlace p r)"
proof -
  show "Projections p \<noteq> [] \<Longrightarrow> zero_on D (countReadPlace p r)" using assms by (simp add: countDest_def HasProjections_def)
  show "zero_on D r" using assms agree_eval(2) [of D undefined undefined p r]
    by (auto simp: countDest_def agree_def split: if_splits)
qed

lemma zero_on_dest_opt: "zero_on D (countDestOpt d r) \<Longrightarrow> zero_on D r"
  using zero_on_dest(1) by (auto simp: countDestOpt_def split: option.splits)

lemma exec_instrs_append: "exec_instrs M (xs @ ys) s = Option.bind (exec_instrs M xs s) (exec_instrs M ys)"
  by (induction xs arbitrary: s) (simp_all add: bind_assoc cong: bind_option_cong)

text \<open>\<open>ys\<close> does what \<open>xs\<close> does, up to the locals in \<open>D\<close>.\<close>

definition sim_instrs :: "('v, 'w) machine \<Rightarrow> LocalID set \<Rightarrow> Instr list \<Rightarrow> Instr list \<Rightarrow> bool" where
  "sim_instrs M D xs ys \<longleftrightarrow> (\<forall>env env' w env1 w1. agree D env env' \<and> exec_instrs M xs (env, w) = Some (env1, w1) \<longrightarrow>
     (\<exists>env1'. exec_instrs M ys (env', w) = Some (env1', w1) \<and> agree D env1 env1'))"

lemma sim_instrsI:
  "(\<And>env env' w env1 w1. agree D env env' \<Longrightarrow> exec_instrs M xs (env, w) = Some (env1, w1) \<Longrightarrow>
     \<exists>env1'. exec_instrs M ys (env', w) = Some (env1', w1) \<and> agree D env1 env1') \<Longrightarrow> sim_instrs M D xs ys"
  unfolding sim_instrs_def by blast

lemma sim_instrsE:
  assumes "sim_instrs M D xs ys" "agree D env env'" "exec_instrs M xs (env, w) = Some (env1, w1)"
  obtains env1' where "exec_instrs M ys (env', w) = Some (env1', w1)" "agree D env1 env1'"
  using assms unfolding sim_instrs_def by blast

lemma sim_nil: "sim_instrs M D [] []"
  by (simp add: sim_instrs_def)

lemma sim_append:
  assumes "sim_instrs M D xs xs'" "sim_instrs M D ys ys'"
  shows "sim_instrs M D (xs @ ys) (xs' @ ys')"
proof (rule sim_instrsI)
  fix env env' w env2 w2
  assume a: "agree D env env'" and "exec_instrs M (xs @ ys) (env, w) = Some (env2, w2)"
  then obtain env1 w1 where e: "exec_instrs M xs (env, w) = Some (env1, w1)" "exec_instrs M ys (env1, w1) = Some (env2, w2)"
    by (auto simp: exec_instrs_append bind_eq_Some_conv)
  obtain env1' where e1: "exec_instrs M xs' (env', w) = Some (env1', w1)" "agree D env1 env1'"
    by (rule sim_instrsE [OF assms(1) a e(1)])
  obtain env2' where "exec_instrs M ys' (env1', w1) = Some (env2', w2)" "agree D env2 env2'"
    by (rule sim_instrsE [OF assms(2) e1(2) e(2)])
  then show "\<exists>env2'. exec_instrs M (xs' @ ys') (env', w) = Some (env2', w2) \<and> agree D env2 env2'"
    using e1(1) by (simp add: exec_instrs_append)
qed

lemma countTerm_agree:
  assumes "zero_on D (countTerm fn t r)" "agree D env env'" "D \<subseteq> {..<length (Locals fn)}"
  shows "zero_on D r" "next_block M t (env, w) = next_block M t (env', w)"
    "t = ReturnTerm \<Longrightarrow> env (ReturnLocal fn) = env' (ReturnLocal fn)"
proof -
  show "t = ReturnTerm \<Longrightarrow> env (ReturnLocal fn) = env' (ReturnLocal fn)"
    using assms by (auto simp: zero_on_read agree_def split: if_splits)
  show "zero_on D r" "next_block M t (env, w) = next_block M t (env', w)"
    using assms(1) agree_eval(1) [OF assms(2), of _ r M w] by (cases t; auto simp: zero_on_read split: if_splits)+
qed

text \<open>Two functions with the same terminators whose blocks do the same up to \<open>D\<close>, and that do not branch on or return \<open>D\<close>.\<close>

lemma agree_run:
  assumes blocks: "\<And>b bb. Block fn b = Some bb \<Longrightarrow> \<exists>bb' r. Block fn' b = Some bb' \<and> Term bb' = Term bb \<and>
      sim_instrs M D (Instrs bb) (Instrs bb') \<and> zero_on D (countTerm fn (Term bb) r)"
    and ret: "ReturnLocal fn' = ReturnLocal fn" and D: "D \<subseteq> {..<length (Locals fn)}"
  shows "agree D env env' \<Longrightarrow> run M fn n b (env, w) = Some r \<Longrightarrow> run M fn' n b (env', w) = Some r"
proof (induction n arbitrary: b env env' w)
  case (Suc n)
  obtain bb env1 w1 j where b: "Block fn b = Some bb" "exec_instrs M (Instrs bb) (env, w) = Some (env1, w1)"
      "next_block M (Term bb) (env1, w1) = Some j"
      and j: "(case j of Jump t \<Rightarrow> run M fn n t (env1, w1) | Return \<Rightarrow> Some (env1 (ReturnLocal fn), w1)) = Some r"
    by (rule run_SucE [OF Suc.prems(2)])
  obtain bb' rr where b': "Block fn' b = Some bb'" "Term bb' = Term bb" "sim_instrs M D (Instrs bb) (Instrs bb')"
      "zero_on D (countTerm fn (Term bb) rr)" using blocks [OF b(1)] by blast
  obtain env1' where e: "exec_instrs M (Instrs bb') (env', w) = Some (env1', w1)" "agree D env1 env1'"
    by (rule sim_instrsE [OF b'(3) Suc.prems(1) b(2)])
  note tm = countTerm_agree [OF b'(4) e(2) D]
  have n: "next_block M (Term bb') (env1', w1) = Some j" using tm(2) b(3) b'(2) by metis
  show ?case
  proof (cases j)
    case (Jump t)
    then show ?thesis using b'(1) e n j Suc.IH [OF e(2)] by simp
  next
    case Return
    then have "Term bb = ReturnTerm" using n b'(2) by (cases "Term bb") (auto simp: bind_eq_Some_conv)
    then show ?thesis using b'(1) e n j Return ret tm(3) by simp
  qed
qed simp

lemma agree_refl: "agree D env env"
  by (simp add: agree_def)

text \<open>The instructions that elimination keeps or drops, for the locals it takes to be dead.\<close>

abbreviation dead_set :: "Function \<Rightarrow> reads \<Rightarrow> LocalID set" where
  "dead_set fn r \<equiv> {l. localIsDead fn l r}"

lemma dead_store_opt:
  assumes "agree (dead_set fn rr) env env'" "zero_on (dead_set fn rr) (countDestOpt d r)"
    "store_opt M d v (env, w) = Some (env1, w1)"
  shows "\<exists>env1'. store_opt M (dead_dest fn rr d) v (env', w) = Some (env1', w1) \<and> agree (dead_set fn rr) env1 env1'"
proof (cases "dead_dest fn rr d = d")
  case True
  then show ?thesis using store_opt_agree [OF assms] by simp
next
  case False
  then obtain p where p: "d = Some p" "Projections p = []" "localIsDead fn (place_Local p) rr" "dead_dest fn rr d = None"
    by (auto simp: dead_dest_def HasProjections_def split: option.splits if_splits)
  then show ?thesis using assms(1,3) by (auto simp: store_opt_def store_def agree_def)
qed

lemma dead_call:
  assumes "agree (dead_set fn rr) env env'" "zero_on (dead_set fn rr) (fold countOperandReads args r)" "zero_on (dead_set fn rr) (countDestOpt d r0)"
    "exec_call M d c args (env, w) = Some (env1, w1)"
  shows "\<exists>env1'. exec_call M (dead_dest fn rr d) c args (env', w) = Some (env1', w1) \<and> agree (dead_set fn rr) env1 env1'"
  using agree_eval_ops [OF assms(1,2), of M w] dead_store_opt [OF assms(1,3), of M] assms(4)
  by (fastforce simp: exec_call_def bind_eq_Some_conv)

lemma dead_instr_sim:
  assumes a: "agree (dead_set fn rr) env env'" and z: "zero_on (dead_set fn rr) (countInstr i r)"
    and e: "exec_instr M i (env, w) = Some (env1, w1)"
  shows "\<exists>env1'. exec_instrs M (case dead_instr fn rr i of None \<Rightarrow> [] | Some j \<Rightarrow> [j]) (env', w) = Some (env1', w1) \<and>
    agree (dead_set fn rr) env1 env1'"
proof (cases i)
  case (AssignInstr d src)
  let ?D = "dead_set fn rr"
  have rv: "zero_on ?D (countDest d r)" "eval_rv M env w src = eval_rv M env' w src"
    using agree_eval_rv [OF a, of src "countDest d r" M w] z AssignInstr by simp_all
  obtain v where v: "eval_rv M env w src = Some v" "store M d v (env, w) = Some (env1, w1)"
    using e AssignInstr by (auto simp: bind_eq_Some_conv)
  show ?thesis
  proof (cases "dead_instr fn rr i")
    case None
    then have "Projections d = []" "place_Local d \<in> ?D" using AssignInstr by (auto simp: HasProjections_def split: if_splits)
    then show ?thesis using None v(2) a by (auto simp: store_def agree_def)
  next
    case (Some j)
    then have "j = AssignInstr d src" using AssignInstr by (auto split: if_splits)
    moreover obtain env1' where "store M d v (env', w) = Some (env1', w1)" "agree ?D env1 env1'"
      using store_agree [OF a _ v(2)] zero_on_dest(2) [OF rv(1)] by blast
    ultimately show ?thesis using Some v(1) rv(2) by simp
  qed
next
  case (CallInstr d c args)
  let ?D = "dead_set fn rr"
  have z1: "zero_on ?D (countCallee c (countDestOpt d r))" using agree_eval_ops [OF a, of args "countCallee c (countDestOpt d r)" M w] z CallInstr by simp
  have c: "zero_on ?D (countDestOpt d r) \<and> eval_callee M env w c = eval_callee M env' w c"
    using z1 agree_eval(1) [OF a, of _ "countDestOpt d r" M w] by (cases c) auto
  have "fold countOperandReads args (countCallee c (countDestOpt d r)) = countInstr i r" using CallInstr by simp
  then show ?thesis
    using dead_call [OF a, of args "countCallee c (countDestOpt d r)" d r M "eval_callee M env' w c" w env1 w1] z c e CallInstr by simp
next
  case (IntrinsicInstr d k args)
  have "zero_on (dead_set fn rr) (countDestOpt d r)" using agree_eval_ops [OF a, of args "countDestOpt d r" M w] z IntrinsicInstr by simp
  then show ?thesis
    using dead_call [OF a, of args "countDestOpt d r" d r M "Some (IntrinsicTarget k)" w env1 w1] z e IntrinsicInstr by simp
qed (use a e in auto)

lemma map_filter_Cons: "List.map_filter f (x # xs) = (case f x of None \<Rightarrow> [] | Some y \<Rightarrow> [y]) @ List.map_filter f xs"
  by (simp add: map_filter_simps split: option.split)

lemma dead_instrs_sim:
  "(\<And>i. i \<in> set is \<Longrightarrow> \<exists>r. zero_on (dead_set fn rr) (countInstr i r)) \<Longrightarrow>
    sim_instrs M (dead_set fn rr) is (List.map_filter (dead_instr fn rr) is)"
proof (induction "is")
  case (Cons i "is")
  obtain r where r: "zero_on (dead_set fn rr) (countInstr i r)" using Cons.prems by auto
  have "sim_instrs M (dead_set fn rr) [i] (case dead_instr fn rr i of None \<Rightarrow> [] | Some j \<Rightarrow> [j])"
    by (rule sim_instrsI) (use dead_instr_sim [OF _ r] in simp)
  then show ?case using sim_append [OF _ Cons.IH] Cons.prems unfolding map_filter_Cons by fastforce
qed (simp add: map_filter_simps sim_nil)

lemma dead_set_range: "dead_set fn r \<subseteq> {..<length (Locals fn)}"
  by (auto simp: localIsDead_def split: if_splits)

lemma reads_zero_dead: "zero_on (dead_set fn r) r"
  by (auto simp: zero_on_def localIsDead_def split: if_splits option.splits)

lemma zero_on_instr:
  assumes "zero_on D (countInstr i r)"
  shows "zero_on D r"
proof -
  have a: "agree D (undefined :: unit env) undefined" by (simp add: agree_def)
  note op = conjunct1 [OF agree_eval(1) [OF a]] and rv = conjunct1 [OF agree_eval_rv [OF a]] and ops = conjunct1 [OF agree_eval_ops [OF a]]
  show ?thesis
  proof (cases i)
    case (AssignInstr d src)
    then show ?thesis using assms rv [of src "countDest d r"] zero_on_dest(1) [of D d r] by simp
  next
    case (CallInstr d c args)
    then have "zero_on D (countCallee c (countDestOpt d r))" using assms ops [of args "countCallee c (countDestOpt d r)"] by simp
    then have "zero_on D (countDestOpt d r)" using op [of _ "countDestOpt d r"] by (cases c) auto
    then show ?thesis by (rule zero_on_dest_opt)
  next
    case (IntrinsicInstr d k args)
    then show ?thesis using assms ops [of args "countDestOpt d r"] zero_on_dest_opt [of D d r] by simp
  qed (use assms in simp_all)
qed

lemma zero_on_instrs:
  assumes "zero_on D (fold countInstr is r)"
  shows "zero_on D r" "i \<in> set is \<Longrightarrow> \<exists>r. zero_on D (countInstr i r)"
  using zero_on_fold [OF _ assms, of "\<lambda>i. \<exists>r. zero_on D (countInstr i r)"] zero_on_instr by blast+

lemma dead_block_counts:
  assumes "Some bb \<in> set (Blocks fn)"
  shows "\<exists>r. zero_on (dead_set fn (collectLocalReads fn)) (countBlock fn (Some bb) r)"
proof -
  let ?D = "dead_set fn (collectLocalReads fn)"
  have a: "agree ?D (undefined :: unit env) undefined" by (simp add: agree_def)
  have step: "zero_on ?D r \<and> (\<exists>r. zero_on ?D (countBlock fn b r))" if "zero_on ?D (countBlock fn b r)" for b r
  proof (cases b)
    case (Some bb)
    then have "zero_on ?D (fold countInstr (Instrs bb) r)" using countTerm_agree(1) [OF _ a dead_set_range] that by (simp add: countBlock_def)
    then have "zero_on ?D r" by (rule zero_on_instrs(1))
    then show ?thesis using that by blast
  next
    case None
    then have "zero_on ?D r" using that by (simp add: countBlock_def)
    then show ?thesis using that by blast
  qed
  have "zero_on ?D (fold (countBlock fn) (Blocks fn) (\<lambda>_. 0))" using reads_zero_dead by (simp add: collectLocalReads_def)
  from zero_on_fold [OF _ this, of "\<lambda>b. \<exists>r. zero_on ?D (countBlock fn b r)"] step assms show ?thesis by blast
qed

lemma deadAssignElim_Block:
  "Block (deadAssignElim fn) b = map_option (\<lambda>bb. bb\<lparr>Instrs := List.map_filter (dead_instr fn (collectLocalReads fn)) (Instrs bb)\<rparr>) (Block fn b)"
  by (simp add: deadAssignElim_def Block_def Let_def)

lemma dead_refines: "refines M fn (deadAssignElim fn)"
  unfolding refines_def
proof (intro allI impI)
  fix n s r
  assume r: "run M fn n (Entry fn) s = Some r"
  let ?D = "dead_set fn (collectLocalReads fn)" and ?fn = "deadAssignElim fn"
  have "run M ?fn n (Entry fn) (fst s, snd s) = Some r"
  proof (rule agree_run [of fn ?fn M ?D, OF _ _ dead_set_range agree_refl])
    fix b bb
    assume b: "Block fn b = Some bb"
    then have "Some bb \<in> set (Blocks fn)" by (auto simp: Block_def split: if_splits) (metis nth_mem)
    then obtain rr where z: "zero_on ?D (countTerm fn (Term bb) (fold countInstr (Instrs bb) rr))"
      using dead_block_counts by (auto simp: countBlock_def)
    have "\<exists>r. zero_on ?D (countInstr i r)" if "i \<in> set (Instrs bb)" for i
      by (rule zero_on_instrs(2) [OF countTerm_agree(1) [OF z agree_refl [of _ "undefined :: unit env"] dead_set_range] that])
    from dead_instrs_sim [OF this] z b show "\<exists>bb' r. Block ?fn b = Some bb' \<and> Term bb' = Term bb \<and>
        sim_instrs M ?D (Instrs bb) (Instrs bb') \<and> zero_on ?D (countTerm fn (Term bb) r)"
      by (auto simp: deadAssignElim_Block)
  qed (use r in \<open>simp_all add: deadAssignElim_def Let_def\<close>)
  then show "run M ?fn n (Entry ?fn) s = Some r" by (simp add: deadAssignElim_def Let_def)
qed

end
