(* ===== verification/MIR_Dataflow.thy ===== *)
theory MIR_Dataflow
  imports MIR_Optimize
begin

text \<open>
  The work list of \<open>computeBlockStates\<close> (\<^verbatim>\<open>src/internal/mir/optimize.go\<close>): it ends within its fuel, and the
  entry states it ends with are consistent along every edge of the graph. States are compared by \<open>known_le\<close>: \<open>a\<close> knows no
  more than \<open>b\<close>. The entry states only ever shrink, which bounds the number of times a block is put on the list.
\<close>

section \<open>Equality of constants\<close>

text \<open>Constants on which the comparison of the code is equality of values: no NaN, no negative zero and no nil.\<close>

definition ordinary :: "cop \<Rightarrow> bool" where
  "ordinary x = (case fst x of FloatConst w _ \<Rightarrow> \<not> float_nan w \<and> w \<noteq> 0x8000000000000000 | NilConst \<Rightarrow> False | _ \<Rightarrow> True)"

lemma constValueEqual_sym: "constValueEqual a b \<Longrightarrow> constValueEqual b a"
  by (cases a; cases b) (auto simp: constValueEqual_def float_eq_def)

lemma constValueEqual_trans: "constValueEqual a b \<Longrightarrow> constValueEqual b c \<Longrightarrow> constValueEqual a c"
  by (cases b) (cases a; cases c; force simp: constValueEqual_def float_eq_def)+

lemma constOpEqual_sym: "constOpEqual a b \<Longrightarrow> constOpEqual b a"
  by (auto simp: constOpEqual_def constValueEqual_sym)

lemma constOpEqual_trans: "constOpEqual a b \<Longrightarrow> constOpEqual b c \<Longrightarrow> constOpEqual a c"
  using constValueEqual_trans by (auto simp: constOpEqual_def)

lemma constOpEqual_refl: "ordinary a \<Longrightarrow> constOpEqual a a"
  by (cases "fst a") (auto simp: constOpEqual_def constValueEqual_def ordinary_def float_eq_def)

section \<open>States\<close>

definition known_le :: "known \<Rightarrow> known \<Rightarrow> bool" where
  "known_le a b \<longleftrightarrow> (\<forall>l x. map_of a l = Some x \<longrightarrow> (\<exists>y. map_of b l = Some y \<and> constOpEqual x y))"

definition good :: "LocalID set \<Rightarrow> known \<Rightarrow> bool" where
  "good Ks a \<longleftrightarrow> distinct (map fst a) \<and> (\<forall>x \<in> set a. fst x \<in> Ks \<and> ordinary (snd x))"

lemma good_map_of:
  assumes "good Ks a" "map_of a l = Some x"
  shows "l \<in> Ks \<and> ordinary x"
  using bspec [OF conjunct2 [OF assms(1) [unfolded good_def]] map_of_SomeD [OF assms(2)]] by simp

lemma known_le_refl: "good Ks a \<Longrightarrow> known_le a a"
  unfolding known_le_def using good_map_of [of Ks a] constOpEqual_refl by blast

lemma known_leD:
  assumes "known_le a b" "map_of a l = Some x"
  obtains y where "map_of b l = Some y" "constOpEqual x y"
  using assms unfolding known_le_def by blast

lemma known_le_trans:
  assumes "known_le a b" "known_le b c"
  shows "known_le a c"
  unfolding known_le_def
proof (intro allI impI)
  fix l x
  assume "map_of a l = Some x"
  then obtain y where y: "map_of b l = Some y" "constOpEqual x y" by (rule known_leD [OF assms(1)])
  obtain z where "map_of c l = Some z" "constOpEqual y z" by (rule known_leD [OF assms(2) y(1)])
  then show "\<exists>z. map_of c l = Some z \<and> constOpEqual x z" using constOpEqual_trans [OF y(2)] by blast
qed

lemma known_le_keys:
  assumes "known_le a b"
  shows "fst ` set a \<subseteq> fst ` set b"
proof -
  have "dom (map_of a) \<subseteq> dom (map_of b)" using known_leD [OF assms] by blast
  then show ?thesis by (simp add: dom_map_of_conv_image_fst)
qed

lemma known_le_nil [simp]: "known_le [] a"
  by (simp add: known_le_def)

lemma good_nil [simp]: "good Ks []"
  by (simp add: good_def)

lemma good_length:
  assumes "good Ks a" "finite Ks"
  shows "length a \<le> card Ks"
proof -
  have "length a = card (fst ` set a)" using assms(1) by (metis good_def distinct_card length_map list.set_map)
  then show ?thesis using assms by (metis good_def card_mono image_subsetI)
qed

lemma map_of_meet:
  assumes "good Ks a"
  shows "map_of (meetStates a b) l = Some x \<longleftrightarrow> map_of a l = Some x \<and> (\<exists>y. map_of b l = Some y \<and> constOpEqual x y)"
proof -
  let ?P = "\<lambda>x. case map_of b (fst x) of None \<Rightarrow> False | Some w \<Rightarrow> constOpEqual (snd x) w"
  have d: "distinct (map fst a)" "distinct (map fst (filter ?P a))" using assms by (simp_all add: good_def distinct_map_filter)
  show ?thesis unfolding meetStates_def map_of_eq_Some_iff [OF d(1)] map_of_eq_Some_iff [OF d(2)]
    by (auto split: option.splits)
qed

lemma good_meet: "good Ks a \<Longrightarrow> good Ks (meetStates a b)"
  by (auto simp: good_def meetStates_def distinct_map_filter)

lemma meet_le: "good Ks a \<Longrightarrow> known_le (meetStates a b) a" "good Ks a \<Longrightarrow> known_le (meetStates a b) b"
  using map_of_meet good_map_of constOpEqual_refl unfolding known_le_def by metis+

lemma meet_greatest:
  assumes "good Ks a" "known_le z a" "known_le z b"
  shows "known_le z (meetStates a b)"
  unfolding known_le_def
proof (intro allI impI)
  fix l x
  assume "map_of z l = Some x"
  then obtain y y' where "map_of a l = Some y" "constOpEqual x y" "map_of b l = Some y'" "constOpEqual x y'"
    using assms(2,3) unfolding known_le_def by blast
  then show "\<exists>y. map_of (meetStates a b) l = Some y \<and> constOpEqual x y"
    using map_of_meet [OF assms(1)] constOpEqual_sym constOpEqual_trans by blast
qed

lemma statesEqual_le:
  assumes "statesEqual (Some a) (Some b)" "good Ks a" "good Ks b"
  shows "known_le a b" "known_le b a"
proof -
  have d: "distinct (map fst a)" "distinct (map fst b)" using assms(2,3) by (simp_all add: good_def)
  have e: "\<exists>y. map_of b l = Some y \<and> constOpEqual x y" if "map_of a l = Some x" for l x
  proof -
    have "(l, x) \<in> set a" using map_of_SomeD [OF that] .
    then show ?thesis using assms(1) by (force simp: statesEqual_def list_all_iff split: option.splits)
  qed
  then show "known_le a b" by (auto simp: known_le_def)
  from known_le_keys [OF this] have sub: "fst ` set a \<subseteq> fst ` set b" .
  have "card (fst ` set a) = length a" "card (fst ` set b) = length b" using d by (metis distinct_card length_map list.set_map)+
  moreover have "length a = length b" using assms(1) by (simp add: statesEqual_def)
  ultimately have "fst ` set a = fst ` set b" using sub by (metis card_subset_eq finite_imageI finite_set)
  then have "map_of a l \<noteq> None" if "map_of b l = Some y" for l y
    using that by (metis map_of_eq_None_iff option.distinct(1) list.set_map)
  then show "known_le b a" using e constOpEqual_sym unfolding known_le_def by (metis option.collapse option.inject)
qed

lemma not_statesEqual_shorter:
  assumes "\<not> statesEqual (Some a) (Some b)" "known_le b a" "good Ks a" "good Ks b"
  shows "length b < length a"
proof (rule ccontr)
  assume "\<not> length b < length a"
  have d: "distinct (map fst a)" "distinct (map fst b)" using assms(3,4) by (simp_all add: good_def)
  note sub = known_le_keys [OF assms(2)]
  have c: "card (fst ` set a) = length a" "card (fst ` set b) = length b" using d by (metis distinct_card length_map list.set_map)+
  then have eq: "fst ` set b = fst ` set a" "length a = length b"
    using sub \<open>\<not> length b < length a\<close> by (metis card_seteq finite_imageI finite_set not_less, metis card_mono finite_imageI finite_set le_antisym not_less)
  have "case map_of b (fst x) of None \<Rightarrow> False | Some w \<Rightarrow> constOpEqual (snd x) w" if "x \<in> set a" for x
  proof -
    have x: "map_of a (fst x) = Some (snd x)" using that d(1) by (simp add: map_of_is_SomeI)
    have "fst x \<in> fst ` set b" using that eq(1) by simp
    then obtain w where "map_of b (fst x) = Some w" by (metis map_of_eq_None_iff not_None_eq list.set_map)
    moreover from this obtain y where "map_of a (fst x) = Some y" "constOpEqual w y" by (rule known_leD [OF assms(2)])
    ultimately show ?thesis using x constOpEqual_sym [of w "snd x"] by simp
  qed
  then show False using assms(1) eq(2) by (simp add: statesEqual_def list_all_iff)
qed

lemma statesEqual_refl: "good Ks a \<Longrightarrow> statesEqual (Some a) (Some a)"
  using not_statesEqual_shorter known_le_refl by blast

section \<open>Transfer\<close>

lemma map_of_delete: "map_of (AList.delete l k) j = (if j = l then None else map_of k j)"
  by (simp add: delete_conv')

lemma map_of_update: "map_of (AList.update l v k) j = (if j = l then Some v else map_of k j)"
  by (simp add: update_conv')

text \<open>The constants an instruction may record are ordinary, and so is their local.\<close>

fun instr_ok :: "LocalID set \<Rightarrow> Instr \<Rightarrow> bool" where
  "instr_ok Ks (AssignInstr d (UseRV (ConstOp c t))) = (place_Local d \<in> Ks \<and> ordinary (c, t))"
| "instr_ok Ks _ = True"

lemma good_delete: "good Ks k \<Longrightarrow> good Ks (AList.delete l k)"
  unfolding good_def AList.delete_eq by (auto simp: distinct_map_filter)

lemma good_update:
  assumes "good Ks k" "l \<in> Ks" "ordinary v"
  shows "good Ks (AList.update l v k)"
proof -
  have "set (AList.update l v k) \<subseteq> insert (l, v) (set k)" by (induction k) auto
  then show ?thesis using assms distinct_update [of k l v] by (auto simp: good_def)
qed

lemma le_delete: "known_le a b \<Longrightarrow> known_le (AList.delete l a) (AList.delete l b)"
  by (simp add: known_le_def map_of_delete)

lemma le_update: "known_le a b \<Longrightarrow> ordinary v \<Longrightarrow> known_le (AList.update l v a) (AList.update l v b)"
  using constOpEqual_refl [of v] by (auto simp: known_le_def map_of_update)

lemma transfer_instr_good: "good Ks k \<Longrightarrow> instr_ok Ks i \<Longrightarrow> good Ks (transfer_instr i k)"
proof (induction Ks i rule: instr_ok.induct)
  case (1 Ks d c t)
  then show ?case by (simp add: track_def good_delete good_update)
qed (simp_all add: track_def forget_def good_delete split: option.split)

lemma transfer_instr_le: "known_le a b \<Longrightarrow> instr_ok Ks i \<Longrightarrow> known_le (transfer_instr i a) (transfer_instr i b)"
proof (induction Ks i rule: instr_ok.induct)
  case (1 Ks d c t)
  then show ?case by (simp add: track_def le_delete le_update)
qed (simp_all add: track_def forget_def le_delete split: option.split)

lemma transferBlock_good: "good Ks k \<Longrightarrow> list_all (instr_ok Ks) (Instrs bb) \<Longrightarrow> good Ks (transferBlock bb k)"
proof -
  have "good Ks k \<Longrightarrow> list_all (instr_ok Ks) is \<Longrightarrow> good Ks (fold transfer_instr is k)" for "is" k
    by (induction "is" arbitrary: k) (simp_all add: transfer_instr_good)
  then show "good Ks k \<Longrightarrow> list_all (instr_ok Ks) (Instrs bb) \<Longrightarrow> ?thesis" by (simp add: transferBlock_def)
qed

lemma transferBlock_le: "known_le a b \<Longrightarrow> list_all (instr_ok Ks) (Instrs bb) \<Longrightarrow> known_le (transferBlock bb a) (transferBlock bb b)"
proof -
  have "known_le a b \<Longrightarrow> list_all (instr_ok Ks) is \<Longrightarrow> known_le (fold transfer_instr is a) (fold transfer_instr is b)" for "is" a b
  proof (induction "is" arbitrary: a b)
    case (Cons i "is")
    then show ?case using transfer_instr_le [of a b Ks i] by simp
  qed simp
  then show "known_le a b \<Longrightarrow> list_all (instr_ok Ks) (Instrs bb) \<Longrightarrow> ?thesis" by (simp add: transferBlock_def)
qed

section \<open>The meet over the visited predecessors\<close>

definition lower :: "known option list \<Rightarrow> BlockID list \<Rightarrow> known \<Rightarrow> bool" where
  "lower X ps z \<longleftrightarrow> (\<forall>p \<in> set ps. \<forall>out. p < length X \<and> X ! p = Some out \<longrightarrow> known_le z out)"

definition good_states :: "LocalID set \<Rightarrow> known option list \<Rightarrow> bool" where
  "good_states Ks X \<longleftrightarrow> (\<forall>i e. i < length X \<and> X ! i = Some e \<longrightarrow> good Ks e)"

definition visited :: "known option list \<Rightarrow> BlockID list \<Rightarrow> bool" where
  "visited X ps \<longleftrightarrow> (\<exists>p \<in> set ps. p < length X \<and> X ! p \<noteq> None)"

definition greatest_lower :: "LocalID set \<Rightarrow> known option list \<Rightarrow> BlockID list \<Rightarrow> known \<Rightarrow> bool" where
  "greatest_lower Ks X ps m \<longleftrightarrow> good Ks m \<and> lower X ps m \<and> (\<forall>z. lower X ps z \<longrightarrow> known_le z m)"

lemma meet_loop_acc:
  assumes "good_states Ks X" "good Ks a"
  shows "\<exists>m. meet_loop X ps (Some a) = Some m \<and> good Ks m \<and> known_le m a \<and> lower X ps m \<and>
    (\<forall>z. known_le z a \<and> lower X ps z \<longrightarrow> known_le z m)"
  using assms(2)
proof (induction ps arbitrary: a)
  case Nil
  then show ?case using known_le_refl by (auto simp: lower_def)
next
  case (Cons p ps)
  show ?case
  proof (cases "p < length X \<and> X ! p \<noteq> None")
    case True
    then obtain out where o: "p < length X" "X ! p = Some out" by auto
    have g: "good Ks (meetStates a out)" by (rule good_meet [OF Cons.prems])
    obtain m where m: "meet_loop X ps (Some (meetStates a out)) = Some m" "good Ks m" "known_le m (meetStates a out)" "lower X ps m"
        "\<forall>z. known_le z (meetStates a out) \<and> lower X ps z \<longrightarrow> known_le z m"
      using Cons.IH [OF g] by blast
    have "known_le m a" "known_le m out" using known_le_trans [OF m(3)] meet_le [OF Cons.prems] by blast+
    moreover have "known_le z m" if "known_le z a" "lower X (p # ps) z" for z
      using m(5) that meet_greatest [OF Cons.prems, of z out] o by (auto simp: lower_def)
    ultimately show ?thesis using m(1,2,4) o by (auto simp: lower_def)
  next
    case False
    then have "meet_loop X (p # ps) (Some a) = meet_loop X ps (Some a)" "\<And>z. lower X (p # ps) z \<longleftrightarrow> lower X ps z"
      by (auto simp: lower_def)
    then show ?thesis using Cons.IH [OF Cons.prems] by presburger
  qed
qed

lemma meet_loop_start:
  assumes "good_states Ks X"
  shows "if visited X ps then \<exists>m. meet_loop X ps None = Some m \<and> greatest_lower Ks X ps m else meet_loop X ps None = None"
proof (induction ps)
  case (Cons p ps)
  show ?case
  proof (cases "p < length X \<and> X ! p \<noteq> None")
    case True
    then obtain out where o: "p < length X" "X ! p = Some out" by auto
    have g: "good Ks out" using assms o by (auto simp: good_states_def)
    have v: "visited X (p # ps)" using True by (auto simp: visited_def)
    show ?thesis using meet_loop_acc [OF assms g, of ps] o v by (fastforce simp: greatest_lower_def lower_def)
  next
    case False
    then have "meet_loop X (p # ps) None = meet_loop X ps None" "lower X (p # ps) = lower X ps" "visited X (p # ps) = visited X ps"
      by (auto simp: lower_def visited_def fun_eq_iff)
    then show ?thesis using Cons.IH unfolding greatest_lower_def by presburger
  qed
qed (simp add: visited_def)

section \<open>The invariant of the work list\<close>

definition ids_ok :: "Function \<Rightarrow> bool" where
  "ids_ok fn \<longleftrightarrow> (\<forall>i bb. i < length (Blocks fn) \<and> Blocks fn ! i = Some bb \<longrightarrow> block_ID bb = i)"

lemma preds_iff:
  assumes "ids_ok fn" "t < length (Blocks fn)"
  shows "p \<in> set (Predecessors fn t) \<longleftrightarrow> p < length (Blocks fn) \<and> (\<exists>bb. Blocks fn ! p = Some bb \<and> t \<in> set (Successors (Term bb)))"
  using assms unfolding Predecessors_set ids_ok_def by (auto simp: in_set_conv_nth)

abbreviation preds_of :: "Function \<Rightarrow> BlockID \<Rightarrow> BlockID list" where
  "preds_of \<equiv> Predecessors"

definition shape :: "Function \<Rightarrow> flow \<Rightarrow> bool" where
  "shape fn s \<longleftrightarrow> length (entryStates s) = length (Blocks fn) \<and> length (exitStates s) = length (Blocks fn) \<and>
     length (inQueue s) = length (Blocks fn) \<and> distinct (worklist s) \<and>
     (\<forall>i \<in> set (worklist s). i < length (Blocks fn) \<and> entryStates s ! i \<noteq> None) \<and>
     (\<forall>i < length (Blocks fn). inQueue s ! i \<longleftrightarrow> i \<in> set (worklist s))"

definition states_ok :: "Function \<Rightarrow> LocalID set \<Rightarrow> flow \<Rightarrow> bool" where
  "states_ok fn Ks s \<longleftrightarrow> Entry fn < length (Blocks fn) \<and> entryStates s ! Entry fn = Some [] \<and>
     good_states Ks (entryStates s) \<and> good_states Ks (exitStates s)"

text \<open>An entry state knows at least what the visited predecessors agree on; \<open>pd\<close> holds the blocks
  that may still know more.\<close>

definition entry_above :: "Function \<Rightarrow> flow \<Rightarrow> bool" where
  "entry_above fn s \<longleftrightarrow> (\<forall>t < length (Blocks fn). \<forall>e. t \<noteq> Entry fn \<and> entryStates s ! t = Some e \<longrightarrow>
     visited (exitStates s) (preds_of fn t) \<and> (\<forall>m. lower (exitStates s) (preds_of fn t) m \<longrightarrow> known_le m e))"

definition entry_below :: "Function \<Rightarrow> nat set \<Rightarrow> flow \<Rightarrow> bool" where
  "entry_below fn pd s \<longleftrightarrow> (\<forall>t < length (Blocks fn). t \<noteq> Entry fn \<and> t \<notin> pd \<and> visited (exitStates s) (preds_of fn t) \<longrightarrow>
     (\<exists>e. entryStates s ! t = Some e \<and> lower (exitStates s) (preds_of fn t) e))"

text \<open>An exit state knows at least what the block makes of its entry state; \<open>C\<close> and the work list hold the blocks that may know more.\<close>

definition exit_above :: "Function \<Rightarrow> flow \<Rightarrow> bool" where
  "exit_above fn s \<longleftrightarrow> (\<forall>i < length (Blocks fn). \<forall>x. exitStates s ! i = Some x \<longrightarrow>
     (\<exists>e bb. entryStates s ! i = Some e \<and> Blocks fn ! i = Some bb \<and> known_le (transferBlock bb e) x))"

definition exit_below :: "Function \<Rightarrow> nat set \<Rightarrow> flow \<Rightarrow> bool" where
  "exit_below fn C s \<longleftrightarrow> (\<forall>i < length (Blocks fn). \<forall>e bb. entryStates s ! i = Some e \<and> i \<notin> set (worklist s) \<and> i \<notin> C \<and>
     Blocks fn ! i = Some bb \<longrightarrow> (\<exists>x. exitStates s ! i = Some x \<and> known_le x (transferBlock bb e)))"

definition wl_inv :: "Function \<Rightarrow> LocalID set \<Rightarrow> nat set \<Rightarrow> nat set \<Rightarrow> flow \<Rightarrow> bool" where
  "wl_inv fn Ks C pd s \<longleftrightarrow> shape fn s \<and> states_ok fn Ks s \<and> entry_above fn s \<and> entry_below fn pd s \<and> exit_above fn s \<and> exit_below fn C s"

definition code_ok :: "Function \<Rightarrow> LocalID set \<Rightarrow> bool" where
  "code_ok fn Ks \<longleftrightarrow> (\<forall>bb. Some bb \<in> set (Blocks fn) \<longrightarrow> list_all (instr_ok Ks) (Instrs bb))"

lemma visited_update: "i < length X \<Longrightarrow> visited (X[i := Some x]) ps \<longleftrightarrow> i \<in> set ps \<or> visited X ps"
  by (auto simp: visited_def nth_list_update)

lemma lower_update_other: "i \<notin> set ps \<Longrightarrow> lower (X[i := x]) ps z \<longleftrightarrow> lower X ps z"
  unfolding lower_def by (metis length_list_update nth_list_update_neq)

lemma visited_update_other: "i \<notin> set ps \<Longrightarrow> visited (X[i := x]) ps \<longleftrightarrow> visited X ps"
  unfolding visited_def by (metis length_list_update nth_list_update_neq)

text \<open>Setting the exit state of a block to less than it was leaves less to agree on.\<close>

lemma lower_update_le:
  assumes "\<And>y. X ! i = Some y \<Longrightarrow> known_le x y" "lower (X[i := Some x]) ps z"
  shows "lower X ps z"
  unfolding lower_def
proof (intro ballI allI impI, elim conjE)
  fix p out
  assume p: "p \<in> set ps" "p < length X" "X ! p = Some out"
  show "known_le z out"
  proof (cases "p = i")
    case True
    then have "known_le z x" using assms(2) p by (simp add: lower_def)
    then show ?thesis using assms(1) p True known_le_trans by blast
  next
    case False
    then show ?thesis using assms(2) p by (auto simp: lower_def)
  qed
qed

lemma good_states_update:
  assumes "good_states Ks X" "good Ks x"
  shows "good_states Ks (X[i := Some x])"
  unfolding good_states_def
proof (intro allI impI, elim conjE)
  fix j e
  assume "j < length (X[i := Some x])" "X[i := Some x] ! j = Some e"
  then show "good Ks e" using assms by (cases "j = i") (auto simp: good_states_def)
qed

section \<open>One step of the loop\<close>

lemma exit_update:
  assumes inv: "wl_inv fn Ks {i} {} s" and code: "code_ok fn Ks" and ids: "ids_ok fn"
    and i: "i < length (Blocks fn)" "Blocks fn ! i = Some bb" "entryStates s ! i = Some e"
  shows "wl_inv fn Ks {} (set (Successors (Term bb))) (s\<lparr>exitStates := (exitStates s)[i := Some (transferBlock bb e)]\<rparr>)"
    (is "wl_inv fn Ks {} ?pd ?s")
proof -
  let ?N = "length (Blocks fn)" and ?out = "transferBlock bb e" and ?X = "exitStates s"
  note inv' = inv [unfolded wl_inv_def]
  have sh: "shape fn s" and st: "states_ok fn Ks s" and ea: "entry_above fn s" and eb: "entry_below fn {} s" and xa: "exit_above fn s" and xb: "exit_below fn {i} s"
    using inv' by blast+
  have len: "length ?X = ?N" using sh by (simp add: shape_def)
  have bb: "list_all (instr_ok Ks) (Instrs bb)" using code i by (metis code_ok_def nth_mem)
  have ge: "good Ks e" using st i sh by (auto simp: states_ok_def good_states_def shape_def)
  have go: "good Ks ?out" by (rule transferBlock_good [OF ge bb])
  have le: "known_le ?out y" if "?X ! i = Some y" for y using xa i that by (auto simp: exit_above_def)
  have "shape fn ?s" using sh by (simp add: shape_def)
  moreover have "states_ok fn Ks ?s" using st good_states_update [OF _ go] by (simp add: states_ok_def)
  moreover have "entry_above fn ?s"
    using ea len i lower_update_le [OF le] by (auto simp: entry_above_def visited_update)
  moreover have "entry_below fn ?pd ?s"
    unfolding entry_below_def
  proof (intro allI impI)
    fix t
    assume t: "t < ?N" "t \<noteq> Entry fn \<and> t \<notin> ?pd \<and> visited (exitStates ?s) (preds_of fn t)"
    then have "i \<notin> set (preds_of fn t)" using preds_iff [OF ids t(1)] i by auto
    then show "\<exists>e. entryStates ?s ! t = Some e \<and> lower (exitStates ?s) (preds_of fn t) e"
      using eb t by (auto simp: entry_below_def lower_update_other visited_update_other)
  qed
  moreover have "exit_above fn ?s" using xa i known_le_refl [OF go] len by (auto simp: exit_above_def nth_list_update)
  moreover have "exit_below fn {} ?s" using xb i known_le_refl [OF go] len by (auto simp: exit_below_def nth_list_update)
  ultimately show ?thesis by (simp add: wl_inv_def)
qed

fun height :: "nat \<Rightarrow> known option \<Rightarrow> nat" where
  "height K None = K + 1"
| "height K (Some e) = length e"

definition weight :: "nat \<Rightarrow> flow \<Rightarrow> nat" where
  "weight K s = 2 * sum_list (map (height K) (entryStates s)) + length (worklist s)"

lemma sum_list_update_less:
  "i < length xs \<Longrightarrow> (f x :: nat) < f (xs ! i) \<Longrightarrow> sum_list (map f (xs[i := x])) < sum_list (map f xs)"
  by (induction xs arbitrary: i) (auto split: nat.splits)

lemma lower_le: "known_le e m \<Longrightarrow> lower X ps m \<Longrightarrow> lower X ps e"
  unfolding lower_def using known_le_trans by blast

definition queue :: "BlockID \<Rightarrow> flow \<Rightarrow> flow" where
  "queue t s = (if inQueue s ! t then s else s\<lparr>worklist := t # worklist s, inQueue := (inQueue s)[t := True]\<rparr>)"

lemma entry_update:
  assumes inv: "wl_inv fn Ks {} pd s" and code: "code_ok fn Ks" and fin: "finite Ks"
    and t: "t < length (Blocks fn)" "t \<noteq> Entry fn" and v: "visited (exitStates s) (preds_of fn t)"
    and m: "greatest_lower Ks (exitStates s) (preds_of fn t) m" and ne: "\<not> statesEqual (entryStates s ! t) (Some m)"
  shows "wl_inv fn Ks {} (pd - {t}) (queue t (s\<lparr>entryStates := (entryStates s)[t := Some m]\<rparr>)) \<and>
    weight (card Ks) (queue t (s\<lparr>entryStates := (entryStates s)[t := Some m]\<rparr>)) < weight (card Ks) s"
proof -
  let ?N = "length (Blocks fn)" and ?s = "queue t (s\<lparr>entryStates := (entryStates s)[t := Some m]\<rparr>)"
  have sh: "shape fn s" and st: "states_ok fn Ks s" and ea: "entry_above fn s" and eb: "entry_below fn pd s" and xa: "exit_above fn s" and xb: "exit_below fn {} s"
    using inv [unfolded wl_inv_def] by blast+
  have len: "length (entryStates s) = ?N" "length (inQueue s) = ?N" using sh by (simp_all add: shape_def)
  have E: "entryStates ?s = (entryStates s)[t := Some m]" and X: "exitStates ?s = exitStates s" by (simp_all add: queue_def)
  have W: "t \<in> set (worklist ?s)" "set (worklist s) \<subseteq> set (worklist ?s)" "set (worklist ?s) = insert t (set (worklist s))"
    using sh t by (auto simp: queue_def shape_def)
  have gm: "good Ks m" "lower (exitStates s) (preds_of fn t) m" "\<And>z. lower (exitStates s) (preds_of fn t) z \<Longrightarrow> known_le z m"
    using m by (simp_all add: greatest_lower_def)
  have down: "known_le m e" if "entryStates s ! t = Some e" for e using ea t that gm(2) by (auto simp: entry_above_def)
  have "shape fn ?s" using sh t len by (auto simp: shape_def queue_def nth_list_update)
  moreover have "states_ok fn Ks ?s" using st t good_states_update [OF _ gm(1)] unfolding states_ok_def E X by simp
  moreover have "entry_above fn ?s" using ea t v gm(3) len unfolding entry_above_def E X by (auto simp: nth_list_update)
  moreover have "entry_below fn (pd - {t}) ?s" using eb t gm(2) len unfolding entry_below_def E X by (auto simp: nth_list_update)
  moreover have "exit_above fn ?s"
    unfolding exit_above_def E X
  proof (intro allI impI)
    fix i x
    assume i: "i < ?N" "exitStates s ! i = Some x"
    then obtain e bb where e: "entryStates s ! i = Some e" "Blocks fn ! i = Some bb" "known_le (transferBlock bb e) x"
      using xa unfolding exit_above_def by blast
    have "list_all (instr_ok Ks) (Instrs bb)" using code i e(2) by (metis code_ok_def nth_mem)
    then have "known_le (transferBlock bb m) x" if "i = t" using transferBlock_le [OF down] e that known_le_trans by blast
    then show "\<exists>e bb. (entryStates s)[t := Some m] ! i = Some e \<and> Blocks fn ! i = Some bb \<and> known_le (transferBlock bb e) x"
      using e t len by (cases "i = t") auto
  qed
  moreover have "exit_below fn {} ?s" using xb W unfolding exit_below_def E X by (auto simp: nth_list_update)
  moreover have "height (card Ks) (Some m) < height (card Ks) (entryStates s ! t)"
  proof (cases "entryStates s ! t")
    case (Some e)
    then have "good Ks e" using st t len by (auto simp: states_ok_def good_states_def)
    then show ?thesis using not_statesEqual_shorter [OF _ down [OF Some] _ gm(1)] ne Some by simp
  qed (use good_length [OF gm(1) fin] in simp)
  then have "sum_list (map (height (card Ks)) ((entryStates s)[t := Some m])) < sum_list (map (height (card Ks)) (entryStates s))"
    using sum_list_update_less [of t "entryStates s" "height (card Ks)" "Some m"] t len by simp
  then have "weight (card Ks) ?s < weight (card Ks) s" by (simp add: weight_def queue_def)
  ultimately show ?thesis by (simp add: wl_inv_def)
qed

lemma visit_succ_inv:
  assumes inv: "wl_inv fn Ks {} pd s" and code: "code_ok fn Ks" and fin: "finite Ks"
  shows "wl_inv fn Ks {} (pd - {t}) (visit_succ fn (Predecessors fn) t s) \<and>
    weight (card Ks) (visit_succ fn (Predecessors fn) t s) \<le> weight (card Ks) s"
proof -
  let ?X = "exitStates s" and ?ps = "preds_of fn t"
  have st: "states_ok fn Ks s" and ea: "entry_above fn s" and eb: "entry_below fn pd s" and len: "length (entryStates s) = length (Blocks fn)"
    using inv [unfolded wl_inv_def] by (auto simp: shape_def)
  have keep: "wl_inv fn Ks {} (pd - {t}) s" if "t < length (Blocks fn) \<Longrightarrow> t \<noteq> Entry fn \<Longrightarrow> visited ?X ?ps \<Longrightarrow> \<exists>e. entryStates s ! t = Some e \<and> lower ?X ?ps e"
  proof -
    have "entry_below fn (pd - {t}) s" using eb that unfolding entry_below_def by blast
    then show ?thesis using inv by (simp add: wl_inv_def)
  qed
  have gX: "good_states Ks ?X" and gE: "good_states Ks (entryStates s)" using st by (simp_all add: states_ok_def)
  have refl: "statesEqual (entryStates s ! t) (entryStates s ! t)" if "t < length (Blocks fn)"
    using gE that len statesEqual_refl by (cases "entryStates s ! t") (auto simp: good_states_def statesEqual_def)
  consider (out) "t \<ge> length (Blocks fn)" | (entry) "t < length (Blocks fn)" "t = Entry fn" | (none) "t < length (Blocks fn)" "t \<noteq> Entry fn" "\<not> visited ?X ?ps"
    | (some) m where "t < length (Blocks fn)" "t \<noteq> Entry fn" "visited ?X ?ps" "meet_loop ?X ?ps None = Some m" "greatest_lower Ks ?X ?ps m"
    using meet_loop_start [OF gX, of ?ps] by (metis not_less)
  then show ?thesis
  proof cases
    case out
    then show ?thesis using keep by (simp add: visit_succ_def)
  next
    case entry
    have "statesEqual (entryStates s ! t) (meetPredecessors t ?ps ?X (Entry fn) (entryStates s))"
      using entry refl st by (cases "meet_loop ?X ?ps None") (simp_all add: meetPredecessors_def states_ok_def statesEqual_def)
    then show ?thesis using keep entry by (simp add: visit_succ_def)
  next
    case none
    then have "meet_loop ?X ?ps None = None" using meet_loop_start [OF gX, of ?ps] by simp
    then show ?thesis using keep none refl by (simp add: visit_succ_def meetPredecessors_def)
  next
    case some
    have new: "meetPredecessors t ?ps ?X (Entry fn) (entryStates s) = Some m" using some by (simp add: meetPredecessors_def)
    show ?thesis
    proof (cases "statesEqual (entryStates s ! t) (Some m)")
      case True
      then obtain e where e: "entryStates s ! t = Some e" by (cases "entryStates s ! t") (auto simp: statesEqual_def)
      have "good Ks e" "good Ks m" using gE some e len by (auto simp: good_states_def greatest_lower_def)
      then have "known_le e m" using statesEqual_le(1) True e by metis
      then have "lower ?X ?ps e" using lower_le some(5) by (auto simp: greatest_lower_def)
      then show ?thesis using keep e True new some(1) by (simp add: visit_succ_def)
    next
      case False
      have "visit_succ fn (Predecessors fn) t s = queue t (s\<lparr>entryStates := (entryStates s)[t := Some m]\<rparr>)"
        using some(1) new False by (simp add: visit_succ_def queue_def Let_def)
      then show ?thesis using entry_update [OF inv code fin some(1,2,3,5) False] by simp
    qed
  qed
qed

lemma visit_succs_inv:
  assumes "wl_inv fn Ks {} pd s" "code_ok fn Ks" "finite Ks"
  shows "wl_inv fn Ks {} (pd - set ts) (fold (visit_succ fn (Predecessors fn)) ts s) \<and>
    weight (card Ks) (fold (visit_succ fn (Predecessors fn)) ts s) \<le> weight (card Ks) s"
  using assms(1)
proof (induction ts arbitrary: pd s)
  case (Cons t ts)
  let ?s = "visit_succ fn (Predecessors fn) t s"
  have v: "wl_inv fn Ks {} (pd - {t}) ?s" "weight (card Ks) ?s \<le> weight (card Ks) s"
    using visit_succ_inv [OF Cons.prems assms(2,3)] by simp_all
  have "pd - set (t # ts) = pd - {t} - set ts" by auto
  then show ?case using Cons.IH [OF v(1)] v(2) by auto
qed simp

lemma flow_step_inv:
  assumes inv: "wl_inv fn Ks {i} {} s" and code: "code_ok fn Ks" and fin: "finite Ks" and ids: "ids_ok fn"
    and i: "i < length (Blocks fn)" "entryStates s ! i = Some e"
  shows "wl_inv fn Ks {} {} (flow_step fn (Predecessors fn) i s) \<and>
    weight (card Ks) (flow_step fn (Predecessors fn) i s) \<le> weight (card Ks) s"
proof (cases "Blocks fn ! i")
  case None
  have "exit_below fn {} s" using inv None unfolding wl_inv_def exit_below_def by force
  then show ?thesis using inv None by (simp add: flow_step_def wl_inv_def)
next
  case (Some bb)
  let ?out = "transferBlock bb e"
  show ?thesis
  proof (cases "statesEqual (exitStates s ! i) (Some ?out)")
    case True
    then obtain x where x: "exitStates s ! i = Some x" by (cases "exitStates s ! i") (auto simp: statesEqual_def)
    have g: "good_states Ks (exitStates s)" "good_states Ks (entryStates s)" "length (exitStates s) = length (Blocks fn)" "length (entryStates s) = length (Blocks fn)"
      using inv by (auto simp: wl_inv_def states_ok_def shape_def)
    have "list_all (instr_ok Ks) (Instrs bb)" using code i(1) Some by (metis code_ok_def nth_mem)
    then have "good Ks x" "good Ks ?out" using g x i transferBlock_good by (auto simp: good_states_def)
    then have "known_le x ?out" using statesEqual_le(1) True x by metis
    then have "exit_below fn {} s" using inv Some i(2) x unfolding wl_inv_def exit_below_def by (metis empty_iff insertE option.inject)
    then show ?thesis using inv Some True i(2) by (simp add: flow_step_def wl_inv_def)
  next
    case False
    have "wl_inv fn Ks {} (set (Successors (Term bb))) (s\<lparr>exitStates := (exitStates s)[i := Some ?out]\<rparr>)"
      by (rule exit_update [OF inv code ids i(1) Some i(2)])
    from visit_succs_inv [OF this code fin, of "Successors (Term bb)"]
    show ?thesis using Some False i(2) by (simp add: flow_step_def weight_def)
  qed
qed

lemma pop_inv:
  assumes "wl_inv fn Ks {} {} s" "worklist s = i # rest"
  shows "wl_inv fn Ks {i} {} (s\<lparr>worklist := rest, inQueue := (inQueue s)[i := False]\<rparr>)" (is "wl_inv fn Ks {i} {} ?s")
proof -
  have "shape fn ?s" using assms unfolding wl_inv_def shape_def by (auto simp: nth_list_update)
  moreover have "exit_below fn {i} ?s" using assms unfolding wl_inv_def exit_below_def by simp
  ultimately show ?thesis using assms by (simp add: wl_inv_def states_ok_def entry_above_def entry_below_def exit_above_def)
qed

lemma flow_loop_inv:
  assumes "wl_inv fn Ks {} {} s" "code_ok fn Ks" "finite Ks" "ids_ok fn" "weight (card Ks) s < n"
  shows "\<exists>s'. flow_loop n fn (Predecessors fn) s = Some s' \<and> wl_inv fn Ks {} {} s' \<and> worklist s' = []"
  using assms(1,5)
proof (induction n arbitrary: s)
  case (Suc n)
  show ?case
  proof (cases "worklist s")
    case Nil
    then show ?thesis using Suc.prems(1) by simp
  next
    case (Cons i rest)
    let ?s = "s\<lparr>worklist := rest, inQueue := (inQueue s)[i := False]\<rparr>"
    obtain e where i: "i < length (Blocks fn)" "entryStates ?s ! i = Some e"
      using Suc.prems(1) Cons by (auto simp: wl_inv_def shape_def)
    note step = flow_step_inv [OF pop_inv [OF Suc.prems(1) Cons] assms(2,3,4) i]
    moreover have "weight (card Ks) ?s < weight (card Ks) s" using Cons by (simp add: weight_def)
    ultimately have "weight (card Ks) (flow_step fn (Predecessors fn) i ?s) < n" using Suc.prems(2) by linarith
    then show ?thesis using Suc.IH step Cons by simp
  qed
qed simp

lemma flow_start_inv:
  assumes "Entry fn < length (Blocks fn)"
  shows "wl_inv fn Ks {} {} (flow_start fn)"
proof -
  have nv: "\<not> visited (replicate n None) ps" for n ps by (simp add: visited_def)
  show ?thesis
    using assms nv unfolding wl_inv_def shape_def states_ok_def entry_above_def entry_below_def exit_above_def exit_below_def
    by (auto simp: flow_start_def Let_def nth_list_update good_states_def)
qed

section \<open>What the analysis delivers\<close>

definition sound_entries :: "Function \<Rightarrow> known option list \<Rightarrow> bool" where
  "sound_entries fn es \<longleftrightarrow> length es = length (Blocks fn) \<and>
     (\<forall>i e. i < length es \<and> es ! i = Some e \<longrightarrow> (\<forall>l x. map_of e l = Some x \<longrightarrow> ordinary x)) \<and>
     (Entry fn < length es \<longrightarrow> es ! Entry fn = Some []) \<and>
     (\<forall>i bb e t. i < length es \<and> Blocks fn ! i = Some bb \<and> es ! i = Some e \<and> t \<in> set (Successors (Term bb)) \<and> t < length es \<longrightarrow>
        (\<exists>e'. es ! t = Some e' \<and> known_le e' (transferBlock bb e)))"

lemma wl_inv_sound:
  assumes inv: "wl_inv fn Ks {} {} s" and w: "worklist s = []" and ids: "ids_ok fn"
  shows "sound_entries fn (entryStates s)"
proof -
  let ?E = "entryStates s" and ?X = "exitStates s" and ?N = "length (Blocks fn)"
  have len: "length ?E = ?N" "length ?X = ?N" using inv by (simp_all add: wl_inv_def shape_def)
  have st: "states_ok fn Ks s" and eb: "entry_below fn {} s" and xb: "exit_below fn {} s" using inv by (simp_all add: wl_inv_def)
  have "ordinary x" if "i < length ?E" "?E ! i = Some e" "map_of e l = Some x" for i e l x
    using st that good_map_of by (metis states_ok_def good_states_def)
  moreover have "?E ! Entry fn = Some []" using st by (simp add: states_ok_def)
  moreover have "\<exists>e'. ?E ! t = Some e' \<and> known_le e' (transferBlock bb e)"
    if i: "i < ?N" "Blocks fn ! i = Some bb" "?E ! i = Some e" and t: "t \<in> set (Successors (Term bb))" "t < ?N" for i bb e t
  proof (cases "t = Entry fn")
    case False
    obtain x where x: "?X ! i = Some x" "known_le x (transferBlock bb e)" using xb i w unfolding exit_below_def by (metis empty_iff list.set(1))
    have p: "i \<in> set (preds_of fn t)" using preds_iff [OF ids t(2)] i t(1) by blast
    then have "visited ?X (preds_of fn t)" using x i len by (auto simp: visited_def)
    then obtain e' where "?E ! t = Some e'" "lower ?X (preds_of fn t) e'" using eb t(2) False by (auto simp: entry_below_def)
    then show ?thesis using p x i len known_le_trans by (auto simp: lower_def)
  qed (use st in \<open>simp add: states_ok_def\<close>)
  ultimately show ?thesis unfolding sound_entries_def len by blast
qed

text \<open>The locals that may be bound to constants: at most one per instruction.\<close>

fun assigned :: "Instr \<Rightarrow> LocalID" where
  "assigned (AssignInstr d _) = place_Local d"
| "assigned _ = 0"

definition assigned_locals :: "Function \<Rightarrow> LocalID list" where
  "assigned_locals fn = concat (map (\<lambda>b. case b of None \<Rightarrow> [] | Some bb \<Rightarrow> map assigned (Instrs bb)) (Blocks fn))"

lemma assigned_length: "length (assigned_locals fn) = instr_count fn"
  unfolding assigned_locals_def instr_count_def by (induction "Blocks fn") (auto simp: length_concat comp_def intro!: arg_cong [where f = sum_list] split: option.split)

fun ordinary_instr :: "Instr \<Rightarrow> bool" where
  "ordinary_instr (AssignInstr d (UseRV (ConstOp c t))) = ordinary (c, t)"
| "ordinary_instr _ = True"

definition ordinary_fn :: "Function \<Rightarrow> bool" where
  "ordinary_fn fn \<longleftrightarrow> list_all (\<lambda>b. case b of None \<Rightarrow> True | Some bb \<Rightarrow> list_all ordinary_instr (Instrs bb)) (Blocks fn)"

lemma ordinary_code_ok:
  assumes "ordinary_fn fn"
  shows "code_ok fn (set (assigned_locals fn))"
  unfolding code_ok_def
proof (intro allI impI)
  fix bb
  assume bb: "Some bb \<in> set (Blocks fn)"
  have "instr_ok (set (assigned_locals fn)) i" if i: "i \<in> set (Instrs bb)" for i
  proof -
    have "ordinary_instr i" using assms bb i by (force simp: ordinary_fn_def list_all_iff)
    moreover have "assigned i \<in> set (assigned_locals fn)" using bb i by (force simp: assigned_locals_def)
    ultimately show ?thesis by (cases "(set (assigned_locals fn), i)" rule: instr_ok.cases) auto
  qed
  then show "list_all (instr_ok (set (assigned_locals fn))) (Instrs bb)" by (simp add: list_all_iff)
qed

lemma computeBlockStates_total:
  assumes "ids_ok fn" "ordinary_fn fn"
  shows "\<exists>es xs. computeBlockStates fn = Some (es, xs) \<and> sound_entries fn es"
proof (cases "Entry fn < length (Blocks fn)")
  case True
  let ?N = "length (Blocks fn)" and ?Ks = "set (assigned_locals fn)" and ?s = "flow_start fn"
  have K: "card ?Ks \<le> instr_count fn" using card_length [of "assigned_locals fn"] by (simp add: assigned_length)
  have h: "height (card ?Ks) x \<le> card ?Ks + 1" if "x \<in> set (entryStates ?s)" for x
    using that set_update_subset_insert [of "replicate ?N None" "Entry fn" "Some ([] :: known)"] by (auto simp: flow_start_def Let_def)
  have "sum_list (map (height (card ?Ks)) (entryStates ?s)) \<le> sum_list (map (\<lambda>_. card ?Ks + 1) (entryStates ?s))"
    by (rule sum_list_mono) (rule h)
  also have "\<dots> = ?N * (card ?Ks + 1)" by (simp add: sum_list_triv flow_start_def Let_def)
  also have "\<dots> \<le> ?N * (instr_count fn + 1)" using K by simp
  finally have "sum_list (map (height (card ?Ks)) (entryStates ?s)) \<le> ?N * (instr_count fn + 1)" .
  moreover have "length (worklist ?s) = 1" by (simp add: flow_start_def Let_def)
  ultimately have w: "weight (card ?Ks) ?s < 2 * ?N * (instr_count fn + 1) + 2" unfolding weight_def mult.assoc by linarith
  obtain s' where s': "flow_loop (2 * ?N * (instr_count fn + 1) + 2) fn (Predecessors fn) ?s = Some s'"
      "wl_inv fn ?Ks {} {} s'" "worklist s' = []"
    using flow_loop_inv [OF flow_start_inv [OF True] ordinary_code_ok [OF assms(2)] finite_set assms(1) w] by blast
  then show ?thesis using wl_inv_sound [OF s'(2,3) assms(1)] True by (simp add: computeBlockStates_def Let_def)
next
  case False
  then have "sound_entries fn (replicate (length (Blocks fn)) None)" by (auto simp: sound_entries_def)
  then show ?thesis using False by (simp add: computeBlockStates_def Let_def)
qed

end
