(* ===== verification/MIR_Correct.thy ===== *)
theory MIR_Correct
  imports MIR_Semantics MIR_Dataflow
begin

text \<open>
  The passes of \<^verbatim>\<open>src/internal/mir/optimize.go\<close> preserve what a function does, on every machine whose constants
  mean what they say (\<open>machine_laws\<close>), and so does the loop that repeats them.
\<close>

section \<open>Constant propagation\<close>

definition machine_laws :: "('v, 'w) machine \<Rightarrow> bool" where
  "machine_laws M \<longleftrightarrow> (\<forall>b t. m_bool M (m_const M (BoolConst b) t) = Some b) \<and>
     (\<forall>i t u. m_int M (m_const M (IntConst i t) u) = Some i) \<and>
     (\<forall>a b. constOpEqual a b \<and> ordinary a \<and> ordinary b \<longrightarrow> m_const M (fst a) (snd a) = m_const M (fst b) (snd b))"

text \<open>What is known of the locals holds.\<close>

definition sat :: "('v, 'w) machine \<Rightarrow> known \<Rightarrow> 'v env \<Rightarrow> bool" where
  "sat M k env \<longleftrightarrow> (\<forall>l x. map_of k l = Some x \<longrightarrow> fst x \<noteq> NilConst \<and> env l = m_const M (fst x) (snd x))"

lemma sat_nil [simp]: "sat M [] env"
  by (simp add: sat_def)

lemma sat_le:
  assumes "machine_laws M" "known_le a b" "sat M b env" "\<And>l x. map_of a l = Some x \<Longrightarrow> ordinary x" "\<And>l x. map_of b l = Some x \<Longrightarrow> ordinary x"
  shows "sat M a env"
  unfolding sat_def
proof (intro allI impI)
  fix l x
  assume x: "map_of a l = Some x"
  obtain y where y: "map_of b l = Some y" "constOpEqual x y" by (rule known_leD [OF assms(2) x])
  have "m_const M (fst x) (snd x) = m_const M (fst y) (snd y)" using assms(1) y(2) assms(4) [OF x] assms(5) [OF y(1)]
    unfolding machine_laws_def by blast
  moreover have "fst y \<noteq> NilConst" "env l = m_const M (fst y) (snd y)" using assms(3) y(1) unfolding sat_def by blast+
  moreover have "fst x \<noteq> NilConst" using y(2) \<open>fst y \<noteq> NilConst\<close> by (auto simp: constOpEqual_def constValueEqual_def)
  ultimately show "fst x \<noteq> NilConst \<and> env l = m_const M (fst x) (snd x)" by simp
qed

lemma eval_rewrite_op:
  assumes "sat M k env"
  shows "eval_op M env w (rewrite_op k op) = eval_op M env w op"
proof (cases "substituteConst op k")
  case (Some co)
  then obtain p t where p: "op = CopyOp p t \<or> op = MoveOp p t" "Projections p = []" "map_of k (place_Local p) = Some co"
    by (auto simp: substituteConst_def split: Operand.splits if_splits)
  then have "eval_op M env w op = Some (env (place_Local p))" by (cases p) auto
  moreover have "fst co \<noteq> NilConst" "env (place_Local p) = m_const M (fst co) (snd co)" using assms p(3) unfolding sat_def by blast+
  ultimately show ?thesis using Some by (simp add: rewrite_op_def)
qed (simp add: rewrite_op_def)

lemma eval_rewrite_step: "sat M k env \<Longrightarrow> eval_step M env w (rewrite_proj k p) = eval_step M env w p"
  by (cases p) (simp_all add: eval_rewrite_op)

lemma eval_rewrite_steps:
  assumes "sat M k env"
  shows "map (eval_step M env w) (Projections (rewritePlaceProjections k p)) = map (eval_step M env w) (Projections p)"
  by (simp add: rewritePlaceProjections_def eval_rewrite_step [OF assms])

lemma rewritePlace_simps [simp]:
  "place_Local (rewritePlaceProjections k p) = place_Local p" "Projections (rewritePlaceProjections k p) = [] \<longleftrightarrow> Projections p = []"
  by (simp_all add: rewritePlaceProjections_def)

lemma eval_rewrite_place: "sat M k env \<Longrightarrow> eval_place M env w (rewritePlaceProjections k p) = eval_place M env w p"
  using eval_rewrite_steps [of M k env w p] by (cases p) (simp add: rewritePlaceProjections_def comp_def del: map_eq_conv)

lemma eval_rewrite_ops: "sat M k env \<Longrightarrow> eval_ops M env w (map (rewrite_op k) ops) = eval_ops M env w ops"
  by (simp add: eval_ops_def comp_def eval_rewrite_op)

lemma eval_rewrite_rv:
  assumes "sat M k env"
  shows "eval_rv M env w (rewriteRValue k rv) = eval_rv M env w rv"
  using eval_rewrite_ops [OF assms, of w "[a]" for a] eval_rewrite_ops [OF assms, of w "[a, b]" for a b]
  by (cases rv) (simp_all add: eval_rewrite_op [OF assms] eval_rewrite_ops [OF assms] eval_rewrite_place [OF assms])

lemma store_rewrite:
  assumes "sat M k env"
  shows "store M (rewritePlaceProjections k p) v (env, w) = store M p v (env, w)"
  unfolding store_def using eval_rewrite_steps [OF assms, of w p] by (simp add: Let_def del: map_eq_conv)

lemma store_opt_rewrite: "sat M k env \<Longrightarrow> store_opt M (map_option (rewritePlaceProjections k) d) v (env, w) = store_opt M d v (env, w)"
  by (cases d) (simp_all add: store_opt_def store_rewrite)

lemma exec_rewrite:
  assumes "sat M k env"
  shows "exec_instr M (fst (prop_instr k i)) (env, w) = exec_instr M i (env, w)"
proof -
  have "eval_callee M env w (rewrite_callee k c) = eval_callee M env w c" for c
    by (cases c) (simp_all add: eval_rewrite_op [OF assms])
  then show ?thesis
    by (cases i) (simp_all add: Let_def exec_call_def eval_rewrite_rv [OF assms] store_rewrite [OF assms] eval_rewrite_ops [OF assms] store_opt_rewrite [OF assms])
qed

text \<open>What an instruction leaves known.\<close>

lemma store_env: "store M p v (env, w) = Some (env1, w1) \<Longrightarrow> l \<noteq> place_Local p \<Longrightarrow> env1 l = env l"
  by (auto simp: store_def Let_def bind_eq_Some_conv split: if_splits)

lemma sat_delete:
  assumes "sat M k env" "\<And>j. j \<noteq> l \<Longrightarrow> env1 j = env j"
  shows "sat M (AList.delete l k) env1"
  using assms by (simp add: sat_def map_of_delete)

lemma sat_track:
  assumes "sat M k env" "eval_rv M env w src = Some v" "store M d v (env, w) = Some (env1, w1)"
  shows "sat M (track d src k) env1"
proof -
  have del: "sat M (AList.delete (place_Local d) k) env1" using sat_delete [OF assms(1)] store_env [OF assms(3)] by blast
  show ?thesis
  proof (cases "\<not> HasProjections d \<and> (\<exists>c t. src = UseRV (ConstOp c t))")
    case True
    then obtain c t where src: "src = UseRV (ConstOp c t)" "Projections d = []" by (auto simp: HasProjections_def)
    then have "c \<noteq> NilConst" "v = m_const M c t" using assms(2) by (auto split: if_splits)
    moreover have "env1 = env(place_Local d := v)" using assms(3) src(2) by (auto simp: store_def)
    ultimately show ?thesis using assms(1) src by (simp add: track_def HasProjections_def sat_def map_of_update)
  next
    case False
    then have "track d src k = AList.delete (place_Local d) k"
      by (auto simp: track_def split: RValue.split Operand.split)
    then show ?thesis using del by simp
  qed
qed

lemma sat_forget:
  assumes "sat M k env" "store_opt M d v (env, w) = Some (env1, w1)"
  shows "sat M (forget d k) env1"
proof (cases d)
  case (Some p)
  then have "store M p v (env, w) = Some (env1, w1)" using assms(2) by (simp add: store_opt_def)
  from sat_delete [OF assms(1) store_env [OF this]] show ?thesis using Some by (simp add: forget_def)
qed (use assms in \<open>simp add: forget_def store_opt_def\<close>)

lemma exec_call_env: "exec_call M d c args (env, w) = Some (env1, w1) \<Longrightarrow> \<exists>v w'. store_opt M d v (env, w') = Some (env1, w1)"
  by (auto simp: exec_call_def bind_eq_Some_conv)

lemma sat_prop:
  assumes "sat M k env" "exec_instr M i (env, w) = Some (env1, w1)"
  shows "sat M (snd (prop_instr k i)) env1" "sat M (transfer_instr i k) env1"
proof -
  have "sat M (snd (prop_instr k i)) env1 \<and> sat M (transfer_instr i k) env1"
  proof (cases i)
    case (AssignInstr d src)
    then obtain v where v: "eval_rv M env w src = Some v" "store M d v (env, w) = Some (env1, w1)"
      using assms(2) by (auto simp: bind_eq_Some_conv)
    have "sat M (track (rewritePlaceProjections k d) (rewriteRValue k src) k) env1"
      by (rule sat_track [OF assms(1)]) (use v eval_rewrite_rv [OF assms(1)] store_rewrite [OF assms(1)] in simp_all)
    then show ?thesis using AssignInstr sat_track [OF assms(1) v] by (simp add: Let_def)
  next
    case (CallInstr d c args)
    then show ?thesis using assms exec_call_env sat_forget by (metis exec_instr.simps(2) prop_instr.simps(2) snd_conv transfer_instr.simps(2))
  next
    case (IntrinsicInstr d c args)
    then show ?thesis using assms exec_call_env sat_forget by (metis exec_instr.simps(3) prop_instr.simps(3) snd_conv transfer_instr.simps(3))
  qed (use assms in auto)
  then show "sat M (snd (prop_instr k i)) env1" "sat M (transfer_instr i k) env1" by blast+
qed

lemma prop_instrs_exec:
  assumes "sat M k env" "exec_instrs M is (env, w) = Some (env1, w1)"
  shows "exec_instrs M (fst (prop_instrs k is)) (env, w) = Some (env1, w1) \<and> sat M (snd (prop_instrs k is)) env1"
  using assms
proof (induction "is" arbitrary: k env w)
  case (Cons i "is")
  then obtain env2 w2 where e: "exec_instr M i (env, w) = Some (env2, w2)" "exec_instrs M is (env2, w2) = Some (env1, w1)"
    by (auto simp: bind_eq_Some_conv)
  have "exec_instr M (fst (prop_instr k i)) (env, w) = Some (env2, w2)" using exec_rewrite [OF Cons.prems(1)] e(1) by simp
  then show ?case using Cons.IH [OF sat_prop(1) [OF Cons.prems(1) e(1)] e(2)] by (simp add: split_beta)
qed simp

lemma transferBlock_sat:
  assumes "sat M k env" "exec_instrs M (Instrs bb) (env, w) = Some (env1, w1)"
  shows "sat M (transferBlock bb k) env1"
proof -
  have "sat M k env \<Longrightarrow> exec_instrs M is (env, w) = Some (env1, w1) \<Longrightarrow> sat M (fold transfer_instr is k) env1" for "is"
  proof (induction "is" arbitrary: k env w)
    case (Cons i "is")
    then obtain env2 w2 where e: "exec_instr M i (env, w) = Some (env2, w2)" "exec_instrs M is (env2, w2) = Some (env1, w1)"
      by (auto simp: bind_eq_Some_conv)
    then show ?case using Cons.IH [OF sat_prop(2) [OF Cons.prems(1) e(1)] e(2)] by simp
  qed simp
  then show ?thesis using assms by (simp add: transferBlock_def)
qed

lemma next_block_fold:
  assumes "machine_laws M"
  shows "next_block M (foldTerminator t) s = next_block M t s"
  using assms unfolding foldTerminator_def machine_laws_def
  by (auto split: Terminator.split Operand.split Const.split)

lemma next_block_prop: "sat M k env \<Longrightarrow> next_block M (prop_term k t) (env, w) = next_block M t (env, w)"
  by (cases t) (simp_all add: eval_rewrite_op)

lemma transferBlock_ordinary:
  assumes "list_all ordinary_instr (Instrs bb)" "\<And>l x. map_of k l = Some x \<Longrightarrow> ordinary x" "map_of (transferBlock bb k) l = Some x"
  shows "ordinary x"
proof -
  have step: "ordinary y" if "ordinary_instr i" "\<And>l x. map_of k l = Some x \<Longrightarrow> ordinary x" "map_of (transfer_instr i k) j = Some y" for i k j y
    using that by (cases i rule: ordinary_instr.cases) (auto simp: track_def forget_def map_of_delete map_of_update split: if_splits option.splits)
  have "ordinary x" if "list_all ordinary_instr is" "\<And>l x. map_of k l = Some x \<Longrightarrow> ordinary x" "map_of (fold transfer_instr is k) l = Some x" for "is" k
    using that
  proof (induction "is" arbitrary: k)
    case (Cons i "is")
    have "ordinary y" if "map_of (transfer_instr i k) j = Some y" for j y by (rule step [OF _ Cons.prems(2) that]) (use Cons.prems(1) in simp)
    then show ?case using Cons.IH [of "transfer_instr i k"] Cons.prems(1,3) by simp
  qed simp
  then show ?thesis using assms unfolding transferBlock_def by blast
qed

lemma ordinary_block: "ordinary_fn fn \<Longrightarrow> Some bb \<in> set (Blocks fn) \<Longrightarrow> list_all ordinary_instr (Instrs bb)"
  by (force simp: ordinary_fn_def list_all_iff)

lemma sound_ordinary: "sound_entries fn es \<Longrightarrow> i < length es \<Longrightarrow> es ! i = Some e \<Longrightarrow> map_of e l = Some x \<Longrightarrow> ordinary x"
  unfolding sound_entries_def by blast

text \<open>The pass with the entry states \<open>es\<close>.\<close>

definition propagated :: "Function \<Rightarrow> known option list \<Rightarrow> Function" where
  "propagated fn es = fn\<lparr>Blocks := map2 (\<lambda>e b. map_option (\<lambda>bb. propagateBlockWithSeed bb (case e of None \<Rightarrow> [] | Some s \<Rightarrow> s)) b) es (Blocks fn)\<rparr>"

lemma propagated_Block:
  assumes "length es = length (Blocks fn)" "Block fn b = Some bb" "es ! b = Some e"
  shows "Block (propagated fn es) b = Some (propagateBlockWithSeed bb e)"
  using assms by (auto simp: Block_def propagated_def split: if_splits)

lemma next_in_Successors: "next_block M t s = Some (Jump b) \<Longrightarrow> b \<in> set (Successors t)"
proof -
  have "switch_target v cs d \<in> insert d (case_Target ` set cs)" for v cs d by (induction cs) auto
  then show "next_block M t s = Some (Jump b) \<Longrightarrow> ?thesis" by (cases t) (auto simp: bind_eq_Some_conv split: if_splits)
qed

text \<open>If what is known on entry to a block holds, so does what is known on entry to the block it jumps to.\<close>

lemma entry_step:
  assumes laws: "machine_laws M" and sound: "sound_entries fn es" and ord: "ordinary_fn fn"
    and b: "Block fn b = Some bb" "es ! b = Some e" "sat M e env" "exec_instrs M (Instrs bb) (env, w) = Some (env1, w1)"
    and t: "next_block M (Term bb) (env1, w1) = Some (Jump t)" "t < length (Blocks fn)"
  shows "\<exists>e'. es ! t = Some e' \<and> sat M e' env1"
proof -
  have len: "length es = length (Blocks fn)" using sound by (simp add: sound_entries_def)
  note known = sound_ordinary [OF sound]
  have i: "b < length es" "Blocks fn ! b = Some bb" using b(1) len by (auto simp: Block_def split: if_splits)
  have "t \<in> set (Successors (Term bb))" using next_in_Successors t(1) by blast
  then obtain e' where e': "es ! t = Some e'" "known_le e' (transferBlock bb e)"
    using sound i b(2) t(2) len unfolding sound_entries_def by metis
  have "list_all ordinary_instr (Instrs bb)" using ordinary_block [OF ord] i len by (metis nth_mem)
  then have "sat M e' env1"
    using sat_le [OF laws e'(2) transferBlock_sat [OF b(3,4)]] known [OF _ e'(1)] known [OF i(1) b(2)] t(2) len
      transferBlock_ordinary [of bb e] by metis
  then show ?thesis using e'(1) by blast
qed

text \<open>The states in which a run from \<open>s\<close> enters a block.\<close>

inductive reach :: "('v, 'w) machine \<Rightarrow> Function \<Rightarrow> 'v env \<times> 'w \<Rightarrow> BlockID \<Rightarrow> 'v env \<times> 'w \<Rightarrow> bool" for M fn s where
  reach_entry: "Entry fn < length (Blocks fn) \<Longrightarrow> reach M fn s (Entry fn) s"
| reach_jump: "reach M fn s b s1 \<Longrightarrow> Block fn b = Some bb \<Longrightarrow> exec_instrs M (Instrs bb) s1 = Some s2 \<Longrightarrow>
    next_block M (Term bb) s2 = Some (Jump t) \<Longrightarrow> t < length (Blocks fn) \<Longrightarrow> reach M fn s t s2"

lemma reach_sat:
  assumes "machine_laws M" "sound_entries fn es" "ordinary_fn fn" "reach M fn s b s1"
  shows "\<exists>e. es ! b = Some e \<and> sat M e (fst s1)"
  using assms(4)
proof (induction rule: reach.induct)
  case reach_entry
  then show ?case using assms(2) by (auto simp: sound_entries_def)
next
  case (reach_jump b s1 bb s2 t)
  then obtain e where e: "es ! b = Some e" "sat M e (fst s1)" by blast
  show ?case
    using entry_step [OF assms(1-3) reach_jump.hyps(2) e, of "snd s1" "fst s2" "snd s2" t] reach_jump.hyps(3-5) by simp
qed

lemma propagated_run:
  assumes laws: "machine_laws M" and sound: "sound_entries fn es" and ord: "ordinary_fn fn"
  shows "run M fn n b (env, w) = Some r \<Longrightarrow> b < length (Blocks fn) \<Longrightarrow> es ! b = Some e \<Longrightarrow> sat M e env \<Longrightarrow>
    run M (propagated fn es) n b (env, w) = Some r"
proof (induction n arbitrary: b env w e)
  case (Suc n)
  let ?fn = "propagated fn es"
  have len: "length es = length (Blocks fn)" using sound by (simp add: sound_entries_def)
  obtain bb env1 w1 j where b: "Block fn b = Some bb" "exec_instrs M (Instrs bb) (env, w) = Some (env1, w1)"
      "next_block M (Term bb) (env1, w1) = Some j"
      and j: "(case j of Jump t \<Rightarrow> run M fn n t (env1, w1) | Return \<Rightarrow> Some (env1 (ReturnLocal fn), w1)) = Some r"
    by (rule run_SucE [OF Suc.prems(1)])
  let ?p = "prop_instrs e (Instrs bb)"
  have bb: "Block ?fn b = Some (bb\<lparr>Instrs := fst ?p, Term := foldTerminator (prop_term (snd ?p) (Term bb))\<rparr>)"
    using propagated_Block [OF len b(1) Suc.prems(3)] by (simp add: propagateBlockWithSeed_def split_beta Let_def)
  have ex: "exec_instrs M (fst ?p) (env, w) = Some (env1, w1)" "sat M (snd ?p) env1"
    using prop_instrs_exec [OF Suc.prems(4) b(2)] by simp_all
  have nx: "next_block M (foldTerminator (prop_term (snd ?p) (Term bb))) (env1, w1) = Some j"
    using next_block_fold [OF laws] next_block_prop [OF ex(2)] b(3) by simp
  have go: "run M ?fn n t (env1, w1) = Some r" if t: "j = Jump t" for t
  proof -
    have run: "run M fn n t (env1, w1) = Some r" using j t by simp
    then have tl: "t < length (Blocks fn)" by (cases n) (auto simp: Block_def bind_eq_Some_conv split: if_splits)
    obtain e' where e': "es ! t = Some e'" "sat M e' env1"
      using entry_step [OF laws sound ord b(1) Suc.prems(3,4) b(2) _ tl] b(3) t by blast
    then show ?thesis using Suc.IH [OF run tl] by simp
  qed
  have "ReturnLocal ?fn = ReturnLocal fn" by (simp add: propagated_def)
  then show ?case using bb ex nx go j by (cases j) simp_all
qed simp

lemma copyPropagate_refines:
  assumes "machine_laws M" "ids_ok fn" "ordinary_fn fn"
  shows "\<exists>fn'. copyPropagateFn fn = Some fn' \<and> refines M fn fn'"
proof (cases "Blocks fn = []")
  case True
  then show ?thesis using refines_refl by (auto simp: copyPropagateFn_def)
next
  case False
  obtain es xs where e: "computeBlockStates fn = Some (es, xs)" "sound_entries fn es"
    using computeBlockStates_total [OF assms(2,3)] by blast
  have "refines M fn (propagated fn es)"
    unfolding refines_def
  proof (intro allI impI)
    fix n s r
    assume r: "run M fn n (Entry fn) s = Some r"
    then have b: "Entry fn < length (Blocks fn)" by (cases n) (auto simp: Block_def bind_eq_Some_conv split: if_splits)
    then have "es ! Entry fn = Some []" using e(2) by (simp add: sound_entries_def)
    then show "run M (propagated fn es) n (Entry (propagated fn es)) s = Some r"
      using propagated_run [OF assms(1) e(2) assms(3) _ b] r by (cases s) (simp add: propagated_def)
  qed
  then show ?thesis using e(1) False by (simp add: copyPropagateFn_def propagated_def)
qed

section \<open>The passes keep what the analysis needs\<close>

lemma ordinary_fnI: "(\<And>bb. Some bb \<in> set (Blocks fn) \<Longrightarrow> list_all ordinary_instr (Instrs bb)) \<Longrightarrow> ordinary_fn fn"
  by (auto simp: ordinary_fn_def list_all_iff split: option.split)

lemma prop_instr_ordinary:
  assumes "ordinary_instr i" "\<And>l x. map_of k l = Some x \<Longrightarrow> ordinary x"
  shows "ordinary_instr (fst (prop_instr k i))" "map_of (snd (prop_instr k i)) l = Some x \<Longrightarrow> ordinary x"
proof -
  have sub: "ordinary co" if "substituteConst op k = Some co" for op co
    using that assms(2) by (auto simp: substituteConst_def split: Operand.splits if_splits)
  have rv: "ordinary (c, t)" if "i = AssignInstr d src" "rewriteRValue k src = UseRV (ConstOp c t)" for d src c t
  proof (cases src)
    case (UseRV op)
    then show ?thesis using that assms(1) sub [of op] by (cases "substituteConst op k") (auto simp: rewrite_op_def)
  qed (use that in auto)
  show "ordinary_instr (fst (prop_instr k i))"
  proof (cases i)
    case (AssignInstr d src)
    then show ?thesis using rv [OF AssignInstr]
      by (cases "fst (prop_instr k i)" rule: ordinary_instr.cases) (auto simp: Let_def)
  qed simp_all
  show "map_of (snd (prop_instr k i)) l = Some x \<Longrightarrow> ordinary x"
  proof (cases i)
    case (AssignInstr d src)
    assume "map_of (snd (prop_instr k i)) l = Some x"
    then show ?thesis using AssignInstr rv [OF AssignInstr] assms(2)
      by (auto simp: Let_def track_def map_of_delete map_of_update split: if_splits RValue.splits Operand.splits)
  qed (use assms(2) in \<open>auto simp: forget_def map_of_delete split: option.splits if_splits\<close>)
qed

lemma prop_instrs_ordinary:
  assumes "list_all ordinary_instr is" "\<And>l x. map_of k l = Some x \<Longrightarrow> ordinary x"
  shows "list_all ordinary_instr (fst (prop_instrs k is))"
  using assms
proof (induction "is" arbitrary: k)
  case (Cons i "is")
  have i: "ordinary_instr i" using Cons.prems(1) by simp
  have "list_all ordinary_instr (fst (prop_instrs (snd (prop_instr k i)) is))"
    by (rule Cons.IH) (use Cons.prems(1) prop_instr_ordinary(2) [OF i Cons.prems(2)] in auto)
  then show ?case using prop_instr_ordinary(1) [OF i Cons.prems(2)] by (simp add: split_beta)
qed simp

definition pass_ok :: "Function \<Rightarrow> bool" where
  "pass_ok fn \<longleftrightarrow> ids_ok fn \<and> ordinary_fn fn"

lemma copyPropagate_ok:
  assumes "pass_ok fn" "copyPropagateFn fn = Some fn'"
  shows "pass_ok fn'"
proof (cases "Blocks fn = []")
  case True
  then show ?thesis using assms by (simp add: copyPropagateFn_def)
next
  case False
  obtain es xs where e: "computeBlockStates fn = Some (es, xs)" "sound_entries fn es"
    using computeBlockStates_total [of fn] assms(1) unfolding pass_ok_def by blast
  have fn': "fn' = propagated fn es" using assms(2) e(1) False by (simp add: copyPropagateFn_def propagated_def)
  have len: "length es = length (Blocks fn)" using e(2) by (simp add: sound_entries_def)
  have "ids_ok fn'" using assms(1) len unfolding fn' by (auto simp: pass_ok_def ids_ok_def propagated_def propagateBlockWithSeed_def split_beta Let_def)
  moreover have "ordinary_fn fn'"
  proof (rule ordinary_fnI)
    fix bb
    assume "Some bb \<in> set (Blocks fn')"
    then obtain i bb0 where i: "i < length (Blocks fn)" "Blocks fn ! i = Some bb0"
        "bb = propagateBlockWithSeed bb0 (case es ! i of None \<Rightarrow> [] | Some s \<Rightarrow> s)"
      using len unfolding fn' by (auto simp: propagated_def in_set_conv_nth dest!: sym [of "Some bb"])
    have "list_all ordinary_instr (Instrs bb0)" using ordinary_block assms(1) i by (metis pass_ok_def nth_mem)
    moreover have "ordinary x" if "map_of (case es ! i of None \<Rightarrow> [] | Some s \<Rightarrow> s) l = Some x" for l x
      using that sound_ordinary [OF e(2), of i] i(1) len by (cases "es ! i") simp_all
    ultimately show "list_all ordinary_instr (Instrs bb)"
      using prop_instrs_ordinary i(3) by (simp add: propagateBlockWithSeed_def split_beta Let_def)
  qed
  ultimately show ?thesis by (simp add: pass_ok_def)
qed

text \<open>Collapsing changes terminators only.\<close>

definition same_code :: "BasicBlock option list \<Rightarrow> BasicBlock option list \<Rightarrow> bool" where
  "same_code bs bs' \<longleftrightarrow> list_all2 (rel_option (\<lambda>b b'. block_ID b' = block_ID b \<and> Instrs b' = Instrs b)) bs bs'"

lemma same_code_refl: "same_code bs bs"
  by (auto simp: same_code_def list_all2_conv_all_nth intro!: option.rel_refl)

lemma same_code_trans: "same_code as bs \<Longrightarrow> same_code bs cs \<Longrightarrow> same_code as cs"
  unfolding same_code_def by (erule (1) list_all2_trans [rotated 1]) (auto elim!: option.rel_cases)

lemma retarget_same_code:
  assumes "i < length bs"
  shows "same_code bs (retarget_block i bs)"
proof (cases "bs ! i")
  case (Some bb)
  then show ?thesis using assms
    by (auto simp: retarget_block_def same_code_def list_all2_conv_all_nth nth_list_update intro!: option.rel_refl)
qed (simp add: retarget_block_def same_code_refl)

lemma retargets_same_code: "list_all (\<lambda>i. i < length bs) is \<Longrightarrow> same_code bs (fold retarget_block is bs)"
proof (induction "is" arbitrary: bs)
  case (Cons i "is")
  then have "same_code (retarget_block i bs) (fold retarget_block is (retarget_block i bs))" by simp
  then show ?case using same_code_trans [OF retarget_same_code [of i bs]] Cons.prems by simp
qed (simp add: same_code_refl)

lemma collapse_same_code: "same_code (Blocks fn) (Blocks (collapseEmptyGotos fn))"
  using retargets_same_code [of "Blocks fn" "[0..<length (Blocks fn)]"] by (simp add: collapseEmptyGotos_def Let_def list_all_iff)

lemma same_code_ok:
  assumes "pass_ok fn" "same_code (Blocks fn) (Blocks fn')"
  shows "pass_ok fn'"
proof -
  have b: "\<exists>bb0. Blocks fn ! i = Some bb0 \<and> block_ID bb = block_ID bb0 \<and> Instrs bb = Instrs bb0"
    if "i < length (Blocks fn')" "Blocks fn' ! i = Some bb" for i bb
  proof -
    have "rel_option (\<lambda>b b'. block_ID b' = block_ID b \<and> Instrs b' = Instrs b) (Blocks fn ! i) (Some bb)"
      using list_all2_nthD2 [OF assms(2) [unfolded same_code_def] that(1)] that(2) by simp
    then show ?thesis by (auto simp: option_rel_Some2)
  qed
  have len: "length (Blocks fn') = length (Blocks fn)" using assms(2) by (simp add: same_code_def list_all2_lengthD)
  have "ids_ok fn'" using assms(1) b len unfolding pass_ok_def ids_ok_def by metis
  moreover have "ordinary_fn fn'"
  proof (rule ordinary_fnI)
    fix bb
    assume "Some bb \<in> set (Blocks fn')"
    then obtain i where "i < length (Blocks fn')" "Blocks fn' ! i = Some bb" by (auto simp: in_set_conv_nth)
    then show "list_all ordinary_instr (Instrs bb)" using b ordinary_block assms(1) len by (metis pass_ok_def nth_mem)
  qed
  ultimately show ?thesis by (simp add: pass_ok_def)
qed

lemma dead_ok:
  assumes "pass_ok fn"
  shows "pass_ok (deadAssignElim fn)"
proof -
  let ?r = "collectLocalReads fn"
  have "ordinary_instr j" if "dead_instr fn ?r i = Some j" "ordinary_instr i" for i j
    using that by (cases i) (auto split: if_splits)
  then have keep: "list_all ordinary_instr (List.map_filter (dead_instr fn ?r) is)" if "list_all ordinary_instr is" for "is"
    using that by (fastforce simp: list_all_iff List.map_filter_def)
  have "ordinary_fn (deadAssignElim fn)"
  proof (rule ordinary_fnI)
    fix bb
    assume "Some bb \<in> set (Blocks (deadAssignElim fn))"
    then obtain bb0 where "Some bb0 \<in> set (Blocks fn)" "Instrs bb = List.map_filter (dead_instr fn ?r) (Instrs bb0)"
      by (auto simp: deadAssignElim_def Let_def dest!: sym [of "Some bb"])
    then show "list_all ordinary_instr (Instrs bb)" using keep [OF ordinary_block [of fn bb0]] assms by (simp add: pass_ok_def)
  qed
  moreover have "ids_ok (deadAssignElim fn)" using assms by (auto simp: pass_ok_def ids_ok_def deadAssignElim_def Let_def)
  ultimately show ?thesis by (simp add: pass_ok_def)
qed

lemma peephole_iters_refines:
  assumes "machine_laws M" "pass_ok fn"
  shows "\<exists>fn'. peephole_iters n fn = Some fn' \<and> refines M fn fn' \<and> pass_ok fn'"
  using assms(2)
proof (induction n arbitrary: fn)
  case (Suc n)
  obtain f1 where f1: "copyPropagateFn fn = Some f1" "refines M fn f1"
    using copyPropagate_refines [OF assms(1)] Suc.prems by (auto simp: pass_ok_def)
  let ?f2 = "collapseEmptyGotos f1"
  let ?f3 = "deadAssignElim ?f2"
  have ok: "pass_ok ?f3" using dead_ok same_code_ok collapse_same_code copyPropagate_ok [OF Suc.prems f1(1)] by blast
  have r: "refines M fn ?f3" using refines_trans [OF refines_trans [OF f1(2) collapse_refines] dead_refines] .
  show ?case using Suc.IH [OF ok] refines_trans [OF r] r ok f1(1) by (auto simp: Let_def)
qed (simp add: refines_refl)

end
