(* ===== verification/MIR_Validate.thy ===== *)
theory MIR_Validate
  imports MIR
begin

text \<open>
  \<^verbatim>\<open>src/internal/mir/validate.go\<close>: the structural checks on MIR. The Go validator appends to a list of errors; here every
  function returns the errors it adds, in order. An error has a constructor per message, with the values the message
  prints and the text that says where in an instruction the fault is. The cases for unknown implementations of an interface have no counterpart.
\<close>

section \<open>Errors\<close>

datatype block_error =
  InstrNil nat | MissingTerminator | NilSrc nat | IntrinsicIsInvalid nat
| StorageRange nat string LocalID | StorageParam nat string LocalID | StorageReturn nat string LocalID
| CalleeNil | EmptySymbol | IndirectNil
| RValueNilType string | RValueZeroKind string | CastNilType | GlobalRefEmpty | RValueUnknown
| OperandNil string | OperandNilType string | ConstNil string
| LocalRange string LocalID | LocalNil string LocalID
| ProjNil string | ProjNilType string string | ProjNegative string string int
| TargetRange string BlockID | CaseDuplicate nat int nat

datatype function_error =
  ReturnTypeNil | ReturnLocalRange LocalID | ReturnLocalNil LocalID | ReturnNotMarked LocalID | ReturnTypeDiffers LocalID string string
| ParamRange nat LocalID | ParamTwice nat LocalID | ParamNil nat LocalID | ParamNotMarked nat LocalID
| LocalIsNil nat | LocalIDDiffers nat LocalID | LocalNilType nat LocalID | LocalNotParam nat LocalID | LocalNotReturn nat LocalID | ReturnAgain nat LocalID
| ExternalHasBlocks | NoBlocks | EntryRange BlockID | BlockNil nat | BlockIDDiffers nat BlockID
| InBlock BlockID block_error

datatype module_error =
  EmptyPackage | FunctionNil nat | FunctionNoName nat | DuplicateSymbol string | GlobalNil nat | GlobalNoName | GlobalNilType string
| InFunction string function_error

section \<open>Places and operands\<close>

definition when_err :: "bool \<Rightarrow> 'e \<Rightarrow> 'e list" where
  "when_err c e = (if c then [e] else [])"

lemma when_err_nil [simp]: "when_err c e = [] \<longleftrightarrow> \<not> c"
  by (simp add: when_err_def)

fun validateOperand :: "Local option list \<Rightarrow> string \<Rightarrow> Operand \<Rightarrow> block_error list"
  and validatePlace :: "Local option list \<Rightarrow> string \<Rightarrow> Place \<Rightarrow> block_error list"
  and validateProjections :: "Local option list \<Rightarrow> string \<Rightarrow> nat \<Rightarrow> Projection list \<Rightarrow> block_error list"
  and validateProjection :: "Local option list \<Rightarrow> string \<Rightarrow> Projection \<Rightarrow> block_error list" where
  "validateOperand ls ctx NilOp = [OperandNil ctx]"
| "validateOperand ls ctx (CopyOp p t) = when_err (t = None) (OperandNilType ctx) @ validatePlace ls (ctx @ ''.Place'') p"
| "validateOperand ls ctx (MoveOp p t) = when_err (t = None) (OperandNilType ctx) @ validatePlace ls (ctx @ ''.Place'') p"
| "validateOperand ls ctx (ConstOp c t) =
     when_err (Operand_Type (ConstOp c t) = None) (OperandNilType ctx) @ when_err (c = NilConst) (ConstNil ctx)"
| "validatePlace ls ctx (Place l ps) =
     (if l \<ge> length ls then [LocalRange ctx l] else if ls ! l = None then [LocalNil ctx l] else validateProjections ls ctx 0 ps)"
| "validateProjections ls ctx i [] = []"
| "validateProjections ls ctx i (p # ps) =
     validateProjection ls (ctx @ ''.Projections['' @ itoa i @ '']'') p @ validateProjections ls ctx (i + 1) ps"
| "validateProjection ls ctx NilProj = [ProjNil ctx]"
| "validateProjection ls ctx (FieldProj i n t) =
     when_err (t = None) (ProjNilType ctx ''FieldProj'') @ when_err (i < 0) (ProjNegative ctx ''FieldProj'' i)"
| "validateProjection ls ctx (TupleProj i t) =
     when_err (t = None) (ProjNilType ctx ''TupleProj'') @ when_err (i < 0) (ProjNegative ctx ''TupleProj'' i)"
| "validateProjection ls ctx (VariantProj v n i t) = when_err (t = None) (ProjNilType ctx ''VariantProj'')"
| "validateProjection ls ctx (IndexProj op t) =
     when_err (t = None) (ProjNilType ctx ''IndexProj'') @ validateOperand ls (ctx @ ''.Index'') op"
| "validateProjection ls ctx (DerefProj t) = when_err (t = None) (ProjNilType ctx ''DerefProj'')"

fun validate_args :: "Local option list \<Rightarrow> string \<Rightarrow> nat \<Rightarrow> Operand list \<Rightarrow> block_error list" where
  "validate_args ls ctx i [] = []"
| "validate_args ls ctx i (op # ops) = validateOperand ls (ctx @ ''['' @ itoa i @ '']'') op @ validate_args ls ctx (i + 1) ops"

section \<open>Instructions\<close>

fun validateRValue :: "Local option list \<Rightarrow> RValue \<Rightarrow> block_error list" where
  "validateRValue ls (UseRV op) = validateOperand ls ''UseRV'' op"
| "validateRValue ls (UnaryRV u a t) = when_err (t = None) (RValueNilType ''UnaryRV'') @ validateOperand ls ''UnaryRV.Arg'' a"
| "validateRValue ls (BinaryRV b l r t) = when_err (t = None) (RValueNilType ''BinaryRV'') @
     validateOperand ls ''BinaryRV.Left'' l @ validateOperand ls ''BinaryRV.Right'' r"
| "validateRValue ls (AggregateRV k fs t vi vt) = when_err (t = None) (RValueNilType ''AggregateRV'') @
     when_err (k = AggInvalid) (RValueZeroKind ''AggregateRV'') @ validate_args ls ''AggregateRV.Fields'' 0 fs"
| "validateRValue ls (DiscriminantRV p t) = validatePlace ls ''DiscriminantRV.Place'' p @ when_err (t = None) (RValueNilType ''DiscriminantRV'')"
| "validateRValue ls (LenRV p t) = validatePlace ls ''LenRV.Place'' p @ when_err (t = None) (RValueNilType ''LenRV'')"
| "validateRValue ls (CastRV c a f t) = validateOperand ls ''CastRV.Arg'' a @ when_err (f = None \<or> t = None) CastNilType"
| "validateRValue ls (AddressOfRV p t) = validatePlace ls ''AddressOfRV.Place'' p"
| "validateRValue ls (RefRV p t) = validatePlace ls ''RefRV.Place'' p"
| "validateRValue ls (NullaryRV k t) = when_err (k = NullaryInvalid) (RValueZeroKind ''NullaryRV'') @ when_err (t = None) (RValueNilType ''NullaryRV'')"
| "validateRValue ls (GlobalRefRV g t) = when_err (g = []) GlobalRefEmpty @ when_err (t = None) (RValueNilType ''GlobalRefRV'')"
| "validateRValue ls NilRV = [RValueUnknown]"

fun validateCallee :: "Local option list \<Rightarrow> Callee \<Rightarrow> block_error list" where
  "validateCallee ls NilCallee = [CalleeNil]"
| "validateCallee ls (FnRef f t) = when_err (f = []) EmptySymbol"
| "validateCallee ls (IndirectCall op) = (if op = NilOp then [IndirectNil] else validateOperand ls ''IndirectCall.Callee'' op)"

definition validateStorageTarget :: "Local option list \<Rightarrow> nat \<Rightarrow> LocalID \<Rightarrow> string \<Rightarrow> block_error list" where
  "validateStorageTarget ls idx l kind =
     (if l \<ge> length ls then [StorageRange idx kind l]
      else (case ls ! l of None \<Rightarrow> []
            | Some loc \<Rightarrow> when_err (IsParam loc) (StorageParam idx kind l) @ when_err (IsReturn loc) (StorageReturn idx kind l)))"

definition validate_dest :: "Local option list \<Rightarrow> string \<Rightarrow> Place option \<Rightarrow> block_error list" where
  "validate_dest ls ctx d = (case d of None \<Rightarrow> [] | Some p \<Rightarrow> validatePlace ls ctx p)"

fun validateInstr :: "Local option list \<Rightarrow> nat \<Rightarrow> Instr \<Rightarrow> block_error list" where
  "validateInstr ls idx (AssignInstr d src) = validatePlace ls ''AssignInstr.Dest'' d @
     (if src = NilRV then [NilSrc idx] else validateRValue ls src)"
| "validateInstr ls idx (CallInstr d c args) = validate_dest ls ''CallInstr.Dest'' d @ validateCallee ls c @ validate_args ls ''CallInstr.Args'' 0 args"
| "validateInstr ls idx (IntrinsicInstr d k args) = validate_dest ls ''IntrinsicInstr.Dest'' d @
     when_err (k = IntrinsicInvalid) (IntrinsicIsInvalid idx) @ validate_args ls ''IntrinsicInstr.Args'' 0 args"
| "validateInstr ls idx (StorageLiveInstr l) = validateStorageTarget ls idx l ''StorageLive''"
| "validateInstr ls idx (StorageDeadInstr l) = validateStorageTarget ls idx l ''StorageDead''"
| "validateInstr ls idx NilInstr = [InstrNil idx]"

fun validate_instrs :: "Local option list \<Rightarrow> nat \<Rightarrow> Instr list \<Rightarrow> block_error list" where
  "validate_instrs ls i [] = []"
| "validate_instrs ls i (x # xs) = validateInstr ls i x @ validate_instrs ls (i + 1) xs"

section \<open>Blocks\<close>

definition validateBlockRef :: "nat \<Rightarrow> BlockID \<Rightarrow> string \<Rightarrow> block_error list" where
  "validateBlockRef n target ctx = when_err (target \<ge> n) (TargetRange ctx target)"

text \<open>The loop over the cases of a switch; \<open>seen\<close> holds the values met with their positions.\<close>

fun validate_cases :: "nat \<Rightarrow> (int \<times> nat) list \<Rightarrow> nat \<Rightarrow> SwitchCase list \<Rightarrow> block_error list" where
  "validate_cases n seen i [] = []"
| "validate_cases n seen i (c # cs) =
     validateBlockRef n (case_Target c) (''SwitchInt.Cases['' @ itoa i @ '']'') @
     (case map_of seen (case_Value c) of
        Some prev \<Rightarrow> CaseDuplicate i (case_Value c) prev # validate_cases n seen (i + 1) cs
      | None \<Rightarrow> validate_cases n ((case_Value c, i) # seen) (i + 1) cs)"

fun validateTerm :: "Local option list \<Rightarrow> nat \<Rightarrow> Terminator \<Rightarrow> block_error list" where
  "validateTerm ls n (GotoTerm t) = validateBlockRef n t ''Goto.Target''"
| "validateTerm ls n (BranchTerm c t e) = validateOperand ls ''Branch.Cond'' c @ validateBlockRef n t ''Branch.Then'' @ validateBlockRef n e ''Branch.Else''"
| "validateTerm ls n (SwitchIntTerm s cs d) =
     validateOperand ls ''SwitchInt.Scrutinee'' s @ validate_cases n [] 0 cs @ validateBlockRef n d ''SwitchInt.Default''"
| "validateTerm ls n ReturnTerm = []"
| "validateTerm ls n UnreachableTerm = []"
| "validateTerm ls n NilTerm = [MissingTerminator]"

definition validateBlock :: "Local option list \<Rightarrow> nat \<Rightarrow> BasicBlock \<Rightarrow> block_error list" where
  "validateBlock ls n bb = validate_instrs ls 0 (Instrs bb) @ validateTerm ls n (Term bb)"

fun validate_blocks :: "Local option list \<Rightarrow> nat \<Rightarrow> nat \<Rightarrow> BasicBlock option list \<Rightarrow> function_error list" where
  "validate_blocks ls n i [] = []"
| "validate_blocks ls n i (None # bs) = BlockNil i # validate_blocks ls n (i + 1) bs"
| "validate_blocks ls n i (Some bb # bs) =
     when_err (block_ID bb \<noteq> i) (BlockIDDiffers i (block_ID bb)) @ map (InBlock (block_ID bb)) (validateBlock ls n bb) @
     validate_blocks ls n (i + 1) bs"

section \<open>Functions and modules\<close>

definition validate_return :: "Function \<Rightarrow> function_error list" where
  "validate_return fn =
     (if IsExternal fn \<or> IsIntrinsic fn then []
      else if ReturnLocal fn \<ge> length (Locals fn) then [ReturnLocalRange (ReturnLocal fn)]
      else (case Locals fn ! ReturnLocal fn of None \<Rightarrow> [ReturnLocalNil (ReturnLocal fn)]
            | Some ret \<Rightarrow> when_err (\<not> IsReturn ret) (ReturnNotMarked (ReturnLocal fn)) @
                when_err (ReturnType fn \<noteq> None \<and> loc_Type ret \<noteq> None \<and> typeString (loc_Type ret) \<noteq> typeString (ReturnType fn))
                  (ReturnTypeDiffers (ReturnLocal fn) (typeString (loc_Type ret)) (typeString (ReturnType fn)))))"

text \<open>The parameters, with the set of those seen.\<close>

fun validate_params :: "Local option list \<Rightarrow> nat \<Rightarrow> LocalID list \<Rightarrow> LocalID list \<Rightarrow> function_error list \<times> LocalID list" where
  "validate_params ls i [] seen = ([], seen)"
| "validate_params ls i (p # ps) seen =
     (if p \<ge> length ls then (let r = validate_params ls (i + 1) ps seen in (ParamRange i p # fst r, snd r))
      else if p \<in> set seen then (let r = validate_params ls (i + 1) ps seen in (ParamTwice i p # fst r, snd r))
      else (let r = validate_params ls (i + 1) ps (p # seen) in
            case ls ! p of None \<Rightarrow> (ParamNil i p # fst r, snd r)
            | Some loc \<Rightarrow> (when_err (\<not> IsParam loc) (ParamNotMarked i p) @ fst r, snd r)))"

fun validate_locals :: "Function \<Rightarrow> LocalID list \<Rightarrow> nat \<Rightarrow> bool \<Rightarrow> Local option list \<Rightarrow> function_error list" where
  "validate_locals fn ps i seen [] = []"
| "validate_locals fn ps i seen (None # ls) = LocalIsNil i # validate_locals fn ps (i + 1) seen ls"
| "validate_locals fn ps i seen (Some loc # ls) =
     when_err (loc_ID loc \<noteq> i) (LocalIDDiffers i (loc_ID loc)) @ when_err (loc_Type loc = None) (LocalNilType i (loc_ID loc)) @
     when_err (IsParam loc \<and> loc_ID loc \<notin> set ps) (LocalNotParam i (loc_ID loc)) @
     (if IsReturn loc then
        when_err (\<not> IsExternal fn \<and> \<not> IsIntrinsic fn \<and> loc_ID loc \<noteq> ReturnLocal fn) (LocalNotReturn i (loc_ID loc)) @
        when_err seen (ReturnAgain i (loc_ID loc)) @ validate_locals fn ps (i + 1) True ls
      else validate_locals fn ps (i + 1) seen ls)"

definition validateFunction :: "Function \<Rightarrow> function_error list" where
  "validateFunction fn =
     (let r = validate_params (Locals fn) 0 (Params fn) [] in
      when_err (ReturnType fn = None) ReturnTypeNil @ validate_return fn @ fst r @ validate_locals fn (snd r) 0 False (Locals fn) @
      (if IsExternal fn \<or> IsIntrinsic fn then when_err (Blocks fn \<noteq> []) ExternalHasBlocks
       else if Blocks fn = [] then [NoBlocks]
       else when_err (Entry fn \<ge> length (Blocks fn)) (EntryRange (Entry fn)) @
            validate_blocks (Locals fn) (length (Blocks fn)) 0 (Blocks fn)))"

definition validateGlobal :: "Global \<Rightarrow> module_error list" where
  "validateGlobal g = when_err (glob_Name g = []) GlobalNoName @ when_err (glob_Type g = None) (GlobalNilType (glob_Name g)) @
     (case Init g of None \<Rightarrow> [] | Some fn \<Rightarrow> map (InFunction (fn_Name fn)) (validateFunction fn))"

fun validate_functions :: "nat \<Rightarrow> string list \<Rightarrow> Function option list \<Rightarrow> module_error list" where
  "validate_functions i names [] = []"
| "validate_functions i names (None # fs) = FunctionNil i # validate_functions (i + 1) names fs"
| "validate_functions i names (Some fn # fs) =
     when_err (fn_Name fn = []) (FunctionNoName i) @ when_err (fn_Name fn \<in> set names) (DuplicateSymbol (fn_Name fn)) @
     map (InFunction (fn_Name fn)) (validateFunction fn) @ validate_functions (i + 1) (fn_Name fn # names) fs"

fun validate_globals :: "nat \<Rightarrow> Global option list \<Rightarrow> module_error list" where
  "validate_globals i [] = []"
| "validate_globals i (None # gs) = GlobalNil i # validate_globals (i + 1) gs"
| "validate_globals i (Some g # gs) = validateGlobal g @ validate_globals (i + 1) gs"

definition Validate :: "Module \<Rightarrow> module_error list" where
  "Validate m = when_err (mod_Package m = []) EmptyPackage @ validate_functions 0 [] (Functions m) @ validate_globals 0 (Globals m)"

section \<open>Valid code\<close>

text \<open>The same checks as predicates, without the places they are reported at.\<close>

fun op_ok :: "Local option list \<Rightarrow> Operand \<Rightarrow> bool"
  and place_ok :: "Local option list \<Rightarrow> Place \<Rightarrow> bool"
  and proj_ok :: "Local option list \<Rightarrow> Projection \<Rightarrow> bool" where
  "op_ok ls NilOp = False"
| "op_ok ls (CopyOp p t) = (t \<noteq> None \<and> place_ok ls p)"
| "op_ok ls (MoveOp p t) = (t \<noteq> None \<and> place_ok ls p)"
| "op_ok ls (ConstOp c t) = (c \<noteq> NilConst)"
| "place_ok ls (Place l ps) = (l < length ls \<and> ls ! l \<noteq> None \<and> (\<forall>p \<in> set ps. proj_ok ls p))"
| "proj_ok ls NilProj = False"
| "proj_ok ls (FieldProj i n t) = (t \<noteq> None \<and> i \<ge> 0)"
| "proj_ok ls (TupleProj i t) = (t \<noteq> None \<and> i \<ge> 0)"
| "proj_ok ls (VariantProj v n i t) = (t \<noteq> None)"
| "proj_ok ls (IndexProj op t) = (t \<noteq> None \<and> op_ok ls op)"
| "proj_ok ls (DerefProj t) = (t \<noteq> None)"

lemma const_typed: "c \<noteq> NilConst \<Longrightarrow> Operand_Type (ConstOp c t) \<noteq> None"
  by (cases c) (auto simp: or_type_def split: option.split)

lemma validate_ok:
  "validateOperand ls ctx op = [] \<longleftrightarrow> op_ok ls op"
  "validatePlace ls ctx p = [] \<longleftrightarrow> place_ok ls p"
  "validateProjections ls ctx i ps = [] \<longleftrightarrow> (\<forall>q \<in> set ps. proj_ok ls q)"
  "validateProjection ls ctx pr = [] \<longleftrightarrow> proj_ok ls pr"
proof (induction ls ctx op and ls ctx p and ls ctx i ps and ls ctx pr
    rule: validateOperand_validatePlace_validateProjections_validateProjection.induct)
  case (4 ls ctx c t)
  then show ?case using const_typed [of c t] by (auto simp del: Operand_Type.simps)
qed auto

lemma validate_args_ok: "validate_args ls ctx i ops = [] \<longleftrightarrow> list_all (op_ok ls) ops"
  by (induction ls ctx i ops rule: validate_args.induct) (simp_all add: validate_ok)

fun rv_ok :: "Local option list \<Rightarrow> RValue \<Rightarrow> bool" where
  "rv_ok ls (UseRV op) = op_ok ls op"
| "rv_ok ls (UnaryRV u a t) = (t \<noteq> None \<and> op_ok ls a)"
| "rv_ok ls (BinaryRV b l r t) = (t \<noteq> None \<and> op_ok ls l \<and> op_ok ls r)"
| "rv_ok ls (AggregateRV k fs t vi vt) = (t \<noteq> None \<and> k \<noteq> AggInvalid \<and> list_all (op_ok ls) fs)"
| "rv_ok ls (DiscriminantRV p t) = (place_ok ls p \<and> t \<noteq> None)"
| "rv_ok ls (LenRV p t) = (place_ok ls p \<and> t \<noteq> None)"
| "rv_ok ls (CastRV c a f t) = (op_ok ls a \<and> f \<noteq> None \<and> t \<noteq> None)"
| "rv_ok ls (AddressOfRV p t) = place_ok ls p"
| "rv_ok ls (RefRV p t) = place_ok ls p"
| "rv_ok ls (NullaryRV k t) = (k \<noteq> NullaryInvalid \<and> t \<noteq> None)"
| "rv_ok ls (GlobalRefRV g t) = (g \<noteq> [] \<and> t \<noteq> None)"
| "rv_ok ls NilRV = False"

lemma validateRValue_ok: "validateRValue ls rv = [] \<longleftrightarrow> rv_ok ls rv"
  by (cases rv) (auto simp: validate_ok validate_args_ok)

fun callee_ok :: "Local option list \<Rightarrow> Callee \<Rightarrow> bool" where
  "callee_ok ls NilCallee = False"
| "callee_ok ls (FnRef f t) = (f \<noteq> [])"
| "callee_ok ls (IndirectCall op) = op_ok ls op"

definition dest_ok :: "Local option list \<Rightarrow> Place option \<Rightarrow> bool" where
  "dest_ok ls d = (case d of None \<Rightarrow> True | Some p \<Rightarrow> place_ok ls p)"

fun storage_ok :: "Local option list \<Rightarrow> LocalID \<Rightarrow> bool" where
  "storage_ok ls l = (l < length ls \<and> (case ls ! l of None \<Rightarrow> True | Some loc \<Rightarrow> \<not> IsParam loc \<and> \<not> IsReturn loc))"

fun instr_valid :: "Local option list \<Rightarrow> Instr \<Rightarrow> bool" where
  "instr_valid ls (AssignInstr d src) = (place_ok ls d \<and> rv_ok ls src)"
| "instr_valid ls (CallInstr d c args) = (dest_ok ls d \<and> callee_ok ls c \<and> list_all (op_ok ls) args)"
| "instr_valid ls (IntrinsicInstr d k args) = (dest_ok ls d \<and> k \<noteq> IntrinsicInvalid \<and> list_all (op_ok ls) args)"
| "instr_valid ls (StorageLiveInstr l) = storage_ok ls l"
| "instr_valid ls (StorageDeadInstr l) = storage_ok ls l"
| "instr_valid ls NilInstr = False"

lemma validateInstr_ok: "validateInstr ls i x = [] \<longleftrightarrow> instr_valid ls x"
proof -
  have "validateCallee ls c = [] \<longleftrightarrow> callee_ok ls c" for c by (cases c) (auto simp: validate_ok)
  moreover have "validate_dest ls ctx d = [] \<longleftrightarrow> dest_ok ls d" for ctx d
    by (auto simp: validate_dest_def dest_ok_def validate_ok split: option.split)
  moreover have "validateStorageTarget ls i l k = [] \<longleftrightarrow> storage_ok ls l" for l k
    by (auto simp: validateStorageTarget_def split: option.split)
  ultimately show ?thesis by (cases x) (auto simp: validateRValue_ok validate_ok validate_args_ok)
qed

lemma validate_instrs_ok: "validate_instrs ls i xs = [] \<longleftrightarrow> list_all (instr_valid ls) xs"
  by (induction ls i xs rule: validate_instrs.induct) (simp_all add: validateInstr_ok)

lemma validate_cases_ok:
  "validate_cases n seen i cs = [] \<longleftrightarrow>
    (\<forall>c \<in> set cs. case_Target c < n \<and> case_Value c \<notin> fst ` set seen) \<and> distinct (map case_Value cs)"
proof (induction n seen i cs rule: validate_cases.induct)
  case (2 n seen i c cs)
  show ?case
  proof (cases "map_of seen (case_Value c)")
    case None
    then have "case_Value c \<notin> fst ` set seen" by (simp add: map_of_eq_None_iff)
    moreover have "(\<forall>d \<in> set cs. case_Target d < n \<and> case_Value d \<notin> fst ` set ((case_Value c, i) # seen)) \<longleftrightarrow>
        (\<forall>d \<in> set cs. case_Target d < n \<and> case_Value d \<notin> fst ` set seen) \<and> case_Value c \<notin> case_Value ` set cs"
      by (force simp: image_iff)
    ultimately show ?thesis using "2.IH"(1) [OF None] None unfolding validate_cases.simps None by (auto simp: validateBlockRef_def)
  next
    case (Some prev)
    then have "case_Value c \<in> fst ` set seen" by (metis map_of_eq_None_iff option.distinct(1))
    then show ?thesis using Some by simp
  qed
qed simp

fun term_ok :: "Local option list \<Rightarrow> nat \<Rightarrow> Terminator \<Rightarrow> bool" where
  "term_ok ls n (GotoTerm t) = (t < n)"
| "term_ok ls n (BranchTerm c t e) = (op_ok ls c \<and> t < n \<and> e < n)"
| "term_ok ls n (SwitchIntTerm s cs d) = (op_ok ls s \<and> (\<forall>c \<in> set cs. case_Target c < n) \<and> distinct (map case_Value cs) \<and> d < n)"
| "term_ok ls n ReturnTerm = True"
| "term_ok ls n UnreachableTerm = True"
| "term_ok ls n NilTerm = False"

lemma validateTerm_ok: "validateTerm ls n t = [] \<longleftrightarrow> term_ok ls n t"
  by (cases t) (auto simp: validate_ok validate_cases_ok validateBlockRef_def)

definition block_ok :: "Local option list \<Rightarrow> nat \<Rightarrow> BasicBlock \<Rightarrow> bool" where
  "block_ok ls n bb \<longleftrightarrow> list_all (instr_valid ls) (Instrs bb) \<and> term_ok ls n (Term bb)"

lemma validate_blocks_ok:
  "validate_blocks ls n i bs = [] \<longleftrightarrow> (\<forall>j < length bs. \<exists>bb. bs ! j = Some bb \<and> block_ID bb = i + j \<and> block_ok ls n bb)"
proof (induction ls n i bs rule: validate_blocks.induct)
  case (2 ls n i bs)
  then show ?case by (auto intro!: exI [of _ 0])
next
  case (3 ls n i bb bs)
  show ?case unfolding validate_blocks.simps All_less_Suc2 list.size
    using "3.IH" by (auto simp: block_ok_def validateBlock_def validate_instrs_ok validateTerm_ok All_less_Suc2)
qed simp

text \<open>What validity says of the body of a function.\<close>

definition blocks_ok :: "Function \<Rightarrow> bool" where
  "blocks_ok fn \<longleftrightarrow> Blocks fn \<noteq> [] \<and> Entry fn < length (Blocks fn) \<and>
     (\<forall>j < length (Blocks fn). \<exists>bb. Blocks fn ! j = Some bb \<and> block_ID bb = j \<and> block_ok (Locals fn) (length (Blocks fn)) bb)"

definition head_ok :: "Function \<Rightarrow> bool" where
  "head_ok fn \<longleftrightarrow> (let r = validate_params (Locals fn) 0 (Params fn) [] in
     ReturnType fn \<noteq> None \<and> validate_return fn = [] \<and> fst r = [] \<and> validate_locals fn (snd r) 0 False (Locals fn) = [])"

lemma validateFunction_ok:
  assumes "\<not> IsExternal fn" "\<not> IsIntrinsic fn"
  shows "validateFunction fn = [] \<longleftrightarrow> head_ok fn \<and> blocks_ok fn"
  using assms by (auto simp: validateFunction_def head_ok_def blocks_ok_def Let_def validate_blocks_ok)

lemma head_ok_body: "head_ok (fn\<lparr>Blocks := bs\<rparr>) = head_ok fn" "head_ok (fn\<lparr>Entry := e\<rparr>) = head_ok fn"
proof -
  have "validate_locals (fn\<lparr>Blocks := bs\<rparr>) ps i seen ls = validate_locals fn ps i seen ls"
      "validate_locals (fn\<lparr>Entry := e\<rparr>) ps i seen ls = validate_locals fn ps i seen ls" for ps i seen ls
    by (induction fn ps i seen ls rule: validate_locals.induct) simp_all
  moreover have "validate_return (fn\<lparr>Blocks := bs\<rparr>) = validate_return fn" "validate_return (fn\<lparr>Entry := e\<rparr>) = validate_return fn"
    by (simp_all add: validate_return_def split: option.split)
  ultimately show "head_ok (fn\<lparr>Blocks := bs\<rparr>) = head_ok fn" "head_ok (fn\<lparr>Entry := e\<rparr>) = head_ok fn"
    by (simp_all add: head_ok_def)
qed

end
