(* ===== verification/MIR_Valid_Passes.thy ===== *)
theory MIR_Valid_Passes
  imports MIR_Correct MIR_Validate
begin

text \<open>
  The validator of \<^verbatim>\<open>validate.go\<close> and the passes of \<^verbatim>\<open>optimize.go\<close> together: a function the validator
  accepts is still accepted after each pass, hence after the loop that repeats them.
\<close>

section \<open>Constant propagation\<close>

definition consts_ok :: "known \<Rightarrow> bool" where
  "consts_ok k \<longleftrightarrow> (\<forall>l x. map_of k l = Some x \<longrightarrow> fst x \<noteq> NilConst)"

lemma consts_okD: "consts_ok k \<Longrightarrow> map_of k l = Some x \<Longrightarrow> fst x \<noteq> NilConst"
  unfolding consts_ok_def by blast

lemma rewrite_op_ok:
  assumes "consts_ok k" "op_ok ls op"
  shows "op_ok ls (rewrite_op k op)"
proof (cases "substituteConst op k")
  case (Some co)
  then have "fst co \<noteq> NilConst" using consts_okD [OF assms(1)]
    by (auto simp: substituteConst_def split: Operand.splits if_splits)
  then show ?thesis using Some by (simp add: rewrite_op_def)
qed (simp add: rewrite_op_def assms(2))

lemma rewrite_ops_ok: "consts_ok k \<Longrightarrow> list_all (op_ok ls) ops \<Longrightarrow> list_all (op_ok ls) (map (rewrite_op k) ops)"
  by (simp add: list_all_iff rewrite_op_ok)

lemma rewritePlace_ok:
  assumes "consts_ok k" "place_ok ls p"
  shows "place_ok ls (rewritePlaceProjections k p)"
proof -
  have "proj_ok ls (rewrite_proj k q)" if "proj_ok ls q" for q
    using that by (cases q) (simp_all add: rewrite_op_ok [OF assms(1)])
  then show ?thesis using assms(2) by (cases p) (simp add: rewritePlaceProjections_def)
qed

lemmas rewrite_ok = rewrite_op_ok rewrite_ops_ok rewritePlace_ok

lemma rewriteRValue_ok: "consts_ok k \<Longrightarrow> rv_ok ls rv \<Longrightarrow> rv_ok ls (rewriteRValue k rv)"
  by (cases rv) (simp_all add: rewrite_ok)

lemma prop_instr_valid:
  assumes "consts_ok k" "instr_valid ls i"
  shows "instr_valid ls (fst (prop_instr k i))" "consts_ok (snd (prop_instr k i))"
proof -
  have dest: "dest_ok ls (map_option (rewritePlaceProjections k) d)" if "dest_ok ls d" for d
    using that by (cases d) (simp_all add: dest_ok_def rewritePlace_ok [OF assms(1)])
  have callee: "callee_ok ls (rewrite_callee k c)" if "callee_ok ls c" for c
    using that by (cases c) (simp_all add: rewrite_op_ok [OF assms(1)])
  show "instr_valid ls (fst (prop_instr k i))"
    using assms dest callee by (cases i) (simp_all add: Let_def rewrite_ok rewriteRValue_ok del: storage_ok.simps)
  have drop: "consts_ok (AList.delete l k)" for l
    using assms(1) unfolding consts_ok_def map_of_delete by (metis option.distinct(1))
  have upd: "consts_ok (AList.update l (c, t) k)" if "c \<noteq> NilConst" for l c t
    using that assms(1) unfolding consts_ok_def map_of_update by (metis fst_conv option.inject)
  show "consts_ok (snd (prop_instr k i))"
  proof (cases i)
    case (AssignInstr d src)
    then have "rv_ok ls (rewriteRValue k src)" using assms rewriteRValue_ok by simp
    then show ?thesis using AssignInstr drop upd
      by (auto simp: Let_def track_def split: RValue.split Operand.split)
  qed (use assms(1) drop in \<open>auto simp: forget_def split: option.split\<close>)
qed

lemma prop_instrs_valid:
  assumes "consts_ok k" "list_all (instr_valid ls) is"
  shows "list_all (instr_valid ls) (fst (prop_instrs k is))" "consts_ok (snd (prop_instrs k is))"
  using assms
proof (induction "is" arbitrary: k)
  case (Cons i "is")
  {
    case 1
    then show ?case using Cons.IH(1) prop_instr_valid [of k ls i] by (simp add: split_beta)
  next
    case 2
    then show ?case using Cons.IH(2) prop_instr_valid [of k ls i] by (simp add: split_beta)
  }
qed simp_all

lemma switch_target_range: "\<forall>c \<in> set cs. case_Target c < n \<Longrightarrow> d < n \<Longrightarrow> switch_target v cs d < n"
  by (induction v cs d rule: switch_target.induct) simp_all

lemma fold_term_ok:
  assumes "consts_ok k" "term_ok ls n t"
  shows "term_ok ls n (foldTerminator (prop_term k t))"
proof -
  have "term_ok ls n (prop_term k t)" using assms by (cases t) (simp_all add: rewrite_op_ok)
  then show ?thesis
    by (auto simp: foldTerminator_def switch_target_range split: Terminator.splits Operand.splits Const.splits)
qed

lemma propagateBlock_ok:
  assumes "consts_ok k" "block_ok ls n bb"
  shows "block_ok ls n (propagateBlockWithSeed bb k)" "block_ID (propagateBlockWithSeed bb k) = block_ID bb"
  using assms prop_instrs_valid [of k ls "Instrs bb"] fold_term_ok
  by (auto simp: block_ok_def propagateBlockWithSeed_def split_beta)

text \<open>What the validator demands of a list of blocks.\<close>

definition body_ok :: "Local option list \<Rightarrow> BasicBlock option list \<Rightarrow> bool" where
  "body_ok ls bs \<longleftrightarrow> (\<forall>j < length bs. \<exists>bb. bs ! j = Some bb \<and> block_ID bb = j \<and> block_ok ls (length bs) bb)"

lemma body_okD: "body_ok ls bs \<Longrightarrow> j < length bs \<Longrightarrow> \<exists>bb. bs ! j = Some bb \<and> block_ID bb = j \<and> block_ok ls (length bs) bb"
  by (simp add: body_ok_def)

lemma blocks_ok_body: "blocks_ok fn \<longleftrightarrow> Blocks fn \<noteq> [] \<and> Entry fn < length (Blocks fn) \<and> body_ok (Locals fn) (Blocks fn)"
  by (simp add: blocks_ok_def body_ok_def)

lemma body_ids_ok: "body_ok (Locals fn) (Blocks fn) \<Longrightarrow> ids_ok fn"
  using body_okD by (fastforce simp: ids_ok_def)

lemma propagated_body_ok:
  assumes "sound_entries fn es" "body_ok (Locals fn) (Blocks fn)"
  shows "body_ok (Locals fn) (Blocks (propagated fn es))"
  unfolding body_ok_def
proof (intro allI impI)
  fix j
  assume "j < length (Blocks (propagated fn es))"
  then have j: "j < length (Blocks fn)" "j < length es" using assms(1) by (simp_all add: propagated_def sound_entries_def)
  let ?k = "case es ! j of None \<Rightarrow> [] | Some s \<Rightarrow> s"
  obtain bb where bb: "Blocks fn ! j = Some bb" "block_ID bb = j" "block_ok (Locals fn) (length (Blocks fn)) bb"
    using body_okD [OF assms(2) j(1)] by blast
  have "consts_ok ?k" using sound_ordinary [OF assms(1) j(2)]
    by (cases "es ! j") (fastforce simp: consts_ok_def ordinary_def)+
  then show "\<exists>bb. Blocks (propagated fn es) ! j = Some bb \<and> block_ID bb = j \<and>
      block_ok (Locals fn) (length (Blocks (propagated fn es))) bb"
    using propagateBlock_ok [of ?k] bb j assms(1) by (simp add: propagated_def sound_entries_def)
qed

section \<open>Empty blocks\<close>

lemma resolve_range:
  assumes "body_ok ls bs" "target < length bs"
  shows "resolve bs seen target < length bs"
  using assms
proof (induction bs seen target rule: resolve.induct)
  case (1 bs seen target)
  obtain bb where bb: "bs ! target = Some bb" "block_ok ls (length bs) bb" using body_okD [OF "1.prems"] by blast
  show ?case
  proof (cases "target \<notin> set seen \<and> Instrs bb = [] \<and> (\<exists>t. Term bb = GotoTerm t)")
    case True
    then obtain t where t: "Term bb = GotoTerm t" by blast
    then have "resolve bs (target # seen) t < length bs"
      using "1.IH" [of bb t] "1.prems" bb True by (simp add: block_ok_def)
    then show ?thesis using True t bb "1.prems"(2) by (subst resolve.simps) simp
  qed (use bb "1.prems"(2) in \<open>subst resolve.simps, auto split: Terminator.splits\<close>)
qed

lemma retarget_body_ok:
  assumes "body_ok ls bs" "i < length bs"
  shows "body_ok ls (retarget_block i bs)" "length (retarget_block i bs) = length bs"
proof -
  obtain bb where bb: "bs ! i = Some bb" "block_ID bb = i" "block_ok ls (length bs) bb" using body_okD [OF assms] by blast
  have "term_ok ls (length bs) (retarget_term bs (Term bb))"
    using bb(3) resolve_range [OF assms(1)] by (cases "Term bb") (auto simp: block_ok_def comp_def)
  then show "body_ok ls (retarget_block i bs)" "length (retarget_block i bs) = length bs"
    using assms bb by (auto simp: body_ok_def retarget_block_def block_ok_def nth_list_update)
qed

lemma retargets_body_ok:
  "body_ok ls bs \<Longrightarrow> list_all (\<lambda>i. i < length bs) is \<Longrightarrow>
    body_ok ls (fold retarget_block is bs) \<and> length (fold retarget_block is bs) = length bs"
proof (induction "is" arbitrary: bs)
  case (Cons i "is")
  then show ?case using retarget_body_ok [of ls bs i] Cons.IH [of "retarget_block i bs"] by simp
qed simp

section \<open>Every pass keeps validity\<close>

definition valid_fn :: "Function \<Rightarrow> bool" where
  "valid_fn fn \<longleftrightarrow> \<not> IsExternal fn \<and> \<not> IsIntrinsic fn \<and> validateFunction fn = []"

lemma valid_fn_iff: "valid_fn fn \<longleftrightarrow> \<not> IsExternal fn \<and> \<not> IsIntrinsic fn \<and> head_ok fn \<and>
    Blocks fn \<noteq> [] \<and> Entry fn < length (Blocks fn) \<and> body_ok (Locals fn) (Blocks fn)"
  unfolding valid_fn_def using validateFunction_ok [of fn] blocks_ok_body by auto

lemma copyPropagate_valid:
  assumes "valid_fn fn" "ordinary_fn fn" "copyPropagateFn fn = Some fn'"
  shows "valid_fn fn'"
proof -
  have b: "Blocks fn \<noteq> []" "body_ok (Locals fn) (Blocks fn)" using assms(1) by (simp_all add: valid_fn_iff)
  obtain es xs where e: "computeBlockStates fn = Some (es, xs)" "sound_entries fn es"
    using computeBlockStates_total [OF body_ids_ok [OF b(2)] assms(2)] by blast
  have "fn' = propagated fn es" using assms(3) e(1) b(1) by (simp add: copyPropagateFn_def propagated_def)
  moreover have "length (Blocks (propagated fn es)) = length (Blocks fn)" using e(2) by (simp add: propagated_def sound_entries_def)
  ultimately show ?thesis using propagated_body_ok [OF e(2) b(2)] assms(1) b(1)
    by (auto simp: valid_fn_iff propagated_def head_ok_body)
qed

lemma collapse_valid: "valid_fn fn \<Longrightarrow> valid_fn (collapseEmptyGotos fn)"
proof -
  assume v: "valid_fn fn"
  let ?bs = "fold retarget_block [0..<length (Blocks fn)] (Blocks fn)"
  have b: "body_ok (Locals fn) ?bs" "length ?bs = length (Blocks fn)"
    using v retargets_body_ok [of "Locals fn" "Blocks fn" "[0..<length (Blocks fn)]"] by (simp_all add: valid_fn_iff list_all_iff)
  then have "?bs \<noteq> []" using v by (auto simp: valid_fn_iff)
  then show ?thesis using v b resolve_range [OF b(1), of "Entry fn" "[]"]
    by (simp add: valid_fn_iff collapseEmptyGotos_def Let_def head_ok_body)
qed

lemma dead_valid:
  assumes "valid_fn fn"
  shows "valid_fn (deadAssignElim fn)"
proof -
  let ?r = "collectLocalReads fn"
  have "instr_valid ls j" if "dead_instr fn ?r i = Some j" "instr_valid ls i" for ls i j
    using that by (cases i) (auto simp: dead_dest_def dest_ok_def split: if_splits option.splits)
  then have "list_all (instr_valid ls) (List.map_filter (dead_instr fn ?r) is)" if "list_all (instr_valid ls) is" for ls "is"
    using that by (fastforce simp: list_all_iff List.map_filter_def)
  then have "block_ok ls n (bb\<lparr>Instrs := List.map_filter (dead_instr fn ?r) (Instrs bb)\<rparr>)" if "block_ok ls n bb" for ls n bb
    using that by (simp add: block_ok_def)
  then have "body_ok (Locals fn) (Blocks (deadAssignElim fn))"
    using assms by (fastforce simp: valid_fn_iff body_ok_def deadAssignElim_def Let_def)
  then show ?thesis using assms by (simp add: valid_fn_iff deadAssignElim_def Let_def head_ok_body)
qed

lemma valid_pass_ok: "valid_fn fn \<Longrightarrow> ordinary_fn fn \<Longrightarrow> pass_ok fn"
  by (simp add: pass_ok_def valid_fn_iff body_ids_ok)

lemma valid_ids: "validateFunction fn = [] \<Longrightarrow> ids_ok fn"
proof (cases "IsExternal fn \<or> IsIntrinsic fn")
  case True
  assume "validateFunction fn = []"
  then have "Blocks fn = []" using True by (auto simp: validateFunction_def Let_def)
  then show ?thesis by (simp add: ids_ok_def)
next
  case False
  assume "validateFunction fn = []"
  then show ?thesis using False validateFunction_ok [of fn] blocks_ok_body body_ids_ok by blast
qed

lemma peephole_iters_valid:
  assumes "valid_fn fn" "ordinary_fn fn" "peephole_iters n fn = Some fn'"
  shows "valid_fn fn'"
  using assms
proof (induction n arbitrary: fn)
  case (Suc n)
  obtain f1 where f1: "copyPropagateFn fn = Some f1" using Suc.prems(3) by (auto split: option.splits)
  let ?f2 = "collapseEmptyGotos f1"
  let ?f3 = "deadAssignElim ?f2"
  have p: "pass_ok fn" by (rule valid_pass_ok [OF Suc.prems(1,2)])
  have v: "valid_fn ?f3" using dead_valid collapse_valid copyPropagate_valid [OF Suc.prems(1,2) f1] by blast
  have "ordinary_fn ?f3" using dead_ok same_code_ok collapse_same_code copyPropagate_ok [OF p f1] unfolding pass_ok_def by blast
  then show ?case using Suc.IH [OF v] Suc.prems(3) f1 v by (auto simp: Let_def split: if_splits)
qed simp

end
