(* ===== verification/MIR_Fuse.thy ===== *)
theory MIR_Fuse
  imports MIR_Optimize "HOL-Library.Product_Lexorder"
begin

text \<open>
  \<^verbatim>\<open>src/internal/mir/fuse_map_incr.go\<close> and \<^verbatim>\<open>fuse_split_nth.go\<close>, with the escape tests of
  \<^verbatim>\<open>escape_split.go\<close> that the second one uses: two rewrites that run before the fixed point of \<^verbatim>\<open>MIR_Optimize\<close>.
  A pass takes the function and returns the rewritten one; \<^const>\<open>None\<close> is a panic: an index out of range, or a nil local.
  The comparison of instruction pointers is a comparison of positions.
\<close>

section \<open>Intrinsics the rewrites know\<close>

definition IntrinsicListLen :: IntrinsicKind where "IntrinsicListLen = 31"
definition IntrinsicMapSet :: IntrinsicKind where "IntrinsicMapSet = 46"
definition IntrinsicStringCount :: IntrinsicKind where "IntrinsicStringCount = 64"
definition IntrinsicStringSplit :: IntrinsicKind where "IntrinsicStringSplit = 68"
definition IntrinsicMapGetOr :: IntrinsicKind where "IntrinsicMapGetOr = 113"
definition IntrinsicStringSplitInto :: IntrinsicKind where "IntrinsicStringSplitInto = 114"
definition IntrinsicStringNthSegment :: IntrinsicKind where "IntrinsicStringNthSegment = 115"
definition IntrinsicMapIncr :: IntrinsicKind where "IntrinsicMapIncr = 116"

lemmas fused_kinds = IntrinsicListLen_def IntrinsicMapSet_def IntrinsicStringCount_def IntrinsicStringSplit_def
  IntrinsicMapGetOr_def IntrinsicStringSplitInto_def IntrinsicStringNthSegment_def IntrinsicMapIncr_def IntrinsicInvalid_def

lemma fused_kind_names:
  "map IntrinsicKind_String [IntrinsicListLen, IntrinsicMapSet, IntrinsicStringCount, IntrinsicStringSplit, IntrinsicMapGetOr,
     IntrinsicStringSplitInto, IntrinsicStringNthSegment, IntrinsicMapIncr] =
   [''list_len'', ''map_set'', ''string_count'', ''string_split'', ''map_get_or'', ''string_split_into'', ''string_nth_segment'', ''map_incr'']"
  by (simp add: fused_kinds IntrinsicKind_String_def intrinsic_names_def)

abbreviation TInt :: Ty where "TInt \<equiv> Some ''Int''"

section \<open>Counters in maps\<close>

definition isZeroIntConstOperand :: "Operand \<Rightarrow> bool" where
  "isZeroIntConstOperand op = (case op of ConstOp (IntConst v _) _ \<Rightarrow> v = 0 | _ \<Rightarrow> False)"

definition isCopyOfLocal :: "Operand \<Rightarrow> LocalID \<Rightarrow> bool" where
  "isCopyOfLocal op l =
     (case op of CopyOp p _ \<Rightarrow> place_Local p = l \<and> \<not> HasProjections p
      | MoveOp p _ \<Rightarrow> place_Local p = l \<and> \<not> HasProjections p | _ \<Rightarrow> False)"

definition matchAddOfLocal :: "Operand \<Rightarrow> Operand \<Rightarrow> LocalID \<Rightarrow> Operand option" where
  "matchAddOfLocal left right n =
     (if isCopyOfLocal left n then Some right else if isCopyOfLocal right n then Some left else None)"

definition constsEqual :: "Const \<Rightarrow> Const \<Rightarrow> bool" where
  "constsEqual a b =
     (case a of
        IntConst x _ \<Rightarrow> (case b of IntConst y _ \<Rightarrow> x = y | _ \<Rightarrow> False)
      | StringConst x \<Rightarrow> (case b of StringConst y \<Rightarrow> x = y | _ \<Rightarrow> False)
      | BoolConst x \<Rightarrow> (case b of BoolConst y \<Rightarrow> x = y | _ \<Rightarrow> False)
      | NullConst _ \<Rightarrow> (case b of NullConst _ \<Rightarrow> True | _ \<Rightarrow> False)
      | _ \<Rightarrow> False)"

fun sameOperandPlace :: "Operand \<Rightarrow> Operand \<Rightarrow> bool"
  and placesEqual :: "Place \<Rightarrow> Place \<Rightarrow> bool"
  and projs_equal :: "Projection list \<Rightarrow> Projection list \<Rightarrow> bool"
  and projectionsEqual :: "Projection \<Rightarrow> Projection \<Rightarrow> bool" where
  "sameOperandPlace (CopyOp p _) b = (case b of CopyOp q _ \<Rightarrow> placesEqual p q | MoveOp q _ \<Rightarrow> placesEqual p q | _ \<Rightarrow> False)"
| "sameOperandPlace (MoveOp p _) b = (case b of CopyOp q _ \<Rightarrow> placesEqual p q | MoveOp q _ \<Rightarrow> placesEqual p q | _ \<Rightarrow> False)"
| "sameOperandPlace (ConstOp c _) b = (case b of ConstOp d _ \<Rightarrow> constsEqual c d | _ \<Rightarrow> False)"
| "sameOperandPlace NilOp b = False"
| "placesEqual (Place l ps) q = (l = place_Local q \<and> length ps = length (Projections q) \<and> projs_equal ps (Projections q))"
| "projs_equal [] qs = True"
| "projs_equal (p # ps) qs = (case qs of [] \<Rightarrow> False | q # qs' \<Rightarrow> projectionsEqual p q \<and> projs_equal ps qs')"
| "projectionsEqual (IndexProj i _) q = (case q of IndexProj j _ \<Rightarrow> sameOperandPlace i j | _ \<Rightarrow> False)"
| "projectionsEqual (FieldProj i _ _) q = (case q of FieldProj j _ _ \<Rightarrow> i = j | _ \<Rightarrow> False)"
| "projectionsEqual (VariantProj v _ i _) q = (case q of VariantProj u _ j _ \<Rightarrow> v = u \<and> i = j | _ \<Rightarrow> False)"
| "projectionsEqual (DerefProj _) q = (case q of DerefProj _ \<Rightarrow> True | _ \<Rightarrow> False)"
| "projectionsEqual (TupleProj _ _) q = False"
| "projectionsEqual NilProj q = False"

definition sameMapKeyOperands :: "Operand \<Rightarrow> Operand \<Rightarrow> Operand \<Rightarrow> Operand \<Rightarrow> bool" where
  "sameMapKeyOperands gm gk sm sk \<longleftrightarrow> sameOperandPlace gm sm \<and> sameOperandPlace gk sk"

fun operandTouchesLocal :: "Operand \<Rightarrow> LocalID \<Rightarrow> bool"
  and placeTouchesLocal :: "Place \<Rightarrow> LocalID \<Rightarrow> bool"
  and proj_touches :: "Projection \<Rightarrow> LocalID \<Rightarrow> bool" where
  "operandTouchesLocal (CopyOp p _) l = placeTouchesLocal p l"
| "operandTouchesLocal (MoveOp p _) l = placeTouchesLocal p l"
| "operandTouchesLocal (ConstOp _ _) l = False"
| "operandTouchesLocal NilOp l = False"
| "placeTouchesLocal (Place r ps) l = (r = l \<or> (\<exists>p \<in> set ps. proj_touches p l))"
| "proj_touches (IndexProj i _) l = operandTouchesLocal i l"
| "proj_touches (FieldProj _ _ _) l = False"
| "proj_touches (TupleProj _ _) l = False"
| "proj_touches (VariantProj _ _ _ _) l = False"
| "proj_touches (DerefProj _) l = False"
| "proj_touches NilProj l = False"

text \<open>The discriminant and the length of a place are not among the reads this function knows.\<close>

fun rvalueTouchesLocal :: "RValue \<Rightarrow> LocalID \<Rightarrow> bool" where
  "rvalueTouchesLocal (UseRV op) l = operandTouchesLocal op l"
| "rvalueTouchesLocal (UnaryRV _ a _) l = operandTouchesLocal a l"
| "rvalueTouchesLocal (BinaryRV _ a b _) l = (operandTouchesLocal a l \<or> operandTouchesLocal b l)"
| "rvalueTouchesLocal (AggregateRV _ fs _ _ _) l = list_ex (\<lambda>f. operandTouchesLocal f l) fs"
| "rvalueTouchesLocal (CastRV _ a _ _) l = operandTouchesLocal a l"
| "rvalueTouchesLocal (AddressOfRV p _) l = (place_Local p = l)"
| "rvalueTouchesLocal (RefRV p _) l = (place_Local p = l)"
| "rvalueTouchesLocal _ l = False"

definition dest_is :: "Place option \<Rightarrow> LocalID \<Rightarrow> bool" where
  "dest_is d l = (case d of None \<Rightarrow> False | Some p \<Rightarrow> place_Local p = l)"

fun instrTouchesLocal :: "Instr \<Rightarrow> LocalID \<Rightarrow> bool" where
  "instrTouchesLocal (AssignInstr d src) l = (place_Local d = l \<or> rvalueTouchesLocal src l)"
| "instrTouchesLocal (CallInstr d _ args) l = (dest_is d l \<or> list_ex (\<lambda>a. operandTouchesLocal a l) args)"
| "instrTouchesLocal (IntrinsicInstr d _ args) l = (dest_is d l \<or> list_ex (\<lambda>a. operandTouchesLocal a l) args)"
| "instrTouchesLocal _ l = False"

fun term_touches :: "Terminator \<Rightarrow> LocalID \<Rightarrow> bool" where
  "term_touches (BranchTerm c _ _) l = operandTouchesLocal c l"
| "term_touches (SwitchIntTerm s _ _) l = operandTouchesLocal s l"
| "term_touches _ l = False"

definition localUsageOutside :: "Function \<Rightarrow> LocalID \<Rightarrow> BlockID \<Rightarrow> nat \<Rightarrow> nat \<Rightarrow> bool" where
  "localUsageOutside fn l ownBB from to =
     list_ex (\<lambda>b. case b of None \<Rightarrow> False
       | Some bb \<Rightarrow> list_ex (\<lambda>(j, x). \<not> (block_ID bb = ownBB \<and> from \<le> j \<and> j \<le> to) \<and> instrTouchesLocal x l) (enumerate 0 (Instrs bb)) \<or>
                   term_touches (Term bb) l) (Blocks fn)"

text \<open>The conditions on three consecutive instructions and what they are replaced by. \<open>Some None\<close> leaves them as they are.\<close>

definition fuse_triple :: "Function \<Rightarrow> BlockID \<Rightarrow> nat \<Rightarrow> Instr \<Rightarrow> Instr \<Rightarrow> Instr \<Rightarrow> Instr option option" where
  "fuse_triple fn own i x y z =
     (case x of IntrinsicInstr (Some n) k gargs \<Rightarrow>
        if k \<noteq> IntrinsicMapGetOr then Some None
        else if length gargs < 3 then None
        else if \<not> isZeroIntConstOperand (gargs ! 2) then Some None
        else (case y of AssignInstr v (BinaryRV BinAdd l r _) \<Rightarrow>
                if HasProjections v then Some None
                else (case matchAddOfLocal l r (place_Local n) of None \<Rightarrow> Some None
                      | Some delta \<Rightarrow>
                          (case z of IntrinsicInstr None k' sargs \<Rightarrow>
                             if k' = IntrinsicMapSet \<and> length sargs = 3 \<and>
                                sameMapKeyOperands (gargs ! 0) (gargs ! 1) (sargs ! 0) (sargs ! 1) \<and>
                                isCopyOfLocal (sargs ! 2) (place_Local v) \<and>
                                \<not> localUsageOutside fn (place_Local n) own i (i + 1) \<and>
                                \<not> localUsageOutside fn (place_Local v) own (i + 1) (i + 2)
                             then Some (Some (IntrinsicInstr (Some (Place (place_Local v) [])) IntrinsicMapIncr [gargs ! 0, gargs ! 1, delta]))
                             else Some None
                           | _ \<Rightarrow> Some None))
              | _ \<Rightarrow> Some None)
      | _ \<Rightarrow> Some None)"

definition set_block :: "Function \<Rightarrow> nat \<Rightarrow> BasicBlock \<Rightarrow> Function" where
  "set_block fn b bb = fn\<lparr>Blocks := (Blocks fn)[b := Some bb]\<rparr>"

function fuse_from :: "Function \<Rightarrow> nat \<Rightarrow> nat \<Rightarrow> Function option" where
  "fuse_from fn b i =
     (case Block fn b of None \<Rightarrow> Some fn
      | Some bb \<Rightarrow>
          if i + 2 < length (Instrs bb) then
            (case fuse_triple fn (block_ID bb) i (Instrs bb ! i) (Instrs bb ! (i + 1)) (Instrs bb ! (i + 2)) of
               None \<Rightarrow> None
             | Some None \<Rightarrow> fuse_from fn b (i + 1)
             | Some (Some f) \<Rightarrow> fuse_from (set_block fn b (bb\<lparr>Instrs := take i (Instrs bb) @ f # drop (i + 3) (Instrs bb)\<rparr>)) b i)
          else Some fn)"
  by pat_completeness auto
termination
  by (relation "measure (\<lambda>(fn, b, i). case Block fn b of None \<Rightarrow> 0 | Some bb \<Rightarrow> length (Instrs bb) - i)")
     (auto simp: set_block_def Block_def split: if_splits)

declare fuse_from.simps [simp del]

fun fuse_blocks :: "nat list \<Rightarrow> Function \<Rightarrow> Function option" where
  "fuse_blocks [] fn = Some fn"
| "fuse_blocks (b # bs) fn = Option.bind (fuse_from fn b 0) (fuse_blocks bs)"

definition fuseMapInsertGetOrAdd :: "Function \<Rightarrow> Function option" where
  "fuseMapInsertGetOrAdd fn =
     (if IsExternal fn \<or> IsIntrinsic fn \<or> Blocks fn = [] then Some fn else fuse_blocks [0..<length (Blocks fn)] fn)"

section \<open>Escape tests\<close>

definition placeLeaksRoot :: "Place \<Rightarrow> LocalID \<Rightarrow> bool" where
  "placeLeaksRoot p l = (if place_Local p \<noteq> l then False else (case Projections p of [] \<Rightarrow> True | IndexProj _ _ # _ \<Rightarrow> False | _ \<Rightarrow> True))"

fun operandLeaksLocal :: "Operand \<Rightarrow> LocalID \<Rightarrow> bool" where
  "operandLeaksLocal (CopyOp p _) l = placeLeaksRoot p l"
| "operandLeaksLocal (MoveOp p _) l = placeLeaksRoot p l"
| "operandLeaksLocal _ l = False"

fun rvalueLeaksLocal :: "RValue \<Rightarrow> LocalID \<Rightarrow> bool" where
  "rvalueLeaksLocal (UseRV op) l = operandLeaksLocal op l"
| "rvalueLeaksLocal (UnaryRV _ a _) l = operandLeaksLocal a l"
| "rvalueLeaksLocal (BinaryRV _ a b _) l = (operandLeaksLocal a l \<or> operandLeaksLocal b l)"
| "rvalueLeaksLocal (AggregateRV _ fs _ _ _) l = list_ex (\<lambda>f. operandLeaksLocal f l) fs"
| "rvalueLeaksLocal (CastRV _ a _ _) l = operandLeaksLocal a l"
| "rvalueLeaksLocal (DiscriminantRV _ _) l = False"
| "rvalueLeaksLocal (LenRV _ _) l = False"
| "rvalueLeaksLocal (AddressOfRV p _) l = (place_Local p = l)"
| "rvalueLeaksLocal (RefRV p _) l = (place_Local p = l)"
| "rvalueLeaksLocal (NullaryRV _ _) l = False"
| "rvalueLeaksLocal (GlobalRefRV _ _) l = False"
| "rvalueLeaksLocal NilRV l = True"

section \<open>Segments of split strings\<close>

record indexUseMatch =
  m_bb :: BlockID
  m_idx :: nat
  m_destLoc :: LocalID
  m_constIdx :: int

record lenUseMatch =
  l_bb :: BlockID
  l_idx :: nat
  l_destLoc :: LocalID

definition isNonEmptyStringConst :: "Operand \<Rightarrow> bool" where
  "isNonEmptyStringConst op = (case op of ConstOp (StringConst s) _ \<Rightarrow> length s > 0 | _ \<Rightarrow> False)"

definition argReadsBareLocal :: "Operand \<Rightarrow> LocalID \<Rightarrow> bool" where
  "argReadsBareLocal op l = (case op of CopyOp p _ \<Rightarrow> place_Local p = l \<and> Projections p = [] | _ \<Rightarrow> False)"

definition sortLenReadsForRewrite :: "lenUseMatch list \<Rightarrow> lenUseMatch list" where
  "sortLenReadsForRewrite lr = sort_key (\<lambda>x. (- int (l_bb x), - int (l_idx x))) lr"

definition singleConstIndexProjection :: "Place \<Rightarrow> int option" where
  "singleConstIndexProjection p =
     (case Projections p of [IndexProj (ConstOp (IntConst v _) _) _] \<Rightarrow> if v < 0 then None else Some v | _ \<Rightarrow> None)"

text \<open>The variables of the scan over all instructions.\<close>

record uses =
  u_matches :: "indexUseMatch list"
  u_lenReads :: "lenUseMatch list"
  u_other :: nat
  u_writes :: nat

definition leaks :: "LocalID \<Rightarrow> Operand list \<Rightarrow> nat" where
  "leaks l ops = length (filter (\<lambda>a. operandLeaksLocal a l) ops)"

definition callee_ops :: "Callee \<Rightarrow> Operand list" where
  "callee_ops c = (case c of IndirectCall op \<Rightarrow> [op] | _ \<Rightarrow> [])"

text \<open>One instruction, at position \<open>j\<close> of block \<open>b\<close>; \<open>src\<close> tells whether it is the split call itself. \<^const>\<open>None\<close> gives up.\<close>

fun scan_instr :: "LocalID \<Rightarrow> BlockID \<Rightarrow> nat \<Rightarrow> bool \<Rightarrow> Instr \<Rightarrow> uses \<Rightarrow> uses option" where
  "scan_instr l b j src (AssignInstr d rv) u =
     (if place_Local d = l then None
      else (case rv of UseRV (CopyOp p _) \<Rightarrow>
              if place_Local p = l then
                (case singleConstIndexProjection p of
                   Some k \<Rightarrow> if HasProjections d then None
                             else Some (u\<lparr>u_matches := u_matches u @ [\<lparr>m_bb = b, m_idx = j, m_destLoc = place_Local d, m_constIdx = k\<rparr>]\<rparr>)
                 | None \<Rightarrow> None)
              else Some (u\<lparr>u_other := u_other u + (if rvalueLeaksLocal rv l then 1 else 0)\<rparr>)
            | _ \<Rightarrow> Some (u\<lparr>u_other := u_other u + (if rvalueLeaksLocal rv l then 1 else 0)\<rparr>)))"
| "scan_instr l b j src (CallInstr d c args) u =
     (if dest_is d l then None else Some (u\<lparr>u_other := u_other u + leaks l args + leaks l (callee_ops c)\<rparr>))"
| "scan_instr l b j src (IntrinsicInstr d k args) u =
     (if src then Some (u\<lparr>u_writes := u_writes u + 1\<rparr>)
      else if dest_is d l then None
      else if k = IntrinsicListLen \<and> length args = 1 \<and> argReadsBareLocal (args ! 0) l \<and>
              (case d of None \<Rightarrow> False | Some p \<Rightarrow> \<not> HasProjections p)
      then Some (u\<lparr>u_lenReads := u_lenReads u @ [\<lparr>l_bb = b, l_idx = j, l_destLoc = place_Local (the d)\<rparr>]\<rparr>)
      else Some (u\<lparr>u_other := u_other u + leaks l args\<rparr>))"
| "scan_instr l b j src _ u = Some u"

fun scan_instrs :: "LocalID \<Rightarrow> BlockID \<Rightarrow> nat \<Rightarrow> nat option \<Rightarrow> Instr list \<Rightarrow> uses \<Rightarrow> uses option" where
  "scan_instrs l b j at [] u = Some u"
| "scan_instrs l b j at (x # xs) u = Option.bind (scan_instr l b j (at = Some j) x u) (scan_instrs l b (j + 1) at xs)"

fun term_ops :: "Terminator \<Rightarrow> Operand list" where
  "term_ops (BranchTerm c _ _) = [c]"
| "term_ops (SwitchIntTerm s _ _) = [s]"
| "term_ops _ = []"

definition scan_block :: "LocalID \<Rightarrow> nat option \<Rightarrow> BasicBlock \<Rightarrow> uses \<Rightarrow> uses option" where
  "scan_block l at bb u =
     map_option (\<lambda>u. u\<lparr>u_other := u_other u + leaks l (term_ops (Term bb))\<rparr>) (scan_instrs l (block_ID bb) 0 at (Instrs bb) u)"

fun scan_blocks :: "LocalID \<Rightarrow> nat \<Rightarrow> nat \<times> nat \<Rightarrow> BasicBlock option list \<Rightarrow> uses \<Rightarrow> uses option" where
  "scan_blocks l i at [] u = Some u"
| "scan_blocks l i at (None # bs) u = scan_blocks l (i + 1) at bs u"
| "scan_blocks l i at (Some bb # bs) u =
     Option.bind (scan_block l (if fst at = i then Some (snd at) else None) bb u) (scan_blocks l (i + 1) at bs)"

definition findIndexProjUsesFn :: "Function \<Rightarrow> LocalID \<Rightarrow> nat \<times> nat \<Rightarrow> (indexUseMatch list \<times> lenUseMatch list) option option" where
  "findIndexProjUsesFn fn l at =
     (if l \<ge> length (Locals fn) then Some None
      else (case Locals fn ! l of None \<Rightarrow> None
            | Some loc \<Rightarrow>
                if IsParam loc \<or> IsReturn loc \<or> ReturnLocal fn = l then Some None
                else (case scan_blocks l 0 at (Blocks fn) \<lparr>u_matches = [], u_lenReads = [], u_other = 0, u_writes = 0\<rparr> of
                        None \<Rightarrow> Some None
                      | Some u \<Rightarrow> if u_writes u \<noteq> 1 \<or> u_matches u = [] \<or> u_other u \<noteq> 0 then Some None
                          else Some (Some (sort_key (\<lambda>m. (m_bb m, m_idx m)) (u_matches u), u_lenReads u)))))"

text \<open>The rewrites. A block id that names no block stops them with what has been changed so far; the flag says so.\<close>

fun rewrite_matches :: "Operand \<Rightarrow> Operand \<Rightarrow> indexUseMatch list \<Rightarrow> Function \<Rightarrow> (Function \<times> bool) option" where
  "rewrite_matches v s [] fn = Some (fn, True)"
| "rewrite_matches v s (m # ms) fn =
     (case Block fn (m_bb m) of None \<Rightarrow> Some (fn, False)
      | Some ab \<Rightarrow>
          if m_idx m \<ge> length (Instrs ab) then None
          else rewrite_matches v s ms (set_block fn (m_bb m) (ab\<lparr>Instrs := (Instrs ab)[m_idx m :=
            IntrinsicInstr (Some (Place (m_destLoc m) [])) IntrinsicStringNthSegment [v, s, ConstOp (IntConst (m_constIdx m) TInt) TInt]]\<rparr>)))"

definition len_instrs :: "Operand \<Rightarrow> Operand \<Rightarrow> LocalID \<Rightarrow> LocalID \<Rightarrow> Instr list" where
  "len_instrs v s tmp d =
     [IntrinsicInstr (Some (Place tmp [])) IntrinsicStringCount [v, s],
      AssignInstr (Place d []) (BinaryRV BinAdd (CopyOp (Place tmp []) TInt) (ConstOp (IntConst 1 TInt) TInt) TInt)]"

text \<open>\<open>own\<close> and \<open>at\<close>: the block and the position of the split call, which moves when an instruction is inserted before it.\<close>

fun rewrite_lens :: "Operand \<Rightarrow> Operand \<Rightarrow> BlockID \<Rightarrow> nat \<Rightarrow> lenUseMatch list \<Rightarrow> Function \<Rightarrow> (Function \<times> nat \<times> bool) option" where
  "rewrite_lens v s own at [] fn = Some (fn, at, True)"
| "rewrite_lens v s own at (r # rs) fn =
     (case Block fn (l_bb r) of None \<Rightarrow> Some (fn, at, False)
      | Some ab \<Rightarrow>
          if l_idx r \<ge> length (Instrs ab) then None
          else (let (tmp, fn1) = NewLocal ''split_nth_count_tmp'' TInt False fn
                in rewrite_lens v s own (if l_bb r = own \<and> l_idx r \<le> at then at + 1 else at) rs
                     (set_block fn1 (l_bb r) (ab\<lparr>Instrs := take (l_idx r) (Instrs ab) @ len_instrs v s tmp (l_destLoc r) @
                        drop (l_idx r + 1) (Instrs ab)\<rparr>))))"

text \<open>One split call, at position \<open>i\<close> of the block at \<open>b\<close>. The result has the position to go on from.\<close>

definition fuse_split_at :: "nat \<Rightarrow> nat \<Rightarrow> LocalID \<Rightarrow> Operand \<Rightarrow> Operand \<Rightarrow> Function \<Rightarrow> (Function \<times> nat) option" where
  "fuse_split_at b i l v s fn =
     (case findIndexProjUsesFn fn l (b, i) of None \<Rightarrow> None
      | Some None \<Rightarrow> Some (fn, i + 1)
      | Some (Some (ms, lrs)) \<Rightarrow>
          if lrs \<noteq> [] \<and> \<not> isNonEmptyStringConst s then Some (fn, i + 1)
          else (case rewrite_matches v s ms fn of None \<Rightarrow> None
                | Some (fn1, ok) \<Rightarrow>
                    if \<not> ok then Some (fn1, i + 1)
                    else (case rewrite_lens v s (block_ID (the (Block fn b))) i (sortLenReadsForRewrite lrs) fn1 of None \<Rightarrow> None
                          | Some (fn2, at, ok2) \<Rightarrow>
                              if \<not> ok2 then Some (fn2, at + 1)
                              else (case Block fn2 b of None \<Rightarrow> None
                                    | Some bb \<Rightarrow> if at \<ge> length (Instrs bb) then None
                                        else Some (set_block fn2 b (bb\<lparr>Instrs := take at (Instrs bb) @ drop (at + 1) (Instrs bb)\<rparr>), at)))))"

text \<open>The guards on a split call: its destination, the string and the separator.\<close>

definition split_call :: "Instr \<Rightarrow> (LocalID \<times> Operand \<times> Operand) option" where
  "split_call x =
     (case x of IntrinsicInstr (Some d) k args \<Rightarrow>
        if k = IntrinsicStringSplit \<and> \<not> HasProjections d \<and> length args = 2 then Some (place_Local d, args ! 0, args ! 1) else None
      | _ \<Rightarrow> None)"

lemma split_call_Some: "split_call x = Some (l, v, s) \<longleftrightarrow> x = IntrinsicInstr (Some (Place l [])) IntrinsicStringSplit [v, s]"
proof
  assume "split_call x = Some (l, v, s)"
  then obtain d args where "x = IntrinsicInstr (Some d) IntrinsicStringSplit args" "Projections d = []" "length args = 2"
      "place_Local d = l" "args ! 0 = v" "args ! 1 = s"
    by (auto simp: split_call_def HasProjections_def split: Instr.splits option.splits if_splits)
  then show "x = IntrinsicInstr (Some (Place l [])) IntrinsicStringSplit [v, s]"
    by (cases d; cases args; cases "tl args") auto
qed (simp add: split_call_def HasProjections_def)

text \<open>The loop over one block; twice the number of instructions of the block is enough fuel (\<^verbatim>\<open>MIR_Pipeline\<close>).\<close>

fun fuse_split_from :: "nat \<Rightarrow> nat \<Rightarrow> nat \<Rightarrow> Function \<Rightarrow> Function option" where
  "fuse_split_from 0 b i fn = None"
| "fuse_split_from (Suc n) b i fn =
     (case Block fn b of None \<Rightarrow> Some fn
      | Some bb \<Rightarrow>
          if i < length (Instrs bb) then
            (case split_call (Instrs bb ! i) of None \<Rightarrow> fuse_split_from n b (i + 1) fn
             | Some (l, v, s) \<Rightarrow> Option.bind (fuse_split_at b i l v s fn) (\<lambda>(fn1, j). fuse_split_from n b j fn1))
          else Some fn)"

definition block_length :: "Function \<Rightarrow> nat \<Rightarrow> nat" where
  "block_length fn b = (case Block fn b of None \<Rightarrow> 0 | Some bb \<Rightarrow> length (Instrs bb))"

fun fuse_split_blocks :: "nat list \<Rightarrow> Function \<Rightarrow> Function option" where
  "fuse_split_blocks [] fn = Some fn"
| "fuse_split_blocks (b # bs) fn = Option.bind (fuse_split_from (2 * block_length fn b + 1) b 0 fn) (fuse_split_blocks bs)"

definition fuseNonEscapingSplitNth :: "Function \<Rightarrow> Function option" where
  "fuseNonEscapingSplitNth fn =
     (if IsExternal fn \<or> IsIntrinsic fn \<or> Blocks fn = [] then Some fn else fuse_split_blocks [0..<length (Blocks fn)] fn)"

end
