(* ===== verification/MIR_Hoist.thy ===== *)
theory MIR_Hoist
  imports MIR_Fuse
begin

text \<open>
  \<^verbatim>\<open>src/internal/mir/escape_split.go\<close>: the lists that string splits allocate inside loops are moved to the block before the loop.
  As in \<^verbatim>\<open>MIR_Fuse\<close>, \<^const>\<open>None\<close> is a panic. The predecessor index that the pass computes once is
  \<^const>\<open>Predecessors\<close> of the function at hand: the pass changes neither terminators nor block ids.
\<close>

section \<open>Loops\<close>

datatype color = White | Gray | Black

definition succs_at :: "Function \<Rightarrow> BlockID \<Rightarrow> BlockID list" where
  "succs_at fn b = (case Block fn b of None \<Rightarrow> [] | Some bb \<Rightarrow> Successors (Term bb))"

lemma whites_decrease:
  assumes "s < length col" "col ! s = White" "c \<noteq> White"
  shows "count_list (col[s := c]) White < count_list col White"
proof -
  have "col = take s col @ White # drop (Suc s) col" "col[s := c] = take s col @ c # drop (Suc s) col"
    using assms id_take_nth_drop [of s col] upd_conv_take_nth_drop [of s col c] by auto
  then have "count_list col White = count_list (take s col @ White # drop (Suc s) col) White"
    "count_list (col[s := c]) White = count_list (take s col @ c # drop (Suc s) col) White" by simp_all
  then show ?thesis using assms(3) by simp
qed

lemma whites_le: "c \<noteq> White \<Longrightarrow> count_list (col[b := c]) White \<le> count_list col White"
proof (cases "b < length col \<and> col ! b = White")
  case False
  assume c: "c \<noteq> White"
  show ?thesis
  proof (cases "b < length col")
    case True
    then have "col = take b col @ col ! b # drop (Suc b) col" "col[b := c] = take b col @ c # drop (Suc b) col"
      using id_take_nth_drop [of b col] upd_conv_take_nth_drop [of b col c] by auto
    then have "count_list col White = count_list (take b col @ col ! b # drop (Suc b) col) White"
      "count_list (col[b := c]) White = count_list (take b col @ c # drop (Suc b) col) White" by simp_all
    then show ?thesis using c by simp
  qed (simp add: list_update_beyond)
qed (simp add: less_imp_le whites_decrease)

text \<open>The depth-first search. A frame holds a block and the successors not yet looked at; the colours are as many as the blocks.
  An edge is a pair of its source and its target.\<close>

function back_edges :: "Function \<Rightarrow> color list \<Rightarrow> (BlockID \<times> BlockID list) list \<Rightarrow> (BlockID \<times> BlockID) list \<Rightarrow> (BlockID \<times> BlockID) list" where
  "back_edges fn col [] es = es"
| "back_edges fn col ((b, []) # st) es = back_edges fn (col[b := Black]) st es"
| "back_edges fn col ((b, s # ss) # st) es =
     (if s \<ge> length col then back_edges fn col ((b, ss) # st) es
      else (case col ! s of
              White \<Rightarrow> back_edges fn (col[s := Gray]) ((s, succs_at fn s) # (b, ss) # st) es
            | Gray \<Rightarrow> back_edges fn col ((b, ss) # st) (es @ [(b, s)])
            | Black \<Rightarrow> back_edges fn col ((b, ss) # st) es))"
  by pat_completeness auto
termination
  by (relation "measures [\<lambda>(fn, col, st, es). count_list col White, \<lambda>(fn, col, st, es). sum_list (map (\<lambda>f. length (snd f) + 1) st)]")
     (auto simp: whites_decrease whites_le le_less [symmetric] less_Suc_eq_le)

definition findBackEdges :: "Function \<Rightarrow> (BlockID \<times> BlockID) list" where
  "findBackEdges fn =
     (let n = length (Blocks fn) in
      if Entry fn \<ge> n then [] else back_edges fn ((replicate n White)[Entry fn := Gray]) [(Entry fn, succs_at fn (Entry fn))] [])"

text \<open>The two searches for the body of a loop: along the edges from the header, and against them from the source of the back edge.\<close>

definition next_blocks :: "Function \<Rightarrow> bool \<Rightarrow> BlockID \<Rightarrow> BlockID list" where
  "next_blocks fn forward b = (if forward then succs_at fn b else Predecessors fn b)"

fun visit :: "BlockID list \<Rightarrow> BlockID list \<Rightarrow> BlockID list \<Rightarrow> BlockID list \<times> BlockID list" where
  "visit [] seen st = (seen, st)"
| "visit (s # ss) seen st = (if s \<in> set seen then visit ss seen st else visit ss (s # seen) (s # st))"

lemma visit_set: "set (fst (visit ss seen st)) = set seen \<union> set ss"
  by (induction ss seen st rule: visit.induct) auto

lemma visit_old: "set ss \<subseteq> set seen \<Longrightarrow> visit ss seen st = (seen, st)"
  by (induction ss seen st rule: visit.induct) auto

lemma finite_next: "finite (\<Union>b. set (next_blocks fn forward b))"
proof (rule finite_subset)
  let ?S = "\<Union>x \<in> set (Blocks fn). case x of None \<Rightarrow> {} | Some bb \<Rightarrow> insert (block_ID bb) (set (Successors (Term bb)))"
  show "finite ?S" by (auto split: option.split)
  have "set (next_blocks fn forward b) \<subseteq> ?S" for b
  proof (cases forward)
    case True
    show ?thesis
    proof (cases "Block fn b")
      case (Some bb)
      then have "Some bb \<in> set (Blocks fn)" by (auto simp: Block_def split: if_splits dest!: sym [of _ "Some bb"])
      then show ?thesis using True Some by (auto simp: next_blocks_def succs_at_def intro!: bexI [of _ "Some bb"])
    qed (simp add: next_blocks_def succs_at_def True)
  next
    case False
    have "x \<in> ?S" if "x = block_ID bb" "Some bb \<in> set (Blocks fn)" for x bb using that by (intro UN_I [of "Some bb"]) simp_all
    then show ?thesis using False unfolding next_blocks_def by (simp only: if_False Predecessors_set) blast
  qed
  then show "(\<Union>b. set (next_blocks fn forward b)) \<subseteq> ?S" by blast
qed

function explore :: "Function \<Rightarrow> bool \<Rightarrow> BlockID list \<Rightarrow> BlockID list \<Rightarrow> BlockID list" where
  "explore fn forward seen [] = seen"
| "explore fn forward seen (b # st) =
     (let r = visit (next_blocks fn forward b) seen st in explore fn forward (fst r) (snd r))"
  by pat_completeness auto
termination
proof (relation "measures [\<lambda>(fn, d, seen, st). card ((\<Union>b. set (next_blocks fn d b)) - set seen), \<lambda>(fn, d, seen, st). length st]", goal_cases)
  case (2 fn d seen b st r)
  let ?N = "next_blocks fn d b" and ?U = "\<Union>b. set (next_blocks fn d b)"
  show ?case
  proof (cases "set ?N \<subseteq> set seen")
    case True
    then show ?thesis using 2 by (simp add: visit_old)
  next
    case False
    then have "?U - (set seen \<union> set ?N) \<subset> ?U - set seen" by blast
    then have "card (?U - (set seen \<union> set ?N)) < card (?U - set seen)" using finite_next [of fn d] by (intro psubset_card_mono) auto
    then show ?thesis using 2 by (simp add: visit_set split_beta)
  qed
qed simp

definition loopBodyBlocks :: "Function \<Rightarrow> BlockID \<Rightarrow> BlockID \<Rightarrow> BlockID list" where
  "loopBodyBlocks fn header backSrc =
     (let fwd = explore fn True [header] [header] in
      if backSrc \<notin> set fwd then []
      else (let bwd = explore fn False [backSrc, header] [backSrc] in
            List.map_filter (\<lambda>x. case x of None \<Rightarrow> None
              | Some bb \<Rightarrow> if block_ID bb \<in> set fwd \<and> block_ID bb \<in> set bwd then Some (block_ID bb) else None) (Blocks fn)))"

definition uniquePreheader :: "BlockID \<Rightarrow> BlockID list \<Rightarrow> (BlockID \<Rightarrow> BlockID list) \<Rightarrow> BlockID option" where
  "uniquePreheader header body preds = (case filter (\<lambda>p. p \<notin> set body) (preds header) of [p] \<Rightarrow> Some p | _ \<Rightarrow> None)"

section \<open>Escape of the list\<close>

definition readOnlyListQueryIntrinsic :: "IntrinsicKind \<Rightarrow> bool" where
  "readOnlyListQueryIntrinsic k \<longleftrightarrow> k \<in> {31, 33, 32, 37, 34, 35, 38, 36, 112}"

lemma readOnly_names:
  "map IntrinsicKind_String [31, 33, 32, 37, 34, 35, 38, 36, 112] =
    [''list_len'', ''list_is_empty'', ''list_get'', ''list_contains'', ''list_first'', ''list_last'', ''list_index_of'', ''list_sorted'', ''list_slice'']"
  by (simp add: IntrinsicKind_String_def intrinsic_names_def)

text \<open>One instruction: \<^const>\<open>None\<close> if the list escapes, otherwise the number of writes counted.\<close>

fun escape_instr :: "LocalID \<Rightarrow> bool \<Rightarrow> Instr \<Rightarrow> nat \<Rightarrow> nat option" where
  "escape_instr l src (AssignInstr d rv) n = (if place_Local d = l \<or> rvalueLeaksLocal rv l then None else Some n)"
| "escape_instr l src (CallInstr d c args) n =
     (if dest_is d l \<or> leaks l args > 0 \<or> leaks l (callee_ops c) > 0 then None else Some n)"
| "escape_instr l src (IntrinsicInstr d k args) n =
     (if src then Some (n + 1)
      else if dest_is d l then None
      else if length args \<ge> 1 \<and> operandLeaksLocal (args ! 0) l \<and> readOnlyListQueryIntrinsic k
      then (if leaks l (tl args) > 0 then None else Some n)
      else if leaks l args > 0 then None else Some n)"
| "escape_instr l src _ n = Some n"

fun escape_instrs :: "LocalID \<Rightarrow> nat \<Rightarrow> nat option \<Rightarrow> Instr list \<Rightarrow> nat \<Rightarrow> nat option" where
  "escape_instrs l j at [] n = Some n"
| "escape_instrs l j at (x # xs) n = Option.bind (escape_instr l (at = Some j) x n) (escape_instrs l (j + 1) at xs)"

fun escape_blocks :: "LocalID \<Rightarrow> nat \<Rightarrow> nat \<times> nat \<Rightarrow> BasicBlock option list \<Rightarrow> nat \<Rightarrow> nat option" where
  "escape_blocks l i at [] n = Some n"
| "escape_blocks l i at (None # bs) n = escape_blocks l (i + 1) at bs n"
| "escape_blocks l i at (Some bb # bs) n =
     Option.bind (escape_instrs l 0 (if fst at = i then Some (snd at) else None) (Instrs bb) n)
       (\<lambda>m. if leaks l (term_ops (Term bb)) > 0 then None else escape_blocks l (i + 1) at bs m)"

definition splitDestEscapeSafe :: "Function \<Rightarrow> LocalID \<Rightarrow> nat \<times> nat \<Rightarrow> bool option" where
  "splitDestEscapeSafe fn l at =
     (if l \<ge> length (Locals fn) then Some False
      else (case Locals fn ! l of None \<Rightarrow> None
            | Some loc \<Rightarrow> Some (\<not> IsParam loc \<and> \<not> IsReturn loc \<and> ReturnLocal fn \<noteq> l \<and> escape_blocks l 0 at (Blocks fn) 0 = Some 1)))"

section \<open>The rewrite\<close>

definition hoist_split :: "Function \<Rightarrow> BlockID \<Rightarrow> BlockID \<Rightarrow> nat \<Rightarrow> LocalID \<Rightarrow> Operand \<Rightarrow> Operand \<Rightarrow> Function option" where
  "hoist_split fn preheader b i l v s =
     (case Locals fn ! l of None \<Rightarrow> None
      | Some loc \<Rightarrow>
          (let (buf, fn1) = NewLocal (''_split_buf_'' @ itoa l) (loc_Type loc) True fn;
               bufOp = CopyOp (Place buf []) (loc_Type loc)
           in case Block fn1 preheader of None \<Rightarrow> None
              | Some ph \<Rightarrow>
                  (let fn2 = set_block fn1 preheader (ph\<lparr>Instrs := Instrs ph @
                         [StorageLiveInstr buf, AssignInstr (Place buf []) (AggregateRV AggList [] (loc_Type loc) 0 [])]\<rparr>)
                   in case Block fn2 b of None \<Rightarrow> None
                      | Some bb \<Rightarrow> Some (set_block fn2 b (bb\<lparr>Instrs := take i (Instrs bb) @
                          [IntrinsicInstr None IntrinsicStringSplitInto [bufOp, v, s], AssignInstr (Place l []) (UseRV bufOp)] @
                          drop (i + 1) (Instrs bb)\<rparr>)))))"

fun is_split :: "Instr \<Rightarrow> bool" where
  "is_split (IntrinsicInstr _ k _) = (k = IntrinsicStringSplit)"
| "is_split _ = False"

definition block_instrs :: "Function \<Rightarrow> nat \<Rightarrow> Instr list" where
  "block_instrs fn b = (case Block fn b of None \<Rightarrow> [] | Some bb \<Rightarrow> Instrs bb)"

lemma block_set_block:
  "Block (set_block fn c bb) b = (if b = c \<and> c < length (Blocks fn) then Some bb else Block fn b)"
  by (auto simp: Block_def set_block_def)

lemma block_new_local [simp]: "Block (snd (NewLocal name t mut fn)) b = Block fn b" "length (Blocks (snd (NewLocal name t mut fn))) = length (Blocks fn)"
  by (simp_all add: NewLocal_def Block_def)

lemma block_range: "Block fn b = Some bb \<Longrightarrow> b < length (Blocks fn)"
  by (simp add: Block_def split: if_splits)

text \<open>In the block, what follows the rewritten call is what followed it before, perhaps with the two instructions of the preheader.\<close>

lemma hoist_split_rest:
  assumes "hoist_split fn p b i l v s = Some fn'" "i < length (block_instrs fn b)"
  shows "\<exists>ys. drop (i + 2) (block_instrs fn' b) = drop (i + 1) (block_instrs fn b) @ ys \<and> filter is_split ys = []"
proof -
  obtain loc where l: "Locals fn ! l = Some loc" using assms(1) by (auto simp: hoist_split_def split: option.splits)
  let ?new = "[StorageLiveInstr (length (Locals fn)), AssignInstr (Place (length (Locals fn)) []) (AggregateRV AggList [] (loc_Type loc) 0 [])]"
  obtain ph where ph: "Block fn p = Some ph" using assms(1) l
    by (auto simp: hoist_split_def NewLocal_def Block_def Let_def split: option.splits if_splits)
  obtain bb where bb: "Block fn b = Some bb" using assms(2) by (auto simp: block_instrs_def split: option.splits)
  let ?xs = "if b = p then Instrs ph @ ?new else Instrs bb"
  have "block_instrs fn' b = take i ?xs @ [IntrinsicInstr None IntrinsicStringSplitInto [CopyOp (Place (length (Locals fn)) []) (loc_Type loc), v, s],
      AssignInstr (Place l []) (UseRV (CopyOp (Place (length (Locals fn)) []) (loc_Type loc)))] @ drop (i + 1) ?xs"
    using assms(1) l ph bb block_range [OF ph] block_range [OF bb]
    by (auto simp: hoist_split_def split_beta Let_def block_set_block block_instrs_def NewLocal_def [abs_def] set_block_def Block_def split: if_splits)
  moreover have "i < length ?xs" "bb = ph" if "b = p" using that assms(2) ph bb by (simp_all add: block_instrs_def)
  ultimately show ?thesis using assms(2) bb
    by (cases "b = p") (auto simp: block_instrs_def intro!: exI [of _ ?new])
qed

lemma splits_drop: "length (filter is_split (drop (Suc i) xs)) \<le> length (filter is_split (drop i xs))"
  by (cases "i < length xs") (simp_all add: Cons_nth_drop_Suc [symmetric])

lemma hoist_from_decreases:
  assumes "i < length (block_instrs fn b)" "split_call (block_instrs fn b ! i) = Some (l, v, s)"
    "hoist_split fn p b i l v s = Some fn'"
  shows "length (filter is_split (drop (i + 2) (block_instrs fn' b))) < length (filter is_split (drop i (block_instrs fn b)))"
proof -
  obtain ys where "drop (i + 2) (block_instrs fn' b) = drop (i + 1) (block_instrs fn b) @ ys" "filter is_split ys = []"
    using hoist_split_rest [OF assms(3,1)] by blast
  then show ?thesis using assms(1,2) by (simp add: split_call_Some Cons_nth_drop_Suc [symmetric])
qed

function hoist_from :: "Function \<Rightarrow> BlockID \<Rightarrow> BlockID \<Rightarrow> nat \<Rightarrow> Function option" where
  "hoist_from fn preheader b i =
     (if i < length (block_instrs fn b) then
        (case split_call (block_instrs fn b ! i) of None \<Rightarrow> hoist_from fn preheader b (i + 1)
         | Some (l, v, s) \<Rightarrow>
             (case splitDestEscapeSafe fn l (b, i) of None \<Rightarrow> None
              | Some False \<Rightarrow> hoist_from fn preheader b (i + 1)
              | Some True \<Rightarrow>
                  (case hoist_split fn preheader b i l v s of None \<Rightarrow> None
                   | Some fn' \<Rightarrow> hoist_from fn' preheader b (i + 2))))
      else Some fn)"
  by pat_completeness auto
termination
  by (relation "measures [\<lambda>(fn, p, b, i). length (filter is_split (drop i (block_instrs fn b))), \<lambda>(fn, p, b, i). length (block_instrs fn b) - i]")
     (auto intro: antisym_conv2 [THEN iffD1, OF splits_drop] dest: hoist_from_decreases)

declare hoist_from.simps [simp del]

fun hoist_body :: "BlockID \<Rightarrow> BlockID list \<Rightarrow> Function \<Rightarrow> Function option" where
  "hoist_body preheader [] fn = Some fn"
| "hoist_body preheader (b # bs) fn = Option.bind (hoist_from fn preheader b 0) (hoist_body preheader bs)"

text \<open>An empty body leaves the function as it is.\<close>

fun hoist_edges :: "(BlockID \<times> BlockID) list \<Rightarrow> Function \<Rightarrow> Function option" where
  "hoist_edges [] fn = Some fn"
| "hoist_edges ((src, header) # es) fn =
     (let body = loopBodyBlocks fn header src in
      case uniquePreheader header body (Predecessors fn) of None \<Rightarrow> hoist_edges es fn
      | Some p \<Rightarrow> Option.bind (hoist_body p body fn) (hoist_edges es))"

definition hoistNonEscapingSplitInLoops :: "Function \<Rightarrow> Function option" where
  "hoistNonEscapingSplitInLoops fn =
     (if IsExternal fn \<or> IsIntrinsic fn \<or> Blocks fn = [] then Some fn else hoist_edges (findBackEdges fn) fn)"

section \<open>The optimiser\<close>

definition optimizeFunction :: "Function \<Rightarrow> Function option" where
  "optimizeFunction fn =
     (if IsExternal fn \<or> IsIntrinsic fn then Some fn
      else Option.bind (fuseNonEscapingSplitNth fn) (\<lambda>f1.
           Option.bind (fuseMapInsertGetOrAdd f1) (\<lambda>f2.
           Option.bind (hoistNonEscapingSplitInLoops f2) (peephole_iters 16))))"

definition optimize_opt :: "Function option \<Rightarrow> Function option option" where
  "optimize_opt f = (case f of None \<Rightarrow> Some None | Some fn \<Rightarrow> map_option Some (optimizeFunction fn))"

definition optimize_global :: "Global option \<Rightarrow> Global option option" where
  "optimize_global g = (case g of None \<Rightarrow> Some None
     | Some x \<Rightarrow> map_option (\<lambda>f. Some (x\<lparr>Init := f\<rparr>)) (optimize_opt (Init x)))"

definition Optimize :: "Module \<Rightarrow> Module option" where
  "Optimize m =
     Option.bind (those (map optimize_opt (Functions m))) (\<lambda>fs.
     Option.bind (those (map optimize_global (Globals m))) (\<lambda>gs. Some (m\<lparr>Functions := fs, Globals := gs\<rparr>)))"

end
