(* ===== verification/MIR_Fuse_Correct.thy ===== *)
theory MIR_Fuse_Correct
  imports MIR_Semantics MIR_Hoist
begin

text \<open>
  The fusion of map counters (\<^verbatim>\<open>fuse_map_incr.go\<close>) preserves what a function does, provided that the value
  read from the map is used once, in the addition. The comment on the pass states this condition; the pass itself checks it only in part.
\<close>

section \<open>Read counts add up\<close>

definition adds :: "(reads \<Rightarrow> reads) \<Rightarrow> bool" where
  "adds c \<longleftrightarrow> (\<forall>r l. c r l = r l + c (\<lambda>_. 0) l)"

lemma addsD: "adds c \<Longrightarrow> c r l = r l + c (\<lambda>_. 0) l"
  unfolding adds_def by blast

lemma adds_id [simp]: "adds (\<lambda>r. r)"
  by (simp add: adds_def)

lemma adds_read [simp]: "adds (read_local l)"
  by (simp add: adds_def read_local_def)

lemma adds_comp: "adds c \<Longrightarrow> adds d \<Longrightarrow> adds (\<lambda>r. d (c r))"
proof -
  assume c: "adds c" and d: "adds d"
  have "d (c r) l = r l + d (c (\<lambda>_. 0)) l" for r l
    using addsD [OF c, of r l] addsD [OF d, of "c r" l] addsD [OF d, of "c (\<lambda>_. 0)" l] by simp
  then show ?thesis unfolding adds_def by blast
qed

lemma adds_fold: "(\<And>x. x \<in> set xs \<Longrightarrow> adds (c x)) \<Longrightarrow> adds (fold c xs)"
proof (induction xs)
  case (Cons x xs)
  then have "adds (\<lambda>r. fold c xs (c x r))" by (intro adds_comp [of "c x" "fold c xs"]) simp_all
  then show ?case by (simp add: comp_def)
qed (simp add: id_def)

lemma adds_eq: "adds d \<Longrightarrow> (\<And>r. c r = d r) \<Longrightarrow> adds c"
proof -
  assume d: "adds d" and "\<And>r. c r = d r"
  then have "c = d" by blast
  then show ?thesis using d by simp
qed

lemma adds_operand: "adds (countOperandReads op)" and adds_place: "adds (countReadPlace p)" and adds_proj: "adds (countProjReads pr)"
proof (induction op and p and pr)
  case (Place l ps)
  then have "adds (fold countProjReads ps)" by (rule adds_fold)
  from adds_comp [OF adds_read [of l] this] show ?case by simp
qed (auto intro: adds_eq adds_id)

lemma adds_operands: "adds (fold countOperandReads ops)"
  by (rule adds_fold) (rule adds_operand)

lemma adds_rv: "adds (countRValueReads rv)"
proof (cases rv)
  case (BinaryRV b x y t)
  then show ?thesis by (intro adds_eq [OF adds_comp [OF adds_operand [of x] adds_operand [of y]]]) simp
qed (auto intro: adds_eq adds_id adds_operand adds_operands adds_place)

lemma adds_dest: "adds (countDest p)" "adds (countDestOpt d)" "adds (countCallee c)"
proof -
  show d: "adds (countDest p)" for p
    by (cases "HasProjections p") (auto intro: adds_eq [OF adds_place] adds_eq [OF adds_id] simp: countDest_def)
  show "adds (countDestOpt d)" by (cases d) (auto intro: adds_eq [OF d] adds_eq [OF adds_id] simp: countDestOpt_def)
  show "adds (countCallee c)" by (cases c) (auto intro: adds_eq [OF adds_operand] adds_eq [OF adds_id])
qed

lemma adds_instr: "adds (countInstr x)"
proof (cases x)
  case (AssignInstr d src)
  then show ?thesis by (intro adds_eq [OF adds_comp [OF adds_dest(1) [of d] adds_rv [of src]]]) simp
next
  case (CallInstr d c args)
  then show ?thesis
    by (intro adds_eq [OF adds_comp [OF adds_comp [OF adds_dest(2) [of d] adds_dest(3) [of c]] adds_operands [of args]]]) simp
next
  case (IntrinsicInstr d k args)
  then show ?thesis by (intro adds_eq [OF adds_comp [OF adds_dest(2) [of d] adds_operands [of args]]]) simp
qed (auto intro: adds_eq [OF adds_id])

lemma adds_term: "adds (countTerm fn t)"
proof (cases t)
  case ReturnTerm
  then show ?thesis
    by (cases "ReturnLocal fn < length (Locals fn)") (auto intro: adds_eq [OF adds_read] adds_eq [OF adds_id])
qed (auto intro: adds_eq [OF adds_operand] adds_eq [OF adds_id])

definition op_reads :: "Operand \<Rightarrow> LocalID \<Rightarrow> nat" where
  "op_reads op = countOperandReads op (\<lambda>_. 0)"

definition instr_reads :: "Instr \<Rightarrow> LocalID \<Rightarrow> nat" where
  "instr_reads x = countInstr x (\<lambda>_. 0)"

definition instrs_reads :: "Instr list \<Rightarrow> LocalID \<Rightarrow> nat" where
  "instrs_reads xs l = sum_list (map (\<lambda>x. instr_reads x l) xs)"

definition block_reads :: "Function \<Rightarrow> BasicBlock option \<Rightarrow> LocalID \<Rightarrow> nat" where
  "block_reads fn b l = (case b of None \<Rightarrow> 0 | Some bb \<Rightarrow> instrs_reads (Instrs bb) l + countTerm fn (Term bb) (\<lambda>_. 0) l)"

lemma instrs_reads_simps [simp]: "instrs_reads [] l = 0" "instrs_reads (x # xs) l = instr_reads x l + instrs_reads xs l"
  "instrs_reads (xs @ ys) l = instrs_reads xs l + instrs_reads ys l"
  by (simp_all add: instrs_reads_def)

lemma instrs_reads_fold: "fold countInstr xs r l = r l + instrs_reads xs l"
proof (induction xs arbitrary: r)
  case (Cons x xs)
  then show ?case using addsD [OF adds_instr, of x r l] by (simp add: instr_reads_def)
qed simp

lemma collectLocalReads_sum: "collectLocalReads fn l = sum_list (map (\<lambda>b. block_reads fn b l) (Blocks fn))"
proof -
  have "countBlock fn b r l = r l + block_reads fn b l" for b r
  proof (cases b)
    case (Some bb)
    then show ?thesis using addsD [OF adds_term, of fn "Term bb" "fold countInstr (Instrs bb) r" l]
      by (simp add: countBlock_def block_reads_def instrs_reads_fold)
  qed (simp add: countBlock_def block_reads_def)
  then have "fold (countBlock fn) bs r l = r l + sum_list (map (\<lambda>b. block_reads fn b l) bs)" for bs r
    by (induction bs arbitrary: r) simp_all
  then show ?thesis by (simp add: collectLocalReads_def)
qed

lemma ops_reads_fold: "fold countOperandReads ops r l = r l + sum_list (map (\<lambda>op. op_reads op l) ops)"
proof (induction ops arbitrary: r)
  case (Cons op ops)
  then show ?case using addsD [OF adds_operand, of op r l] by (simp add: op_reads_def)
qed simp

section \<open>Code that does not look at a local\<close>

lemma same_instr_sim:
  assumes a: "agree D env env'" and z: "zero_on D (countInstr i r)" and e: "exec_instr M i (env, w) = Some (env1, w1)"
  shows "\<exists>env1'. exec_instr M i (env', w) = Some (env1', w1) \<and> agree D env1 env1'"
proof -
  have call: "\<exists>env1'. exec_call M d c args (env', w) = Some (env1', w1) \<and> agree D env1 env1'"
    if "zero_on D (fold countOperandReads args q)" "zero_on D (countDestOpt d r)" "exec_call M d c args (env, w) = Some (env1, w1)" for d c args q
    using agree_eval_ops [OF a that(1), of M w] store_opt_agree [OF a that(2), of M] that(3)
    by (fastforce simp: exec_call_def bind_eq_Some_conv)
  show ?thesis
  proof (cases i)
    case (AssignInstr d src)
    have rv: "zero_on D (countDest d r)" "eval_rv M env w src = eval_rv M env' w src"
      using agree_eval_rv [OF a, of src "countDest d r" M w] z AssignInstr by simp_all
    obtain v where v: "eval_rv M env w src = Some v" "store M d v (env, w) = Some (env1, w1)"
      using e AssignInstr by (auto simp: bind_eq_Some_conv)
    then show ?thesis using store_agree [OF a _ v(2)] zero_on_dest(2) [OF rv(1)] rv(2) AssignInstr by auto
  next
    case (CallInstr d c args)
    have z1: "zero_on D (countCallee c (countDestOpt d r))"
      using agree_eval_ops [OF a, of args "countCallee c (countDestOpt d r)" M w] z CallInstr by simp
    have c: "zero_on D (countDestOpt d r) \<and> eval_callee M env w c = eval_callee M env' w c"
      using z1 agree_eval(1) [OF a, of _ "countDestOpt d r" M w] by (cases c) auto
    then show ?thesis using call [of args "countCallee c (countDestOpt d r)" d "eval_callee M env' w c"] z e CallInstr by simp
  next
    case (IntrinsicInstr d k args)
    have "zero_on D (countDestOpt d r)" using agree_eval_ops [OF a, of args "countDestOpt d r" M w] z IntrinsicInstr by simp
    then show ?thesis using call [of args "countDestOpt d r" d "Some (IntrinsicTarget k)"] z e IntrinsicInstr by simp
  qed (use a e in auto)
qed

lemma same_instrs_sim: "instrs_reads xs n = 0 \<Longrightarrow> sim_instrs M {n} xs xs"
proof (induction xs)
  case (Cons x xs)
  have "zero_on {n} (countInstr x (\<lambda>_. 0))" using Cons.prems by (simp add: zero_on_def instr_reads_def)
  then have "sim_instrs M {n} [x] [x]" using same_instr_sim by (intro sim_instrsI) fastforce
  then show ?case using sim_append [of M "{n}" "[x]" "[x]" xs xs] Cons by simp
qed (simp add: sim_nil)

lemma untouched_eval:
  "\<not> operandTouchesLocal op l \<Longrightarrow> agree {l} env env' \<Longrightarrow> eval_op M env w op = eval_op M env' w op"
  "\<not> placeTouchesLocal p l \<Longrightarrow> agree {l} env env' \<Longrightarrow> eval_place M env w p = eval_place M env' w p"
  "\<not> proj_touches pr l \<Longrightarrow> agree {l} env env' \<Longrightarrow> eval_step M env w pr = eval_step M env' w pr"
proof (induction op l and p l and pr l rule: operandTouchesLocal_placeTouchesLocal_proj_touches.induct)
  case (5 r ps l)
  then have "map (eval_step M env w) ps = map (eval_step M env' w) ps" "env r = env' r" by (simp_all add: agree_def)
  then show ?case by (simp del: map_eq_conv)
qed simp_all

lemma unread_eval: "op_reads op n = 0 \<Longrightarrow> agree {n} env env' \<Longrightarrow> eval_op M env w op = eval_op M env' w op"
  using agree_eval(1) [of "{n}" env env' op "\<lambda>_. 0" M w] by (simp add: op_reads_def zero_on_def)

section \<open>One fusion\<close>

text \<open>What the runtime documents about the three map operations: reading with default 0, adding and writing back is the
  increment. Constants that the pass takes to be equal mean the same.\<close>

definition fuse_laws :: "('v, 'w) machine \<Rightarrow> bool" where
  "fuse_laws M \<longleftrightarrow>
     (\<forall>c d t u. constsEqual c d \<longrightarrow> m_const M c t = m_const M d u) \<and>
     (\<forall>m k t u w v w'. m_call M (IntrinsicTarget IntrinsicMapGetOr) [m, k, m_const M (IntConst 0 t) u] w = Some (v, w') \<longrightarrow>
        w' = w \<and>
        (\<forall>\<delta> ty s x w2. (m_rv M (OpBinary BinAdd ty) [v, \<delta>] w = Some s \<or> m_rv M (OpBinary BinAdd ty) [\<delta>, v] w = Some s) \<and>
           m_call M (IntrinsicTarget IntrinsicMapSet) [m, k, s] w = Some (x, w2) \<longrightarrow>
           m_call M (IntrinsicTarget IntrinsicMapIncr) [m, k, \<delta>] w = Some (s, w2)))"

lemma fuse_laws_const: "fuse_laws M \<Longrightarrow> constsEqual c d \<Longrightarrow> m_const M c t = m_const M d u"
  unfolding fuse_laws_def by blast

lemma fuse_laws_incr:
  assumes "fuse_laws M" "m_call M (IntrinsicTarget IntrinsicMapGetOr) [m, k, m_const M (IntConst 0 t) u] w = Some (v, w')"
  shows "w' = w"
    "m_rv M (OpBinary BinAdd ty) [v, \<delta>] w = Some s \<or> m_rv M (OpBinary BinAdd ty) [\<delta>, v] w = Some s \<Longrightarrow>
      m_call M (IntrinsicTarget IntrinsicMapSet) [m, k, s] w = Some (x, w2) \<Longrightarrow>
      m_call M (IntrinsicTarget IntrinsicMapIncr) [m, k, \<delta>] w = Some (s, w2)"
  using assms unfolding fuse_laws_def by blast+

lemma same_operand_eval:
  assumes "fuse_laws M"
  shows "sameOperandPlace a b \<Longrightarrow> eval_op M env w a = eval_op M env w b"
    and "placesEqual p q \<Longrightarrow> eval_place M env w p = eval_place M env w q"
    and "length ps = length qs \<Longrightarrow> projs_equal ps qs \<Longrightarrow> map (eval_step M env w) ps = map (eval_step M env w) qs"
    and "projectionsEqual pr pq \<Longrightarrow> eval_step M env w pr = eval_step M env w pq"
proof (induction a b and p q and ps qs and pr pq rule: sameOperandPlace_placesEqual_projs_equal_projectionsEqual.induct)
  case (3 c t b)
  then obtain d u where d: "b = ConstOp d u" "constsEqual c d" by (auto split: Operand.splits)
  then have "c \<noteq> NilConst" "d \<noteq> NilConst" by (auto simp: constsEqual_def split: Const.splits)
  then show ?case using d fuse_laws_const [OF assms d(2), of t u] by simp
next
  case (5 l ps q)
  then show ?case by (cases q) (simp del: map_eq_conv)
qed (auto split: Operand.splits Projection.splits list.splits)

lemma isCopy_eval: "isCopyOfLocal op l \<Longrightarrow> eval_op M env w op = Some (env l)"
proof -
  assume "isCopyOfLocal op l"
  then obtain p t where "op = CopyOp p t \<or> op = MoveOp p t" "place_Local p = l" "Projections p = []"
    by (auto simp: isCopyOfLocal_def HasProjections_def split: Operand.splits)
  then show ?thesis by (cases p) auto
qed

lemma isCopy_reads: "isCopyOfLocal op n \<Longrightarrow> op_reads op l = (if l = n then 1 else 0)"
proof -
  assume "isCopyOfLocal op n"
  then obtain p t where "op = CopyOp p t \<or> op = MoveOp p t" "place_Local p = n" "Projections p = []"
    by (auto simp: isCopyOfLocal_def HasProjections_def split: Operand.splits)
  then show ?thesis by (cases p) (auto simp: op_reads_def read_local_def)
qed

text \<open>The shape of a triple that is fused.\<close>

lemma fuse_triple_shape:
  assumes "fuse_triple fn own i x y z = Some (Some f)"
  obtains n gm gk ct ct' rest v l r ty \<delta> sm sk sv where
    "x = IntrinsicInstr (Some n) IntrinsicMapGetOr (gm # gk # ConstOp (IntConst 0 ct) ct' # rest)"
    "y = AssignInstr (Place v []) (BinaryRV BinAdd l r ty)"
    "isCopyOfLocal l (place_Local n) \<and> \<delta> = r \<or> isCopyOfLocal r (place_Local n) \<and> \<delta> = l"
    "z = IntrinsicInstr None IntrinsicMapSet [sm, sk, sv]" "sameOperandPlace gm sm" "sameOperandPlace gk sk" "isCopyOfLocal sv v"
    "\<not> localUsageOutside fn (place_Local n) own i (i + 1)" "\<not> localUsageOutside fn v own (i + 1) (i + 2)"
    "f = IntrinsicInstr (Some (Place v [])) IntrinsicMapIncr [gm, gk, \<delta>]"
proof -
  obtain n gargs where x: "x = IntrinsicInstr (Some n) IntrinsicMapGetOr gargs" "\<not> length gargs < 3" "isZeroIntConstOperand (gargs ! 2)"
    using assms by (auto simp: fuse_triple_def split: Instr.splits option.splits if_splits)
  obtain gm gk g rest where g: "gargs = gm # gk # g # rest" using x(2)
    by (cases gargs; cases "tl gargs"; cases "tl (tl gargs)") auto
  obtain ct ct' where g2: "g = ConstOp (IntConst 0 ct) ct'" using x(3) g
    by (auto simp: isZeroIntConstOperand_def split: Operand.splits Const.splits)
  obtain p l r ty where y: "y = AssignInstr p (BinaryRV BinAdd l r ty)" "Projections p = []"
    using assms x(2,3) unfolding x(1) by (auto simp: fuse_triple_def HasProjections_def split: Instr.splits RValue.splits BinaryOp.splits if_splits)
  obtain \<delta> where d: "matchAddOfLocal l r (place_Local n) = Some \<delta>"
    using assms x(2,3) y(2) unfolding x(1) y(1) by (auto simp: fuse_triple_def HasProjections_def split: option.splits)
  obtain sargs where z: "z = IntrinsicInstr None IntrinsicMapSet sargs" "length sargs = 3"
      "sameMapKeyOperands (gargs ! 0) (gargs ! 1) (sargs ! 0) (sargs ! 1)" "isCopyOfLocal (sargs ! 2) (place_Local p)"
      "\<not> localUsageOutside fn (place_Local n) own i (i + 1)" "\<not> localUsageOutside fn (place_Local p) own (i + 1) (i + 2)"
      "f = IntrinsicInstr (Some (Place (place_Local p) [])) IntrinsicMapIncr [gargs ! 0, gargs ! 1, \<delta>]"
    using assms x(2,3) y(2) d unfolding x(1) y(1) by (auto simp: fuse_triple_def HasProjections_def split: Instr.splits option.splits if_splits)
  obtain sm sk sv where s: "sargs = [sm, sk, sv]" using z(2) by (auto simp: numeral_3_eq_3 length_Suc_conv)
  have p: "p = Place (place_Local p) []" using y(2) by (cases p) simp
  have "isCopyOfLocal l (place_Local n) \<and> \<delta> = r \<or> isCopyOfLocal r (place_Local n) \<and> \<delta> = l"
    using d by (auto simp: matchAddOfLocal_def split: if_splits)
  then show thesis using that x(1) y(1) z g g2 s p by (simp add: sameMapKeyOperands_def)
qed

lemma fuse_triple_sim:
  assumes M: "fuse_laws M"
    and x: "x = IntrinsicInstr (Some (Place n [])) IntrinsicMapGetOr [gm, gk, ConstOp (IntConst 0 ct) ct']"
    and y: "y = AssignInstr (Place v []) (BinaryRV BinAdd l r ty)"
    and d: "isCopyOfLocal l n \<and> \<delta> = r \<or> isCopyOfLocal r n \<and> \<delta> = l"
    and z: "z = IntrinsicInstr None IntrinsicMapSet [sm, sk, sv]" "sameOperandPlace gm sm" "sameOperandPlace gk sk" "isCopyOfLocal sv v"
    and f: "f = IntrinsicInstr (Some (Place v [])) IntrinsicMapIncr [gm, gk, \<delta>]"
    and v: "\<not> operandTouchesLocal gm v" "\<not> operandTouchesLocal gk v"
    and n: "op_reads gm n = 0" "op_reads gk n = 0" "op_reads \<delta> n = 0"
  shows "sim_instrs M {n} [x, y, z] [f]"
proof (rule sim_instrsI)
  fix env env' w env1 w1
  assume a: "agree {n} env env'" and e: "exec_instrs M [x, y, z] (env, w) = Some (env1, w1)"
  obtain m k a0 w0 where 1: "eval_op M env w gm = Some m" "eval_op M env w gk = Some k"
      "m_call M (IntrinsicTarget IntrinsicMapGetOr) [m, k, m_const M (IntConst 0 ct) ct'] w = Some (a0, w0)"
      "exec_instrs M [y, z] (env(n := a0), w0) = Some (env1, w1)"
    using e unfolding x by (auto simp: exec_call_def eval_ops_def store_opt_def store_def bind_eq_Some_conv split: option.splits)
  have w0: "w0 = w" by (rule fuse_laws_incr(1) [OF M 1(3)])
  let ?env = "env(n := a0)"
  obtain d0 s where 2: "eval_op M ?env w \<delta> = Some d0"
      "m_rv M (OpBinary BinAdd ty) [a0, d0] w = Some s \<or> m_rv M (OpBinary BinAdd ty) [d0, a0] w = Some s"
      "exec_instrs M [z] (?env(v := s), w) = Some (env1, w1)"
    using 1(4) d isCopy_eval [of l n M ?env w] isCopy_eval [of r n M ?env w] unfolding y w0
    by (auto simp: eval_ops_def store_def bind_eq_Some_conv split: option.splits)
  have keep: "eval_op M (?env(v := s)) w op = eval_op M env w op" if "\<not> operandTouchesLocal op v" "op_reads op n = 0" for op
    using untouched_eval(1) [OF that(1), of "?env(v := s)" ?env M w] unread_eval [OF that(2), of ?env env M w] by (simp add: agree_def)
  have "eval_op M (?env(v := s)) w sm = Some m" "eval_op M (?env(v := s)) w sk = Some k" "eval_op M (?env(v := s)) w sv = Some s"
    using same_operand_eval(1) [OF M z(2)] same_operand_eval(1) [OF M z(3)] keep v n 1(1,2) isCopy_eval [OF z(4)]
    by (metis fun_upd_same)+
  then obtain x' where 3: "m_call M (IntrinsicTarget IntrinsicMapSet) [m, k, s] w = Some (x', w1)" "env1 = ?env(v := s)"
    using 2(3) unfolding z(1) by (auto simp: exec_call_def eval_ops_def store_opt_def bind_eq_Some_conv)
  have "m_call M (IntrinsicTarget IntrinsicMapIncr) [m, k, d0] w = Some (s, w1)"
    by (rule fuse_laws_incr(2) [OF M 1(3) 2(2) 3(1)])
  moreover have "eval_op M env' w gm = Some m" "eval_op M env' w gk = Some k" "eval_op M env' w \<delta> = Some d0"
    using 1(1,2) 2(1) unread_eval [OF n(1) a, of M w] unread_eval [OF n(2) a, of M w] unread_eval [OF n(3), of ?env env' M w] a by (simp_all add: agree_def)
  ultimately have "exec_instrs M [f] (env', w) = Some (env'(v := s), w1)"
    unfolding f by (simp add: exec_call_def eval_ops_def store_opt_def store_def)
  then show "\<exists>env1'. exec_instrs M [f] (env', w) = Some (env1', w1) \<and> agree {n} env1 env1'"
    using a 3(2) by (auto simp: agree_def)
qed

section \<open>The pass\<close>

text \<open>What the comment on the pass asks of the temporaries: the value read from the map is read once. The reads of the map with a
  default have their three arguments and assign to a local of the function.\<close>

definition getor_ok :: "Function \<Rightarrow> Instr \<Rightarrow> bool" where
  "getor_ok fn x =
     (case x of IntrinsicInstr (Some d) k args \<Rightarrow>
        k = IntrinsicMapGetOr \<longrightarrow> length args = 3 \<and> place_Local d < length (Locals fn) \<and> collectLocalReads fn (place_Local d) \<le> 1
      | _ \<Rightarrow> True)"

definition getors_once :: "Function \<Rightarrow> bool" where
  "getors_once fn \<longleftrightarrow> list_all (\<lambda>b. case b of None \<Rightarrow> True | Some bb \<Rightarrow> list_all (getor_ok fn) (Instrs bb)) (Blocks fn)"

lemma getors_onceD: "getors_once fn \<Longrightarrow> Block fn b = Some bb \<Longrightarrow> x \<in> set (Instrs bb) \<Longrightarrow> getor_ok fn x"
  by (force simp: getors_once_def Block_def list_all_iff split: if_splits option.splits dest: nth_mem)

lemma set_block_reads:
  assumes "Block fn b = Some bb" "Term bb' = Term bb"
  shows "collectLocalReads (set_block fn b bb') l + instrs_reads (Instrs bb) l = collectLocalReads fn l + instrs_reads (Instrs bb') l"
proof -
  let ?g = "\<lambda>x. block_reads fn x l"
  have b: "b < length (Blocks fn)" "Blocks fn ! b = Some bb" using assms(1) by (auto simp: Block_def split: if_splits)
  have "countTerm (set_block fn b bb') t r = countTerm fn t r" for t r by (cases t) (simp_all add: set_block_def)
  then have "block_reads (set_block fn b bb') x l = ?g x" for x by (simp add: block_reads_def split: option.split)
  then have new: "collectLocalReads (set_block fn b bb') l = sum_list ((map ?g (Blocks fn))[b := ?g (Some bb')])"
    by (simp add: collectLocalReads_sum set_block_def map_update)
  have "?g (Some bb) \<le> sum_list (map ?g (Blocks fn))" using elem_le_sum_list [of b "map ?g (Blocks fn)"] b by simp
  then have "sum_list ((map ?g (Blocks fn))[b := ?g (Some bb')]) + ?g (Some bb) = sum_list (map ?g (Blocks fn)) + ?g (Some bb')"
    using b by (simp add: sum_list_update)
  then show ?thesis using new assms(2) by (simp add: collectLocalReads_sum block_reads_def)
qed

lemma block_reads_le: "Block fn b = Some bb \<Longrightarrow> block_reads fn (Some bb) l \<le> collectLocalReads fn l"
  using elem_le_sum_list [of b "map (\<lambda>x. block_reads fn x l) (Blocks fn)"] by (auto simp: collectLocalReads_sum Block_def split: if_splits)

lemma triple_split:
  assumes "i + 2 < length xs"
  shows "xs = take i xs @ [xs ! i, xs ! (i + 1), xs ! (i + 2)] @ drop (i + 3) xs"
proof -
  have "drop i xs = xs ! i # xs ! (i + 1) # xs ! (i + 2) # drop (i + 3) xs"
    using assms by (simp add: Cons_nth_drop_Suc [symmetric] eval_nat_numeral)
  then show ?thesis using append_take_drop_id [of i xs] by simp
qed

lemma untouched_outside:
  assumes "\<not> localUsageOutside fn l own m n" "Block fn b = Some bb" "own = block_ID bb" "j < length (Instrs bb)" "j < m"
  shows "\<not> instrTouchesLocal (Instrs bb ! j) l"
proof
  assume t: "instrTouchesLocal (Instrs bb ! j) l"
  have "Some bb \<in> set (Blocks fn)" using assms(2) by (auto simp: Block_def split: if_splits) (metis nth_mem)
  moreover have "(j, Instrs bb ! j) \<in> set (enumerate 0 (Instrs bb))" using assms(4) by (simp add: in_set_enumerate_eq)
  ultimately have "localUsageOutside fn l own m n" using t assms(3,5)
    unfolding localUsageOutside_def list_ex_iff by (intro bexI [of _ "Some bb"]) (auto intro!: bexI [of _ "(j, Instrs bb ! j)"])
  then show False using assms(1) by simp
qed

text \<open>The reads of the fused instruction are among those of the first two instructions, less the one of the local.\<close>

lemma fuse_triple_reads:
  assumes "x = IntrinsicInstr (Some p) IntrinsicMapGetOr [gm, gk, c]" "y = AssignInstr (Place v []) (BinaryRV BinAdd l r ty)"
    "isCopyOfLocal l n \<and> \<delta> = r \<or> isCopyOfLocal r n \<and> \<delta> = l" "f = IntrinsicInstr (Some (Place v [])) IntrinsicMapIncr [gm, gk, \<delta>]"
  shows "instr_reads f j + (if j = n then 1 else 0) + countDest p (\<lambda>_. 0) j \<le> instr_reads x j + instr_reads y j"
    "instr_reads f j = op_reads gm j + op_reads gk j + op_reads \<delta> j"
proof -
  have y: "instr_reads y j = op_reads l j + op_reads r j"
    unfolding assms(2) instr_reads_def op_reads_def using addsD [OF adds_operand, of r "countOperandReads l (\<lambda>_. 0)" j]
    by (simp add: countDest_def HasProjections_def)
  have "instr_reads x j = countDest p (\<lambda>_. 0) j + (op_reads gm j + (op_reads gk j + op_reads c j))"
    unfolding assms(1) instr_reads_def using ops_reads_fold [of "[gm, gk, c]" "countDestOpt (Some p) (\<lambda>_. 0)" j] by (simp add: countDestOpt_def)
  moreover show f: "instr_reads f j = op_reads gm j + op_reads gk j + op_reads \<delta> j"
    unfolding assms(4) instr_reads_def using ops_reads_fold [of "[gm, gk, \<delta>]" "\<lambda>_. 0" j]
    by (simp add: countDestOpt_def countDest_def HasProjections_def)
  ultimately show "instr_reads f j + (if j = n then 1 else 0) + countDest p (\<lambda>_. 0) j \<le> instr_reads x j + instr_reads y j"
    using y assms(3) isCopy_reads by auto
qed

lemma countDest_zero: "countDest p (\<lambda>_. 0) (place_Local p) = 0 \<Longrightarrow> p = Place (place_Local p) []"
proof (cases p)
  case (Place l ps)
  assume z: "countDest p (\<lambda>_. 0) (place_Local p) = 0"
  have "fold countProjReads ps (read_local l (\<lambda>_. 0)) l = read_local l (\<lambda>_. 0) l + fold countProjReads ps (\<lambda>_. 0) l"
    by (rule addsD [OF adds_fold]) (rule adds_proj)
  then show ?thesis using z Place by (auto simp: countDest_def HasProjections_def read_local_def split: if_splits)
qed

text \<open>If the value read from the map is read once, nothing reads it after the fusion.\<close>

lemma fuse_facts:
  assumes ok: "getors_once fn" and bb: "Block fn b = Some bb" and i: "i + 2 < length (Instrs bb)"
    and fuse: "fuse_triple fn (block_ID bb) i (Instrs bb ! i) (Instrs bb ! (i + 1)) (Instrs bb ! (i + 2)) = Some (Some f)"
    and fn': "fn' = set_block fn b (bb\<lparr>Instrs := take i (Instrs bb) @ f # drop (i + 3) (Instrs bb)\<rparr>)"
  obtains n gm gk ct ct' v l r ty \<delta> sm sk sv where
    "Instrs bb ! i = IntrinsicInstr (Some (Place n [])) IntrinsicMapGetOr [gm, gk, ConstOp (IntConst 0 ct) ct']"
    "Instrs bb ! (i + 1) = AssignInstr (Place v []) (BinaryRV BinAdd l r ty)"
    "isCopyOfLocal l n \<and> \<delta> = r \<or> isCopyOfLocal r n \<and> \<delta> = l"
    "Instrs bb ! (i + 2) = IntrinsicInstr None IntrinsicMapSet [sm, sk, sv]" "sameOperandPlace gm sm" "sameOperandPlace gk sk" "isCopyOfLocal sv v"
    "f = IntrinsicInstr (Some (Place v [])) IntrinsicMapIncr [gm, gk, \<delta>]"
    "\<not> instrTouchesLocal (Instrs bb ! i) v" "n < length (Locals fn)" "collectLocalReads fn' n = 0"
    "\<forall>j. collectLocalReads fn' j \<le> collectLocalReads fn j"
proof -
  let ?xs = "Instrs bb" and ?bb' = "bb\<lparr>Instrs := take i (Instrs bb) @ f # drop (i + 3) (Instrs bb)\<rparr>"
  obtain p gm gk ct ct' rest v l r ty \<delta> sm sk sv where
    x: "?xs ! i = IntrinsicInstr (Some p) IntrinsicMapGetOr (gm # gk # ConstOp (IntConst 0 ct) ct' # rest)" and
    y: "?xs ! (i + 1) = AssignInstr (Place v []) (BinaryRV BinAdd l r ty)" and
    d: "isCopyOfLocal l (place_Local p) \<and> \<delta> = r \<or> isCopyOfLocal r (place_Local p) \<and> \<delta> = l" and
    z: "?xs ! (i + 2) = IntrinsicInstr None IntrinsicMapSet [sm, sk, sv]" "sameOperandPlace gm sm" "sameOperandPlace gk sk" "isCopyOfLocal sv v" and
    "\<not> localUsageOutside fn (place_Local p) (block_ID bb) i (i + 1)" and out: "\<not> localUsageOutside fn v (block_ID bb) (i + 1) (i + 2)" and
    f: "f = IntrinsicInstr (Some (Place v [])) IntrinsicMapIncr [gm, gk, \<delta>]"
    by (rule fuse_triple_shape [OF fuse])
  let ?n = "place_Local p"
  have "?xs ! i \<in> set ?xs" using i by simp
  from getors_onceD [OF ok bb this]
  have g: "rest = []" "?n < length (Locals fn)" "collectLocalReads fn ?n \<le> 1" unfolding x by (simp_all add: getor_ok_def)
  note x' = x [unfolded g(1)]
  have le: "collectLocalReads fn' j + countDest p (\<lambda>_. 0) j + (if j = ?n then 1 else 0) \<le> collectLocalReads fn j" for j
    using fuse_triple_reads(1) [OF x' y d f, of j] arg_cong [OF triple_split [OF i], of "\<lambda>xs. instrs_reads xs j"]
      set_block_reads [OF bb, of ?bb' j] unfolding fn' by simp
  have zero: "collectLocalReads fn' ?n = 0" "countDest p (\<lambda>_. 0) ?n = 0" using le [of ?n] g(3) by simp_all
  have p: "p = Place ?n []" by (rule countDest_zero [OF zero(2)])
  have "\<not> instrTouchesLocal (?xs ! i) v" using untouched_outside [OF out bb refl, of i] i by simp
  moreover have "collectLocalReads fn' j \<le> collectLocalReads fn j" for j using le [of j] by simp
  moreover have "?xs ! i = IntrinsicInstr (Some (Place ?n [])) IntrinsicMapGetOr [gm, gk, ConstOp (IntConst 0 ct) ct']" using x' p by simp
  ultimately show thesis using that y d z f zero(1) g(2) by blast
qed

lemma fuse_step_refines:
  assumes M: "fuse_laws M" and ok: "getors_once fn" and bb: "Block fn b = Some bb" and i: "i + 2 < length (Instrs bb)"
    and fuse: "fuse_triple fn (block_ID bb) i (Instrs bb ! i) (Instrs bb ! (i + 1)) (Instrs bb ! (i + 2)) = Some (Some f)"
    and fn': "fn' = set_block fn b (bb\<lparr>Instrs := take i (Instrs bb) @ f # drop (i + 3) (Instrs bb)\<rparr>)"
  shows "refines M fn fn'"
proof -
  let ?xs = "Instrs bb" and ?bb' = "bb\<lparr>Instrs := take i (Instrs bb) @ f # drop (i + 3) (Instrs bb)\<rparr>"
  obtain n gm gk ct ct' v l r ty \<delta> sm sk sv where
    x: "?xs ! i = IntrinsicInstr (Some (Place n [])) IntrinsicMapGetOr [gm, gk, ConstOp (IntConst 0 ct) ct']" and
    y: "?xs ! (i + 1) = AssignInstr (Place v []) (BinaryRV BinAdd l r ty)" and
    d: "isCopyOfLocal l n \<and> \<delta> = r \<or> isCopyOfLocal r n \<and> \<delta> = l" and
    z: "?xs ! (i + 2) = IntrinsicInstr None IntrinsicMapSet [sm, sk, sv]" "sameOperandPlace gm sm" "sameOperandPlace gk sk" "isCopyOfLocal sv v" and
    f: "f = IntrinsicInstr (Some (Place v [])) IntrinsicMapIncr [gm, gk, \<delta>]" and
    out: "\<not> instrTouchesLocal (?xs ! i) v" and n: "n < length (Locals fn)" "collectLocalReads fn' n = 0" and
    "\<forall>j. collectLocalReads fn' j \<le> collectLocalReads fn j"
    by (rule fuse_facts [OF ok bb i fuse fn'])
  have blk: "Block fn' c = (if c = b then Some ?bb' else Block fn c)" for c unfolding fn' block_set_block using block_range [OF bb] by simp
  have bz: "block_reads fn' (Some cc) n = 0" if "Block fn' c = Some cc" for c cc using block_reads_le [OF that, of n] n(2) by simp
  have ct: "countTerm fn' t q = countTerm fn t q" for t q by (cases t) (simp_all add: fn' set_block_def)
  have fz: "instr_reads f n = 0" "instrs_reads (take i ?xs) n = 0" "instrs_reads (drop (i + 3) ?xs) n = 0"
    using bz [of b ?bb'] blk by (simp_all add: block_reads_def)
  have "sim_instrs M {n} [?xs ! i, ?xs ! (i + 1), ?xs ! (i + 2)] [f]"
    using fuse_triple_sim [OF M x y d z f] out x fuse_triple_reads(2) [OF x y d f, of n] fz(1) by simp
  from sim_append [OF same_instrs_sim [OF fz(2)] sim_append [OF this same_instrs_sim [OF fz(3)]]]
  have "sim_instrs M {n} ?xs (Instrs ?bb')" unfolding triple_split [OF i, symmetric] by simp
  moreover have "sim_instrs M {n} (Instrs cc) (Instrs cc)" if "Block fn c = Some cc" "c \<noteq> b" for c cc
    using bz [of c cc] blk that by (intro same_instrs_sim) (simp add: block_reads_def)
  moreover have "zero_on {n} (countTerm fn (Term cc) (\<lambda>_. 0))" if "Block fn c = Some cc" for c cc
    using bz [of c] blk [of c] that bb by (cases "c = b") (auto simp: block_reads_def zero_on_def ct)
  ultimately have sim: "\<exists>bb' r. Block fn' c = Some bb' \<and> Term bb' = Term cc \<and> sim_instrs M {n} (Instrs cc) (Instrs bb') \<and>
      zero_on {n} (countTerm fn (Term cc) r)" if "Block fn c = Some cc" for c cc
    using that bb blk [of c] by (cases "c = b") (auto intro!: exI [of _ "\<lambda>_. 0"])
  have "run M fn' m c s = Some q" if "run M fn m c s = Some q" for m c s q
    using agree_run [OF sim, of "fst s" "fst s" m c "snd s" q] that n(1) by (simp add: agree_refl fn' set_block_def)
  then show ?thesis by (simp add: refines_def fn' set_block_def)
qed

lemma fuse_step_once:
  assumes ok: "getors_once fn" and bb: "Block fn b = Some bb" and i: "i + 2 < length (Instrs bb)"
    and fuse: "fuse_triple fn (block_ID bb) i (Instrs bb ! i) (Instrs bb ! (i + 1)) (Instrs bb ! (i + 2)) = Some (Some f)"
    and fn': "fn' = set_block fn b (bb\<lparr>Instrs := take i (Instrs bb) @ f # drop (i + 3) (Instrs bb)\<rparr>)"
  shows "getors_once fn'"
proof -
  have le: "collectLocalReads fn' j \<le> collectLocalReads fn j" for j by (rule fuse_facts [OF ok bb i fuse fn']) blast
  have "getor_ok fn' f" by (rule fuse_facts [OF ok bb i fuse fn']) (simp add: getor_ok_def fused_kinds)
  moreover have keep: "getor_ok fn' x" if "getor_ok fn x" for x
    using that le_trans [OF le] by (auto simp: getor_ok_def fn' set_block_def split: Instr.splits option.splits)
  moreover have "getor_ok fn x" if "x \<in> set (take i (Instrs bb)) \<or> x \<in> set (drop (i + 3) (Instrs bb))" for x
    using getors_onceD [OF ok bb] that by (auto dest: in_set_takeD in_set_dropD)
  moreover have "list_all (getor_ok fn') (Instrs cc)" if "Some cc \<in> set (Blocks fn)" for cc
    using ok that keep by (force simp: getors_once_def list_all_iff)
  ultimately show ?thesis unfolding getors_once_def list_all_iff fn' set_block_def
    by (auto dest!: subsetD [OF set_update_subset_insert] split: option.split)
qed

lemma fuse_triple_None: "fuse_triple fn own i x y z = None \<Longrightarrow> \<exists>d args. x = IntrinsicInstr (Some d) IntrinsicMapGetOr args \<and> length args < 3"
  by (auto simp: fuse_triple_def split: Instr.splits option.splits RValue.splits BinaryOp.splits if_splits)

lemma fuse_triple_total: "getor_ok fn x \<Longrightarrow> fuse_triple fn own i x y z \<noteq> None"
  using fuse_triple_None by (fastforce simp: getor_ok_def)

lemma fuse_from_refines:
  assumes "fuse_laws M"
  shows "getors_once fn \<Longrightarrow> \<exists>fn'. fuse_from fn b i = Some fn' \<and> refines M fn fn' \<and> getors_once fn'"
proof (induction fn b i rule: fuse_from.induct)
  case (1 fn b i)
  show ?case
  proof (cases "\<exists>bb. Block fn b = Some bb \<and> i + 2 < length (Instrs bb)")
    case True
    then obtain bb where bb: "Block fn b = Some bb" and i: "i + 2 < length (Instrs bb)" by blast
    let ?t = "fuse_triple fn (block_ID bb) i (Instrs bb ! i) (Instrs bb ! (i + 1)) (Instrs bb ! (i + 2))"
    have "getor_ok fn (Instrs bb ! i)" using getors_onceD [OF "1.prems" bb] i by simp
    then obtain t where o: "?t = Some t" using fuse_triple_total by blast
    show ?thesis
    proof (cases t)
      case None
      then have "fuse_from fn b i = fuse_from fn b (i + 1)" using bb i o by (subst fuse_from.simps) simp
      then show ?thesis using "1.IH"(1) [OF bb i] o None "1.prems" by simp
    next
      case (Some f)
      let ?fn = "set_block fn b (bb\<lparr>Instrs := take i (Instrs bb) @ f # drop (i + 3) (Instrs bb)\<rparr>)"
      have t: "?t = Some (Some f)" using o Some by simp
      have "fuse_from fn b i = fuse_from ?fn b i" using bb i t by (subst fuse_from.simps) simp
      then show ?thesis using "1.IH"(2) [OF bb i t] fuse_step_refines [OF assms "1.prems" bb i t refl]
          fuse_step_once [OF "1.prems" bb i t refl] refines_trans by fastforce
    qed
  next
    case False
    then have "fuse_from fn b i = Some fn" by (subst fuse_from.simps) (auto split: option.split)
    then show ?thesis using "1.prems" refines_refl by blast
  qed
qed

lemma fuse_blocks_refines:
  assumes "fuse_laws M"
  shows "getors_once fn \<Longrightarrow> \<exists>fn'. fuse_blocks bs fn = Some fn' \<and> refines M fn fn' \<and> getors_once fn'"
proof (induction bs arbitrary: fn)
  case (Cons b bs)
  obtain f1 where "fuse_from fn b 0 = Some f1" "refines M fn f1" "getors_once f1" using fuse_from_refines [OF assms Cons.prems] by blast
  then show ?case using Cons.IH [of f1] refines_trans by fastforce
qed (simp add: refines_refl)

end
