(* ===== verification/MIR_Fuse_Valid.thy ===== *)
theory MIR_Fuse_Valid
  imports MIR_Valid_Passes MIR_Fuse_Correct
begin

text \<open>
  The rewrites that run before the fixed point of the optimiser return on every valid function, and what they return is valid. For the
  fusion of counters and the hoisting of splits this file shows it; for the fusion of segments it shows what the scan of the function collects,
  and \<^verbatim>\<open>MIR_Pipeline\<close> the rest.
\<close>

section \<open>Instructions the optimiser handles\<close>

text \<open>Of a read with default the fusion of counters takes the third argument, without looking whether there is one.\<close>

definition arity_ok :: "Instr \<Rightarrow> bool" where
  "arity_ok x = (case x of IntrinsicInstr (Some d) k args \<Rightarrow> k = IntrinsicMapGetOr \<longrightarrow> length args \<ge> 3 | _ \<Rightarrow> True)"

definition instr_good :: "Local option list \<Rightarrow> Instr \<Rightarrow> bool" where
  "instr_good ls x \<longleftrightarrow> instr_valid ls x \<and> ordinary_instr x \<and> arity_ok x"

definition arity_fn :: "Function \<Rightarrow> bool" where
  "arity_fn fn \<longleftrightarrow> list_all (\<lambda>b. case b of None \<Rightarrow> True | Some bb \<Rightarrow> list_all arity_ok (Instrs bb)) (Blocks fn)"

text \<open>What every pass keeps, with the name of the function.\<close>

definition fn_ok :: "string \<Rightarrow> Function \<Rightarrow> bool" where
  "fn_ok nm fn \<longleftrightarrow> fn_Name fn = nm \<and> valid_fn fn \<and> ordinary_fn fn \<and> arity_fn fn"

lemma fn_ok_iff: "fn_ok nm fn \<longleftrightarrow> fn_Name fn = nm \<and> \<not> IsExternal fn \<and> \<not> IsIntrinsic fn \<and> head_ok fn \<and> Entry fn < length (Blocks fn) \<and>
    (\<forall>b < length (Blocks fn). \<exists>bb. Blocks fn ! b = Some bb \<and> block_ID bb = b \<and> term_ok (Locals fn) (length (Blocks fn)) (Term bb) \<and>
       list_all (instr_good (Locals fn)) (Instrs bb))"
proof -
  have o: "ordinary_fn fn \<longleftrightarrow> (\<forall>b < length (Blocks fn). \<forall>bb. Blocks fn ! b = Some bb \<longrightarrow> list_all ordinary_instr (Instrs bb))"
    "arity_fn fn \<longleftrightarrow> (\<forall>b < length (Blocks fn). \<forall>bb. Blocks fn ! b = Some bb \<longrightarrow> list_all arity_ok (Instrs bb))"
    by (auto simp: ordinary_fn_def arity_fn_def list_all_length split: option.splits)
  have "(\<exists>bb. Blocks fn ! b = Some bb \<and> block_ID bb = b \<and> block_ok (Locals fn) (length (Blocks fn)) bb) \<and>
      (\<forall>bb. Blocks fn ! b = Some bb \<longrightarrow> list_all ordinary_instr (Instrs bb)) \<and> (\<forall>bb. Blocks fn ! b = Some bb \<longrightarrow> list_all arity_ok (Instrs bb)) \<longleftrightarrow>
    (\<exists>bb. Blocks fn ! b = Some bb \<and> block_ID bb = b \<and> term_ok (Locals fn) (length (Blocks fn)) (Term bb) \<and>
       list_all (instr_good (Locals fn)) (Instrs bb))" for b
    by (cases "Blocks fn ! b") (auto simp: block_ok_def instr_good_def list_all_iff)
  then have "body_ok (Locals fn) (Blocks fn) \<and> ordinary_fn fn \<and> arity_fn fn \<longleftrightarrow> (\<forall>b < length (Blocks fn). \<exists>bb. Blocks fn ! b = Some bb \<and>
      block_ID bb = b \<and> term_ok (Locals fn) (length (Blocks fn)) (Term bb) \<and> list_all (instr_good (Locals fn)) (Instrs bb))"
    unfolding body_ok_def o by blast
  then show ?thesis unfolding fn_ok_def valid_fn_iff by auto
qed

lemma fn_ok_block:
  assumes "fn_ok nm fn" "Block fn b = Some bb"
  shows "list_all (instr_good (Locals fn)) (Instrs bb)" "block_ID bb = b" "b < length (Blocks fn)"
proof -
  show b: "b < length (Blocks fn)" by (rule block_range [OF assms(2)])
  have "Blocks fn ! b = Some bb" using assms(2) b by (simp add: Block_def)
  then show "list_all (instr_good (Locals fn)) (Instrs bb)" "block_ID bb = b" using assms(1) b unfolding fn_ok_iff by auto
qed

lemma fn_ok_Block: "fn_ok nm fn \<Longrightarrow> b < length (Blocks fn) \<Longrightarrow> \<exists>bb. Block fn b = Some bb"
  unfolding fn_ok_iff Block_def by fastforce

lemma set_block_ok:
  assumes "fn_ok nm fn" "Block fn b = Some bb" "list_all (instr_good (Locals fn)) xs"
  shows "fn_ok nm (set_block fn b (bb\<lparr>Instrs := xs\<rparr>))"
proof -
  have b: "b < length (Blocks fn)" by (rule block_range [OF assms(2)])
  have "Blocks fn ! b = Some bb" using assms(2) b by (simp add: Block_def)
  then show ?thesis using assms(1,3) b unfolding fn_ok_iff set_block_def
    by (simp add: head_ok_body nth_list_update) fastforce
qed

section \<open>New locals\<close>

lemma grow_ok:
  "op_ok ls op \<Longrightarrow> op_ok (ls @ xs) op" "place_ok ls p \<Longrightarrow> place_ok (ls @ xs) p" "proj_ok ls pr \<Longrightarrow> proj_ok (ls @ xs) pr"
  by (induction ls op and ls p and ls pr rule: op_ok_place_ok_proj_ok.induct) (auto simp: nth_append)

lemma grow_instr: "instr_good ls x \<Longrightarrow> instr_good (ls @ xs) x"
proof -
  have ops: "list_all (op_ok ls) ops \<Longrightarrow> list_all (op_ok (ls @ xs)) ops" for ops by (simp add: list_all_iff grow_ok)
  have rv: "rv_ok ls rv \<Longrightarrow> rv_ok (ls @ xs) rv" for rv by (cases rv) (simp_all add: grow_ok ops)
  have dest: "dest_ok ls d \<Longrightarrow> dest_ok (ls @ xs) d" for d by (cases d) (simp_all add: dest_ok_def grow_ok)
  have callee: "callee_ok ls c \<Longrightarrow> callee_ok (ls @ xs) c" for c by (cases c) (simp_all add: grow_ok)
  have "instr_valid ls x \<Longrightarrow> instr_valid (ls @ xs) x" by (cases x) (auto simp: grow_ok ops rv dest callee nth_append)
  then show "instr_good ls x \<Longrightarrow> instr_good (ls @ xs) x" by (simp add: instr_good_def)
qed

lemma grow_params: "fst (validate_params ls i ps seen) = [] \<Longrightarrow> validate_params (ls @ xs) i ps seen = validate_params ls i ps seen"
  by (induction ls i ps seen rule: validate_params.induct) (auto simp: Let_def nth_append split: if_splits option.splits)

lemma grow_locals:
  "validate_locals fn ps i seen ls = [] \<Longrightarrow> loc_ID x = i + length ls \<Longrightarrow> loc_Type x \<noteq> None \<Longrightarrow> \<not> IsParam x \<Longrightarrow> \<not> IsReturn x \<Longrightarrow>
    validate_locals fn ps i seen (ls @ [Some x]) = []"
  by (induction fn ps i seen ls rule: validate_locals.induct) auto

lemma validate_locals_fn: "validate_locals (fn\<lparr>Locals := ys\<rparr>) ps i seen ls = validate_locals fn ps i seen ls"
  by (induction fn ps i seen ls rule: validate_locals.induct) simp_all

lemma new_local_head:
  assumes "head_ok fn" "t \<noteq> None"
  shows "head_ok (snd (NewLocal name t mut fn))"
proof -
  let ?x = "\<lparr>loc_ID = length (Locals fn), loc_Name = name, loc_Type = t, loc_Mut = mut, IsParam = False, IsReturn = False\<rparr>"
  let ?r = "validate_params (Locals fn) 0 (Params fn) []"
  have h: "validate_return fn = []" "fst ?r = []" "validate_locals fn (snd ?r) 0 False (Locals fn) = []" "ReturnType fn \<noteq> None"
    using assms(1) by (simp_all add: head_ok_def Let_def)
  have "validate_return (fn\<lparr>Locals := Locals fn @ [Some ?x]\<rparr>) = []" using h(1)
    by (auto simp: validate_return_def nth_append split: if_splits option.splits)
  moreover have "validate_locals fn (snd ?r) 0 False (Locals fn @ [Some ?x]) = []"
    using grow_locals [OF h(3), of ?x] assms(2) by simp
  ultimately show ?thesis using h grow_params [OF h(2)]
    by (simp add: head_ok_def NewLocal_def Let_def validate_locals_fn)
qed

lemma new_local_ok:
  assumes "fn_ok nm fn" "t \<noteq> None"
  shows "fn_ok nm (snd (NewLocal name t mut fn))"
proof -
  have "term_ok ls n tm \<Longrightarrow> term_ok (ls @ xs) n tm" for ls xs n tm by (cases tm) (simp_all add: grow_ok)
  moreover have "list_all (instr_good ls) is \<Longrightarrow> list_all (instr_good (ls @ xs)) is" for ls xs "is" by (simp add: list_all_iff grow_instr)
  ultimately show ?thesis using assms(1) new_local_head [OF _ assms(2)] unfolding fn_ok_iff NewLocal_def by (fastforce simp: NewLocal_def)
qed

section \<open>Fusion of counters\<close>

lemma fuse_triple_good:
  assumes "fuse_triple fn own i x y z = Some (Some f)" "instr_good ls x" "instr_good ls y"
  shows "instr_good ls f"
proof (rule fuse_triple_shape [OF assms(1)], goal_cases)
  case (1 n gm gk ct ct' rest v l r ty \<delta> sm sk sv)
  then show ?case using assms(2,3) by (auto simp: instr_good_def arity_ok_def dest_ok_def fused_kinds)
qed

lemma good_nth: "list_all P xs \<Longrightarrow> i < length xs \<Longrightarrow> P (xs ! i)"
  by (simp add: list_all_length)

lemma good_splice: "list_all P xs \<Longrightarrow> list_all P ys \<Longrightarrow> list_all P (take i xs @ ys @ drop j xs)"
  by (auto simp: list_all_iff dest: in_set_takeD in_set_dropD)

lemma fuse_from_ok: "fn_ok nm fn \<Longrightarrow> \<exists>fn'. fuse_from fn b i = Some fn' \<and> fn_ok nm fn'"
proof (induction fn b i rule: fuse_from.induct)
  case (1 fn b i)
  show ?case
  proof (cases "\<exists>bb. Block fn b = Some bb \<and> i + 2 < length (Instrs bb)")
    case True
    then obtain bb where bb: "Block fn b = Some bb" and i: "i + 2 < length (Instrs bb)" by blast
    let ?t = "fuse_triple fn (block_ID bb) i (Instrs bb ! i) (Instrs bb ! (i + 1)) (Instrs bb ! (i + 2))"
    note good = fn_ok_block(1) [OF "1.prems" bb]
    have x: "instr_good (Locals fn) (Instrs bb ! i)" "instr_good (Locals fn) (Instrs bb ! (i + 1))" using good i by (simp_all add: good_nth)
    then have "?t \<noteq> None" using fuse_triple_None by (fastforce simp: instr_good_def arity_ok_def)
    then obtain t where t: "?t = Some t" by blast
    show ?thesis
    proof (cases t)
      case None
      then have "fuse_from fn b i = fuse_from fn b (i + 1)" using bb i t by (subst fuse_from.simps) simp
      then show ?thesis using "1.IH"(1) [OF bb i] t None "1.prems" by simp
    next
      case (Some f)
      let ?fn = "set_block fn b (bb\<lparr>Instrs := take i (Instrs bb) @ f # drop (i + 3) (Instrs bb)\<rparr>)"
      have t: "?t = Some (Some f)" using t Some by simp
      have "fuse_from fn b i = fuse_from ?fn b i" using bb i t by (subst fuse_from.simps) simp
      moreover have "fn_ok nm ?fn" using set_block_ok [OF "1.prems" bb] good_splice [OF good, of "[f]"] fuse_triple_good [OF t x] by simp
      ultimately show ?thesis using "1.IH"(2) [OF bb i t] by simp
    qed
  next
    case False
    then have "fuse_from fn b i = Some fn" by (subst fuse_from.simps) (auto split: option.split)
    then show ?thesis using "1.prems" by blast
  qed
qed

lemma fuse_blocks_ok: "fn_ok nm fn \<Longrightarrow> \<exists>fn'. fuse_blocks bs fn = Some fn' \<and> fn_ok nm fn'"
proof (induction bs arbitrary: fn)
  case (Cons b bs)
  then show ?case using fuse_from_ok [OF Cons.prems, of b 0] by auto
qed simp

section \<open>Hoisting of splits\<close>

lemma validate_locals_typed: "validate_locals fn ps i seen ls = [] \<Longrightarrow> j < length ls \<Longrightarrow> \<exists>loc. ls ! j = Some loc \<and> loc_Type loc \<noteq> None"
proof (induction fn ps i seen ls arbitrary: j rule: validate_locals.induct)
  case (3 fn ps i seen loc ls)
  then show ?case by (cases j) (auto split: if_splits)
qed simp_all

lemma fn_ok_local: "fn_ok nm fn \<Longrightarrow> l < length (Locals fn) \<Longrightarrow> \<exists>loc. Locals fn ! l = Some loc \<and> loc_Type loc \<noteq> None"
  using validate_locals_typed by (auto simp: fn_ok_iff head_ok_def Let_def)

lemma split_call_good:
  assumes "fn_ok nm fn" "Block fn b = Some bb" "i < length (Instrs bb)" "split_call (Instrs bb ! i) = Some (l, v, s)"
  shows "l < length (Locals fn)" "op_ok (Locals fn) v" "op_ok (Locals fn) s"
  using good_nth [OF fn_ok_block(1) [OF assms(1,2)] assms(3)] assms(4) by (auto simp: split_call_Some instr_good_def dest_ok_def)

text \<open>Splicing instructions into a block.\<close>

lemma splice_ok:
  "fn_ok nm fn \<Longrightarrow> Block fn b = Some bb \<Longrightarrow> list_all (instr_good (Locals fn)) ys \<Longrightarrow>
    fn_ok nm (set_block fn b (bb\<lparr>Instrs := take i (Instrs bb) @ ys @ drop j (Instrs bb)\<rparr>))"
  by (intro set_block_ok good_splice fn_ok_block(1))

lemma set_block_sel [simp]: "Locals (set_block fn b bb) = Locals fn" "length (Blocks (set_block fn b bb)) = length (Blocks fn)"
  by (simp_all add: set_block_def)

lemma new_local_sel [simp]: "length (Locals (snd (NewLocal name t mut fn))) = Suc (length (Locals fn))"
  "fst (NewLocal name t mut fn) = length (Locals fn)"
  by (simp_all add: NewLocal_def)

text \<open>What is valid before a local is added, and the local itself.\<close>

lemma new_local_valid:
  "op_ok (Locals fn) op \<Longrightarrow> op_ok (Locals (snd (NewLocal name t mut fn))) op"
  "l < length (Locals fn) \<Longrightarrow> Locals (snd (NewLocal name t mut fn)) ! l = Locals fn ! l"
  "Locals (snd (NewLocal name t mut fn)) ! length (Locals fn) =
    Some \<lparr>loc_ID = length (Locals fn), loc_Name = name, loc_Type = t, loc_Mut = mut, IsParam = False, IsReturn = False\<rparr>"
  by (simp_all add: NewLocal_def grow_ok nth_append)

lemma hoist_split_ok:
  assumes ok: "fn_ok nm fn" and ph: "ph < length (Blocks fn)" and bb: "Block fn b = Some bb"
    and l: "l < length (Locals fn)" and vs: "op_ok (Locals fn) v" "op_ok (Locals fn) s"
  shows "\<exists>fn'. hoist_split fn ph b i l v s = Some fn' \<and> fn_ok nm fn' \<and> length (Blocks fn') = length (Blocks fn)"
proof -
  obtain loc where loc: "Locals fn ! l = Some loc" "loc_Type loc \<noteq> None" using fn_ok_local [OF ok l] by blast
  define name where "name = ''_split_buf_'' @ itoa l"
  let ?fn1 = "snd (NewLocal name (loc_Type loc) True fn)" and ?buf = "length (Locals fn)"
  have ok1: "fn_ok nm ?fn1" by (rule new_local_ok [OF ok loc(2)])
  obtain pp where pp: "Block ?fn1 ph = Some pp" using fn_ok_Block [OF ok1] ph by fastforce
  let ?pre = "[StorageLiveInstr ?buf, AssignInstr (Place ?buf []) (AggregateRV AggList [] (loc_Type loc) 0 [])]"
  let ?fn2 = "set_block ?fn1 ph (pp\<lparr>Instrs := Instrs pp @ ?pre\<rparr>)"
  have "list_all (instr_good (Locals ?fn1)) ?pre" using loc(2) by (simp add: instr_good_def arity_ok_def new_local_valid)
  then have ok2: "fn_ok nm ?fn2" using set_block_ok [OF ok1 pp] fn_ok_block(1) [OF ok1 pp] by simp
  obtain b2 where b2: "Block ?fn2 b = Some b2" using fn_ok_Block [OF ok2] block_range [OF bb] by fastforce
  let ?new = "[IntrinsicInstr None IntrinsicStringSplitInto [CopyOp (Place ?buf []) (loc_Type loc), v, s],
      AssignInstr (Place l []) (UseRV (CopyOp (Place ?buf []) (loc_Type loc)))]"
  have "list_all (instr_good (Locals ?fn2)) ?new" using loc l vs
    by (simp add: instr_good_def arity_ok_def dest_ok_def fused_kinds new_local_valid)
  from splice_ok [OF ok2 b2 this]
  have "fn_ok nm (set_block ?fn2 b (b2\<lparr>Instrs := take i (Instrs b2) @ ?new @ drop (i + 1) (Instrs b2)\<rparr>))" .
  moreover have "hoist_split fn ph b i l v s = Some (set_block ?fn2 b (b2\<lparr>Instrs := take i (Instrs b2) @ ?new @ drop (i + 1) (Instrs b2)\<rparr>))"
    using loc(1) pp b2 by (simp add: hoist_split_def split_beta Let_def name_def)
  ultimately show ?thesis by simp
qed

lemma hoist_from_ok:
  "fn_ok nm fn \<Longrightarrow> ph < length (Blocks fn) \<Longrightarrow> \<exists>fn'. hoist_from fn ph b i = Some fn' \<and> fn_ok nm fn' \<and> length (Blocks fn') = length (Blocks fn)"
proof (induction fn ph b i rule: hoist_from.induct)
  case (1 fn ph b i)
  show ?case
  proof (cases "i < length (block_instrs fn b)")
    case i: True
    then obtain bb where bb: "Block fn b = Some bb" by (auto simp: block_instrs_def split: option.splits)
    have xs: "block_instrs fn b = Instrs bb" using bb by (simp add: block_instrs_def)
    show ?thesis
    proof (cases "split_call (block_instrs fn b ! i)")
      case None
      then show ?thesis using "1.IH"(1) [OF i None "1.prems"] i by (subst hoist_from.simps) simp
    next
      case (Some c)
      then obtain l v s where c: "split_call (block_instrs fn b ! i) = Some (l, v, s)" by (cases c) auto
      have g: "l < length (Locals fn)" "op_ok (Locals fn) v" "op_ok (Locals fn) s"
        using split_call_good [OF "1.prems"(1) bb] i c xs by auto
      obtain loc where "Locals fn ! l = Some loc" using fn_ok_local [OF "1.prems"(1) g(1)] by blast
      then obtain safe where safe: "splitDestEscapeSafe fn l (b, i) = Some safe" using g(1) by (auto simp: splitDestEscapeSafe_def)
      obtain fn1 where fn1: "hoist_split fn ph b i l v s = Some fn1" "fn_ok nm fn1" "length (Blocks fn1) = length (Blocks fn)"
        using hoist_split_ok [OF "1.prems" bb g] by blast
      show ?thesis
      proof (cases safe)
        case True
        then show ?thesis using "1.IH"(2) [OF i c refl refl safe _ fn1(1,2)] safe fn1 "1.prems"(2) i c by (subst hoist_from.simps) simp
      next
        case False
        then show ?thesis using "1.IH"(3) [OF i c refl refl] safe "1.prems" i c by (subst hoist_from.simps) simp
      qed
    qed
  qed (use "1.prems" in \<open>subst hoist_from.simps, simp\<close>)
qed

lemma hoist_body_ok:
  "fn_ok nm fn \<Longrightarrow> ph < length (Blocks fn) \<Longrightarrow> \<exists>fn'. hoist_body ph bs fn = Some fn' \<and> fn_ok nm fn' \<and> length (Blocks fn') = length (Blocks fn)"
proof (induction bs arbitrary: fn)
  case (Cons b bs)
  then obtain f1 where "hoist_from fn ph b 0 = Some f1" "fn_ok nm f1" "length (Blocks f1) = length (Blocks fn)"
    using hoist_from_ok [of nm fn ph b 0] by blast
  then show ?case using Cons.IH [of f1] Cons.prems(2) by simp
qed simp

lemma preheader_range:
  assumes "fn_ok nm fn" "uniquePreheader h body (Predecessors fn) = Some p"
  shows "p < length (Blocks fn)"
proof -
  have "p \<in> set (Predecessors fn h)" using assms(2) by (auto simp: uniquePreheader_def split: list.splits dest: filter_eq_ConsD)
  then obtain bb b where "b < length (Blocks fn)" "Blocks fn ! b = Some bb" "p = block_ID bb"
    by (auto simp: Predecessors_set in_set_conv_nth)
  then show ?thesis using fn_ok_block(2) [OF assms(1), of b bb] by (simp add: Block_def)
qed

lemma hoist_edges_ok: "fn_ok nm fn \<Longrightarrow> \<exists>fn'. hoist_edges es fn = Some fn' \<and> fn_ok nm fn'"
proof (induction es arbitrary: fn)
  case (Cons e es)
  obtain src h where e: "e = (src, h)" by (cases e)
  show ?case
  proof (cases "uniquePreheader h (loopBodyBlocks fn h src) (Predecessors fn)")
    case (Some p)
    obtain f1 where "hoist_body p (loopBodyBlocks fn h src) fn = Some f1" "fn_ok nm f1"
      using hoist_body_ok [OF Cons.prems preheader_range [OF Cons.prems Some]] by blast
    then show ?thesis using Cons.IH e Some by simp
  qed (use Cons e in simp)
qed simp

section \<open>Fusion of split segments\<close>

text \<open>For the fusion of segments it matters where the instructions are that take the length of a list: it removes some and
  adds none. The shape of a block tells which ones they are.\<close>

fun is_len :: "Instr \<Rightarrow> bool" where
  "is_len (IntrinsicInstr _ k _) = (k = IntrinsicListLen)"
| "is_len _ = False"

definition len_shape :: "Function \<Rightarrow> nat \<Rightarrow> bool list" where
  "len_shape fn b = map is_len (block_instrs fn b)"

text \<open>Each turn of the loop over a block makes this smaller.\<close>

definition work :: "bool list \<Rightarrow> nat \<Rightarrow> nat" where
  "work sh i = length sh - i + count_list sh True"

definition match_ok :: "Function \<Rightarrow> indexUseMatch \<Rightarrow> bool" where
  "match_ok fn m \<longleftrightarrow> m_idx m < length (len_shape fn (m_bb m)) \<and> \<not> len_shape fn (m_bb m) ! m_idx m \<and> place_ok (Locals fn) (Place (m_destLoc m) [])"

definition len_ok :: "Function \<Rightarrow> lenUseMatch \<Rightarrow> bool" where
  "len_ok fn r \<longleftrightarrow> l_idx r < length (len_shape fn (l_bb r)) \<and> len_shape fn (l_bb r) ! l_idx r \<and> place_ok (Locals fn) (Place (l_destLoc r) [])"

abbreviation len_pos :: "lenUseMatch \<Rightarrow> nat \<times> nat" where
  "len_pos r \<equiv> (l_bb r, l_idx r)"

text \<open>The scan: what it has collected before a position.\<close>

definition scan_ok :: "Function \<Rightarrow> nat \<times> nat \<Rightarrow> uses \<Rightarrow> bool" where
  "scan_ok fn pos u \<longleftrightarrow> (\<forall>m \<in> set (u_matches u). match_ok fn m) \<and>
     (\<forall>r \<in> set (u_lenReads u). len_ok fn r \<and> len_pos r < pos) \<and> distinct (map len_pos (u_lenReads u))"

lemma scan_ok_mono: "scan_ok fn p u \<Longrightarrow> p \<le> q \<Longrightarrow> scan_ok fn q u"
  unfolding scan_ok_def by (meson less_le_trans)

lemma scan_ok_other: "scan_ok fn p (u\<lparr>u_other := n\<rparr>) = scan_ok fn p u" "scan_ok fn p (u\<lparr>u_writes := n\<rparr>) = scan_ok fn p u"
  by (simp_all add: scan_ok_def)

lemma bare_place_ok: "\<not> HasProjections d \<Longrightarrow> place_ok ls d \<Longrightarrow> place_ok ls (Place (place_Local d) [])"
  by (cases d) (simp add: HasProjections_def)

lemma scan_instr_ok:
  assumes ok: "fn_ok nm fn" and b: "Block fn b = Some bb" and j: "j < length (Instrs bb)"
    and scan: "scan_instr l b j src (Instrs bb ! j) u = Some u'" and u: "scan_ok fn (b, j) u"
  shows "scan_ok fn (b, Suc j) u'"
proof -
  let ?x = "Instrs bb ! j"
  have good: "instr_good (Locals fn) ?x" by (rule good_nth [OF fn_ok_block(1) [OF ok b] j])
  have sh: "j < length (len_shape fn b)" "len_shape fn b ! j = is_len ?x" using b j by (simp_all add: len_shape_def block_instrs_def)
  have keep: "scan_ok fn (b, Suc j) u" by (rule scan_ok_mono [OF u]) simp
  show ?thesis
  proof (cases ?x)
    case (AssignInstr d rv)
    show ?thesis
    proof (cases "u_matches u' = u_matches u")
      case True
      then have "u' = u\<lparr>u_other := u_other u'\<rparr>" using scan AssignInstr by (auto split: if_splits RValue.splits Operand.splits option.splits)
      then show ?thesis using keep scan_ok_other(1) by metis
    next
      case False
      then obtain k where "\<not> HasProjections d"
          "u' = u\<lparr>u_matches := u_matches u @ [\<lparr>m_bb = b, m_idx = j, m_destLoc = place_Local d, m_constIdx = k\<rparr>]\<rparr>"
        using scan AssignInstr by (auto split: if_splits RValue.splits Operand.splits option.splits)
      moreover have "place_ok (Locals fn) d" using good AssignInstr by (simp add: instr_good_def)
      ultimately show ?thesis using keep sh AssignInstr bare_place_ok [of d "Locals fn"] by (auto simp: scan_ok_def match_ok_def)
    qed
  next
    case (IntrinsicInstr d k args)
    show ?thesis
    proof (cases "u_lenReads u' = u_lenReads u")
      case True
      then have "u' = u\<lparr>u_writes := u_writes u'\<rparr> \<or> u' = u\<lparr>u_other := u_other u'\<rparr>" using scan IntrinsicInstr by (auto split: if_splits)
      then show ?thesis using keep scan_ok_other by metis
    next
      case False
      then obtain p where "k = IntrinsicListLen" "d = Some p" "\<not> HasProjections p"
          "u' = u\<lparr>u_lenReads := u_lenReads u @ [\<lparr>l_bb = b, l_idx = j, l_destLoc = place_Local p\<rparr>]\<rparr>"
        using scan IntrinsicInstr by (auto split: if_splits option.splits)
      moreover have "dest_ok (Locals fn) d" using good IntrinsicInstr by (simp add: instr_good_def)
      moreover have "(b, j) \<notin> len_pos ` set (u_lenReads u)" using u by (auto simp: scan_ok_def)
      ultimately show ?thesis using keep sh IntrinsicInstr bare_place_ok [of p "Locals fn"] by (auto simp: scan_ok_def len_ok_def dest_ok_def)
    qed
  qed (use scan keep scan_ok_other in \<open>auto split: if_splits\<close>)
qed

lemma scan_instrs_ok:
  assumes "fn_ok nm fn" "Block fn b = Some bb"
  shows "scan_instrs l b j at (drop j (Instrs bb)) u = Some u' \<Longrightarrow> scan_ok fn (b, j) u \<Longrightarrow> scan_ok fn (Suc b, 0) u'"
proof (induction "length (Instrs bb) - j" arbitrary: j u)
  case 0
  then show ?case by (auto intro: scan_ok_mono)
next
  case (Suc n)
  then have j: "j < length (Instrs bb)" by simp
  then obtain u1 where u1: "scan_instr l b j (at = Some j) (Instrs bb ! j) u = Some u1" "scan_instrs l b (Suc j) at (drop (Suc j) (Instrs bb)) u1 = Some u'"
    using Suc.prems(1) by (auto simp: Cons_nth_drop_Suc [symmetric] bind_eq_Some_conv)
  show ?case using Suc.hyps(1) [OF _ u1(2) scan_instr_ok [OF assms j u1(1) Suc.prems(2)]] Suc.hyps(2) by simp
qed

lemma scan_blocks_ok:
  assumes "fn_ok nm fn"
  shows "scan_blocks l i at (drop i (Blocks fn)) u = Some u' \<Longrightarrow> scan_ok fn (i, 0) u \<Longrightarrow> \<exists>p. scan_ok fn p u'"
proof (induction "length (Blocks fn) - i" arbitrary: i u)
  case 0
  then show ?case by auto
next
  case (Suc n)
  then have i: "i < length (Blocks fn)" by simp
  then obtain bb where bb: "Block fn i = Some bb" using fn_ok_Block [OF assms] by blast
  then have nth: "Blocks fn ! i = Some bb" using i by (simp add: Block_def)
  have id: "block_ID bb = i" by (rule fn_ok_block(2) [OF assms bb])
  let ?at = "if fst at = i then Some (snd at) else None"
  obtain u1 where u1: "scan_instrs l i 0 ?at (Instrs bb) u = Some u1"
      "scan_blocks l (Suc i) at (drop (Suc i) (Blocks fn)) (u1\<lparr>u_other := u_other u1 + leaks l (term_ops (Term bb))\<rparr>) = Some u'"
    using Suc.prems(1) i nth id by (auto simp: Cons_nth_drop_Suc [symmetric] scan_block_def bind_eq_Some_conv)
  have "scan_ok fn (Suc i, 0) u1" using scan_instrs_ok [OF assms bb, of l 0 ?at u u1] u1(1) Suc.prems(2) by simp
  then show ?case using Suc.hyps(1) [OF _ u1(2)] Suc.hyps(2) by (simp add: scan_ok_other)
qed

lemma find_uses_ok:
  assumes "fn_ok nm fn" "findIndexProjUsesFn fn l at = Some (Some (ms, lrs))"
  shows "\<forall>m \<in> set ms. match_ok fn m" "\<forall>r \<in> set lrs. len_ok fn r" "distinct (map len_pos lrs)"
proof -
  let ?u0 = "\<lparr>u_matches = [], u_lenReads = [], u_other = 0, u_writes = 0\<rparr>"
  obtain u where u: "scan_blocks l 0 at (Blocks fn) ?u0 = Some u" "set ms = set (u_matches u)" "lrs = u_lenReads u"
    using assms(2) by (auto simp: findIndexProjUsesFn_def split: if_splits option.splits)
  have "scan_ok fn (0, 0) ?u0" by (simp add: scan_ok_def)
  then obtain p where "scan_ok fn p u" using scan_blocks_ok [OF assms(1), of l 0 at ?u0 u] u(1) by auto
  then show "\<forall>m \<in> set ms. match_ok fn m" "\<forall>r \<in> set lrs. len_ok fn r" "distinct (map len_pos lrs)"
    using u(2,3) by (simp_all add: scan_ok_def)
qed

text \<open>The sorted length reads: in one block, from the last to the first.\<close>

lemma sorted_lens:
  assumes "distinct (map len_pos lrs)"
  shows "sorted_wrt (\<lambda>x y. l_bb x = l_bb y \<longrightarrow> l_idx y < l_idx x) (sortLenReadsForRewrite lrs)"
proof -
  let ?f = "\<lambda>x :: lenUseMatch. (- int (l_bb x), - int (l_idx x))"
  have "distinct (map ?f lrs)" using assms by (auto simp: distinct_map inj_on_def)
  then have "distinct (map ?f (sort_key ?f lrs))" by (simp add: distinct_map)
  then have "sorted_wrt (<) (map ?f (sort_key ?f lrs))" by (simp add: strict_sorted_iff)
  then show ?thesis unfolding sortLenReadsForRewrite_def sorted_wrt_map by (rule sorted_wrt_mono_rel [rotated]) auto
qed

end
