(* ===== verification/MIR_Pipeline.thy ===== *)
theory MIR_Pipeline
  imports MIR_Fuse_Valid
begin

text \<open>
  The whole optimiser, \<^verbatim>\<open>Optimize\<close> of \<^verbatim>\<open>src/internal/mir/optimize.go\<close>: it returns on every valid module whose constants are ordinary and
  whose reads of maps have their arguments, and the validator accepts the result.
\<close>

section \<open>The rewrites of the segment fusion\<close>

lemma shape_set_block: "Block fn c = Some cc \<Longrightarrow> len_shape (set_block fn c bb) b = (if b = c then map is_len (Instrs bb) else len_shape fn b)"
  using block_range [of fn c cc] by (auto simp: len_shape_def block_instrs_def block_set_block)

lemma shape_new_local [simp]: "len_shape (snd (NewLocal name t mut fn)) b = len_shape fn b"
  by (simp add: len_shape_def block_instrs_def)

lemma shape_Block: "i < length (len_shape fn b) \<Longrightarrow> \<exists>bb. Block fn b = Some bb \<and> i < length (Instrs bb) \<and> len_shape fn b = map is_len (Instrs bb)"
  by (cases "Block fn b") (simp_all add: len_shape_def block_instrs_def)

lemma rewrite_matches_ok:
  assumes "fn_ok nm fn" "\<forall>m \<in> set ms. match_ok fn m" "op_ok (Locals fn) v" "op_ok (Locals fn) s"
  shows "\<exists>fn'. rewrite_matches v s ms fn = Some (fn', True) \<and> fn_ok nm fn' \<and> Locals fn' = Locals fn \<and> len_shape fn' = len_shape fn \<and>
    length (Blocks fn') = length (Blocks fn)"
  using assms
proof (induction ms arbitrary: fn)
  case (Cons m ms)
  have m: "match_ok fn m" using Cons.prems(2) by simp
  then obtain ab where ab: "Block fn (m_bb m) = Some ab" "m_idx m < length (Instrs ab)" "len_shape fn (m_bb m) = map is_len (Instrs ab)"
    using shape_Block [of "m_idx m" fn "m_bb m"] by (auto simp: match_ok_def)
  let ?x = "IntrinsicInstr (Some (Place (m_destLoc m) [])) IntrinsicStringNthSegment [v, s, ConstOp (IntConst (m_constIdx m) TInt) TInt]"
  let ?fn = "set_block fn (m_bb m) (ab\<lparr>Instrs := (Instrs ab)[m_idx m := ?x]\<rparr>)"
  have "instr_good (Locals fn) ?x" using m Cons.prems(3,4) by (simp add: match_ok_def instr_good_def arity_ok_def dest_ok_def fused_kinds)
  then have "fn_ok nm ?fn" using fn_ok_block(1) [OF Cons.prems(1) ab(1)]
    by (intro set_block_ok [OF Cons.prems(1) ab(1)]) (auto simp: list_all_iff dest!: subsetD [OF set_update_subset_insert])
  moreover have "len_shape ?fn = len_shape fn"
  proof
    have "map is_len ((Instrs ab)[m_idx m := ?x]) = map is_len (Instrs ab)"
      using m ab by (simp add: match_ok_def map_update fused_kinds) (metis (full_types) list_update_id length_map nth_map)
    then show "len_shape ?fn b = len_shape fn b" for b using shape_set_block [OF ab(1)] ab(3) by simp
  qed
  ultimately show ?case using Cons.IH [of ?fn] Cons.prems(2-4) ab by (simp add: match_ok_def)
qed simp

lemma len_instrs_good:
  assumes "op_ok ls v" "op_ok ls s" "place_ok ls (Place tmp [])" "place_ok ls (Place d [])"
  shows "list_all (instr_good ls) (len_instrs v s tmp d)"
  using assms by (simp add: len_instrs_def instr_good_def arity_ok_def dest_ok_def fused_kinds)

text \<open>What one length read does to the shape of its block, and to the work that is left.\<close>

lemma len_work:
  assumes "k < length sh" "sh ! k"
  shows "work (take k sh @ [False, False] @ drop (k + 1) sh) (if k \<le> i then i + 1 else i) \<le> work sh i"
proof -
  have "sh = take k sh @ True # drop (k + 1) sh" using id_take_nth_drop [OF assms(1)] assms(2) by simp
  then have "count_list sh True = count_list (take k sh @ True # drop (k + 1) sh) True" by (rule arg_cong)
  then show ?thesis using assms(1) by (auto simp: work_def)
qed

lemma drop_work: "j < length sh \<Longrightarrow> work (take j sh @ drop (j + 1) sh) j < work sh j"
proof -
  assume j: "j < length sh"
  then have "sh = take j sh @ sh ! j # drop (j + 1) sh" using id_take_nth_drop [OF j] by simp
  then have "count_list sh True = count_list (take j sh @ sh ! j # drop (j + 1) sh) True" by (rule arg_cong)
  then show ?thesis using j by (cases "sh ! j") (auto simp: work_def)
qed

lemma rewrite_lens_ok:
  assumes "fn_ok nm fn" "\<forall>r \<in> set rs. len_ok fn r" "sorted_wrt (\<lambda>x y. l_bb x = l_bb y \<longrightarrow> l_idx y < l_idx x) rs"
    "op_ok (Locals fn) v" "op_ok (Locals fn) s" "i < length (len_shape fn b)"
  shows "\<exists>fn' j. rewrite_lens v s b i rs fn = Some (fn', j, True) \<and> fn_ok nm fn' \<and> j < length (len_shape fn' b) \<and>
    work (len_shape fn' b) j \<le> work (len_shape fn b) i \<and> length (Blocks fn') = length (Blocks fn)"
  using assms
proof (induction rs arbitrary: fn i)
  case (Cons r rs)
  have r: "len_ok fn r" using Cons.prems(2) by simp
  then obtain ab where ab: "Block fn (l_bb r) = Some ab" "l_idx r < length (Instrs ab)" "len_shape fn (l_bb r) = map is_len (Instrs ab)"
    using shape_Block [of "l_idx r" fn "l_bb r"] by (auto simp: len_ok_def)
  define name where "name = ''split_nth_count_tmp''"
  let ?tmp = "length (Locals fn)" and ?fn1 = "snd (NewLocal name TInt False fn)"
  let ?xs = "take (l_idx r) (Instrs ab) @ len_instrs v s ?tmp (l_destLoc r) @ drop (l_idx r + 1) (Instrs ab)"
  let ?fn = "set_block ?fn1 (l_bb r) (ab\<lparr>Instrs := ?xs\<rparr>)" and ?i = "if l_bb r = b \<and> l_idx r \<le> i then i + 1 else i"
  have ok1: "fn_ok nm ?fn1" using new_local_ok [OF Cons.prems(1)] by simp
  have ab1: "Block ?fn1 (l_bb r) = Some ab" using ab(1) by simp
  have "list_all (instr_good (Locals ?fn1)) (len_instrs v s ?tmp (l_destLoc r))"
    using r Cons.prems(4,5) by (intro len_instrs_good) (auto simp: new_local_valid len_ok_def)
  then have ok: "fn_ok nm ?fn" by (rule splice_ok [OF ok1 ab1])
  have sh: "len_shape ?fn c = (if c = l_bb r then take (l_idx r) (len_shape fn c) @ [False, False] @ drop (l_idx r + 1) (len_shape fn c) else len_shape fn c)" for c
    using shape_set_block [OF ab1] ab(3) by (simp add: len_instrs_def fused_kinds take_map drop_map)
  have "len_ok ?fn r'" if "r' \<in> set rs" for r'
  proof -
    have "len_ok fn r'" "l_bb r' = l_bb r \<Longrightarrow> l_idx r' < l_idx r" using that Cons.prems(2,3) by auto
    then show ?thesis unfolding len_ok_def sh by (auto simp: nth_append new_local_valid)
  qed
  moreover have "?i < length (len_shape ?fn b)" using Cons.prems(6) r unfolding sh len_ok_def by auto
  moreover have "work (len_shape ?fn b) ?i \<le> work (len_shape fn b) i"
    using len_work [of "l_idx r" "len_shape fn b" i] r unfolding sh len_ok_def by auto
  moreover have "rewrite_lens v s b i (r # rs) fn = rewrite_lens v s b ?i rs ?fn"
    using ab by (simp add: split_beta name_def)
  ultimately show ?case using Cons.IH [of ?fn ?i] ok Cons.prems(3-5)
    by (fastforce simp: new_local_valid)
qed simp

lemma fuse_split_at_ok:
  assumes ok: "fn_ok nm fn" and bb: "Block fn b = Some bb" and i: "i < length (Instrs bb)" and c: "split_call (Instrs bb ! i) = Some (l, v, s)"
  shows "\<exists>fn' j. fuse_split_at b i l v s fn = Some (fn', j) \<and> fn_ok nm fn' \<and> work (len_shape fn' b) j < work (len_shape fn b) i \<and>
    length (Blocks fn') = length (Blocks fn)"
proof -
  note g = split_call_good [OF ok bb i c]
  have sh: "i < length (len_shape fn b)" using bb i by (simp add: len_shape_def block_instrs_def)
  have skip: "work (len_shape fn b) (i + 1) < work (len_shape fn b) i" using sh by (simp add: work_def)
  obtain loc where "Locals fn ! l = Some loc" using fn_ok_local [OF ok g(1)] by blast
  then obtain u where u: "findIndexProjUsesFn fn l (b, i) = Some u"
    using g(1) by (fastforce simp: findIndexProjUsesFn_def split: option.split)
  show ?thesis
  proof (cases "\<exists>ms lrs. u = Some (ms, lrs) \<and> (lrs = [] \<or> isNonEmptyStringConst s)")
    case True
    then obtain ms lrs where ms: "u = Some (ms, lrs)" "lrs = [] \<or> isNonEmptyStringConst s" by blast
    note f = find_uses_ok [OF ok u [unfolded ms(1)]]
    obtain f1 where f1: "rewrite_matches v s ms fn = Some (f1, True)" "fn_ok nm f1" "Locals f1 = Locals fn" "len_shape f1 = len_shape fn"
        "length (Blocks f1) = length (Blocks fn)" using rewrite_matches_ok [OF ok f(1) g(2,3)] by blast
    have "\<forall>r \<in> set (sortLenReadsForRewrite lrs). len_ok f1 r" using f(2) f1(3,4) by (simp add: len_ok_def sortLenReadsForRewrite_def)
    then obtain f2 j where f2: "rewrite_lens v s b i (sortLenReadsForRewrite lrs) f1 = Some (f2, j, True)" "fn_ok nm f2" "j < length (len_shape f2 b)"
        "work (len_shape f2 b) j \<le> work (len_shape fn b) i" "length (Blocks f2) = length (Blocks fn)"
      using rewrite_lens_ok [OF f1(2) _ sorted_lens [OF f(3)], of v s i b] g f1(3-5) sh by auto
    obtain b2 where b2: "Block f2 b = Some b2" "j < length (Instrs b2)" "len_shape f2 b = map is_len (Instrs b2)" using shape_Block [OF f2(3)] by blast
    let ?fn = "set_block f2 b (b2\<lparr>Instrs := take j (Instrs b2) @ drop (j + 1) (Instrs b2)\<rparr>)"
    have "fn_ok nm ?fn" using splice_ok [OF f2(2) b2(1), of "[]" j "j + 1"] by simp
    moreover have "work (len_shape ?fn b) j < work (len_shape f2 b) j"
      using drop_work [OF f2(3)] shape_set_block [OF b2(1), of _ b] b2(3) by (simp add: take_map drop_map)
    moreover have "fuse_split_at b i l v s fn = Some (?fn, j)"
      using u ms f1(1) f2(1) b2 bb fn_ok_block(2) [OF ok bb] by (auto simp: fuse_split_at_def)
    ultimately show ?thesis using f2(4,5) by auto
  next
    case False
    then have "fuse_split_at b i l v s fn = Some (fn, i + 1)" using u by (auto simp: fuse_split_at_def split: option.split)
    then show ?thesis using ok skip by blast
  qed
qed

lemma fuse_split_from_ok:
  "fn_ok nm fn \<Longrightarrow> work (len_shape fn b) i < n \<Longrightarrow> \<exists>fn'. fuse_split_from n b i fn = Some fn' \<and> fn_ok nm fn'"
proof (induction n arbitrary: i fn)
  case (Suc n)
  show ?case
  proof (cases "\<exists>bb. Block fn b = Some bb \<and> i < length (Instrs bb)")
    case True
    then obtain bb where bb: "Block fn b = Some bb" and i: "i < length (Instrs bb)" by blast
    have sh: "i < length (len_shape fn b)" using bb i by (simp add: len_shape_def block_instrs_def)
    show ?thesis
    proof (cases "split_call (Instrs bb ! i)")
      case None
      have "work (len_shape fn b) (i + 1) < n" using Suc.prems(2) sh by (simp add: work_def)
      then show ?thesis using Suc.IH [OF Suc.prems(1)] None bb i by simp
    next
      case (Some c)
      then obtain l v s where c: "split_call (Instrs bb ! i) = Some (l, v, s)" by (cases c) auto
      obtain f1 j where "fuse_split_at b i l v s fn = Some (f1, j)" "fn_ok nm f1" "work (len_shape f1 b) j < work (len_shape fn b) i"
        using fuse_split_at_ok [OF Suc.prems(1) bb i c] by blast
      then show ?thesis using Suc.IH [of f1 j] Suc.prems(2) bb i c by simp
    qed
  next
    case False
    then show ?thesis using Suc.prems(1) by (auto split: option.split)
  qed
qed simp

lemma fuse_split_blocks_ok: "fn_ok nm fn \<Longrightarrow> \<exists>fn'. fuse_split_blocks bs fn = Some fn' \<and> fn_ok nm fn'"
proof (induction bs arbitrary: fn)
  case (Cons b bs)
  have "length (len_shape fn b) = block_length fn b" by (simp add: len_shape_def block_instrs_def block_length_def split: option.split)
  then have "work (len_shape fn b) 0 < 2 * block_length fn b + 1" using count_le_length [of "len_shape fn b" True] by (simp add: work_def)
  from fuse_split_from_ok [OF Cons.prems this] show ?case using Cons.IH by auto
qed simp

section \<open>The optimiser\<close>

lemma peephole_iters_total: "pass_ok fn \<Longrightarrow> \<exists>fn'. peephole_iters n fn = Some fn'"
proof (induction n arbitrary: fn)
  case (Suc n)
  obtain es xs where "computeBlockStates fn = Some (es, xs)" using computeBlockStates_total [of fn] Suc.prems by (auto simp: pass_ok_def)
  then obtain f1 where f1: "copyPropagateFn fn = Some f1" by (cases "Blocks fn = []") (simp_all add: copyPropagateFn_def)
  have "pass_ok (deadAssignElim (collapseEmptyGotos f1))" using dead_ok same_code_ok collapse_same_code copyPropagate_ok [OF Suc.prems f1] by blast
  then show ?case using Suc.IH f1 by (auto simp: Let_def)
qed simp

lemma peephole_iters_name: "peephole_iters n fn = Some fn' \<Longrightarrow> fn_Name fn' = fn_Name fn"
proof (induction n arbitrary: fn)
  case (Suc n)
  then obtain f1 where f1: "copyPropagateFn fn = Some f1" by (auto split: option.splits)
  have "fn_Name f1 = fn_Name fn" using f1 by (auto simp: copyPropagateFn_def split: if_splits)
  moreover have "fn_Name (deadAssignElim (collapseEmptyGotos f1)) = fn_Name f1" by (simp add: deadAssignElim_def collapseEmptyGotos_def Let_def)
  ultimately show ?case using Suc.IH [of "deadAssignElim (collapseEmptyGotos f1)"] Suc.prems f1 by (auto simp: Let_def split: if_splits)
qed simp

definition handled :: "Function \<Rightarrow> bool" where
  "handled fn \<longleftrightarrow> ordinary_fn fn \<and> arity_fn fn"

lemma optimizeFunction_ok:
  assumes "validateFunction fn = []" "handled fn"
  shows "\<exists>fn'. optimizeFunction fn = Some fn' \<and> validateFunction fn' = [] \<and> fn_Name fn' = fn_Name fn"
proof (cases "IsExternal fn \<or> IsIntrinsic fn")
  case False
  then have "fn_ok (fn_Name fn) fn" using assms by (simp add: fn_ok_def valid_fn_def handled_def)
  then obtain f1 where f1: "fuseNonEscapingSplitNth fn = Some f1" "fn_ok (fn_Name fn) f1"
    using fuse_split_blocks_ok [of "fn_Name fn" fn "[0..<length (Blocks fn)]"] False
    by (cases "Blocks fn = []") (auto simp: fuseNonEscapingSplitNth_def)
  obtain f2 where f2: "fuseMapInsertGetOrAdd f1 = Some f2" "fn_ok (fn_Name fn) f2"
    using fuse_blocks_ok [OF f1(2)] f1(2) by (cases "IsExternal f1 \<or> IsIntrinsic f1 \<or> Blocks f1 = []") (auto simp: fuseMapInsertGetOrAdd_def)
  obtain f3 where f3: "hoistNonEscapingSplitInLoops f2 = Some f3" "fn_ok (fn_Name fn) f3"
    using hoist_edges_ok [OF f2(2)] f2(2) by (cases "IsExternal f2 \<or> IsIntrinsic f2 \<or> Blocks f2 = []") (auto simp: hoistNonEscapingSplitInLoops_def)
  then have ok: "valid_fn f3" "ordinary_fn f3" "fn_Name f3 = fn_Name fn" by (simp_all add: fn_ok_def)
  obtain f4 where f4: "peephole_iters 16 f3 = Some f4" using peephole_iters_total [OF valid_pass_ok [OF ok(1,2)]] by blast
  have "optimizeFunction fn = Some f4" using False f1(1) f2(1) f3(1) f4 by (simp add: optimizeFunction_def)
  then show ?thesis using peephole_iters_valid [OF ok(1,2) f4] peephole_iters_name [OF f4] ok(3) by (simp add: valid_fn_def)
qed (use assms in \<open>auto simp: optimizeFunction_def\<close>)

definition handled_module :: "Module \<Rightarrow> bool" where
  "handled_module m \<longleftrightarrow> (\<forall>f \<in> set (Functions m). case f of None \<Rightarrow> True | Some fn \<Rightarrow> handled fn) \<and>
     (\<forall>g \<in> set (Globals m). case g of None \<Rightarrow> True | Some x \<Rightarrow> (case Init x of None \<Rightarrow> True | Some fn \<Rightarrow> handled fn))"

lemma optimize_functions_ok:
  "validate_functions i names fs = [] \<Longrightarrow> (\<forall>f \<in> set fs. case f of None \<Rightarrow> True | Some fn \<Rightarrow> handled fn) \<Longrightarrow>
    \<exists>gs. those (map optimize_opt fs) = Some gs \<and> validate_functions i names gs = []"
proof (induction i names fs rule: validate_functions.induct)
  case (3 i names fn fs)
  have v: "validateFunction fn = []" "handled fn" using "3.prems" by simp_all
  obtain fn' where fn': "optimizeFunction fn = Some fn'" "validateFunction fn' = []" "fn_Name fn' = fn_Name fn"
    using optimizeFunction_ok [OF v] by blast
  obtain gs where "those (map optimize_opt fs) = Some gs" "validate_functions (i + 1) (fn_Name fn # names) gs = []"
    using "3.IH" "3.prems" by auto
  moreover have "optimize_opt (Some fn) = Some (Some fn')" using fn'(1) by (simp add: optimize_opt_def)
  ultimately show ?case using fn' "3.prems"(1) by auto
qed simp_all

lemma optimize_globals_ok:
  "validate_globals i gs = [] \<Longrightarrow> (\<forall>g \<in> set gs. case g of None \<Rightarrow> True | Some x \<Rightarrow> (case Init x of None \<Rightarrow> True | Some fn \<Rightarrow> handled fn)) \<Longrightarrow>
    \<exists>hs. those (map optimize_global gs) = Some hs \<and> validate_globals i hs = []"
proof (induction i gs rule: validate_globals.induct)
  case (3 i x gs)
  have "\<exists>y. optimize_global (Some x) = Some (Some y) \<and> validateGlobal y = []"
  proof (cases "Init x")
    case None
    then show ?thesis using "3.prems"(1) by (simp add: optimize_global_def optimize_opt_def validateGlobal_def)
  next
    case (Some fn)
    then have v: "validateFunction fn = []" "handled fn" using "3.prems" by (simp_all add: validateGlobal_def)
    obtain fn' where "optimizeFunction fn = Some fn'" "validateFunction fn' = []" using optimizeFunction_ok [OF v] by blast
    then show ?thesis using Some "3.prems"(1) by (simp add: optimize_global_def optimize_opt_def validateGlobal_def)
  qed
  then obtain y where y: "optimize_global (Some x) = Some (Some y)" "validateGlobal y = []" by blast
  obtain hs where "those (map optimize_global gs) = Some hs" "validate_globals (i + 1) hs = []" using "3.IH" "3.prems" by auto
  then show ?case using y by simp
qed simp_all

end
