(* ===== verification/MIR_Machine.thy ===== *)
theory MIR_Machine
  imports MIR_Pipeline Go_Strings
begin

text \<open>
  The claims about the MIR optimiser and validator, with a machine to try them on: integers, booleans, floats, strings, lists of strings, and
  one map from values to integers as the memory, with the string and map intrinsics as \<^verbatim>\<open>mir.go\<close> documents them.
\<close>

section \<open>A machine\<close>

datatype val = VUnit | VBool bool | VInt int | VFloat "64 word" | VStr string | VList "val list"

type_synonym memory = "(val \<times> int) list"

definition val_const :: "Const \<Rightarrow> Ty \<Rightarrow> val" where
  "val_const c t =
     (case c of IntConst i _ \<Rightarrow> VInt i | BoolConst b \<Rightarrow> VBool b | FloatConst f _ \<Rightarrow> VFloat f | StringConst s \<Rightarrow> VStr s | _ \<Rightarrow> VUnit)"

fun val_get :: "val step \<Rightarrow> val \<Rightarrow> memory \<Rightarrow> val option" where
  "val_get (SIndex (VInt i)) (VList vs) w = (if 0 \<le> i \<and> nat i < length vs then Some (vs ! nat i) else None)"
| "val_get _ _ w = None"

fun val_rv :: "rv_op \<Rightarrow> val list \<Rightarrow> memory \<Rightarrow> val option" where
  "val_rv (OpBinary BinAdd _) [VInt a, VInt b] w = Some (VInt (a + b))"
| "val_rv (OpBinary BinLt _) [VInt a, VInt b] w = Some (VBool (a < b))"
| "val_rv (OpLen _) [VList vs] w = Some (VInt (int (length vs)))"
| "val_rv _ _ w = None"

definition map_value :: "val \<Rightarrow> int \<Rightarrow> memory \<Rightarrow> int" where
  "map_value k d w = (case map_of w k of None \<Rightarrow> d | Some x \<Rightarrow> x)"

definition val_intrinsic :: "IntrinsicKind \<Rightarrow> val list \<Rightarrow> memory \<Rightarrow> (val \<times> memory) option" where
  "val_intrinsic i vs w =
     (if i = IntrinsicStringSplit then (case vs of [VStr s, VStr [c]] \<Rightarrow> Some (VList (map VStr (split_on c s)), w) | _ \<Rightarrow> None)
      else if i = IntrinsicStringNthSegment then
        (case vs of [VStr s, VStr [c], VInt n] \<Rightarrow>
           if 0 \<le> n \<and> nat n < length (split_on c s) then Some (VStr (split_on c s ! nat n), w) else None | _ \<Rightarrow> None)
      else if i = IntrinsicStringCount then (case vs of [VStr s, VStr [c]] \<Rightarrow> Some (VInt (int (length (split_on c s)) - 1), w) | _ \<Rightarrow> None)
      else if i = IntrinsicListLen then (case vs of [VList xs] \<Rightarrow> Some (VInt (int (length xs)), w) | _ \<Rightarrow> None)
      else if i = IntrinsicMapGetOr then (case vs of [m, k, VInt d] \<Rightarrow> Some (VInt (map_value k d w), w) | _ \<Rightarrow> None)
      else if i = IntrinsicMapSet then (case vs of [m, k, VInt x] \<Rightarrow> Some (VUnit, AList.update k x w) | _ \<Rightarrow> None)
      else if i = IntrinsicMapIncr then
        (case vs of [m, k, VInt d] \<Rightarrow> Some (VInt (map_value k 0 w + d), AList.update k (map_value k 0 w + d) w) | _ \<Rightarrow> None)
      else None)"

definition val_call :: "val call_target \<Rightarrow> val list \<Rightarrow> memory \<Rightarrow> (val \<times> memory) option" where
  "val_call t vs w = (case t of IntrinsicTarget i \<Rightarrow> val_intrinsic i vs w | _ \<Rightarrow> None)"

definition val_machine :: "(val, memory) machine" where
  "val_machine = \<lparr>m_const = val_const, m_get = val_get, m_put = \<lambda>_ _ _ _. None, m_rv = val_rv, m_call = val_call,
     m_bool = \<lambda>v. case v of VBool b \<Rightarrow> Some b | _ \<Rightarrow> None, m_int = \<lambda>v. case v of VInt i \<Rightarrow> Some i | _ \<Rightarrow> None\<rparr>"

lemma float_zero_plus: "float_zero w \<Longrightarrow> w \<noteq> 0x8000000000000000 \<Longrightarrow> w = 0"
proof -
  assume z: "float_zero w" and n: "w \<noteq> 0x8000000000000000"
  have "take_bit 63 (uint w) = 0" using arg_cong [of _ _ uint, OF z [unfolded float_zero_def]] by (simp add: unsigned_take_bit_eq)
  then obtain q where q: "uint w = 2 ^ 63 * q" by (auto simp: take_bit_eq_mod mod_eq_0_iff_dvd)
  have "0 \<le> uint w" "uint w < 2 ^ 64" using uint_lt2p [of w] by simp_all
  then have "q = 0 \<or> q = 1" unfolding q by simp linarith
  then have "uint w = 0 \<or> uint w = 2 ^ 63" using q by auto
  moreover have "uint w \<noteq> 2 ^ 63" using n by (auto simp: word_uint_eq_iff)
  ultimately show "w = 0" by (simp add: word_uint_eq_iff)
qed

lemma val_machine_laws: "machine_laws val_machine"
proof -
  have "val_const (fst a) (snd a) = val_const (fst b) (snd b)" if "constOpEqual a b" "ordinary a" "ordinary b" for a b
    using that float_zero_plus
    by (auto simp: constOpEqual_def constValueEqual_def ordinary_def val_const_def float_eq_def split: Const.splits)
  then show ?thesis by (auto simp: machine_laws_def val_machine_def val_const_def)
qed

lemma val_fuse_laws: "fuse_laws val_machine"
  unfolding fuse_laws_def
proof (intro conjI allI impI)
  show "m_const val_machine c t = m_const val_machine d u" if "constsEqual c d" for c d t u
    using that by (auto simp: constsEqual_def val_machine_def val_const_def split: Const.splits)
qed (auto simp: val_machine_def val_const_def val_call_def val_intrinsic_def fused_kinds add.commute elim!: val_rv.elims)

section \<open>Small functions\<close>

definition mk_local :: "LocalID \<Rightarrow> string \<Rightarrow> bool \<Rightarrow> bool \<Rightarrow> Local option" where
  "mk_local i t p r = Some \<lparr>loc_ID = i, loc_Name = [], loc_Type = Some t, loc_Mut = False, IsParam = p, IsReturn = r\<rparr>"

definition mk_fn :: "string \<Rightarrow> (string \<times> bool) list \<Rightarrow> (Instr list \<times> Terminator) list \<Rightarrow> Function" where
  "mk_fn ret ls bs = \<lparr>fn_Name = ''f'', Params = map fst (filter (snd \<circ> snd) (enumerate 1 ls)), ReturnType = Some ret, ReturnLocal = 0,
     Locals = mk_local 0 ret False True # map (\<lambda>(i, t, p). mk_local i t p False) (enumerate 1 ls),
     Blocks = map (\<lambda>(i, is, t). Some \<lparr>block_ID = i, Instrs = is, Term = t\<rparr>) (enumerate 0 bs), Entry = 0, IsExternal = False, IsIntrinsic = False\<rparr>"

abbreviation cp :: "LocalID \<Rightarrow> string \<Rightarrow> Operand" where
  "cp l t \<equiv> CopyOp (Place l []) (Some t)"

text \<open>Locals: 1 the map, 2 the key, 3 the value read, 4 the sum.\<close>

definition counter_fn :: "Operand \<Rightarrow> Function" where
  "counter_fn \<delta> = mk_fn ''Int'' [(''Map'', True), (''String'', True), (''Int'', False), (''Int'', False)]
     [([IntrinsicInstr (Some (Place 3 [])) IntrinsicMapGetOr [cp 1 ''Map'', cp 2 ''String'', ConstOp (IntConst 0 TInt) TInt],
        AssignInstr (Place 4 []) (BinaryRV BinAdd (cp 3 ''Int'') \<delta> TInt),
        IntrinsicInstr None IntrinsicMapSet [cp 1 ''Map'', cp 2 ''String'', cp 4 ''Int''],
        IntrinsicInstr (Some (Place 0 [])) IntrinsicMapGetOr [cp 1 ''Map'', cp 2 ''String'', ConstOp (IntConst 0 TInt) TInt]], ReturnTerm)]"

text \<open>Locals: 1 the line, 2 the parts. The first part is returned.\<close>

definition split_fn :: "Instr list \<Rightarrow> Function" where
  "split_fn between = mk_fn ''String'' [(''String'', False), (''List<String>'', False)]
     [([AssignInstr (Place 1 []) (UseRV (ConstOp (StringConst ''a,b'') (Some ''String''))),
        IntrinsicInstr (Some (Place 2 [])) IntrinsicStringSplit [cp 1 ''String'', ConstOp (StringConst '','') (Some ''String'')]] @ between @
       [AssignInstr (Place 0 []) (UseRV (CopyOp (Place 2 [IndexProj (ConstOp (IntConst 0 TInt) TInt) (Some ''String'')]) (Some ''String'')))], ReturnTerm)]"

text \<open>A branch on a constant: 1 is returned, through an empty block.\<close>

definition branch_fn :: Function where
  "branch_fn = mk_fn ''Int'' [(''Bool'', False)]
     [([AssignInstr (Place 1 []) (UseRV (ConstOp (BoolConst True) (Some ''Bool'')))], BranchTerm (cp 1 ''Bool'') 1 2),
      ([], GotoTerm 3),
      ([AssignInstr (Place 0 []) (UseRV (ConstOp (IntConst 2 TInt) TInt))], ReturnTerm),
      ([AssignInstr (Place 0 []) (UseRV (ConstOp (IntConst 1 TInt) TInt))], ReturnTerm)]"

text \<open>A chain of \<open>k\<close> copies that nothing uses.\<close>

definition copies :: "(LocalID \<times> LocalID) list \<Rightarrow> Instr list" where
  "copies ps = map (\<lambda>(a, b). AssignInstr (Place a []) (UseRV (cp b ''Int''))) ps"

definition chain :: "nat \<Rightarrow> (LocalID \<times> LocalID) list" where
  "chain k = map (\<lambda>i. (i + 2, i + 1)) [0..<k] @ [(0, 1)]"

definition chain_fn :: "nat \<Rightarrow> Function" where
  "chain_fn k = mk_fn ''Int'' ((''Int'', True) # replicate 18 (''Int'', False)) [(copies (chain k), ReturnTerm)]"

section \<open>Straight-line code\<close>

text \<open>A function of one block that returns.\<close>

lemma straight_line_states:
  assumes "Blocks fn = [Some bb]" "Entry fn = 0" "Term bb = ReturnTerm"
  shows "computeBlockStates fn = Some ([Some []], [Some (transferBlock bb [])])"
  using assms by (simp add: computeBlockStates_def flow_start_def flow_step_def statesEqual_def Let_def)

lemma straight_line_propagate:
  assumes "Blocks fn = [Some bb]" "Entry fn = 0" "Term bb = ReturnTerm" "prop_instrs [] (Instrs bb) = (Instrs bb, k)"
  shows "copyPropagateFn fn = Some fn"
  using assms by (simp add: copyPropagateFn_def straight_line_states propagateBlockWithSeed_def foldTerminator_def)

lemma straight_line_collapse:
  assumes "Blocks fn = [Some bb]" "Entry fn = 0" "Term bb = ReturnTerm"
  shows "collapseEmptyGotos fn = fn"
proof -
  have r: "resolve [Some bb] [] 0 = 0" using assms(3) by (subst resolve.simps) simp
  have b: "bb\<lparr>Term := ReturnTerm\<rparr> = bb" using assms(3) by (cases bb) simp
  have "fn\<lparr>Blocks := [Some bb], Entry := 0\<rparr> = fn" using assms(1,2) by (cases fn) simp
  then show ?thesis using assms by (simp add: collapseEmptyGotos_def retarget_block_def Let_def b r)
qed

lemma copies_propagate: "prop_instrs [] (copies ps) = (copies ps, [])"
  by (induction ps) (auto simp: copies_def rewritePlaceProjections_def rewrite_op_def substituteConst_def track_def HasProjections_def)

lemma copies_reads: "instrs_reads (copies ps) l = count_list (map snd ps) l"
  by (induction ps) (auto simp: copies_def instr_reads_def countDest_def HasProjections_def read_local_def)

lemma copies_dead: "List.map_filter (dead_instr fn r) (copies ps) = copies (filter (\<lambda>(a, b). \<not> localIsDead fn a r) ps)"
  by (induction ps) (auto simp: copies_def map_filter_simps HasProjections_def)

lemma chain_sel:
  "Blocks (chain_fn k) = [Some \<lparr>block_ID = 0, Instrs = copies (chain k), Term = ReturnTerm\<rparr>]" "Entry (chain_fn k) = 0"
  "ReturnLocal (chain_fn k) = 0" "length (Locals (chain_fn k)) = 20" "\<not> IsExternal (chain_fn k)" "\<not> IsIntrinsic (chain_fn k)"
  by (simp_all add: chain_fn_def mk_fn_def)

lemma chain_locals: "0 < l \<Longrightarrow> l < 20 \<Longrightarrow> Locals (chain_fn k) ! l = mk_local l ''Int'' (l = 1) False"
proof (cases "l = 1")
  case False
  assume "0 < l" "l < 20"
  then have "l = (l - 2) + 2" "l - 2 < 18" using False by arith+
  then obtain m where "l = m + 2" "m < 18" by blast
  then show ?thesis by (simp add: chain_fn_def mk_fn_def nth_enumerate_eq)
qed (simp add: chain_fn_def mk_fn_def)

lemma chain_reads: "collectLocalReads (chain_fn k) l = count_list (map snd (chain k)) l + (if l = 0 then 1 else 0)"
  by (simp add: collectLocalReads_sum chain_sel block_reads_def copies_reads read_local_def)

lemma chain_read: "l \<in> set (map snd (chain k)) \<longleftrightarrow> 1 \<le> l \<and> l \<le> max 1 k"
  by (auto simp: chain_def comp_def map_Suc_upt)

text \<open>One turn of the loop shortens the chain by one.\<close>

lemma chain_dead: "k < 18 \<Longrightarrow> deadAssignElim (chain_fn (Suc k)) = chain_fn k"
proof -
  assume k: "k < 18"
  let ?fn = "chain_fn (Suc k)" and ?r = "collectLocalReads (chain_fn (Suc k))"
  have "localIsDead ?fn (i + 2) ?r \<longleftrightarrow> i = k" if "i \<le> k" for i
    using that k chain_read [of "i + 2" "Suc k"] by (simp add: localIsDead_def chain_sel chain_locals mk_local_def chain_reads count_list_0_iff) arith
  moreover have "\<not> localIsDead ?fn 0 ?r" by (simp add: localIsDead_def chain_sel) (simp add: chain_fn_def mk_fn_def mk_local_def)
  ultimately have "filter (\<lambda>(a, b). \<not> localIsDead ?fn a ?r) (chain (Suc k)) = chain k"
    by (auto simp: chain_def filter_map comp_def intro!: filter_True)
  then show ?thesis by (simp add: deadAssignElim_def Let_def chain_sel copies_dead) (simp add: chain_fn_def mk_fn_def)
qed

lemma chain_dead_0: "deadAssignElim (chain_fn 0) = chain_fn 0"
proof -
  have "\<not> localIsDead (chain_fn 0) 0 r" for r by (simp add: localIsDead_def chain_sel) (simp add: chain_fn_def mk_fn_def mk_local_def)
  then show ?thesis by (simp add: deadAssignElim_def Let_def chain_sel copies_dead chain_def)
qed

lemma chain_turn: "copyPropagateFn (chain_fn k) = Some (chain_fn k)" "collapseEmptyGotos (chain_fn k) = chain_fn k"
  using straight_line_propagate [OF chain_sel(1,2)] straight_line_collapse [OF chain_sel(1,2)] by (simp_all add: copies_propagate)

lemma chain_fn_diff: "chain_fn (Suc k) \<noteq> chain_fn k"
proof
  assume "chain_fn (Suc k) = chain_fn k"
  then have "length (copies (chain (Suc k))) = length (copies (chain k))" using chain_sel(1) by (metis BasicBlock.ext_inject list.inject option.inject)
  then show False by (simp add: copies_def chain_def)
qed

lemma chain_iters: "k + n \<le> 18 \<Longrightarrow> peephole_iters n (chain_fn (k + n)) = Some (chain_fn k)"
proof (induction n)
  case (Suc n)
  then show ?case by (simp add: chain_turn chain_dead chain_fn_diff [symmetric])
qed simp

lemma no_split:
  assumes "Block fn b = Some bb" "\<forall>x \<in> set (Instrs bb). split_call x = None"
  shows "length (Instrs bb) - i < n \<Longrightarrow> fuse_split_from n b i fn = Some fn"
  by (induction n arbitrary: i) (use assms in \<open>auto split: option.split\<close>)

lemma no_fuse:
  "Block fn b = Some bb \<Longrightarrow> \<forall>x \<in> set (Instrs bb). \<exists>d src. x = AssignInstr d src \<Longrightarrow> fuse_from fn b i = Some fn"
proof (induction fn b i rule: fuse_from.induct)
  case (1 fn b i)
  show ?case
  proof (cases "i + 2 < length (Instrs bb)")
    case True
    then obtain d src where "Instrs bb ! i = AssignInstr d src" using "1.prems"(2) by (meson add_lessD1 nth_mem)
    then have "fuse_triple fn (block_ID bb) i (Instrs bb ! i) (Instrs bb ! (i + 1)) (Instrs bb ! (i + 2)) = Some None" by (simp add: fuse_triple_def)
    then show ?thesis using "1.IH"(1) [OF "1.prems"(1) True] "1.prems" True by (subst fuse_from.simps) simp
  qed (use "1.prems" in \<open>subst fuse_from.simps, simp\<close>)
qed

lemma chain_optimize: "optimizeFunction (chain_fn k) = peephole_iters 16 (chain_fn k)"
proof -
  let ?bb = "\<lparr>block_ID = 0, Instrs = copies (chain k), Term = ReturnTerm\<rparr>"
  have b: "Block (chain_fn k) 0 = Some ?bb" by (simp add: Block_def chain_sel)
  have a: "\<forall>x \<in> set (Instrs ?bb). \<exists>d src. x = AssignInstr d src" by (auto simp: copies_def)
  then have s: "\<forall>x \<in> set (Instrs ?bb). split_call x = None" by (auto simp: split_call_def)
  have "fuseNonEscapingSplitNth (chain_fn k) = Some (chain_fn k)"
    using no_split [OF b s, of 0 "2 * block_length (chain_fn k) 0 + 1"] b by (simp add: fuseNonEscapingSplitNth_def chain_sel block_length_def)
  moreover have "fuseMapInsertGetOrAdd (chain_fn k) = Some (chain_fn k)"
    using no_fuse [OF b a] by (simp add: fuseMapInsertGetOrAdd_def chain_sel)
  moreover have "hoistNonEscapingSplitInLoops (chain_fn k) = Some (chain_fn k)"
    using b by (simp add: hoistNonEscapingSplitInLoops_def findBackEdges_def succs_at_def chain_sel Let_def)
  ultimately show ?thesis by (simp add: optimizeFunction_def chain_sel)
qed

section \<open>What holds of the optimiser\<close>

text \<open>C9. The fixed point of constant propagation, block collapse and dead-assignment elimination preserves what a function does: on every machine
  where constants mean what they say, and for every function that the validator accepts and that assigns neither negative zero nor a NaN, the loop ends, and
  whatever the function returns from a state, with whatever memory, the result returns from that state too, within as many blocks.\<close>

theorem peephole_preserves:
  assumes "machine_laws M" "validateFunction fn = []" "ordinary_fn fn"
  shows "\<exists>fn'. peephole fn = Some fn' \<and> refines M fn fn'"
proof (cases "IsExternal fn \<or> IsIntrinsic fn")
  case False
  have "pass_ok fn" using valid_ids [OF assms(2)] assms(3) by (simp add: pass_ok_def)
  then show ?thesis using peephole_iters_refines [OF assms(1)] False by (auto simp: peephole_def)
qed (auto simp: peephole_def refines_refl)

lemma branch_fn_ok: "validateFunction branch_fn = []" "ordinary_fn branch_fn"
  by code_simp+

theorem peephole_preserves_witness:
  "machine_laws val_machine \<and> validateFunction branch_fn = [] \<and> ordinary_fn branch_fn \<and>
    (\<exists>fn'. peephole branch_fn = Some fn' \<and> refines val_machine branch_fn fn')"
  using peephole_preserves [OF val_machine_laws branch_fn_ok] val_machine_laws branch_fn_ok by blast

text \<open>C17. The data-flow analysis ends on every function that the validator accepts and whose constants are ordinary, and it is sound: whenever a run, from
  any state, enters a block, the block has an entry state, and every local that the entry state binds to a constant holds that constant.\<close>

theorem computeBlockStates_sound:
  assumes "machine_laws M" "validateFunction fn = []" "ordinary_fn fn"
  shows "\<exists>es xs. computeBlockStates fn = Some (es, xs) \<and>
    (\<forall>s b env w. reach M fn s b (env, w) \<longrightarrow> (\<exists>k. es ! b = Some k \<and> (\<forall>l c t. map_of k l = Some (c, t) \<longrightarrow> env l = m_const M c t)))"
proof -
  obtain es xs where e: "computeBlockStates fn = Some (es, xs)" "sound_entries fn es"
    using computeBlockStates_total [OF valid_ids [OF assms(2)] assms(3)] by blast
  have "\<exists>k. es ! b = Some k \<and> (\<forall>l c t. map_of k l = Some (c, t) \<longrightarrow> env l = m_const M c t)" if r: "reach M fn s b (env, w)" for s b env w
  proof -
    obtain k where k: "es ! b = Some k" "sat M k env" using reach_sat [OF assms(1) e(2) assms(3) r] by auto
    have "env l = m_const M c t" if "map_of k l = Some (c, t)" for l c t using k(2) that by (fastforce simp: sat_def)
    then show ?thesis using k(1) by blast
  qed
  then show ?thesis using e(1) by blast
qed

theorem computeBlockStates_sound_witness:
  "\<exists>es xs. computeBlockStates branch_fn = Some (es, xs) \<and>
    (\<forall>s b env w. reach val_machine branch_fn s b (env, w) \<longrightarrow>
      (\<exists>k. es ! b = Some k \<and> (\<forall>l c t. map_of k l = Some (c, t) \<longrightarrow> env l = m_const val_machine c t)))"
  by (rule computeBlockStates_sound [OF val_machine_laws branch_fn_ok])

text \<open>C10. Optimising a module that the validator accepts gives a module that it accepts, with no panic and no endless loop, provided that no function assigns
  negative zero or a NaN and that every map read with a default has its three arguments: the analysis, the three rewrites before it
  (segments, counters, hoisted splits, with the locals they add) and the loop of passes all keep the invariants of the validator.\<close>

theorem Optimize_keeps_valid:
  assumes "Validate m = []" "handled_module m"
  shows "\<exists>m'. Optimize m = Some m' \<and> Validate m' = []"
proof -
  have v: "validate_functions 0 [] (Functions m) = []" "validate_globals 0 (Globals m) = []" "mod_Package m \<noteq> []"
    using assms(1) by (simp_all add: Validate_def)
  obtain fs where "those (map optimize_opt (Functions m)) = Some fs" "validate_functions 0 [] fs = []"
    using optimize_functions_ok [OF v(1)] assms(2) unfolding handled_module_def by blast
  moreover obtain gs where "those (map optimize_global (Globals m)) = Some gs" "validate_globals 0 gs = []"
    using optimize_globals_ok [OF v(2)] assms(2) unfolding handled_module_def by blast
  ultimately show ?thesis using v(3) by (simp add: Optimize_def Validate_def)
qed

definition example_module :: Module where
  "example_module = \<lparr>mod_Package = ''p'', Functions = [Some (counter_fn (ConstOp (IntConst 1 TInt) TInt)), Some (split_fn []\<lparr>fn_Name := ''g''\<rparr>)],
     Globals = [Some \<lparr>glob_Name = ''x'', glob_Type = TInt, Init = Some (branch_fn\<lparr>fn_Name := ''h''\<rparr>)\<rparr>]\<rparr>"

lemma example_module_ok: "Validate example_module = []" "handled_module example_module"
  by code_simp+

theorem Optimize_keeps_valid_witness:
  "Validate example_module = [] \<and> handled_module example_module \<and> (\<exists>m'. Optimize example_module = Some m' \<and> Validate m' = [])"
  using Optimize_keeps_valid [OF example_module_ok] example_module_ok by blast

text \<open>C18. The fusion of map counters preserves what a function does, if reading with default 0, adding and writing back is what the runtime's increment does, and if
  every value read from a map with a default is read at most once.\<close>

theorem fuseMap_preserves:
  assumes "fuse_laws M" "getors_once fn"
  shows "\<exists>fn'. fuseMapInsertGetOrAdd fn = Some fn' \<and> refines M fn fn'"
  using fuse_blocks_refines [OF assms(1), of fn "[0..<length (Blocks fn)]"] assms(2) refines_refl
  by (auto simp: fuseMapInsertGetOrAdd_def)

lemma counter_once: "getors_once (counter_fn (ConstOp (IntConst 1 TInt) TInt))"
  by code_simp

theorem fuseMap_preserves_witness:
  "fuse_laws val_machine \<and> getors_once (counter_fn (ConstOp (IntConst 1 TInt) TInt)) \<and>
    (\<exists>fn'. fuseMapInsertGetOrAdd (counter_fn (ConstOp (IntConst 1 TInt) TInt)) = Some fn' \<and>
      refines val_machine (counter_fn (ConstOp (IntConst 1 TInt) TInt)) fn')"
  using fuseMap_preserves [OF val_fuse_laws counter_once] val_fuse_laws counter_once by blast

section \<open>What does not hold\<close>

definition stale_env :: "val env" where
  "stale_env l = (if l = 2 then VStr ''k'' else if l = 3 then VInt 0 else VUnit)"

text \<open>The pass does not check that the value is read once: for \<open>let n = m.getOr(k, 0); m.insert(k, n + n)\<close> it drops the read and increments by the local
  \<open>n\<close>, which nothing assigns any more. With 5 in the map the function stores 10, and the optimised one 5 if the slot of \<open>n\<close> happens to hold 0. The validator accepts both.\<close>

theorem counter_fusion_wrong:
  "validateFunction (counter_fn (cp 3 ''Int'')) = [] \<and>
   run val_machine (counter_fn (cp 3 ''Int'')) 1 0 (stale_env, [(VStr ''k'', 5)]) = Some (VInt 10, [(VStr ''k'', 10)]) \<and>
   map_option (\<lambda>fn. (validateFunction fn, run val_machine fn 1 0 (stale_env, [(VStr ''k'', 5)]))) (optimizeFunction (counter_fn (cp 3 ''Int''))) =
     Some ([], Some (VInt 5, [(VStr ''k'', 5)]))"
proof (intro conjI)
  show "validateFunction (counter_fn (cp 3 ''Int'')) = []" by code_simp
  show "run val_machine (counter_fn (cp 3 ''Int'')) 1 0 (stale_env, [(VStr ''k'', 5)]) = Some (VInt 10, [(VStr ''k'', 10)])" by code_simp
  show "map_option (\<lambda>fn. (validateFunction fn, run val_machine fn 1 0 (stale_env, [(VStr ''k'', 5)]))) (optimizeFunction (counter_fn (cp 3 ''Int''))) =
     Some ([], Some (VInt 5, [(VStr ''k'', 5)]))" by code_simp
qed

definition reassign_line :: "Instr list" where
  "reassign_line = [AssignInstr (Place 1 []) (UseRV (ConstOp (StringConst ''x,y'') (Some ''String'')))]"

text \<open>The fusion of segments does not check that the string is still the one that was split: for
  \<open>let mut line = "a,b"; let parts = line.split(","); line = "x,y"; parts[0]\<close>, which returns \<open>a\<close>, the optimised function returns \<open>x\<close>.\<close>

theorem segment_fusion_wrong:
  "validateFunction (split_fn reassign_line) = [] \<and>
   run val_machine (split_fn reassign_line) 1 0 (\<lambda>_. VUnit, []) = Some (VStr ''a'', []) \<and>
   map_option (\<lambda>fn. run val_machine fn 1 0 (\<lambda>_. VUnit, [])) (optimizeFunction (split_fn reassign_line)) = Some (Some (VStr ''x'', []))"
proof (intro conjI)
  show "validateFunction (split_fn reassign_line) = []" by code_simp
  show "run val_machine (split_fn reassign_line) 1 0 (\<lambda>_. VUnit, []) = Some (VStr ''a'', [])" by code_simp
  show "map_option (\<lambda>fn. run val_machine fn 1 0 (\<lambda>_. VUnit, [])) (optimizeFunction (split_fn reassign_line)) = Some (Some (VStr ''x'', []))" by code_simp
qed

text \<open>C36. Optimising is not idempotent: the loop of passes stops after 16 turns, and a turn removes one copy of a chain of copies that nothing uses. Of 18
  copies two are left, and optimising again removes them.\<close>

theorem optimize_not_idempotent:
  "validateFunction (chain_fn 18) = [] \<and> optimizeFunction (chain_fn 18) = Some (chain_fn 2) \<and> optimizeFunction (chain_fn 2) = Some (chain_fn 0) \<and>
   chain_fn 2 \<noteq> chain_fn 0"
proof (intro conjI)
  show "validateFunction (chain_fn 18) = []" by code_simp
  show "optimizeFunction (chain_fn 18) = Some (chain_fn 2)" using chain_iters [of 2 16] by (simp add: chain_optimize)
  have "peephole_iters 14 (chain_fn 0) = Some (chain_fn 0)" by (simp add: eval_nat_numeral chain_turn chain_dead_0)
  then show "optimizeFunction (chain_fn 2) = Some (chain_fn 0)" using chain_dead [of 1] chain_dead [of 0] chain_fn_diff [of 0] chain_fn_diff [of 1]
    by (simp add: chain_optimize eval_nat_numeral chain_turn)
  show "chain_fn 2 \<noteq> chain_fn 0" by code_simp
qed

text \<open>A map read with a default that has two arguments passes the validator, and the optimiser indexes past its arguments.\<close>

definition short_getor :: Module where
  "short_getor = \<lparr>mod_Package = ''p'', Functions = [Some (mk_fn ''Int'' [(''Map'', True), (''String'', True), (''Int'', False)]
     [([IntrinsicInstr (Some (Place 0 [])) IntrinsicMapGetOr [cp 1 ''Map'', cp 2 ''String''], StorageLiveInstr 3, StorageDeadInstr 3], ReturnTerm)])], Globals = []\<rparr>"

lemma short_getor_panics: "Validate short_getor = []" "Optimize short_getor = None"
  by code_simp+

text \<open>The comparison of constants takes the two zeros to be one: where they meet, the one found first is propagated.\<close>

definition zeros_fn :: Function where
  "zeros_fn = mk_fn ''Float'' [(''Bool'', True), (''Float'', False)]
     [([], BranchTerm (cp 1 ''Bool'') 1 2),
      ([AssignInstr (Place 2 []) (UseRV (ConstOp (FloatConst 0 (Some ''Float'')) (Some ''Float'')))], GotoTerm 3),
      ([AssignInstr (Place 2 []) (UseRV (ConstOp (FloatConst 0x8000000000000000 (Some ''Float'')) (Some ''Float'')))], GotoTerm 3),
      ([AssignInstr (Place 0 []) (UseRV (cp 2 ''Float''))], ReturnTerm)]"

lemma zeros_merged:
  "run val_machine zeros_fn 3 0 ((\<lambda>_. VBool True), []) = Some (VFloat 0, [])"
  "map_option (\<lambda>fn. run val_machine fn 3 0 ((\<lambda>_. VBool True), [])) (optimizeFunction zeros_fn) = Some (Some (VFloat 0x8000000000000000, []))"
  by code_simp+

end
