(* ===== verification/Golegacy_Semver.thy ===== *)
theory Golegacy_Semver
  imports Semver Lockfile
begin

text \<open>
  The versions of the Osty-authored package core (\<^verbatim>\<open>src/internal/pkgmgr/golegacy_generated.go\<close>) and how the host converts its own
  versions and requirements into them (\<^verbatim>\<open>src/internal/pkgmgr/golegacy_adapter.go\<close>). The core's versions hold three
  pre-release identifiers at most, and signed integers. The theory shows when the two orders and the two notions of matching agree.
\<close>

section \<open>Versions of the core\<close>

datatype SemPreIdent = PreNone | PreNumber int | PreText string

record SemVersion =
  sv_major :: int
  sv_minor :: int
  sv_patch :: int
  pre1 :: SemPreIdent
  pre2 :: SemPreIdent
  pre3 :: SemPreIdent
  sv_build :: string

definition stableVersion :: "int \<Rightarrow> int \<Rightarrow> int \<Rightarrow> SemVersion" where
  "stableVersion a b c =
     \<lparr>sv_major = a, sv_minor = b, sv_patch = c, pre1 = PreNone, pre2 = PreNone, pre3 = PreNone, sv_build = []\<rparr>"

definition isSemPrerelease :: "SemVersion \<Rightarrow> bool" where
  "isSemPrerelease v \<longleftrightarrow> (case pre1 v of PreNone \<Rightarrow> False | _ \<Rightarrow> True)"

definition signInt :: "int \<Rightarrow> int \<Rightarrow> int" where
  "signInt a b = (if a < b then - 1 else if a > b then 1 else 0)"

definition signString :: "string \<Rightarrow> string \<Rightarrow> int" where
  "signString a b = (if a < b then - 1 else if a > b then 1 else 0)"

fun comparePreIdent :: "SemPreIdent \<Rightarrow> SemPreIdent \<Rightarrow> int" where
  "comparePreIdent PreNone PreNone = 0"
| "comparePreIdent PreNone _ = - 1"
| "comparePreIdent (PreNumber an) PreNone = 1"
| "comparePreIdent (PreNumber an) (PreNumber bn) = signInt an bn"
| "comparePreIdent (PreNumber an) (PreText _) = - 1"
| "comparePreIdent (PreText ta) PreNone = 1"
| "comparePreIdent (PreText ta) (PreNumber _) = 1"
| "comparePreIdent (PreText ta) (PreText tb) = signString ta tb"

definition compareSemVersion :: "SemVersion \<Rightarrow> SemVersion \<Rightarrow> int" where
  "compareSemVersion a b =
     (let major = signInt (sv_major a) (sv_major b); minor = signInt (sv_minor a) (sv_minor b);
          patch = signInt (sv_patch a) (sv_patch b); p1 = comparePreIdent (pre1 a) (pre1 b); p2 = comparePreIdent (pre2 a) (pre2 b)
      in if major \<noteq> 0 then major else if minor \<noteq> 0 then minor else if patch \<noteq> 0 then patch
         else if \<not> isSemPrerelease a \<and> \<not> isSemPrerelease b then 0
         else if \<not> isSemPrerelease a then 1 else if \<not> isSemPrerelease b then - 1
         else if p1 \<noteq> 0 then p1 else if p2 \<noteq> 0 then p2 else comparePreIdent (pre3 a) (pre3 b))"

definition semPreIdentIsNone :: "SemPreIdent \<Rightarrow> bool" where
  "semPreIdentIsNone i \<longleftrightarrow> (case i of PreNone \<Rightarrow> True | _ \<Rightarrow> False)"

fun semPreIdentText :: "SemPreIdent \<Rightarrow> string" where
  "semPreIdentText PreNone = []"
| "semPreIdentText (PreNumber n) = itoa_int n"
| "semPreIdentText (PreText t) = t"

definition semVersionText :: "SemVersion \<Rightarrow> string" where
  "semVersionText v =
     itoa_int (sv_major v) @ CHR ''.'' # itoa_int (sv_minor v) @ CHR ''.'' # itoa_int (sv_patch v) @
     (if isSemPrerelease v
      then CHR ''-'' # semPreIdentText (pre1 v) @
           (if \<not> semPreIdentIsNone (pre2 v) then CHR ''.'' # semPreIdentText (pre2 v) else []) @
           (if \<not> semPreIdentIsNone (pre3 v) then CHR ''.'' # semPreIdentText (pre3 v) else [])
      else []) @
     (if sv_build v \<noteq> [] then CHR ''+'' # sv_build v else [])"

datatype SemReqOp = ReqEQ | ReqGE | ReqGT | ReqLE | ReqLT

record SemReqClause =
  rc_op :: SemReqOp
  rc_version :: SemVersion

record SemReq =
  sr_allowPre :: bool
  sr_clauses :: "SemReqClause list"

definition anySemReq :: SemReq where
  "anySemReq = \<lparr>sr_allowPre = False, sr_clauses = []\<rparr>"

definition semClauseMatches :: "SemReqClause \<Rightarrow> SemVersion \<Rightarrow> bool" where
  "semClauseMatches c v =
     (let cmp = compareSemVersion v (rc_version c)
      in case rc_op c of ReqEQ \<Rightarrow> cmp = 0 | ReqGE \<Rightarrow> cmp \<ge> 0 | ReqGT \<Rightarrow> cmp > 0 | ReqLE \<Rightarrow> cmp \<le> 0 | ReqLT \<Rightarrow> cmp < 0)"

definition semReqMatches :: "SemReq \<Rightarrow> SemVersion \<Rightarrow> bool" where
  "semReqMatches r v =
     (if isSemPrerelease v \<and> \<not> sr_allowPre r then False else list_all (\<lambda>c. semClauseMatches c v) (sr_clauses r))"

section \<open>Conversion\<close>

text \<open>\<open>strconv.ParseInt\<close> with base 10 at the width of \<open>int\<close>: an optional sign, then digits.\<close>

definition ParseInt10 :: "string \<Rightarrow> int option" where
  "ParseInt10 s =
     (let neg = (s \<noteq> [] \<and> hd s = CHR ''-''); ds = (if s \<noteq> [] \<and> (hd s = CHR ''-'' \<or> hd s = CHR ''+'') then tl s else s)
      in if ds = [] \<or> \<not> list_all is_digit ds then None
         else if neg then (if digits_val ds \<le> 2 ^ 63 then Some (- digits_val ds) else None)
         else if digits_val ds < 2 ^ 63 then Some (digits_val ds) else None)"

datatype golegacy_error = SemverFailed semver_error | ComponentTooLarge | TooManyPre

definition golegacyPreIdent :: "string \<Rightarrow> SemPreIdent" where
  "golegacyPreIdent s = (case ParseInt10 s of Some n \<Rightarrow> PreNumber n | None \<Rightarrow> PreText s)"

definition pre_at :: "Version \<Rightarrow> nat \<Rightarrow> SemPreIdent" where
  "pre_at v i = (if i < length (Pre v) then golegacyPreIdent (Pre v ! i) else PreNone)"

definition golegacyVersion :: "Version \<Rightarrow> golegacy_error + SemVersion" where
  "golegacyVersion v =
     (if uint (Major v) > 2 ^ 63 - 1 \<or> uint (Minor v) > 2 ^ 63 - 1 \<or> uint (Patch v) > 2 ^ 63 - 1 then Inl ComponentTooLarge
      else if length (Pre v) > 3 then Inl TooManyPre
      else Inr \<lparr>sv_major = uint (Major v), sv_minor = uint (Minor v), sv_patch = uint (Patch v),
                pre1 = pre_at v 0, pre2 = pre_at v 1, pre3 = pre_at v 2, sv_build = join CHR ''.'' (Build v)\<rparr>)"

definition golegacyVersionFromString :: "string \<Rightarrow> golegacy_error + SemVersion" where
  "golegacyVersionFromString s = (case ParseVersion s of Inl e \<Rightarrow> Inl (SemverFailed e) | Inr v \<Rightarrow> golegacyVersion v)"

definition golegacyReqOp :: "req_op \<Rightarrow> SemReqOp" where
  "golegacyReqOp oper = (case oper of opEQ \<Rightarrow> ReqEQ | opGE \<Rightarrow> ReqGE | opGT \<Rightarrow> ReqGT | opLE \<Rightarrow> ReqLE | opLT \<Rightarrow> ReqLT)"

text \<open>The loop over the clauses, with the flag that admits pre-releases.\<close>

fun golegacy_clauses :: "clause list \<Rightarrow> golegacy_error + SemReqClause list" where
  "golegacy_clauses [] = Inr []"
| "golegacy_clauses (c # cs) =
     (case golegacyVersion (cl_V c) of Inl e \<Rightarrow> Inl e
      | Inr v \<Rightarrow> (case golegacy_clauses cs of Inl e \<Rightarrow> Inl e
                  | Inr rs \<Rightarrow> Inr (\<lparr>rc_op = golegacyReqOp (cl_Op c), rc_version = v\<rparr> # rs)))"

definition golegacyReqFromString :: "string \<Rightarrow> golegacy_error + SemReq" where
  "golegacyReqFromString raw =
     (case ParseReq raw of Inl e \<Rightarrow> Inl (SemverFailed e)
      | Inr req \<Rightarrow> (case golegacy_clauses (Clauses req) of Inl e \<Rightarrow> Inl e
          | Inr cs \<Rightarrow> Inr \<lparr>sr_allowPre = list_ex (\<lambda>c. IsPrerelease (cl_V c)) (Clauses req), sr_clauses = cs\<rparr>))"

section \<open>The order of the core\<close>

definition pre_key :: "SemPreIdent \<Rightarrow> nat \<times> int \<times> string" where
  "pre_key i = (case i of PreNone \<Rightarrow> (0, 0, []) | PreNumber n \<Rightarrow> (1, n, []) | PreText t \<Rightarrow> (2, 0, t))"

interpretation pre: comparison pre_key comparePreIdent
proof
  show "comparePreIdent a b = (if pre_key a < pre_key b then - 1 else if pre_key b < pre_key a then 1 else 0)" for a b
    by (cases a; cases b) (auto simp: pre_key_def signInt_def signString_def)
qed

definition sem_key :: "SemVersion \<Rightarrow> int \<times> int \<times> int \<times> nat \<times> (nat \<times> int \<times> string) list" where
  "sem_key v = (sv_major v, sv_minor v, sv_patch v, if isSemPrerelease v then 0 else 1,
     if isSemPrerelease v then [pre_key (pre1 v), pre_key (pre2 v), pre_key (pre3 v)] else [])"

interpretation sem: comparison sem_key compareSemVersion
proof
  fix a b
  have three: "(if comparePreIdent x x' \<noteq> 0 then comparePreIdent x x' else if comparePreIdent y y' \<noteq> 0 then comparePreIdent y y' else comparePreIdent z z') =
      (if [pre_key x, pre_key y, pre_key z] < [pre_key x', pre_key y', pre_key z'] then - 1
       else if [pre_key x', pre_key y', pre_key z'] < [pre_key x, pre_key y, pre_key z] then 1 else 0)" for x x' y y' z z'
    unfolding pre.cmp_key by (auto simp: linorder_neq_iff)
  show "compareSemVersion a b = (if sem_key a < sem_key b then - 1 else if sem_key b < sem_key a then 1 else 0)"
    unfolding compareSemVersion_def Let_def sem_key_def signInt_def three
    by (cases "sv_major a = sv_major b"; cases "sv_minor a = sv_minor b"; cases "sv_patch a = sv_patch b";
        cases "isSemPrerelease a"; cases "isSemPrerelease b") (simp_all, auto)
qed

section \<open>When the two orders agree\<close>

text \<open>An identifier that both sides read alike: not a dash followed by digits, which only the core takes for a number, and no number
  that fits 64 bits unsigned but not signed.\<close>

definition plain_ident :: "string \<Rightarrow> bool" where
  "plain_ident s \<longleftrightarrow> \<not> (s \<noteq> [] \<and> hd s = CHR ''-'' \<and> tl s \<noteq> [] \<and> list_all is_digit (tl s)) \<and>
     \<not> (list_all is_digit s \<and> 2 ^ 63 \<le> digits_val s \<and> digits_val s < 2 ^ 64)"

definition plain_version :: "Version \<Rightarrow> bool" where
  "plain_version v \<longleftrightarrow> list_all plain_ident (Pre v)"

lemma dash_plus_no_digit [simp]: "\<not> is_digit CHR ''-''" "\<not> is_digit CHR ''+''" "\<not> is_alnum_dash CHR ''+''"
  by (simp_all add: is_digit_def is_alnum_dash_def)

lemma isPreIdent_no_plus: "isPreIdent s \<Longrightarrow> s \<noteq> [] \<and> hd s \<noteq> CHR ''+''"
  by (cases s) (auto simp: isPreIdent_def split: if_splits)

lemma ParseInt10_plain:
  assumes "isPreIdent s" "plain_ident s"
  shows "ParseInt10 s = map_option uint (parseUintMaybe s)"
proof (cases "list_all is_digit s")
  case True
  then have h: "s \<noteq> []" "hd s \<noteq> CHR ''-''" "hd s \<noteq> CHR ''+''" using isPreIdent_no_plus [OF assms(1)] by (cases s; auto)+
  have "uint (of_int (digits_val s) :: 64 word) = digits_val s" if "digits_val s < 2 ^ 64"
    using that digits_val_ge [OF True] by (simp add: unsigned_of_int take_bit_eq_mod)
  then show ?thesis using True h assms(2) by (auto simp: ParseInt10_def parseUintMaybe_def ParseUint_def plain_ident_def Let_def)
next
  case False
  then show ?thesis using isPreIdent_no_plus [OF assms(1)] assms(2)
    by (auto simp: ParseInt10_def parseUintMaybe_def plain_ident_def Let_def)
qed

definition lift_key :: "nat \<times> nat \<times> string \<Rightarrow> nat \<times> int \<times> string" where
  "lift_key k = (Suc (fst k), int (fst (snd k)), snd (snd k))"

lemma lift_key_less [simp]: "lift_key a < lift_key b \<longleftrightarrow> a < b" "lift_key a = lift_key b \<longleftrightarrow> a = b"
  "(0, 0, []) < lift_key a" "\<not> lift_key a < (0, 0, [])" "lift_key a \<noteq> (0, 0, [])" "(0, 0, []) \<noteq> lift_key a"
  by (auto simp: lift_key_def less_prod_def prod_eq_iff)

lemma pre_key_plain:
  assumes "isPreIdent s" "plain_ident s"
  shows "pre_key (golegacyPreIdent s) = lift_key (ident_key s)"
  by (simp add: golegacyPreIdent_def ParseInt10_plain [OF assms] pre_key_def ident_key_def lift_key_def split: option.split)

definition pad3 :: "(nat \<times> nat \<times> string) list \<Rightarrow> (nat \<times> int \<times> string) list" where
  "pad3 ks = map (\<lambda>i. if i < length ks then lift_key (ks ! i) else (0, 0, [])) [0, 1, 2]"

lemma pad3_less:
  assumes "length xs \<le> 3" "length ys \<le> 3"
  shows "pad3 xs < pad3 ys \<longleftrightarrow> xs < ys"
proof -
  have "\<exists>a b c. xs = [] \<or> xs = [a] \<or> xs = [a, b] \<or> xs = [a, b, c]" if "length xs \<le> 3" for xs :: "(nat \<times> nat \<times> string) list"
    using that by (auto simp: numeral_3_eq_3 le_Suc_eq length_Suc_conv)
  from this [OF assms(1)] this [OF assms(2)] show ?thesis
    by (elim exE disjE; hypsubst) (simp_all add: pad3_def)
qed

lemma golegacyVersion_Inr:
  assumes "golegacyVersion v = Inr g"
  shows "length (Pre v) \<le> 3" "sv_major g = uint (Major v)" "sv_minor g = uint (Minor v)" "sv_patch g = uint (Patch v)"
    "pre1 g = pre_at v 0" "pre2 g = pre_at v 1" "pre3 g = pre_at v 2" "sv_build g = join CHR ''.'' (Build v)"
  using assms by (auto simp: golegacyVersion_def split: if_splits)

lemma golegacy_prerelease: "golegacyVersion v = Inr g \<Longrightarrow> isSemPrerelease g \<longleftrightarrow> IsPrerelease v"
  by (auto simp: isSemPrerelease_def IsPrerelease_def golegacyVersion_Inr pre_at_def golegacyPreIdent_def split: option.split)

lemma sem_key_plain:
  assumes "golegacyVersion v = Inr g" "valid_version v" "plain_version v"
  shows "sem_key g = (int (unat (Major v)), int (unat (Minor v)), int (unat (Patch v)), if Pre v = [] then 1 else 0,
    if Pre v = [] then [] else pad3 (map ident_key (Pre v)))"
proof -
  have "pre_key (pre_at v i) = (if i < length (Pre v) then lift_key (ident_key (Pre v ! i)) else (0, 0, []))" for i
    using assms(2,3) pre_key_plain [of "Pre v ! i"]
    by (auto simp: pre_at_def valid_version_def plain_version_def list_all_length pre_key_def)
  then show ?thesis
    using golegacy_prerelease [OF assms(1)] by (auto simp: sem_key_def golegacyVersion_Inr [OF assms(1)] IsPrerelease_def pad3_def)
qed

lemma core_key_less:
  fixes k k' :: nat
  assumes "k = k' \<Longrightarrow> xs < ys \<longleftrightarrow> xs' < ys'"
  shows "(int a, int b, int c, k, xs) < (int a', int b', int c', k', ys) \<longleftrightarrow> (a, b, c, k, xs') < (a', b', c', k', ys')"
  using assms by (cases "a = a'"; cases "b = b'"; cases "c = c'"; cases "k = k'") auto

lemma sem_key_less:
  assumes "golegacyVersion v = Inr g" "valid_version v" "plain_version v"
    and "golegacyVersion w = Inr h" "valid_version w" "plain_version w"
  shows "sem_key g < sem_key h \<longleftrightarrow> version_key v < version_key w"
  unfolding sem_key_plain [OF assms(1-3)] sem_key_plain [OF assms(4-6)] version_key_def
proof (rule core_key_less)
  assume "(if Pre v = [] then 1 else (0 :: nat)) = (if Pre w = [] then 1 else 0)"
  then show "(if Pre v = [] then [] else pad3 (map ident_key (Pre v))) < (if Pre w = [] then [] else pad3 (map ident_key (Pre w))) \<longleftrightarrow>
      map ident_key (Pre v) < map ident_key (Pre w)"
    using pad3_less [of "map ident_key (Pre v)" "map ident_key (Pre w)"] golegacyVersion_Inr(1) [OF assms(1)] golegacyVersion_Inr(1) [OF assms(4)]
    by (auto split: if_splits)
qed

lemma compare_plain:
  assumes "golegacyVersion v = Inr g" "valid_version v" "plain_version v"
    and "golegacyVersion w = Inr h" "valid_version w" "plain_version w"
  shows "compareSemVersion g h = Compare v w"
  unfolding sem.cmp_key version.cmp_key sem_key_less [OF assms] sem_key_less [OF assms(4-6,1-3)] ..


section \<open>When matching and printing agree\<close>

text \<open>What a parsed requirement compares with: versions that are well-formed, and plain.\<close>

definition plain_req :: "string \<Rightarrow> bool" where
  "plain_req raw \<longleftrightarrow> (case ParseReq raw of Inl _ \<Rightarrow> True
     | Inr r \<Rightarrow> list_all (\<lambda>c. valid_version (cl_V c) \<and> plain_version (cl_V c)) (Clauses r))"

lemma one_part_allowPre: "parseOnePart p = Inr (cs, b) \<Longrightarrow> b = list_ex (\<lambda>c. IsPrerelease (cl_V c)) cs"
  by (auto simp: parseOnePart_def wildcardClauses_def caretClauses_def tildeClauses_def IsPrerelease_def Let_def
    split: if_splits sum.splits prod.splits)

lemma parts_allowPre:
  "parse_parts ps out = Inr r \<Longrightarrow> allowPre out = list_ex (\<lambda>c. IsPrerelease (cl_V c)) (Clauses out) \<Longrightarrow>
    allowPre r = list_ex (\<lambda>c. IsPrerelease (cl_V c)) (Clauses r)"
proof (induction ps arbitrary: out)
  case (Cons p ps)
  then obtain cs b where "parseOnePart p = Inr (cs, b)" "parse_parts ps (out\<lparr>Clauses := Clauses out @ cs, allowPre := allowPre out \<or> b\<rparr>) = Inr r"
    by (auto split: sum.splits)
  then show ?case using Cons.IH Cons.prems(2) one_part_allowPre by fastforce
qed simp

lemma ParseReq_allowPre: "ParseReq raw = Inr r \<Longrightarrow> allowPre r = list_ex (\<lambda>c. IsPrerelease (cl_V c)) (Clauses r)"
  using parts_allowPre [of "Fields (TrimSpace raw)"] by (auto simp: ParseReq_def Let_def split: if_splits)

lemma clause_plain:
  assumes "golegacyVersion v = Inr g" "valid_version v" "plain_version v"
    and "golegacyVersion (cl_V c) = Inr h" "valid_version (cl_V c)" "plain_version (cl_V c)"
  shows "semClauseMatches \<lparr>rc_op = golegacyReqOp (cl_Op c), rc_version = h\<rparr> g = clauseMatch c v"
  using compare_plain [OF assms] by (simp add: semClauseMatches_def clauseMatch_def golegacyReqOp_def split: req_op.split)

lemma clauses_plain:
  assumes "golegacyVersion v = Inr g" "valid_version v" "plain_version v"
  shows "golegacy_clauses cs = Inr rs \<Longrightarrow> list_all (\<lambda>c. valid_version (cl_V c) \<and> plain_version (cl_V c)) cs \<Longrightarrow>
    list_all (\<lambda>c. semClauseMatches c g) rs = list_all (\<lambda>c. clauseMatch c v) cs"
  by (induction cs arbitrary: rs) (auto simp: clause_plain [OF assms] split: sum.splits)

lemma matches_plain:
  assumes "golegacyReqFromString raw = Inr r" "plain_req raw"
    and "golegacyVersion v = Inr g" "valid_version v" "plain_version v"
  shows "\<exists>req. ParseReq raw = Inr req \<and> semReqMatches r g = Match req v"
proof -
  obtain req cs where "ParseReq raw = Inr req" "golegacy_clauses (Clauses req) = Inr cs"
      "r = \<lparr>sr_allowPre = list_ex (\<lambda>c. IsPrerelease (cl_V c)) (Clauses req), sr_clauses = cs\<rparr>"
    using assms(1) by (auto simp: golegacyReqFromString_def split: sum.splits)
  then show ?thesis using assms(2) clauses_plain [OF assms(3-5)] golegacy_prerelease [OF assms(3)] ParseReq_allowPre
    by (auto simp: plain_req_def semReqMatches_def Match_def)
qed

lemma preText_plain:
  assumes "isPreIdent s" "plain_ident s"
  shows "semPreIdentText (golegacyPreIdent s) = s" "golegacyPreIdent s \<noteq> PreNone"
proof -
  have "itoa_int (uint n) = s" if n: "parseUintMaybe s = Some n" for n
  proof -
    have "parse_num s = Some n" using n assms(1)
      by (auto simp: parse_num_def parseUintMaybe_def isPreIdent_def ParseUint_def split: if_splits)
    then show ?thesis using parse_num_Some by (auto simp: itoa_int_def)
  qed
  then show "semPreIdentText (golegacyPreIdent s) = s"
    using ParseInt10_plain [OF assms] by (auto simp: golegacyPreIdent_def split: option.split)
  show "golegacyPreIdent s \<noteq> PreNone" by (simp add: golegacyPreIdent_def split: option.split)
qed

lemma text_plain:
  assumes "golegacyVersion v = Inr g" "valid_version v" "plain_version v"
  shows "semVersionText g = Version_String v"
proof -
  note c = golegacyVersion_Inr [OF assms(1)]
  have t: "semPreIdentText (golegacyPreIdent s) = s" "golegacyPreIdent s \<noteq> PreNone" if "s \<in> set (Pre v)" for s
    using that assms(2,3) preText_plain [of s] by (auto simp: valid_version_def plain_version_def list_all_iff)
  have l: "\<exists>a b c. Pre v = [] \<or> Pre v = [a] \<or> Pre v = [a, b] \<or> Pre v = [a, b, c]"
    using c(1) by (auto simp: numeral_3_eq_3 le_Suc_eq length_Suc_conv)
  have "join CHR ''.'' (Build v) = [] \<longleftrightarrow> Build v = []"
    using assms(2) by (cases "Build v"; cases "tl (Build v)") (auto simp: valid_version_def isBuildIdent_def)
  moreover have "itoa_int (uint n) = itoa (unat n)" for n :: "64 word" by (simp add: itoa_int_def)
  ultimately show ?thesis
    using l t by (auto simp: semVersionText_def Version_String_def golegacy_prerelease [OF assms(1)] IsPrerelease_def c pre_at_def
      semPreIdentIsNone_def split: SemPreIdent.split)
qed

section \<open>Properties\<close>

text \<open>C29. For well-formed versions that it can hold and requirements without unusual identifiers, the core orders, prints and matches versions exactly
  as the host does.\<close>

theorem core_versions_agree:
  assumes "golegacyVersion v = Inr g" "valid_version v" "plain_version v"
    and "golegacyVersion w = Inr h" "valid_version w" "plain_version w"
    and "golegacyReqFromString raw = Inr r" "plain_req raw"
  shows "compareSemVersion g h = Compare v w \<and> semVersionText g = Version_String v \<and>
    (\<exists>req. ParseReq raw = Inr req \<and> semReqMatches r g = Match req v)"
  using compare_plain [OF assms(1-6)] text_plain [OF assms(1-3)] matches_plain [OF assms(7,8,1-3)] by blast

theorem core_versions_agree_witness:
  "\<exists>g h r. golegacyVersion sample_version = Inr g \<and> golegacyVersion (core_version 1 2 3) = Inr h \<and> golegacyReqFromString ''^1.2.0-a'' = Inr r \<and>
    compareSemVersion g h = Compare sample_version (core_version 1 2 3) \<and> semVersionText g = Version_String sample_version"
proof -
  have "case (golegacyVersion sample_version, golegacyVersion (core_version 1 2 3), golegacyReqFromString ''^1.2.0-a'') of
      (Inr g, Inr h, Inr r) \<Rightarrow> True | _ \<Rightarrow> False" by code_simp
  then obtain g h r where c: "golegacyVersion sample_version = Inr g" "golegacyVersion (core_version 1 2 3) = Inr h"
      "golegacyReqFromString ''^1.2.0-a'' = Inr r" by (auto split: sum.splits)
  have v: "valid_version sample_version" "plain_version sample_version" "valid_version (core_version 1 2 3)"
      "plain_version (core_version 1 2 3)" "plain_req ''^1.2.0-a''" by code_simp+
  show ?thesis using core_versions_agree [OF c(1) v(1,2) c(2) v(3,4) c(3) v(5)] c by blast
qed

text \<open>Digit strings of equal length: the order of the texts is the order of the numbers.\<close>

lemma foldl_digits_less:
  "length d = length e \<Longrightarrow> list_all is_digit d \<Longrightarrow> list_all is_digit e \<Longrightarrow> (a :: int) < b \<or> a = b \<and> d < e \<Longrightarrow>
    foldl (\<lambda>a c. a * 10 + (of_char c - 48)) a d < foldl (\<lambda>a c. a * 10 + (of_char c - 48)) b e"
proof (induction d e arbitrary: a b rule: list_induct2)
  case (Cons x d y e)
  have "(of_char x :: int) < of_char y" if "x < y" using that by (metis less_char_def of_nat_less_iff of_nat_of_char)
  then have "a * 10 + (of_char x - 48) < b * 10 + (of_char y - 48) \<or> a * 10 + (of_char x - 48) = b * 10 + (of_char y - 48) \<and> d < e"
    using Cons.prems digit_val_bounds [of x] digit_val_bounds [of y] by auto
  then show ?case using Cons by simp
qed simp

lemma digits_val_less:
  "length d = length e \<Longrightarrow> list_all is_digit d \<Longrightarrow> list_all is_digit e \<Longrightarrow> d < e \<Longrightarrow> digits_val d < digits_val e"
  unfolding digits_val_def by (rule foldl_digits_less) auto

lemma golegacy_dash:
  assumes "d \<noteq> []" "list_all is_digit d" "digits_val d \<le> 2 ^ 63"
  shows "golegacyPreIdent (CHR ''-'' # d) = PreNumber (- digits_val d)" "parseUintMaybe (CHR ''-'' # d) = None"
  using assms by (simp_all add: golegacyPreIdent_def ParseInt10_def parseUintMaybe_def)

text \<open>C39. A pre-release identifier of a dash and digits is text for the host and a negative number for the core, so the two order them in
  opposite ways: of two versions that differ only there, with digits of the same length up to 2^63, the one that the
  host takes for the smaller is the greater one for the core.\<close>

theorem core_dash_identifiers:
  assumes "golegacyVersion v = Inr g" "golegacyVersion w = Inr h" "Major v = Major w" "Minor v = Minor w" "Patch v = Patch w"
    and "Pre v = [CHR ''-'' # d]" "Pre w = [CHR ''-'' # e]" "list_all is_digit d" "list_all is_digit e" "length d = length e"
    and "d < e" "digits_val e \<le> 2 ^ 63"
  shows "Compare v w = - 1 \<and> compareSemVersion g h = 1"
proof -
  have less: "digits_val d < digits_val e" and ne: "d \<noteq> []" "e \<noteq> []" using digits_val_less assms(8-11) by auto
  then have "pre1 g = PreNumber (- digits_val d)" "pre1 h = PreNumber (- digits_val e)"
    using assms(1,2,6-9,12) by (auto simp: golegacyVersion_def pre_at_def golegacy_dash split: if_splits)
  moreover have "sv_major g = sv_major h" "sv_minor g = sv_minor h" "sv_patch g = sv_patch h"
    using assms(1-5) by (auto simp: golegacyVersion_def split: if_splits)
  ultimately have "compareSemVersion g h = 1" using less by (simp add: compareSemVersion_def signInt_def isSemPrerelease_def)
  moreover have "Compare v w = - 1" using assms(3-9,11,12) ne less by (simp add: Compare_def golegacy_dash)
  ultimately show ?thesis by blast
qed

theorem core_dash_identifiers_witness:
  "\<exists>v w g h. ParseVersion ''1.0.0--1'' = Inr v \<and> ParseVersion ''1.0.0--2'' = Inr w \<and> golegacyVersion v = Inr g \<and> golegacyVersion w = Inr h \<and>
    Compare v w = - 1 \<and> compareSemVersion g h = 1"
proof -
  have p: "ParseVersion ''1.0.0--1'' = Inr \<lparr>Major = 1, Minor = 0, Patch = 0, Pre = [''-1''], Build = []\<rparr>"
    "ParseVersion ''1.0.0--2'' = Inr \<lparr>Major = 1, Minor = 0, Patch = 0, Pre = [''-2''], Build = []\<rparr>" by code_simp+
  obtain g h where g: "golegacyVersion \<lparr>Major = 1, Minor = 0, Patch = 0, Pre = [''-1''], Build = []\<rparr> = Inr g"
    "golegacyVersion \<lparr>Major = 1, Minor = 0, Patch = 0, Pre = [''-2''], Build = []\<rparr> = Inr h" by (auto simp: golegacyVersion_def)
  have d: "list_all is_digit ''1''" "list_all is_digit ''2''" "''1'' < ''2''" "digits_val ''2'' \<le> 2 ^ 63" by code_simp+
  show ?thesis using core_dash_identifiers [OF g _ _ _ _ _ d(1,2) _ d(3,4)] p g by auto
qed

end
