(* ===== verification/Golegacy_Core.thy ===== *)
theory Golegacy_Core
  imports Golegacy_Semver
begin

text \<open>
  The Osty-authored package core in \<^verbatim>\<open>src/internal/pkgmgr/golegacy_generated.go\<close>, as far as the host calls it through
  \<^verbatim>\<open>golegacy_adapter.go\<close>: source identifiers, candidates and their choice against a lock, checksums, the difference of two
  locks, the order of a graph, and the lookup of imports. Counters that only count are lengths.
\<close>

section \<open>Text\<close>

text \<open>\<open>strings.Split(s, "")\<close>: the UTF-8 sequences of a string; a byte that starts none stands alone.\<close>

definition rune_size :: "string \<Rightarrow> nat" where
  "rune_size s =
     (let b = (\<lambda>i. if i < length s then (of_char (s ! i) :: nat) else 0); cont = (\<lambda>i. 0x80 \<le> b i \<and> b i \<le> 0xBF)
      in if 0xC2 \<le> b 0 \<and> b 0 \<le> 0xDF \<and> cont 1 then 2
         else if (b 0 = 0xE0 \<and> 0xA0 \<le> b 1 \<and> b 1 \<le> 0xBF \<or> (0xE1 \<le> b 0 \<and> b 0 \<le> 0xEC \<or> 0xEE \<le> b 0 \<and> b 0 \<le> 0xEF) \<and> cont 1 \<or>
                  b 0 = 0xED \<and> 0x80 \<le> b 1 \<and> b 1 \<le> 0x9F) \<and> cont 2 then 3
         else if (b 0 = 0xF0 \<and> 0x90 \<le> b 1 \<and> b 1 \<le> 0xBF \<or> 0xF1 \<le> b 0 \<and> b 0 \<le> 0xF3 \<and> cont 1 \<or>
                  b 0 = 0xF4 \<and> 0x80 \<le> b 1 \<and> b 1 \<le> 0x8F) \<and> cont 2 \<and> cont 3 then 4
         else 1)"

lemma rune_size_pos [simp]: "0 < rune_size s"
  by (simp add: rune_size_def Let_def)

function explode_runes :: "string \<Rightarrow> string list" where
  "explode_runes s = (if s = [] then [] else take (rune_size s) s # explode_runes (drop (rune_size s) s))"
  by pat_completeness auto
termination
  by (relation "measure length") auto

declare explode_runes.simps [simp del]

definition HasPrefix :: "string \<Rightarrow> string \<Rightarrow> bool" where
  "HasPrefix s p \<longleftrightarrow> take (length p) s = p"

definition TrimPrefix :: "string \<Rightarrow> string \<Rightarrow> string" where
  "TrimPrefix s p = (if HasPrefix s p then drop (length p) s else s)"

definition TrimSuffix :: "string \<Rightarrow> string \<Rightarrow> string" where
  "TrimSuffix s p = (if length p \<le> length s \<and> drop (length s - length p) s = p then take (length s - length p) s else s)"

text \<open>\<open>strings.SplitN(s, sep, 2)\<close> for a separator that is not empty: the text before and after its first occurrence.\<close>

fun split_first :: "string \<Rightarrow> string \<Rightarrow> (string \<times> string) option" where
  "split_first sep [] = None"
| "split_first sep (c # cs) =
     (if HasPrefix (c # cs) sep then Some ([], drop (length sep) (c # cs))
      else map_option (\<lambda>(a, b). (c # a, b)) (split_first sep cs))"

section \<open>Dependencies, candidates, locks\<close>

datatype SelfPkgSourceKind = SelfPkgSourceRegistry | SelfPkgSourcePath | SelfPkgSourceGit

record SelfPkgDependency =
  sd_name :: string
  sd_packageName :: string
  sd_sourceKind :: SelfPkgSourceKind
  sd_versionReq :: SemReq
  sd_registry :: string
  sd_sourceRef :: string

record SelfPkgCandidate =
  sc_packageName :: string
  sc_version :: SemVersion
  sc_checksum :: string
  sc_yanked :: bool

record SelfPkgLockDependency =
  sld_name :: string
  sld_version :: SemVersion
  sld_source :: string

record SelfPkgLockPackage =
  slp_name :: string
  slp_version :: SemVersion
  slp_source :: string
  slp_checksum :: string
  slp_dependencies :: "SelfPkgLockDependency list"

record SelfPkgResolveDecision =
  srd_found :: bool
  srd_name :: string
  srd_packageName :: string
  srd_version :: SemVersion
  srd_source :: string
  srd_checksum :: string
  srd_fromLock :: bool
  srd_message :: string

definition selfPkgRegistryDependencyAs :: "string \<Rightarrow> string \<Rightarrow> string \<Rightarrow> SemReq \<Rightarrow> SelfPkgDependency" where
  "selfPkgRegistryDependencyAs name packageName registry req =
     \<lparr>sd_name = name, sd_packageName = packageName, sd_sourceKind = SelfPkgSourceRegistry, sd_versionReq = req,
      sd_registry = registry, sd_sourceRef = []\<rparr>"

definition selfPkgPathDependency :: "string \<Rightarrow> string \<Rightarrow> SelfPkgDependency" where
  "selfPkgPathDependency name path =
     \<lparr>sd_name = name, sd_packageName = [], sd_sourceKind = SelfPkgSourcePath, sd_versionReq = anySemReq,
      sd_registry = [], sd_sourceRef = path\<rparr>"

definition selfPkgCanonicalName :: "SelfPkgDependency \<Rightarrow> string" where
  "selfPkgCanonicalName d = (if sd_packageName d \<noteq> [] then sd_packageName d else sd_name d)"

definition selfPkgSourceURI :: "SelfPkgDependency \<Rightarrow> string" where
  "selfPkgSourceURI d =
     (case sd_sourceKind d of
        SelfPkgSourceRegistry \<Rightarrow> if sd_registry d = [] then ''registry+default'' else ''registry+'' @ sd_registry d
      | SelfPkgSourcePath \<Rightarrow> ''path+'' @ sd_sourceRef d
      | SelfPkgSourceGit \<Rightarrow> ''git+'' @ sd_sourceRef d)"

definition selfPkgGitURI :: "string \<Rightarrow> string \<Rightarrow> string \<Rightarrow> string \<Rightarrow> string" where
  "selfPkgGitURI url tag branch rev0 =
     (let params = (if tag \<noteq> [] then [''tag='' @ tag] else []) @ (if branch \<noteq> [] then [''branch='' @ branch] else []) @
                   (if rev0 \<noteq> [] then [''rev='' @ rev0] else []);
          base = ''git+'' @ url
      in if params = [] then base else base @ ''?'' @ join CHR ''&'' params)"

definition selfPkgGitCheckoutRef :: "string \<Rightarrow> string \<Rightarrow> string \<Rightarrow> string" where
  "selfPkgGitCheckoutRef tag branch rev0 =
     (if rev0 \<noteq> [] then rev0 else if tag \<noteq> [] then ''refs/tags/'' @ tag
      else if branch \<noteq> [] then ''origin/'' @ branch else ''origin/HEAD'')"

definition selfPkgURLUnitSafe :: "string \<Rightarrow> bool" where
  "selfPkgURLUnitSafe u \<longleftrightarrow> ''A'' \<le> u \<and> u \<le> ''Z'' \<or> ''a'' \<le> u \<and> u \<le> ''z'' \<or> ''0'' \<le> u \<and> u \<le> ''9'' \<or>
     u = ''-'' \<or> u = ''.'' \<or> u = ''_''"

definition selfPkgSanitizeURL :: "string \<Rightarrow> string" where
  "selfPkgSanitizeURL url = concat (map (\<lambda>u. if selfPkgURLUnitSafe u then u else ''_'') (explode_runes url))"

definition selfPkgLockPackageLess :: "SelfPkgLockPackage \<Rightarrow> SelfPkgLockPackage \<Rightarrow> bool" where
  "selfPkgLockPackageLess a b =
     (if slp_name a \<noteq> slp_name b then slp_name a < slp_name b else semVersionText (slp_version a) < semVersionText (slp_version b))"

fun selfPkgInsertLockPackage :: "SelfPkgLockPackage list \<Rightarrow> SelfPkgLockPackage \<Rightarrow> SelfPkgLockPackage list" where
  "selfPkgInsertLockPackage [] item = [item]"
| "selfPkgInsertLockPackage (p # ps) item =
     (if selfPkgLockPackageLess item p then item # p # ps else p # selfPkgInsertLockPackage ps item)"

definition selfPkgSortLockPackages :: "SelfPkgLockPackage list \<Rightarrow> SelfPkgLockPackage list" where
  "selfPkgSortLockPackages ps = foldl selfPkgInsertLockPackage [] ps"

section \<open>Writing a lock\<close>

definition selfPkgLockDependencyString :: "SelfPkgLockDependency \<Rightarrow> string" where
  "selfPkgLockDependencyString d =
     (let version = semVersionText (sld_version d)
      in if sld_source d = [] then sld_name d @ '' '' @ version else sld_name d @ '' '' @ version @ '' ('' @ sld_source d @ '')'')"

definition quote_unit :: "string \<Rightarrow> string" where
  "quote_unit u =
     (if u = [BSL] then [BSL, BSL] else if u = [DQ] then [BSL, DQ] else if u = [NL] then [BSL, CHR ''n'']
      else if u = [CHR 0x0D] then [BSL, CHR ''r''] else if u = [CHR 0x09] then [BSL, CHR ''t''] else u)"

definition selfPkgTomlQuote :: "string \<Rightarrow> string" where
  "selfPkgTomlQuote text0 = DQ # concat (map quote_unit (explode_runes text0)) @ [DQ]"

definition selfPkgLockDependencyLess :: "SelfPkgLockDependency \<Rightarrow> SelfPkgLockDependency \<Rightarrow> bool" where
  "selfPkgLockDependencyLess a b =
     (if sld_name a \<noteq> sld_name b then sld_name a < sld_name b else semVersionText (sld_version a) < semVersionText (sld_version b))"

fun selfPkgInsertLockDependency :: "SelfPkgLockDependency list \<Rightarrow> SelfPkgLockDependency \<Rightarrow> SelfPkgLockDependency list" where
  "selfPkgInsertLockDependency [] item = [item]"
| "selfPkgInsertLockDependency (d # ds) item =
     (if selfPkgLockDependencyLess item d then item # d # ds else d # selfPkgInsertLockDependency ds item)"

definition selfPkgSortLockDependencies :: "SelfPkgLockDependency list \<Rightarrow> SelfPkgLockDependency list" where
  "selfPkgSortLockDependencies ds = foldl selfPkgInsertLockDependency [] ds"

text \<open>The lines of one package.\<close>

definition lock_entry :: "SelfPkgLockPackage \<Rightarrow> string" where
  "lock_entry p =
     NL # (CHR ''['' # ''[package]]'') @ [NL] @
     ''name = '' @ selfPkgTomlQuote (slp_name p) @ [NL] @
     ''version = '' @ selfPkgTomlQuote (semVersionText (slp_version p)) @ [NL] @
     (if slp_source p \<noteq> [] then ''source = '' @ selfPkgTomlQuote (slp_source p) @ [NL] else []) @
     (if slp_checksum p \<noteq> [] then ''checksum = '' @ selfPkgTomlQuote (slp_checksum p) @ [NL] else []) @
     (if length (slp_dependencies p) > 0
      then ''dependencies = ['' @ [NL] @
           concat (map (\<lambda>d. ''    '' @ selfPkgTomlQuote (selfPkgLockDependencyString d) @ '','' @ [NL])
             (selfPkgSortLockDependencies (slp_dependencies p))) @ '']'' @ [NL]
      else [])"

definition selfPkgMarshalLock :: "SelfPkgLockPackage list \<Rightarrow> string" where
  "selfPkgMarshalLock ps =
     ''# This file is auto-generated by osty.'' @ [NL] @
     ''# Do not edit manually; `osty update` regenerates it.'' @ [NL, NL] @
     ''version = 1'' @ [NL] @ concat (map lock_entry (selfPkgSortLockPackages ps))"

section \<open>Choosing a candidate\<close>

definition selfPkgCandidateMatches :: "SelfPkgDependency \<Rightarrow> SelfPkgCandidate \<Rightarrow> bool" where
  "selfPkgCandidateMatches d c \<longleftrightarrow>
     sc_packageName c = selfPkgCanonicalName d \<and> \<not> sc_yanked c \<and> semReqMatches (sd_versionReq d) (sc_version c)"

definition selfPkgFindLockedPackage :: "string \<Rightarrow> SelfPkgLockPackage list \<Rightarrow> SelfPkgLockPackage option" where
  "selfPkgFindLockedPackage name locked = find (\<lambda>p. slp_name p = name) locked"

definition selfPkgFindCompatibleLockedPackage :: "SelfPkgDependency \<Rightarrow> SelfPkgLockPackage list \<Rightarrow> SelfPkgLockPackage option" where
  "selfPkgFindCompatibleLockedPackage d locked =
     find (\<lambda>p. slp_name p = sd_name d \<and> (slp_source p = [] \<or> slp_source p = selfPkgSourceURI d) \<and>
               semReqMatches (sd_versionReq d) (slp_version p)) locked"

text \<open>The loop that keeps the newest candidate.\<close>

fun best_candidate :: "SelfPkgDependency \<Rightarrow> SelfPkgCandidate list \<Rightarrow> SelfPkgCandidate option \<Rightarrow> SelfPkgCandidate option" where
  "best_candidate d [] best = best"
| "best_candidate d (c # cs) best =
     best_candidate d cs
       (if selfPkgCandidateMatches d c \<and> (case best of None \<Rightarrow> True | Some b \<Rightarrow> compareSemVersion (sc_version b) (sc_version c) < 0)
        then Some c else best)"

definition decision_for :: "SelfPkgDependency \<Rightarrow> SelfPkgCandidate \<Rightarrow> bool \<Rightarrow> string \<Rightarrow> SelfPkgResolveDecision" where
  "decision_for d c fromLock message =
     \<lparr>srd_found = True, srd_name = sd_name d, srd_packageName = selfPkgCanonicalName d, srd_version = sc_version c,
      srd_source = selfPkgSourceURI d, srd_checksum = sc_checksum c, srd_fromLock = fromLock, srd_message = message\<rparr>"

definition selfPkgSelectRegistryCandidate ::
    "SelfPkgDependency \<Rightarrow> SelfPkgCandidate list \<Rightarrow> SelfPkgLockPackage list \<Rightarrow> SelfPkgResolveDecision" where
  "selfPkgSelectRegistryCandidate d cands locked =
     (case (case selfPkgFindCompatibleLockedPackage d locked of None \<Rightarrow> None
            | Some p \<Rightarrow> find (\<lambda>c. selfPkgCandidateMatches d c \<and> compareSemVersion (sc_version c) (slp_version p) = 0) cands) of
        Some c \<Rightarrow> decision_for d c True ''locked''
      | None \<Rightarrow> (case best_candidate d cands None of
            Some c \<Rightarrow> decision_for d c False ''selected''
          | None \<Rightarrow> \<lparr>srd_found = False, srd_name = sd_name d, srd_packageName = [], srd_version = stableVersion 0 0 0, srd_source = [],
                     srd_checksum = [], srd_fromLock = False, srd_message = ''no matching registry version''\<rparr>))"

datatype checksum_error = UnsupportedAlgorithm string string | ChecksumMismatch string string

definition selfPkgChecksumPrefix :: string where
  "selfPkgChecksumPrefix = ''sha256:''"

definition selfPkgVerifyChecksum :: "string \<Rightarrow> string \<Rightarrow> checksum_error option" where
  "selfPkgVerifyChecksum want got =
     (if want = [] then None
      else if \<not> HasPrefix want selfPkgChecksumPrefix \<or> \<not> HasPrefix got selfPkgChecksumPrefix then Some (UnsupportedAlgorithm want got)
      else if want \<noteq> got then Some (ChecksumMismatch want got) else None)"

section \<open>The difference of two locks\<close>

datatype SelfPkgLockChangeKind = SelfPkgLockAdded | SelfPkgLockRemoved | SelfPkgLockVersion | SelfPkgLockChecksum | SelfPkgLockSource

record SelfPkgLockChange =
  slc_name :: string
  slc_kind :: SelfPkgLockChangeKind
  slc_oldVersion :: SemVersion
  slc_newVersion :: SemVersion
  slc_detail :: string

definition selfPkgLockChange ::
    "string \<Rightarrow> SelfPkgLockChangeKind \<Rightarrow> SemVersion \<Rightarrow> SemVersion \<Rightarrow> string \<Rightarrow> SelfPkgLockChange" where
  "selfPkgLockChange name kind v w detail =
     \<lparr>slc_name = name, slc_kind = kind, slc_oldVersion = v, slc_newVersion = w, slc_detail = detail\<rparr>"

definition selfPkgFirstUnits :: "string \<Rightarrow> nat \<Rightarrow> string" where
  "selfPkgFirstUnits text0 limit = concat (take limit (explode_runes text0))"

definition selfPkgShortChecksum :: "string \<Rightarrow> string" where
  "selfPkgShortChecksum checksum =
     (let text0 = TrimPrefix checksum selfPkgChecksumPrefix
      in if length (explode_runes text0) > 12 then selfPkgChecksumPrefix @ selfPkgFirstUnits text0 12 else checksum)"

definition old_change :: "SelfPkgLockPackage list \<Rightarrow> SelfPkgLockPackage \<Rightarrow> SelfPkgLockChange list" where
  "old_change new p =
     (case selfPkgFindLockedPackage (slp_name p) new of
        None \<Rightarrow> [selfPkgLockChange (slp_name p) SelfPkgLockRemoved (slp_version p) (stableVersion 0 0 0) []]
      | Some q \<Rightarrow>
          if compareSemVersion (slp_version p) (slp_version q) \<noteq> 0
          then [selfPkgLockChange (slp_name p) SelfPkgLockVersion (slp_version p) (slp_version q) []]
          else if slp_checksum p \<noteq> slp_checksum q
          then [selfPkgLockChange (slp_name p) SelfPkgLockChecksum (slp_version p) (slp_version q)
                 (selfPkgShortChecksum (slp_checksum p) @ '' -> '' @ selfPkgShortChecksum (slp_checksum q))]
          else if slp_source p \<noteq> slp_source q
          then [selfPkgLockChange (slp_name p) SelfPkgLockSource (slp_version p) (slp_version q) (slp_source p @ '' -> '' @ slp_source q)]
          else [])"

definition new_change :: "SelfPkgLockPackage list \<Rightarrow> SelfPkgLockPackage \<Rightarrow> SelfPkgLockChange list" where
  "new_change old p =
     (case selfPkgFindLockedPackage (slp_name p) old of Some _ \<Rightarrow> []
      | None \<Rightarrow> [selfPkgLockChange (slp_name p) SelfPkgLockAdded (stableVersion 0 0 0) (slp_version p) []])"

definition selfPkgDiffLocks :: "SelfPkgLockPackage list \<Rightarrow> SelfPkgLockPackage list \<Rightarrow> SelfPkgLockChange list" where
  "selfPkgDiffLocks old new = concat (map (old_change new) old) @ concat (map (new_change old) new)"

section \<open>The order of a graph\<close>

record SelfPkgGraphNode =
  sgn_name :: string
  sgn_source :: string
  sgn_checksum :: string
  sgn_deps :: "string list"

definition selfPkgFindGraphNode :: "string \<Rightarrow> SelfPkgGraphNode list \<Rightarrow> SelfPkgGraphNode option" where
  "selfPkgFindGraphNode name nodes = find (\<lambda>n. sgn_name n = name) nodes"

text \<open>Insertion into a sorted list without duplicates; the flag says that the item has been placed.\<close>

fun insert_string_loop :: "string \<Rightarrow> bool \<Rightarrow> string list \<Rightarrow> string list \<Rightarrow> string list" where
  "insert_string_loop item inserted out [] = (if \<not> inserted \<and> item \<notin> set out then out @ [item] else out)"
| "insert_string_loop item inserted out (e # es) =
     (let now = (\<not> inserted \<and> item < e)
      in insert_string_loop item (inserted \<or> now) (out @ (if now then [item] else []) @ (if e \<noteq> item then [e] else [])) es)"

definition selfPkgInsertStringSorted :: "string list \<Rightarrow> string \<Rightarrow> string list" where
  "selfPkgInsertStringSorted items item = insert_string_loop item False [] items"

primrec foldO :: "('a \<Rightarrow> 's \<Rightarrow> 's option) \<Rightarrow> 'a list \<Rightarrow> 's \<Rightarrow> 's option" where
  "foldO f [] s = Some s"
| "foldO f (x # xs) s = (case f x s of None \<Rightarrow> None | Some t \<Rightarrow> foldO f xs t)"

text \<open>The recursion has no mark for nodes being visited and ends only if the graph has no cycle; the fuel counts nested calls.\<close>

fun selfPkgTopoVisit :: "nat \<Rightarrow> SelfPkgGraphNode list \<Rightarrow> string \<Rightarrow> string list \<Rightarrow> string list option" where
  "selfPkgTopoVisit 0 nodes name out = None"
| "selfPkgTopoVisit (Suc n) nodes name out =
     (if name \<in> set out then Some out
      else (case selfPkgFindGraphNode name nodes of None \<Rightarrow> Some out
            | Some node \<Rightarrow>
                (case foldO (selfPkgTopoVisit n nodes) (foldl selfPkgInsertStringSorted [] (sgn_deps node)) out of None \<Rightarrow> None
                 | Some next \<Rightarrow> Some (if name \<in> set next then next else next @ [name]))))"

definition selfPkgTopoOrder :: "nat \<Rightarrow> SelfPkgGraphNode list \<Rightarrow> string list option" where
  "selfPkgTopoOrder n nodes = foldO (selfPkgTopoVisit n nodes) (foldl selfPkgInsertStringSorted [] (map sgn_name nodes)) []"

section \<open>Imports\<close>

record SelfPkgDepLookupItem =
  sli_name :: string
  sli_gitURL :: string

definition selfPkgNormalizeGitURL :: "string \<Rightarrow> string" where
  "selfPkgNormalizeGitURL url =
     (let t1 = TrimSuffix (TrimSuffix url ''/'') ''.git'';
          t2 = (case split_first ''://'' t1 of None \<Rightarrow> t1 | Some (_, r) \<Rightarrow> r)
      in if HasPrefix t2 ''git@''
         then (let t3 = TrimPrefix t2 ''git@'' in case split_first '':'' t3 of None \<Rightarrow> t3 | Some (host, repo) \<Rightarrow> host @ ''/'' @ repo)
         else t2)"

definition selfPkgFindLookupItemByName :: "SelfPkgDepLookupItem list \<Rightarrow> string \<Rightarrow> string option" where
  "selfPkgFindLookupItemByName items name = map_option sli_name (find (\<lambda>i. sli_name i = name) items)"

definition selfPkgFindLookupItemByGitURL :: "SelfPkgDepLookupItem list \<Rightarrow> string \<Rightarrow> string option" where
  "selfPkgFindLookupItemByGitURL items rawPath =
     map_option sli_name (find (\<lambda>i. sli_gitURL i \<noteq> [] \<and> selfPkgNormalizeGitURL (sli_gitURL i) = selfPkgNormalizeGitURL rawPath) items)"

definition selfPkgPathHasSlash :: "string \<Rightarrow> bool" where
  "selfPkgPathHasSlash path \<longleftrightarrow> length (split_on CHR ''/'' path) > 1"

definition selfPkgLastPathSegment :: "string \<Rightarrow> string" where
  "selfPkgLastPathSegment path = last (path # split_on CHR ''/'' path)"

definition first_some :: "'a option list \<Rightarrow> 'a option" where
  "first_some xs = (case find (\<lambda>x. x \<noteq> None) xs of None \<Rightarrow> None | Some r \<Rightarrow> r)"

definition selfPkgLookupDependency :: "string \<Rightarrow> SelfPkgDepLookupItem list \<Rightarrow> SelfPkgDepLookupItem list \<Rightarrow> string option" where
  "selfPkgLookupDependency rawPath graphNodes manifestDeps =
     (let last = selfPkgLastPathSegment rawPath
      in first_some
           ([selfPkgFindLookupItemByName graphNodes rawPath, selfPkgFindLookupItemByName manifestDeps rawPath] @
            (if selfPkgPathHasSlash rawPath
             then [selfPkgFindLookupItemByGitURL graphNodes rawPath, selfPkgFindLookupItemByGitURL manifestDeps rawPath] else []) @
            (if last \<noteq> rawPath then [selfPkgFindLookupItemByName graphNodes last, selfPkgFindLookupItemByName manifestDeps last] else [])))"

end
