(* ===== verification/Pkg_Source.thy ===== *)
theory Pkg_Source
  imports Golegacy_Core
begin

text \<open>
  The sources of dependencies, \<^verbatim>\<open>src/internal/pkgmgr/source.go\<close>, \<^verbatim>\<open>source_path.go\<close>, \<^verbatim>\<open>source_git.go\<close>,
  \<^verbatim>\<open>source_registry.go\<close>, what they call of \<^verbatim>\<open>golegacy_adapter.go\<close> and \<^verbatim>\<open>hash.go\<close>, and the registry
  client's list of versions (\<^verbatim>\<open>src/internal/registry/client.go\<close>). The file system, \<^verbatim>\<open>git\<close> and the network
  are one value, the world: what each read, command or request answers during a resolution. Paths are Unix paths, and contexts are never cancelled.
\<close>

section \<open>Paths\<close>

text \<open>\<open>filepath.Clean\<close>, \<open>Join\<close>, \<open>Dir\<close> and \<open>IsAbs\<close>; the segments kept so far are in reverse order.\<close>

fun clean_segments :: "bool \<Rightarrow> string list \<Rightarrow> string list \<Rightarrow> string list" where
  "clean_segments rooted out [] = rev out"
| "clean_segments rooted out (s # ss) =
     clean_segments rooted
       (if s = [] \<or> s = ''.'' then out
        else if s = ''..''
        then (if out \<noteq> [] \<and> hd out \<noteq> ''..'' then tl out else if rooted then out else s # out)
        else s # out) ss"

definition IsAbs :: "string \<Rightarrow> bool" where
  "IsAbs p \<longleftrightarrow> HasPrefix p ''/''"

definition Clean :: "string \<Rightarrow> string" where
  "Clean p =
     (let body = join CHR ''/'' (clean_segments (IsAbs p) [] (split_on CHR ''/'' p))
      in if IsAbs p then CHR ''/'' # body else if body = [] then ''.'' else body)"

definition Join :: "string list \<Rightarrow> string" where
  "Join ps = (case dropWhile (\<lambda>p. p = []) ps of [] \<Rightarrow> [] | qs \<Rightarrow> Clean (join CHR ''/'' qs))"

definition Dir :: "string \<Rightarrow> string" where
  "Dir p = Clean (rev (dropWhile (\<lambda>c. c \<noteq> CHR ''/'') (rev p)))"

section \<open>Manifests and the environment\<close>

record GitSource =
  gs_URL :: string
  gs_Tag :: string
  gs_Branch :: string
  gs_Rev :: string

record ManifestDependency =
  md_Name :: string
  md_PackageName :: string
  md_VersionReq :: string
  md_Path :: string
  md_Git :: "GitSource option"
  md_Registry :: string

record Manifest =
  man_path :: string
  man_Version :: string
  man_Dependencies :: "ManifestDependency list"
  man_DevDependencies :: "ManifestDependency list"

record Env =
  CacheDir :: string
  VendorDir :: string
  ProjectRoot :: string
  Registries :: "string \<rightharpoonup> string"
  Offline :: bool

record FetchedPackage =
  fp_LocalDir :: string
  fp_Manifest :: Manifest
  fp_Version :: string
  fp_Checksum :: string

text \<open>A row of the registry's index, and what a request for the index is answered with.\<close>

record RegistryVersion =
  rv_Version :: string
  rv_Checksum :: string
  rv_Yanked :: bool

datatype index_reply = NetworkFailed string | NotModified | BadStatus string | BadIndex string | Index "RegistryVersion list"

text \<open>The world, by path, URL and name. Reading a file that does not exist is \<open>None\<close>; a \<open>Some\<close> error of an action is its failure. The
  directories that an action needs, and the test whether its result is already cached, belong to the action.\<close>

record World =
  w_IsDir :: "string \<Rightarrow> string + bool"
  w_Manifest :: "string \<Rightarrow> string + Manifest"
  w_ReadFile :: "string \<Rightarrow> (string + string) option"
  w_Clone :: "string \<Rightarrow> string \<Rightarrow> string option"
  w_RevParse :: "string \<Rightarrow> string \<Rightarrow> string + string"
  w_Snapshot :: "string \<Rightarrow> string \<Rightarrow> string option"
  w_IndexCache :: "string \<Rightarrow> string \<Rightarrow> string + RegistryVersion list option"
  w_GetIndex :: "string \<Rightarrow> string \<Rightarrow> index_reply"
  w_HashTar :: "string \<Rightarrow> (string + string) option"
  w_Download :: "string \<Rightarrow> string \<Rightarrow> string \<Rightarrow> string + string"
  w_Extract :: "string \<Rightarrow> string option"

datatype pkg_error =
  DepError string string
| PathFailed string string
| NotADirectory string string
| OfflineGit string string
| GitFailed string
| ManifestFailed string string
| RegistryNotConfigured string
| InvalidReq string string semver_error
| OfflineIndex string string
| IndexFailed string string
| NoVersion string string
| OfflineTarball string string
| DownloadFailed string string
| HashFailed string
| ChecksumFailed string checksum_error
| ExtractFailed string string
| NilRoot
| LockUnreadable string
| LockFailed lock_error
| CyclicDependency string
| OtherSource string string string
| OtherPackage string string string string string
| InvalidResolved string string semver_error
| Unsatisfied string string string
| Resolving string pkg_error
| NoCandidates string
| LockVersion string string golegacy_error

section \<open>Sources\<close>

datatype SourceKind = SourcePath | SourceGit | SourceRegistry

datatype Source =
  pathSource string string string
| gitSource string string string string string
| registrySource string string string string

fun source_Kind :: "Source \<Rightarrow> SourceKind" where
  "source_Kind (pathSource name path baseDir) = SourcePath"
| "source_Kind (gitSource name url tag branch rev0) = SourceGit"
| "source_Kind (registrySource name packageName versionReq registryName) = SourceRegistry"

definition GolegacyPathSourceURI :: "string \<Rightarrow> string" where
  "GolegacyPathSourceURI path = selfPkgSourceURI (selfPkgPathDependency [] path)"

definition GolegacyRegistrySourceURI :: "string \<Rightarrow> string" where
  "GolegacyRegistrySourceURI registryName = selfPkgSourceURI (selfPkgRegistryDependencyAs [] [] registryName anySemReq)"

fun URI :: "Source \<Rightarrow> string" where
  "URI (pathSource name path baseDir) = GolegacyPathSourceURI path"
| "URI (gitSource name url tag branch rev0) = selfPkgGitURI url tag branch rev0"
| "URI (registrySource name packageName versionReq registryName) = GolegacyRegistrySourceURI registryName"

definition firstNonEmpty :: "string list \<Rightarrow> string" where
  "firstNonEmpty ss = (case find (\<lambda>s. s \<noteq> []) ss of None \<Rightarrow> [] | Some s \<Rightarrow> s)"

definition newSourceFromDir :: "ManifestDependency \<Rightarrow> string \<Rightarrow> pkg_error + Source" where
  "newSourceFromDir d baseDir =
     (if md_Path d \<noteq> [] then Inr (pathSource (md_Name d) (md_Path d) baseDir)
      else (case md_Git d of
          Some g \<Rightarrow> Inr (gitSource (md_Name d) (gs_URL g) (gs_Tag g) (gs_Branch g) (gs_Rev g))
        | None \<Rightarrow>
            if md_VersionReq d \<noteq> []
            then Inr (registrySource (md_Name d) (firstNonEmpty [md_PackageName d, md_Name d]) (md_VersionReq d) (md_Registry d))
            else Inl (DepError (md_Name d) ''dependency has no source'')))"

definition ManifestFile :: string where
  "ManifestFile = ''osty.toml''"

definition absPath :: "Env \<Rightarrow> string \<Rightarrow> string \<Rightarrow> string" where
  "absPath env path baseDir =
     (if IsAbs path then Clean path else Clean (Join [if baseDir = [] then ProjectRoot env else baseDir, path]))"

definition pathSource_Fetch :: "World \<Rightarrow> Env \<Rightarrow> string \<Rightarrow> string \<Rightarrow> string \<Rightarrow> pkg_error + FetchedPackage" where
  "pathSource_Fetch W env name path baseDir =
     (let abs0 = absPath env path baseDir
      in case w_IsDir W abs0 of
           Inl e \<Rightarrow> Inl (PathFailed name e)
         | Inr isdir \<Rightarrow>
             if \<not> isdir then Inl (NotADirectory name abs0)
             else (case w_Manifest W (Join [abs0, ManifestFile]) of
                 Inl e \<Rightarrow> Inl (ManifestFailed name e)
               | Inr m \<Rightarrow> Inr \<lparr>fp_LocalDir = abs0, fp_Manifest = m, fp_Version = man_Version m, fp_Checksum = []\<rparr>))"

text \<open>The clone, the commit of the requested ref, and the snapshot of that commit.\<close>

definition gitSource_Fetch ::
    "World \<Rightarrow> Env \<Rightarrow> string \<Rightarrow> string \<Rightarrow> string \<Rightarrow> string \<Rightarrow> string \<Rightarrow> pkg_error + FetchedPackage" where
  "gitSource_Fetch W env name url tag branch rev0 =
     (let cacheRoot = Join [CacheDir env, ''git'', selfPkgSanitizeURL url]
      in if Offline env then Inl (OfflineGit name url)
         else (case w_Clone W cacheRoot url of
             Some e \<Rightarrow> Inl (GitFailed e)
           | None \<Rightarrow>
               (case w_RevParse W cacheRoot (selfPkgGitCheckoutRef tag branch rev0) of
                  Inl e \<Rightarrow> Inl (GitFailed e)
                | Inr text0 \<Rightarrow>
                    (let commit = TrimSpace text0;
                         snapshot = Join [CacheDir env, ''git-worktrees'', selfPkgSanitizeURL url, commit]
                     in case w_Snapshot W snapshot commit of
                          Some e \<Rightarrow> Inl (GitFailed e)
                        | None \<Rightarrow>
                            (case w_Manifest W (Join [snapshot, ManifestFile]) of
                               Inl e \<Rightarrow> Inl (ManifestFailed name e)
                             | Inr m \<Rightarrow>
                                 Inr \<lparr>fp_LocalDir = snapshot, fp_Manifest = m,
                                      fp_Version = firstNonEmpty [tag, man_Version m, take 12 commit],
                                      fp_Checksum = selfPkgChecksumPrefix @ commit\<rparr>)))))"

section \<open>Registry versions\<close>

definition filterYanked :: "RegistryVersion list \<Rightarrow> RegistryVersion list" where
  "filterYanked vs = filter (\<lambda>v. \<not> rv_Yanked v) vs"

definition client_Versions :: "World \<Rightarrow> string \<Rightarrow> string \<Rightarrow> string + RegistryVersion list" where
  "client_Versions W regURL name =
     (let cached = (case w_IndexCache W regURL name of Inl _ \<Rightarrow> None | Inr e \<Rightarrow> e)
      in case w_GetIndex W regURL name of
           NetworkFailed e \<Rightarrow> (case cached of Some vs \<Rightarrow> Inr (filterYanked vs) | None \<Rightarrow> Inl e)
         | NotModified \<Rightarrow> (case cached of Some vs \<Rightarrow> Inr (filterYanked vs) | None \<Rightarrow> Inl ''status 304'')
         | BadStatus e \<Rightarrow> Inl e
         | BadIndex e \<Rightarrow> Inl e
         | Index vs \<Rightarrow> Inr (filterYanked vs))"

definition CachedVersions :: "World \<Rightarrow> string \<Rightarrow> string \<Rightarrow> string + RegistryVersion list" where
  "CachedVersions W regURL name =
     (case w_IndexCache W regURL name of
        Inl e \<Rightarrow> Inl e
      | Inr None \<Rightarrow> Inl (''registry index cache missing entry for '' @ name)
      | Inr (Some vs) \<Rightarrow> Inr (filterYanked vs))"

text \<open>\<open>sort.SliceStable\<close>.\<close>

fun insert_stable :: "('a \<Rightarrow> 'a \<Rightarrow> bool) \<Rightarrow> 'a \<Rightarrow> 'a list \<Rightarrow> 'a list" where
  "insert_stable lt x [] = [x]"
| "insert_stable lt x (y # ys) = (if lt y x then y # insert_stable lt x ys else x # y # ys)"

definition SliceStable :: "('a \<Rightarrow> 'a \<Rightarrow> bool) \<Rightarrow> 'a list \<Rightarrow> 'a list" where
  "SliceStable lt xs = foldr (insert_stable lt) xs []"

record GolegacyRegistryCandidate =
  grc_PackageName :: string
  grc_Version :: string
  grc_Checksum :: string
  grc_Yanked :: bool

definition candidate_of :: "GolegacyRegistryCandidate \<Rightarrow> SemVersion \<Rightarrow> SelfPkgCandidate" where
  "candidate_of c v = \<lparr>sc_packageName = grc_PackageName c, sc_version = v, sc_checksum = grc_Checksum c, sc_yanked = grc_Yanked c\<rparr>"

text \<open>The loop that converts every candidate and stops at the first whose version the core cannot hold.\<close>

fun golegacy_candidates :: "GolegacyRegistryCandidate list \<Rightarrow> golegacy_error + (GolegacyRegistryCandidate \<times> SemVersion) list" where
  "golegacy_candidates [] = Inr []"
| "golegacy_candidates (c # cs) =
     (case golegacyVersionFromString (grc_Version c) of Inl e \<Rightarrow> Inl e
      | Inr v \<Rightarrow> (case golegacy_candidates cs of Inl e \<Rightarrow> Inl e | Inr rs \<Rightarrow> Inr ((c, v) # rs)))"

definition GolegacyRankRegistryCandidates ::
    "string \<Rightarrow> string \<Rightarrow> string \<Rightarrow> string \<Rightarrow> GolegacyRegistryCandidate list \<Rightarrow> golegacy_error + GolegacyRegistryCandidate list" where
  "GolegacyRankRegistryCandidates name packageName registryName versionReq cands =
     (case golegacyReqFromString versionReq of Inl e \<Rightarrow> Inl e
      | Inr req \<Rightarrow>
          (let dep = selfPkgRegistryDependencyAs name packageName registryName req
           in case golegacy_candidates cands of Inl e \<Rightarrow> Inl e
              | Inr cvs \<Rightarrow>
                  Inr (map fst (SliceStable (\<lambda>a b. compareSemVersion (snd a) (snd b) > 0)
                         (filter (\<lambda>(c, v). selfPkgCandidateMatches dep (candidate_of c v)) cvs)))))"

record registryCandidate =
  cand_Version :: Version
  cand_Meta :: RegistryVersion

definition golegacy_view :: "string \<Rightarrow> string \<Rightarrow> RegistryVersion \<Rightarrow> GolegacyRegistryCandidate" where
  "golegacy_view packageName version m =
     \<lparr>grc_PackageName = packageName, grc_Version = version, grc_Checksum = rv_Checksum m, grc_Yanked = rv_Yanked m\<rparr>"

text \<open>The inner loop takes the first candidate not yet used; the list holds those.\<close>

fun registryCandidatesInGolegacyOrder :: "registryCandidate list \<Rightarrow> GolegacyRegistryCandidate list \<Rightarrow> registryCandidate list" where
  "registryCandidatesInGolegacyOrder cands [] = []"
| "registryCandidatesInGolegacyOrder cands (r # rs) =
     (case List.extract (\<lambda>c. rv_Version (cand_Meta c) = grc_Version r) cands of
        None \<Rightarrow> registryCandidatesInGolegacyOrder cands rs
      | Some (us, c, vs) \<Rightarrow> c # registryCandidatesInGolegacyOrder (us @ vs) rs)"

definition parsed_candidates :: "RegistryVersion list \<Rightarrow> registryCandidate list" where
  "parsed_candidates vs =
     List.map_filter (\<lambda>v. case ParseVersion (rv_Version v) of Inl _ \<Rightarrow> None | Inr sv \<Rightarrow> Some \<lparr>cand_Version = sv, cand_Meta = v\<rparr>) vs"

text \<open>The parsed versions that match: in the core's order, or in the host's order where the core cannot rank them.\<close>

definition ranked_candidates :: "string \<Rightarrow> string \<Rightarrow> string \<Rightarrow> string \<Rightarrow> Req \<Rightarrow> registryCandidate list \<Rightarrow> registryCandidate list" where
  "ranked_candidates name packageName versionReq registryName req allCandidates =
     (case GolegacyRankRegistryCandidates name packageName registryName versionReq
             (map (\<lambda>c. golegacy_view packageName (rv_Version (cand_Meta c)) (cand_Meta c)) allCandidates) of
        Inr ranked \<Rightarrow> registryCandidatesInGolegacyOrder allCandidates ranked
      | Inl _ \<Rightarrow>
          SliceStable (\<lambda>a b. Compare (cand_Version a) (cand_Version b) > 0)
            (filter (\<lambda>c. Match req (cand_Version c)) allCandidates))"

definition registry_rows :: "World \<Rightarrow> Env \<Rightarrow> string \<Rightarrow> string \<Rightarrow> string \<Rightarrow> pkg_error + RegistryVersion list" where
  "registry_rows W env name regURL packageName =
     (if Offline env then map_sum (OfflineIndex name) (\<lambda>v. v) (CachedVersions W regURL packageName)
      else map_sum (IndexFailed name) (\<lambda>v. v) (client_Versions W regURL packageName))"

definition candidateRegistryVersions ::
    "World \<Rightarrow> Env \<Rightarrow> string \<Rightarrow> string \<Rightarrow> string \<Rightarrow> string \<Rightarrow> pkg_error + registryCandidate list" where
  "candidateRegistryVersions W env name packageName versionReq registryName =
     (case Registries env registryName of
        None \<Rightarrow> Inl (RegistryNotConfigured registryName)
      | Some regURL \<Rightarrow>
          if regURL = [] then Inl (RegistryNotConfigured registryName)
          else (case ParseReq versionReq of
              Inl e \<Rightarrow> Inl (InvalidReq name versionReq e)
            | Inr req \<Rightarrow>
                (case registry_rows W env name regURL packageName of
                   Inl e \<Rightarrow> Inl e
                 | Inr vs \<Rightarrow>
                     (let cands = ranked_candidates name packageName versionReq registryName req (parsed_candidates vs)
                      in if cands = [] then Inl (NoVersion name versionReq) else Inr cands))))"

text \<open>The tarball in the cache, or downloaded, and the checksum of its bytes.\<close>

definition tarball_hash :: "World \<Rightarrow> Env \<Rightarrow> string \<Rightarrow> string \<Rightarrow> string \<Rightarrow> string \<Rightarrow> string \<Rightarrow> pkg_error + string" where
  "tarball_hash W env name regURL packageName best tarPath =
     (case w_HashTar W tarPath of
        Some (Inl e) \<Rightarrow> Inl (HashFailed e)
      | Some (Inr h) \<Rightarrow> Inr h
      | None \<Rightarrow> if Offline env then Inl (OfflineTarball name tarPath)
                else map_sum (DownloadFailed name) (\<lambda>h. h) (w_Download W regURL packageName best))"

definition fetchRegistryCandidate ::
    "World \<Rightarrow> Env \<Rightarrow> string \<Rightarrow> string \<Rightarrow> string \<Rightarrow> registryCandidate \<Rightarrow> pkg_error + FetchedPackage" where
  "fetchRegistryCandidate W env name packageName registryName c =
     (case Registries env registryName of
        None \<Rightarrow> Inl (RegistryNotConfigured registryName)
      | Some regURL \<Rightarrow>
          if regURL = [] then Inl (RegistryNotConfigured registryName)
          else
            (let best = Version_String (cand_Version c);
                 cacheRoot = Join [CacheDir env, ''registry'', selfPkgSanitizeURL regURL, packageName, best];
                 unpackDir = Join [cacheRoot, ''unpacked'']
             in case tarball_hash W env name regURL packageName best (Join [cacheRoot, ''package.tgz'']) of
                  Inl e \<Rightarrow> Inl e
                | Inr got \<Rightarrow>
                    (case selfPkgVerifyChecksum (rv_Checksum (cand_Meta c)) got of
                       Some e \<Rightarrow> Inl (ChecksumFailed name e)
                     | None \<Rightarrow>
                         (case w_Extract W unpackDir of
                            Some e \<Rightarrow> Inl (ExtractFailed name e)
                          | None \<Rightarrow>
                              (case w_Manifest W (Join [unpackDir, ManifestFile]) of
                                 Inl e \<Rightarrow> Inl (ManifestFailed name e)
                               | Inr m \<Rightarrow> Inr \<lparr>fp_LocalDir = unpackDir, fp_Manifest = m, fp_Version = best,
                                               fp_Checksum = rv_Checksum (cand_Meta c)\<rparr>)))))"

end
