(* ===== verification/Pkg_Resolve.thy ===== *)
theory Pkg_Resolve
  imports Pkg_Source
begin

text \<open>
  The dependency resolver, \<^verbatim>\<open>src/internal/pkgmgr/resolve.go\<close>, with the adapter functions it calls
  (\<^verbatim>\<open>golegacy_adapter.go\<close>) and the import lookup over a resolved graph (\<^verbatim>\<open>depprovider.go\<close>). The graph's map from names
  to nodes is the list of its nodes in the order they were added; a node is found by its name. Every node holds its
  source and its fetched package, which the code sets when it adds the node, so its tests for missing ones are left out.
\<close>

section \<open>The lock\<close>

fun golegacy_lock_deps :: "Dependency list \<Rightarrow> pkg_error + SelfPkgLockDependency list" where
  "golegacy_lock_deps [] = Inr []"
| "golegacy_lock_deps (d # ds) =
     (case golegacyVersionFromString (dep_Version d) of Inl e \<Rightarrow> Inl (LockVersion (dep_Name d) (dep_Version d) e)
      | Inr v \<Rightarrow> (case golegacy_lock_deps ds of Inl e \<Rightarrow> Inl e
          | Inr rs \<Rightarrow> Inr (\<lparr>sld_name = dep_Name d, sld_version = v, sld_source = dep_Source d\<rparr> # rs)))"

fun golegacy_lock_list :: "Package list \<Rightarrow> pkg_error + SelfPkgLockPackage list" where
  "golegacy_lock_list [] = Inr []"
| "golegacy_lock_list (p # ps) =
     (case golegacyVersionFromString (pkg_Version p) of Inl e \<Rightarrow> Inl (LockVersion (pkg_Name p) (pkg_Version p) e)
      | Inr v \<Rightarrow> (case golegacy_lock_deps (pkg_Dependencies p) of Inl e \<Rightarrow> Inl e
          | Inr ds \<Rightarrow> (case golegacy_lock_list ps of Inl e \<Rightarrow> Inl e
              | Inr rs \<Rightarrow> Inr (\<lparr>slp_name = pkg_Name p, slp_version = v, slp_source = pkg_Source p,
                                slp_checksum = pkg_Checksum p, slp_dependencies = ds\<rparr> # rs))))"

definition golegacyLockPackages :: "Lock option \<Rightarrow> pkg_error + SelfPkgLockPackage list" where
  "golegacyLockPackages l = (case l of None \<Rightarrow> Inr [] | Some k \<Rightarrow> golegacy_lock_list (Packages k))"

definition GolegacyMarshalLock :: "Lock option \<Rightarrow> pkg_error + string" where
  "GolegacyMarshalLock l = map_sum (\<lambda>e. e) selfPkgMarshalLock (golegacyLockPackages l)"

text \<open>The decision, or \<open>None\<close> where the adapter returns an error.\<close>

definition GolegacySelectRegistryCandidate ::
    "string \<Rightarrow> string \<Rightarrow> string \<Rightarrow> string \<Rightarrow> GolegacyRegistryCandidate list \<Rightarrow> Lock option \<Rightarrow> SelfPkgResolveDecision option" where
  "GolegacySelectRegistryCandidate name packageName registryName versionReq cands locked =
     (case (golegacyReqFromString versionReq, golegacyLockPackages locked, golegacy_candidates cands) of
        (Inr req, Inr lockPkgs, Inr cvs) \<Rightarrow>
          Some (selfPkgSelectRegistryCandidate (selfPkgRegistryDependencyAs name packageName registryName req)
                  (map (\<lambda>(c, v). candidate_of c v) cvs) lockPkgs)
      | _ \<Rightarrow> None)"

section \<open>Choosing among candidates\<close>

definition prioritizeRegistryCandidate :: "registryCandidate list \<Rightarrow> Version \<Rightarrow> registryCandidate list" where
  "prioritizeRegistryCandidate cands pinned =
     (case List.extract (\<lambda>c. Equal (cand_Version c) pinned) cands of
        None \<Rightarrow> cands | Some (us, c, vs) \<Rightarrow> c # us @ vs)"

definition golegacyLockedRegistryVersion ::
    "Lock option \<Rightarrow> string \<Rightarrow> string \<Rightarrow> string \<Rightarrow> string \<Rightarrow> registryCandidate list \<Rightarrow> Version option" where
  "golegacyLockedRegistryVersion lock name packageName registryName versionReq cands =
     (case lock of None \<Rightarrow> None
      | Some _ \<Rightarrow>
          (case GolegacySelectRegistryCandidate name packageName registryName versionReq
                  (map (\<lambda>c. golegacy_view packageName (Version_String (cand_Version c)) (cand_Meta c)) cands) lock of
             None \<Rightarrow> None
           | Some decision \<Rightarrow>
               if \<not> srd_found decision \<or> \<not> srd_fromLock decision then None
               else (case ParseVersion (semVersionText (srd_version decision)) of Inl _ \<Rightarrow> None | Inr v \<Rightarrow> Some v)))"

fun first_locked :: "string \<Rightarrow> Req \<Rightarrow> Package list \<Rightarrow> Version option" where
  "first_locked uri req [] = None"
| "first_locked uri req (p # ps) =
     (if pkg_Source p \<noteq> [] \<and> pkg_Source p \<noteq> uri then first_locked uri req ps
      else (case ParseVersion (pkg_Version p) of Inl _ \<Rightarrow> first_locked uri req ps
            | Inr pv \<Rightarrow> if Match req pv then Some pv else first_locked uri req ps))"

definition lockedRegistryVersion :: "Lock option \<Rightarrow> string \<Rightarrow> string \<Rightarrow> string \<Rightarrow> Version option" where
  "lockedRegistryVersion lock name registryName versionReq =
     (case lock of None \<Rightarrow> None
      | Some l \<Rightarrow>
          (case ParseReq versionReq of Inl _ \<Rightarrow> None
           | Inr req \<Rightarrow> first_locked (GolegacyRegistrySourceURI registryName) req (FindByName l name)))"

definition prioritizeLockedRegistryCandidate ::
    "Lock option \<Rightarrow> string \<Rightarrow> string \<Rightarrow> string \<Rightarrow> string \<Rightarrow> registryCandidate list \<Rightarrow> registryCandidate list" where
  "prioritizeLockedRegistryCandidate lock name packageName registryName versionReq cands =
     (case golegacyLockedRegistryVersion lock name packageName registryName versionReq cands of
        Some pinned \<Rightarrow> prioritizeRegistryCandidate cands pinned
      | None \<Rightarrow>
          (case lockedRegistryVersion lock name registryName versionReq of
             None \<Rightarrow> cands | Some pinned \<Rightarrow> prioritizeRegistryCandidate cands pinned))"

text \<open>A candidate is its source with the answer of its fetch.\<close>

type_synonym resolveCandidate = "Source \<times> (pkg_error + FetchedPackage)"

fun resolveCandidates :: "World \<Rightarrow> Env \<Rightarrow> Lock option \<Rightarrow> Source \<Rightarrow> string \<Rightarrow> pkg_error + resolveCandidate list" where
  "resolveCandidates W env lock (pathSource name path baseDir) depName =
     Inr [(pathSource name path baseDir, pathSource_Fetch W env name path baseDir)]"
| "resolveCandidates W env lock (gitSource name url tag branch rev0) depName =
     Inr [(gitSource name url tag branch rev0, gitSource_Fetch W env name url tag branch rev0)]"
| "resolveCandidates W env lock (registrySource name packageName versionReq registryName) depName =
     (case candidateRegistryVersions W env name packageName versionReq registryName of
        Inl e \<Rightarrow> Inl e
      | Inr cands \<Rightarrow>
          Inr (map (\<lambda>c. (registrySource name packageName (CHR ''='' # Version_String (cand_Version c)) registryName,
                         fetchRegistryCandidate W env name packageName registryName c))
                 (prioritizeLockedRegistryCandidate lock depName packageName registryName versionReq cands)))"

section \<open>The graph\<close>

record ResolvedNode =
  rn_Name :: string
  rn_Source :: Source
  rn_Fetched :: FetchedPackage
  rn_Deps :: "string list"

record Graph =
  gr_Root :: Manifest
  gr_Nodes :: "ResolvedNode list"
  gr_Order :: "string list"

record resolveRequest =
  rq_dep :: ManifestDependency
  rq_baseDir :: string
  rq_parent :: string
  rq_ancestors :: "string list"

definition node_of :: "Graph \<Rightarrow> string \<Rightarrow> ResolvedNode option" where
  "node_of g name = find (\<lambda>n. rn_Name n = name) (gr_Nodes g)"

definition add_dep :: "string \<Rightarrow> ResolvedNode \<Rightarrow> ResolvedNode" where
  "add_dep child n = (if child \<in> set (rn_Deps n) then n else n\<lparr>rn_Deps := rn_Deps n @ [child]\<rparr>)"

definition addDepEdge :: "Graph \<Rightarrow> string \<Rightarrow> string \<Rightarrow> Graph" where
  "addDepEdge g parent child =
     (if parent = [] \<or> child = [] then g
      else g\<lparr>gr_Nodes := map (\<lambda>n. if rn_Name n = parent then add_dep child n else n) (gr_Nodes g)\<rparr>)"

definition manifestBaseDir :: "Manifest \<Rightarrow> string \<Rightarrow> string" where
  "manifestBaseDir m fallback = (if man_path m \<noteq> [] then Dir (man_path m) else fallback)"

definition childRequests :: "resolveRequest \<Rightarrow> string \<Rightarrow> FetchedPackage \<Rightarrow> resolveRequest list" where
  "childRequests parent parentName fetched =
     map (\<lambda>sub. \<lparr>rq_dep = sub, rq_baseDir = manifestBaseDir (fp_Manifest fetched) (fp_LocalDir fetched), rq_parent = parentName,
                 rq_ancestors = parentName # rq_ancestors parent\<rparr>)
       (man_Dependencies (fp_Manifest fetched))"

text \<open>The error, if the node cannot serve the dependency.\<close>

definition ensureCompatible :: "Env \<Rightarrow> ResolvedNode \<Rightarrow> Source \<Rightarrow> string \<Rightarrow> pkg_error option" where
  "ensureCompatible env existing candidate name =
     (if source_Kind (rn_Source existing) \<noteq> source_Kind candidate
      then Some (OtherSource name (URI (rn_Source existing)) (URI candidate))
      else (case (rn_Source existing, candidate) of
          (registrySource exName exPackage exReq exRegistry, registrySource cName cPackage cReq cRegistry) \<Rightarrow>
            if exRegistry \<noteq> cRegistry \<or> exPackage \<noteq> cPackage
            then Some (OtherPackage name (URI (rn_Source existing)) exPackage (URI candidate) cPackage)
            else (case ParseReq cReq of
                Inl e \<Rightarrow> Some (InvalidReq name cReq e)
              | Inr req \<Rightarrow>
                  (case ParseVersion (fp_Version (rn_Fetched existing)) of
                     Inl e \<Rightarrow> Some (InvalidResolved name (fp_Version (rn_Fetched existing)) e)
                   | Inr picked \<Rightarrow>
                       if \<not> Match req picked then Some (Unsatisfied name (fp_Version (rn_Fetched existing)) cReq) else None))
        | (pathSource exName exPath exBase, pathSource cName cPath cBase) \<Rightarrow>
            if absPath env exPath exBase = absPath env cPath cBase then None
            else Some (OtherSource name (absPath env exPath exBase) (absPath env cPath cBase))
        | _ \<Rightarrow> if URI (rn_Source existing) \<noteq> URI candidate
               then Some (OtherSource name (URI (rn_Source existing)) (URI candidate)) else None))"

section \<open>Resolution\<close>

text \<open>The loop over the candidates keeps the first error; \<open>attempt\<close> fetches and solves, and is \<open>None\<close> without fuel.\<close>

fun try_candidates :: "('c \<Rightarrow> (pkg_error + 'g) option) \<Rightarrow> pkg_error \<Rightarrow> pkg_error option \<Rightarrow> 'c list \<Rightarrow> (pkg_error + 'g) option" where
  "try_candidates attempt none firstErr [] = Some (Inl (case firstErr of Some e \<Rightarrow> e | None \<Rightarrow> none))"
| "try_candidates attempt none firstErr (c # cs) =
     (case attempt c of None \<Rightarrow> None
      | Some (Inr g) \<Rightarrow> Some (Inr g)
      | Some (Inl e) \<Rightarrow> try_candidates attempt none (case firstErr of None \<Rightarrow> Some e | Some _ \<Rightarrow> firstErr) cs)"

definition add_node :: "Graph \<Rightarrow> resolveRequest \<Rightarrow> Source \<Rightarrow> FetchedPackage \<Rightarrow> Graph" where
  "add_node g req src fetched =
     (let name = md_Name (rq_dep req)
      in addDepEdge (g\<lparr>gr_Nodes := gr_Nodes g @ [\<lparr>rn_Name = name, rn_Source = src, rn_Fetched = fetched, rn_Deps = []\<rparr>]\<rparr>) (rq_parent req) name)"

primrec solve :: "nat \<Rightarrow> World \<Rightarrow> Env \<Rightarrow> Lock option \<Rightarrow> Graph \<Rightarrow> resolveRequest list \<Rightarrow> (pkg_error + Graph) option" where
  "solve 0 W env lock g pending = None"
| "solve (Suc n) W env lock g pending =
     (case pending of
        [] \<Rightarrow> Some (Inr g)
      | req # rest \<Rightarrow>
          (let name = md_Name (rq_dep req)
           in if name \<in> set (rq_ancestors req) then Some (Inl (CyclicDependency name))
              else (case newSourceFromDir (rq_dep req) (rq_baseDir req) of
                  Inl e \<Rightarrow> Some (Inl e)
                | Inr src \<Rightarrow>
                    (case node_of g name of
                       Some existing \<Rightarrow>
                         (case ensureCompatible env existing src name of
                            Some e \<Rightarrow> Some (Inl e)
                          | None \<Rightarrow> solve n W env lock (addDepEdge g (rq_parent req) name) rest)
                     | None \<Rightarrow>
                         (case resolveCandidates W env lock src name of
                            Inl e \<Rightarrow> Some (Inl e)
                          | Inr cands \<Rightarrow>
                              try_candidates
                                (\<lambda>(csrc, answer). case answer of
                                    Inl e \<Rightarrow> Some (Inl (Resolving name e))
                                  | Inr fetched \<Rightarrow>
                                      solve n W env lock (add_node g req csrc fetched) (childRequests req name fetched @ rest))
                                (NoCandidates name) None cands)))))"

definition golegacyGraphNodes :: "Graph \<Rightarrow> SelfPkgGraphNode list" where
  "golegacyGraphNodes g =
     map (\<lambda>n. \<lparr>sgn_name = rn_Name n, sgn_source = URI (rn_Source n), sgn_checksum = fp_Checksum (rn_Fetched n), sgn_deps = rn_Deps n\<rparr>)
       (gr_Nodes g)"

text \<open>The fuel of the order is one more than the nodes.\<close>

definition GolegacyTopoOrder :: "Graph \<Rightarrow> string list option" where
  "GolegacyTopoOrder g =
     (if golegacyGraphNodes g = [] then Some []
      else selfPkgTopoOrder (Suc (length (gr_Nodes g))) (golegacyGraphNodes g))"

definition Lock_Read :: "World \<Rightarrow> string \<Rightarrow> pkg_error + Lock option" where
  "Lock_Read W dir =
     (case w_ReadFile W (Join [dir, ''osty.lock'']) of
        None \<Rightarrow> Inr None
      | Some (Inl e) \<Rightarrow> Inl (LockUnreadable e)
      | Some (Inr src) \<Rightarrow> (case Lock_Parse src of Inl e \<Rightarrow> Inl (LockFailed e) | Inr l \<Rightarrow> Inr (Some l)))"

definition root_requests :: "Manifest \<Rightarrow> string \<Rightarrow> resolveRequest list" where
  "root_requests root dir =
     map (\<lambda>d. \<lparr>rq_dep = d, rq_baseDir = dir, rq_parent = [], rq_ancestors = []\<rparr>) (man_Dependencies root @ man_DevDependencies root)"

definition empty_graph :: "Manifest \<Rightarrow> Graph" where
  "empty_graph root = \<lparr>gr_Root = root, gr_Nodes = [], gr_Order = []\<rparr>"

definition Resolve :: "nat \<Rightarrow> World \<Rightarrow> Manifest option \<Rightarrow> Env \<Rightarrow> (pkg_error + Graph) option" where
  "Resolve n W root0 env =
     (case root0 of None \<Rightarrow> Some (Inl NilRoot)
      | Some root \<Rightarrow>
          (case Lock_Read W (ProjectRoot env) of
             Inl e \<Rightarrow> Some (Inl e)
           | Inr existing \<Rightarrow>
               (case solve n W env existing (empty_graph root) (root_requests root (manifestBaseDir root (ProjectRoot env))) of
                  None \<Rightarrow> None
                | Some (Inl e) \<Rightarrow> Some (Inl e)
                | Some (Inr g) \<Rightarrow> map_option (\<lambda>order. Inr (g\<lparr>gr_Order := order\<rparr>)) (GolegacyTopoOrder g))))"

section \<open>Locks of graphs, and their differences\<close>

definition golegacyLockfilePackage :: "SelfPkgLockPackage \<Rightarrow> Package" where
  "golegacyLockfilePackage p =
     \<lparr>pkg_Name = slp_name p, pkg_Version = semVersionText (slp_version p), pkg_Source = slp_source p, pkg_Checksum = slp_checksum p,
      pkg_Dependencies = map (\<lambda>d. \<lparr>dep_Name = sld_name d, dep_Version = semVersionText (sld_version d), dep_Source = sld_source d\<rparr>)
        (slp_dependencies p)\<rparr>"

fun graph_lock_deps :: "Graph \<Rightarrow> string list \<Rightarrow> pkg_error + SelfPkgLockDependency list" where
  "graph_lock_deps g [] = Inr []"
| "graph_lock_deps g (name # names) =
     (case node_of g name of None \<Rightarrow> graph_lock_deps g names
      | Some child \<Rightarrow>
          (case golegacyVersionFromString (fp_Version (rn_Fetched child)) of
             Inl e \<Rightarrow> Inl (LockVersion name (fp_Version (rn_Fetched child)) e)
           | Inr dv \<Rightarrow> (case graph_lock_deps g names of Inl e \<Rightarrow> Inl e
               | Inr rs \<Rightarrow> Inr (\<lparr>sld_name = name, sld_version = dv, sld_source = []\<rparr> # rs))))"

definition golegacyGraphLockPackage :: "Graph \<Rightarrow> ResolvedNode \<Rightarrow> pkg_error + Package" where
  "golegacyGraphLockPackage g n =
     (case golegacyVersionFromString (fp_Version (rn_Fetched n)) of
        Inl e \<Rightarrow> Inl (LockVersion (rn_Name n) (fp_Version (rn_Fetched n)) e)
      | Inr v \<Rightarrow> (case graph_lock_deps g (rn_Deps n) of Inl e \<Rightarrow> Inl e
          | Inr deps \<Rightarrow> Inr (golegacyLockfilePackage
              \<lparr>slp_name = rn_Name n, slp_version = v, slp_source = URI (rn_Source n), slp_checksum = fp_Checksum (rn_Fetched n),
               slp_dependencies = deps\<rparr>)))"

fun lock_packages :: "Graph \<Rightarrow> string list \<Rightarrow> pkg_error + Package list" where
  "lock_packages g [] = Inr []"
| "lock_packages g (name # names) =
     (case node_of g name of None \<Rightarrow> lock_packages g names
      | Some n \<Rightarrow> (case golegacyGraphLockPackage g n of Inl e \<Rightarrow> Inl e
          | Inr p \<Rightarrow> (case lock_packages g names of Inl e \<Rightarrow> Inl e | Inr ps \<Rightarrow> Inr (p # ps))))"

definition LockFromGraph :: "Graph \<Rightarrow> (pkg_error + Lock) option" where
  "LockFromGraph g =
     map_option (\<lambda>order. map_sum (\<lambda>e. e) (\<lambda>ps. \<lparr>lock_Version = SchemaVersion, Packages = ps\<rparr>) (lock_packages g order))
       (GolegacyTopoOrder g)"

record LockfileChange =
  lc_Name :: string
  lc_Kind :: string
  lc_OldVersion :: string
  lc_NewVersion :: string
  lc_Detail :: string

definition golegacyLockChange :: "SelfPkgLockChange \<Rightarrow> LockfileChange" where
  "golegacyLockChange c =
     (let old = semVersionText (slc_oldVersion c); new = semVersionText (slc_newVersion c);
          change = (\<lambda>kind ov nv. \<lparr>lc_Name = slc_name c, lc_Kind = kind, lc_OldVersion = ov, lc_NewVersion = nv, lc_Detail = slc_detail c\<rparr>)
      in case slc_kind c of
           SelfPkgLockAdded \<Rightarrow> change ''added'' [] new
         | SelfPkgLockRemoved \<Rightarrow> change ''removed'' old []
         | SelfPkgLockVersion \<Rightarrow> change ''version'' old new
         | SelfPkgLockChecksum \<Rightarrow> change ''checksum'' [] new
         | SelfPkgLockSource \<Rightarrow> change ''source'' [] [])"

definition DiffLock :: "Lock option \<Rightarrow> Lock option \<Rightarrow> pkg_error + LockfileChange list" where
  "DiffLock old new =
     (case golegacyLockPackages old of Inl e \<Rightarrow> Inl e
      | Inr oldPkgs \<Rightarrow> (case golegacyLockPackages new of Inl e \<Rightarrow> Inl e
          | Inr newPkgs \<Rightarrow>
              Inr (SliceStable (\<lambda>a b. lc_Name a < lc_Name b)
                (map golegacyLockChange (selfPkgDiffLocks (selfPkgSortLockPackages oldPkgs) (selfPkgSortLockPackages newPkgs))))))"

definition LockfileChange_String :: "LockfileChange \<Rightarrow> string" where
  "LockfileChange_String c =
     (if lc_Kind c = ''added'' then ''+ '' @ lc_Name c @ '' '' @ lc_NewVersion c
      else if lc_Kind c = ''removed'' then ''- '' @ lc_Name c @ '' '' @ lc_OldVersion c
      else if lc_Kind c = ''version'' then ''~ '' @ lc_Name c @ '' '' @ lc_OldVersion c @ '' -> '' @ lc_NewVersion c
      else if lc_Kind c = ''checksum'' then ''~ '' @ lc_Name c @ '' '' @ lc_NewVersion c @ '' checksum changed ('' @ lc_Detail c @ '')''
      else if lc_Kind c = ''source'' then ''~ '' @ lc_Name c @ '' source changed ('' @ lc_Detail c @ '')''
      else ''? '' @ lc_Name c)"

section \<open>Imports\<close>

definition graphLookupItems :: "Graph \<Rightarrow> SelfPkgDepLookupItem list" where
  "graphLookupItems g =
     List.map_filter (\<lambda>name. map_option (\<lambda>n. \<lparr>sli_name = name, sli_gitURL = (case rn_Source n of gitSource _ url _ _ _ \<Rightarrow> url | _ \<Rightarrow> [])\<rparr>)
         (node_of g name))
       (if gr_Order g \<noteq> [] then gr_Order g else sort (map rn_Name (gr_Nodes g)))"

definition manifestLookupItems :: "Manifest \<Rightarrow> SelfPkgDepLookupItem list" where
  "manifestLookupItems m =
     map (\<lambda>d. \<lparr>sli_name = md_Name d, sli_gitURL = (case md_Git d of None \<Rightarrow> [] | Some s \<Rightarrow> gs_URL s)\<rparr>)
       (man_Dependencies m @ man_DevDependencies m)"

definition LookupDep :: "Manifest \<Rightarrow> Graph \<Rightarrow> Env \<Rightarrow> string \<Rightarrow> string option" where
  "LookupDep m g env rawPath =
     map_option (\<lambda>name. Join [VendorDir env, name]) (selfPkgLookupDependency rawPath (graphLookupItems g) (manifestLookupItems m))"

end
