(* ===== verification/Pkg_Topo.thy ===== *)
theory Pkg_Topo
  imports Golegacy_Core "HOL-Library.Multiset"
begin

text \<open>
  The order of a graph (\<^verbatim>\<open>selfPkgTopoOrder\<close> in \<^verbatim>\<open>golegacy_generated.go\<close>): when the dependencies of every node stand
  before it in some list of the nodes, the walk ends, and its result holds every node once, after its dependencies. The result
  does not depend on the order in which the nodes are listed.
\<close>

section \<open>Sorted insertion\<close>

lemma insert_string_loop_eq:
  "insert_string_loop item inserted out items =
     out @ (if inserted then filter (\<lambda>e. e \<noteq> item) items
            else filter (\<lambda>e. e \<noteq> item) (takeWhile (\<lambda>e. \<not> item < e) items) @
                 (if item \<in> set out \<and> dropWhile (\<lambda>e. \<not> item < e) items = [] then [] else [item]) @
                 filter (\<lambda>e. e \<noteq> item) (dropWhile (\<lambda>e. \<not> item < e) items))"
  by (induction items arbitrary: inserted out) (auto simp: Let_def)

lemma insert_sorted:
  assumes "sorted xs" "distinct xs"
  shows "sorted (selfPkgInsertStringSorted xs x)" "distinct (selfPkgInsertStringSorted xs x)"
    "set (selfPkgInsertStringSorted xs x) = insert x (set xs)"
proof -
  let ?T = "takeWhile (\<lambda>e. \<not> x < e) xs" and ?D = "dropWhile (\<lambda>e. \<not> x < e) xs"
  have xs: "xs = ?T @ ?D" by simp
  have e: "selfPkgInsertStringSorted xs x = filter (\<lambda>e. e \<noteq> x) ?T @ [x] @ filter (\<lambda>e. e \<noteq> x) ?D"
    by (simp add: selfPkgInsertStringSorted_def insert_string_loop_eq)
  have t: "y \<le> x" if "y \<in> set ?T" for y using set_takeWhileD [OF that] by (simp only: not_less)
  have d: "x \<le> y" if y: "y \<in> set ?D" for y
  proof -
    obtain z zs where D: "?D = z # zs" using y by (meson list.set_cases)
    then have "x < z" using hd_dropWhile [of "\<lambda>e. \<not> x < e" xs] by auto
    moreover have "z \<le> y" using y assms(1) D by (metis xs sorted_append sorted_simps(2) set_ConsD order_refl)
    ultimately show ?thesis by simp
  qed
  have td: "y \<le> z" if "y \<in> set ?T" "z \<in> set ?D" for y z using t [OF that(1)] d [OF that(2)] by simp
  have s: "sorted ?T" "sorted ?D" "distinct ?T" "distinct ?D" "set ?T \<inter> set ?D = {}"
    using assms xs by (metis sorted_append, metis sorted_append, metis distinct_append, metis distinct_append, metis distinct_append)
  show "sorted (selfPkgInsertStringSorted xs x)" unfolding e
    using s(1,2) t d td by (auto simp: sorted_append sorted_wrt_filter)
  show "distinct (selfPkgInsertStringSorted xs x)" unfolding e using s(3-5) by auto
  have "set xs = set ?T \<union> set ?D" using xs by (metis set_append)
  then show "set (selfPkgInsertStringSorted xs x) = insert x (set xs)" unfolding e by auto
qed

lemma sort_by_insertion: "foldl selfPkgInsertStringSorted [] xs = sorted_list_of_set (set xs)"
proof -
  have "sorted (foldl selfPkgInsertStringSorted acc xs) \<and> distinct (foldl selfPkgInsertStringSorted acc xs) \<and>
      set (foldl selfPkgInsertStringSorted acc xs) = set acc \<union> set xs" if "sorted acc" "distinct acc" for acc
    using that by (induction xs arbitrary: acc) (auto simp: insert_sorted)
  from this [of "[]"] show ?thesis by (metis List.finite_set Un_empty_left distinct.simps(1) list.set(1) sorted_list_of_set.idem_if_sorted_distinct sorted_simps(1))
qed

section \<open>The walk\<close>

definition edges_of :: "SelfPkgGraphNode list \<Rightarrow> string \<Rightarrow> string set" where
  "edges_of nodes name = (case selfPkgFindGraphNode name nodes of None \<Rightarrow> {} | Some n \<Rightarrow> set (sgn_deps n))"

definition precedes :: "'a list \<Rightarrow> 'a \<Rightarrow> 'a \<Rightarrow> bool" where
  "precedes xs d u \<longleftrightarrow> (\<exists>a b. xs = a @ u # b \<and> d \<in> set a)"

text \<open>A list in which every name stands once, after the nodes it depends on.\<close>

definition leaves_first :: "SelfPkgGraphNode list \<Rightarrow> string list \<Rightarrow> bool" where
  "leaves_first nodes out \<longleftrightarrow> distinct out \<and> set out \<subseteq> set (map sgn_name nodes) \<and>
     (\<forall>u \<in> set out. \<forall>d \<in> edges_of nodes u. d \<in> set (map sgn_name nodes) \<longrightarrow> precedes out d u)"

lemma precedesI: "d \<in> set a \<Longrightarrow> precedes (a @ u # b) d u"
  by (auto simp: precedes_def)

lemma precedes_insert:
  assumes "precedes (a @ b) d u"
  shows "precedes (a @ x # b) d u"
proof -
  obtain p q where pq: "a @ b = p @ u # q" "d \<in> set p" using assms by (auto simp: precedes_def)
  from pq(1) consider us where "a @ us = p" "b = us @ u # q" | us where "a = p @ u # us" | "a = p" "b = u # q"
    by (auto simp: append_eq_append_conv2 append_eq_Cons_conv)
  then show ?thesis
  proof cases
    case 1 then show ?thesis using precedesI [of d "a @ x # us" u q] pq(2) by auto
  next
    case 2 then show ?thesis using precedesI [of d p u "us @ x # b"] pq(2) by simp
  next
    case 3 then show ?thesis using precedesI [of d "p @ [x]" u q] pq(2) by simp
  qed
qed

lemma precedes_append: "precedes xs d u \<Longrightarrow> precedes (xs @ ys) d u"
  by (force simp: precedes_def)

lemma precedes_last: "d \<in> set xs \<Longrightarrow> precedes (xs @ [u]) d u"
  by (auto simp: precedes_def)

lemma leaves_first_snoc:
  assumes "leaves_first nodes out" "u \<notin> set out" "u \<in> set (map sgn_name nodes)"
    and "\<And>d. d \<in> edges_of nodes u \<Longrightarrow> d \<in> set (map sgn_name nodes) \<Longrightarrow> d \<in> set out"
  shows "leaves_first nodes (out @ [u])"
  using assms by (auto simp: leaves_first_def intro: precedes_append precedes_last)

lemma find_node_iff: "selfPkgFindGraphNode name nodes = None \<longleftrightarrow> name \<notin> set (map sgn_name nodes)"
  by (auto simp: selfPkgFindGraphNode_def find_None_iff)

text \<open>What a visit promises, and that a sequence of visits keeps it.\<close>

definition visits :: "SelfPkgGraphNode list \<Rightarrow> (string list \<Rightarrow> string list option) \<Rightarrow> string set \<Rightarrow> bool" where
  "visits nodes f names \<longleftrightarrow> (\<forall>out. leaves_first nodes out \<longrightarrow>
     (\<exists>out'. f out = Some out' \<and> leaves_first nodes out' \<and> set out \<subseteq> set out' \<and> names \<inter> set (map sgn_name nodes) \<subseteq> set out'))"

lemma visits_fold:
  assumes "\<And>x. x \<in> set xs \<Longrightarrow> visits nodes (f x) {x}"
  shows "visits nodes (foldO f xs) (set xs)"
  using assms
proof (induction xs)
  case (Cons x xs)
  show ?case unfolding visits_def
  proof (intro allI impI)
    fix out assume "leaves_first nodes out"
    then obtain m where m: "f x out = Some m" "leaves_first nodes m" "set out \<subseteq> set m" "{x} \<inter> set (map sgn_name nodes) \<subseteq> set m"
      using Cons.prems [of x] unfolding visits_def by auto
    then obtain out' where "foldO f xs m = Some out'" "leaves_first nodes out'" "set m \<subseteq> set out'" "set xs \<inter> set (map sgn_name nodes) \<subseteq> set out'"
      using Cons unfolding visits_def by auto
    then show "\<exists>out'. foldO f (x # xs) out = Some out' \<and> leaves_first nodes out' \<and> set out \<subseteq> set out' \<and>
        set (x # xs) \<inter> set (map sgn_name nodes) \<subseteq> set out'"
      using m by auto
  qed
qed (simp add: visits_def)

definition rank_in :: "string list \<Rightarrow> string \<Rightarrow> nat" where
  "rank_in ord name = length (takeWhile (\<lambda>x. x \<noteq> name) ord)"

lemma rank_in_less: "precedes ord d u \<Longrightarrow> distinct ord \<Longrightarrow> rank_in ord d < rank_in ord u"
proof -
  assume p: "precedes ord d u" and dis: "distinct ord"
  then obtain a b c where ord: "ord = (a @ d # c) @ u # b" by (metis precedes_def split_list)
  have "rank_in ord u = length (a @ d # c)" unfolding rank_in_def ord
    using dis ord by (subst takeWhile_append2) auto
  moreover have "rank_in ord d = length a" unfolding rank_in_def ord
    using dis ord by (simp, subst takeWhile_append2) auto
  ultimately show ?thesis by simp
qed

definition acyclic_by :: "SelfPkgGraphNode list \<Rightarrow> string list \<Rightarrow> bool" where
  "acyclic_by nodes ord \<longleftrightarrow> distinct ord \<and> set ord = set (map sgn_name nodes) \<and>
     (\<forall>u. \<forall>d \<in> edges_of nodes u. d \<in> set (map sgn_name nodes) \<longrightarrow> precedes ord d u)"

lemma visit_ok:
  assumes "acyclic_by nodes ord"
  shows "(if name \<in> set (map sgn_name nodes) then Suc (rank_in ord name) else 0) < n \<Longrightarrow> visits nodes (selfPkgTopoVisit n nodes name) {name}"
proof (induction n arbitrary: name)
  case (Suc n)
  show ?case
  proof (cases "selfPkgFindGraphNode name nodes")
    case None
    then have "name \<notin> set (map sgn_name nodes)" by (simp only: find_node_iff not_False_eq_True)
    then show ?thesis using None by (auto simp: visits_def)
  next
    case (Some node)
    have mem: "name \<in> set (map sgn_name nodes)" using Some find_node_iff [of name nodes] by (metis option.distinct(1))
    have E: "edges_of nodes name = set (sgn_deps node)" using Some by (simp add: edges_of_def)
    have "visits nodes (selfPkgTopoVisit n nodes d) {d}" if "d \<in> set (sgn_deps node)" for d
      using that Suc.prems mem assms rank_in_less [of ord d name] E by (intro Suc.IH) (auto simp: acyclic_by_def)
    then have F: "visits nodes (foldO (selfPkgTopoVisit n nodes) (foldl selfPkgInsertStringSorted [] (sgn_deps node))) (set (sgn_deps node))"
      using visits_fold [of "foldl selfPkgInsertStringSorted [] (sgn_deps node)" nodes "selfPkgTopoVisit n nodes"] by (simp add: sort_by_insertion)
    show ?thesis unfolding visits_def
    proof (intro allI impI)
      fix out assume out: "leaves_first nodes out"
      then obtain m where m: "foldO (selfPkgTopoVisit n nodes) (foldl selfPkgInsertStringSorted [] (sgn_deps node)) out = Some m"
          "leaves_first nodes m" "set out \<subseteq> set m" "set (sgn_deps node) \<inter> set (map sgn_name nodes) \<subseteq> set m"
        using F unfolding visits_def by auto
      have "name \<notin> set m \<Longrightarrow> leaves_first nodes (m @ [name])"
        using m(2,4) mem E by (intro leaves_first_snoc) auto
      then show "\<exists>out'. selfPkgTopoVisit (Suc n) nodes name out = Some out' \<and> leaves_first nodes out' \<and> set out \<subseteq> set out' \<and>
          {name} \<inter> set (map sgn_name nodes) \<subseteq> set out'"
        using Some m out by auto
    qed
  qed
qed simp

lemma topo_order:
  assumes "acyclic_by nodes ord" "length ord < n"
  shows "\<exists>order. selfPkgTopoOrder n nodes = Some order \<and> leaves_first nodes order \<and> set order = set (map sgn_name nodes)"
proof -
  have "rank_in ord name < length ord" if n: "name \<in> set ord" for name
  proof -
    obtain a b where "ord = a @ name # b" "name \<notin> set a" using split_list_first [OF n] by blast
    then show ?thesis unfolding rank_in_def by (simp, subst takeWhile_append2) auto
  qed
  then have "visits nodes (selfPkgTopoVisit n nodes name) {name}" if "name \<in> set (map sgn_name nodes)" for name
    using that assms by (intro visit_ok) (fastforce simp: acyclic_by_def)+
  then have "visits nodes (foldO (selfPkgTopoVisit n nodes) (foldl selfPkgInsertStringSorted [] (map sgn_name nodes))) (set (map sgn_name nodes))"
    using visits_fold [of "foldl selfPkgInsertStringSorted [] (map sgn_name nodes)" nodes "selfPkgTopoVisit n nodes"]
    by (simp add: sort_by_insertion)
  moreover have "leaves_first nodes []" by (simp add: leaves_first_def)
  ultimately obtain out where "selfPkgTopoOrder n nodes = Some out" "leaves_first nodes out" "set (map sgn_name nodes) \<subseteq> set out"
    unfolding visits_def selfPkgTopoOrder_def by blast
  then show ?thesis by (auto simp: leaves_first_def)
qed

lemma find_unique: "x \<in> set xs \<Longrightarrow> distinct (map key xs) \<Longrightarrow> find (\<lambda>m. key m = key x) xs = Some x"
  by (induction xs) (auto simp: rev_image_eqI)

lemma topo_order_perm:
  assumes "mset nodes = mset nodes'" "distinct (map sgn_name nodes)"
  shows "selfPkgTopoOrder n nodes = selfPkgTopoOrder n nodes'"
proof -
  have same: "set nodes = set nodes'" "distinct (map sgn_name nodes')"
    using assms by (metis set_mset_mset, metis mset_map mset_eq_imp_distinct_iff)
  have F: "selfPkgFindGraphNode name nodes = selfPkgFindGraphNode name nodes'" for name
  proof (cases "selfPkgFindGraphNode name nodes")
    case None
    then have "selfPkgFindGraphNode name nodes' = None" unfolding find_node_iff using same by simp
    then show ?thesis using None by simp
  next
    case (Some x)
    then have "x \<in> set nodes'" "sgn_name x = name" using same by (auto simp: selfPkgFindGraphNode_def find_Some_iff)
    then show ?thesis using Some find_unique [of x nodes' sgn_name] same by (simp add: selfPkgFindGraphNode_def)
  qed
  have "selfPkgTopoVisit n nodes = selfPkgTopoVisit n nodes'"
  proof (induction n)
    case (Suc n)
    show ?case by (intro ext) (simp only: selfPkgTopoVisit.simps F Suc.IH)
  qed (simp add: fun_eq_iff)
  then show ?thesis using same by (simp add: selfPkgTopoOrder_def sort_by_insertion)
qed

end
