(* ===== verification/Pkg_Run.thy ===== *)
theory Pkg_Run
  imports Pkg_Resolve Pkg_Topo "HOL-Library.Sublist"
begin

text \<open>
  The runs of the resolver. The search of \<open>solve\<close> (\<^verbatim>\<open>src/internal/pkgmgr/resolve.go\<close>) is related to the runs of a step
  relation that picks any candidate: a graph it returns ends a run, and an error means that no run ends. The invariant of the runs
  gives that resolved graphs have no cycles, and the search ends in a bounded world.
\<close>

section \<open>Graphs\<close>

abbreviation names_of :: "Graph \<Rightarrow> string list" where
  "names_of g \<equiv> map rn_Name (gr_Nodes g)"

definition edge :: "string \<Rightarrow> string \<Rightarrow> ResolvedNode \<Rightarrow> ResolvedNode" where
  "edge parent child n = (if parent \<noteq> [] \<and> child \<noteq> [] \<and> rn_Name n = parent then add_dep child n else n)"

lemma add_dep_simps [simp]: "rn_Name (add_dep c n) = rn_Name n" "rn_Source (add_dep c n) = rn_Source n"
  "rn_Fetched (add_dep c n) = rn_Fetched n" "set (rn_Deps (add_dep c n)) = insert c (set (rn_Deps n))"
  by (auto simp: add_dep_def)

lemma edge_simps [simp]: "rn_Name (edge p c n) = rn_Name n" "rn_Source (edge p c n) = rn_Source n"
  "rn_Fetched (edge p c n) = rn_Fetched n"
  "set (rn_Deps (edge p c n)) = (if p \<noteq> [] \<and> c \<noteq> [] \<and> rn_Name n = p then insert c (set (rn_Deps n)) else set (rn_Deps n))"
  by (auto simp: edge_def)

lemma addDepEdge_nodes: "gr_Nodes (addDepEdge g p c) = map (edge p c) (gr_Nodes g)"
  by (auto simp: addDepEdge_def edge_def intro!: map_cong map_idI [symmetric])

lemma names_addDepEdge [simp]: "names_of (addDepEdge g p c) = names_of g"
  by (simp add: addDepEdge_nodes)

lemma find_map: "(\<And>x. P (f x) = P x) \<Longrightarrow> find P (map f xs) = map_option f (find P xs)"
  by (induction xs) auto

lemma node_of_addDepEdge: "node_of (addDepEdge g p c) u = map_option (edge p c) (node_of g u)"
  by (simp add: node_of_def addDepEdge_nodes find_map)

definition new_node :: "resolveRequest \<Rightarrow> Source \<Rightarrow> FetchedPackage \<Rightarrow> ResolvedNode" where
  "new_node req src fetched = \<lparr>rn_Name = md_Name (rq_dep req), rn_Source = src, rn_Fetched = fetched, rn_Deps = []\<rparr>"

lemma add_node_nodes: "gr_Nodes (add_node g req src f) = map (edge (rq_parent req) (md_Name (rq_dep req))) (gr_Nodes g @ [new_node req src f])"
  by (simp add: add_node_def addDepEdge_nodes new_node_def Let_def)

lemma names_add_node [simp]: "names_of (add_node g req src f) = names_of g @ [md_Name (rq_dep req)]"
  by (simp add: add_node_nodes new_node_def)

lemma find_append: "find P (xs @ ys) = (case find P xs of None \<Rightarrow> find P ys | Some x \<Rightarrow> Some x)"
  by (induction xs) auto

lemma node_of_add_node: "node_of (add_node g req src f) u = map_option (edge (rq_parent req) (md_Name (rq_dep req)))
    (case node_of g u of None \<Rightarrow> if md_Name (rq_dep req) = u then Some (new_node req src f) else None | Some n \<Rightarrow> Some n)"
  by (simp add: node_of_def add_node_nodes find_map find_append new_node_def del: map_append split: option.split)

lemma node_of_None: "node_of g u = None \<longleftrightarrow> u \<notin> set (names_of g)"
  by (auto simp: node_of_def find_None_iff)

lemma node_of_Some: "node_of g u = Some n \<Longrightarrow> n \<in> set (gr_Nodes g) \<and> rn_Name n = u"
  by (auto simp: node_of_def find_Some_iff)

lemma node_of_member: "n \<in> set (gr_Nodes g) \<Longrightarrow> distinct (names_of g) \<Longrightarrow> node_of g (rn_Name n) = Some n"
  unfolding node_of_def by (rule find_unique)

section \<open>Runs\<close>

text \<open>One step of the search serves the first request by a node of the graph, or by a new node for any of its candidates.\<close>

inductive resolve_step :: "World \<Rightarrow> Env \<Rightarrow> Lock option \<Rightarrow> Graph \<times> resolveRequest list \<Rightarrow> Graph \<times> resolveRequest list \<Rightarrow> bool"
  for W env lock where
  reuse: "md_Name (rq_dep req) \<notin> set (rq_ancestors req) \<Longrightarrow> newSourceFromDir (rq_dep req) (rq_baseDir req) = Inr src \<Longrightarrow>
    node_of g (md_Name (rq_dep req)) = Some existing \<Longrightarrow> ensureCompatible env existing src (md_Name (rq_dep req)) = None \<Longrightarrow>
    resolve_step W env lock (g, req # rest) (addDepEdge g (rq_parent req) (md_Name (rq_dep req)), rest)"
| choose: "md_Name (rq_dep req) \<notin> set (rq_ancestors req) \<Longrightarrow> newSourceFromDir (rq_dep req) (rq_baseDir req) = Inr src \<Longrightarrow>
    node_of g (md_Name (rq_dep req)) = None \<Longrightarrow> resolveCandidates W env lock src (md_Name (rq_dep req)) = Inr cands \<Longrightarrow>
    (csrc, Inr fetched) \<in> set cands \<Longrightarrow>
    resolve_step W env lock (g, req # rest) (add_node g req csrc fetched, childRequests req (md_Name (rq_dep req)) fetched @ rest)"

lemma resolve_step_Cons [consumes 1, case_names reuse choose]:
  assumes "resolve_step W env lock (g, req # rest) s"
  obtains src existing where "md_Name (rq_dep req) \<notin> set (rq_ancestors req)" "newSourceFromDir (rq_dep req) (rq_baseDir req) = Inr src"
      "node_of g (md_Name (rq_dep req)) = Some existing" "ensureCompatible env existing src (md_Name (rq_dep req)) = None"
      "s = (addDepEdge g (rq_parent req) (md_Name (rq_dep req)), rest)"
    | src cands csrc fetched where "md_Name (rq_dep req) \<notin> set (rq_ancestors req)" "newSourceFromDir (rq_dep req) (rq_baseDir req) = Inr src"
      "node_of g (md_Name (rq_dep req)) = None" "resolveCandidates W env lock src (md_Name (rq_dep req)) = Inr cands"
      "(csrc, Inr fetched) \<in> set cands"
      "s = (add_node g req csrc fetched, childRequests req (md_Name (rq_dep req)) fetched @ rest)"
  using assms by (cases rule: resolve_step.cases) auto

abbreviation resolve_run where
  "resolve_run W env lock \<equiv> (resolve_step W env lock)\<^sup>*\<^sup>*"

lemma try_Inr: "try_candidates attempt none fe cs = Some (Inr g) \<Longrightarrow> \<exists>c \<in> set cs. attempt c = Some (Inr g)"
  by (induction cs arbitrary: fe) (auto split: option.splits sum.splits)

lemma try_Inl: "try_candidates attempt none fe cs = Some (Inl e) \<Longrightarrow> c \<in> set cs \<Longrightarrow> \<exists>e'. attempt c = Some (Inl e')"
  by (induction cs arbitrary: fe) (auto split: option.splits sum.splits)

lemma try_returns: "(\<And>c. c \<in> set cs \<Longrightarrow> attempt c \<noteq> None) \<Longrightarrow> try_candidates attempt none fe cs \<noteq> None"
  by (induction cs arbitrary: fe) (auto split: option.splits sum.splits)

lemma solve_run: "solve n W env lock g pending = Some (Inr g') \<Longrightarrow> resolve_run W env lock (g, pending) (g', [])"
proof (induction n arbitrary: g pending)
  case (Suc n)
  show ?case
  proof (cases pending)
    case Nil
    then show ?thesis using Suc.prems by simp
  next
    case (Cons req rest)
    let ?name = "md_Name (rq_dep req)"
    obtain src where fresh: "?name \<notin> set (rq_ancestors req)" and src: "newSourceFromDir (rq_dep req) (rq_baseDir req) = Inr src"
      using Suc.prems Cons by (auto simp: Let_def split: if_splits sum.splits)
    show ?thesis
    proof (cases "node_of g ?name")
      case (Some existing)
      then have "ensureCompatible env existing src ?name = None" "solve n W env lock (addDepEdge g (rq_parent req) ?name) rest = Some (Inr g')"
        using Suc.prems Cons fresh src by (auto simp: Let_def split: option.splits)
      then show ?thesis using Suc.IH resolve_step.reuse [OF fresh src Some] Cons by (metis converse_rtranclp_into_rtranclp)
    next
      case None
      then obtain cands where cands: "resolveCandidates W env lock src ?name = Inr cands"
        using Suc.prems Cons fresh src by (auto simp: Let_def split: sum.splits)
      from Suc.prems obtain c where c: "c \<in> set cands" "(case c of (csrc, answer) \<Rightarrow> case answer of Inl e \<Rightarrow> Some (Inl (Resolving ?name e))
          | Inr fetched \<Rightarrow> solve n W env lock (add_node g req csrc fetched) (childRequests req ?name fetched @ rest)) = Some (Inr g')"
        using Cons fresh src None cands try_Inr by (fastforce simp: Let_def)
      then obtain csrc fetched where f: "c = (csrc, Inr fetched)"
          "solve n W env lock (add_node g req csrc fetched) (childRequests req ?name fetched @ rest) = Some (Inr g')"
        by (auto split: prod.split_asm sum.split_asm)
      show ?thesis unfolding Cons
        using converse_rtranclp_into_rtranclp [OF resolve_step.choose [OF fresh src None cands c(1) [unfolded f(1)]] Suc.IH [OF f(2)]] .
    qed
  qed
qed simp

text \<open>An error of the search means that no run serves all requests.\<close>

lemma solve_complete: "solve n W env lock g pending = Some (Inl e) \<Longrightarrow> \<not> resolve_run W env lock (g, pending) (g', [])"
proof (induction n arbitrary: g pending e)
  case (Suc n)
  show ?case
  proof
    assume run: "resolve_run W env lock (g, pending) (g', [])"
    obtain req rest where p: "pending = req # rest" using Suc.prems by (cases pending) auto
    let ?name = "md_Name (rq_dep req)"
    obtain s where s: "resolve_step W env lock (g, req # rest) s" "resolve_run W env lock s (g', [])"
      using run p by (metis converse_rtranclpE list.distinct(1) prod.inject)
    from s(1) show False
    proof (cases rule: resolve_step_Cons)
      case (reuse src existing)
      then show False using Suc.IH Suc.prems p s(2) by (auto simp: Let_def)
    next
      case (choose src cands csrc fetched)
      then have "\<exists>e'. solve n W env lock (add_node g req csrc fetched) (childRequests req ?name fetched @ rest) = Some (Inl e')"
        using Suc.prems p try_Inl by (fastforce simp: Let_def)
      then show False using Suc.IH s(2) choose(6) by blast
    qed
  qed
qed simp

section \<open>Termination\<close>

text \<open>A world whose manifests name only dependencies of a finite list and have at most \<open>D\<close> of them.\<close>

definition bounded_world :: "World \<Rightarrow> string list \<Rightarrow> nat \<Rightarrow> bool" where
  "bounded_world W Nm D \<longleftrightarrow> (\<forall>p m. w_Manifest W p = Inr m \<longrightarrow>
     length (man_Dependencies m) \<le> D \<and> md_Name ` set (man_Dependencies m) \<subseteq> set Nm)"

lemma path_manifest: "pathSource_Fetch W env name path baseDir = Inr f \<Longrightarrow> \<exists>p. w_Manifest W p = Inr (fp_Manifest f)"
  by (auto simp: pathSource_Fetch_def Let_def split: sum.splits if_splits)

lemma git_manifest: "gitSource_Fetch W env name url tag branch rev0 = Inr f \<Longrightarrow> \<exists>p. w_Manifest W p = Inr (fp_Manifest f)"
  by (auto simp: gitSource_Fetch_def Let_def split: sum.splits if_splits option.splits)

lemma registry_fetched:
  assumes "fetchRegistryCandidate W env name pkg reg c = Inr f"
  shows "\<exists>p. w_Manifest W p = Inr (fp_Manifest f)" "fp_Version f = Version_String (cand_Version c)" "fp_Checksum f = rv_Checksum (cand_Meta c)"
    and "\<exists>regURL path got. Registries env reg = Some regURL \<and>
      tarball_hash W env name regURL pkg (fp_Version f) path = Inr got \<and> selfPkgVerifyChecksum (fp_Checksum f) got = None"
proof -
  obtain regURL where "Registries env reg = Some regURL" "regURL \<noteq> []"
    using assms by (auto simp: fetchRegistryCandidate_def split: option.splits if_splits)
  note r = assms [unfolded fetchRegistryCandidate_def this(1) option.case if_not_P [OF this(2)] Let_def]
  let ?path = "Join [Join [CacheDir env, ''registry'', selfPkgSanitizeURL regURL, pkg, Version_String (cand_Version c)], ''package.tgz'']"
  obtain got where g: "tarball_hash W env name regURL pkg (Version_String (cand_Version c)) ?path = Inr got"
      "selfPkgVerifyChecksum (rv_Checksum (cand_Meta c)) got = None"
    using r by (simp split: sum.split_asm option.split_asm)
  then have f: "(\<exists>p. w_Manifest W p = Inr (fp_Manifest f)) \<and> fp_Version f = Version_String (cand_Version c) \<and> fp_Checksum f = rv_Checksum (cand_Meta c)"
    using r by (auto split: option.splits sum.splits)
  then show "\<exists>p. w_Manifest W p = Inr (fp_Manifest f)" "fp_Version f = Version_String (cand_Version c)" "fp_Checksum f = rv_Checksum (cand_Meta c)"
    by blast+
  show "\<exists>regURL path got. Registries env reg = Some regURL \<and>
      tarball_hash W env name regURL pkg (fp_Version f) path = Inr got \<and> selfPkgVerifyChecksum (fp_Checksum f) got = None"
    using f g \<open>Registries env reg = Some regURL\<close> by auto
qed

lemma fetch_manifest:
  assumes "resolveCandidates W env lock src name = Inr cands" "(csrc, Inr f) \<in> set cands"
  shows "\<exists>p. w_Manifest W p = Inr (fp_Manifest f)"
  using assms path_manifest git_manifest registry_fetched(1) by (cases src) (auto split: sum.splits)

definition work :: "string list \<Rightarrow> nat \<Rightarrow> Graph \<Rightarrow> resolveRequest list \<Rightarrow> nat" where
  "work Nm D g pending = length pending + (card (set Nm) - card (set (names_of g))) * D"

lemma solve_returns:
  assumes "bounded_world W Nm D"
  shows "set (names_of g) \<subseteq> set Nm \<Longrightarrow> md_Name ` rq_dep ` set pending \<subseteq> set Nm \<Longrightarrow> work Nm D g pending < n \<Longrightarrow>
    solve n W env lock g pending \<noteq> None"
proof (induction n arbitrary: g pending)
  case (Suc n)
  show ?case
  proof (cases pending)
    case (Cons req rest)
    let ?name = "md_Name (rq_dep req)"
    have old: "solve n W env lock (addDepEdge g (rq_parent req) ?name) rest \<noteq> None"
      using Suc.prems Cons by (intro Suc.IH) (auto simp: work_def)
    have new: "solve n W env lock (add_node g req csrc f) (childRequests req ?name f @ rest) \<noteq> None"
      if f: "node_of g ?name = None" "resolveCandidates W env lock src ?name = Inr cands" "(csrc, Inr f) \<in> set cands" for src cands csrc f
    proof (rule Suc.IH)
      obtain p where p: "w_Manifest W p = Inr (fp_Manifest f)" using fetch_manifest [OF f(2,3)] by blast
      then have D: "length (man_Dependencies (fp_Manifest f)) \<le> D" "md_Name ` set (man_Dependencies (fp_Manifest f)) \<subseteq> set Nm"
        using assms by (auto simp: bounded_world_def)
      have fresh: "?name \<notin> set (names_of g)" by (rule node_of_None [THEN iffD1, OF f(1)])
      show "set (names_of (add_node g req csrc f)) \<subseteq> set Nm" using Suc.prems Cons by simp
      show "md_Name ` rq_dep ` set (childRequests req ?name f @ rest) \<subseteq> set Nm"
        using Suc.prems Cons D by (auto simp: childRequests_def)
      have "card (insert ?name (set (names_of g))) \<le> card (set Nm)"
        using Suc.prems Cons by (intro card_mono) auto
      then have "Suc (card (set (names_of g))) \<le> card (set Nm)" using fresh by simp
      then obtain k where k: "card (set Nm) = Suc (card (set (names_of g))) + k" using le_Suc_ex by blast
      have "card (set (names_of (add_node g req csrc f))) = Suc (card (set (names_of g)))" using fresh by simp
      then show "work Nm D (add_node g req csrc f) (childRequests req ?name f @ rest) < n"
        using Suc.prems(3) Cons D(1) k by (simp add: work_def childRequests_def)
    qed
    have "try_candidates (\<lambda>(csrc, answer). case answer of Inl e \<Rightarrow> Some (Inl (Resolving ?name e))
        | Inr fetched \<Rightarrow> solve n W env lock (add_node g req csrc fetched) (childRequests req ?name fetched @ rest))
        (NoCandidates ?name) None cands \<noteq> None" if "node_of g ?name = None" "resolveCandidates W env lock src ?name = Inr cands" for src cands
      using new [OF that] by (intro try_returns) (auto split: prod.split sum.split)
    then show ?thesis using Cons old by (simp add: Let_def split: sum.split option.split)
  qed simp
qed simp

section \<open>No cycles\<close>

text \<open>The ancestors of the pending requests are nested, and end a list of the nodes in which every node stands after its dependencies.\<close>

fun chained :: "string list \<Rightarrow> resolveRequest list \<Rightarrow> bool" where
  "chained ord [] \<longleftrightarrow> True"
| "chained ord (r # rs) \<longleftrightarrow> suffix (rq_ancestors r) ord \<and>
     rq_parent r = (case rq_ancestors r of [] \<Rightarrow> [] | u # _ \<Rightarrow> u) \<and> chained (rq_ancestors r) rs"

definition ordered_by :: "string list \<Rightarrow> Graph \<Rightarrow> resolveRequest list \<Rightarrow> bool" where
  "ordered_by ord g pending \<longleftrightarrow> distinct (names_of g) \<and> mset ord = mset (names_of g) \<and>
     (\<forall>n \<in> set (gr_Nodes g). \<forall>d \<in> set (rn_Deps n). precedes ord d (rn_Name n)) \<and> chained ord pending"

lemma chained_mono: "chained s rs \<Longrightarrow> suffix s t \<Longrightarrow> chained t rs"
  by (cases rs) (auto intro: suffix_order.trans)

lemma chained_children:
  "chained t rest \<Longrightarrow> (\<And>r. r \<in> set cs \<Longrightarrow> rq_ancestors r = t \<and> rq_parent r = (case t of [] \<Rightarrow> [] | u # _ \<Rightarrow> u)) \<Longrightarrow> chained t (cs @ rest)"
  by (induction cs) auto

lemma ordered_step:
  assumes "ordered_by ord g (req # rest)" "resolve_step W env lock (g, req # rest) (g', pending)"
  shows "\<exists>ord'. ordered_by ord' g' pending"
  using assms(2)
proof (cases rule: resolve_step_Cons)
  case (reuse src existing)
  obtain pre where ord: "ord = pre @ rq_ancestors req" using assms(1) by (auto simp: ordered_by_def suffix_def)
  have "md_Name (rq_dep req) \<in> set (names_of g)" using node_of_Some [OF reuse(3)] by force
  then have pre: "md_Name (rq_dep req) \<in> set pre"
    using assms(1) reuse(1) ord unfolding ordered_by_def by (metis Un_iff set_append set_mset_mset)
  have "precedes ord (md_Name (rq_dep req)) (rq_parent req)" if "rq_parent req \<noteq> []"
    using that assms(1) ord pre by (cases "rq_ancestors req") (auto simp: ordered_by_def precedes_def)
  moreover have "chained ord rest" using assms(1) chained_mono by (auto simp: ordered_by_def)
  ultimately have "ordered_by ord g' pending"
    using assms(1) reuse(5) unfolding ordered_by_def by (auto simp: addDepEdge_nodes comp_def)
  then show ?thesis by blast
next
  case (choose src cands csrc fetched)
  let ?name = "md_Name (rq_dep req)" and ?anc = "rq_ancestors req"
  obtain pre where ord: "ord = pre @ ?anc" using assms(1) by (auto simp: ordered_by_def suffix_def)
  have fresh: "?name \<notin> set (names_of g)" by (rule node_of_None [THEN iffD1, OF choose(3)])
  have par: "rq_parent req \<noteq> [] \<Longrightarrow> rq_parent req \<in> set ?anc \<and> precedes (pre @ ?name # ?anc) ?name (rq_parent req)"
    using assms(1) by (cases ?anc) (auto simp: ordered_by_def precedes_def intro: exI [of _ "pre @ [?name]"])
  have "chained (?name # ?anc) (childRequests req ?name fetched @ rest)"
    using assms(1) by (intro chained_children) (auto simp: ordered_by_def childRequests_def intro: chained_mono suffix_ConsI)
  then have "chained (pre @ ?name # ?anc) (childRequests req ?name fetched @ rest)" by (rule chained_mono) (simp add: suffix_def)
  moreover have "precedes (pre @ ?name # ?anc) d (rn_Name n)" if n: "n \<in> set (gr_Nodes g')" "d \<in> set (rn_Deps n)" for n d
  proof -
    obtain m where m: "m \<in> set (gr_Nodes g @ [new_node req csrc fetched])" "n = edge (rq_parent req) ?name m"
      using n(1) choose(6) by (auto simp: add_node_nodes)
    have "\<forall>d \<in> set (rn_Deps m). precedes (pre @ ?name # ?anc) d (rn_Name m)"
      using m(1) assms(1) ord by (auto simp: ordered_by_def new_node_def intro!: precedes_insert [of pre ?anc])
    then show ?thesis using m(2) n(2) par by (auto split: if_splits)
  qed
  ultimately have "ordered_by (pre @ ?name # ?anc) g' (childRequests req ?name fetched @ rest)"
    using assms(1) ord choose(6) fresh unfolding ordered_by_def by simp
  then show ?thesis using choose(6) by blast
qed

section \<open>Growth\<close>

definition extends :: "Graph \<Rightarrow> Graph \<Rightarrow> bool" where
  "extends g g' \<longleftrightarrow> (\<forall>u n. node_of g u = Some n \<longrightarrow> (\<exists>n'. node_of g' u = Some n' \<and> rn_Source n' = rn_Source n \<and>
     rn_Fetched n' = rn_Fetched n \<and> set (rn_Deps n) \<subseteq> set (rn_Deps n')))"

lemma extendsD:
  assumes "extends g g'" "node_of g u = Some n"
  obtains n' where "node_of g' u = Some n'" "rn_Source n' = rn_Source n" "rn_Fetched n' = rn_Fetched n" "set (rn_Deps n) \<subseteq> set (rn_Deps n')"
  using assms unfolding extends_def by blast

lemma extends_trans:
  assumes "extends a b" "extends b c"
  shows "extends a c"
  unfolding extends_def
proof (intro allI impI)
  fix u n assume "node_of a u = Some n"
  then obtain m where m: "node_of b u = Some m" "rn_Source m = rn_Source n" "rn_Fetched m = rn_Fetched n" "set (rn_Deps n) \<subseteq> set (rn_Deps m)"
    using extendsD [OF assms(1)] by metis
  obtain k where "node_of c u = Some k" "rn_Source k = rn_Source m" "rn_Fetched k = rn_Fetched m" "set (rn_Deps m) \<subseteq> set (rn_Deps k)"
    using extendsD [OF assms(2) m(1)] by metis
  then show "\<exists>n'. node_of c u = Some n' \<and> rn_Source n' = rn_Source n \<and> rn_Fetched n' = rn_Fetched n \<and> set (rn_Deps n) \<subseteq> set (rn_Deps n')"
    using m by auto
qed

lemma step_extends: "resolve_step W env lock (g, p) (g', p') \<Longrightarrow> extends g g'"
  by (cases rule: resolve_step.cases) (auto simp: extends_def node_of_addDepEdge node_of_add_node)

lemma run_extends: "resolve_run W env lock (g, p) (g', p') \<Longrightarrow> extends g g'"
proof (induction "(g, p)" arbitrary: g p rule: converse_rtranclp_induct)
  case (step s)
  then show ?case using step_extends extends_trans by (metis surj_pair)
qed (auto simp: extends_def)

section \<open>Requests and edges come from manifests\<close>

abbreviation deps_of :: "ResolvedNode \<Rightarrow> ManifestDependency list" where
  "deps_of n \<equiv> man_Dependencies (fp_Manifest (rn_Fetched n))"

abbreviation dir_of :: "ResolvedNode \<Rightarrow> string" where
  "dir_of n \<equiv> manifestBaseDir (fp_Manifest (rn_Fetched n)) (fp_LocalDir (rn_Fetched n))"

definition parents_known :: "Graph \<Rightarrow> resolveRequest list \<Rightarrow> bool" where
  "parents_known g p \<longleftrightarrow> (\<forall>r \<in> set p. rq_parent r = [] \<or> (\<exists>n. node_of g (rq_parent r) = Some n \<and> rq_dep r \<in> set (deps_of n)))"

lemma step_parents:
  assumes "parents_known g (req # rest)" "resolve_step W env lock (g, req # rest) (g', p')"
  shows "parents_known g' p'"
proof -
  have keep: "\<exists>n'. node_of g' u = Some n' \<and> deps_of n' = deps_of n" if "node_of g u = Some n" for u n
    using extendsD [OF step_extends [OF assms(2)] that] by metis
  have old: "parents_known g' rest" using assms(1) keep unfolding parents_known_def by (metis list.set_intros(2))
  from assms(2) show ?thesis
  proof (cases rule: resolve_step_Cons)
    case (reuse src existing)
    then show ?thesis using old by simp
  next
    case (choose src cands csrc fetched)
    then have "parents_known g' (childRequests req (md_Name (rq_dep req)) fetched)"
      by (auto simp: parents_known_def childRequests_def node_of_add_node new_node_def)
    then show ?thesis using old choose(6) by (auto simp: parents_known_def)
  qed
qed

definition edges_declared :: "Graph \<Rightarrow> bool" where
  "edges_declared g \<longleftrightarrow> (\<forall>n \<in> set (gr_Nodes g). set (rn_Deps n) \<subseteq> md_Name ` set (deps_of n) - {[]})"

lemma step_declared:
  assumes "edges_declared g" "parents_known g (req # rest)" "distinct (names_of g)" "resolve_step W env lock (g, req # rest) (g', p')"
  shows "edges_declared g'"
proof -
  let ?name = "md_Name (rq_dep req)"
  have E: "set (rn_Deps (edge (rq_parent req) ?name n)) \<subseteq> md_Name ` set (deps_of n) - {[]}"
    if "n \<in> set (gr_Nodes g)" for n
    using that assms(1,2) node_of_member [OF that assms(3)] by (auto simp: edges_declared_def parents_known_def)
  from assms(4) show ?thesis
  proof (cases rule: resolve_step_Cons)
    case (reuse src existing)
    then show ?thesis using E by (auto simp: edges_declared_def addDepEdge_nodes simp del: edge_simps(4))
  next
    case (choose src cands csrc fetched)
    have "rq_parent req \<noteq> [] \<Longrightarrow> rq_parent req \<noteq> ?name" using assms(2) choose(3) by (auto simp: parents_known_def)
    then have "rn_Deps (edge (rq_parent req) ?name (new_node req csrc fetched)) = []" by (auto simp: edge_def new_node_def)
    then show ?thesis using E choose(6) by (auto simp: edges_declared_def add_node_nodes simp del: edge_simps(4))
  qed
qed

section \<open>The invariant of runs\<close>

locale run_invariant =
  fixes step :: "'s \<Rightarrow> 's \<Rightarrow> bool" and inv :: "'s \<Rightarrow> bool"
  assumes preserved: "inv s \<Longrightarrow> step s t \<Longrightarrow> inv t"
begin

lemma along_run: "step\<^sup>*\<^sup>* s t \<Longrightarrow> inv s \<Longrightarrow> inv t"
  by (induction rule: rtranclp_induct) (auto intro: preserved)

end

definition resolve_wf :: "Graph \<times> resolveRequest list \<Rightarrow> bool" where
  "resolve_wf s \<longleftrightarrow> (\<exists>ord. ordered_by ord (fst s) (snd s)) \<and> parents_known (fst s) (snd s) \<and> edges_declared (fst s)"

interpretation resolving: run_invariant "resolve_step W env lock" resolve_wf for W env lock
proof
  fix s t assume wf: "resolve_wf s" and st: "resolve_step W env lock s t"
  obtain g req rest g' p' where e: "s = (g, req # rest)" "t = (g', p')" using st by (cases rule: resolve_step.cases) auto
  note wf = wf [unfolded resolve_wf_def e, simplified] and st = st [unfolded e]
  obtain ord where ord: "ordered_by ord g (req # rest)" using wf by blast
  have "edges_declared g'" using step_declared [OF _ _ _ st] wf ord by (simp add: ordered_by_def)
  then show "resolve_wf t" using ordered_step [OF ord st] step_parents [OF _ st] wf by (simp add: resolve_wf_def e)
qed

lemma resolve_wf_start: "resolve_wf (empty_graph root, root_requests root dir)"
proof -
  have "chained [] (root_requests root dir @ [])" by (rule chained_children) (auto simp: root_requests_def)
  then have "ordered_by [] (empty_graph root) (root_requests root dir)" by (simp add: ordered_by_def empty_graph_def)
  then show ?thesis by (auto simp: resolve_wf_def parents_known_def root_requests_def edges_declared_def empty_graph_def)
qed

lemma solve_wf: "solve n W env lock (empty_graph root) (root_requests root dir) = Some (Inr g) \<Longrightarrow> resolve_wf (g, [])"
  using resolving.along_run [OF solve_run resolve_wf_start] .

lemma graph_acyclic:
  assumes "ordered_by ord g []"
  shows "acyclic_by (golegacyGraphNodes g) ord" "length ord = length (gr_Nodes g)"
proof -
  have "d \<in> edges_of (golegacyGraphNodes g) u \<Longrightarrow> precedes ord d u" for d u
    using assms by (auto simp: edges_of_def selfPkgFindGraphNode_def golegacyGraphNodes_def find_Some_iff ordered_by_def split: option.splits)
  moreover have "distinct ord" "set ord = set (names_of g)"
    using assms unfolding ordered_by_def by (metis mset_eq_imp_distinct_iff, metis mset_eq_setD)
  ultimately show "acyclic_by (golegacyGraphNodes g) ord"
    by (simp add: acyclic_by_def golegacyGraphNodes_def comp_def)
  show "length ord = length (gr_Nodes g)" using assms unfolding ordered_by_def by (metis length_map size_mset)
qed

end
