(* ===== verification/Pkg_Candidates.thy ===== *)
theory Pkg_Candidates
  imports Pkg_Run
begin

text \<open>
  What serves a dependency, said without the resolver's own checks: \<open>suits\<close> compares a source and a package with what the manifest declares,
  \<open>fetched_from\<close> says that a package is what its source answers, and \<open>offers\<close> that the registry has it. The code agrees with the first
  (\<^verbatim>\<open>ensureCompatible\<close>), and its candidates (\<^verbatim>\<open>candidateRegistryVersions\<close>, \<^verbatim>\<open>resolveCandidates\<close>) are exactly what is on offer.
\<close>

section \<open>What a dependency asks for\<close>

definition package_of :: "ManifestDependency \<Rightarrow> string" where
  "package_of d = (if md_PackageName d \<noteq> [] then md_PackageName d else md_Name d)"

text \<open>A path dependency wants a package of the same directory, a git dependency one of the same repository and ref, a registry dependency
  one of the same package of the same registry, of a version that the requirement accepts.\<close>

definition suits :: "Env \<Rightarrow> Source \<Rightarrow> FetchedPackage \<Rightarrow> ManifestDependency \<Rightarrow> string \<Rightarrow> bool" where
  "suits env src f d dir \<longleftrightarrow>
     (if md_Path d \<noteq> []
      then (case src of pathSource _ path baseDir \<Rightarrow> absPath env path baseDir = absPath env (md_Path d) dir | _ \<Rightarrow> False)
      else (case md_Git d of
          Some gs \<Rightarrow>
            (case src of gitSource _ url tag branch rev0 \<Rightarrow>
               selfPkgGitURI url tag branch rev0 = selfPkgGitURI (gs_URL gs) (gs_Tag gs) (gs_Branch gs) (gs_Rev gs) | _ \<Rightarrow> False)
        | None \<Rightarrow>
            md_VersionReq d \<noteq> [] \<and>
            (case src of registrySource _ pkg _ reg \<Rightarrow>
               pkg = package_of d \<and> reg = md_Registry d \<and>
               (case (ParseReq (md_VersionReq d), ParseVersion (fp_Version f)) of (Inr req, Inr v) \<Rightarrow> Match req v | _ \<Rightarrow> False)
             | _ \<Rightarrow> False)))"

lemma source_of_dependency:
  "newSourceFromDir d dir =
     (if md_Path d \<noteq> [] then Inr (pathSource (md_Name d) (md_Path d) dir)
      else case md_Git d of Some g \<Rightarrow> Inr (gitSource (md_Name d) (gs_URL g) (gs_Tag g) (gs_Branch g) (gs_Rev g))
        | None \<Rightarrow> if md_VersionReq d \<noteq> [] then Inr (registrySource (md_Name d) (package_of d) (md_VersionReq d) (md_Registry d))
            else Inl (DepError (md_Name d) ''dependency has no source''))"
  by (simp add: newSourceFromDir_def firstNonEmpty_def package_of_def split: option.split)

text \<open>The resolver's check agrees.\<close>

lemma compatible_suits:
  assumes "newSourceFromDir d dir = Inr src"
  shows "ensureCompatible env m src name = None \<longleftrightarrow> suits env (rn_Source m) (rn_Fetched m) d dir"
  using assms unfolding source_of_dependency
  by (cases "rn_Source m"; cases "md_Git d")
    (auto simp: ensureCompatible_def suits_def split: if_splits sum.split)

lemma suits_source: "suits env src f d dir \<Longrightarrow> \<exists>src'. newSourceFromDir d dir = Inr src'"
  by (auto simp: suits_def source_of_dependency split: if_splits option.splits)

text \<open>A package that its source answers; a registry's answer is a row of its index that is not yanked.\<close>

definition fetched_from :: "World \<Rightarrow> Env \<Rightarrow> Source \<Rightarrow> FetchedPackage \<Rightarrow> bool" where
  "fetched_from W env src f \<longleftrightarrow>
     (case src of
        pathSource name path baseDir \<Rightarrow> pathSource_Fetch W env name path baseDir = Inr f
      | gitSource name url tag branch rev0 \<Rightarrow> gitSource_Fetch W env name url tag branch rev0 = Inr f
      | registrySource name pkg raw reg \<Rightarrow>
          (case Registries env reg of None \<Rightarrow> False
           | Some regURL \<Rightarrow>
               (case registry_rows W env name regURL pkg of Inl _ \<Rightarrow> False
                | Inr rows \<Rightarrow> list_ex (\<lambda>row. \<not> rv_Yanked row \<and>
                    (case ParseVersion (rv_Version row) of Inl _ \<Rightarrow> False
                     | Inr v \<Rightarrow> fetchRegistryCandidate W env name pkg reg \<lparr>cand_Version = v, cand_Meta = row\<rparr> = Inr f)) rows)))"

text \<open>What a registry offers for a dependency: a row whose version the requirement accepts, and whose package can be fetched. Versions and
  requirements are plain, so that the two semver implementations agree on them.\<close>

definition offers :: "World \<Rightarrow> Env \<Rightarrow> ManifestDependency \<Rightarrow> FetchedPackage \<Rightarrow> bool" where
  "offers W env d f \<longleftrightarrow> plain_req (md_VersionReq d) \<and>
     (case (Registries env (md_Registry d), ParseReq (md_VersionReq d)) of
        (Some regURL, Inr req) \<Rightarrow> regURL \<noteq> [] \<and>
          (case registry_rows W env (md_Name d) regURL (package_of d) of Inl _ \<Rightarrow> False
           | Inr rows \<Rightarrow> list_ex (\<lambda>row.
               case ParseVersion (rv_Version row) of Inl _ \<Rightarrow> False
               | Inr v \<Rightarrow> plain_version v \<and> Match req v \<and>
                   fetchRegistryCandidate W env (md_Name d) (package_of d) (md_Registry d) \<lparr>cand_Version = v, cand_Meta = row\<rparr> = Inr f) rows)
      | _ \<Rightarrow> False)"

section \<open>Candidates\<close>

text \<open>The candidates of a registry dependency satisfy its requirement.\<close>

lemma insert_stable_set [simp]: "set (insert_stable lt x ys) = insert x (set ys)"
  by (induction ys) auto

lemma SliceStable_set [simp]: "set (SliceStable lt xs) = set xs"
  unfolding SliceStable_def by (induction xs) auto

lemma extract_set: "List.extract P xs = Some (us, x, vs) \<Longrightarrow> set xs = insert x (set us \<union> set vs) \<and> P x"
  by (auto simp: extract_Some_iff)

lemma prioritize_set [simp]: "set (prioritizeRegistryCandidate cands v) = set cands"
  by (auto simp: prioritizeRegistryCandidate_def split: option.split dest!: extract_set)

lemma prioritizeLocked_set [simp]: "set (prioritizeLockedRegistryCandidate lock name pkg reg req cands) = set cands"
  by (simp add: prioritizeLockedRegistryCandidate_def split: option.split)

lemma golegacy_order_sub:
  "c \<in> set (registryCandidatesInGolegacyOrder cands rs) \<Longrightarrow> c \<in> set cands \<and> (\<exists>r \<in> set rs. grc_Version r = rv_Version (cand_Meta c))"
proof (induction rs arbitrary: cands)
  case (Cons r rs)
  show ?case
  proof (cases "List.extract (\<lambda>c. rv_Version (cand_Meta c) = grc_Version r) cands")
    case None
    then show ?thesis using Cons by auto
  next
    case (Some x)
    obtain us d vs where x: "x = (us, d, vs)" by (cases x)
    show ?thesis using Cons.prems Cons.IH [of "us @ vs"] Some x extract_set [OF Some [unfolded x]] by auto
  qed
qed simp

lemma golegacy_candidates_sub:
  "golegacy_candidates cs = Inr cvs \<Longrightarrow> (c, v) \<in> set cvs \<Longrightarrow> c \<in> set cs \<and> golegacyVersionFromString (grc_Version c) = Inr v"
  by (induction cs arbitrary: cvs) (auto split: sum.splits)

lemma ranked_matches:
  assumes "GolegacyRankRegistryCandidates name pkg reg raw cands = Inr ranked" "r \<in> set ranked"
  shows "\<exists>req v. golegacyReqFromString raw = Inr req \<and> golegacyVersionFromString (grc_Version r) = Inr v \<and> semReqMatches req v"
proof -
  obtain req cvs where q: "golegacyReqFromString raw = Inr req" "golegacy_candidates cands = Inr cvs"
    "ranked = map fst (SliceStable (\<lambda>a b. compareSemVersion (snd a) (snd b) > 0)
      (filter (\<lambda>(c, v). selfPkgCandidateMatches (selfPkgRegistryDependencyAs name pkg reg req) (candidate_of c v)) cvs))"
    using assms(1) by (auto simp: GolegacyRankRegistryCandidates_def Let_def split: sum.splits)
  then obtain v where "(r, v) \<in> set cvs" "semReqMatches req v"
    using assms(2) by (auto simp: selfPkgCandidateMatches_def selfPkgRegistryDependencyAs_def candidate_of_def)
  then show ?thesis using q golegacy_candidates_sub by blast
qed

lemma parsed_candidates_parse: "c \<in> set (parsed_candidates vs) \<Longrightarrow> ParseVersion (rv_Version (cand_Meta c)) = Inr (cand_Version c) \<and> cand_Meta c \<in> set vs"
  by (auto simp: parsed_candidates_def map_filter_def split: sum.splits)

lemma candidates_from:
  assumes "candidateRegistryVersions W env name pkg raw reg = Inr cands"
  obtains regURL req vs where "Registries env reg = Some regURL" "ParseReq raw = Inr req" "registry_rows W env name regURL pkg = Inr vs"
    "cands = ranked_candidates name pkg raw reg req (parsed_candidates vs)" "cands \<noteq> []"
  using assms by (auto simp: candidateRegistryVersions_def Let_def split: option.splits if_splits sum.splits)

lemma ranked_sub: "c \<in> set (ranked_candidates name pkg raw reg req cs) \<Longrightarrow> c \<in> set cs"
  by (auto simp: ranked_candidates_def split: sum.splits dest: golegacy_order_sub)

lemma candidate_ok:
  assumes "candidateRegistryVersions W env name pkg raw reg = Inr cands" "c \<in> set cands" "plain_req raw" "plain_version (cand_Version c)"
  shows "\<exists>req. ParseReq raw = Inr req \<and> Match req (cand_Version c)"
proof -
  obtain req vs where req: "ParseReq raw = Inr req" and c: "c \<in> set (ranked_candidates name pkg raw reg req (parsed_candidates vs))"
    using candidates_from [OF assms(1)] assms(2) by metis
  note pv = parsed_candidates_parse [OF ranked_sub [OF c]]
  show ?thesis
  proof (cases "GolegacyRankRegistryCandidates name pkg reg raw
      (map (\<lambda>c. golegacy_view pkg (rv_Version (cand_Meta c)) (cand_Meta c)) (parsed_candidates vs))")
    case (Inl e)
    then show ?thesis using c req by (simp add: ranked_candidates_def)
  next
    case (Inr ranked)
    then obtain r where r: "r \<in> set ranked" "grc_Version r = rv_Version (cand_Meta c)"
      using c golegacy_order_sub by (fastforce simp: ranked_candidates_def)
    obtain q g where q: "golegacyReqFromString raw = Inr q" "golegacyVersionFromString (grc_Version r) = Inr g" "semReqMatches q g"
      using ranked_matches [OF Inr r(1)] by blast
    then have g: "golegacyVersion (cand_Version c) = Inr g" using pv r(2) by (simp add: golegacyVersionFromString_def)
    have "valid_version (cand_Version c)" using pv ParseVersion_exact(2) by blast
    then show ?thesis using matches_plain [OF q(1) assms(3) g _ assms(4)] q(3) by auto
  qed
qed

section \<open>Candidates are complete\<close>

lemma rows_not_yanked: "registry_rows W env name regURL pkg = Inr rows \<Longrightarrow> row \<in> set rows \<Longrightarrow> \<not> rv_Yanked row"
  by (auto simp: registry_rows_def CachedVersions_def client_Versions_def filterYanked_def map_sum_def Let_def
    split: if_splits sum.splits option.splits index_reply.splits)

lemma insert_stable_mset: "mset (insert_stable lt x ys) = add_mset x (mset ys)"
  by (induction ys) auto

lemma SliceStable_mset: "mset (SliceStable lt xs) = mset xs"
  unfolding SliceStable_def by (induction xs) (auto simp: insert_stable_mset)

text \<open>If the ranking has as many entries of a version text as there are candidates with it, none of these is lost.\<close>

lemma golegacy_order_complete:
  "length (filter (\<lambda>c. rv_Version (cand_Meta c) = s) cands) \<le> length (filter (\<lambda>r. grc_Version r = s) rs) \<Longrightarrow>
    c \<in> set cands \<Longrightarrow> rv_Version (cand_Meta c) = s \<Longrightarrow> c \<in> set (registryCandidatesInGolegacyOrder cands rs)"
proof (induction rs arbitrary: cands)
  case Nil
  then show ?case by (auto simp: filter_empty_conv)
next
  case (Cons r rs)
  show ?case
  proof (cases "List.extract (\<lambda>c. rv_Version (cand_Meta c) = grc_Version r) cands")
    case None
    then have "grc_Version r \<noteq> s" using Cons.prems(2,3) by (auto simp: extract_None_iff)
    then show ?thesis using Cons None by auto
  next
    case (Some x)
    obtain us d vs where x: "x = (us, d, vs)" by (cases x)
    have e: "cands = us @ d # vs" "rv_Version (cand_Meta d) = grc_Version r" using Some x by (auto simp: extract_Some_iff)
    show ?thesis
    proof (cases "c = d")
      case True
      then show ?thesis using Some x by simp
    next
      case False
      then have "c \<in> set (us @ vs)" using Cons.prems(2) e(1) by auto
      moreover have "length (filter (\<lambda>c. rv_Version (cand_Meta c) = s) (us @ vs)) \<le> length (filter (\<lambda>r. grc_Version r = s) rs)"
        using Cons.prems(1) e by (auto split: if_splits)
      ultimately show ?thesis using Cons.IH [of "us @ vs"] Cons.prems(3) Some x by simp
    qed
  qed
qed

lemma golegacy_candidates_fst: "golegacy_candidates cs = Inr cvs \<Longrightarrow> map fst cvs = cs"
  by (induction cs arbitrary: cvs) (auto split: sum.splits)

lemma ranked_complete:
  assumes c: "c \<in> set (parsed_candidates rows)" "\<And>row. row \<in> set rows \<Longrightarrow> \<not> rv_Yanked row"
    and req: "ParseReq raw = Inr req" "plain_req raw" "Match req (cand_Version c)" "plain_version (cand_Version c)"
    and pkg: "pkg \<noteq> [] \<or> name = []"
  shows "c \<in> set (ranked_candidates name pkg raw reg req (parsed_candidates rows))"
proof -
  let ?cs = "parsed_candidates rows" and ?view = "\<lambda>c. golegacy_view pkg (rv_Version (cand_Meta c)) (cand_Meta c)"
  let ?s = "rv_Version (cand_Meta c)"
  note pc = parsed_candidates_parse [OF c(1)]
  show ?thesis
  proof (cases "GolegacyRankRegistryCandidates name pkg reg raw (map ?view ?cs)")
    case (Inl e)
    then show ?thesis using c req(3) by (simp add: ranked_candidates_def)
  next
    case (Inr ranked)
    obtain q cvs where q: "golegacyReqFromString raw = Inr q" "golegacy_candidates (map ?view ?cs) = Inr cvs"
        "ranked = map fst (SliceStable (\<lambda>a b. compareSemVersion (snd a) (snd b) > 0)
          (filter (\<lambda>(c, v). selfPkgCandidateMatches (selfPkgRegistryDependencyAs name pkg reg q) (candidate_of c v)) cvs))"
      using Inr by (auto simp: GolegacyRankRegistryCandidates_def Let_def split: sum.splits)
    let ?P = "\<lambda>(c, v). selfPkgCandidateMatches (selfPkgRegistryDependencyAs name pkg reg q) (candidate_of c v)"
    have match: "?P (r, g)" if r: "(r, g) \<in> set cvs" "grc_Version r = ?s" for r g
    proof -
      note sub = golegacy_candidates_sub [OF q(2) r(1)]
      then have g: "golegacyVersion (cand_Version c) = Inr g" using pc r(2) by (simp add: golegacyVersionFromString_def)
      have "semReqMatches q g"
        using matches_plain [OF q(1) req(2) g _ req(4)] req(1,3) pc ParseVersion_exact(2) by fastforce
      moreover obtain d where "d \<in> set ?cs" "r = ?view d" using sub by auto
      moreover from this have "\<not> rv_Yanked (cand_Meta d)" using c(2) parsed_candidates_parse by blast
      ultimately show ?thesis using pkg
        by (auto simp: selfPkgCandidateMatches_def candidate_of_def golegacy_view_def selfPkgCanonicalName_def selfPkgRegistryDependencyAs_def)
    qed
    let ?v = "\<lambda>r. grc_Version r = ?s"
    have "filter (\<lambda>x. ?v (fst x)) (filter ?P cvs) = filter (\<lambda>x. ?v (fst x)) cvs"
      unfolding filter_filter using match by (intro filter_cong refl) auto
    then have keep: "filter ?v (map fst (filter ?P cvs)) = filter ?v (map fst cvs)" by (simp add: filter_map comp_def)
    have "mset (filter ?v ranked) = mset (filter ?v (map fst (filter ?P cvs)))"
      unfolding q(3) mset_filter mset_map SliceStable_mset ..
    then have "length (filter ?v ranked) = length (filter ?v (map fst cvs))" unfolding keep by (metis size_mset)
    also have "\<dots> = length (filter (\<lambda>d. rv_Version (cand_Meta d) = ?s) ?cs)"
      unfolding golegacy_candidates_fst [OF q(2)] filter_map length_map comp_def by (simp add: golegacy_view_def)
    finally show ?thesis using golegacy_order_complete [OF _ c(1) refl, of ranked] Inr by (simp add: ranked_candidates_def)
  qed
qed

text \<open>What is on offer is among the candidates.\<close>

lemma offered_candidate:
  assumes "offers W env d f"
  obtains cands c where "candidateRegistryVersions W env (md_Name d) (package_of d) (md_VersionReq d) (md_Registry d) = Inr cands"
    "c \<in> set cands" "fetchRegistryCandidate W env (md_Name d) (package_of d) (md_Registry d) c = Inr f"
    "\<exists>req. ParseReq (md_VersionReq d) = Inr req \<and> Match req (cand_Version c)" "valid_version (cand_Version c)"
proof -
  obtain regURL req rows where r: "Registries env (md_Registry d) = Some regURL" "regURL \<noteq> []" "ParseReq (md_VersionReq d) = Inr req"
      "registry_rows W env (md_Name d) regURL (package_of d) = Inr rows" "plain_req (md_VersionReq d)"
    and ex: "list_ex (\<lambda>row. case ParseVersion (rv_Version row) of Inl _ \<Rightarrow> False
      | Inr v \<Rightarrow> plain_version v \<and> Match req v \<and> fetchRegistryCandidate W env (md_Name d) (package_of d) (md_Registry d)
          \<lparr>cand_Version = v, cand_Meta = row\<rparr> = Inr f) rows"
    using assms by (auto simp: offers_def split: option.splits sum.splits)
  obtain row v where row: "row \<in> set rows" "ParseVersion (rv_Version row) = Inr v" "plain_version v" "Match req v"
      "fetchRegistryCandidate W env (md_Name d) (package_of d) (md_Registry d) \<lparr>cand_Version = v, cand_Meta = row\<rparr> = Inr f"
  proof -
    obtain row where "row \<in> set rows" and e: "case ParseVersion (rv_Version row) of Inl _ \<Rightarrow> False
      | Inr v \<Rightarrow> plain_version v \<and> Match req v \<and> fetchRegistryCandidate W env (md_Name d) (package_of d) (md_Registry d)
          \<lparr>cand_Version = v, cand_Meta = row\<rparr> = Inr f"
      using ex unfolding list_ex_iff by blast
    then show thesis using that by (cases "ParseVersion (rv_Version row)") auto
  qed
  let ?c = "\<lparr>cand_Version = v, cand_Meta = row\<rparr>"
  have "?c \<in> set (parsed_candidates rows)" using row(1,2) unfolding parsed_candidates_def map_filter_def
    by (auto intro!: image_eqI [of _ _ row])
  then have mem: "?c \<in> set (ranked_candidates (md_Name d) (package_of d) (md_VersionReq d) (md_Registry d) req (parsed_candidates rows))"
    using ranked_complete [of ?c rows _ req "package_of d" "md_Name d"] rows_not_yanked [OF r(4)] r(3,5) row(3,4) by (simp add: package_of_def)
  moreover have "candidateRegistryVersions W env (md_Name d) (package_of d) (md_VersionReq d) (md_Registry d) =
      Inr (ranked_candidates (md_Name d) (package_of d) (md_VersionReq d) (md_Registry d) req (parsed_candidates rows))"
    using r mem by (auto simp: candidateRegistryVersions_def Let_def)
  ultimately show thesis using that row(4,5) r(3) ParseVersion_exact(2) [OF row(2)] by simp
qed

text \<open>And every candidate comes from its source.\<close>

lemma candidates_fetched:
  assumes "resolveCandidates W env lock src name = Inr cands" "(csrc, Inr f) \<in> set cands"
  shows "fetched_from W env csrc f"
proof (cases src)
  case (registrySource sname pkg raw reg)
  obtain cs c where c: "candidateRegistryVersions W env sname pkg raw reg = Inr cs" "c \<in> set cs"
      "csrc = registrySource sname pkg (CHR ''='' # Version_String (cand_Version c)) reg" "fetchRegistryCandidate W env sname pkg reg c = Inr f"
    using assms registrySource by (auto split: sum.splits)
  obtain regURL req rows where r: "Registries env reg = Some regURL" "registry_rows W env sname regURL pkg = Inr rows"
      "cs = ranked_candidates sname pkg raw reg req (parsed_candidates rows)"
    using candidates_from [OF c(1)] by metis
  have "ParseVersion (rv_Version (cand_Meta c)) = Inr (cand_Version c)" "cand_Meta c \<in> set rows"
    using parsed_candidates_parse ranked_sub c(2) r(3) by blast+
  moreover have "fetchRegistryCandidate W env sname pkg reg \<lparr>cand_Version = cand_Version c, cand_Meta = cand_Meta c\<rparr> = Inr f"
    using c(4) by (cases c) simp
  ultimately show ?thesis using c(3,4) r rows_not_yanked [OF r(2)]
    by (auto simp: fetched_from_def list_ex_iff intro!: bexI [of _ "cand_Meta c"])
qed (use assms in \<open>auto simp: fetched_from_def\<close>)

end
