(* ===== verification/Pkg_Sound.thy ===== *)
theory Pkg_Sound
  imports Pkg_Candidates
begin

text \<open>
  What a resolved graph is: every dependency of the root and of its packages is served by a node that suits it, and every node
  holds what its source answers. And what the search finds: if there is a solution, a graph. Both are said with the predicates
  of \<open>Pkg_Candidates\<close>, not with the resolver's own checks.
\<close>

section \<open>Every dependency is served\<close>

definition serves :: "Env \<Rightarrow> Graph \<Rightarrow> ManifestDependency \<Rightarrow> string \<Rightarrow> bool" where
  "serves env g d dir \<longleftrightarrow>
     (case node_of g (md_Name d) of None \<Rightarrow> False | Some m \<Rightarrow> suits env (rn_Source m) (rn_Fetched m) d dir)"

lemma serves_compatible:
  "node_of g (md_Name d) = Some m \<Longrightarrow> newSourceFromDir d dir = Inr src \<Longrightarrow> ensureCompatible env m src (md_Name d) = None \<Longrightarrow> serves env g d dir"
  using compatible_suits by (simp add: serves_def)

text \<open>Requirements and versions on which the two semver implementations agree, in the root manifest and the resolved packages.\<close>

definition plain_text :: "string \<Rightarrow> bool" where
  "plain_text s \<longleftrightarrow> (case ParseVersion s of Inl _ \<Rightarrow> True | Inr v \<Rightarrow> plain_version v)"

definition plain_graph :: "Graph \<Rightarrow> bool" where
  "plain_graph g \<longleftrightarrow> list_all (\<lambda>d. plain_req (md_VersionReq d)) (man_Dependencies (gr_Root g) @ man_DevDependencies (gr_Root g)) \<and>
     list_all (\<lambda>n. plain_text (fp_Version (rn_Fetched n)) \<and> list_all (\<lambda>d. plain_req (md_VersionReq d)) (deps_of n)) (gr_Nodes g)"

lemma own_compatible:
  assumes "resolveCandidates W env lock src (md_Name d) = Inr cands" "(csrc, Inr f) \<in> set cands" "newSourceFromDir d dir = Inr src"
    and "plain_req (md_VersionReq d)" "plain_text (fp_Version f)" "rn_Source m = csrc" "rn_Fetched m = f"
  shows "ensureCompatible env m src (md_Name d) = None"
proof (cases src)
  case (pathSource name path baseDir)
  then show ?thesis using assms by (auto simp: ensureCompatible_def)
next
  case (gitSource name url tag branch rev0)
  then show ?thesis using assms by (auto simp: ensureCompatible_def)
next
  case (registrySource name pkg raw reg)
  have raw: "raw = md_VersionReq d" using assms(3) registrySource by (auto simp: newSourceFromDir_def split: if_splits option.splits)
  obtain cs c where cs: "candidateRegistryVersions W env name pkg raw reg = Inr cs" "c \<in> set cs"
      "csrc = registrySource name pkg (CHR ''='' # Version_String (cand_Version c)) reg" "fetchRegistryCandidate W env name pkg reg c = Inr f"
    using assms(1,2) registrySource by (auto split: sum.splits)
  obtain req vs where v: "c \<in> set (parsed_candidates vs)" using candidates_from [OF cs(1)] cs(2) ranked_sub by metis
  have valid: "valid_version (cand_Version c)" using parsed_candidates_parse [OF v] ParseVersion_exact(2) by blast
  then have parse: "ParseVersion (fp_Version f) = Inr (cand_Version c)"
    using registry_fetched(2) [OF cs(4)] ParseVersion_prints by simp
  then have "\<exists>req. ParseReq raw = Inr req \<and> Match req (cand_Version c)"
    using candidate_ok [OF cs(1,2)] assms(4,5) raw by (simp add: plain_text_def)
  then show ?thesis using registrySource cs(3) assms(6,7) parse by (auto simp: ensureCompatible_def)
qed

text \<open>What a run adds up to: its requests are served in the final graph, and so are the dependencies of the nodes it adds.\<close>

definition linked :: "Graph \<Rightarrow> string \<Rightarrow> string \<Rightarrow> bool" where
  "linked g u d \<longleftrightarrow> (\<forall>n. node_of g u = Some n \<longrightarrow> u \<noteq> [] \<longrightarrow> d \<noteq> [] \<longrightarrow> d \<in> set (rn_Deps n))"

definition request_met :: "Env \<Rightarrow> Graph \<Rightarrow> resolveRequest \<Rightarrow> bool" where
  "request_met env g r \<longleftrightarrow> serves env g (rq_dep r) (rq_baseDir r) \<and> linked g (rq_parent r) (md_Name (rq_dep r))"

definition node_met :: "Env \<Rightarrow> Graph \<Rightarrow> ResolvedNode \<Rightarrow> bool" where
  "node_met env g n \<longleftrightarrow> (\<forall>d \<in> set (deps_of n). serves env g d (dir_of n) \<and> linked g (rn_Name n) (md_Name d))"

lemma serves_extends:
  assumes "extends g g'" "serves env g d dir"
  shows "serves env g' d dir"
proof -
  obtain m where m: "node_of g (md_Name d) = Some m" "suits env (rn_Source m) (rn_Fetched m) d dir"
    using assms(2) by (auto simp: serves_def split: option.splits)
  obtain m' where "node_of g' (md_Name d) = Some m'" "rn_Source m' = rn_Source m" "rn_Fetched m' = rn_Fetched m"
    using extendsD [OF assms(1) m(1)] by metis
  then show ?thesis using m(2) by (simp add: serves_def)
qed

lemma linked_extends:
  assumes "extends g g'" "node_of g u = Some n" "u \<noteq> [] \<Longrightarrow> d \<noteq> [] \<Longrightarrow> d \<in> set (rn_Deps n)"
  shows "linked g' u d"
  using extendsD [OF assms(1,2)] assms(3) unfolding linked_def by (metis option.inject subsetD)

lemma step_links:
  assumes "resolve_step W env lock (g, req # rest) (g', p')" "node_of g (rq_parent req) \<noteq> None \<or> rq_parent req = []" "extends g' g''"
  shows "linked g'' (rq_parent req) (md_Name (rq_dep req))"
proof (cases "rq_parent req = []")
  case False
  then obtain n where n: "node_of g (rq_parent req) = Some n" using assms(2) by blast
  then have "rn_Name n = rq_parent req" using node_of_Some by blast
  have "\<exists>n'. node_of g' (rq_parent req) = Some n' \<and> (md_Name (rq_dep req) \<noteq> [] \<longrightarrow> md_Name (rq_dep req) \<in> set (rn_Deps n'))"
    using assms(1)
  proof (cases rule: resolve_step_Cons)
    case (reuse src existing)
    then show ?thesis using n False \<open>rn_Name n = rq_parent req\<close> by (simp add: node_of_addDepEdge)
  next
    case (choose src cands csrc fetched)
    then show ?thesis using n False \<open>rn_Name n = rq_parent req\<close> by (simp add: node_of_add_node)
  qed
  then show ?thesis using linked_extends [OF assms(3)] by blast
qed (simp add: linked_def)

lemma run_meets:
  assumes "resolve_run W env lock (g, p) (g', [])" "parents_known g p" "plain_graph g'" "distinct (names_of g')"
    and "list_all (\<lambda>r. plain_req (md_VersionReq (rq_dep r))) p"
  shows "(\<forall>r \<in> set p. request_met env g' r) \<and> (\<forall>n \<in> set (gr_Nodes g'). rn_Name n \<notin> set (names_of g) \<longrightarrow> node_met env g' n)"
  using assms(1,2,5)
proof (induction "(g, p)" arbitrary: g p rule: converse_rtranclp_induct)
  case base
  then show ?case by (auto simp: image_iff)
next
  case (step s)
  obtain g1 p1 where s: "s = (g1, p1)" by (cases s)
  obtain req rest where p: "p = req # rest" using step.hyps(1) by (cases rule: resolve_step.cases) auto
  let ?name = "md_Name (rq_dep req)"
  note st = step.hyps(1) [unfolded s p]
  have known: "parents_known g1 p1" using step_parents st step.prems(1) p by blast
  have ext: "extends g1 g'" "extends g g'"
    using run_extends step.hyps(2) s step_extends [OF st] extends_trans by blast+
  have "node_of g (rq_parent req) \<noteq> None \<or> rq_parent req = []" using step.prems(1) p by (auto simp: parents_known_def)
  then have link: "linked g' (rq_parent req) ?name" using step_links [OF st _ ext(1)] by blast
  from st show ?case
  proof (cases rule: resolve_step_Cons)
    case (reuse src existing)
    have "serves env g' (rq_dep req) (rq_baseDir req)" using serves_extends [OF ext(2) serves_compatible [OF reuse(3,2,4)]] .
    moreover have "(\<forall>r \<in> set rest. request_met env g' r) \<and> (\<forall>n \<in> set (gr_Nodes g'). rn_Name n \<notin> set (names_of g1) \<longrightarrow> node_met env g' n)"
      using step.hyps(3) [OF s known] step.prems(2) p reuse(5) by (simp add: addDepEdge_nodes image_image)
    ultimately show ?thesis using link reuse(5) p by (simp add: request_met_def addDepEdge_nodes image_image)
  next
    case (choose src cands csrc fetched)
    obtain n1 where n1: "node_of g1 ?name = Some n1" "rn_Source n1 = csrc" "rn_Fetched n1 = fetched"
      using choose(3,6) by (auto simp: node_of_add_node new_node_def)
    obtain n' where n': "node_of g' ?name = Some n'" "rn_Source n' = csrc" "rn_Fetched n' = fetched"
      using extendsD [OF ext(1) n1(1)] n1(2,3) by metis
    have plain: "plain_text (fp_Version fetched)" "list_all (\<lambda>d. plain_req (md_VersionReq d)) (man_Dependencies (fp_Manifest fetched))"
      using assms(3) n' node_of_Some [OF n'(1)] by (auto simp: plain_graph_def list_all_iff)
    have "list_all (\<lambda>r. plain_req (md_VersionReq (rq_dep r))) p1"
      using step.prems(2) plain(2) choose(6) by (auto simp: p list_all_iff childRequests_def)
    then have IH: "\<forall>r \<in> set p1. request_met env g' r" "\<forall>n \<in> set (gr_Nodes g'). rn_Name n \<notin> set (names_of g1) \<longrightarrow> node_met env g' n"
      using step.hyps(3) [OF s known] by blast+
    have "ensureCompatible env n' src ?name = None"
      using own_compatible [OF choose(4,5,2) _ plain(1) n'(2,3)] step.prems(2) p by simp
    then have met: "request_met env g' req" using link serves_compatible [OF n'(1) choose(2)] by (simp add: request_met_def)
    have "node_met env g' n'" unfolding node_met_def
    proof
      fix d assume "d \<in> set (deps_of n')"
      then have "\<lparr>rq_dep = d, rq_baseDir = dir_of n', rq_parent = ?name, rq_ancestors = ?name # rq_ancestors req\<rparr> \<in> set p1"
        using n'(3) choose(6) by (simp add: childRequests_def)
      then show "serves env g' d (dir_of n') \<and> linked g' (rn_Name n') (md_Name d)"
        using IH(1) node_of_Some [OF n'(1)] unfolding request_met_def by fastforce
    qed
    then have "node_met env g' n" if "n \<in> set (gr_Nodes g')" "rn_Name n = ?name" for n
      using node_of_member [OF that(1) assms(4)] that(2) n'(1) by simp
    then show ?thesis using IH met choose(6) p by (auto simp: add_node_nodes image_image new_node_def)
  qed
qed

section \<open>Resolved graphs\<close>

text \<open>A graph that closes the manifest's dependencies: each dependency of the root and of a node is served, each node holds what its source
  answers, and the edges of a node are the dependencies of its manifest. Edges are not kept for empty names.\<close>

definition closed_graph :: "World \<Rightarrow> Env \<Rightarrow> Graph \<Rightarrow> bool" where
  "closed_graph W env g \<longleftrightarrow>
     list_all (\<lambda>d. serves env g d (manifestBaseDir (gr_Root g) (ProjectRoot env))) (man_Dependencies (gr_Root g) @ man_DevDependencies (gr_Root g)) \<and>
     list_all (\<lambda>n. fetched_from W env (rn_Source n) (rn_Fetched n) \<and> list_all (\<lambda>d. serves env g d (dir_of n)) (deps_of n) \<and>
       (rn_Name n \<noteq> [] \<longrightarrow> set (rn_Deps n) = md_Name ` set (deps_of n) - {[]})) (gr_Nodes g)"

lemma addDepEdge_root [simp]: "gr_Root (addDepEdge g p c) = gr_Root g"
  by (simp add: addDepEdge_def)

lemma run_root: "resolve_run W env lock (g, p) (g', p') \<Longrightarrow> gr_Root g' = gr_Root g"
proof (induction "(g, p)" arbitrary: g p rule: converse_rtranclp_induct)
  case (step s)
  obtain g1 p1 where "s = (g1, p1)" by (cases s)
  then show ?case using step by (auto elim!: resolve_step.cases simp: add_node_def Let_def)
qed simp

text \<open>Every node is added with a candidate, which is what its source answers; an edge changes neither.\<close>

lemma run_fetched:
  "resolve_run W env lock (g, p) (g', p') \<Longrightarrow> \<forall>n \<in> set (gr_Nodes g). fetched_from W env (rn_Source n) (rn_Fetched n) \<Longrightarrow>
    \<forall>n \<in> set (gr_Nodes g'). fetched_from W env (rn_Source n) (rn_Fetched n)"
proof (induction "(g, p)" arbitrary: g p rule: converse_rtranclp_induct)
  case (step s)
  obtain g1 p1 where s: "s = (g1, p1)" by (cases s)
  obtain req rest where p: "p = req # rest" using step.hyps(1) by (cases rule: resolve_step.cases) auto
  have "\<forall>n \<in> set (gr_Nodes g1). fetched_from W env (rn_Source n) (rn_Fetched n)"
    using step.hyps(1) [unfolded s p]
  proof (cases rule: resolve_step_Cons)
    case (reuse src existing)
    then show ?thesis using step.prems by (auto simp: addDepEdge_nodes)
  next
    case (choose src cands csrc fetched)
    then show ?thesis using step.prems candidates_fetched [OF choose(4,5)] by (auto simp: add_node_nodes addDepEdge_nodes new_node_def)
  qed
  then show ?case using step.hyps(3) s by blast
qed simp

lemma solve_closed:
  assumes "solve n W env lock (empty_graph root) (root_requests root (manifestBaseDir root (ProjectRoot env))) = Some (Inr g)" "plain_graph g"
  shows "closed_graph W env g"
proof -
  let ?p = "root_requests root (manifestBaseDir root (ProjectRoot env))"
  note run = solve_run [OF assms(1)]
  have root: "gr_Root g = root" using run_root [OF run] by (simp add: empty_graph_def)
  have wf: "distinct (names_of g)" "edges_declared g" using solve_wf [OF assms(1)] by (auto simp: resolve_wf_def ordered_by_def)
  have known: "parents_known (empty_graph root) ?p" using resolve_wf_start by (auto simp: resolve_wf_def)
  have "list_all (\<lambda>r. plain_req (md_VersionReq (rq_dep r))) ?p"
    using assms(2) root by (auto simp: plain_graph_def root_requests_def list_all_iff)
  then have met: "\<forall>r \<in> set ?p. request_met env g r" "\<forall>n \<in> set (gr_Nodes g). node_met env g n"
    using run_meets [OF run known assms(2) wf(1)] by (auto simp: empty_graph_def)
  have "md_Name ` set (deps_of n) - {[]} \<subseteq> set (rn_Deps n)" if "n \<in> set (gr_Nodes g)" "rn_Name n \<noteq> []" for n
    using that met(2) node_of_member [OF that(1) wf(1)] by (auto simp: node_met_def linked_def)
  then have "rn_Name n \<noteq> [] \<longrightarrow> set (rn_Deps n) = md_Name ` set (deps_of n) - {[]}" if "n \<in> set (gr_Nodes g)" for n
    using that wf(2) unfolding edges_declared_def by blast
  moreover have "serves env g d (manifestBaseDir root (ProjectRoot env))" if "d \<in> set (man_Dependencies root @ man_DevDependencies root)" for d
    using met(1) [THEN bspec, of "\<lparr>rq_dep = d, rq_baseDir = manifestBaseDir root (ProjectRoot env), rq_parent = [], rq_ancestors = []\<rparr>"] that
    by (simp add: root_requests_def request_met_def) blast
  moreover have "\<forall>n \<in> set (gr_Nodes g). fetched_from W env (rn_Source n) (rn_Fetched n)"
    using run_fetched [OF run] by (simp add: empty_graph_def)
  ultimately show ?thesis using met(2) root by (simp add: closed_graph_def list_all_iff node_met_def)
qed

section \<open>The search finds a solution\<close>

text \<open>What compatibility depends on: where a package comes from, and its version.\<close>

definition source_key :: "Env \<Rightarrow> Source \<Rightarrow> SourceKind \<times> string \<times> string" where
  "source_key env src =
     (case src of pathSource name path baseDir \<Rightarrow> (SourcePath, absPath env path baseDir, [])
      | gitSource name url tag branch rev0 \<Rightarrow> (SourceGit, selfPkgGitURI url tag branch rev0, [])
      | registrySource name pkg raw reg \<Rightarrow> (SourceRegistry, pkg, reg))"

lemma compatible_key:
  "rn_Fetched m = rn_Fetched m' \<Longrightarrow> source_key env (rn_Source m) = source_key env (rn_Source m') \<Longrightarrow>
    ensureCompatible env m src name = None \<longleftrightarrow> ensureCompatible env m' src name = None"
  by (cases "rn_Source m"; cases "rn_Source m'"; cases src) (simp_all add: source_key_def ensureCompatible_def split: sum.split)

text \<open>A solution gives every name it uses a place and the package fetched from there: for a path or git dependency what its directory or
  repository holds, for a registry dependency a package on offer. The ranks show that it has no cycle. The lock plays no part.\<close>

type_synonym solution = "(string \<times> (SourceKind \<times> string \<times> string) \<times> FetchedPackage) list"

definition solves :: "World \<Rightarrow> Env \<Rightarrow> solution \<Rightarrow> ManifestDependency \<Rightarrow> string \<Rightarrow> bool" where
  "solves W env \<sigma> d dir \<longleftrightarrow>
     (case map_of \<sigma> (md_Name d) of None \<Rightarrow> False
      | Some (key, f) \<Rightarrow>
          if md_Path d \<noteq> []
          then key = (SourcePath, absPath env (md_Path d) dir, []) \<and> pathSource_Fetch W env (md_Name d) (md_Path d) dir = Inr f
          else (case md_Git d of
              Some gs \<Rightarrow> key = (SourceGit, selfPkgGitURI (gs_URL gs) (gs_Tag gs) (gs_Branch gs) (gs_Rev gs), []) \<and>
                gitSource_Fetch W env (md_Name d) (gs_URL gs) (gs_Tag gs) (gs_Branch gs) (gs_Rev gs) = Inr f
            | None \<Rightarrow> md_VersionReq d \<noteq> [] \<and> key = (SourceRegistry, package_of d, md_Registry d) \<and> offers W env d f))"

definition solution_of :: "World \<Rightarrow> Env \<Rightarrow> Manifest \<Rightarrow> solution \<Rightarrow> (string \<Rightarrow> nat) \<Rightarrow> bool" where
  "solution_of W env root \<sigma> rank \<longleftrightarrow>
     list_all (\<lambda>d. solves W env \<sigma> d (manifestBaseDir root (ProjectRoot env))) (man_Dependencies root @ man_DevDependencies root) \<and>
     list_all (\<lambda>(u, k, f). list_all (\<lambda>d. solves W env \<sigma> d (manifestBaseDir (fp_Manifest f) (fp_LocalDir f)) \<and> rank (md_Name d) < rank u)
       (man_Dependencies (fp_Manifest f))) \<sigma>"

text \<open>The package of a solution is among the candidates of each dependency on its name, whatever the lock, and passes the code's check.\<close>

lemma solvesE:
  assumes "solves W env \<sigma> d dir"
  obtains src cands csrc f where "newSourceFromDir d dir = Inr src" "resolveCandidates W env lock src (md_Name d) = Inr cands"
    "(csrc, Inr f) \<in> set cands" "map_of \<sigma> (md_Name d) = Some (source_key env csrc, f)"
    "ensureCompatible env \<lparr>rn_Name = md_Name d, rn_Source = csrc, rn_Fetched = f, rn_Deps = []\<rparr> src (md_Name d) = None"
proof -
  obtain key f where m: "map_of \<sigma> (md_Name d) = Some (key, f)" using assms by (auto simp: solves_def split: option.splits)
  consider (path) "md_Path d \<noteq> []" | (git) gs where "md_Path d = []" "md_Git d = Some gs" | (registry) "md_Path d = []" "md_Git d = None"
    by fastforce
  then show thesis
  proof cases
    case path
    then show thesis using assms m
      by (intro that [of "pathSource (md_Name d) (md_Path d) dir"])
        (auto simp: solves_def source_of_dependency source_key_def ensureCompatible_def)
  next
    case git
    then show thesis using assms m
      by (intro that [of "gitSource (md_Name d) (gs_URL gs) (gs_Tag gs) (gs_Branch gs) (gs_Rev gs)"])
        (auto simp: solves_def source_of_dependency source_key_def ensureCompatible_def)
  next
    case registry
    let ?src = "registrySource (md_Name d) (package_of d) (md_VersionReq d) (md_Registry d)"
    have d: "newSourceFromDir d dir = Inr ?src" "key = (SourceRegistry, package_of d, md_Registry d)" "offers W env d f"
      using assms m registry by (auto simp: solves_def source_of_dependency)
    obtain cs c req where c: "candidateRegistryVersions W env (md_Name d) (package_of d) (md_VersionReq d) (md_Registry d) = Inr cs"
        "c \<in> set cs" "fetchRegistryCandidate W env (md_Name d) (package_of d) (md_Registry d) c = Inr f"
        "ParseReq (md_VersionReq d) = Inr req" "Match req (cand_Version c)" "valid_version (cand_Version c)"
      using offered_candidate [OF d(3)] by metis
    let ?csrc = "registrySource (md_Name d) (package_of d) (CHR ''='' # Version_String (cand_Version c)) (md_Registry d)"
    have "ParseVersion (fp_Version f) = Inr (cand_Version c)" using registry_fetched(2) [OF c(3)] ParseVersion_prints [OF c(6)] by simp
    then have "ensureCompatible env \<lparr>rn_Name = md_Name d, rn_Source = ?csrc, rn_Fetched = f, rn_Deps = []\<rparr> ?src (md_Name d) = None"
      using c(4,5) by (simp add: ensureCompatible_def)
    moreover have "(?csrc, Inr f) \<in> (\<lambda>c. (registrySource (md_Name d) (package_of d) (CHR ''='' # Version_String (cand_Version c)) (md_Registry d),
        fetchRegistryCandidate W env (md_Name d) (package_of d) (md_Registry d) c)) ` set cs"
      using c(2,3) by (intro image_eqI [of _ _ c]) simp_all
    ultimately show thesis using that [OF d(1), of _ ?csrc f] c(1) m d(2) by (simp add: source_key_def)
  qed
qed

definition follows :: "Env \<Rightarrow> solution \<Rightarrow> Graph \<Rightarrow> bool" where
  "follows env \<sigma> g \<longleftrightarrow> (\<forall>u n. node_of g u = Some n \<longrightarrow> map_of \<sigma> u = Some (source_key env (rn_Source n), rn_Fetched n))"

lemma follows_add:
  assumes "follows env \<sigma> g"
  shows "follows env \<sigma> (addDepEdge g p c)"
    and "map_of \<sigma> (md_Name (rq_dep req)) = Some (source_key env csrc, f) \<Longrightarrow> follows env \<sigma> (add_node g req csrc f)"
  using assms unfolding follows_def
  by (auto simp: node_of_addDepEdge node_of_add_node new_node_def split: option.splits if_splits)

lemma solve_finds:
  assumes "solution_of W env root \<sigma> rank"
  shows "follows env \<sigma> g \<Longrightarrow>
    (\<And>r. r \<in> set pending \<Longrightarrow> solves W env \<sigma> (rq_dep r) (rq_baseDir r) \<and> (\<forall>a \<in> set (rq_ancestors r). rank (md_Name (rq_dep r)) < rank a)) \<Longrightarrow>
    solve n W env lock g pending \<noteq> Some (Inl e)"
proof (induction n arbitrary: g pending e)
  case (Suc n)
  show ?case
  proof (cases pending)
    case (Cons req rest)
    let ?name = "md_Name (rq_dep req)"
    obtain src cands csrc f where s: "newSourceFromDir (rq_dep req) (rq_baseDir req) = Inr src"
        "resolveCandidates W env lock src ?name = Inr cands" "(csrc, Inr f) \<in> set cands" "map_of \<sigma> ?name = Some (source_key env csrc, f)"
        "ensureCompatible env \<lparr>rn_Name = ?name, rn_Source = csrc, rn_Fetched = f, rn_Deps = []\<rparr> src ?name = None"
      using Suc.prems(2) [of req] Cons solvesE [of W env \<sigma> "rq_dep req" "rq_baseDir req" lock] by (metis list.set_intros(1))
    have fresh: "?name \<notin> set (rq_ancestors req)" using Suc.prems(2) [of req] Cons by auto
    have rest: "solves W env \<sigma> (rq_dep r) (rq_baseDir r) \<and> (\<forall>a \<in> set (rq_ancestors r). rank (md_Name (rq_dep r)) < rank a)"
      if "r \<in> set rest" for r using that Suc.prems(2) Cons by simp
    show ?thesis
    proof (cases "node_of g ?name")
      case (Some existing)
      then have "ensureCompatible env existing src ?name = None"
        using Suc.prems(1) s(4,5) compatible_key [of existing "\<lparr>rn_Name = ?name, rn_Source = csrc, rn_Fetched = f, rn_Deps = []\<rparr>"]
        by (auto simp: follows_def)
      moreover have "solve n W env lock (addDepEdge g (rq_parent req) ?name) rest \<noteq> Some (Inl e)"
        using rest by (intro Suc.IH follows_add(1) Suc.prems(1))
      ultimately show ?thesis using Cons fresh s(1) Some by (simp add: Let_def)
    next
      case None
      have "solve n W env lock (add_node g req csrc f) (childRequests req ?name f @ rest) \<noteq> Some (Inl e')" for e'
      proof (rule Suc.IH)
        show "follows env \<sigma> (add_node g req csrc f)" using follows_add(2) [OF Suc.prems(1) s(4)] .
        have kids: "solves W env \<sigma> d (manifestBaseDir (fp_Manifest f) (fp_LocalDir f)) \<and> rank (md_Name d) < rank ?name"
          if "d \<in> set (man_Dependencies (fp_Manifest f))" for d using that assms map_of_SomeD [OF s(4)] by (auto simp: solution_of_def list_all_iff)
        have up: "\<forall>a \<in> set (rq_ancestors req). rank ?name < rank a" using Suc.prems(2) [of req] Cons by simp
        fix r assume "r \<in> set (childRequests req ?name f @ rest)"
        then show "solves W env \<sigma> (rq_dep r) (rq_baseDir r) \<and> (\<forall>a \<in> set (rq_ancestors r). rank (md_Name (rq_dep r)) < rank a)"
          using rest [of r] kids up by (fastforce simp: childRequests_def dest: less_trans)
      qed
      moreover have "\<exists>e'. solve n W env lock (add_node g req csrc f) (childRequests req ?name f @ rest) = Some (Inl e')"
        if "solve (Suc n) W env lock g pending = Some (Inl e)"
      proof -
        from that have "try_candidates (\<lambda>(csrc, answer). case answer of Inl e \<Rightarrow> Some (Inl (Resolving ?name e))
          | Inr fetched \<Rightarrow> solve n W env lock (add_node g req csrc fetched) (childRequests req ?name fetched @ rest))
          (NoCandidates ?name) None cands = Some (Inl e)"
          using Cons fresh s(1,2) None by (simp add: Let_def)
        from try_Inl [OF this s(3)] show ?thesis by simp
      qed
      ultimately show ?thesis by blast
    qed
  qed simp
qed simp

end
