(* ===== verification/Pkg_Locked.thy ===== *)
theory Pkg_Locked
  imports Pkg_Sound
begin

text \<open>
  What the lock file is for: a version that the lock pins, and that a requirement still allows, is the first candidate
  (\<^verbatim>\<open>prioritizeLockedRegistryCandidate\<close>), so a resolution keeps to the lock's versions whatever else the registry offers. And what
  the difference of two locks tells.
\<close>

section \<open>The pinned candidate\<close>

lemma lock_list_from:
  "golegacy_lock_list ps = Inr qs \<Longrightarrow> q \<in> set qs \<Longrightarrow> \<exists>p \<in> set ps. slp_name q = pkg_Name p \<and> golegacyVersionFromString (pkg_Version p) = Inr (slp_version q)"
  by (induction ps arbitrary: qs) (auto split: sum.splits)

text \<open>A decision taken from the lock is a candidate of the precedence of the locked package.\<close>

lemma select_locked:
  assumes "GolegacySelectRegistryCandidate name pkg reg raw cands (Some l) = Some decision" "srd_fromLock decision"
  shows "\<exists>c v p w. c \<in> set cands \<and> golegacyVersionFromString (grc_Version c) = Inr v \<and> srd_version decision = v \<and>
    p \<in> set (FindByName l name) \<and> golegacyVersionFromString (pkg_Version p) = Inr w \<and> compareSemVersion v w = 0"
proof -
  obtain req qs cvs where d: "golegacy_lock_list (Packages l) = Inr qs" "golegacy_candidates cands = Inr cvs"
      "decision = selfPkgSelectRegistryCandidate (selfPkgRegistryDependencyAs name pkg reg req) (map (\<lambda>(c, v). candidate_of c v) cvs) qs"
    using assms(1) by (auto simp: GolegacySelectRegistryCandidate_def golegacyLockPackages_def split: sum.splits)
  let ?dep = "selfPkgRegistryDependencyAs name pkg reg req"
  obtain q c where q: "selfPkgFindCompatibleLockedPackage ?dep qs = Some q"
      "find (\<lambda>c. selfPkgCandidateMatches ?dep c \<and> compareSemVersion (sc_version c) (slp_version q) = 0) (map (\<lambda>(c, v). candidate_of c v) cvs) = Some c"
    using assms(2) d(3) unfolding selfPkgSelectRegistryCandidate_def
    by (auto simp: decision_for_def split: option.splits)
  then have dv: "srd_version decision = sc_version c" using d(3) by (simp add: selfPkgSelectRegistryCandidate_def decision_for_def)
  have "q \<in> set qs" "slp_name q = name"
    using q(1) by (auto simp: selfPkgFindCompatibleLockedPackage_def find_Some_iff selfPkgRegistryDependencyAs_def)
  then obtain p where "p \<in> set (FindByName l name)" "golegacyVersionFromString (pkg_Version p) = Inr (slp_version q)"
    using lock_list_from [OF d(1), of q] by (fastforce simp: FindByName_def)
  moreover have "c \<in> set (map (\<lambda>(c, v). candidate_of c v) cvs)" "compareSemVersion (sc_version c) (slp_version q) = 0"
    using q(2) by (auto simp: find_Some_iff)
  moreover from this(1) obtain c' where "(c', sc_version c) \<in> set cvs" by (auto simp: candidate_of_def)
  ultimately show ?thesis using dv golegacy_candidates_sub [OF d(2)] by blast
qed

text \<open>Candidates whose versions the two semver implementations read alike, of distinct precedence. A ranking of them is again such.\<close>

definition rankable :: "registryCandidate list \<Rightarrow> bool" where
  "rankable cands \<longleftrightarrow> list_all (\<lambda>c. valid_version (cand_Version c) \<and> plain_version (cand_Version c)) cands \<and>
     distinct (map (\<lambda>c. version_key (cand_Version c)) cands)"

lemma golegacy_order_distinct:
  "distinct (map f cands) \<Longrightarrow> distinct (map f (registryCandidatesInGolegacyOrder cands rs))"
proof (induction rs arbitrary: cands)
  case (Cons r rs)
  show ?case
  proof (cases "List.extract (\<lambda>c. rv_Version (cand_Meta c) = grc_Version r) cands")
    case None
    then show ?thesis using Cons by simp
  next
    case (Some x)
    obtain us d vs where x: "x = (us, d, vs)" by (cases x)
    then have "cands = us @ d # vs" using Some by (simp add: extract_Some_iff)
    then show ?thesis using Cons Some x golegacy_order_sub [of _ "us @ vs" rs] by auto
  qed
qed simp

lemma rankable_ranked: "rankable cands \<Longrightarrow> rankable (ranked_candidates name pkg raw reg req cands)"
  unfolding rankable_def ranked_candidates_def
  by (auto simp: list_all_iff golegacy_order_distinct distinct_map_filter split: sum.split dest: golegacy_order_sub
    intro: mset_eq_imp_distinct_iff [THEN iffD1, OF arg_cong [OF SliceStable_mset, THEN sym, of "image_mset _", folded mset_map]])

lemma prioritize_first:
  assumes "rankable cands" "c \<in> set cands" "Equal (cand_Version c) v"
  shows "\<exists>rest. prioritizeRegistryCandidate cands v = c # rest"
proof -
  have "List.extract (\<lambda>c. Equal (cand_Version c) v) cands \<noteq> None" using assms(2,3) by (auto simp: extract_None_iff)
  then obtain us d vs where x: "List.extract (\<lambda>c. Equal (cand_Version c) v) cands = Some (us, d, vs)" by (metis not_None_eq prod_cases3)
  have "version_key (cand_Version d) = version_key (cand_Version c)" "d \<in> set cands"
    using extract_set [OF x] assms(3) by (auto simp: Equal_def version.cmp_zero)
  then have "d = c" using assms(1,2) by (auto simp: rankable_def distinct_map inj_on_def)
  then show ?thesis using x by (simp add: prioritizeRegistryCandidate_def)
qed

lemma locked_first:
  assumes "FindByName l name = [p]" "pkg_Source p = GolegacyRegistrySourceURI reg" "ParseVersion (pkg_Version p) = Inr v" "plain_version v"
    and "ParseReq raw = Inr req" "Match req v" "rankable cands" "c \<in> set cands" "cand_Version c = v"
  shows "\<exists>rest. prioritizeLockedRegistryCandidate (Some l) name pkg reg raw cands = c # rest"
proof (cases "golegacyLockedRegistryVersion (Some l) name pkg reg raw cands")
  case None
  have "lockedRegistryVersion (Some l) name reg raw = Some v" using assms(1-3,5,6) by (simp add: lockedRegistryVersion_def)
  moreover have "Equal (cand_Version c) v" using assms(9) by (simp add: Equal_def version.cmp_zero)
  ultimately show ?thesis using None prioritize_first [OF assms(7,8)] by (simp add: prioritizeLockedRegistryCandidate_def)
next
  case (Some pinned)
  let ?gc = "map (\<lambda>c. golegacy_view pkg (Version_String (cand_Version c)) (cand_Meta c)) cands"
  obtain decision where d: "GolegacySelectRegistryCandidate name pkg reg raw ?gc (Some l) = Some decision" "srd_fromLock decision"
      "ParseVersion (semVersionText (srd_version decision)) = Inr pinned"
    using Some by (auto simp: golegacyLockedRegistryVersion_def split: option.splits if_splits sum.splits)
  obtain r g w where r: "r \<in> set ?gc" "golegacyVersionFromString (grc_Version r) = Inr g" "srd_version decision = g"
      "golegacyVersionFromString (pkg_Version p) = Inr w" "compareSemVersion g w = 0"
    using select_locked [OF d(1,2)] assms(1) by auto
  obtain c0 where c0: "c0 \<in> set cands" "grc_Version r = Version_String (cand_Version c0)" using r(1) by (auto simp: golegacy_view_def)
  have ok: "valid_version (cand_Version c0)" "plain_version (cand_Version c0)" using assms(7) c0(1) by (auto simp: rankable_def list_all_iff)
  have g: "golegacyVersion (cand_Version c0) = Inr g" using r(2) c0(2) ParseVersion_prints [OF ok(1)] by (simp add: golegacyVersionFromString_def)
  have w: "golegacyVersion v = Inr w" "valid_version v"
    using r(4) assms(3) ParseVersion_exact(2) by (auto simp: golegacyVersionFromString_def)
  have "pinned = cand_Version c0" using d(3) r(3) text_plain [OF g ok] ParseVersion_prints [OF ok(1)] by simp
  moreover have "Compare (cand_Version c0) v = 0" using compare_plain [OF g ok w assms(4)] r(5) by simp
  ultimately have "Equal (cand_Version c) pinned" using assms(9) by (simp add: Equal_def version.cmp_zero)
  then show ?thesis using Some prioritize_first [OF assms(7,8)] by (simp add: prioritizeLockedRegistryCandidate_def)
qed

section \<open>Resolution keeps to the lock\<close>

text \<open>The lock pins the version that a solution has for a dependency, and the registry's versions have distinct precedence.\<close>

definition pinned :: "World \<Rightarrow> Env \<Rightarrow> Lock \<Rightarrow> solution \<Rightarrow> ManifestDependency \<Rightarrow> bool" where
  "pinned W env l \<sigma> d \<longleftrightarrow> md_Path d \<noteq> [] \<or> md_Git d \<noteq> None \<or>
     (case (FindByName l (md_Name d), map_of \<sigma> (md_Name d), Registries env (md_Registry d)) of
        ([p], Some (k, f), Some regURL) \<Rightarrow>
          pkg_Source p = GolegacyRegistrySourceURI (md_Registry d) \<and> pkg_Version p = fp_Version f \<and>
          (case registry_rows W env (md_Name d) regURL (package_of d) of Inl _ \<Rightarrow> False | Inr rows \<Rightarrow> rankable (parsed_candidates rows))
      | _ \<Rightarrow> False)"

definition pins :: "World \<Rightarrow> Env \<Rightarrow> Lock \<Rightarrow> Manifest \<Rightarrow> solution \<Rightarrow> bool" where
  "pins W env l root \<sigma> \<longleftrightarrow>
     list_all (pinned W env l \<sigma>) (man_Dependencies root @ man_DevDependencies root) \<and>
     list_all (\<lambda>(u, k, f). list_all (pinned W env l \<sigma>) (man_Dependencies (fp_Manifest f))) \<sigma>"

lemma pinned_registry:
  assumes "candidateRegistryVersions W env name pkg raw reg = Inr cs" "c \<in> set cs" "fetchRegistryCandidate W env name pkg reg c = Inr f"
    and "FindByName l depName = [p]" "pkg_Source p = GolegacyRegistrySourceURI reg" "pkg_Version p = fp_Version f" "rankable cs"
    and "ensureCompatible env m (registrySource name pkg raw reg) depName = None" "rn_Fetched m = f"
    and "rn_Source m = registrySource name pkg raw' reg"
  shows "\<exists>rest. prioritizeLockedRegistryCandidate (Some l) depName pkg reg raw cs = c # rest"
proof -
  have ok: "valid_version (cand_Version c)" "plain_version (cand_Version c)" using assms(2,7) by (auto simp: rankable_def list_all_iff)
  have v: "ParseVersion (fp_Version f) = Inr (cand_Version c)" using registry_fetched(2) [OF assms(3)] ParseVersion_prints [OF ok(1)] by simp
  obtain req where "ParseReq raw = Inr req" "Match req (cand_Version c)"
    using assms(8-10) v by (auto simp: ensureCompatible_def split: sum.splits if_splits)
  then show ?thesis using locked_first [OF assms(4,5)] v ok(2) assms(2,6,7) by simp
qed

lemma pinned_first:
  assumes "solves W env \<sigma> d dir" "pinned W env l \<sigma> d"
  shows "\<exists>src csrc f rest. newSourceFromDir d dir = Inr src \<and> resolveCandidates W env (Some l) src (md_Name d) = Inr ((csrc, Inr f) # rest) \<and>
    map_of \<sigma> (md_Name d) = Some (source_key env csrc, f)"
proof -
  obtain src cands csrc f where s: "newSourceFromDir d dir = Inr src" "resolveCandidates W env (Some l) src (md_Name d) = Inr cands"
      "(csrc, Inr f) \<in> set cands" "map_of \<sigma> (md_Name d) = Some (source_key env csrc, f)"
      "ensureCompatible env \<lparr>rn_Name = md_Name d, rn_Source = csrc, rn_Fetched = f, rn_Deps = []\<rparr> src (md_Name d) = None"
    using solvesE [OF assms(1), of "Some l"] by metis
  have "\<exists>rest. cands = (csrc, Inr f) # rest"
  proof (cases src)
    case (registrySource name pkg raw reg)
    obtain cs c where c: "candidateRegistryVersions W env name pkg raw reg = Inr cs" "c \<in> set cs"
        "csrc = registrySource name pkg (CHR ''='' # Version_String (cand_Version c)) reg" "fetchRegistryCandidate W env name pkg reg c = Inr f"
        "cands = map (\<lambda>c. (registrySource name pkg (CHR ''='' # Version_String (cand_Version c)) reg, fetchRegistryCandidate W env name pkg reg c))
          (prioritizeLockedRegistryCandidate (Some l) (md_Name d) pkg reg raw cs)"
      using s(2,3) registrySource by (auto split: sum.splits)
    have d: "md_Path d = []" "md_Git d = None" "name = md_Name d" "pkg = package_of d" "reg = md_Registry d"
      using s(1) registrySource by (auto simp: source_of_dependency split: if_splits option.splits)
    obtain p regURL rows where p: "FindByName l (md_Name d) = [p]" "pkg_Source p = GolegacyRegistrySourceURI reg" "pkg_Version p = fp_Version f"
        "Registries env reg = Some regURL" "registry_rows W env name regURL pkg = Inr rows" "rankable (parsed_candidates rows)"
      using assms(2) s(4) d by (auto simp: pinned_def split: list.splits option.splits sum.splits)
    have "rankable cs" using candidates_from [OF c(1)] p(4-6) rankable_ranked by (metis option.inject sum.inject(2))
    then obtain rest where "prioritizeLockedRegistryCandidate (Some l) (md_Name d) pkg reg raw cs = c # rest"
      using pinned_registry [OF c(1,2,4) p(1-3) _ s(5) [unfolded registrySource]] c(3) by auto
    then show ?thesis using c(3-5) by simp
  qed (use s(2,3) in auto)
  then show ?thesis using s(1,2,4) by blast
qed

lemma solve_follows:
  assumes "solution_of W env root \<sigma> rank" "pins W env l root \<sigma>"
  shows "follows env \<sigma> g \<Longrightarrow>
    (\<And>r. r \<in> set pending \<Longrightarrow> solves W env \<sigma> (rq_dep r) (rq_baseDir r) \<and> pinned W env l \<sigma> (rq_dep r) \<and>
      (\<forall>a \<in> set (rq_ancestors r). rank (md_Name (rq_dep r)) < rank a)) \<Longrightarrow>
    solve n W env (Some l) g pending = Some (Inr g') \<Longrightarrow> follows env \<sigma> g'"
proof (induction n arbitrary: g pending)
  case (Suc n)
  show ?case
  proof (cases pending)
    case (Cons req rest)
    let ?name = "md_Name (rq_dep req)"
    have req: "solves W env \<sigma> (rq_dep req) (rq_baseDir req)" "pinned W env l \<sigma> (rq_dep req)"
        "\<forall>a \<in> set (rq_ancestors req). rank ?name < rank a" using Suc.prems(2) [of req] Cons by simp_all
    obtain src csrc f cs where s: "newSourceFromDir (rq_dep req) (rq_baseDir req) = Inr src"
        "resolveCandidates W env (Some l) src ?name = Inr ((csrc, Inr f) # cs)" "map_of \<sigma> ?name = Some (source_key env csrc, f)"
      using pinned_first [OF req(1,2)] by blast
    have fresh: "?name \<notin> set (rq_ancestors req)" using req(3) by auto
    show ?thesis
    proof (cases "node_of g ?name")
      case (Some existing)
      then have "solve n W env (Some l) (addDepEdge g (rq_parent req) ?name) rest = Some (Inr g')"
        using Suc.prems(3) Cons fresh s(1) by (auto simp: Let_def split: option.splits)
      then show ?thesis using Suc.prems(2) Cons by (intro Suc.IH [OF follows_add(1) [OF Suc.prems(1)] _ \<open>solve n _ _ _ _ _ = _\<close>]) simp
    next
      case None
      let ?p = "childRequests req ?name f @ rest" and ?g = "add_node g req csrc f"
      have fol: "follows env \<sigma> ?g" using follows_add(2) [OF Suc.prems(1) s(3)] .
      have kids: "solves W env \<sigma> d (manifestBaseDir (fp_Manifest f) (fp_LocalDir f)) \<and>
          pinned W env l \<sigma> d \<and> rank (md_Name d) < rank ?name"
        if "d \<in> set (man_Dependencies (fp_Manifest f))" for d
        using that assms map_of_SomeD [OF s(3)] by (auto simp: solution_of_def pins_def list_all_iff)
      have good: "solves W env \<sigma> (rq_dep r) (rq_baseDir r) \<and> pinned W env l \<sigma> (rq_dep r) \<and>
          (\<forall>a \<in> set (rq_ancestors r). rank (md_Name (rq_dep r)) < rank a)" if "r \<in> set ?p" for r
        using that Suc.prems(2) [of r] Cons kids req(3) by (fastforce simp: childRequests_def dest: less_trans)
      have "solve n W env (Some l) ?g ?p \<noteq> Some (Inl e)" for e
        using solve_finds [OF assms(1) fol] good by blast
      then have "solve n W env (Some l) ?g ?p = Some (Inr g')"
        using Suc.prems(3) Cons fresh s(1,2) None by (auto simp: Let_def split: option.splits sum.splits)
      then show ?thesis using Suc.IH [OF fol good] by blast
    qed
  qed (use Suc.prems in simp)
qed simp

section \<open>Differences of locks\<close>

lemma insert_lock_set [simp]: "set (selfPkgInsertLockPackage ps x) = insert x (set ps)"
  by (induction ps) auto

lemma insert_lock_mset: "mset (selfPkgInsertLockPackage ps x) = add_mset x (mset ps)"
  by (induction ps) auto

lemma sort_lock_mset: "mset (selfPkgSortLockPackages ps) = mset ps"
proof -
  have "mset (foldl selfPkgInsertLockPackage acc ps) = mset acc + mset ps" for acc
    by (induction ps arbitrary: acc) (auto simp: insert_lock_mset)
  then show ?thesis by (simp add: selfPkgSortLockPackages_def)
qed

lemma sort_lock [simp]:
  "set (selfPkgSortLockPackages ps) = set ps" "distinct (map slp_name (selfPkgSortLockPackages ps)) = distinct (map slp_name ps)"
  using sort_lock_mset by (metis set_mset_mset, metis mset_map mset_eq_imp_distinct_iff)

text \<open>Two packages that the comparison takes for the same.\<close>

definition same_package :: "SelfPkgLockPackage \<Rightarrow> SelfPkgLockPackage \<Rightarrow> bool" where
  "same_package p q \<longleftrightarrow> slp_name p = slp_name q \<and> compareSemVersion (slp_version p) (slp_version q) = 0 \<and>
     slp_checksum p = slp_checksum q \<and> slp_source p = slp_source q"

lemma find_locked: "q \<in> set ps \<Longrightarrow> distinct (map slp_name ps) \<Longrightarrow> selfPkgFindLockedPackage (slp_name q) ps = Some q"
  unfolding selfPkgFindLockedPackage_def by (rule find_unique)

lemma old_change_nil:
  assumes "distinct (map slp_name new)"
  shows "old_change new p = [] \<longleftrightarrow> (\<exists>q \<in> set new. same_package p q)"
proof (cases "selfPkgFindLockedPackage (slp_name p) new")
  case None
  then have "slp_name q \<noteq> slp_name p" if "q \<in> set new" for q using that by (auto simp: selfPkgFindLockedPackage_def find_None_iff)
  then show ?thesis using None by (force simp: old_change_def same_package_def)
next
  case (Some q)
  then have q: "q \<in> set new" "slp_name q = slp_name p" by (auto simp: selfPkgFindLockedPackage_def find_Some_iff)
  have "q' = q" if "q' \<in> set new" "same_package p q'" for q'
    using find_locked [OF that(1) assms] that(2) Some by (auto simp: same_package_def)
  moreover have "old_change new p = [] \<longleftrightarrow> same_package p q" using Some q(2) by (simp add: old_change_def same_package_def)
  ultimately show ?thesis using q(1) by blast
qed

lemma new_change_nil: "new_change old q = [] \<longleftrightarrow> slp_name q \<in> slp_name ` set old"
proof -
  have "selfPkgFindLockedPackage (slp_name q) old = None \<longleftrightarrow> slp_name q \<notin> slp_name ` set old"
    by (simp add: selfPkgFindLockedPackage_def find_None_iff image_iff) metis
  then show ?thesis by (auto simp: new_change_def split: option.split)
qed

lemma diff_nil:
  assumes "distinct (map slp_name new)"
  shows "selfPkgDiffLocks old new = [] \<longleftrightarrow> (\<forall>p \<in> set old. \<exists>q \<in> set new. same_package p q) \<and> slp_name ` set new \<subseteq> slp_name ` set old"
  using old_change_nil [OF assms] new_change_nil by (auto simp: selfPkgDiffLocks_def)

lemma SliceStable_nil [simp]: "SliceStable lt xs = [] \<longleftrightarrow> xs = []"
  by (metis SliceStable_set set_empty)

end
