(* ===== verification/Pkg_Properties.thy ===== *)
theory Pkg_Properties
  imports Pkg_Locked
begin

text \<open>The properties of the package manager, on the whole of \<open>Resolve\<close> and of the lock functions.\<close>

section \<open>A project\<close>

text \<open>A project that needs \<open>a\<close> at any \<open>1.x\<close> and the local package \<open>b\<close>, which needs \<open>a\<close> at \<open>1.2.x\<close>; the registry has \<open>a\<close> at
  \<open>1.2.0\<close> and \<open>1.3.0\<close>.\<close>

definition registry_dep :: "string \<Rightarrow> string \<Rightarrow> ManifestDependency" where
  "registry_dep name req = \<lparr>md_Name = name, md_PackageName = [], md_VersionReq = req, md_Path = [], md_Git = None, md_Registry = []\<rparr>"

definition path_dep :: "string \<Rightarrow> string \<Rightarrow> ManifestDependency" where
  "path_dep name path = \<lparr>md_Name = name, md_PackageName = [], md_VersionReq = [], md_Path = path, md_Git = None, md_Registry = []\<rparr>"

definition sample_root :: Manifest where
  "sample_root = \<lparr>man_path = ''/p/osty.toml'', man_Version = ''0.1.0'', man_Dependencies = [registry_dep ''a'' ''^1.0.0'', path_dep ''b'' ''../b''],
     man_DevDependencies = []\<rparr>"

definition sample_b :: Manifest where
  "sample_b = \<lparr>man_path = ''/b/osty.toml'', man_Version = ''0.2.0'', man_Dependencies = [registry_dep ''a'' ''~1.2.0''], man_DevDependencies = []\<rparr>"

definition sample_a :: Manifest where
  "sample_a = \<lparr>man_path = [], man_Version = ''1.0.0'', man_Dependencies = [], man_DevDependencies = []\<rparr>"

definition sample_row :: "string \<Rightarrow> RegistryVersion" where
  "sample_row v = \<lparr>rv_Version = v, rv_Checksum = ''sha256:00'', rv_Yanked = False\<rparr>"

definition sample_world :: World where
  "sample_world =
     \<lparr>w_IsDir = (\<lambda>_. Inr True), w_Manifest = (\<lambda>p. if p = ''/b/osty.toml'' then Inr sample_b else Inr sample_a),
      w_ReadFile = (\<lambda>_. None), w_Clone = (\<lambda>_ _. None), w_RevParse = (\<lambda>_ _. Inr []), w_Snapshot = (\<lambda>_ _. None),
      w_IndexCache = (\<lambda>_ _. Inr None), w_GetIndex = (\<lambda>_ _. Index [sample_row ''1.2.0'', sample_row ''1.3.0'']),
      w_HashTar = (\<lambda>_. None), w_Download = (\<lambda>_ _ _. Inr ''sha256:00''), w_Extract = (\<lambda>_. None)\<rparr>"

definition sample_env :: Env where
  "sample_env = \<lparr>CacheDir = ''/c'', VendorDir = ''/p/.osty/deps'', ProjectRoot = ''/p'',
     Registries = (\<lambda>r. if r = [] then Some ''https://registry.osty.dev'' else None), Offline = False\<rparr>"

text \<open>The solution that the search has to come back to, and a lock that keeps the older \<open>a\<close>.\<close>

definition sample_solution :: solution where
  "sample_solution =
     [(''a'', (SourceRegistry, ''a'', []),
       \<lparr>fp_LocalDir = ''/c/registry/https___registry.osty.dev/a/1.2.0/unpacked'', fp_Manifest = sample_a, fp_Version = ''1.2.0'',
        fp_Checksum = ''sha256:00''\<rparr>),
      (''b'', (SourcePath, ''/b'', []), \<lparr>fp_LocalDir = ''/b'', fp_Manifest = sample_b, fp_Version = ''0.2.0'', fp_Checksum = []\<rparr>)]"

definition sample_rank :: "string \<Rightarrow> nat" where
  "sample_rank u = (if u = ''b'' then 1 else 0)"

definition sample_lock :: Lock where
  "sample_lock = \<lparr>lock_Version = 1, Packages =
     [\<lparr>pkg_Name = ''a'', pkg_Version = ''1.2.0'', pkg_Source = ''registry+default'', pkg_Checksum = ''sha256:00'', pkg_Dependencies = []\<rparr>]\<rparr>"

definition locked_world :: World where
  "locked_world = sample_world\<lparr>w_ReadFile := (\<lambda>p. if p = ''/p/osty.lock'' then Some (Inr (Marshal sample_lock)) else None)\<rparr>"

definition locked_root :: Manifest where
  "locked_root = sample_root\<lparr>man_Dependencies := [registry_dep ''a'' ''^1.0.0'']\<rparr>"

text \<open>A project with a git dependency at the tag \<open>stable\<close>, and a lock that differs from the sample's in what is not compared.\<close>

definition git_root :: Manifest where
  "git_root = sample_root\<lparr>man_Dependencies :=
     [\<lparr>md_Name = ''g'', md_PackageName = [], md_VersionReq = [], md_Path = [],
       md_Git = Some \<lparr>gs_URL = ''https://example.org/g'', gs_Tag = ''stable'', gs_Branch = [], gs_Rev = []\<rparr>, md_Registry = []\<rparr>]\<rparr>"

definition other_lock :: Lock where
  "other_lock = \<lparr>lock_Version = 1, Packages =
     [\<lparr>pkg_Name = ''a'', pkg_Version = ''1.2.0+rebuilt'', pkg_Source = ''registry+default'', pkg_Checksum = ''sha256:00'',
       pkg_Dependencies = [\<lparr>dep_Name = ''c'', dep_Version = ''1.0.0'', dep_Source = []\<rparr>]\<rparr>]\<rparr>"

section \<open>Resolved graphs\<close>

lemma Resolve_cases:
  assumes "Resolve n W (Some root) env = Some (Inr g)"
  obtains lock g0 order where "Lock_Read W (ProjectRoot env) = Inr lock"
    "solve n W env lock (empty_graph root) (root_requests root (manifestBaseDir root (ProjectRoot env))) = Some (Inr g0)"
    "GolegacyTopoOrder g0 = Some order" "g = g0\<lparr>gr_Order := order\<rparr>"
  using assms by (auto simp: Resolve_def split: sum.splits option.splits)

lemma returned: "(case x of Some (Inr g) \<Rightarrow> P g | _ \<Rightarrow> False) \<Longrightarrow> \<exists>g. x = Some (Inr g) \<and> P g"
  by (auto split: option.splits sum.splits)

lemma node_order: "node_of (g\<lparr>gr_Order := x\<rparr>) = node_of g"
  by (simp add: node_of_def fun_eq_iff)

lemma serves_order: "serves env (g\<lparr>gr_Order := x\<rparr>) = serves env g"
  unfolding serves_def fun_eq_iff node_order by simp

lemma order_irrelevant [simp]: "plain_graph (g\<lparr>gr_Order := x\<rparr>) = plain_graph g" "closed_graph W env (g\<lparr>gr_Order := x\<rparr>) = closed_graph W env g"
  by (simp_all add: plain_graph_def closed_graph_def serves_order)

lemma order_of_graph:
  assumes "resolve_wf (g, [])"
  shows "\<exists>order. GolegacyTopoOrder g = Some order \<and> distinct order \<and> set order = set (names_of g) \<and>
    (\<forall>n \<in> set (gr_Nodes g). \<forall>d \<in> set (rn_Deps n). precedes order d (rn_Name n))"
proof (cases "gr_Nodes g = []")
  case True
  then show ?thesis by (simp add: GolegacyTopoOrder_def golegacyGraphNodes_def)
next
  case False
  obtain ord where ord: "ordered_by ord g []" using assms by (auto simp: resolve_wf_def)
  let ?nodes = "golegacyGraphNodes g"
  have names: "map sgn_name ?nodes = names_of g" by (simp add: golegacyGraphNodes_def comp_def)
  obtain order where o: "selfPkgTopoOrder (Suc (length (gr_Nodes g))) ?nodes = Some order" "leaves_first ?nodes order"
      "set order = set (names_of g)"
    using topo_order [OF graph_acyclic(1) [OF ord]] graph_acyclic(2) [OF ord] names by (metis lessI)
  have "precedes order d (rn_Name n)" if n: "n \<in> set (gr_Nodes g)" "d \<in> set (rn_Deps n)" for n d
  proof -
    let ?m = "\<lparr>sgn_name = rn_Name n, sgn_source = URI (rn_Source n), sgn_checksum = fp_Checksum (rn_Fetched n), sgn_deps = rn_Deps n\<rparr>"
    have "?m \<in> set ?nodes" using n(1) by (auto simp: golegacyGraphNodes_def)
    then have "selfPkgFindGraphNode (rn_Name n) ?nodes = Some ?m"
      using find_unique [of ?m ?nodes sgn_name] names ord by (simp add: selfPkgFindGraphNode_def ordered_by_def)
    then have "d \<in> edges_of ?nodes (rn_Name n)" using n(2) by (simp add: edges_of_def)
    moreover have "d \<in> set (names_of g)"
      using ord n mset_eq_setD unfolding ordered_by_def precedes_def by (metis UnCI set_append)
    ultimately show ?thesis using o(2,3) n(1) names by (auto simp: leaves_first_def)
  qed
  then show ?thesis using o False by (auto simp: GolegacyTopoOrder_def golegacyGraphNodes_def leaves_first_def)
qed

text \<open>C5. A graph that \<open>Resolve\<close> returns closes the project's dependencies: every dependency of the root manifest and of each
  resolved package has a node of that name, from the directory, repository or registry package that the dependency names and, for
  registry packages, of a version that the requirement accepts (\<open>suits\<close>); every node holds what its source answers, for a registry a row of
  the index that is not yanked (\<open>fetched_from\<close>); and the edges of a node are the names its manifest declares. Requirements and
  versions are plain (\<open>plain_graph\<close>): no prerelease identifier is a dash and digits, or a number of 64 bits that does not fit 63, so that the
  two semver implementations agree on them.\<close>
theorem Resolve_closed:
  assumes "Resolve n W (Some root) env = Some (Inr g)" "plain_graph g"
  shows "gr_Root g = root \<and> closed_graph W env g"
proof -
  obtain lock g0 order where r: "solve n W env lock (empty_graph root) (root_requests root (manifestBaseDir root (ProjectRoot env))) = Some (Inr g0)"
      "g = g0\<lparr>gr_Order := order\<rparr>" using Resolve_cases [OF assms(1)] by metis
  have "gr_Root g0 = root" using run_root [OF solve_run [OF r(1)]] by (simp add: empty_graph_def)
  then show ?thesis using solve_closed [OF r(1)] assms(2) r(2) by simp
qed

theorem Resolve_closed_witness:
  "\<exists>g. Resolve 10 sample_world (Some sample_root) sample_env = Some (Inr g) \<and> plain_graph g \<and> closed_graph sample_world sample_env g \<and>
    map (\<lambda>n. (rn_Name n, fp_Version (rn_Fetched n))) (gr_Nodes g) = [(''a'', ''1.2.0''), (''b'', ''0.2.0'')]"
proof -
  have check: "case Resolve 10 sample_world (Some sample_root) sample_env of Some (Inr g) \<Rightarrow> plain_graph g \<and>
      map (\<lambda>n. (rn_Name n, fp_Version (rn_Fetched n))) (gr_Nodes g) = [(''a'', ''1.2.0''), (''b'', ''0.2.0'')] | _ \<Rightarrow> False"
    by code_simp
  obtain g where g: "Resolve 10 sample_world (Some sample_root) sample_env = Some (Inr g)" "plain_graph g"
      "map (\<lambda>n. (rn_Name n, fp_Version (rn_Fetched n))) (gr_Nodes g) = [(''a'', ''1.2.0''), (''b'', ''0.2.0'')]"
    using returned [OF check] by (elim exE conjE) (rule that)
  show ?thesis using g Resolve_closed [OF g(1,2)] by (intro exI [of _ g]) simp
qed

text \<open>C6. Resolved graphs have no cycles, and their order is a leaves-first order: it holds every node once, after all nodes it depends on.
  It does not depend on the order in which the map of nodes is iterated.\<close>
theorem Resolve_order:
  assumes "Resolve n W (Some root) env = Some (Inr g)"
  shows "distinct (gr_Order g) \<and> set (gr_Order g) = rn_Name ` set (gr_Nodes g) \<and>
    (\<forall>m \<in> set (gr_Nodes g). \<forall>d \<in> set (rn_Deps m). precedes (gr_Order g) d (rn_Name m)) \<and>
    (\<forall>nodes. mset nodes = mset (gr_Nodes g) \<longrightarrow> GolegacyTopoOrder (g\<lparr>gr_Nodes := nodes\<rparr>) = Some (gr_Order g))"
proof -
  obtain lock g0 order where r: "solve n W env lock (empty_graph root) (root_requests root (manifestBaseDir root (ProjectRoot env))) = Some (Inr g0)"
      "GolegacyTopoOrder g0 = Some order" "g = g0\<lparr>gr_Order := order\<rparr>" using Resolve_cases [OF assms] by metis
  have wf: "resolve_wf (g0, [])" using solve_wf [OF r(1)] .
  have "GolegacyTopoOrder (g0\<lparr>gr_Nodes := nodes\<rparr>) = Some order" if m: "mset nodes = mset (gr_Nodes g0)" for nodes
  proof -
    let ?f = "\<lambda>n. \<lparr>sgn_name = rn_Name n, sgn_source = URI (rn_Source n), sgn_checksum = fp_Checksum (rn_Fetched n), sgn_deps = rn_Deps n\<rparr>"
    have len: "length nodes = length (gr_Nodes g0)" "mset (map ?f (gr_Nodes g0)) = mset (map ?f nodes)"
      using mset_eq_length [OF m] arg_cong [OF m, of "image_mset ?f"] by simp_all
    have "distinct (map sgn_name (map ?f (gr_Nodes g0)))" using wf by (auto simp: resolve_wf_def ordered_by_def comp_def)
    then have "selfPkgTopoOrder k (map ?f (gr_Nodes g0)) = selfPkgTopoOrder k (map ?f nodes)" for k by (rule topo_order_perm [OF len(2)])
    moreover have "map ?f nodes = [] \<longleftrightarrow> map ?f (gr_Nodes g0) = []" using len(1) by auto
    ultimately show ?thesis using r(2) len(1) unfolding GolegacyTopoOrder_def golegacyGraphNodes_def by (simp split: if_splits)
  qed
  moreover have "GolegacyTopoOrder (g\<lparr>gr_Nodes := nodes\<rparr>) = GolegacyTopoOrder (g0\<lparr>gr_Nodes := nodes\<rparr>)" for nodes
    using r(3) by (simp add: GolegacyTopoOrder_def golegacyGraphNodes_def)
  ultimately show ?thesis using order_of_graph [OF wf] r(2,3) by auto
qed

theorem Resolve_order_witness:
  "\<exists>g. Resolve 10 sample_world (Some sample_root) sample_env = Some (Inr g) \<and> gr_Order g = [''a'', ''b''] \<and> distinct (gr_Order g)"
proof -
  have "case Resolve 10 sample_world (Some sample_root) sample_env of Some (Inr g) \<Rightarrow> gr_Order g = [''a'', ''b''] | _ \<Rightarrow> False"
    by code_simp
  from returned [OF this] obtain g where g: "Resolve 10 sample_world (Some sample_root) sample_env = Some (Inr g)" "gr_Order g = [''a'', ''b'']"
    by blast
  show ?thesis using g Resolve_order [OF g(1)] by (intro exI [of _ g]) simp
qed

section \<open>Finding a graph\<close>

lemma Resolve_solves:
  assumes "Lock_Read W (ProjectRoot env) = Inr lock"
    and "solve n W env lock (empty_graph root) (root_requests root (manifestBaseDir root (ProjectRoot env))) = Some (Inr g)"
  shows "\<exists>order. Resolve n W (Some root) env = Some (Inr (g\<lparr>gr_Order := order\<rparr>))"
  using order_of_graph [OF solve_wf [OF assms(2)]] assms by (auto simp: Resolve_def)

lemma requests_of_solution:
  assumes "solution_of W env root \<sigma> rank" "r \<in> set (root_requests root (manifestBaseDir root (ProjectRoot env)))"
  shows "solves W env \<sigma> (rq_dep r) (rq_baseDir r) \<and> (\<forall>a \<in> set (rq_ancestors r). rank (md_Name (rq_dep r)) < rank a)"
  using assms by (auto simp: solution_of_def list_all_iff root_requests_def)

lemma follows_empty: "follows env \<sigma> (empty_graph root)"
  by (simp add: follows_def empty_graph_def node_of_def)



text \<open>C8. Resolution keeps to the lock. Suppose that, for every registry dependency of a solution, the lock has exactly one entry of that name, with
  the registry's source and the solution's version, and that the versions of the package in the registry are plain and of distinct
  precedence (none differs from another in build metadata alone). Then each node of the resolved graph is the
  solution's package for its name, whatever newer versions the registry offers.\<close>
theorem Resolve_keeps_lock:
  assumes "Lock_Read W (ProjectRoot env) = Inr (Some l)" "solution_of W env root \<sigma> rank" "pins W env l root \<sigma>"
    and "Resolve n W (Some root) env = Some (Inr g)" "node_of g u = Some m"
  shows "map_of \<sigma> u = Some (source_key env (rn_Source m), rn_Fetched m)"
proof -
  let ?p = "root_requests root (manifestBaseDir root (ProjectRoot env))"
  obtain g0 order where r: "solve n W env (Some l) (empty_graph root) ?p = Some (Inr g0)" "g = g0\<lparr>gr_Order := order\<rparr>"
    using Resolve_cases [OF assms(4)] assms(1) by (metis sum.inject(2))
  have "pinned W env l \<sigma> (rq_dep r)" if "r \<in> set ?p" for r
    using that assms(3) by (auto simp: pins_def list_all_iff root_requests_def)
  then have "follows env \<sigma> g0" using solve_follows [OF assms(2,3) follows_empty _ r(1)] requests_of_solution [OF assms(2)] by blast
  then show ?thesis using assms(5) r(2) by (simp add: follows_def node_order)
qed

theorem Resolve_keeps_lock_witness:
  "\<exists>g m. Resolve 4 locked_world (Some locked_root) sample_env = Some (Inr g) \<and> node_of g ''a'' = Some m \<and> fp_Version (rn_Fetched m) = ''1.2.0''"
proof -
  have "case Resolve 4 locked_world (Some locked_root) sample_env of Some (Inr g) \<Rightarrow> node_of g ''a'' \<noteq> None | _ \<Rightarrow> False"
    by code_simp
  from returned [OF this] obtain g m where g: "Resolve 4 locked_world (Some locked_root) sample_env = Some (Inr g)" "node_of g ''a'' = Some m"
    by blast
  have l: "Lock_Read locked_world (ProjectRoot sample_env) = Inr (Some sample_lock)" by code_simp
  have s: "solution_of locked_world sample_env locked_root sample_solution sample_rank" by code_simp
  have p: "pins locked_world sample_env sample_lock locked_root sample_solution" by code_simp
  have "Some (fp_Version (rn_Fetched m)) = map_option (\<lambda>x. fp_Version (snd x)) (map_of sample_solution ''a'')"
    using Resolve_keeps_lock [OF l s p g] by simp
  then show ?thesis using g by (simp add: sample_solution_def)
qed

section \<open>Locks\<close>

lemma graph_lock_deps_ok:
  assumes "list_all (\<lambda>m. \<exists>v. golegacyVersionFromString (fp_Version (rn_Fetched m)) = Inr v) (gr_Nodes g)"
  shows "\<exists>ds. graph_lock_deps g names = Inr ds"
  using assms by (induction names) (auto simp: list_all_iff split: option.split sum.split dest!: node_of_Some)

lemma lock_packages_iff:
  "set names \<subseteq> set (names_of g) \<Longrightarrow> lock_packages g names = Inr ps \<Longrightarrow> map pkg_Name ps = names \<and>
    (\<forall>u \<in> set names. \<forall>m. node_of g u = Some m \<longrightarrow> (\<exists>v. golegacyVersionFromString (fp_Version (rn_Fetched m)) = Inr v))"
proof (induction names arbitrary: ps)
  case (Cons u names)
  have "node_of g u \<noteq> None" using Cons.prems(1) unfolding node_of_None by simp
  then obtain m where m: "node_of g u = Some m" by blast
  then show ?case using Cons node_of_Some [OF m]
    by (auto simp: golegacyGraphLockPackage_def golegacyLockfilePackage_def split: sum.splits)
qed simp

lemma lock_packages_ok:
  assumes "list_all (\<lambda>m. \<exists>v. golegacyVersionFromString (fp_Version (rn_Fetched m)) = Inr v) (gr_Nodes g)"
  shows "\<exists>ps. lock_packages g names = Inr ps"
proof (induction names)
  case (Cons u names)
  show ?case
  proof (cases "node_of g u")
    case (Some m)
    obtain v where "golegacyVersionFromString (fp_Version (rn_Fetched m)) = Inr v"
      using assms node_of_Some [OF Some] by (auto simp: list_all_iff)
    moreover obtain ds where "graph_lock_deps g (rn_Deps m) = Inr ds" using graph_lock_deps_ok [OF assms] by blast
    ultimately show ?thesis using Cons Some by (auto simp: golegacyGraphLockPackage_def)
  qed (use Cons in simp)
qed simp

text \<open>C15. A resolved graph can be locked exactly if the core can hold the version of every node; the lock then lists the nodes in the graph's
  order. A git dependency whose version is a tag that is no semantic version makes locking fail.\<close>
theorem LockFromGraph_iff:
  assumes "Resolve n W (Some root) env = Some (Inr g)"
  shows "(\<exists>r. LockFromGraph g = Some r) \<and> ((\<exists>l. LockFromGraph g = Some (Inr l) \<and> map pkg_Name (Packages l) = gr_Order g) \<longleftrightarrow>
    list_all (\<lambda>m. \<exists>v. golegacyVersionFromString (fp_Version (rn_Fetched m)) = Inr v) (gr_Nodes g))"
proof -
  obtain lock g0 order where r: "solve n W env lock (empty_graph root) (root_requests root (manifestBaseDir root (ProjectRoot env))) = Some (Inr g0)"
      "GolegacyTopoOrder g0 = Some order" "g = g0\<lparr>gr_Order := order\<rparr>" using Resolve_cases [OF assms] by metis
  have wf: "resolve_wf (g0, [])" using solve_wf [OF r(1)] .
  have o: "GolegacyTopoOrder g = Some order" "set order = set (names_of g)" "gr_Order g = order"
    using order_of_graph [OF wf] r(2,3) by (auto simp: GolegacyTopoOrder_def golegacyGraphNodes_def)
  have some: "\<exists>r. LockFromGraph g = Some r" using o(1) by (simp add: LockFromGraph_def)
  have dis: "distinct (names_of g)" using wf r(3) by (auto simp: resolve_wf_def ordered_by_def)
  have "(\<exists>l. LockFromGraph g = Some (Inr l) \<and> map pkg_Name (Packages l) = gr_Order g) \<longleftrightarrow>
    list_all (\<lambda>m. \<exists>v. golegacyVersionFromString (fp_Version (rn_Fetched m)) = Inr v) (gr_Nodes g)"
  proof
    assume "\<exists>l. LockFromGraph g = Some (Inr l) \<and> map pkg_Name (Packages l) = gr_Order g"
    then obtain ps where "lock_packages g order = Inr ps" using o(1) by (auto simp: LockFromGraph_def map_sum_def split: sum.splits)
    then show "list_all (\<lambda>m. \<exists>v. golegacyVersionFromString (fp_Version (rn_Fetched m)) = Inr v) (gr_Nodes g)"
      using lock_packages_iff [of order g ps] o(2) node_of_member [OF _ dis] by (auto simp: list_all_iff)
  next
    assume "list_all (\<lambda>m. \<exists>v. golegacyVersionFromString (fp_Version (rn_Fetched m)) = Inr v) (gr_Nodes g)"
    from lock_packages_ok [OF this] obtain ps where ps: "lock_packages g order = Inr ps" by blast
    then show "\<exists>l. LockFromGraph g = Some (Inr l) \<and> map pkg_Name (Packages l) = gr_Order g"
      using lock_packages_iff [OF _ ps] o by (simp add: LockFromGraph_def)
  qed
  then show ?thesis using some by blast
qed

theorem LockFromGraph_iff_witness:
  "\<exists>g e. Resolve 4 sample_world (Some git_root) sample_env = Some (Inr g) \<and> LockFromGraph g = Some (Inl e)"
proof -
  have "case Resolve 4 sample_world (Some git_root) sample_env of
      Some (Inr g) \<Rightarrow> list_ex (\<lambda>m. case golegacyVersionFromString (fp_Version (rn_Fetched m)) of Inl _ \<Rightarrow> True | Inr _ \<Rightarrow> False) (gr_Nodes g) \<and>
        (case LockFromGraph g of Some (Inr l) \<Rightarrow> map pkg_Name (Packages l) = gr_Order g | _ \<Rightarrow> True) | _ \<Rightarrow> False"
    by code_simp
  from returned [OF this] obtain g where g: "Resolve 4 sample_world (Some git_root) sample_env = Some (Inr g)"
      "list_ex (\<lambda>m. case golegacyVersionFromString (fp_Version (rn_Fetched m)) of Inl _ \<Rightarrow> True | Inr _ \<Rightarrow> False) (gr_Nodes g)"
      "case LockFromGraph g of Some (Inr l) \<Rightarrow> map pkg_Name (Packages l) = gr_Order g | _ \<Rightarrow> True"
    by blast
  obtain r where "LockFromGraph g = Some r" using LockFromGraph_iff [OF g(1)] by blast
  moreover have "\<not> list_all (\<lambda>m. \<exists>v. golegacyVersionFromString (fp_Version (rn_Fetched m)) = Inr v) (gr_Nodes g)"
    using g(2) by (force simp: list_all_iff list_ex_iff split: sum.splits)
  ultimately show ?thesis using g LockFromGraph_iff [OF g(1)] by (cases r) auto
qed

text \<open>C16. Two locks whose packages the core can hold, the new one without duplicate names, have no difference exactly if every old package is in the new lock with the
  same name, checksum and source and a version of the same precedence, and the new lock has no other names. Dependencies and
  build metadata are not compared.\<close>
theorem DiffLock_nil:
  assumes "golegacyLockPackages old = Inr ps" "golegacyLockPackages new = Inr qs" "distinct (map slp_name qs)"
  shows "DiffLock old new = Inr [] \<longleftrightarrow> (\<forall>p \<in> set ps. \<exists>q \<in> set qs. same_package p q) \<and> slp_name ` set qs \<subseteq> slp_name ` set ps"
  using assms diff_nil [of "selfPkgSortLockPackages qs" "selfPkgSortLockPackages ps"] by (simp add: DiffLock_def)

theorem DiffLock_nil_witness: "DiffLock (Some sample_lock) (Some other_lock) = Inr []"
proof -
  have "case (golegacyLockPackages (Some sample_lock), golegacyLockPackages (Some other_lock)) of
      (Inr ps, Inr qs) \<Rightarrow> distinct (map slp_name qs) \<and> list_all (\<lambda>p. list_ex (same_package p) qs) ps \<and>
        list_all (\<lambda>q. slp_name q \<in> slp_name ` set ps) qs | _ \<Rightarrow> False"
    by code_simp
  then obtain ps qs where h: "golegacyLockPackages (Some sample_lock) = Inr ps" "golegacyLockPackages (Some other_lock) = Inr qs"
      "distinct (map slp_name qs)" "list_all (\<lambda>p. list_ex (same_package p) qs) ps" "list_all (\<lambda>q. slp_name q \<in> slp_name ` set ps) qs"
    by (auto split: sum.splits)
  show ?thesis using DiffLock_nil [OF h(1-3)] h(4,5) by (auto simp: list_all_iff list_ex_iff)
qed

end
