(* ===== verification/Pkg_Writers.thy ===== *)
theory Pkg_Writers
  imports Pkg_Resolve
begin

text \<open>
  The two writers of lock files: \<^verbatim>\<open>lockfile.Marshal\<close> and the core's \<^verbatim>\<open>selfPkgMarshalLock\<close> behind
  \<^verbatim>\<open>GolegacyMarshalLock\<close> give the same text for locks whose versions print back and whose texts are ASCII without unusual
  control characters.
\<close>

section \<open>Quoting\<close>

definition common_char :: "char \<Rightarrow> bool" where
  "common_char c \<longleftrightarrow> c = CHR 0x09 \<or> c = CHR 0x0A \<or> c = CHR 0x0D \<or> 32 \<le> (of_char c :: int) \<and> (of_char c :: int) \<le> 126"

lemma quote_byte:
  assumes "common_char c"
  shows "quote_unit [c] = toml_escape c"
proof (cases "c \<in> {DQ, BSL, CHR 0x09, CHR 0x0A, CHR 0x0D}")
  case True
  then show ?thesis by (elim insertE emptyE; simp add: toml_escape_def quote_unit_def)
next
  case False
  then have "32 \<le> (of_char c :: int)" "(of_char c :: int) \<le> 126" using assms by (auto simp: common_char_def)
  moreover from this have "c \<noteq> CHR 0x07" "c \<noteq> CHR 0x08" "c \<noteq> CHR 0x0B" "c \<noteq> CHR 0x0C" by auto
  ultimately show ?thesis using False by (simp add: toml_escape_def quote_unit_def)
qed

lemma common_ascii: "common_char c \<Longrightarrow> (of_char c :: nat) < 128"
proof -
  assume "common_char c"
  then have "int (of_char c) < 128" unfolding of_nat_of_char by (auto simp: common_char_def)
  then show ?thesis by linarith
qed

lemma common_pos: "common_char c \<Longrightarrow> CHR 0x00 < c"
proof -
  assume "common_char c"
  then have "0 < int (of_char c)" unfolding of_nat_of_char by (auto simp: common_char_def)
  then show ?thesis by (simp add: less_char_def)
qed

lemma explode_ascii: "list_all common_char s \<Longrightarrow> explode_runes s = map (\<lambda>c. [c]) s"
proof (induction s)
  case (Cons c s)
  then have "rune_size (c # s) = 1" using common_ascii [of c] by (simp add: rune_size_def Let_def)
  then show ?case using Cons by (subst explode_runes.simps) simp
qed (simp add: explode_runes.simps)

lemma quote_same:
  assumes "list_all common_char s"
  shows "selfPkgTomlQuote s = TomlBasicString s"
proof -
  have "concat (map (\<lambda>c. quote_unit [c]) s) = concat (map toml_escape s)" using assms by (induction s) (simp_all add: quote_byte)
  then show ?thesis using explode_ascii [OF assms] by (simp add: selfPkgTomlQuote_def TomlBasicString_def comp_def)
qed

section \<open>Sorting\<close>

text \<open>Insertion after the elements that are not greater is a stable sort.\<close>

fun insert_after :: "('a \<Rightarrow> 'a \<Rightarrow> bool) \<Rightarrow> 'a list \<Rightarrow> 'a \<Rightarrow> 'a list" where
  "insert_after lt [] x = [x]"
| "insert_after lt (y # ys) x = (if lt x y then x # y # ys else y # insert_after lt ys x)"

lemma insert_packages: "selfPkgInsertLockPackage = insert_after selfPkgLockPackageLess"
proof (intro ext)
  show "selfPkgInsertLockPackage ps x = insert_after selfPkgLockPackageLess ps x" for ps x by (induction ps) simp_all
qed

lemma insert_deps: "selfPkgInsertLockDependency = insert_after selfPkgLockDependencyLess"
proof (intro ext)
  show "selfPkgInsertLockDependency ps x = insert_after selfPkgLockDependencyLess ps x" for ps x by (induction ps) simp_all
qed

lemma insort_insert_after:
  fixes k :: "'a \<Rightarrow> 'b::linorder"
  shows "insert_after (\<lambda>a b. k a < k b) (insort_key k y ys) x = insort_key k y (insert_after (\<lambda>a b. k a < k b) ys x)"
  by (induction ys) auto

lemma fold_insert_sort:
  fixes k :: "'a \<Rightarrow> 'b::linorder"
  shows "foldl (insert_after (\<lambda>a b. k a < k b)) (sort_key k ys) xs = sort_key k (ys @ xs)"
proof (induction xs arbitrary: ys)
  case (Cons x xs)
  have "insert_after (\<lambda>a b. k a < k b) (sort_key k ys) x = sort_key k (ys @ [x])" for ys
    by (induction ys) (auto simp: insort_insert_after)
  then show ?case using Cons [of "ys @ [x]"] by simp
qed simp

lemma sort_insert_after:
  fixes k :: "'a \<Rightarrow> 'b::linorder"
  assumes "\<And>a b. a \<in> set xs \<Longrightarrow> b \<in> set xs \<Longrightarrow> lt a b \<longleftrightarrow> k a < k b"
  shows "foldl (insert_after lt) [] xs = sort_key k xs"
proof -
  have ins: "insert_after lt ys x = insert_after (\<lambda>a b. k a < k b) ys x" if "set ys \<subseteq> set xs" "x \<in> set xs" for ys x
    using that assms by (induction ys) auto
  have set: "set (insert_after lt ys x) = insert x (set ys)" for ys x by (induction ys) auto
  have "foldl (insert_after lt) acc zs = foldl (insert_after (\<lambda>a b. k a < k b)) acc zs" if "set acc \<subseteq> set xs" "set zs \<subseteq> set xs" for acc zs
    using that
  proof (induction zs arbitrary: acc)
    case (Cons z zs)
    have "foldl (insert_after lt) (insert_after lt acc z) zs = foldl (insert_after (\<lambda>a b. k a < k b)) (insert_after lt acc z) zs"
      using Cons.prems set by (intro Cons.IH) simp_all
    then show ?case using ins [of acc z] Cons.prems by simp
  qed simp
  from this [of "[]" xs] show ?thesis using fold_insert_sort [of k "[]" xs] by simp
qed

text \<open>The host's key separates the name from the version by a zero byte.\<close>

lemma key_less:
  assumes "list_all common_char a" "list_all common_char b"
  shows "lockSortKey a v < lockSortKey b w \<longleftrightarrow> (if a \<noteq> b then a < b else v < w)"
  using assms
proof (induction a arbitrary: b)
  case Nil
  then show ?case using common_pos by (cases b) (auto simp: lockSortKey_def)
next
  case (Cons c a)
  have z: "CHR 0x00 < c" using Cons.prems common_pos by simp
  show ?case
  proof (cases b)
    case Nil
    then show ?thesis using z by (auto simp: lockSortKey_def)
  next
    case (Cons d b')
    then show ?thesis using Cons.prems Cons.IH [of b'] by (auto simp: lockSortKey_def)
  qed
qed

lemma sort_map: "sort_key k (map f xs) = map f (sort_key (\<lambda>x. k (f x)) xs)"
proof -
  have "insort_key k (f x) (map f ys) = map f (insort_key (\<lambda>x. k (f x)) x ys)" for x ys by (induction ys) auto
  then show ?thesis by (induction xs) auto
qed

lemma sort_agree: "(\<And>x. x \<in> set xs \<Longrightarrow> f x = g x) \<Longrightarrow> sort_key f xs = sort_key g xs"
proof (induction xs)
  case (Cons x xs)
  have "insort_key f x ys = insort_key g x ys" if "set ys \<subseteq> set (x # xs)" for ys
    using that Cons.prems by (induction ys) auto
  from this [of "sort_key g xs"] show ?case using Cons by auto
qed simp

section \<open>The same text\<close>

definition prints_back :: "string \<Rightarrow> bool" where
  "prints_back s \<longleftrightarrow> (case golegacyVersionFromString s of Inl _ \<Rightarrow> False | Inr g \<Rightarrow> semVersionText g = s)"

definition common_dep :: "Dependency \<Rightarrow> bool" where
  "common_dep d \<longleftrightarrow> prints_back (dep_Version d) \<and> list_all common_char (dep_Name d) \<and> list_all common_char (dep_Version d) \<and>
     list_all common_char (dep_Source d)"

definition common_package :: "Package \<Rightarrow> bool" where
  "common_package p \<longleftrightarrow> prints_back (pkg_Version p) \<and> list_all common_char (pkg_Name p) \<and> list_all common_char (pkg_Version p) \<and>
     list_all common_char (pkg_Source p) \<and> list_all common_char (pkg_Checksum p) \<and> list_all common_dep (pkg_Dependencies p)"

definition core_dep :: "Dependency \<Rightarrow> SelfPkgLockDependency" where
  "core_dep d = \<lparr>sld_name = dep_Name d, sld_version = projr (golegacyVersionFromString (dep_Version d)), sld_source = dep_Source d\<rparr>"

definition core_package :: "Package \<Rightarrow> SelfPkgLockPackage" where
  "core_package p = \<lparr>slp_name = pkg_Name p, slp_version = projr (golegacyVersionFromString (pkg_Version p)), slp_source = pkg_Source p,
     slp_checksum = pkg_Checksum p, slp_dependencies = map core_dep (pkg_Dependencies p)\<rparr>"

lemma prints_backE:
  assumes "prints_back s"
  obtains g where "golegacyVersionFromString s = Inr g" "semVersionText g = s"
  using assms by (auto simp: prints_back_def split: sum.splits)

lemma core_deps: "list_all common_dep ds \<Longrightarrow> golegacy_lock_deps ds = Inr (map core_dep ds)"
proof (induction ds)
  case (Cons d ds)
  then obtain g where "golegacyVersionFromString (dep_Version d) = Inr g" using prints_backE by (auto simp: common_dep_def)
  then show ?case using Cons by (simp add: core_dep_def)
qed simp

lemma core_packages: "list_all common_package ps \<Longrightarrow> golegacy_lock_list ps = Inr (map core_package ps)"
proof (induction ps)
  case (Cons p ps)
  then obtain g where "golegacyVersionFromString (pkg_Version p) = Inr g" using prints_backE by (auto simp: common_package_def)
  moreover have "golegacy_lock_deps (pkg_Dependencies p) = Inr (map core_dep (pkg_Dependencies p))"
    using Cons.prems core_deps by (simp add: common_package_def)
  ultimately show ?case using Cons by (simp add: core_package_def)
qed simp

lemma core_texts:
  "common_dep d \<Longrightarrow> sld_name (core_dep d) = dep_Name d \<and> semVersionText (sld_version (core_dep d)) = dep_Version d \<and> sld_source (core_dep d) = dep_Source d"
  "common_package p \<Longrightarrow> slp_name (core_package p) = pkg_Name p \<and> semVersionText (slp_version (core_package p)) = pkg_Version p"
  by (auto simp: core_dep_def core_package_def common_dep_def common_package_def elim!: prints_backE)

lemma less_keys:
  "common_dep d \<Longrightarrow> common_dep e \<Longrightarrow> selfPkgLockDependencyLess (core_dep d) (core_dep e) \<longleftrightarrow>
    lockSortKey (sld_name (core_dep d)) (semVersionText (sld_version (core_dep d))) <
    lockSortKey (sld_name (core_dep e)) (semVersionText (sld_version (core_dep e)))"
  "common_package p \<Longrightarrow> common_package q \<Longrightarrow> selfPkgLockPackageLess (core_package p) (core_package q) \<longleftrightarrow>
    lockSortKey (slp_name (core_package p)) (semVersionText (slp_version (core_package p))) <
    lockSortKey (slp_name (core_package q)) (semVersionText (slp_version (core_package q)))"
  using key_less by (simp_all add: selfPkgLockDependencyLess_def selfPkgLockPackageLess_def core_texts common_dep_def common_package_def)

lemma sorted_deps:
  assumes "list_all common_dep ds"
  shows "selfPkgSortLockDependencies (map core_dep ds) = map core_dep (sort_deps ds)"
proof -
  let ?k = "\<lambda>d. lockSortKey (sld_name d) (semVersionText (sld_version d))"
  have "selfPkgSortLockDependencies (map core_dep ds) = sort_key ?k (map core_dep ds)"
    unfolding selfPkgSortLockDependencies_def insert_deps using assms less_keys(1) by (intro sort_insert_after) (auto simp: list_all_iff)
  also have "\<dots> = map core_dep (sort_key (\<lambda>d. ?k (core_dep d)) ds)" by (rule sort_map)
  also have "sort_key (\<lambda>d. ?k (core_dep d)) ds = sort_deps ds"
    unfolding sort_deps_def using assms core_texts(1) by (intro sort_agree) (auto simp: list_all_iff)
  finally show ?thesis .
qed

lemma sorted_packages:
  assumes "list_all common_package ps"
  shows "selfPkgSortLockPackages (map core_package ps) = map core_package (sort_packages ps)"
proof -
  let ?k = "\<lambda>p. lockSortKey (slp_name p) (semVersionText (slp_version p))"
  have "selfPkgSortLockPackages (map core_package ps) = sort_key ?k (map core_package ps)"
    unfolding selfPkgSortLockPackages_def insert_packages using assms less_keys(2) by (intro sort_insert_after) (auto simp: list_all_iff)
  also have "\<dots> = map core_package (sort_key (\<lambda>p. ?k (core_package p)) ps)" by (rule sort_map)
  also have "sort_key (\<lambda>p. ?k (core_package p)) ps = sort_packages ps"
    unfolding sort_packages_def using assms core_texts(2) by (intro sort_agree) (auto simp: list_all_iff)
  finally show ?thesis .
qed

lemma dep_line: "common_dep d \<Longrightarrow> selfPkgTomlQuote (selfPkgLockDependencyString (core_dep d)) = TomlBasicString (Dependency_String d)"
proof -
  assume d: "common_dep d"
  then have "selfPkgLockDependencyString (core_dep d) = Dependency_String d"
    using core_texts(1) [OF d] by (simp add: selfPkgLockDependencyString_def Dependency_String_def DependencyString_def Let_def)
  moreover have "list_all common_char (Dependency_String d)"
    using d by (auto simp: common_dep_def Dependency_String_def DependencyString_def common_char_def)
  ultimately show ?thesis by (simp add: quote_same)
qed

lemma entry_same:
  assumes "common_package p"
  shows "lock_entry (core_package p) = package_text p"
proof -
  have deps: "list_all common_dep (pkg_Dependencies p)" using assms by (simp add: common_package_def)
  then have "list_all common_dep (sort_deps (pkg_Dependencies p))" by (simp add: list_all_iff sort_deps_set)
  then have lines: "map (\<lambda>d. ''    '' @ selfPkgTomlQuote (selfPkgLockDependencyString (core_dep d)) @ '','' @ [NL]) (sort_deps (pkg_Dependencies p)) =
      map (\<lambda>d. ''    '' @ TomlBasicString (Dependency_String d) @ '','' @ [NL]) (sort_deps (pkg_Dependencies p))"
    by (simp add: list_all_iff dep_line)
  have q: "selfPkgTomlQuote (pkg_Name p) = TomlBasicString (pkg_Name p)" "selfPkgTomlQuote (pkg_Version p) = TomlBasicString (pkg_Version p)"
      "selfPkgTomlQuote (pkg_Source p) = TomlBasicString (pkg_Source p)" "selfPkgTomlQuote (pkg_Checksum p) = TomlBasicString (pkg_Checksum p)"
    using assms by (simp_all add: common_package_def quote_same)
  have f: "slp_source (core_package p) = pkg_Source p" "slp_checksum (core_package p) = pkg_Checksum p"
      "slp_dependencies (core_package p) = map core_dep (pkg_Dependencies p)" by (simp_all add: core_package_def)
  show ?thesis
    unfolding lock_entry_def package_text_def kv_line_def deps_text_def f sorted_deps [OF deps] map_map comp_def lines
    using core_texts(2) [OF assms] by (simp add: q)
qed

text \<open>C14. The two writers of lock files agree: for a lock of the current schema whose versions print back and whose texts are common ASCII, the core's
  writer gives the text of \<open>Marshal\<close>, byte for byte.\<close>

theorem GolegacyMarshalLock_agrees:
  assumes "lock_Version l = SchemaVersion" "list_all common_package (Packages l)"
  shows "GolegacyMarshalLock (Some l) = Inr (Marshal l)"
proof -
  have "list_all common_package (sort_packages (Packages l))" using assms(2) by (simp add: sort_packages_def list_all_iff)
  then have "map lock_entry (map core_package (sort_packages (Packages l))) = map package_text (sort_packages (Packages l))"
    by (simp add: list_all_iff entry_same)
  moreover have "kv_line ''version'' (itoa_int SchemaVersion) = ''version = 1'' @ [NL]" by code_simp
  ultimately show ?thesis using assms(1)
    by (simp add: GolegacyMarshalLock_def golegacyLockPackages_def core_packages [OF assms(2)] selfPkgMarshalLock_def
      sorted_packages [OF assms(2)] Marshal_def MarshalLockfile_def del: map_map)
qed

definition written_lock :: Lock where
  "written_lock = \<lparr>lock_Version = 1, Packages =
     [\<lparr>pkg_Name = ''b'', pkg_Version = ''2.0.0-rc.1'', pkg_Source = ''registry+default'', pkg_Checksum = ''sha256:00'',
       pkg_Dependencies = [\<lparr>dep_Name = ''a'', dep_Version = ''1.2.0'', dep_Source = []\<rparr>]\<rparr>,
      \<lparr>pkg_Name = ''a'', pkg_Version = ''1.2.0'', pkg_Source = ''path+../a'', pkg_Checksum = [], pkg_Dependencies = []\<rparr>]\<rparr>"

theorem GolegacyMarshalLock_agrees_witness: "GolegacyMarshalLock (Some written_lock) = Inr (Marshal written_lock)"
proof -
  have "lock_Version written_lock = SchemaVersion" "list_all common_package (Packages written_lock)" by code_simp+
  then show ?thesis by (rule GolegacyMarshalLock_agrees)
qed

end
