(* ===== verification/Spec2Isabelle.thy ===== *)
theory Spec2Isabelle
  imports CST_Parse_Total IR_Decision Semver Query_Engine Lockfile MIR_Machine Pkg_Properties Pkg_Writers
begin

text \<open>
  Verification of core components of the Osty compiler (\<^verbatim>\<open>src/\<close>, Go).

  \<^bold>\<open>The program.\<close> Osty is a compiler with its tooling. The components verified here are those
  that carry algorithms of their own and are written in Go by hand: the lossless concrete
  syntax tree (\<^verbatim>\<open>src/internal/cst\<close>, on the tokens of \<^verbatim>\<open>src/internal/token\<close>), the decision trees of \<open>match\<close>
  (\<^verbatim>\<open>src/internal/ir/decision.go\<close>), the validator and the optimiser of the control-flow graphs that the back ends read
  (\<^verbatim>\<open>src/internal/mir\<close>), the incremental query engine behind the language server (\<^verbatim>\<open>src/internal/query\<close>), and the package
  manager (\<^verbatim>\<open>src/internal/pkgmgr\<close>): its version algebra, its lock file (\<^verbatim>\<open>src/internal/lockfile\<close>, written by
  \<^verbatim>\<open>src/internal/runner/lockfile_policy.go\<close> and read through the TOML parser, \<^verbatim>\<open>src/internal/tomlparse\<close>), and its dependency
  resolver, which uses both and the Osty-authored package core in \<^verbatim>\<open>golegacy_generated.go\<close>. Otherwise the
  components do not call each other; each is entered from the command line tools and the language server.

  \<^bold>\<open>Theories and files.\<close>
  \<^item> \<^verbatim>\<open>Osty_Prelude\<close>: Go panics as a sum type (\<open>res\<close>), statements as state transformers (\<open>action\<close>),
    loops with \<open>break\<close> (\<open>flow\<close>), slices, scans, decimal printing, and lemmas on intervals that tile a range.
  \<^item> \<^verbatim>\<open>Osty_Token\<close> (\<^verbatim>\<open>token.go\<close>): token kinds with numbers and names, positions, tokens, keywords.
  \<^item> \<^verbatim>\<open>CST_Trivia\<close> (\<^verbatim>\<open>trivia.go\<close>): \<open>Normalize\<close>, the line index, \<open>classifyTrivia\<close>, \<open>Extract\<close>.
  \<^item> \<^verbatim>\<open>CST_Kinds\<close>, \<^verbatim>\<open>CST_Green\<close> (\<^verbatim>\<open>green.go, green_dedup.go, green_arena.go\<close>): green tokens and nodes, the FNV
    fingerprints at 64 bits, the interning tables, the arena. One locale states what an interning table
    promises; tokens and nodes interpret it.
  \<^item> \<^verbatim>\<open>CST_Builder\<close> (\<^verbatim>\<open>green_arena.go\<close>): the event-driven builder with checkpoints; well-formed arenas
    (every child was stored before its parent, widths add up), and the tokens below a node.
  \<^item> \<^verbatim>\<open>CST_Red\<close> (\<^verbatim>\<open>red.go\<close>): handles, the lazily filled handle cache as explicit state, every navigation
    operation, compared with the pre-order of the green tree.
  \<^item> \<^verbatim>\<open>CST_Build\<close> (\<^verbatim>\<open>build.go\<close>): trivia attachment, span sanitising, the span-driven builder.
  \<^item> \<^verbatim>\<open>CST_Validate\<close> (\<^verbatim>\<open>validate.go\<close>): \<open>ValidateTree\<close> and \<open>Reconstruct\<close>.
  \<^item> \<^verbatim>\<open>CST_Parse\<close> (\<^verbatim>\<open>parse.go\<close>): every function of the recovery-first parser, written with the statement
    combinators of the prelude, so that each definition reads like the Go function of its name.
  \<^item> \<^verbatim>\<open>CST_Parse_Rules\<close>: a program logic for these statements. \<open>runs c n P b act\<close> says that \<open>act\<close>, started
    in a well-formed state satisfying \<open>P\<close> with at most \<open>n\<close> tokens to go, does not panic, only feeds tokens
    forward, and consumes one if \<open>b\<close> holds.
  \<^item> \<^verbatim>\<open>CST_Parse_Total\<close>: a judgement per parser function, and the theorems about \<open>ParseGreen\<close>.
  \<^item> \<^verbatim>\<open>IR_Decision\<close> (\<^verbatim>\<open>pattern.go, decision.go\<close>, the tree validator of \<^verbatim>\<open>validate.go\<close>): patterns, the tree
    compiler, and what trees and arms mean: \<open>run_tree\<close> goes through a tree the way MIR lowering does,
    \<open>first_arm\<close> tries the arms in order.
  \<^item> \<^verbatim>\<open>MIR\<close> (\<^verbatim>\<open>mir.go\<close>): modules, functions, blocks, instructions, operands, places; construction, successors, predecessors.
  \<^item> \<^verbatim>\<open>MIR_Validate\<close> (\<^verbatim>\<open>validate.go\<close>): every check of the validator, an error constructor per message, and what its silence means.
  \<^item> \<^verbatim>\<open>MIR_Optimize\<close> (\<^verbatim>\<open>optimize.go\<close>): constant propagation over the whole function with its work list, folding of branches, read
    counts and dead assignments, collapse of empty blocks, the loop of these passes. \<^verbatim>\<open>MIR_Fuse\<close> (\<^verbatim>\<open>fuse_map_incr.go, fuse_split_nth.go\<close>):
    counter fusion and segment fusion. \<^verbatim>\<open>MIR_Hoist\<close> (\<^verbatim>\<open>escape_split.go\<close>): loops and the hoisting of split buffers, and \<open>Optimize\<close>.
  \<^item> \<^verbatim>\<open>MIR_Semantics\<close>: what a function does, over a machine that is a parameter (constants, projections, operators, calls, truth
    values). \<open>run\<close> follows blocks from a state; \<open>refines\<close> says that whatever one function returns the other returns too.
  \<^item> \<^verbatim>\<open>MIR_Dataflow, MIR_Correct, MIR_Fuse_Correct\<close>: soundness and termination of the analysis, refinement of the passes, and the
    laws that the machine has to satisfy. \<^verbatim>\<open>MIR_Valid_Passes, MIR_Fuse_Valid, MIR_Pipeline\<close>: every pass keeps what the validator checks.
    \<^verbatim>\<open>MIR_Machine\<close>: a machine that satisfies the laws, and the claims.
  \<^item> \<^verbatim>\<open>Go_Strings\<close>: the functions of Go's \<^verbatim>\<open>strings, strconv, unicode/utf8\<close> that the components use, as the
    library documents them, with lemmas on decimal text and white space.
  \<^item> \<^verbatim>\<open>Semver\<close> (\<^verbatim>\<open>semver.go\<close>): versions, their text, precedence, requirements, selection.
  \<^item> \<^verbatim>\<open>Query_Engine\<close> (\<^verbatim>\<open>db.go, query.go, slot.go, cycle.go, metrics.go\<close>): registration, inputs, slots,
    dependency walks, early cutoff, cycle check, counters.
  \<^item> \<^verbatim>\<open>Toml\<close> (\<^verbatim>\<open>tomlparse.go\<close>): tables in insertion order, every function of the parser, an error constructor per
    message. The locale \<open>value_parser\<close> states what a nested value parser promises (it consumes input, ends
    with an error of the input rather than of the fuel, and builds well-formed values); the parser interprets it at every depth.
  \<^item> \<^verbatim>\<open>Lockfile\<close> (\<^verbatim>\<open>lockfile.go, lockfile_policy.go\<close>): packages and dependencies, their text, reading and writing. The locale
    \<open>file_format\<close> states what a writer and a reader promise each other. \<open>reads txt path P path' P'\<close> says what the TOML parser
    has built after a piece of text, whatever follows, so that the pieces of a file compose.
  \<^item> \<^verbatim>\<open>Golegacy_Semver, Golegacy_Core\<close> (\<^verbatim>\<open>golegacy_generated.go\<close>, \<^verbatim>\<open>golegacy_adapter.go\<close>): the package core as far as the host calls it: a second
    implementation of versions, sources and their text, the choice against a lock, the difference of locks, the order of a graph.
  \<^item> \<^verbatim>\<open>Pkg_Source\<close> (\<^verbatim>\<open>source.go, source_path.go, source_git.go, source_registry.go, client.go\<close>): sources and fetching, over a world that answers
    file, git and network requests. \<^verbatim>\<open>Pkg_Resolve\<close> (\<^verbatim>\<open>resolve.go, golegacy_adapter.go, depprovider.go\<close>): the backtracking search, the order, locks
    of graphs and their difference, import lookup.
  \<^item> \<^verbatim>\<open>Pkg_Topo\<close>: the depth-first order of the core. \<^verbatim>\<open>Pkg_Run\<close>: the search as a step relation, an order of the nodes as its
    invariant (the locale \<open>run_invariant\<close>, interpreted by the resolver's steps), and the bound of its calls. \<^verbatim>\<open>Pkg_Candidates\<close>: what suits a dependency and what a
    registry offers, said without the resolver's own checks, and that the code's check and its candidates agree with that. \<^verbatim>\<open>Pkg_Sound, Pkg_Locked, Pkg_Writers,
    Pkg_Properties\<close>: what resolved graphs satisfy, what the lock does, the two lock writers, and the claims.

  \<^bold>\<open>How code is rendered.\<close> Go functions keep their names (with a suffix or prefix where HOL has the
  name already). Structs are records, enumerations datatypes, byte slices and strings lists of
  bytes; hashes, version numbers and counters keep their 64 bits; offsets, ids and revisions are natural
  numbers. Panics and error returns are values. Pointers shared through a cache (the handle
  table of \<^verbatim>\<open>red.go\<close>, the slot table of \<^verbatim>\<open>query.go\<close>) are explicit state that operations return.

  \<^bold>\<open>Recursion.\<close> Parser functions call each other through the token stream, and some loops stop only
  because a guard (\<open>recoverIfStalled\<close>) eats a token. The recursion through types, patterns and expressions
  carries fuel, in \<open>ParseGreen\<close> one more than the number of tokens for each of them; running out of fuel is a panic of the
  model, so the theorem that \<open>ParseGreen\<close> never panics also says that the fuel is enough, for every token
  stream. The walks of \<^verbatim>\<open>red.go\<close> recurse over the arena, which is well founded because children are
  stored before parents. The query engine recurses through bodies it does not control; its
  fuel counts nested queries, and what is enough for evaluating a query from scratch is shown to be
  enough for the engine. The work list of the constant analysis carries fuel
  \<open>2 * blocks * (instructions + 1) + 2\<close>: an entry state only ever loses bindings, and it has at most one per assignment. The segment fusion carries
  twice the length of a block plus one, since each turn drops a split call or moves on. Both are shown to be enough for functions that the validator accepts. The resolver's
  search carries fuel that counts requests: those of the root and as many for each name as a manifest declares are enough, since a request adds a node or is dropped.
  The depth-first order carries one more than the nodes. The TOML parser carries fuel for its loops and for nested values, one more than the
  bytes to read, and is shown never to run out. For the query engine, running out is a separate outcome, which the theorem on cycles uses.

  \<^bold>\<open>What is shown.\<close>
  \<^item> Syntax trees: trivia cover the bytes between tokens exactly once; attachment keeps every
    trivium once and in order; builders and parser never panic and lose no token, on any input; for tokens in source order that
    cut no trivia run (\<open>toks_fit\<close>) the tree reconstructs the source byte for byte, however malformed the program, and \<open>ValidateTree\<close> reports exactly
    the empty structural nodes; interning shares; the searches of the red view agree with the
    pre-order; parents and children are inverse to each other.
  \<^item> Decision trees: every compiled tree passes the validator; on flat matches (distinct variants or literals of
    one kind, no guards, payloads that match) running the tree selects the arm and the bindings that trying the arms
    in order selects. Outside that class the trees are wrong: a switch over variants looks at
    no payload and at no later arm, and a chain that starts with an or-pattern or a range takes its first arm.
  \<^item> MIR: the analysis ends and each constant that it reports is the value at run time; the loop of passes returns a function that
    refines its argument; the counter fusion does so if values are read once; and the whole optimiser maps modules that the validator
    accepts to such modules, without a panic.
  \<^item> Versions: printing and parsing are inverse; \<open>Compare\<close> is a linear order up to build metadata
    (the locale \<open>comparison\<close>, interpreted by a key into a linear order), and so does the order of the package core, which agrees with it on ordinary identifiers; a caret requirement accepts exactly the
    compatible versions; \<open>Max\<close> selects a newest match; the bounds of a range wrap at 64 bits.
  \<^item> Queries: after any sequence of edits and successful reads, a read returns a value with the hash of what evaluation from scratch on the
    inputs returns (the locale \<open>engine_level\<close> states the contract of the recursive call, and is
    interpreted by the engine at every fuel); a second read is a hit; setting a value of equal hash
    is no edit. The engine compares hashes only, and hash functions may collide; bodies are assumed to answer reads of equal hashes with results of
    equal hashes.
  \<^item> Lock files: the TOML parser ends on every input, and stores every key once at every depth; a lock written and read back is the lock
    in sorted order, and is written as the same text again; the package core writes the same bytes.
  \<^item> Dependencies: a resolved graph serves every declared dependency by a package from the declared place and of an accepted version, has no cycle, and is ordered
    leaves first, whatever the iteration order of Go's maps; the search ends, and finds a graph if there is one; it keeps to the versions that the
    lock pins; which graphs can be locked, and which differences of locks are reported.
  \<^item> Defects found on the way are theorems, some of them about one concrete input: nested type arguments that swallow an
    initialiser, an empty enum that validation rejects, matches whose decision tree takes the wrong arm, a caret range that wraps to nothing, requirements
    that accept more or less than their comments say, a cycle created by an edit that is never
    reported, frames that survive a panic, pre-release identifiers that the two version implementations order differently, control characters that are written to a lock file and cannot be read back, counters and split
    strings that the MIR optimiser miscompiles, a second optimisation that still changes the function.

  \<^bold>\<open>Not modelled.\<close> The lexer, the name resolver and most of the checker are generated from Osty sources
  (\<^verbatim>\<open>src/internal/selfhost\<close>) and are not hand-written Go. Lowering depends on the whole syntax tree; code generation produces text and
  machine code for an external tool chain. Of MIR the layout tables, the printer and the JSON form are left out. Locks are left out: every entry point of the query engine holds one
  mutex. \<open>Token.String\<close>, the wording of error messages and access to files are left out. Of the package manager, archives, hashing, vendoring and the parsing of manifests are
  left out, as are the parts of the package core that the host does not call. Types and substitution (\<^verbatim>\<open>src/internal/types\<close>) and the monomorphisation of
  \<^verbatim>\<open>src/internal/ir\<close> are hand-written and not yet modelled.
\<close>

end
